(* ===== verification/Prelude.thy ===== *)
theory Prelude
  imports Complex_Main "HOL-Library.AList"
begin

text \<open>
  Shared vocabulary of the development.

  Python exceptions are the constructors of \<open>py_error\<close>; a method that may raise returns
  \<open>'a result\<close>, with \<open>Inl\<close> for the raised exception. Python dictionaries are association
  lists in insertion order (\<open>AList.update\<close> keeps the position of a key that is present and
  appends a new one, as \<open>d[k] = v\<close> does; \<open>AList.delete\<close> is \<open>d.pop(k, None)\<close>; lookup is
  \<open>map_of\<close>). Python integers are \<open>int\<close>; \<open>//\<close> is \<open>div\<close>, which rounds towards minus
  infinity in both languages.
\<close>

section \<open>Collections of simplification rules\<close>

named_theorems frame_simps \<open>fields an operation leaves alone\<close>
named_theorems result_simps \<open>evaluation of the result monad\<close>

section \<open>Results of operations that may raise\<close>

datatype py_error =
    ValueError
  | RuntimeError
  | AssertionError
  | IndexError
  | KeyError
  | NotImplementedError
  | OverflowError
  | StopIteration
  | TypeError
  | AttributeError
  | RecursionError
  | ZeroDivisionError
  | RegexError
  | UnsupportedConstraintError \<comment> \<open>a subclass of \<open>NotImplementedError\<close>, \<open>sim/grammar.py\<close>\<close>

type_synonym 'a result = "py_error + 'a"

definition rbind :: "'a result \<Rightarrow> ('a \<Rightarrow> 'b result) \<Rightarrow> 'b result" where
  "rbind m f = (case m of Inl e \<Rightarrow> Inl e | Inr x \<Rightarrow> f x)"

lemma rbind_Inl [simp, result_simps]: "rbind (Inl e) f = Inl e"
  by (simp add: rbind_def)

lemma rbind_Inr [simp, result_simps]: "rbind (Inr x) f = f x"
  by (simp add: rbind_def)

lemma rbind_eq_Inr_iff: "rbind m f = Inr y \<longleftrightarrow> (\<exists>x. m = Inr x \<and> f x = Inr y)"
  by (cases m) auto

lemma rbind_InrE:
  assumes "rbind m f = Inr y"
  obtains x where "m = Inr x" and "f x = Inr y"
  using assms by (auto simp: rbind_eq_Inr_iff)

lemma rbind_cong [fundef_cong]:
  "m = m' \<Longrightarrow> (\<And>x. m' = Inr x \<Longrightarrow> f x = f' x) \<Longrightarrow> rbind m f = rbind m' f'"
  by (cases m') auto

lemma rbind_assoc: "rbind (rbind m f) g = rbind m (\<lambda>x. rbind (f x) g)"
  by (cases m) auto

text \<open>A \<open>for\<close> loop whose body may raise.\<close>

fun foldE :: "('x \<Rightarrow> 's \<Rightarrow> 's result) \<Rightarrow> 'x list \<Rightarrow> 's \<Rightarrow> 's result" where
  "foldE f [] s = Inr s"
| "foldE f (x # xs) s = rbind (f x s) (foldE f xs)"

lemma foldE_append: "foldE f (xs @ ys) s = rbind (foldE f xs s) (foldE f ys)"
  by (induction xs arbitrary: s) (auto simp: rbind_assoc, metis rbind_assoc)

text \<open>The loop rule: an invariant the body keeps holds at the end, and the loop does not raise.\<close>

lemma foldE_invariant:
  assumes "I [] s"
    and "\<And>done x todo s. xs = done @ x # todo \<Longrightarrow> I done s \<Longrightarrow> \<exists>s'. f x s = Inr s' \<and> I (done @ [x]) s'"
  shows "\<exists>s'. foldE f xs s = Inr s' \<and> I xs s'"
proof -
  have "\<exists>s'. foldE f todo t = Inr s' \<and> I xs s'" if "xs = done @ todo" "I done t" for "done" todo t
    using that
  proof (induction todo arbitrary: "done" t)
    case Nil
    then show ?case by simp
  next
    case (Cons x todo)
    from assms(2) [OF Cons.prems] obtain t' where "f x t = Inr t'" and "I (done @ [x]) t'"
      by blast
    with Cons.IH [of "done @ [x]" t'] Cons.prems show ?case by simp
  qed
  from this [of "[]" xs s] assms(1) show ?thesis by simp
qed

section \<open>Ceiling division\<close>

text \<open>The idiom \<open>-(-a // b)\<close> of the sources.\<close>

definition ceil_div :: "int \<Rightarrow> int \<Rightarrow> int" where
  "ceil_div a b = - ((- a) div b)"

lemma le_div_iff_mult_le: "0 < b \<Longrightarrow> n \<le> x div b \<longleftrightarrow> n * b \<le> x" for n x b :: int
proof
  assume b: "0 < b" and "n \<le> x div b"
  then have "n * b \<le> (x div b) * b" by simp
  also have "\<dots> \<le> x" using b by (metis div_mult_mod_eq le_add_same_cancel1 pos_mod_sign)
  finally show "n * b \<le> x" .
next
  assume b: "0 < b" and le: "n * b \<le> x"
  have "n = (n * b) div b" using b by simp
  also have "\<dots> \<le> x div b" by (rule zdiv_mono1 [OF le b])
  finally show "n \<le> x div b" .
qed

lemma ceil_div_le_iff: "0 < b \<Longrightarrow> ceil_div a b \<le> n \<longleftrightarrow> a \<le> n * b"
  using le_div_iff_mult_le [of b "- n" "- a"] by (auto simp: ceil_div_def)

lemma ceil_div_nonneg: "0 < b \<Longrightarrow> 0 \<le> a \<Longrightarrow> 0 \<le> ceil_div a b"
  using ceil_div_le_iff [of b a "-1"] by (smt (verit) mult_minus_left mult_1)

lemma ceil_div_mult [simp]: "0 < b \<Longrightarrow> ceil_div (n * b) b = n"
  by (simp add: ceil_div_def minus_mult_left del: mult_minus_left)


section \<open>Slices\<close>

text \<open>\<open>xs[a:b]\<close> for bounds that are not negative.\<close>

definition slice :: "'a list \<Rightarrow> int \<Rightarrow> int \<Rightarrow> 'a list" where
  "slice xs a b = take (nat b - nat a) (drop (nat a) xs)"

lemma slice_append [simp]: "nat b \<le> length xs \<Longrightarrow> slice (xs @ ys) a b = slice xs a b"
  by (auto simp: slice_def)

lemma length_slice: "0 \<le> a \<Longrightarrow> a \<le> b \<Longrightarrow> b \<le> int (length xs) \<Longrightarrow> length (slice xs a b) = nat (b - a)"
  by (simp add: slice_def nat_diff_distrib)

lemma slice_concat: "0 \<le> a \<Longrightarrow> a \<le> b \<Longrightarrow> slice xs 0 a @ slice xs a b = slice xs 0 b"
  by (simp add: slice_def) (metis le_add_diff_inverse nat_mono take_add)

section \<open>Values of json\<close>

datatype json =
    JNull
  | JBool bool
  | JInt int
  | JNum rat
  | JStr string
  | JArr "json list"
  | JObj "(string \<times> json) list"

section \<open>Numbers as text\<close>

text \<open>\<open>string.digits\<close> and \<open>str\<close> of a natural number.\<close>

definition digit_chars :: string where
  "digit_chars = ''0123456789''"

fun show_nat :: "nat \<Rightarrow> string" where
  "show_nat n = (if n < 10 then [digit_chars ! n] else show_nat (n div 10) @ [digit_chars ! (n mod 10)])"

declare show_nat.simps [simp del]

lemma show_nat_nonempty: "show_nat n \<noteq> []"
  by (subst show_nat.simps) simp

end
