(* ===== verification/FreeQueue.thy ===== *)
theory FreeQueue
  imports Prelude
begin

text \<open>
  \<open>KVCacheBlock\<close> and \<open>FreeKVCacheBlockQueue\<close> of \<open>pvllm/v1/core/kv_cache_utils.py\<close>.

  The queue of free blocks is an intrusive doubly linked list: the links are fields of the
  blocks. The model keeps the blocks in a store indexed by references (the block with id
  \<open>i\<close> is \<open>Blk i\<close>, the two sentinels are \<open>FakeHead\<close> and \<open>FakeTail\<close>), and every method
  performs the assignments of the source, in its order, on that store. The first half holds
  the methods; the second half shows that they implement a plain list of references.
\<close>

section \<open>Blocks\<close>

datatype bref = FakeHead | FakeTail | Blk nat

type_synonym block_key = string \<comment> \<open>\<open>BlockHashWithGroupId\<close>, a byte string\<close>

record kv_block =
  ref_cnt :: int
  block_hash :: "block_key option"
  prev_free_block :: "bref option"
  next_free_block :: "bref option"
  is_null :: bool

text \<open>\<open>block_id\<close> is assigned once, at construction, so it is a function of the reference.\<close>

fun block_id :: "bref \<Rightarrow> int" where
  "block_id (Blk i) = int i"
| "block_id FakeHead = -1"
| "block_id FakeTail = -1"

definition new_block :: kv_block where
  "new_block = \<lparr>ref_cnt = 0, block_hash = None, prev_free_block = None,
                next_free_block = None, is_null = False\<rparr>"

type_synonym store = "bref \<Rightarrow> kv_block"

definition set_prev :: "bref \<Rightarrow> bref option \<Rightarrow> store \<Rightarrow> store" where
  "set_prev b p h = h(b := (h b)\<lparr>prev_free_block := p\<rparr>)"

definition set_next :: "bref \<Rightarrow> bref option \<Rightarrow> store \<Rightarrow> store" where
  "set_next b p h = h(b := (h b)\<lparr>next_free_block := p\<rparr>)"

definition set_block_hash :: "bref \<Rightarrow> block_key \<Rightarrow> store \<Rightarrow> store result" where
  "set_block_hash b key h =
     (if block_hash (h b) \<noteq> None then Inl AssertionError
      else Inr (h(b := (h b)\<lparr>block_hash := Some key\<rparr>)))"

definition reset_hash :: "bref \<Rightarrow> store \<Rightarrow> store" where
  "reset_hash b h = h(b := (h b)\<lparr>block_hash := None\<rparr>)"

section \<open>The queue's methods\<close>

record free_queue =
  fq_blocks :: store
  num_free_blocks :: int

text \<open>\<open>__init__\<close>: link each block to its neighbours, then the ends to the sentinels.\<close>

definition link_block :: "bref list \<Rightarrow> nat \<Rightarrow> store \<Rightarrow> store" where
  "link_block bs i h =
     (let h1 = (if 0 < i then set_prev (bs ! i) (Some (bs ! (i - 1))) h else h)
      in if int i < int (length bs) - 1 then set_next (bs ! i) (Some (bs ! (i + 1))) h1 else h1)"

definition fq_init :: "bref list \<Rightarrow> store \<Rightarrow> free_queue" where
  "fq_init bs h =
     (let n = length bs;
          h1 = fold (link_block bs) [0..<n] h;
          h2 = h1(FakeHead := new_block, FakeTail := new_block);
          h3 = (if 0 < n then
                  set_next (last bs) (Some FakeTail)
                    (set_prev FakeTail (Some (last bs))
                      (set_prev (hd bs) (Some FakeHead)
                        (set_next FakeHead (Some (hd bs)) h2)))
                else
                  set_prev FakeTail (Some FakeHead)
                    (set_next FakeHead (Some FakeTail) h2))
      in \<lparr>fq_blocks = h3, num_free_blocks = int n\<rparr>)"

definition popleft :: "free_queue \<Rightarrow> (bref \<times> free_queue) result" where
  "popleft q =
     (let h = fq_blocks q;
          empty = (if num_free_blocks q = 0 then Inl ValueError else Inl AssertionError)
      in case next_free_block (h FakeHead) of
           None \<Rightarrow> empty
         | Some first \<Rightarrow>
             if first = FakeTail then empty
             else (case next_free_block (h first) of
                     None \<Rightarrow> Inl RuntimeError
                   | Some second \<Rightarrow>
                       let h1 = set_next FakeHead (Some second) h;
                           h2 = set_prev second (Some FakeHead) h1;
                           h3 = set_next first None (set_prev first None h2)
                       in Inr (first, \<lparr>fq_blocks = h3, num_free_blocks = num_free_blocks q - 1\<rparr>)))"

fun popleft_loop ::
  "nat \<Rightarrow> bref option \<Rightarrow> store \<Rightarrow> bref list \<Rightarrow> (bref list \<times> bref option \<times> store) result" where
  "popleft_loop 0 cur h popped = Inr (popped, cur, h)"
| "popleft_loop (Suc k) None h popped = Inl AssertionError"
| "popleft_loop (Suc k) (Some c) h popped =
     popleft_loop k (next_free_block (h c)) (set_next c None (set_prev c None h)) (popped @ [c])"

definition popleft_n :: "nat \<Rightarrow> free_queue \<Rightarrow> (bref list \<times> free_queue) result" where
  "popleft_n n q =
     (if n = 0 then Inr ([], q)
      else if num_free_blocks q < int n then Inl AssertionError
      else
        rbind (popleft_loop n (next_free_block (fq_blocks q FakeHead)) (fq_blocks q) [])
          (\<lambda>(popped, cur, h).
            Inr (popped,
              \<lparr>fq_blocks = (case cur of None \<Rightarrow> h
                            | Some c \<Rightarrow> set_prev c (Some FakeHead) (set_next FakeHead (Some c) h)),
               num_free_blocks = num_free_blocks q - int n\<rparr>)))"

definition remove_block :: "bref \<Rightarrow> free_queue \<Rightarrow> free_queue result" where
  "remove_block b q =
     (let h = fq_blocks q
      in case (prev_free_block (h b), next_free_block (h b)) of
           (Some p, Some n) \<Rightarrow>
             let h1 = set_next p (Some n) h;
                 h2 = set_prev n (Some p) h1;
                 h3 = set_next b None (set_prev b None h2)
             in Inr \<lparr>fq_blocks = h3, num_free_blocks = num_free_blocks q - 1\<rparr>
         | _ \<Rightarrow> Inl RuntimeError)"

definition append_block :: "bref \<Rightarrow> free_queue \<Rightarrow> free_queue result" where
  "append_block b q =
     (let h = fq_blocks q
      in case prev_free_block (h FakeTail) of
           None \<Rightarrow> Inl RuntimeError
         | Some last_block \<Rightarrow>
             let h1 = set_next last_block (Some b) h;
                 h2 = set_prev b (Some last_block) h1;
                 h3 = set_next b (Some FakeTail) h2;
                 h4 = set_prev FakeTail (Some b) h3
             in Inr \<lparr>fq_blocks = h4, num_free_blocks = num_free_blocks q + 1\<rparr>)"

text \<open>
  The loops of \<open>append_n\<close> and \<open>prepend_n\<close>: each block is linked behind the one before it.
  The result is the store and the last block linked.
\<close>

fun link_run :: "bref list \<Rightarrow> bref \<Rightarrow> store \<Rightarrow> bref \<times> store" where
  "link_run [] prv h = (prv, h)"
| "link_run (b # bs) prv h = link_run bs b (set_next prv (Some b) (set_prev b (Some prv) h))"

definition append_n :: "bref list \<Rightarrow> free_queue \<Rightarrow> free_queue result" where
  "append_n bs q =
     (if bs = [] then Inr q
      else case prev_free_block (fq_blocks q FakeTail) of
             None \<Rightarrow> Inl AssertionError
           | Some last_block \<Rightarrow>
               let (lst, h) = link_run bs last_block (fq_blocks q);
                   h1 = set_next lst (Some FakeTail) h;
                   h2 = set_prev FakeTail (Some lst) h1
               in Inr \<lparr>fq_blocks = h2, num_free_blocks = num_free_blocks q + int (length bs)\<rparr>)"

definition prepend_n :: "bref list \<Rightarrow> free_queue \<Rightarrow> free_queue result" where
  "prepend_n bs q =
     (if bs = [] then Inr q
      else case next_free_block (fq_blocks q FakeHead) of
             None \<Rightarrow> Inl AssertionError
           | Some first_block \<Rightarrow>
               let (lst, h) = link_run bs FakeHead (fq_blocks q);
                   h1 = set_next lst (Some first_block) h;
                   h2 = set_prev first_block (Some lst) h1
               in Inr \<lparr>fq_blocks = h2, num_free_blocks = num_free_blocks q + int (length bs)\<rparr>)"

text \<open>
  \<open>get_all_free_blocks\<close> walks the links until it meets \<open>None\<close> or the tail sentinel. On a
  corrupted (cyclic) list the walk does not end, so its value is an option: \<open>None\<close> stands
  for not returning.
\<close>

partial_function (option) walk_free :: "store \<Rightarrow> bref option \<Rightarrow> bref list \<Rightarrow> bref list option" where
  "walk_free h cur acc =
     (case cur of None \<Rightarrow> Some acc
      | Some c \<Rightarrow> if c = FakeTail then Some acc
                  else walk_free h (next_free_block (h c)) (acc @ [c]))"

definition get_all_free_blocks :: "free_queue \<Rightarrow> bref list option" where
  "get_all_free_blocks q = walk_free (fq_blocks q) (next_free_block (fq_blocks q FakeHead)) []"

definition free_block_ids :: "bref list \<Rightarrow> int list" where
  "free_block_ids bs = map block_id bs"


section \<open>What a queue represents\<close>

text \<open>
  \<open>chain h ns\<close>: consecutive nodes of \<open>ns\<close> point at each other. A queue represents the list
  \<open>xs\<close> when the sentinels and \<open>xs\<close> between them form a chain without repetitions, the counter
  is the length, and the blocks outside the queue have no links.
\<close>

fun chain :: "store \<Rightarrow> bref list \<Rightarrow> bool" where
  "chain h (a # b # ns) \<longleftrightarrow>
     next_free_block (h a) = Some b \<and> prev_free_block (h b) = Some a \<and> chain h (b # ns)"
| "chain h _ \<longleftrightarrow> True"

definition fq_repr :: "free_queue \<Rightarrow> bref list \<Rightarrow> bool" where
  "fq_repr q xs \<longleftrightarrow>
     chain (fq_blocks q) (FakeHead # xs @ [FakeTail]) \<and>
     distinct (FakeHead # xs @ [FakeTail]) \<and>
     num_free_blocks q = int (length xs) \<and>
     (\<forall>i. Blk i \<notin> set xs \<longrightarrow>
        prev_free_block (fq_blocks q (Blk i)) = None \<and>
        next_free_block (fq_blocks q (Blk i)) = None)"

lemma chain_snoc_append: "chain h (xs @ a # ys) \<longleftrightarrow> chain h (xs @ [a]) \<and> chain h (a # ys)"
proof (induction xs)
  case Nil
  then show ?case by simp
next
  case (Cons x xs)
  then show ?case by (cases xs) auto
qed

lemma chain_cong:
  assumes "\<And>b. b \<in> set (butlast ns) \<Longrightarrow> next_free_block (h' b) = next_free_block (h b)"
    and "\<And>b. b \<in> set (tl ns) \<Longrightarrow> prev_free_block (h' b) = prev_free_block (h b)"
  shows "chain h' ns \<longleftrightarrow> chain h ns"
  using assms
proof (induction h ns rule: chain.induct)
  case (1 h a b ns)
  have "chain h' (b # ns) \<longleftrightarrow> chain h (b # ns)"
  proof (rule "1.IH")
    show "next_free_block (h' c) = next_free_block (h c)" if "c \<in> set (butlast (b # ns))" for c
      using "1.prems"(1) [of c] that by (cases ns) auto
    show "prev_free_block (h' c) = prev_free_block (h c)" if "c \<in> set (tl (b # ns))" for c
      using "1.prems"(2) [of c] that by auto
  qed
  with "1.prems" show ?case by (cases ns) auto
qed auto

lemma links_upd [simp]:
  "next_free_block (set_prev b p h c) = next_free_block (h c)"
  "prev_free_block (set_next b p h c) = prev_free_block (h c)"
  "next_free_block (set_next b p h c) = (if c = b then p else next_free_block (h c))"
  "prev_free_block (set_prev b p h c) = (if c = b then p else prev_free_block (h c))"
  by (auto simp: set_prev_def set_next_def)

text \<open>The fields the queue never writes.\<close>

definition same_meta :: "store \<Rightarrow> store \<Rightarrow> bool" where
  "same_meta h h' \<longleftrightarrow>
     (\<forall>b. ref_cnt (h' b) = ref_cnt (h b) \<and> block_hash (h' b) = block_hash (h b) \<and>
          is_null (h' b) = is_null (h b))"

lemma same_meta_refl [simp, intro]: "same_meta h h"
  by (simp add: same_meta_def)

lemma same_meta_trans: "same_meta h h' \<Longrightarrow> same_meta h' h'' \<Longrightarrow> same_meta h h''"
  by (simp add: same_meta_def)

lemma same_meta_set [simp]:
  "same_meta h (set_prev b p h') \<longleftrightarrow> same_meta h h'"
  "same_meta h (set_next b p h') \<longleftrightarrow> same_meta h h'"
  by (auto simp: same_meta_def set_prev_def set_next_def)

text \<open>The fields only the queue writes: representation depends on nothing else.\<close>

definition same_links :: "store \<Rightarrow> store \<Rightarrow> bool" where
  "same_links h h' \<longleftrightarrow>
     (\<forall>b. prev_free_block (h' b) = prev_free_block (h b) \<and>
          next_free_block (h' b) = next_free_block (h b))"

lemma fq_repr_same_links:
  "same_links (fq_blocks q) (fq_blocks q') \<Longrightarrow> num_free_blocks q' = num_free_blocks q \<Longrightarrow>
   fq_repr q' xs \<longleftrightarrow> fq_repr q xs"
  using chain_cong [of "FakeHead # xs @ [FakeTail]" "fq_blocks q'" "fq_blocks q"]
  by (simp add: fq_repr_def same_links_def)

section \<open>The methods implement a list\<close>

lemma fq_reprD:
  assumes "fq_repr q xs"
  shows "chain (fq_blocks q) (FakeHead # xs @ [FakeTail])"
    and "distinct xs" and "FakeHead \<notin> set xs" and "FakeTail \<notin> set xs"
    and "num_free_blocks q = int (length xs)"
  using assms by (auto simp: fq_repr_def)

lemma chain_head_next: "chain h (a # xs @ [z]) \<Longrightarrow> next_free_block (h a) = Some (hd (xs @ [z]))"
  by (cases xs) auto

lemma chain_last_prev: "chain h (a # xs @ [z]) \<Longrightarrow> prev_free_block (h z) = Some (last (a # xs))"
proof (induction xs arbitrary: a)
  case Nil
  then show ?case by simp
next
  case (Cons x xs)
  from Cons.prems have "chain h (x # xs @ [z])" by simp
  with Cons.IH show ?case by simp
qed

text \<open>\<open>popleft_n\<close> detaches the first \<open>n\<close> nodes.\<close>

fun detach :: "bref list \<Rightarrow> store \<Rightarrow> store" where
  "detach [] h = h"
| "detach (b # bs) h = detach bs (set_next b None (set_prev b None h))"

lemma detach_links [simp]:
  "next_free_block (detach bs h c) = (if c \<in> set bs then None else next_free_block (h c))"
  "prev_free_block (detach bs h c) = (if c \<in> set bs then None else prev_free_block (h c))"
  by (induction bs arbitrary: h) auto

lemma same_meta_detach [simp]: "same_meta h (detach bs h') \<longleftrightarrow> same_meta h h'"
  by (induction bs arbitrary: h') auto

lemma popleft_loop_chain:
  "chain h (ys @ [z]) \<Longrightarrow> distinct (ys @ [z]) \<Longrightarrow>
   popleft_loop (length ys) (Some (hd (ys @ [z]))) h acc = Inr (acc @ ys, Some z, detach ys h)"
proof (induction ys arbitrary: h acc)
  case Nil
  then show ?case by simp
next
  case (Cons y ys)
  let ?h = "set_next y None (set_prev y None h)"
  have nxt: "next_free_block (h y) = Some (hd (ys @ [z]))"
    using Cons.prems(1) by (simp add: chain_head_next)
  have "chain h (ys @ [z])"
    using Cons.prems(1) by (cases ys) auto
  moreover have "chain ?h (ys @ [z]) \<longleftrightarrow> chain h (ys @ [z])"
    using Cons.prems(2) by (intro chain_cong; cases ys) (auto dest: in_set_butlastD)
  ultimately have "popleft_loop (length ys) (Some (hd (ys @ [z]))) ?h (acc @ [y]) =
      Inr ((acc @ [y]) @ ys, Some z, detach ys ?h)"
    using Cons.prems(2) by (intro Cons.IH) auto
  with nxt show ?case by simp
qed


lemma chain_join:
  "chain h (xs @ a # b # ys) \<longleftrightarrow>
   chain h (xs @ [a]) \<and> next_free_block (h a) = Some b \<and> prev_free_block (h b) = Some a \<and>
   chain h (b # ys)"
  by (subst chain_snoc_append) auto

lemma popleft_n_repr:
  assumes "fq_repr q (ys @ zs)"
  shows "\<exists>q'. popleft_n (length ys) q = Inr (ys, q') \<and> fq_repr q' zs \<and>
              same_meta (fq_blocks q) (fq_blocks q')"
proof (cases "ys = []")
  case True
  with assms show ?thesis by (simp add: popleft_n_def)
next
  case False
  let ?h = "fq_blocks q"
  obtain z rest where zr: "zs @ [FakeTail] = z # rest" by (cases zs) auto
  have nodes: "FakeHead # (ys @ zs) @ [FakeTail] = FakeHead # ys @ z # rest" by (simp add: zr)
  from assms have ch: "chain ?h (FakeHead # ys @ z # rest)"
    and dist: "distinct (FakeHead # ys @ z # rest)" and num: "num_free_blocks q = int (length (ys @ zs))"
    and out: "\<And>i. Blk i \<notin> set (ys @ zs) \<Longrightarrow>
      prev_free_block (?h (Blk i)) = None \<and> next_free_block (?h (Blk i)) = None"
    unfolding fq_repr_def nodes by blast+
  from ch have ch_ys: "chain ?h ((FakeHead # ys) @ [z])" and ch_zs: "chain ?h (z # rest)"
    by (auto simp: chain_snoc_append [of _ "FakeHead # ys" z rest, simplified])
  let ?h' = "set_prev z (Some FakeHead) (set_next FakeHead (Some z) (detach ys ?h))"
  let ?q' = "\<lparr>fq_blocks = ?h', num_free_blocks = num_free_blocks q - int (length ys)\<rparr>"
  have "chain ?h (ys @ [z])" using ch_ys False by (cases ys) auto
  then have "popleft_loop (length ys) (Some (hd (ys @ [z]))) ?h [] = Inr (ys, Some z, detach ys ?h)"
    using dist popleft_loop_chain [of ?h ys z "[]"] by simp
  moreover have "next_free_block (?h FakeHead) = Some (hd (ys @ [z]))"
    using ch_ys chain_head_next [of ?h FakeHead ys z] by simp
  ultimately have "popleft_n (length ys) q = Inr (ys, ?q')"
    using False num by (simp add: popleft_n_def)
  moreover have "fq_repr ?q' zs"
  proof -
    have "chain ?h' (z # rest) \<longleftrightarrow> chain ?h (z # rest)"
      using dist by (intro chain_cong) (auto dest: in_set_butlastD split: if_splits)
    with ch_zs have "chain ?h' (FakeHead # zs @ [FakeTail])" by (simp add: zr)
    moreover have "distinct (FakeHead # zs @ [FakeTail])" using dist by (auto simp: zr)
    moreover have "Blk i \<noteq> z \<or> Blk i \<in> set zs" for i using zr by (cases zs) auto
    ultimately show ?thesis using num out by (auto simp: fq_repr_def)
  qed
  ultimately show ?thesis by simp
qed

lemma remove_repr:
  assumes "fq_repr q (xs @ b # ys)"
  shows "\<exists>q'. remove_block b q = Inr q' \<and> fq_repr q' (xs @ ys) \<and>
              same_meta (fq_blocks q) (fq_blocks q')"
proof -
  let ?h = "fq_blocks q"
  obtain ps p where ps: "FakeHead # xs = ps @ [p]" by (cases xs rule: rev_cases) auto
  obtain n ns where ns: "ys @ [FakeTail] = n # ns" by (cases ys) auto
  have nodes: "FakeHead # (xs @ b # ys) @ [FakeTail] = ps @ p # b # n # ns"
    and nodes': "FakeHead # (xs @ ys) @ [FakeTail] = ps @ p # n # ns"
    using ps ns by (metis append.assoc append_Cons append_Nil)+
  from assms have ch: "chain ?h (ps @ p # b # n # ns)" and dist: "distinct (ps @ p # b # n # ns)"
    and num: "num_free_blocks q = int (length (xs @ b # ys))"
    and out: "\<And>i. Blk i \<notin> set (xs @ b # ys) \<Longrightarrow>
      prev_free_block (?h (Blk i)) = None \<and> next_free_block (?h (Blk i)) = None"
    unfolding fq_repr_def nodes by auto
  from ch have ch_ps: "chain ?h (ps @ [p])" and pb: "prev_free_block (?h b) = Some p"
    and bn: "next_free_block (?h b) = Some n" and ch_ns: "chain ?h (n # ns)"
    by (auto simp: chain_join)
  let ?h' = "set_next b None (set_prev b None (set_prev n (Some p) (set_next p (Some n) ?h)))"
  let ?q' = "\<lparr>fq_blocks = ?h', num_free_blocks = num_free_blocks q - 1\<rparr>"
  have "remove_block b q = Inr ?q'" using pb bn by (simp add: remove_block_def)
  moreover have "fq_repr ?q' (xs @ ys)"
  proof -
    have "chain ?h' (ps @ [p]) \<longleftrightarrow> chain ?h (ps @ [p])"
      using dist by (intro chain_cong; cases ps) (auto dest: in_set_butlastD)
    moreover have "chain ?h' (n # ns) \<longleftrightarrow> chain ?h (n # ns)"
      using dist by (intro chain_cong) (auto dest: in_set_butlastD split: if_splits)
    moreover have "b \<noteq> p" "b \<noteq> n" "n \<noteq> p" using dist by auto
    ultimately have "chain ?h' (ps @ p # n # ns)" using ch_ps ch_ns by (simp add: chain_join)
    moreover have "Blk i = p \<Longrightarrow> Blk i \<in> set xs" "Blk i = n \<Longrightarrow> Blk i \<in> set ys" for i
      using ps ns by (metis append.right_neutral bref.distinct(3,5) last_ConsL last_ConsR last_in_set last_snoc,
        metis bref.distinct(5) append_Nil hd_append2 hd_in_set list.sel(1))
    ultimately show ?thesis using dist num out unfolding fq_repr_def nodes' by auto
  qed
  ultimately show ?thesis by simp
qed

lemma link_run_props:
  assumes "distinct (prv # bs)"
  shows "fst (link_run bs prv h) = last (prv # bs)"
    and "chain (snd (link_run bs prv h)) (prv # bs)"
    and "c \<notin> set bs \<Longrightarrow> prev_free_block (snd (link_run bs prv h) c) = prev_free_block (h c)"
    and "c \<notin> set (butlast (prv # bs)) \<Longrightarrow>
           next_free_block (snd (link_run bs prv h) c) = next_free_block (h c)"
    and "same_meta h (snd (link_run bs prv h))"
proof -
  let ?P = "\<lambda>bs prv h. fst (link_run bs prv h) = last (prv # bs) \<and>
    chain (snd (link_run bs prv h)) (prv # bs) \<and>
    (\<forall>c. c \<notin> set bs \<longrightarrow> prev_free_block (snd (link_run bs prv h) c) = prev_free_block (h c)) \<and>
    (\<forall>c. c \<notin> set (butlast (prv # bs)) \<longrightarrow>
         next_free_block (snd (link_run bs prv h) c) = next_free_block (h c)) \<and>
    same_meta h (snd (link_run bs prv h))"
  have "?P bs prv h"
    using assms
  proof (induction bs arbitrary: prv h)
    case Nil
    then show ?case by simp
  next
    case (Cons b bs)
    let ?h = "set_next prv (Some b) (set_prev b (Some prv) h)"
    have IH: "?P bs b ?h" using Cons.prems by (intro Cons.IH) simp
    moreover have "prv \<notin> set (butlast (b # bs))"
      using Cons.prems by (metis distinct.simps(2) in_set_butlastD)
    moreover have "same_meta h (snd (link_run bs b ?h))"
      using IH by (auto intro: same_meta_trans [of h ?h])
    ultimately show ?case using Cons.prems by auto
  qed
  then show "fst (link_run bs prv h) = last (prv # bs)"
    and "chain (snd (link_run bs prv h)) (prv # bs)"
    and "c \<notin> set bs \<Longrightarrow> prev_free_block (snd (link_run bs prv h) c) = prev_free_block (h c)"
    and "c \<notin> set (butlast (prv # bs)) \<Longrightarrow>
           next_free_block (snd (link_run bs prv h) c) = next_free_block (h c)"
    and "same_meta h (snd (link_run bs prv h))"
    by blast+
qed


text \<open>Splicing a run of fresh blocks between two neighbours \<open>a\<close> and \<open>z\<close> of the chain.\<close>

lemma chain_splice:
  assumes ch: "chain h (ps @ a # z # ns)" and dist: "distinct (ps @ a # bs @ z # ns)"
    and "bs \<noteq> []"
  shows "\<exists>h'. link_run bs a h = (last bs, h') \<and>
    (\<forall>h''. h'' = set_prev z (Some (last bs)) (set_next (last bs) (Some z) h') \<longrightarrow>
       chain h'' (ps @ a # bs @ z # ns) \<and> same_meta h h'' \<and>
       (\<forall>c. c \<notin> set (ps @ a # bs @ z # ns) \<longrightarrow>
          prev_free_block (h'' c) = prev_free_block (h c) \<and>
          next_free_block (h'' c) = next_free_block (h c)))"
proof -
  obtain b bs' where bs: "bs = b # bs'" using \<open>bs \<noteq> []\<close> by (cases bs) auto
  obtain cs l where bl: "bs = cs @ [l]" using \<open>bs \<noteq> []\<close> by (cases bs rule: rev_cases) auto
  define h' where "h' = snd (link_run bs a h)"
  define h'' where "h'' = set_prev z (Some l) (set_next l (Some z) h')"
  have "distinct (a # bs)" using dist by auto
  note lr = link_run_props [OF this, where h = h, folded h'_def]
  have run: "link_run bs a h = (last bs, h')"
    using lr(1) \<open>bs \<noteq> []\<close> by (simp add: h'_def prod_eq_iff)
  have frame_prev: "prev_free_block (h'' c) = prev_free_block (h c)" if "c \<notin> set bs" "c \<noteq> z" for c
    using that lr(3) by (auto simp: h''_def)
  have frame_next: "next_free_block (h'' c) = next_free_block (h c)" if "c \<notin> set (a # bs)" for c
    using that lr(4) [of c] by (auto simp: h''_def bl dest: in_set_butlastD)
  from ch have ch1: "chain h (ps @ [a])" and ch2: "chain h (z # ns)" by (auto simp: chain_join)
  have "chain h'' (ps @ [a]) \<longleftrightarrow> chain h (ps @ [a])"
  proof (intro chain_cong)
    show "next_free_block (h'' c) = next_free_block (h c)" if "c \<in> set (butlast (ps @ [a]))" for c
      using that dist by (intro frame_next) auto
    show "prev_free_block (h'' c) = prev_free_block (h c)" if "c \<in> set (tl (ps @ [a]))" for c
      using that dist by (intro frame_prev; cases ps) auto
  qed
  moreover have "chain h'' (z # ns) \<longleftrightarrow> chain h (z # ns)"
  proof (intro chain_cong)
    show "next_free_block (h'' c) = next_free_block (h c)" if "c \<in> set (butlast (z # ns))" for c
      using in_set_butlastD [OF that] dist by (intro frame_next) auto
    show "prev_free_block (h'' c) = prev_free_block (h c)" if "c \<in> set (tl (z # ns))" for c
      using that dist by (intro frame_prev) auto
  qed
  moreover have "chain h'' (a # bs) \<longleftrightarrow> chain h' (a # bs)"
    using dist by (intro chain_cong) (auto simp: h''_def bl butlast_append)
  moreover have "prev_free_block (h'' z) = Some l" "next_free_block (h'' l) = Some z"
    using dist by (auto simp: h''_def bl)
  ultimately have "chain h'' (ps @ a # bs @ z # ns)"
    using ch1 ch2 lr(2) chain_snoc_append [of h'' ps a "bs @ z # ns"]
      chain_join [of h'' "a # cs" l z ns] by (simp add: bl)
  with run lr(5) frame_prev frame_next show ?thesis
    by (intro exI [of _ h']) (auto simp: h''_def bl)
qed

lemma append_n_repr:
  assumes repr: "fq_repr q xs" and fresh: "set bs \<inter> set xs = {}" "distinct bs"
    and "FakeHead \<notin> set bs" "FakeTail \<notin> set bs"
  shows "\<exists>q'. append_n bs q = Inr q' \<and> fq_repr q' (xs @ bs) \<and>
              same_meta (fq_blocks q) (fq_blocks q')"
proof (cases "bs = []")
  case True
  with repr show ?thesis by (simp add: append_n_def)
next
  case False
  let ?h = "fq_blocks q"
  obtain ps a where ps: "FakeHead # xs = ps @ [a]" by (cases xs rule: rev_cases) auto
  have nodes: "FakeHead # xs @ [FakeTail] = ps @ a # [FakeTail]"
    and nodes': "FakeHead # (xs @ bs) @ [FakeTail] = ps @ a # bs @ [FakeTail]"
    using ps by (metis append.assoc append_Cons append_Nil)+
  from repr have ch: "chain ?h (ps @ a # FakeTail # [])" and num: "num_free_blocks q = int (length xs)"
    and dist: "distinct (FakeHead # xs @ [FakeTail])"
    and out: "\<And>i. Blk i \<notin> set xs \<Longrightarrow>
      prev_free_block (?h (Blk i)) = None \<and> next_free_block (?h (Blk i)) = None"
    unfolding fq_repr_def nodes [symmetric] by auto
  have dist': "distinct (ps @ a # bs @ [FakeTail])"
    unfolding nodes' [symmetric] using dist assms by auto
  from chain_splice [OF ch dist' False] obtain h' where
    run: "link_run bs a ?h = (last bs, h')" and
    spl: "\<And>h''. h'' = set_prev FakeTail (Some (last bs)) (set_next (last bs) (Some FakeTail) h') \<Longrightarrow>
       chain h'' (ps @ a # bs @ [FakeTail]) \<and> same_meta ?h h'' \<and>
       (\<forall>c. c \<notin> set (ps @ a # bs @ [FakeTail]) \<longrightarrow>
          prev_free_block (h'' c) = prev_free_block (?h c) \<and>
          next_free_block (h'' c) = next_free_block (?h c))"
    by blast
  define h'' where "h'' = set_prev FakeTail (Some (last bs)) (set_next (last bs) (Some FakeTail) h')"
  have "prev_free_block (?h FakeTail) = Some a" using ch by (simp add: chain_join)
  then have "append_n bs q =
      Inr \<lparr>fq_blocks = h'', num_free_blocks = num_free_blocks q + int (length bs)\<rparr>"
    using False run by (simp add: append_n_def h''_def)
  moreover have "fq_repr \<lparr>fq_blocks = h'', num_free_blocks = num_free_blocks q + int (length bs)\<rparr> (xs @ bs)"
    using spl [OF h''_def] dist' num out unfolding fq_repr_def nodes'
    by (simp add: nodes' [symmetric])
  ultimately show ?thesis using spl [OF h''_def] by simp
qed

lemma prepend_n_repr:
  assumes repr: "fq_repr q xs" and fresh: "set bs \<inter> set xs = {}" "distinct bs"
    and "FakeHead \<notin> set bs" "FakeTail \<notin> set bs"
  shows "\<exists>q'. prepend_n bs q = Inr q' \<and> fq_repr q' (bs @ xs) \<and>
              same_meta (fq_blocks q) (fq_blocks q')"
proof (cases "bs = []")
  case True
  with repr show ?thesis by (simp add: prepend_n_def)
next
  case False
  let ?h = "fq_blocks q"
  obtain z ns where ns: "xs @ [FakeTail] = z # ns" by (cases xs) auto
  have nodes': "FakeHead # (bs @ xs) @ [FakeTail] = [] @ FakeHead # bs @ z # ns"
    using ns by simp
  from repr have ch: "chain ?h ([] @ FakeHead # z # ns)" and num: "num_free_blocks q = int (length xs)"
    and dist: "distinct (FakeHead # xs @ [FakeTail])"
    and out: "\<And>i. Blk i \<notin> set xs \<Longrightarrow>
      prev_free_block (?h (Blk i)) = None \<and> next_free_block (?h (Blk i)) = None"
    unfolding fq_repr_def ns [symmetric] by auto
  have dist': "distinct ([] @ FakeHead # bs @ z # ns)"
    unfolding nodes' [symmetric] using dist assms by auto
  from chain_splice [OF ch dist' False] obtain h' where
    run: "link_run bs FakeHead ?h = (last bs, h')" and
    spl: "\<And>h''. h'' = set_prev z (Some (last bs)) (set_next (last bs) (Some z) h') \<Longrightarrow>
       chain h'' ([] @ FakeHead # bs @ z # ns) \<and> same_meta ?h h'' \<and>
       (\<forall>c. c \<notin> set ([] @ FakeHead # bs @ z # ns) \<longrightarrow>
          prev_free_block (h'' c) = prev_free_block (?h c) \<and>
          next_free_block (h'' c) = next_free_block (?h c))"
    by blast
  define h'' where "h'' = set_prev z (Some (last bs)) (set_next (last bs) (Some z) h')"
  have "next_free_block (?h FakeHead) = Some z" using ch by simp
  then have "prepend_n bs q =
      Inr \<lparr>fq_blocks = h'', num_free_blocks = num_free_blocks q + int (length bs)\<rparr>"
    using False run by (simp add: prepend_n_def h''_def)
  moreover have "fq_repr \<lparr>fq_blocks = h'', num_free_blocks = num_free_blocks q + int (length bs)\<rparr> (bs @ xs)"
    using spl [OF h''_def] dist' num out unfolding fq_repr_def nodes'
    by (simp add: nodes' [symmetric] ns [symmetric])
  ultimately show ?thesis using spl [OF h''_def] by simp
qed


lemma popleft_repr:
  "fq_repr q (x # xs) \<Longrightarrow> \<exists>q'. popleft q = Inr (x, q') \<and> fq_repr q' xs"
proof -
  assume repr: "fq_repr q (x # xs)"
  let ?h = "fq_blocks q"
  obtain z rest where zr: "xs @ [FakeTail] = z # rest" by (cases xs) auto
  from repr have ch: "chain ?h (FakeHead # x # z # rest)" and dist: "distinct (FakeHead # x # z # rest)"
    and num: "num_free_blocks q = int (length (x # xs))"
    and out: "\<And>i. Blk i \<notin> set (x # xs) \<Longrightarrow>
      prev_free_block (?h (Blk i)) = None \<and> next_free_block (?h (Blk i)) = None"
    unfolding fq_repr_def by (auto simp: zr)
  have "x \<noteq> FakeTail" using fq_reprD(4) [OF repr] by auto
  let ?h' = "set_next x None (set_prev x None
     (set_prev z (Some FakeHead) (set_next FakeHead (Some z) ?h)))"
  have "popleft q = Inr (x, \<lparr>fq_blocks = ?h', num_free_blocks = num_free_blocks q - 1\<rparr>)"
    using ch \<open>x \<noteq> FakeTail\<close> by (simp add: popleft_def Let_def)
  moreover have "chain ?h' (z # rest) \<longleftrightarrow> chain ?h (z # rest)"
    using dist by (intro chain_cong) (auto dest: in_set_butlastD split: if_splits)
  moreover have "Blk i \<noteq> z \<or> Blk i \<in> set xs" for i using zr by (cases xs) auto
  ultimately show ?thesis using ch dist num out zr unfolding fq_repr_def by auto
qed

lemma popleft_empty: "fq_repr q [] \<Longrightarrow> popleft q = Inl ValueError"
  by (simp add: popleft_def fq_repr_def)

lemma append_repr:
  assumes "fq_repr q xs" and "Blk i \<notin> set xs"
  shows "\<exists>q'. append_block (Blk i) q = Inr q' \<and> fq_repr q' (xs @ [Blk i]) \<and>
              same_meta (fq_blocks q) (fq_blocks q')"
proof -
  let ?h = "fq_blocks q"
  let ?l = "last (FakeHead # xs)"
  have l: "prev_free_block (?h FakeTail) = Some ?l"
    using fq_reprD(1) [OF assms(1)] by (rule chain_last_prev)
  have "?l \<noteq> Blk i" "?l \<noteq> FakeTail"
    using assms fq_reprD(4) by (auto split: if_splits dest: last_in_set)
  then have "append_block (Blk i) q = append_n [Blk i] q"
    using l by (simp add: append_block_def append_n_def Let_def set_prev_def set_next_def fun_upd_twist)
  with append_n_repr [OF assms(1), of "[Blk i]"] assms(2) show ?thesis by simp
qed

lemma walk_free_chain:
  "chain h (ys @ [FakeTail]) \<Longrightarrow> FakeTail \<notin> set ys \<Longrightarrow>
   walk_free h (Some (hd (ys @ [FakeTail]))) acc = Some (acc @ ys)"
proof (induction ys arbitrary: acc)
  case Nil
  then show ?case by (simp add: walk_free.simps)
next
  case (Cons y ys)
  have "next_free_block (h y) = Some (hd (ys @ [FakeTail]))"
    using Cons.prems(1) by (simp add: chain_head_next)
  moreover have "chain h (ys @ [FakeTail])" using Cons.prems(1) by (cases ys) auto
  moreover have "y \<noteq> FakeTail" using Cons.prems(2) by auto
  ultimately show ?case
    using Cons.IH [of "acc @ [y]"] Cons.prems(2) by (simp add: walk_free.simps [of h "Some y"])
qed

lemma get_all_free_blocks_repr: "fq_repr q xs \<Longrightarrow> get_all_free_blocks q = Some xs"
proof -
  assume repr: "fq_repr q xs"
  note D = fq_reprD [OF repr]
  have "chain (fq_blocks q) (xs @ [FakeTail])" using D(1) by (cases xs) auto
  moreover have "next_free_block (fq_blocks q FakeHead) = Some (hd (xs @ [FakeTail]))"
    using D(1) by (rule chain_head_next)
  ultimately show ?thesis
    using D(4) walk_free_chain [of "fq_blocks q" xs "[]"] by (simp add: get_all_free_blocks_def)
qed

text \<open>A queue represents one list only.\<close>

lemma fq_repr_unique: "fq_repr q xs \<Longrightarrow> fq_repr q ys \<Longrightarrow> xs = ys"
  by (auto dest!: get_all_free_blocks_repr)

text \<open>The constructor.\<close>

lemma fq_init_links:
  assumes "distinct bs" "k \<le> length bs"
  shows "\<forall>i < length bs.
      prev_free_block (fold (link_block bs) [0..<k] h (bs ! i)) =
        (if 0 < i \<and> i < k then Some (bs ! (i - 1)) else prev_free_block (h (bs ! i))) \<and>
      next_free_block (fold (link_block bs) [0..<k] h (bs ! i)) =
        (if i < k \<and> Suc i < length bs then Some (bs ! Suc i) else next_free_block (h (bs ! i)))"
    and "\<forall>c. c \<notin> set bs \<longrightarrow> fold (link_block bs) [0..<k] h c = h c"
    and "same_meta h (fold (link_block bs) [0..<k] h)"
  using assms(2)
proof (induction k)
  case 0
  { case 1 then show ?case by simp next case 2 then show ?case by simp next case 3 then show ?case by simp }
next
  case (Suc k)
  {
    case 1
    with Suc.IH(1) assms(1) show ?case
      by (auto simp: link_block_def Let_def nth_eq_iff_index_eq less_Suc_eq)
  next
    case 2
    have "c \<noteq> bs ! k" if "c \<notin> set bs" for c using that 2 by auto
    with 2 Suc.IH(2) show ?case
      by (simp add: link_block_def Let_def set_prev_def set_next_def)
  next
    case 3
    with Suc.IH(3) show ?case by (auto simp: link_block_def Let_def)
  }
qed

lemma chain_nth:
  "(\<And>i. Suc i < length ns \<Longrightarrow> next_free_block (h (ns ! i)) = Some (ns ! Suc i) \<and>
                             prev_free_block (h (ns ! Suc i)) = Some (ns ! i)) \<Longrightarrow> chain h ns"
proof (induction h ns rule: chain.induct)
  case (1 h a b ns)
  have "chain h (b # ns)" using 1(2) [of "Suc _"] by (intro 1(1)) simp
  with 1(2) [of 0] show ?case by simp
qed auto

lemma fq_init_repr:
  assumes "distinct bs" "FakeHead \<notin> set bs" "FakeTail \<notin> set bs"
    and nolinks: "\<And>i. prev_free_block (h (Blk i)) = None \<and> next_free_block (h (Blk i)) = None"
  shows "fq_repr (fq_init bs h) bs"
    and "ref_cnt (fq_blocks (fq_init bs h) (Blk i)) = ref_cnt (h (Blk i))"
    and "block_hash (fq_blocks (fq_init bs h) (Blk i)) = block_hash (h (Blk i))"
    and "is_null (fq_blocks (fq_init bs h) (Blk i)) = is_null (h (Blk i))"
proof -
  let ?n = "length bs"
  define h1 where "h1 = fold (link_block bs) [0..<?n] h"
  note L = fq_init_links [OF assms(1) order_refl, of h, folded h1_def]
  show "ref_cnt (fq_blocks (fq_init bs h) (Blk i)) = ref_cnt (h (Blk i))"
    and "block_hash (fq_blocks (fq_init bs h) (Blk i)) = block_hash (h (Blk i))"
    and "is_null (fq_blocks (fq_init bs h) (Blk i)) = is_null (h (Blk i))"
    using L(3) by (auto simp: fq_init_def Let_def h1_def set_prev_def set_next_def same_meta_def)
  show "fq_repr (fq_init bs h) bs"
  proof (cases "bs = []")
    case True
    with nolinks show ?thesis by (simp add: fq_repr_def fq_init_def new_block_def Let_def set_prev_def set_next_def)
  next
    case False
    define h' where "h' = fq_blocks (fq_init bs h)"
    have h': "h' = set_next (last bs) (Some FakeTail) (set_prev FakeTail (Some (last bs))
        (set_prev (hd bs) (Some FakeHead) (set_next FakeHead (Some (hd bs))
          (h1(FakeHead := new_block, FakeTail := new_block)))))"
      using False by (simp add: h'_def fq_init_def Let_def h1_def)
    have ends: "last bs = bs ! (?n - 1)" "hd bs = bs ! 0" using False by (simp_all add: last_conv_nth hd_conv_nth)
    have notsent: "bs ! i \<noteq> FakeHead \<and> bs ! i \<noteq> FakeTail" if "i < ?n" for i
      using that assms(2,3) nth_mem by metis
    have nxt: "next_free_block (h' (bs ! i)) = Some ((bs @ [FakeTail]) ! Suc i)" if "i < ?n" for i
      using that L(1) notsent False assms(1)
      by (auto simp: h' ends nth_append nth_eq_iff_index_eq split: if_splits)
    have prv: "prev_free_block (h' (bs ! Suc i)) = Some (bs ! i)" if "Suc i < ?n" for i
      using that L(1) notsent False assms(1)
      by (auto simp: h' ends nth_eq_iff_index_eq)
    have "chain h' (FakeHead # bs @ [FakeTail])"
    proof (rule chain_nth)
      fix i assume i: "Suc i < length (FakeHead # bs @ [FakeTail])"
      show "next_free_block (h' ((FakeHead # bs @ [FakeTail]) ! i)) =
              Some ((FakeHead # bs @ [FakeTail]) ! Suc i) \<and>
            prev_free_block (h' ((FakeHead # bs @ [FakeTail]) ! Suc i)) =
              Some ((FakeHead # bs @ [FakeTail]) ! i)"
      proof (cases i)
        case 0
        with False notsent [of "?n - 1"] notsent [of 0] show ?thesis
          by (auto simp: h' ends nth_append)
      next
        case (Suc j)
        with i have j: "j < ?n" by simp
        show ?thesis
        proof (cases "Suc j < ?n")
          case True
          with Suc nxt [OF j] prv [OF True] show ?thesis by (simp add: nth_append)
        next
          case False
          then have "Suc j = ?n" using j by simp
          moreover have "hd bs \<noteq> FakeTail" using \<open>bs \<noteq> []\<close> assms(3) by (metis hd_in_set)
          ultimately show ?thesis
            using Suc nxt [OF j] j
            by (simp add: nth_append) (auto simp: h' ends nth_Cons' nth_append)
        qed
      qed
    qed
    moreover have "prev_free_block (h' (Blk i)) = None \<and> next_free_block (h' (Blk i)) = None"
      if "Blk i \<notin> set bs" for i
      using that False L(2) nolinks by (auto simp: h')
    moreover have "num_free_blocks (fq_init bs h) = int ?n" by (simp add: fq_init_def Let_def)
    ultimately show ?thesis
      using assms(1-3) by (simp add: fq_repr_def h'_def)
  qed
qed


section \<open>The interface the block pool relies on\<close>

text \<open>
  What \<open>BlockPool\<close> needs from its queue: \<open>repr q xs\<close> says that the queue represents a
  list, \<open>meta q q'\<close> that the blocks' other fields are unchanged, \<open>proper b\<close> that \<open>b\<close> is not
  a sentinel.
\<close>

locale block_queue =
  fixes repr :: "'q \<Rightarrow> 'b list \<Rightarrow> bool"
    and proper :: "'b \<Rightarrow> bool"
    and meta :: "'q \<Rightarrow> 'q \<Rightarrow> bool"
    and pop_n :: "nat \<Rightarrow> 'q \<Rightarrow> ('b list \<times> 'q) result"
    and unlink :: "'b \<Rightarrow> 'q \<Rightarrow> 'q result"
    and put_last :: "'b list \<Rightarrow> 'q \<Rightarrow> 'q result"
    and put_first :: "'b list \<Rightarrow> 'q \<Rightarrow> 'q result"
  assumes meta_trans: "meta q q' \<Longrightarrow> meta q' q'' \<Longrightarrow> meta q q''"
    and pop_n: "repr q (ys @ zs) \<Longrightarrow>
      \<exists>q'. pop_n (length ys) q = Inr (ys, q') \<and> repr q' zs \<and> meta q q'"
    and unlink: "repr q (xs @ b # ys) \<Longrightarrow>
      \<exists>q'. unlink b q = Inr q' \<and> repr q' (xs @ ys) \<and> meta q q'"
    and put_last: "repr q xs \<Longrightarrow> set bs \<inter> set xs = {} \<Longrightarrow> distinct bs \<Longrightarrow> \<forall>b\<in>set bs. proper b \<Longrightarrow>
      \<exists>q'. put_last bs q = Inr q' \<and> repr q' (xs @ bs) \<and> meta q q'"
    and put_first: "repr q xs \<Longrightarrow> set bs \<inter> set xs = {} \<Longrightarrow> distinct bs \<Longrightarrow> \<forall>b\<in>set bs. proper b \<Longrightarrow>
      \<exists>q'. put_first bs q = Inr q' \<and> repr q' (bs @ xs) \<and> meta q q'"
begin

lemma pop_take_drop:
  "repr q xs \<Longrightarrow> n \<le> length xs \<Longrightarrow>
   \<exists>q'. pop_n n q = Inr (take n xs, q') \<and> repr q' (drop n xs) \<and> meta q q'"
  using pop_n [of q "take n xs" "drop n xs"] by simp

lemma unlink_remove1:
  assumes "repr q xs" "b \<in> set xs"
  shows "\<exists>q'. unlink b q = Inr q' \<and> repr q' (remove1 b xs) \<and> meta q q'"
proof -
  from \<open>b \<in> set xs\<close> obtain us vs where "xs = us @ b # vs" "b \<notin> set us"
    by (meson split_list_first)
  with unlink [of q us b vs] assms(1) show ?thesis by (simp add: remove1_append)
qed

text \<open>Returning blocks: some to the front, the others to the back.\<close>

lemma put_both:
  assumes "repr q xs" "distinct (us @ vs)" "set (us @ vs) \<inter> set xs = {}"
    and "\<forall>b\<in>set (us @ vs). proper b"
  shows "\<exists>q1 q2. put_first us q = Inr q1 \<and> put_last vs q1 = Inr q2 \<and>
                 repr q2 (us @ xs @ vs) \<and> meta q q2"
proof -
  from put_first [of q xs us] assms obtain q1
    where q1: "put_first us q = Inr q1" "repr q1 (us @ xs)" "meta q q1" by auto
  from put_last [OF q1(2), of vs] assms obtain q2
    where "put_last vs q1 = Inr q2" "repr q2 (us @ xs @ vs)" "meta q1 q2" by auto
  with q1 show ?thesis by (blast intro: meta_trans)
qed

text \<open>Popping and then returning the popped blocks to the back rotates the queue.\<close>

lemma pop_put_rotates:
  assumes "repr q xs" "n \<le> length xs" "distinct xs" "\<forall>b\<in>set xs. proper b"
  shows "\<exists>bs q1 q2. pop_n n q = Inr (bs, q1) \<and> put_last bs q1 = Inr q2 \<and>
                    repr q2 (drop n xs @ take n xs)"
proof -
  from pop_take_drop [OF assms(1,2)] obtain q1
    where q1: "pop_n n q = Inr (take n xs, q1)" "repr q1 (drop n xs)" by auto
  have "set (take n xs) \<inter> set (drop n xs) = {}"
    using assms(3) by (simp add: set_take_disj_set_drop_if_distinct)
  with put_last [OF q1(2), of "take n xs"] assms(3,4) q1(1) show ?thesis
    by (auto dest: in_set_takeD)
qed

end

interpretation fq: block_queue fq_repr "\<lambda>b. b \<noteq> FakeHead \<and> b \<noteq> FakeTail"
  "\<lambda>q q'. same_meta (fq_blocks q) (fq_blocks q')" popleft_n remove_block append_n prepend_n
proof
  show "same_meta (fq_blocks q) (fq_blocks q'')"
    if "same_meta (fq_blocks q) (fq_blocks q')" "same_meta (fq_blocks q') (fq_blocks q'')" for q q' q''
    using that by (rule same_meta_trans)
qed (auto intro: popleft_n_repr remove_repr append_n_repr prepend_n_repr)

end
