(* ===== verification/BlockPool.thy ===== *)
theory BlockPool
  imports FreeQueue "HOL-Library.Multiset"
begin

text \<open>
  \<open>pvllm/v1/core/block_pool.py\<close> and the cache keys of \<open>pvllm/v1/core/kv_cache_utils.py\<close>.

  \<open>BlockPool\<close> owns the blocks (the store inside its queue), the free queue and the map from
  cache keys to the blocks that hold the content. The assertions of \<open>_check_invariants\<close> run
  only when \<open>PVLLM_DEBUG_INVARIANTS\<close> is set; they are \<open>check_invariants\<close> here, which the
  methods do not call, and which is shown to pass whenever the invariant holds.
\<close>

section \<open>Cache keys\<close>

type_synonym block_hash_t = string \<comment> \<open>\<open>BlockHash\<close>, a digest: a byte string\<close>

definition to_bytes4 :: "int \<Rightarrow> string result" where
  "to_bytes4 n =
     (if n < 0 \<or> 2 ^ 32 \<le> n then Inl OverflowError
      else Inr [char_of (nat (n div 2 ^ 24)), char_of (nat (n div 2 ^ 16)),
                char_of (nat (n div 2 ^ 8)), char_of (nat n)])"

definition make_block_hash_with_group_id :: "block_hash_t \<Rightarrow> int \<Rightarrow> block_key result" where
  "make_block_hash_with_group_id h g = rbind (to_bytes4 g) (\<lambda>bs. Inr (h @ bs))"

section \<open>The pool\<close>

record block_pool =
  num_gpu_blocks :: int
  enable_caching :: bool
  null_block :: "bref option"
  free_block_queue :: free_queue
  cached_block_hash_to_block :: "(block_key \<times> bref list) list"
    \<comment> \<open>the inner dictionary maps a block id to that block: its keys in insertion order\<close>
  num_evicted_blocks :: int

abbreviation blk :: "block_pool \<Rightarrow> bref \<Rightarrow> kv_block" where
  "blk p b \<equiv> fq_blocks (free_block_queue p) b"

definition upd_store :: "(store \<Rightarrow> store) \<Rightarrow> block_pool \<Rightarrow> block_pool" where
  "upd_store f p = p\<lparr>free_block_queue := (free_block_queue p)\<lparr>fq_blocks := f (fq_blocks (free_block_queue p))\<rparr>\<rparr>"

definition add_ref :: "int \<Rightarrow> bref \<Rightarrow> store \<Rightarrow> store" where
  "add_ref d b h = h(b := (h b)\<lparr>ref_cnt := ref_cnt (h b) + d\<rparr>)"

definition pool_blocks :: "block_pool \<Rightarrow> bref list" where
  "pool_blocks p = map Blk [0..<nat (num_gpu_blocks p)]"

definition block_pool_init :: "int \<Rightarrow> bool \<Rightarrow> bool \<Rightarrow> bool \<Rightarrow> block_pool result" where
  "block_pool_init n caching kv_cache_events reserve_null =
     (if n \<le> 0 then Inl ValueError
      else if kv_cache_events then Inl NotImplementedError
      else if reserve_null \<and> n < 2 then Inl ValueError
      else
        let blocks = map Blk [0..<nat n];
            h = (\<lambda>_. new_block);
            h' = (if reserve_null then h(Blk 0 := new_block\<lparr>ref_cnt := 1, is_null := True\<rparr>) else h)
        in Inr \<lparr>num_gpu_blocks = n, enable_caching = caching,
                null_block = (if reserve_null then Some (Blk 0) else None),
                free_block_queue = fq_init (if reserve_null then tl blocks else blocks) h',
                cached_block_hash_to_block = [], num_evicted_blocks = 0\<rparr>)"

definition get_num_free_blocks :: "block_pool \<Rightarrow> int" where
  "get_num_free_blocks p = num_free_blocks (free_block_queue p)"

definition num_usable_blocks :: "block_pool \<Rightarrow> int" where
  "num_usable_blocks p = num_gpu_blocks p - (if null_block p \<noteq> None then 1 else 0)"

definition get_usage :: "block_pool \<Rightarrow> rat" where
  "get_usage p = 1 - of_int (get_num_free_blocks p) / of_int (num_usable_blocks p)"

definition maybe_evict_cached_block :: "bref \<Rightarrow> block_pool \<Rightarrow> bool \<times> block_pool" where
  "maybe_evict_cached_block b p =
     (case block_hash (blk p b) of
        None \<Rightarrow> (False, p)
      | Some key \<Rightarrow>
          let cached = cached_block_hash_to_block p;
              cached' = (case map_of cached key of
                           None \<Rightarrow> cached
                         | Some entries \<Rightarrow>
                             let entries' = removeAll b entries
                             in if entries' = [] then AList.delete key cached
                                else AList.update key entries' cached)
          in (True, (upd_store (reset_hash b) p)
                      \<lparr>cached_block_hash_to_block := cached',
                       num_evicted_blocks := num_evicted_blocks p + 1\<rparr>))"

text \<open>The body of the loop of \<open>get_new_blocks\<close>.\<close>

definition claim_block :: "bref \<Rightarrow> block_pool \<Rightarrow> block_pool result" where
  "claim_block b p =
     (let p1 = snd (maybe_evict_cached_block b p)
      in if ref_cnt (blk p1 b) \<noteq> 0 then Inl AssertionError
         else Inr (upd_store (add_ref 1 b) p1))"

definition get_new_blocks :: "int \<Rightarrow> block_pool \<Rightarrow> (bref list \<times> block_pool) result" where
  "get_new_blocks n p =
     (if get_num_free_blocks p < n then Inl ValueError
      else rbind (popleft_n (nat n) (free_block_queue p)) (\<lambda>(blocks, q).
           rbind (foldE claim_block blocks (p\<lparr>free_block_queue := q\<rparr>)) (\<lambda>p'.
           Inr (blocks, p'))))"

definition touch_block :: "bref \<Rightarrow> block_pool \<Rightarrow> block_pool result" where
  "touch_block b p =
     rbind (if ref_cnt (blk p b) = 0 \<and> \<not> is_null (blk p b)
            then rbind (remove_block b (free_block_queue p)) (\<lambda>q. Inr (p\<lparr>free_block_queue := q\<rparr>))
            else Inr p)
       (\<lambda>p1. Inr (upd_store (add_ref 1 b) p1))"

definition touch :: "bref list \<Rightarrow> block_pool \<Rightarrow> block_pool result" where
  "touch blocks p = foldE touch_block blocks p"

text \<open>The loop of \<open>free_blocks\<close>: the blocks that reach zero, without and with a hash.\<close>

fun free_loop ::
  "bool \<Rightarrow> bref list \<Rightarrow> bref list \<Rightarrow> bref list \<Rightarrow> store \<Rightarrow> (bref list \<times> bref list \<times> store) result" where
  "free_loop caching [] without_hash with_hash h = Inr (without_hash, with_hash, h)"
| "free_loop caching (b # bs) without_hash with_hash h =
     (let h' = add_ref (-1) b h
      in if ref_cnt (h' b) < 0 then Inl AssertionError
         else if ref_cnt (h' b) = 0 \<and> \<not> is_null (h' b) then
           (if block_hash (h' b) = None \<and> caching
            then free_loop caching bs (without_hash @ [b]) with_hash h'
            else free_loop caching bs without_hash (with_hash @ [b]) h')
         else free_loop caching bs without_hash with_hash h')"

definition free_blocks :: "bref list \<Rightarrow> block_pool \<Rightarrow> block_pool result" where
  "free_blocks ordered_blocks p =
     (let blocks = filter (\<lambda>b. \<not> is_null (blk p b)) ordered_blocks
      in rbind (free_loop (enable_caching p) blocks [] [] (fq_blocks (free_block_queue p)))
           (\<lambda>(without_hash, with_hash, h).
             rbind (prepend_n without_hash ((free_block_queue p)\<lparr>fq_blocks := h\<rparr>)) (\<lambda>q1.
             rbind (append_n with_hash q1) (\<lambda>q2.
             Inr (p\<lparr>free_block_queue := q2\<rparr>)))))"

section \<open>The prefix cache\<close>

definition get_cached_block :: "block_pool \<Rightarrow> block_hash_t \<Rightarrow> int \<Rightarrow> bref option result" where
  "get_cached_block p h g =
     rbind (make_block_hash_with_group_id h g) (\<lambda>key.
       Inr (case map_of (cached_block_hash_to_block p) key of
              None \<Rightarrow> None
            | Some [] \<Rightarrow> None
            | Some (b # _) \<Rightarrow> Some b))"

text \<open>\<open>cached.setdefault(key, {})[block.block_id] = block\<close>.\<close>

definition cache_entries :: "block_pool \<Rightarrow> block_key \<Rightarrow> bref list" where
  "cache_entries p key =
     (case map_of (cached_block_hash_to_block p) key of None \<Rightarrow> [] | Some es \<Rightarrow> es)"

definition add_cache_entry :: "block_key \<Rightarrow> bref \<Rightarrow> block_pool \<Rightarrow> block_pool" where
  "add_cache_entry key b p =
     (let cached = cached_block_hash_to_block p;
          entries = cache_entries p key;
          entries' = (if b \<in> set entries then entries else entries @ [b])
      in p\<lparr>cached_block_hash_to_block := AList.update key entries' cached\<rparr>)"

text \<open>The loop of \<open>cache_full_blocks\<close>; the \<open>break\<close> ends it.\<close>

fun cache_full_loop ::
  "nat list \<Rightarrow> block_hash_t list \<Rightarrow> bref list \<Rightarrow> int \<Rightarrow> block_pool \<Rightarrow> block_pool result" where
  "cache_full_loop [] hashes blocks g p = Inr p"
| "cache_full_loop (i # is) hashes blocks g p =
     (if length hashes \<le> i \<or> length blocks \<le> i then Inr p
      else let b = blocks ! i
           in if block_hash (blk p b) \<noteq> None then cache_full_loop is hashes blocks g p
              else if is_null (blk p b) then cache_full_loop is hashes blocks g p
              else rbind (make_block_hash_with_group_id (hashes ! i) g) (\<lambda>key.
                   rbind (set_block_hash b key (fq_blocks (free_block_queue p))) (\<lambda>h.
                   cache_full_loop is hashes blocks g (add_cache_entry key b (upd_store (\<lambda>_. h) p)))))"

definition cache_full_blocks ::
  "block_hash_t list \<Rightarrow> bref list \<Rightarrow> nat \<Rightarrow> nat \<Rightarrow> int \<Rightarrow> block_pool \<Rightarrow> block_pool result" where
  "cache_full_blocks hashes blocks num_cached num_full g p =
     (if num_full \<le> num_cached then Inr p
      else cache_full_loop [num_cached..<num_full] hashes blocks g p)"

definition pool_reset_prefix_cache :: "block_pool \<Rightarrow> bool \<times> block_pool" where
  "pool_reset_prefix_cache p =
     (if 0 < num_usable_blocks p - get_num_free_blocks p then (False, p)
      else let p1 = fold (\<lambda>b p. snd (maybe_evict_cached_block b p)) (pool_blocks p) p
           in (True, p1\<lparr>cached_block_hash_to_block := [], num_evicted_blocks := 0\<rparr>))"

text \<open>\<open>_check_invariants\<close>; \<open>None\<close> where the walk of the queue would not return.\<close>

definition check_invariants :: "block_pool \<Rightarrow> unit result option" where
  "check_invariants p =
     (case get_all_free_blocks (free_block_queue p) of
        None \<Rightarrow> None
      | Some free \<Rightarrow>
          let num_free = int (length free);
              allocated = int (length (filter (\<lambda>b. 0 < ref_cnt (blk p b)) (pool_blocks p)))
          in Some (if num_free \<noteq> num_free_blocks (free_block_queue p) then Inl AssertionError
                   else if num_free + allocated \<noteq> num_gpu_blocks p then Inl AssertionError
                   else if \<not> list_all (\<lambda>b. ref_cnt (blk p b) = 0) free then Inl AssertionError
                   else if \<not> (0 \<le> get_usage p \<and> get_usage p \<le> 1) then Inl AssertionError
                   else Inr ()))"


section \<open>The invariant\<close>

text \<open>
  \<open>pool_inv p xs\<close>: the queue represents \<open>xs\<close>, whose elements are exactly the blocks with
  reference count zero; counts are not negative; the null block is block 0, pinned and
  without a hash; and the cache map is exact: a key leads to a block precisely when the
  block carries that key, and no entry is empty.
\<close>

definition real_block :: "block_pool \<Rightarrow> bref \<Rightarrow> bool" where
  "real_block p b \<longleftrightarrow> b \<in> set (pool_blocks p)"

definition cache_exact :: "block_pool \<Rightarrow> bool" where
  "cache_exact p \<longleftrightarrow>
     distinct (map fst (cached_block_hash_to_block p)) \<and>
     (\<forall>key. map_of (cached_block_hash_to_block p) key \<noteq> Some []) \<and>
     (\<forall>key. distinct (cache_entries p key)) \<and>
     (\<forall>key b. b \<in> set (cache_entries p key) \<longleftrightarrow>
              real_block p b \<and> block_hash (blk p b) = Some key)"

definition null_ok :: "block_pool \<Rightarrow> bool" where
  "null_ok p \<longleftrightarrow>
     (\<forall>i. is_null (blk p (Blk i)) \<longleftrightarrow> null_block p = Some (Blk i)) \<and>
     (null_block p \<noteq> None \<longrightarrow>
        null_block p = Some (Blk 0) \<and> 2 \<le> num_gpu_blocks p \<and>
        1 \<le> ref_cnt (blk p (Blk 0)) \<and> block_hash (blk p (Blk 0)) = None)"

definition pool_core :: "block_pool \<Rightarrow> bool" where
  "pool_core p \<longleftrightarrow>
     0 < num_gpu_blocks p \<and> (\<forall>i. 0 \<le> ref_cnt (blk p (Blk i))) \<and> null_ok p \<and> cache_exact p"

definition pool_inv :: "block_pool \<Rightarrow> bref list \<Rightarrow> bool" where
  "pool_inv p xs \<longleftrightarrow>
     pool_core p \<and> fq_repr (free_block_queue p) xs \<and>
     (\<forall>b. b \<in> set xs \<longleftrightarrow> real_block p b \<and> ref_cnt (blk p b) = 0)"

text \<open>The configuration of a pool never changes.\<close>

definition same_config :: "block_pool \<Rightarrow> block_pool \<Rightarrow> bool" where
  "same_config p p' \<longleftrightarrow>
     num_gpu_blocks p' = num_gpu_blocks p \<and> enable_caching p' = enable_caching p \<and>
     null_block p' = null_block p"

lemma same_config_refl [simp, intro]: "same_config p p"
  by (simp add: same_config_def)

lemma same_config_trans: "same_config p p' \<Longrightarrow> same_config p' p'' \<Longrightarrow> same_config p p''"
  by (simp add: same_config_def)

lemma real_block_iff: "real_block p b \<longleftrightarrow> (\<exists>i. b = Blk i \<and> int i < num_gpu_blocks p)"
  by (auto simp: real_block_def pool_blocks_def)

lemma real_block_not_sentinel [simp]: "\<not> real_block p FakeHead" "\<not> real_block p FakeTail"
  by (auto simp: real_block_iff)

lemma same_config_real: "same_config p p' \<Longrightarrow> real_block p' b \<longleftrightarrow> real_block p b"
  by (simp add: same_config_def real_block_iff)

lemma upd_store_simps [simp, frame_simps]:
  "fq_blocks (free_block_queue (upd_store f p)) = f (fq_blocks (free_block_queue p))"
  "num_free_blocks (free_block_queue (upd_store f p)) = num_free_blocks (free_block_queue p)"
  "num_gpu_blocks (upd_store f p) = num_gpu_blocks p"
  "enable_caching (upd_store f p) = enable_caching p"
  "null_block (upd_store f p) = null_block p"
  "cached_block_hash_to_block (upd_store f p) = cached_block_hash_to_block p"
  "num_evicted_blocks (upd_store f p) = num_evicted_blocks p"
  by (simp_all add: upd_store_def)

lemma pool_invD:
  assumes "pool_inv p xs"
  shows "pool_core p" and "fq_repr (free_block_queue p) xs"
    and "b \<in> set xs \<longleftrightarrow> real_block p b \<and> ref_cnt (blk p b) = 0"
    and "distinct xs" and "get_num_free_blocks p = int (length xs)"
  using assms by (auto simp: pool_inv_def get_num_free_blocks_def dest: fq_reprD)

lemma pool_inv_unique: "pool_inv p xs \<Longrightarrow> pool_inv p ys \<Longrightarrow> xs = ys"
  using fq_repr_unique [of "free_block_queue p" xs ys] by (auto simp: pool_inv_def)

lemma free_not_null: "pool_inv p xs \<Longrightarrow> b \<in> set xs \<Longrightarrow> \<not> is_null (blk p b)"
  by (auto simp: pool_inv_def pool_core_def null_ok_def real_block_iff)

text \<open>\<open>pool_core\<close> depends on the configuration, the map and three fields of the blocks.\<close>

lemma pool_core_cong:
  assumes core: "pool_core p" and conf: "same_config p p'"
    and map: "cached_block_hash_to_block p' = cached_block_hash_to_block p"
    and fields: "\<And>i. block_hash (blk p' (Blk i)) = block_hash (blk p (Blk i))"
      "\<And>i. is_null (blk p' (Blk i)) = is_null (blk p (Blk i))"
    and refs: "\<And>i. 0 \<le> ref_cnt (blk p' (Blk i))"
      "null_block p = Some (Blk 0) \<Longrightarrow> 1 \<le> ref_cnt (blk p' (Blk 0))"
  shows "pool_core p'"
proof -
  note real = same_config_real [OF conf]
  have ent: "cache_entries p' = cache_entries p" by (simp add: cache_entries_def map fun_eq_iff)
  have hash: "real_block p b \<Longrightarrow> block_hash (blk p' b) = block_hash (blk p b)" for b
    using fields(1) by (auto simp: real_block_iff)
  from core have "cache_exact p" by (simp add: pool_core_def)
  then have "cache_exact p'"
    unfolding cache_exact_def map ent real using hash by metis
  moreover have "null_ok p'"
    using core conf fields refs by (auto simp: pool_core_def null_ok_def same_config_def)
  ultimately show ?thesis
    using core conf refs(1) by (simp add: pool_core_def same_config_def)
qed

lemma pool_core_null_ref:
  "pool_core p \<Longrightarrow> null_block p = Some (Blk 0) \<Longrightarrow> 1 \<le> ref_cnt (blk p (Blk 0))"
  by (auto simp: pool_core_def null_ok_def)

text \<open>Changing only the queue, with the other fields of the blocks kept.\<close>

lemma pool_core_queue:
  assumes "pool_core p" and "same_meta (fq_blocks (free_block_queue p)) (fq_blocks q)"
  shows "pool_core (p\<lparr>free_block_queue := q\<rparr>)"
  using assms(1)
proof (rule pool_core_cong)
  show "0 \<le> ref_cnt (blk (p\<lparr>free_block_queue := q\<rparr>) (Blk i))" for i
    using assms by (simp add: same_meta_def pool_core_def)
qed (use assms pool_core_null_ref in \<open>auto simp: same_meta_def same_config_def\<close>)

text \<open>Adding references.\<close>

lemma add_ref_apply:
  "add_ref d b h c = (if c = b then (h b)\<lparr>ref_cnt := ref_cnt (h b) + d\<rparr> else h c)"
  by (simp add: add_ref_def)

lemma add_ref_fields [simp]:
  "block_hash (add_ref d b h c) = block_hash (h c)"
  "is_null (add_ref d b h c) = is_null (h c)"
  "prev_free_block (add_ref d b h c) = prev_free_block (h c)"
  "next_free_block (add_ref d b h c) = next_free_block (h c)"
  "ref_cnt (add_ref d b h c) = ref_cnt (h c) + (if c = b then d else 0)"
  by (auto simp: add_ref_def)

lemma same_links_add_ref [simp]: "same_links h (add_ref d b h)"
  by (simp add: same_links_def)

lemma pool_core_add_ref:
  assumes "pool_core p" "0 \<le> d"
  shows "pool_core (upd_store (add_ref d b) p)"
  using assms(1)
proof (rule pool_core_cong)
  show "0 \<le> ref_cnt (blk (upd_store (add_ref d b) p) (Blk i))" for i
    using assms by (auto simp: pool_core_def intro: add_nonneg_nonneg)
qed (use assms pool_core_null_ref [of p] in \<open>auto simp: same_config_def\<close>)

text \<open>Evicting a block's cache entry.\<close>

lemma evict_props:
  assumes core: "pool_core p" and b: "real_block p b"
  defines "p' \<equiv> snd (maybe_evict_cached_block b p)"
  shows "pool_core p'"
    and "same_config p p'"
    and "blk p' c = (if c = b then (blk p b)\<lparr>block_hash := None\<rparr> else blk p c)"
    and "num_free_blocks (free_block_queue p') = num_free_blocks (free_block_queue p)"
    and "num_evicted_blocks p' =
           num_evicted_blocks p + (if block_hash (blk p b) = None then 0 else 1)"
proof -
  let ?c = "cached_block_hash_to_block p"
  have unh: "(blk p b)\<lparr>block_hash := None\<rparr> = blk p b" if "block_hash (blk p b) = None"
    using that by (cases "blk p b") simp
  show "same_config p p'"
    by (simp add: p'_def maybe_evict_cached_block_def same_config_def Let_def split: option.split)
  then have real: "real_block p' c \<longleftrightarrow> real_block p c" for c by (rule same_config_real)
  show blks: "blk p' c = (if c = b then (blk p b)\<lparr>block_hash := None\<rparr> else blk p c)" for c
    using unh by (simp add: p'_def maybe_evict_cached_block_def reset_hash_def Let_def split: option.split)
  show "num_free_blocks (free_block_queue p') = num_free_blocks (free_block_queue p)"
    and "num_evicted_blocks p' =
           num_evicted_blocks p + (if block_hash (blk p b) = None then 0 else 1)"
    by (simp_all add: p'_def maybe_evict_cached_block_def Let_def split: option.split)
  show "pool_core p'"
  proof (cases "block_hash (blk p b)")
    case None
    with core show ?thesis by (simp add: p'_def maybe_evict_cached_block_def)
  next
    case (Some key)
    from core have ex: "cache_exact p" by (simp add: pool_core_def)
    with b Some have "b \<in> set (cache_entries p key)" by (simp add: cache_exact_def)
    then obtain es where es: "map_of ?c key = Some es" "b \<in> set es"
      by (cases "map_of ?c key") (auto simp: cache_entries_def)
    have ce: "cached_block_hash_to_block p' =
        (if removeAll b es = [] then AList.delete key ?c else AList.update key (removeAll b es) ?c)"
      using Some es by (simp add: p'_def maybe_evict_cached_block_def Let_def)
    have ent: "cache_entries p' k = (if k = key then removeAll b es else cache_entries p k)" for k
      using ce by (auto simp: cache_entries_def update_conv' delete_conv')
    have es_eq: "es = cache_entries p key" using es by (simp add: cache_entries_def)
    have "cache_exact p'"
      unfolding cache_exact_def
    proof (intro conjI allI)
      show "distinct (map fst (cached_block_hash_to_block p'))"
        using ex by (auto simp: ce cache_exact_def distinct_update distinct_delete)
      show "map_of (cached_block_hash_to_block p') k \<noteq> Some []" for k
        using ex by (auto simp: ce cache_exact_def update_conv' delete_conv')
      show "distinct (cache_entries p' k)" for k
        using ex by (simp add: ent es_eq cache_exact_def distinct_removeAll)
      show "c \<in> set (cache_entries p' k) \<longleftrightarrow> real_block p' c \<and> block_hash (blk p' c) = Some k" for k c
        using ex Some by (auto simp: ent es_eq real blks cache_exact_def)
    qed
    moreover have "null_ok p'"
      using core Some blks \<open>same_config p p'\<close>
      by (auto simp: pool_core_def null_ok_def same_config_def)
    moreover have "0 < num_gpu_blocks p'" "\<forall>i. 0 \<le> ref_cnt (blk p' (Blk i))"
      using core \<open>same_config p p'\<close> by (auto simp: pool_core_def same_config_def blks)
    ultimately show ?thesis by (simp add: pool_core_def)
  qed
qed


section \<open>The operations keep the invariant\<close>

text \<open>What the pool has done to a block's counter and hash is stated per operation.\<close>

lemma claim_block_props:
  assumes core: "pool_core p" and b: "real_block p b" and zero: "ref_cnt (blk p b) = 0"
  shows "\<exists>p'. claim_block b p = Inr p' \<and> pool_core p' \<and> same_config p p' \<and>
    (\<forall>c. blk p' c = (if c = b then (blk p b)\<lparr>block_hash := None, ref_cnt := 1\<rparr> else blk p c)) \<and>
    num_free_blocks (free_block_queue p') = num_free_blocks (free_block_queue p)"
proof -
  define p1 where "p1 = snd (maybe_evict_cached_block b p)"
  note E = evict_props [OF core b, folded p1_def]
  have "claim_block b p = Inr (upd_store (add_ref 1 b) p1)"
    using zero by (simp add: claim_block_def Let_def p1_def [symmetric] E(3))
  moreover have "pool_core (upd_store (add_ref 1 b) p1)"
    using E(1) by (intro pool_core_add_ref) simp_all
  moreover have "same_config p (upd_store (add_ref 1 b) p1)"
    using E(2) by (simp add: same_config_def)
  ultimately show ?thesis
    using zero E(3,4) by (auto simp: add_ref_apply)
qed

text \<open>Claiming a list of distinct blocks whose counters are zero.\<close>

lemma claim_blocks_props:
  assumes "pool_core p" "distinct bs" "\<forall>b\<in>set bs. real_block p b \<and> ref_cnt (blk p b) = 0"
  shows "\<exists>p'. foldE claim_block bs p = Inr p' \<and> pool_core p' \<and> same_config p p' \<and>
    (\<forall>c. blk p' c = (if c \<in> set bs then (blk p c)\<lparr>block_hash := None, ref_cnt := 1\<rparr> else blk p c)) \<and>
    num_free_blocks (free_block_queue p') = num_free_blocks (free_block_queue p)"
  using assms
proof (induction bs arbitrary: p)
  case Nil
  then show ?case by simp
next
  case (Cons b bs)
  from claim_block_props [of p b] Cons.prems obtain p1
    where p1: "claim_block b p = Inr p1" "pool_core p1" "same_config p p1"
      "\<And>c. blk p1 c = (if c = b then (blk p b)\<lparr>block_hash := None, ref_cnt := 1\<rparr> else blk p c)"
      "num_free_blocks (free_block_queue p1) = num_free_blocks (free_block_queue p)"
    by auto
  have "\<forall>c\<in>set bs. real_block p1 c \<and> ref_cnt (blk p1 c) = 0"
    using Cons.prems p1(4) same_config_real [OF p1(3)] by auto
  with Cons.IH [of p1] Cons.prems(2) p1(2) obtain p2
    where p2: "foldE claim_block bs p1 = Inr p2" "pool_core p2" "same_config p1 p2"
      "\<And>c. blk p2 c = (if c \<in> set bs then (blk p1 c)\<lparr>block_hash := None, ref_cnt := 1\<rparr> else blk p1 c)"
      "num_free_blocks (free_block_queue p2) = num_free_blocks (free_block_queue p1)"
    by auto
  from p1 p2 Cons.prems(2) show ?case
    by (intro exI [of _ p2]) (auto intro: same_config_trans)
qed

lemma get_new_blocks_inv:
  assumes inv: "pool_inv p xs" and n: "0 \<le> n" "n \<le> int (length xs)"
  shows "\<exists>p'. get_new_blocks n p = Inr (take (nat n) xs, p') \<and> pool_inv p' (drop (nat n) xs) \<and>
    same_config p p' \<and>
    (\<forall>c. ref_cnt (blk p' c) = ref_cnt (blk p c) + (if c \<in> set (take (nat n) xs) then 1 else 0)) \<and>
    (\<forall>c. block_hash (blk p' c) =
           (if c \<in> set (take (nat n) xs) then None else block_hash (blk p c)))"
proof -
  note D = pool_invD [OF inv]
  let ?bs = "take (nat n) xs"
  have "nat n \<le> length xs" using n by linarith
  from fq.pop_take_drop [OF D(2) this] obtain q
    where q: "popleft_n (nat n) (free_block_queue p) = Inr (?bs, q)"
      "fq_repr q (drop (nat n) xs)" "same_meta (fq_blocks (free_block_queue p)) (fq_blocks q)"
    by auto
  let ?p1 = "p\<lparr>free_block_queue := q\<rparr>"
  have core1: "pool_core ?p1" using D(1) q(3) by (rule pool_core_queue)
  have meta: "ref_cnt (blk ?p1 c) = ref_cnt (blk p c)" "block_hash (blk ?p1 c) = block_hash (blk p c)" for c
    using q(3) by (auto simp: same_meta_def)
  have zero: "\<forall>b\<in>set ?bs. real_block ?p1 b \<and> ref_cnt (blk ?p1 b) = 0"
    using D(3) meta(1) by (auto dest!: in_set_takeD simp: real_block_def pool_blocks_def)
  with claim_blocks_props [OF core1, of ?bs] D(4) obtain p'
    where p': "foldE claim_block ?bs ?p1 = Inr p'" "pool_core p'" "same_config ?p1 p'"
      "\<And>c. blk p' c = (if c \<in> set ?bs then (blk ?p1 c)\<lparr>block_hash := None, ref_cnt := 1\<rparr> else blk ?p1 c)"
      "num_free_blocks (free_block_queue p') = num_free_blocks (free_block_queue ?p1)"
    by auto
  have "get_new_blocks n p = Inr (?bs, p')"
    using n D(5) q(1) p'(1) by (simp add: get_new_blocks_def)
  moreover have conf: "same_config p p'" using p'(3) by (simp add: same_config_def)
  moreover have refs: "ref_cnt (blk p' c) = ref_cnt (blk p c) + (if c \<in> set ?bs then 1 else 0)" for c
    using p'(4) zero meta(1) by auto
  moreover have "pool_inv p' (drop (nat n) xs)"
    unfolding pool_inv_def
  proof (intro conjI allI)
    show "pool_core p'" by fact
    show "fq_repr (free_block_queue p') (drop (nat n) xs)"
      using q(2) p'(4,5) by (subst fq_repr_same_links [of q]) (auto simp: same_links_def)
    show "b \<in> set (drop (nat n) xs) \<longleftrightarrow> real_block p' b \<and> ref_cnt (blk p' b) = 0" for b
    proof -
      have "set xs = set ?bs \<union> set (drop (nat n) xs)" by (metis append_take_drop_id set_append)
      moreover have "set ?bs \<inter> set (drop (nat n) xs) = {}"
        using D(4) by (simp add: set_take_disj_set_drop_if_distinct)
      ultimately show ?thesis
        using D(3) [of b] refs [of b] same_config_real [OF conf, of b] by auto
    qed
  qed
  moreover have "block_hash (blk p' c) = (if c \<in> set ?bs then None else block_hash (blk p c))" for c
    using p'(4) meta(2) by auto
  ultimately show ?thesis by blast
qed

lemma get_new_blocks_too_many:
  "pool_inv p xs \<Longrightarrow> int (length xs) < n \<Longrightarrow> get_new_blocks n p = Inl ValueError"
  by (simp add: get_new_blocks_def pool_invD(5))

text \<open>Touching blocks, repetitions allowed.\<close>

lemma touch_block_inv:
  assumes inv: "pool_inv p xs" and b: "real_block p b" and nn: "\<not> is_null (blk p b)"
  shows "\<exists>p'. touch_block b p = Inr p' \<and> pool_inv p' (filter (\<lambda>c. c \<noteq> b) xs) \<and> same_config p p' \<and>
    (\<forall>c. ref_cnt (blk p' c) = ref_cnt (blk p c) + (if c = b then 1 else 0)) \<and>
    (\<forall>c. block_hash (blk p' c) = block_hash (blk p c)) \<and>
    (\<forall>c. is_null (blk p' c) = is_null (blk p c)) \<and>
    cached_block_hash_to_block p' = cached_block_hash_to_block p"
proof -
  note D = pool_invD [OF inv]
  have "\<exists>q. (if ref_cnt (blk p b) = 0 \<and> \<not> is_null (blk p b)
             then rbind (remove_block b (free_block_queue p)) (\<lambda>q. Inr (p\<lparr>free_block_queue := q\<rparr>))
             else Inr p) = Inr (p\<lparr>free_block_queue := q\<rparr>) \<and>
            fq_repr q (filter (\<lambda>c. c \<noteq> b) xs) \<and> same_meta (fq_blocks (free_block_queue p)) (fq_blocks q)"
  proof (cases "ref_cnt (blk p b) = 0")
    case True
    with D(3) b have "b \<in> set xs" by blast
    with fq.unlink_remove1 [OF D(2)] obtain q where "remove_block b (free_block_queue p) = Inr q"
      "fq_repr q (remove1 b xs)" "same_meta (fq_blocks (free_block_queue p)) (fq_blocks q)" by blast
    with True nn D(4) show ?thesis
      by (auto simp: distinct_remove1_removeAll removeAll_filter_not_eq neq_commute intro!: exI [of _ q])
  next
    case False
    with D(3) have "b \<notin> set xs" by blast
    then have "filter (\<lambda>c. c \<noteq> b) xs = xs" by (auto intro: filter_True)
    with False D(2) show ?thesis by (intro exI [of _ "free_block_queue p"]) simp
  qed
  then obtain q where q: "(if ref_cnt (blk p b) = 0 \<and> \<not> is_null (blk p b)
             then rbind (remove_block b (free_block_queue p)) (\<lambda>q. Inr (p\<lparr>free_block_queue := q\<rparr>))
             else Inr p) = Inr (p\<lparr>free_block_queue := q\<rparr>)"
    "fq_repr q (filter (\<lambda>c. c \<noteq> b) xs)" "same_meta (fq_blocks (free_block_queue p)) (fq_blocks q)"
    by blast
  let ?p' = "upd_store (add_ref 1 b) (p\<lparr>free_block_queue := q\<rparr>)"
  have "touch_block b p = Inr ?p'" unfolding touch_block_def q(1) by simp
  moreover have conf: "same_config p ?p'" by (simp add: same_config_def)
  moreover have refs: "ref_cnt (blk ?p' c) = ref_cnt (blk p c) + (if c = b then 1 else 0)" for c
    using q(3) by (simp add: same_meta_def)
  moreover have "pool_inv ?p' (filter (\<lambda>c. c \<noteq> b) xs)"
    unfolding pool_inv_def
  proof (intro conjI allI)
    show "pool_core ?p'"
      by (intro pool_core_add_ref pool_core_queue D(1) q(3)) simp
    show "fq_repr (free_block_queue ?p') (filter (\<lambda>c. c \<noteq> b) xs)"
      using q(2) by (subst fq_repr_same_links [of q]) (auto simp: same_links_def)
    have "0 \<le> ref_cnt (blk p b)" using D(1) b by (auto simp: pool_core_def real_block_iff)
    then show "c \<in> set (filter (\<lambda>c. c \<noteq> b) xs) \<longleftrightarrow> real_block ?p' c \<and> ref_cnt (blk ?p' c) = 0" for c
      using D(3) [of c] refs [of c] same_config_real [OF conf, of c] by auto
  qed
  moreover have "block_hash (blk ?p' c) = block_hash (blk p c) \<and> is_null (blk ?p' c) = is_null (blk p c)" for c
    using q(3) by (simp add: same_meta_def)
  ultimately show ?thesis by auto
qed

lemma touch_inv:
  assumes "pool_inv p xs" and "\<forall>b\<in>set bs. real_block p b \<and> \<not> is_null (blk p b)"
  shows "\<exists>p'. touch bs p = Inr p' \<and> pool_inv p' (filter (\<lambda>c. c \<notin> set bs) xs) \<and> same_config p p' \<and>
    (\<forall>c. ref_cnt (blk p' c) = ref_cnt (blk p c) + int (count_list bs c)) \<and>
    (\<forall>c. block_hash (blk p' c) = block_hash (blk p c)) \<and>
    cached_block_hash_to_block p' = cached_block_hash_to_block p"
  using assms
proof (induction bs arbitrary: p xs)
  case Nil
  then show ?case by (auto simp: touch_def)
next
  case (Cons b bs)
  from touch_block_inv [of p xs b] Cons.prems obtain p1 where
    p1: "touch_block b p = Inr p1" "pool_inv p1 (filter (\<lambda>c. c \<noteq> b) xs)" "same_config p p1"
      "\<And>c. ref_cnt (blk p1 c) = ref_cnt (blk p c) + (if c = b then 1 else 0)"
      "\<And>c. block_hash (blk p1 c) = block_hash (blk p c)"
      "\<And>c. is_null (blk p1 c) = is_null (blk p c)"
      "cached_block_hash_to_block p1 = cached_block_hash_to_block p"
    by auto
  have "\<forall>c\<in>set bs. real_block p1 c \<and> \<not> is_null (blk p1 c)"
    using Cons.prems(2) p1(6) same_config_real [OF p1(3)] by simp
  from Cons.IH [OF p1(2) this] obtain p2 where
    p2: "touch bs p1 = Inr p2" "pool_inv p2 (filter (\<lambda>c. c \<notin> set bs) (filter (\<lambda>c. c \<noteq> b) xs))"
      "same_config p1 p2" "\<And>c. ref_cnt (blk p2 c) = ref_cnt (blk p1 c) + int (count_list bs c)"
      "\<And>c. block_hash (blk p2 c) = block_hash (blk p1 c)"
      "cached_block_hash_to_block p2 = cached_block_hash_to_block p1"
    by auto
  have "filter (\<lambda>c. c \<notin> set bs) (filter (\<lambda>c. c \<noteq> b) xs) = filter (\<lambda>c. c \<notin> set (b # bs)) xs"
    by (simp add: conj_commute)
  with p2 p1 show ?case
    by (intro exI [of _ p2]) (auto simp: touch_def intro: same_config_trans)
qed


text \<open>
  Freeing. \<open>released\<close> is the list of the blocks whose last reference is given back, in the
  order in which their counters reach zero (the last occurrence of each: \<open>remdups\<close>).
\<close>

definition released :: "store \<Rightarrow> bref list \<Rightarrow> bref list" where
  "released h bs = filter (\<lambda>b. ref_cnt (h b) = int (count_list bs b)) (remdups bs)"

lemma free_loop_props:
  "\<forall>b\<in>set bs. int (count_list bs b) \<le> ref_cnt (h b) \<and> \<not> is_null (h b) \<Longrightarrow>
   \<exists>h'. free_loop c bs wo w h =
     Inr (wo @ filter (\<lambda>b. block_hash (h b) = None \<and> c) (released h bs),
          w @ filter (\<lambda>b. \<not> (block_hash (h b) = None \<and> c)) (released h bs), h') \<and>
   (\<forall>b. h' b = (h b)\<lparr>ref_cnt := ref_cnt (h b) - int (count_list bs b)\<rparr>)"
proof (induction bs arbitrary: wo w h)
  case Nil
  then show ?case by (simp add: released_def)
next
  case (Cons b bs)
  let ?h = "add_ref (-1) b h"
  have pre: "int (count_list bs b) \<le> ref_cnt (?h b)" using Cons.prems by (force simp: count_list_0_iff)
  have IHprem: "\<forall>c\<in>set bs. int (count_list bs c) \<le> ref_cnt (?h c) \<and> \<not> is_null (?h c)"
    using Cons.prems by auto
  have rel: "released h (b # bs) = (if b \<notin> set bs \<and> ref_cnt (h b) = 1 then [b] else []) @ released ?h bs"
  proof -
    have "filter (\<lambda>c. ref_cnt (h c) = int (count_list (b # bs) c)) (remdups bs) = released ?h bs"
      unfolding released_def by (rule filter_cong) auto
    then show ?thesis by (auto simp: released_def count_list_0_iff)
  qed
  have "b \<in> set bs \<Longrightarrow> 0 < ref_cnt (?h b)"
    using pre by (metis count_list_0_iff int_nat_eq le_less_linear less_le_trans not_gr_zero
        of_nat_0_less_iff)
  then have branch: "ref_cnt (?h b) = 0 \<longleftrightarrow> b \<notin> set bs \<and> ref_cnt (h b) = 1" by auto
  have nonneg: "\<not> ref_cnt (?h b) < 0" using pre by simp
  have nn: "\<not> is_null (h b)" using Cons.prems by simp
  have hash: "block_hash (?h c) = block_hash (h c)" for c by simp
  have fin: "(\<forall>d. h' d = (?h d)\<lparr>ref_cnt := ref_cnt (?h d) - int (count_list bs d)\<rparr>) \<Longrightarrow>
     (\<forall>d. h' d = (h d)\<lparr>ref_cnt := ref_cnt (h d) - int (count_list (b # bs) d)\<rparr>)" for h'
    by (auto simp: add_ref_apply algebra_simps)
  note IH = Cons.IH [OF IHprem, unfolded hash]
  show ?case
  proof (cases "b \<notin> set bs \<and> ref_cnt (h b) = 1")
    case True
    with branch have z: "ref_cnt (?h b) = 0" by simp
    show ?thesis
      using True z nn IH [of "wo @ [b]" w] IH [of wo "w @ [b]"] fin
      by (cases "block_hash (h b) = None \<and> c") (auto simp: rel Let_def)
  next
    case False
    with branch have z: "ref_cnt (?h b) \<noteq> 0" by simp
    show ?thesis
      using False z nonneg IH [of wo w] fin by (auto simp: rel Let_def)
  qed
qed

lemma distinct_released: "distinct (released h bs)"
  by (simp add: released_def)

lemma set_released:
  "set (released h bs) = {b \<in> set bs. ref_cnt (h b) = int (count_list bs b)}"
  by (auto simp: released_def)

lemma count_list_filter: "count_list (filter P xs) x = (if P x then count_list xs x else 0)"
  by (induction xs) auto

text \<open>
  The eviction order: unhashed blocks go to the front (when caching is on), hashed ones to
  the back, each group in the order given by the caller.
\<close>

lemma free_blocks_inv:
  assumes inv: "pool_inv p xs"
    and bs: "\<forall>b\<in>set bs. real_block p b \<and>
               (\<not> is_null (blk p b) \<longrightarrow> int (count_list bs b) \<le> ref_cnt (blk p b))"
  defines "nn \<equiv> filter (\<lambda>b. \<not> is_null (blk p b)) bs"
  defines "rel \<equiv> released (fq_blocks (free_block_queue p)) nn"
  shows "\<exists>p'. free_blocks bs p = Inr p' \<and>
    pool_inv p' (filter (\<lambda>b. block_hash (blk p b) = None \<and> enable_caching p) rel @ xs @
                 filter (\<lambda>b. \<not> (block_hash (blk p b) = None \<and> enable_caching p)) rel) \<and>
    same_config p p' \<and>
    (\<forall>c. ref_cnt (blk p' c) = ref_cnt (blk p c) - int (count_list nn c)) \<and>
    (\<forall>c. block_hash (blk p' c) = block_hash (blk p c)) \<and>
    cached_block_hash_to_block p' = cached_block_hash_to_block p"
proof -
  note D = pool_invD [OF inv]
  let ?h = "fq_blocks (free_block_queue p)" and ?P = "\<lambda>b. block_hash (blk p b) = None \<and> enable_caching p"
  let ?us = "filter ?P rel" and ?vs = "filter (\<lambda>b. \<not> ?P b) rel"
  have cnt: "count_list nn b = (if is_null (blk p b) then 0 else count_list bs b)" for b
    by (simp add: nn_def count_list_filter)
  have pre: "\<forall>b\<in>set nn. int (count_list nn b) \<le> ref_cnt (?h b) \<and> \<not> is_null (?h b)"
    using bs by (auto simp: cnt) (auto simp: nn_def)
  from free_loop_props [OF pre, of "enable_caching p" "[]" "[]"] obtain h where
    loop: "free_loop (enable_caching p) nn [] [] ?h = Inr (?us, ?vs, h)"
    and h: "\<And>b. h b = (?h b)\<lparr>ref_cnt := ref_cnt (?h b) - int (count_list nn b)\<rparr>"
    by (auto simp: rel_def)
  have rel_props: "real_block p b \<and> b \<in> set nn \<and> ref_cnt (?h b) = int (count_list nn b)" if "b \<in> set rel" for b
    using that bs by (auto simp: rel_def set_released) (auto simp: nn_def)
  have rel_pos: "0 < ref_cnt (?h b)" if "b \<in> set rel" for b
    using rel_props [OF that] by (simp add: count_list_0_iff) (metis count_list_0_iff gr0I)
  have repr1: "fq_repr ((free_block_queue p)\<lparr>fq_blocks := h\<rparr>) xs"
    using D(2) by (subst fq_repr_same_links [of "free_block_queue p"]) (auto simp: same_links_def h)
  have "distinct (?us @ ?vs)" by (auto simp: rel_def distinct_released)
  moreover have "set (?us @ ?vs) \<inter> set xs = {}" using D(3) rel_pos by fastforce
  moreover have "\<forall>b\<in>set (?us @ ?vs). b \<noteq> FakeHead \<and> b \<noteq> FakeTail" using rel_props by fastforce
  ultimately obtain q1 q2 where
    q: "prepend_n ?us ((free_block_queue p)\<lparr>fq_blocks := h\<rparr>) = Inr q1" "append_n ?vs q1 = Inr q2"
      "fq_repr q2 (?us @ xs @ ?vs)" "same_meta h (fq_blocks q2)"
    using fq.put_both [OF repr1, of ?us ?vs] by auto
  let ?p' = "p\<lparr>free_block_queue := q2\<rparr>"
  have "free_blocks bs p = Inr ?p'"
    by (simp add: free_blocks_def Let_def nn_def [symmetric] loop q(1) q(2) [simplified])
  moreover have conf: "same_config p ?p'" by (simp add: same_config_def)
  moreover have fields: "ref_cnt (blk ?p' c) = ref_cnt (blk p c) - int (count_list nn c)"
    "block_hash (blk ?p' c) = block_hash (blk p c)" "is_null (blk ?p' c) = is_null (blk p c)" for c
    using q(4) h by (simp_all add: same_meta_def)
  moreover have "pool_inv ?p' (?us @ xs @ ?vs)"
    unfolding pool_inv_def
  proof (intro conjI allI)
    have nonneg: "0 \<le> ref_cnt (blk ?p' (Blk i))" for i
    proof (cases "Blk i \<in> set nn")
      case True
      with pre fields(1) show ?thesis by simp
    next
      case False
      then have "count_list nn (Blk i) = 0" by (simp add: count_list_0_iff)
      with D(1) fields(1) show ?thesis by (simp add: pool_core_def)
    qed
    show "pool_core ?p'"
      using D(1)
    proof (rule pool_core_cong)
      show "1 \<le> ref_cnt (blk ?p' (Blk 0))" if "null_block p = Some (Blk 0)"
      proof -
        have "is_null (blk p (Blk 0))" using D(1) that by (simp add: pool_core_def null_ok_def)
        then have "count_list nn (Blk 0) = 0" by (simp add: cnt)
        with pool_core_null_ref [OF D(1) that] fields(1) show ?thesis by simp
      qed
    qed (use conf fields nonneg in simp_all)
    show "fq_repr (free_block_queue ?p') (?us @ xs @ ?vs)" using q(3) by simp
    show "b \<in> set (?us @ xs @ ?vs) \<longleftrightarrow> real_block ?p' b \<and> ref_cnt (blk ?p' b) = 0" for b
    proof -
      have "b \<in> set (?us @ xs @ ?vs) \<longleftrightarrow> b \<in> set xs \<or> b \<in> set rel" by auto
      also have "\<dots> \<longleftrightarrow> real_block p b \<and> ref_cnt (blk p b) = int (count_list nn b)"
      proof
        assume "b \<in> set xs \<or> b \<in> set rel"
        then show "real_block p b \<and> ref_cnt (blk p b) = int (count_list nn b)"
        proof
          assume x: "b \<in> set xs"
          then have "b \<notin> set nn" using D(3) pre by (metis count_list_0_iff le_zero_eq of_nat_0 of_nat_le_iff)
          with x D(3) show ?thesis by (simp add: count_list_0_iff)
        qed (use rel_props in blast)
      next
        assume *: "real_block p b \<and> ref_cnt (blk p b) = int (count_list nn b)"
        show "b \<in> set xs \<or> b \<in> set rel"
        proof (cases "b \<in> set nn")
          case True
          with * show ?thesis by (simp add: rel_def set_released)
        next
          case False
          with * D(3) show ?thesis by (simp add: count_list_0_iff)
        qed
      qed
      also have "\<dots> \<longleftrightarrow> real_block ?p' b \<and> ref_cnt (blk ?p' b) = 0"
        using same_config_real [OF conf] fields(1) by simp
      finally show ?thesis .
    qed
  qed
  ultimately show ?thesis by auto
qed


section \<open>Lookup, publication, reset\<close>

lemma get_cached_block_Some:
  assumes "pool_core p" "get_cached_block p h g = Inr (Some b)"
  shows "real_block p b" and "\<not> is_null (blk p b)"
    and "\<exists>key. make_block_hash_with_group_id h g = Inr key \<and> block_hash (blk p b) = Some key"
proof -
  from assms(2) obtain key where key: "make_block_hash_with_group_id h g = Inr key"
    and "(case map_of (cached_block_hash_to_block p) key of
            None \<Rightarrow> None | Some [] \<Rightarrow> None | Some (c # _) \<Rightarrow> Some c) = Some b"
    by (auto simp: get_cached_block_def rbind_eq_Inr_iff)
  then obtain es where "map_of (cached_block_hash_to_block p) key = Some (b # es)"
    by (auto split: option.splits list.splits)
  then have "b \<in> set (cache_entries p key)" by (simp add: cache_entries_def)
  with assms(1) have *: "real_block p b \<and> block_hash (blk p b) = Some key"
    by (simp add: pool_core_def cache_exact_def)
  then show "real_block p b" ..
  from * assms(1) show "\<not> is_null (blk p b)"
    by (auto simp: pool_core_def null_ok_def real_block_iff)
  from * key show "\<exists>key. make_block_hash_with_group_id h g = Inr key \<and> block_hash (blk p b) = Some key"
    by blast
qed

text \<open>The lookup misses exactly when no block carries the key.\<close>

lemma get_cached_block_None_iff:
  assumes "pool_core p" "make_block_hash_with_group_id h g = Inr key"
  shows "get_cached_block p h g = Inr None \<longleftrightarrow> (\<forall>b. real_block p b \<longrightarrow> block_hash (blk p b) \<noteq> Some key)"
proof -
  have "get_cached_block p h g = Inr None \<longleftrightarrow> cache_entries p key = []"
    using assms by (auto simp: get_cached_block_def cache_entries_def pool_core_def cache_exact_def
        split: option.splits list.splits)
  also have "\<dots> \<longleftrightarrow> (\<forall>b. b \<notin> set (cache_entries p key))" by auto
  finally show ?thesis using assms(1) unfolding pool_core_def cache_exact_def by blast
qed

lemma get_cached_block_total:
  "0 \<le> g \<Longrightarrow> g < 2 ^ 32 \<Longrightarrow> \<exists>r. get_cached_block p h g = Inr r"
  by (simp add: get_cached_block_def make_block_hash_with_group_id_def to_bytes4_def)

text \<open>Publishing one block.\<close>

lemma add_cache_entry_inv:
  assumes inv: "pool_inv p xs" and b: "real_block p b" and nohash: "block_hash (blk p b) = None"
    and nn: "\<not> is_null (blk p b)"
  shows "\<exists>h. set_block_hash b key (fq_blocks (free_block_queue p)) = Inr h \<and>
    (let p' = add_cache_entry key b (upd_store (\<lambda>_. h) p) in
       pool_inv p' xs \<and> same_config p p' \<and>
       (\<forall>c. blk p' c = (if c = b then (blk p b)\<lparr>block_hash := Some key\<rparr> else blk p c)))"
proof -
  let ?h = "(fq_blocks (free_block_queue p))(b := (blk p b)\<lparr>block_hash := Some key\<rparr>)"
  define p' where "p' = add_cache_entry key b (upd_store (\<lambda>_. ?h) p)"
  note D = pool_invD [OF inv]
  have conf: "same_config p p'" by (simp add: p'_def add_cache_entry_def Let_def same_config_def)
  have blks: "blk p' c = (if c = b then (blk p b)\<lparr>block_hash := Some key\<rparr> else blk p c)" for c
    by (simp add: p'_def add_cache_entry_def Let_def)
  have num: "num_free_blocks (free_block_queue p') = num_free_blocks (free_block_queue p)"
    by (simp add: p'_def add_cache_entry_def Let_def)
  from D(1) have ex: "cache_exact p" by (simp add: pool_core_def)
  with nohash have notin: "b \<notin> set (cache_entries p key)" by (simp add: cache_exact_def)
  have "add_cache_entry key b q = q\<lparr>cached_block_hash_to_block := AList.update key
      (if b \<in> set (cache_entries q key) then cache_entries q key else cache_entries q key @ [b])
      (cached_block_hash_to_block q)\<rparr>" for q
    by (simp add: add_cache_entry_def Let_def)
  moreover have "cache_entries (upd_store f p) key = cache_entries p key" for f
    by (simp add: cache_entries_def)
  ultimately have map': "cached_block_hash_to_block p' =
      AList.update key (cache_entries p key @ [b]) (cached_block_hash_to_block p)"
    using notin by (simp add: p'_def)
  have ent: "cache_entries p' k = (if k = key then cache_entries p key @ [b] else cache_entries p k)" for k
    by (simp add: cache_entries_def map' update_conv')
  have "cache_exact p'"
    unfolding cache_exact_def
  proof (intro conjI allI)
    show "distinct (map fst (cached_block_hash_to_block p'))"
      using ex by (simp add: map' cache_exact_def distinct_update)
    show "map_of (cached_block_hash_to_block p') k \<noteq> Some []" for k
      using ex by (simp add: map' cache_exact_def update_conv')
    show "distinct (cache_entries p' k)" for k
      using ex notin by (simp add: ent cache_exact_def)
    show "c \<in> set (cache_entries p' k) \<longleftrightarrow> real_block p' c \<and> block_hash (blk p' c) = Some k" for k c
      using ex notin b nohash by (auto simp: ent cache_exact_def blks same_config_real [OF conf])
  qed
  moreover have "null_ok p'"
    using D(1) conf nn b by (auto simp: pool_core_def null_ok_def same_config_def blks)
  ultimately have "pool_core p'"
    using D(1) conf by (auto simp: pool_core_def same_config_def blks)
  then have "pool_inv p' xs"
    using inv num by (auto simp: pool_inv_def blks same_config_real [OF conf] same_links_def
        fq_repr_same_links [of "free_block_queue p" "free_block_queue p'"])
  with conf blks nohash show ?thesis by (auto simp: set_block_hash_def p'_def Let_def)
qed

text \<open>
  What publication does to the blocks of a list: nothing but give a hash to some of the
  blocks that had none.
\<close>

definition hash_grows :: "block_pool \<Rightarrow> block_pool \<Rightarrow> bool" where
  "hash_grows p p' \<longleftrightarrow>
     (\<forall>c. ref_cnt (blk p' c) = ref_cnt (blk p c) \<and> is_null (blk p' c) = is_null (blk p c) \<and>
          (block_hash (blk p c) \<noteq> None \<longrightarrow> block_hash (blk p' c) = block_hash (blk p c)))"

lemma hash_grows_refl [simp, intro]: "hash_grows p p"
  by (simp add: hash_grows_def)

lemma hash_grows_trans: "hash_grows p p' \<Longrightarrow> hash_grows p' p'' \<Longrightarrow> hash_grows p p''"
  by (auto simp: hash_grows_def)

lemma cache_full_loop_inv:
  assumes "pool_inv p xs" "\<forall>b\<in>set blocks. real_block p b" "0 \<le> g" "g < 2 ^ 32"
  shows "\<exists>p'. cache_full_loop is hashes blocks g p = Inr p' \<and> pool_inv p' xs \<and>
              same_config p p' \<and> hash_grows p p'"
  using assms(1,2)
proof (induction "is" arbitrary: p)
  case Nil
  then show ?case by auto
next
  case (Cons i "is")
  show ?case
  proof (cases "length hashes \<le> i \<or> length blocks \<le> i \<or> block_hash (blk p (blocks ! i)) \<noteq> None \<or>
                is_null (blk p (blocks ! i))")
    case True
    with Cons.IH [OF Cons.prems] Cons.prems(1) show ?thesis by (auto simp: Let_def)
  next
    case False
    let ?b = "blocks ! i"
    from assms(3,4) obtain key where key: "make_block_hash_with_group_id (hashes ! i) g = Inr key"
      by (simp add: make_block_hash_with_group_id_def to_bytes4_def)
    have "real_block p ?b" using False Cons.prems(2) by simp
    with add_cache_entry_inv [OF Cons.prems(1), of ?b key] False obtain h where
      h: "set_block_hash ?b key (fq_blocks (free_block_queue p)) = Inr h" and
      p1: "pool_inv (add_cache_entry key ?b (upd_store (\<lambda>_. h) p)) xs"
        "same_config p (add_cache_entry key ?b (upd_store (\<lambda>_. h) p))"
        "\<And>c. blk (add_cache_entry key ?b (upd_store (\<lambda>_. h) p)) c =
             (if c = ?b then (blk p ?b)\<lparr>block_hash := Some key\<rparr> else blk p c)"
      by (auto simp: Let_def)
    let ?p1 = "add_cache_entry key ?b (upd_store (\<lambda>_. h) p)"
    have "hash_grows p ?p1" using p1(3) False by (simp add: hash_grows_def)
    moreover have "\<forall>b\<in>set blocks. real_block ?p1 b"
      using Cons.prems(2) same_config_real [OF p1(2)] by simp
    from Cons.IH [OF p1(1) this] obtain p2 where "cache_full_loop is hashes blocks g ?p1 = Inr p2"
      "pool_inv p2 xs" "same_config ?p1 p2" "hash_grows ?p1 p2" by blast
    ultimately show ?thesis
      using False h key p1(2)
      by (auto simp: Let_def intro: same_config_trans hash_grows_trans)
  qed
qed

lemma cache_full_blocks_inv:
  assumes "pool_inv p xs" "\<forall>b\<in>set blocks. real_block p b" "0 \<le> g" "g < 2 ^ 32"
  shows "\<exists>p'. cache_full_blocks hashes blocks m n g p = Inr p' \<and> pool_inv p' xs \<and>
              same_config p p' \<and> hash_grows p p'"
  using cache_full_loop_inv [OF assms] assms(1) by (auto simp: cache_full_blocks_def)


text \<open>Resetting the cache.\<close>

lemma pool_inv_evict:
  assumes "pool_inv p xs" "real_block p b"
  shows "pool_inv (snd (maybe_evict_cached_block b p)) xs"
proof -
  note D = pool_invD [OF assms(1)]
  define p' where "p' = snd (maybe_evict_cached_block b p)"
  note E = evict_props [OF D(1) assms(2), folded p'_def]
  have "fq_repr (free_block_queue p') xs"
    using D(2) E(3,4) by (subst fq_repr_same_links [of "free_block_queue p"]) (auto simp: same_links_def)
  with E(1,3) D(3) show ?thesis
    by (auto simp: pool_inv_def p'_def [symmetric] same_config_real [OF E(2)])
qed

lemma evict_all_props:
  assumes "pool_inv p xs" "\<forall>b\<in>set bs. real_block p b"
  defines "p' \<equiv> fold (\<lambda>b p. snd (maybe_evict_cached_block b p)) bs p"
  shows "pool_inv p' xs" and "same_config p p'"
    and "blk p' c = (if c \<in> set bs then (blk p c)\<lparr>block_hash := None\<rparr> else blk p c)"
proof -
  have "pool_inv (fold (\<lambda>b p. snd (maybe_evict_cached_block b p)) bs p) xs \<and>
        same_config p (fold (\<lambda>b p. snd (maybe_evict_cached_block b p)) bs p) \<and>
        (\<forall>c. blk (fold (\<lambda>b p. snd (maybe_evict_cached_block b p)) bs p) c =
          (if c \<in> set bs then (blk p c)\<lparr>block_hash := None\<rparr> else blk p c))"
    using assms(1,2)
  proof (induction bs arbitrary: p)
    case Nil
    then show ?case by simp
  next
    case (Cons b bs)
    let ?p1 = "snd (maybe_evict_cached_block b p)"
    have core: "pool_core p" and b: "real_block p b" using Cons.prems by (auto dest: pool_invD)
    note E = evict_props [OF core b]
    have "\<forall>c\<in>set bs. real_block ?p1 c"
      using Cons.prems(2) same_config_real [OF E(2)] by simp
    from Cons.IH [OF pool_inv_evict [OF Cons.prems(1) b] this] E(2,3) show ?case
      by (auto intro: same_config_trans)
  qed
  then show "pool_inv p' xs" and "same_config p p'"
    and "blk p' c = (if c \<in> set bs then (blk p c)\<lparr>block_hash := None\<rparr> else blk p c)"
    by (simp_all add: p'_def)
qed

lemma usable_blocks:
  assumes "pool_core p"
  shows "num_usable_blocks p = int (length (filter (\<lambda>b. null_block p \<noteq> Some b) (pool_blocks p)))"
proof -
  define n where "n = nat (num_gpu_blocks p)"
  have n: "num_gpu_blocks p = int n" "0 < n" "pool_blocks p = map Blk [0..<n]"
    using assms by (simp_all add: pool_core_def n_def pool_blocks_def)
  show ?thesis
  proof (cases "null_block p")
    case None
    then have "filter (\<lambda>b. null_block p \<noteq> Some b) (pool_blocks p) = pool_blocks p" by simp
    then show ?thesis using None n by (simp add: num_usable_blocks_def)
  next
    case (Some b)
    with assms have b: "null_block p = Some (Blk 0)"
      by (auto simp: pool_core_def null_ok_def)
    have "map Blk [0..<n] = Blk 0 # map Blk [1..<n]" using n(2) by (simp add: upt_conv_Cons)
    moreover have "filter (\<lambda>c. null_block p \<noteq> Some c) (map Blk [1..<n]) = map Blk [1..<n]"
      using b by (intro filter_True) auto
    ultimately have "filter (\<lambda>b. null_block p \<noteq> Some b) (pool_blocks p) = map Blk [1..<n]"
      unfolding n(3) using b by simp
    then show ?thesis using n(1,2) b by (simp add: num_usable_blocks_def)
  qed
qed

text \<open>The free list is everything that is not referenced and not the null block.\<close>

lemma free_le_usable:
  assumes inv: "pool_inv p xs"
  shows "int (length xs) \<le> num_usable_blocks p"
    and "int (length xs) = num_usable_blocks p \<longleftrightarrow>
         (\<forall>b. real_block p b \<and> null_block p \<noteq> Some b \<longrightarrow> ref_cnt (blk p b) = 0)"
proof -
  note D = pool_invD [OF inv]
  let ?us = "filter (\<lambda>b. null_block p \<noteq> Some b) (pool_blocks p)"
  have dist: "distinct ?us" by (simp add: pool_blocks_def distinct_map inj_on_def)
  have nullref: "null_block p = Some b \<Longrightarrow> ref_cnt (blk p b) \<noteq> 0" for b
    using D(1) by (auto simp: pool_core_def null_ok_def)
  then have sub: "set xs \<subseteq> set ?us" using D(3) by (auto simp: real_block_def)
  have lens: "length xs = card (set xs)" "length ?us = card (set ?us)"
    using D(4) dist by (simp_all only: distinct_card)
  show "int (length xs) \<le> num_usable_blocks p"
    using sub by (simp add: usable_blocks [OF D(1)] lens card_mono del: set_filter)
  have "int (length xs) = num_usable_blocks p \<longleftrightarrow> set xs = set ?us"
    using sub lens card_subset_eq [of "set ?us" "set xs"]
    by (auto simp: usable_blocks [OF D(1)] simp del: set_filter)
  also have "\<dots> \<longleftrightarrow> (\<forall>b. real_block p b \<and> null_block p \<noteq> Some b \<longrightarrow> ref_cnt (blk p b) = 0)"
    using D(3) nullref by (auto simp: real_block_def)
  finally show "int (length xs) = num_usable_blocks p \<longleftrightarrow>
         (\<forall>b. real_block p b \<and> null_block p \<noteq> Some b \<longrightarrow> ref_cnt (blk p b) = 0)" .
qed


lemma usable_pos: "pool_core p \<Longrightarrow> 0 < num_usable_blocks p"
  by (auto simp: pool_core_def null_ok_def num_usable_blocks_def)

lemma reset_inv:
  assumes inv: "pool_inv p xs"
  shows "fst (pool_reset_prefix_cache p) \<longleftrightarrow>
           (\<forall>b. real_block p b \<and> null_block p \<noteq> Some b \<longrightarrow> ref_cnt (blk p b) = 0)"
    and "pool_inv (snd (pool_reset_prefix_cache p)) xs"
    and "fst (pool_reset_prefix_cache p) \<Longrightarrow>
           cached_block_hash_to_block (snd (pool_reset_prefix_cache p)) = [] \<and>
           (\<forall>b. real_block p b \<longrightarrow> block_hash (blk (snd (pool_reset_prefix_cache p)) b) = None)"
    and "\<not> fst (pool_reset_prefix_cache p) \<Longrightarrow> snd (pool_reset_prefix_cache p) = p"
proof -
  note D = pool_invD [OF inv]
  let ?idle = "\<forall>b. real_block p b \<and> null_block p \<noteq> Some b \<longrightarrow> ref_cnt (blk p b) = 0"
  define p1 where "p1 = fold (\<lambda>b p. snd (maybe_evict_cached_block b p)) (pool_blocks p) p"
  let ?p2 = "p1\<lparr>cached_block_hash_to_block := [], num_evicted_blocks := 0\<rparr>"
  have all: "\<forall>b\<in>set (pool_blocks p). real_block p b" by (simp add: real_block_def)
  note E = evict_all_props [OF inv all, folded p1_def]
  have branch: "0 < num_usable_blocks p - get_num_free_blocks p \<longleftrightarrow> \<not> ?idle"
    unfolding free_le_usable(2) [OF inv, symmetric] using free_le_usable(1) [OF inv] D(5) by linarith
  then show "fst (pool_reset_prefix_cache p) \<longleftrightarrow> ?idle"
    by (auto simp: pool_reset_prefix_cache_def Let_def split: if_splits)
  have nohash: "block_hash (blk p1 b) = None" if "real_block p1 b" for b
    using that E(3) same_config_real [OF E(2)] by (simp add: real_block_def)
  have real2: "real_block ?p2 b \<longleftrightarrow> real_block p1 b" for b by (simp add: real_block_iff)
  have "cache_exact ?p2"
    using nohash by (auto simp: cache_exact_def cache_entries_def real2)
  then have "pool_inv ?p2 xs"
    using E(1) by (simp add: pool_inv_def pool_core_def null_ok_def real_block_iff)
  then show "pool_inv (snd (pool_reset_prefix_cache p)) xs"
    using inv by (simp add: pool_reset_prefix_cache_def p1_def [symmetric] Let_def)
  show "cached_block_hash_to_block (snd (pool_reset_prefix_cache p)) = [] \<and>
        (\<forall>b. real_block p b \<longrightarrow> block_hash (blk (snd (pool_reset_prefix_cache p)) b) = None)"
    if "fst (pool_reset_prefix_cache p)"
    using that nohash same_config_real [OF E(2)]
    by (auto simp: pool_reset_prefix_cache_def p1_def [symmetric] Let_def split: if_splits)
  show "snd (pool_reset_prefix_cache p) = p" if "\<not> fst (pool_reset_prefix_cache p)"
    using that by (simp add: pool_reset_prefix_cache_def Let_def split: if_splits)
qed

lemma block_pool_init_inv:
  assumes "block_pool_init n caching events reserve = Inr p"
  shows "pool_inv p (map Blk [(if reserve then 1 else 0)..<nat n])"
    and "0 < n" and "num_gpu_blocks p = n" and "enable_caching p = caching"
    and "null_block p = (if reserve then Some (Blk 0) else None)"
proof -
  let ?h = "(\<lambda>_. new_block)(Blk 0 := new_block\<lparr>ref_cnt := 1, is_null := True\<rparr>)"
  let ?bs = "map Blk [(if reserve then 1 else 0)..<nat n]"
  from assms have n: "0 < n" "reserve \<longrightarrow> 2 \<le> n"
    by (auto simp: block_pool_init_def split: if_splits)
  have tl_upt: "tl (map Blk [0..<nat n]) = map Blk [1..<nat n]" using n(1) by (simp add: map_tl [symmetric] tl_upt)
  have p: "p = \<lparr>num_gpu_blocks = n, enable_caching = caching,
      null_block = (if reserve then Some (Blk 0) else None),
      free_block_queue = fq_init ?bs (if reserve then ?h else (\<lambda>_. new_block)),
      cached_block_hash_to_block = [], num_evicted_blocks = 0\<rparr>"
    using assms n tl_upt by (auto simp: block_pool_init_def Let_def split: if_splits)
  have d: "distinct ?bs" "FakeHead \<notin> set ?bs" "FakeTail \<notin> set ?bs"
    by (auto simp: distinct_map inj_on_def)
  note I = fq_init_repr [OF d, of "if reserve then ?h else (\<lambda>_. new_block)"]
  have links: "prev_free_block ((if reserve then ?h else (\<lambda>_. new_block)) (Blk i)) = None \<and>
      next_free_block ((if reserve then ?h else (\<lambda>_. new_block)) (Blk i)) = None" for i
    by (simp add: new_block_def)
  note I = I [OF links]
  have real: "real_block p b \<longleftrightarrow> (\<exists>i. b = Blk i \<and> int i < n)" for b
    by (simp add: real_block_iff) (simp add: p)
  have blks: "ref_cnt (blk p (Blk i)) = (if reserve \<and> i = 0 then 1 else 0)"
    "block_hash (blk p (Blk i)) = None" "is_null (blk p (Blk i)) \<longleftrightarrow> reserve \<and> i = 0" for i
    by (auto simp: p I new_block_def)
  have "cache_exact p" using blks(2) real by (auto simp: cache_exact_def cache_entries_def p)
  moreover have "null_ok p" using blks n by (auto simp: null_ok_def p)
  ultimately have "pool_core p" using blks n by (simp add: pool_core_def p)
  moreover have "fq_repr (free_block_queue p) ?bs" using I(1) by (simp add: p)
  moreover have "b \<in> set ?bs \<longleftrightarrow> real_block p b \<and> ref_cnt (blk p b) = 0" for b
    using blks(1) by (cases b) (auto simp: real image_iff)
  ultimately show "pool_inv p ?bs" by (simp add: pool_inv_def)
  show "0 < n" "num_gpu_blocks p = n" "enable_caching p = caching"
    "null_block p = (if reserve then Some (Blk 0) else None)"
    using n by (simp_all add: p)
qed

lemma check_invariants_pass:
  assumes inv: "pool_inv p xs"
  shows "check_invariants p = Some (Inr ())"
proof -
  note D = pool_invD [OF inv]
  let ?bs = "pool_blocks p"
  have walk: "get_all_free_blocks (free_block_queue p) = Some xs"
    using D(2) by (rule get_all_free_blocks_repr)
  have dist: "distinct ?bs" by (simp add: pool_blocks_def distinct_map inj_on_def)
  have nonneg: "0 \<le> ref_cnt (blk p b)" if "b \<in> set ?bs" for b
    using D(1) that by (auto simp: pool_core_def pool_blocks_def)
  have "set xs = set (filter (\<lambda>b. \<not> 0 < ref_cnt (blk p b)) ?bs)"
    using D(3) nonneg by (force simp: real_block_def)
  then have "length xs = length (filter (\<lambda>b. \<not> 0 < ref_cnt (blk p b)) ?bs)"
    using D(4) dist by (metis distinct_card distinct_filter)
  then have "length xs + length (filter (\<lambda>b. 0 < ref_cnt (blk p b)) ?bs) = length ?bs"
    using sum_length_filter_compl [of "\<lambda>b. 0 < ref_cnt (blk p b)" ?bs] by simp
  moreover have "int (length ?bs) = num_gpu_blocks p"
    using D(1) by (simp add: pool_blocks_def pool_core_def)
  ultimately have total: "int (length xs) + int (length (filter (\<lambda>b. 0 < ref_cnt (blk p b)) ?bs)) = num_gpu_blocks p"
    by linarith
  have usage: "0 \<le> get_usage p \<and> get_usage p \<le> 1"
    using usable_pos [OF D(1)] free_le_usable(1) [OF inv] D(5)
    by (simp add: get_usage_def field_simps)
  have zero: "list_all (\<lambda>b. ref_cnt (blk p b) = 0) xs" using D(3) by (simp add: list_all_iff)
  show ?thesis
    using walk total usage zero D(5)
    by (simp add: check_invariants_def Let_def get_num_free_blocks_def)
qed

section \<open>The interface the KV cache managers rely on\<close>

text \<open>
  A provider hands out blocks and counts references to them. \<open>holds p M\<close>: the invariant,
  and every owned block that is not pinned is referenced as often as the multiset \<open>M\<close> of
  all block-table entries contains it. The three laws below are what makes a manager's
  bookkeeping correct: whatever it takes it must record, whatever it drops it must return.
\<close>

locale block_provider =
  fixes inv :: "'p \<Rightarrow> bool"
    and owned pinned :: "'p \<Rightarrow> 'b \<Rightarrow> bool"
    and refs :: "'p \<Rightarrow> 'b \<Rightarrow> int"
    and free_count :: "'p \<Rightarrow> int"
    and get_new :: "int \<Rightarrow> 'p \<Rightarrow> ('b list \<times> 'p) result"
    and take_refs give_back :: "'b list \<Rightarrow> 'p \<Rightarrow> 'p result"
    and holds :: "'p \<Rightarrow> 'b multiset \<Rightarrow> bool"
  assumes holds_iff: "holds p M \<longleftrightarrow> inv p \<and> (\<forall>b \<in># M. owned p b) \<and>
      (\<forall>b. owned p b \<longrightarrow> \<not> pinned p b \<longrightarrow> refs p b = int (count M b))"
    and get_new: "inv p \<Longrightarrow> 0 \<le> n \<Longrightarrow> n \<le> free_count p \<Longrightarrow>
      \<exists>bs p'. get_new n p = Inr (bs, p') \<and> inv p' \<and> owned p' = owned p \<and> pinned p' = pinned p \<and>
        int (length bs) = n \<and> distinct bs \<and>
        (\<forall>b\<in>set bs. owned p b \<and> \<not> pinned p b \<and> refs p b = 0) \<and>
        (\<forall>b. refs p' b = refs p b + int (count_list bs b)) \<and> free_count p' = free_count p - n"
    and take_refs: "inv p \<Longrightarrow> \<forall>b\<in>set bs. owned p b \<and> \<not> pinned p b \<Longrightarrow>
      \<exists>p'. take_refs bs p = Inr p' \<and> inv p' \<and> owned p' = owned p \<and> pinned p' = pinned p \<and>
        (\<forall>b. refs p' b = refs p b + int (count_list bs b)) \<and>
        free_count p' = free_count p - int (card {b \<in> set bs. refs p b = 0})"
    and give_back: "inv p \<Longrightarrow>
      \<forall>b\<in>set bs. owned p b \<and> (\<not> pinned p b \<longrightarrow> int (count_list bs b) \<le> refs p b) \<Longrightarrow>
      \<exists>p'. give_back bs p = Inr p' \<and> inv p' \<and> owned p' = owned p \<and> pinned p' = pinned p \<and>
        (\<forall>b. refs p' b = refs p b - (if pinned p b then 0 else int (count_list bs b)))"
begin

lemma holds_alloc:
  assumes "holds p M" "0 \<le> n" "n \<le> free_count p"
  shows "\<exists>bs p'. get_new n p = Inr (bs, p') \<and> holds p' (M + mset bs) \<and> int (length bs) = n \<and>
    distinct bs \<and> (\<forall>b\<in>set bs. b \<notin># M \<and> \<not> pinned p b) \<and>
    owned p' = owned p \<and> pinned p' = pinned p \<and> free_count p' = free_count p - n"
proof -
  from assms(1) have H: "inv p" "\<forall>b \<in># M. owned p b"
    "\<forall>b. owned p b \<longrightarrow> \<not> pinned p b \<longrightarrow> refs p b = int (count M b)" by (simp_all add: holds_iff)
  from get_new [OF H(1) assms(2,3)] obtain bs p' where G: "get_new n p = Inr (bs, p')" "inv p'"
    "owned p' = owned p" "pinned p' = pinned p" "int (length bs) = n" "distinct bs"
    "\<forall>b\<in>set bs. owned p b \<and> \<not> pinned p b \<and> refs p b = 0"
    "\<forall>b. refs p' b = refs p b + int (count_list bs b)" "free_count p' = free_count p - n" by blast
  have "\<forall>b\<in>set bs. b \<notin># M" using G(7) H(3) by (metis not_in_iff of_nat_eq_0_iff)
  moreover have "refs p' b = int (count (M + mset bs) b)" if "owned p b" "\<not> pinned p b" for b
    using G(8) H(3) that by (simp add: count_mset)
  then have "holds p' (M + mset bs)"
    using G(2-4,7) H(2) unfolding holds_iff by auto
  ultimately show ?thesis using G by blast
qed

lemma holds_take:
  assumes "holds p M" "\<forall>b\<in>set bs. owned p b"
  shows "\<exists>p'. take_refs (filter (\<lambda>b. \<not> pinned p b) bs) p = Inr p' \<and> holds p' (M + mset bs) \<and>
    owned p' = owned p \<and> pinned p' = pinned p \<and>
    free_count p' = free_count p - int (card {b \<in> set bs. \<not> pinned p b \<and> refs p b = 0})"
proof -
  let ?bs = "filter (\<lambda>b. \<not> pinned p b) bs"
  from assms(1) have H: "inv p" "\<forall>b \<in># M. owned p b"
    "\<forall>b. owned p b \<longrightarrow> \<not> pinned p b \<longrightarrow> refs p b = int (count M b)" by (simp_all add: holds_iff)
  have sets: "{b \<in> set ?bs. refs p b = 0} = {b \<in> set bs. \<not> pinned p b \<and> refs p b = 0}" by auto
  from take_refs [OF H(1), of ?bs] assms(2) obtain p' where T: "take_refs ?bs p = Inr p'" "inv p'"
    "owned p' = owned p" "pinned p' = pinned p"
    "\<forall>b. refs p' b = refs p b + int (count_list ?bs b)"
    "free_count p' = free_count p - int (card {b \<in> set bs. \<not> pinned p b \<and> refs p b = 0})"
    unfolding sets by auto
  have "refs p' b = int (count (M + mset bs) b)" if "owned p b" "\<not> pinned p b" for b
    using T(5) H(3) that by (simp add: count_mset count_list_filter)
  then have "holds p' (M + mset bs)"
    using T(2-4) H(2) assms(2) unfolding holds_iff by auto
  with T show ?thesis by blast
qed

lemma holds_free:
  assumes "holds p (M + mset bs)"
  shows "\<exists>p'. give_back (rev bs) p = Inr p' \<and> holds p' M \<and> owned p' = owned p \<and> pinned p' = pinned p"
proof -
  from assms have H: "inv p" "\<forall>b \<in># M + mset bs. owned p b"
    "\<forall>b. owned p b \<longrightarrow> \<not> pinned p b \<longrightarrow> refs p b = int (count (M + mset bs) b)"
    by (simp_all add: holds_iff)
  have "\<forall>b\<in>set (rev bs). owned p b \<and> (\<not> pinned p b \<longrightarrow> int (count_list (rev bs) b) \<le> refs p b)"
    using H(2,3) by (simp add: count_mset)
  from give_back [OF H(1) this] obtain p' where F: "give_back (rev bs) p = Inr p'" "inv p'"
    "owned p' = owned p" "pinned p' = pinned p"
    "\<forall>b. refs p' b = refs p b - (if pinned p b then 0 else int (count_list (rev bs) b))" by blast
  have "refs p' b = int (count M b)" if "owned p b" "\<not> pinned p b" for b
    using F(5) H(3) that by (simp add: count_mset)
  then have "holds p' M" using F(2-4) H(2) unfolding holds_iff by auto
  with F show ?thesis by blast
qed

text \<open>With no table entries left, no block is referenced: everything went back.\<close>

lemma holds_empty: "holds p {#} \<Longrightarrow> owned p b \<Longrightarrow> \<not> pinned p b \<Longrightarrow> refs p b = 0"
  by (simp add: holds_iff)

end

definition pool_holds :: "block_pool \<Rightarrow> bref multiset \<Rightarrow> bool" where
  "pool_holds p M \<longleftrightarrow> (\<exists>xs. pool_inv p xs) \<and> (\<forall>b \<in># M. real_block p b) \<and>
     (\<forall>b. real_block p b \<longrightarrow> null_block p \<noteq> Some b \<longrightarrow> ref_cnt (blk p b) = int (count M b))"

lemma null_iff: "pool_inv p xs \<Longrightarrow> real_block p b \<Longrightarrow> is_null (blk p b) \<longleftrightarrow> null_block p = Some b"
  by (auto simp: pool_inv_def pool_core_def null_ok_def real_block_iff)


interpretation pool: block_provider "\<lambda>p. \<exists>xs. pool_inv p xs" real_block
  "\<lambda>p b. null_block p = Some b" "\<lambda>p b. ref_cnt (blk p b)" get_num_free_blocks
  get_new_blocks touch free_blocks pool_holds
proof
  show "pool_holds p M \<longleftrightarrow> (\<exists>xs. pool_inv p xs) \<and> (\<forall>b \<in># M. real_block p b) \<and>
     (\<forall>b. real_block p b \<longrightarrow> null_block p \<noteq> Some b \<longrightarrow> ref_cnt (blk p b) = int (count M b))" for p M
    by (simp add: pool_holds_def)
next
  fix p and n :: int
  assume inv: "\<exists>xs. pool_inv p xs" and n: "0 \<le> n" "n \<le> get_num_free_blocks p"
  from inv obtain xs where xs: "pool_inv p xs" ..
  let ?bs = "take (nat n) xs"
  note D = pool_invD [OF xs]
  from n D(5) have len: "n \<le> int (length xs)" by simp
  from get_new_blocks_inv [OF xs n(1) len] obtain p' where
    G: "get_new_blocks n p = Inr (?bs, p')" "pool_inv p' (drop (nat n) xs)" "same_config p p'"
      "\<And>c. ref_cnt (blk p' c) = ref_cnt (blk p c) + (if c \<in> set ?bs then 1 else 0)" by blast
  have cnt: "int (count_list ?bs c) = (if c \<in> set ?bs then 1 else 0)" for c
    using D(4) distinct_take [of xs "nat n"] by (auto simp: count_list_0_iff distinct_count_atmost_1 simp flip: count_mset)
  have "\<forall>b\<in>set ?bs. real_block p b \<and> null_block p \<noteq> Some b \<and> ref_cnt (blk p b) = 0"
    using D(3) free_not_null [OF xs] null_iff [OF xs] by (auto dest!: in_set_takeD)
  then show "\<exists>bs p'. get_new_blocks n p = Inr (bs, p') \<and> (\<exists>xs. pool_inv p' xs) \<and>
        real_block p' = real_block p \<and>
        (\<lambda>b. null_block p' = Some b) = (\<lambda>b. null_block p = Some b) \<and> int (length bs) = n \<and>
        distinct bs \<and>
        (\<forall>b\<in>set bs. real_block p b \<and> null_block p \<noteq> Some b \<and> ref_cnt (blk p b) = 0) \<and>
        (\<forall>b. ref_cnt (blk p' b) = ref_cnt (blk p b) + int (count_list bs b)) \<and>
        get_num_free_blocks p' = get_num_free_blocks p - n"
    using G len n(1) D(4,5) pool_invD(5) [OF G(2)] same_config_real [OF G(3)]
    by (intro exI [of _ ?bs] exI [of _ p']) (auto simp: cnt same_config_def fun_eq_iff)
next
  fix p and bs
  assume inv: "\<exists>xs. pool_inv p xs" and bs: "\<forall>b\<in>set bs. real_block p b \<and> null_block p \<noteq> Some b"
  from inv obtain xs where xs: "pool_inv p xs" ..
  note D = pool_invD [OF xs]
  from bs null_iff [OF xs] have "\<forall>b\<in>set bs. real_block p b \<and> \<not> is_null (blk p b)" by simp
  from touch_inv [OF xs this] obtain p' where
    T: "touch bs p = Inr p'" "pool_inv p' (filter (\<lambda>c. c \<notin> set bs) xs)" "same_config p p'"
      "\<And>c. ref_cnt (blk p' c) = ref_cnt (blk p c) + int (count_list bs c)" by blast
  have "{b \<in> set bs. ref_cnt (blk p b) = 0} = set (filter (\<lambda>c. c \<in> set bs) xs)"
    using bs D(3) by auto
  then have "card {b \<in> set bs. ref_cnt (blk p b) = 0} = length (filter (\<lambda>c. c \<in> set bs) xs)"
    using D(4) by (simp add: distinct_card del: set_filter)
  then have "length xs = length (filter (\<lambda>c. c \<notin> set bs) xs) + card {b \<in> set bs. ref_cnt (blk p b) = 0}"
    using sum_length_filter_compl [of "\<lambda>c. c \<in> set bs" xs] by simp
  then show "\<exists>p'. touch bs p = Inr p' \<and> (\<exists>xs. pool_inv p' xs) \<and> real_block p' = real_block p \<and>
        (\<lambda>b. null_block p' = Some b) = (\<lambda>b. null_block p = Some b) \<and>
        (\<forall>b. ref_cnt (blk p' b) = ref_cnt (blk p b) + int (count_list bs b)) \<and>
        get_num_free_blocks p' =
          get_num_free_blocks p - int (card {b \<in> set bs. ref_cnt (blk p b) = 0})"
    using T D(5) pool_invD(5) [OF T(2)] same_config_real [OF T(3)]
    by (intro exI [of _ p']) (auto simp: same_config_def fun_eq_iff)
next
  fix p and bs
  assume inv: "\<exists>xs. pool_inv p xs" and bs: "\<forall>b\<in>set bs. real_block p b \<and>
      (null_block p \<noteq> Some b \<longrightarrow> int (count_list bs b) \<le> ref_cnt (blk p b))"
  from inv obtain xs where xs: "pool_inv p xs" ..
  from bs null_iff [OF xs] have "\<forall>b\<in>set bs. real_block p b \<and>
      (\<not> is_null (blk p b) \<longrightarrow> int (count_list bs b) \<le> ref_cnt (blk p b))" by simp
  from free_blocks_inv [OF xs this] obtain p' ys where
    F: "free_blocks bs p = Inr p'" "pool_inv p' ys" "same_config p p'"
      "\<And>c. ref_cnt (blk p' c) =
          ref_cnt (blk p c) - int (count_list (filter (\<lambda>b. \<not> is_null (blk p b)) bs) c)" by blast
  have "count_list (filter (\<lambda>b. \<not> is_null (blk p b)) bs) c =
      (if null_block p = Some c then 0 else count_list bs c)" for c
    using bs null_iff [OF xs, of c] by (auto simp: count_list_filter count_list_0_iff)
  with F same_config_real [OF F(3)]
  show "\<exists>p'. free_blocks bs p = Inr p' \<and> (\<exists>xs. pool_inv p' xs) \<and> real_block p' = real_block p \<and>
        (\<lambda>b. null_block p' = Some b) = (\<lambda>b. null_block p = Some b) \<and>
        (\<forall>b. ref_cnt (blk p' b) = ref_cnt (blk p b) -
           (if null_block p = Some b then 0 else int (count_list bs b)))"
    by (intro exI [of _ p']) (auto simp: same_config_def fun_eq_iff)
qed

section \<open>Cache keys are injective\<close>

lemma to_bytes4_length: "to_bytes4 g = Inr bs \<Longrightarrow> length bs = 4"
  by (auto simp: to_bytes4_def split: if_splits)

lemma char_of_nat_eq: "char_of m = (char_of n :: char) \<longleftrightarrow> m mod 256 = (n mod 256 :: nat)"
  by (metis of_char_of char_of_mod_256)

lemma byte_split: "x = y \<longleftrightarrow> x div 256 = y div 256 \<and> x mod 256 = (y mod 256 :: nat)"
  by (metis mult_div_mod_eq)

lemma bytes4_unique:
  fixes m n :: nat
  assumes "m < 2 ^ 32" "n < 2 ^ 32"
    and "m div 2 ^ 24 mod 256 = n div 2 ^ 24 mod 256" "m div 2 ^ 16 mod 256 = n div 2 ^ 16 mod 256"
      "m div 2 ^ 8 mod 256 = n div 2 ^ 8 mod 256" "m mod 256 = n mod 256"
  shows "m = n"
proof -
  have step: "x div 2 ^ 8 = x div 256" "x div 2 ^ 16 = x div 256 div 256" "x div 2 ^ 24 = x div 256 div 256 div 256"
    for x :: nat by (simp_all add: div_mult2_eq [symmetric])
  have top: "x div 256 div 256 div 256 < 256" if "x < 2 ^ 32" for x :: nat
    using that by (simp add: div_mult2_eq [symmetric] less_mult_imp_div_less)
  have "m div 256 div 256 div 256 = n div 256 div 256 div 256"
    using assms(3) mod_less [OF top [OF assms(1)]] mod_less [OF top [OF assms(2)]] unfolding step by metis
  then have "m div 256 div 256 = n div 256 div 256"
    using assms(4) byte_split [of "m div 256 div 256" "n div 256 div 256"] unfolding step by blast
  then have "m div 256 = n div 256"
    using assms(5) byte_split [of "m div 256" "n div 256"] unfolding step by blast
  then show ?thesis using assms(6) byte_split [of m n] by simp
qed

lemma to_bytes4_injective:
  assumes "to_bytes4 g = Inr bs" "to_bytes4 g' = Inr bs"
  shows "g = g'"
proof -
  have range: "0 \<le> g" "g < 2 ^ 32" "0 \<le> g'" "g' < 2 ^ 32"
    using assms by (auto simp: to_bytes4_def split: if_splits)
  define m n where "m = nat g" and "n = nat g'"
  then have mn: "g = int m" "g' = int n" "m < 2 ^ 32" "n < 2 ^ 32"
    using range by (simp_all add: nat_less_iff)
  have bs: "[char_of (nat (x div 2 ^ 24)), char_of (nat (x div 2 ^ 16)), char_of (nat (x div 2 ^ 8)), char_of (nat x)] = bs"
    if "to_bytes4 x = Inr bs" for x
    using that unfolding to_bytes4_def
    by (cases "x < 0 \<or> 2 ^ 32 \<le> x") (simp_all only: if_True if_False sum.inject sum.distinct)
  from trans [OF bs [OF assms(1)] bs [OF assms(2), symmetric]]
  have eq: "char_of (nat (g div 2 ^ 24)) = (char_of (nat (g' div 2 ^ 24)) :: char)"
    "char_of (nat (g div 2 ^ 16)) = (char_of (nat (g' div 2 ^ 16)) :: char)"
    "char_of (nat (g div 2 ^ 8)) = (char_of (nat (g' div 2 ^ 8)) :: char)"
    "char_of (nat g) = (char_of (nat g') :: char)"
    unfolding list.inject by blast+
  have n1: "nat (int x div 2 ^ k) = x div 2 ^ k" for x k :: nat
    by (simp add: nat_div_distrib nat_power_eq)
  from eq have "m div 2 ^ 24 mod 256 = n div 2 ^ 24 mod 256" "m div 2 ^ 16 mod 256 = n div 2 ^ 16 mod 256"
    "m div 2 ^ 8 mod 256 = n div 2 ^ 8 mod 256" "m mod 256 = n mod 256"
    unfolding mn(1,2) n1 char_of_nat_eq by simp_all
  then have "m = n" by (rule bytes4_unique [OF mn(3,4)])
  then show ?thesis by (simp add: mn)
qed

lemma key_injective:
  assumes "make_block_hash_with_group_id h g = Inr key" "make_block_hash_with_group_id h' g' = Inr key"
  shows "h = h' \<and> g = g'"
proof -
  from assms obtain bs bs' where B: "to_bytes4 g = Inr bs" "to_bytes4 g' = Inr bs'" "key = h @ bs" "key = h' @ bs'"
    by (auto simp: make_block_hash_with_group_id_def rbind_eq_Inr_iff)
  then have "h = h' \<and> bs = bs'" using to_bytes4_length by (metis append_eq_append_conv)
  with B to_bytes4_injective show ?thesis by blast
qed

end
