(* ===== verification/KVSpec.thy ===== *)
theory KVSpec
  imports BlockPool
begin

text \<open>
  \<open>pvllm/v1/kv_cache_interface.py\<close>, and the grouping of layers in
  \<open>pvllm/v1/core/kv_cache_utils.py\<close> (\<open>unify_page_sizes\<close>, \<open>get_kv_cache_groups\<close>).

  The class hierarchy of specs is a datatype with one constructor per concrete class; the
  fields an attention layer has in every class are the record \<open>attention_spec\<close>. The
  dictionary from layer names to specs is an association list in insertion order.
\<close>

section \<open>Specs\<close>

record attention_spec =
  at_block_size :: int
  num_kv_heads :: int
  head_size :: int
  dtype :: string
  dtype_bytes :: int

datatype kv_spec =
    FullAttentionSpec attention_spec
  | MLAAttentionSpec attention_spec
  | SlidingWindowSpec attention_spec int
  | SlidingWindowMLASpec attention_spec int
  | MambaSpec int int "int option" \<comment> \<open>\<open>block_size\<close>, \<open>state_bytes\<close>, \<open>page_size_padded\<close>\<close>

fun block_size :: "kv_spec \<Rightarrow> int" where
  "block_size (FullAttentionSpec a) = at_block_size a"
| "block_size (MLAAttentionSpec a) = at_block_size a"
| "block_size (SlidingWindowSpec a w) = at_block_size a"
| "block_size (SlidingWindowMLASpec a w) = at_block_size a"
| "block_size (MambaSpec bs st pad) = bs"

definition attention_page :: "attention_spec \<Rightarrow> int" where
  "attention_page a = 2 * at_block_size a * num_kv_heads a * head_size a * dtype_bytes a"

definition mla_page :: "attention_spec \<Rightarrow> int" where
  "mla_page a = at_block_size a * num_kv_heads a * head_size a * dtype_bytes a"

fun page_size_bytes :: "kv_spec \<Rightarrow> int result" where
  "page_size_bytes (FullAttentionSpec a) = Inr (attention_page a)"
| "page_size_bytes (MLAAttentionSpec a) = Inr (mla_page a)"
| "page_size_bytes (SlidingWindowSpec a w) = Inr (attention_page a)"
| "page_size_bytes (SlidingWindowMLASpec a w) = Inr (mla_page a)"
| "page_size_bytes (MambaSpec bs st None) = Inr st"
| "page_size_bytes (MambaSpec bs st (Some pad)) = (if st \<le> pad then Inr pad else Inl AssertionError)"

text \<open>\<open>SlidingWindowSpec.__post_init__\<close>.\<close>

definition sliding_window_init :: "attention_spec \<Rightarrow> int \<Rightarrow> kv_spec result" where
  "sliding_window_init a w = (if w < 1 then Inl ValueError else Inr (SlidingWindowSpec a w))"

fun is_full_attention :: "kv_spec \<Rightarrow> bool" where
  "is_full_attention (FullAttentionSpec a) = True"
| "is_full_attention (MLAAttentionSpec a) = True"
| "is_full_attention _ = False"

fun is_sliding_window :: "kv_spec \<Rightarrow> bool" where
  "is_sliding_window (SlidingWindowSpec a w) = True"
| "is_sliding_window (SlidingWindowMLASpec a w) = True"
| "is_sliding_window _ = False"

fun is_mamba :: "kv_spec \<Rightarrow> bool" where
  "is_mamba (MambaSpec bs st pad) = True"
| "is_mamba _ = False"

text \<open>
  \<open>type_id\<close> formats the class name, the block size, the page size and, for a windowed layer,
  the window into one string; the tuple carries the same identity.
\<close>

fun class_name :: "kv_spec \<Rightarrow> string" where
  "class_name (FullAttentionSpec a) = ''FullAttentionSpec''"
| "class_name (MLAAttentionSpec a) = ''MLAAttentionSpec''"
| "class_name (SlidingWindowSpec a w) = ''SlidingWindowSpec''"
| "class_name (SlidingWindowMLASpec a w) = ''SlidingWindowMLASpec''"
| "class_name (MambaSpec bs st pad) = ''MambaSpec''"

fun spec_window :: "kv_spec \<Rightarrow> int option" where
  "spec_window (SlidingWindowSpec a w) = Some w"
| "spec_window (SlidingWindowMLASpec a w) = Some w"
| "spec_window _ = None"

type_synonym type_id_t = "string \<times> int \<times> int \<times> int option"

definition type_id :: "kv_spec \<Rightarrow> type_id_t result" where
  "type_id s = rbind (page_size_bytes s) (\<lambda>page. Inr (class_name s, block_size s, page, spec_window s))"

record kv_group =
  layer_names :: "string list"
  group_spec :: kv_spec

record kv_cache_config =
  num_blocks :: int
  kv_cache_groups :: "kv_group list"

definition config_block_size :: "kv_cache_config \<Rightarrow> int result" where
  "config_block_size c =
     (case kv_cache_groups c of [] \<Rightarrow> Inl ValueError | g # _ \<Rightarrow> Inr (block_size (group_spec g)))"

section \<open>Grouping the layers\<close>

text \<open>\<open>{k: f(v) for k, v in ...}\<close> where \<open>f\<close> may raise.\<close>

fun mapE :: "('a \<Rightarrow> 'b result) \<Rightarrow> 'a list \<Rightarrow> 'b list result" where
  "mapE f [] = Inr []"
| "mapE f (x # xs) = rbind (f x) (\<lambda>y. rbind (mapE f xs) (\<lambda>ys. Inr (y # ys)))"

definition unify_spec :: "int \<Rightarrow> kv_spec \<Rightarrow> kv_spec result" where
  "unify_spec max_page s =
     rbind (page_size_bytes s) (\<lambda>page.
       if page = max_page then Inr s
       else case s of MambaSpec bs st pad \<Rightarrow> Inr (MambaSpec bs st (Some max_page))
            | _ \<Rightarrow> Inl NotImplementedError)"

definition unify_page_sizes :: "(string \<times> kv_spec) list \<Rightarrow> (string \<times> kv_spec) list result" where
  "unify_page_sizes specs =
     (if specs = [] then Inr specs
      else rbind (mapE (\<lambda>(n, s). page_size_bytes s) specs) (\<lambda>pages.
        if length (remdups pages) = 1 then Inr specs
        else mapE (\<lambda>(n, s). rbind (unify_spec (Max (set pages)) s) (\<lambda>s'. Inr (n, s'))) specs))"

text \<open>\<open>buckets.setdefault(spec.type_id, []).append(layer_name)\<close> over the layers.\<close>

fun fill_buckets ::
  "(string \<times> kv_spec) list \<Rightarrow> (type_id_t \<times> string list) list \<Rightarrow> (type_id_t \<times> string list) list result" where
  "fill_buckets [] buckets = Inr buckets"
| "fill_buckets ((n, s) # specs) buckets =
     rbind (type_id s) (\<lambda>t.
       let old = (case map_of buckets t of None \<Rightarrow> [] | Some ns \<Rightarrow> ns)
       in fill_buckets specs (AList.update t (old @ [n]) buckets))"

text \<open>\<open>layers[index::num_groups]\<close>.\<close>

definition stride :: "'a list \<Rightarrow> nat \<Rightarrow> nat \<Rightarrow> 'a list" where
  "stride xs i k = map ((!) xs) (filter (\<lambda>j. i \<le> j \<and> (j - i) mod k = 0) [0..<length xs])"

definition stripe_bucket :: "int \<Rightarrow> string list \<Rightarrow> string list list" where
  "stripe_bucket group_size layers =
     (let num_groups = nat (ceil_div (int (length layers)) group_size)
      in map (\<lambda>i. stride layers i num_groups) [0..<num_groups])"

definition choose_group_size :: "int list \<Rightarrow> int" where
  "choose_group_size sizes =
     (if rat_of_int (Max (set sizes)) < rat_of_int (Min (set sizes)) * (3 / 2)
      then Max (set sizes) else Min (set sizes))"

definition make_group :: "(string \<times> kv_spec) list \<Rightarrow> string list \<Rightarrow> kv_group result" where
  "make_group specs names =
     (case names of
        [] \<Rightarrow> Inl IndexError
      | n # _ \<Rightarrow> (case map_of specs n of
                    None \<Rightarrow> Inl KeyError
                  | Some s \<Rightarrow> Inr \<lparr>layer_names = names, group_spec = s\<rparr>))"

definition get_kv_cache_groups :: "(string \<times> kv_spec) list \<Rightarrow> kv_group list result" where
  "get_kv_cache_groups specs0 =
     (if specs0 = [] then Inl ValueError
      else
        rbind (unify_page_sizes specs0) (\<lambda>specs.
        rbind (fill_buckets specs []) (\<lambda>buckets.
        if length buckets = 1 then
          rbind (make_group specs (snd (hd buckets))) (\<lambda>g. Inr [g])
        else
          let sizes = map (\<lambda>(t, ns). int (length ns)) buckets;
              group_size = choose_group_size sizes;
              grouped = concat (map (\<lambda>(t, ns). stripe_bucket group_size ns) buckets)
          in rbind (mapE (make_group specs) grouped) (\<lambda>groups.
             rbind (mapE (\<lambda>g. page_size_bytes (group_spec g)) groups) (\<lambda>pages.
               if length (remdups pages) \<noteq> 1 then Inl NotImplementedError else Inr groups)))))"

section \<open>The groups partition the layers\<close>

lemma mapE_Inr_iff: "mapE f xs = Inr ys \<longleftrightarrow> list_all2 (\<lambda>x y. f x = Inr y) xs ys"
  by (induction xs arbitrary: ys) (auto simp: rbind_eq_Inr_iff list_all2_Cons1)

lemma type_id_Inr:
  "type_id s = Inr t \<longleftrightarrow> (\<exists>page. page_size_bytes s = Inr page \<and> t = (class_name s, block_size s, page, spec_window s))"
  by (auto simp: type_id_def rbind_eq_Inr_iff)

text \<open>Unification keeps the layers and gives them one page size.\<close>

lemma unify_spec_page: "unify_spec m s = Inr s' \<Longrightarrow> page_size_bytes s \<noteq> Inr m \<Longrightarrow> page_size_bytes s' \<in> {Inr m, Inl AssertionError}"
  by (cases s) (auto simp: unify_spec_def rbind_eq_Inr_iff split: if_splits)

lemma unify_page_sizes_names: "unify_page_sizes specs = Inr specs' \<Longrightarrow> map fst specs' = map fst specs"
proof -
  assume u: "unify_page_sizes specs = Inr specs'"
  show ?thesis
  proof (cases "specs = specs'")
    case False
    with u obtain m where "list_all2 (\<lambda>x y. \<exists>s'. unify_spec m (snd x) = Inr s' \<and> (fst x, s') = y) specs specs'"
      by (auto simp: unify_page_sizes_def rbind_eq_Inr_iff mapE_Inr_iff case_prod_beta split: if_splits)
    then show ?thesis by (induction rule: list_all2_induct) auto
  qed simp
qed

text \<open>\<open>setdefault\<close> and append, over all layers.\<close>

lemma update_append_mset:
  assumes "distinct (map fst b)"
  shows "mset (concat (map snd (AList.update t ((case map_of b t of None \<Rightarrow> [] | Some ns \<Rightarrow> ns) @ [n]) b)))
       = add_mset n (mset (concat (map snd b)))"
  using assms by (induction b) (auto split: option.splits)

definition buckets_ok :: "(string \<times> kv_spec) set \<Rightarrow> (type_id_t \<times> string list) list \<Rightarrow> bool" where
  "buckets_ok S b \<longleftrightarrow> distinct (map fst b) \<and>
     (\<forall>(t, ns)\<in>set b. ns \<noteq> [] \<and> (\<forall>n\<in>set ns. \<exists>s. (n, s) \<in> S \<and> type_id s = Inr t))"

lemma buckets_ok_update:
  assumes ok: "buckets_ok S b" and n: "(n, s) \<in> S" "type_id s = Inr t"
  shows "buckets_ok S (AList.update t ((case map_of b t of None \<Rightarrow> [] | Some ns \<Rightarrow> ns) @ [n]) b)"
proof -
  let ?b = "AList.update t ((case map_of b t of None \<Rightarrow> [] | Some ns \<Rightarrow> ns) @ [n]) b"
  have d: "distinct (map fst ?b)" using ok by (simp add: buckets_ok_def distinct_update)
  have "ns \<noteq> [] \<and> (\<forall>n\<in>set ns. \<exists>s. (n, s) \<in> S \<and> type_id s = Inr u)" if "(u, ns) \<in> set ?b" for u ns
  proof -
    have "map_of ?b u = Some ns" using that d by simp
    then have "if u = t then ns = (case map_of b t of None \<Rightarrow> [] | Some ns \<Rightarrow> ns) @ [n] else map_of b u = Some ns"
      by (simp add: update_conv' split: if_splits)
    then show ?thesis using ok n by (auto simp: buckets_ok_def dest!: map_of_SomeD split: if_splits option.splits)
  qed
  then have "\<forall>(u, ns)\<in>set ?b. ns \<noteq> [] \<and> (\<forall>n\<in>set ns. \<exists>s. (n, s) \<in> S \<and> type_id s = Inr u)"
    by (intro ballI case_prodI2) simp
  then show ?thesis using d by (simp only: buckets_ok_def)
qed

lemma fill_buckets_ok:
  "fill_buckets specs b = Inr b' \<Longrightarrow> set specs \<subseteq> S \<Longrightarrow> buckets_ok S b \<Longrightarrow>
   buckets_ok S b' \<and> mset (concat (map snd b')) = mset (concat (map snd b)) + mset (map fst specs)"
proof (induction specs arbitrary: b)
  case (Cons x specs)
  obtain n s where x: "x = (n, s)" by force
  with Cons.prems(1) obtain t where t: "type_id s = Inr t"
    "fill_buckets specs (AList.update t ((case map_of b t of None \<Rightarrow> [] | Some ns \<Rightarrow> ns) @ [n]) b) = Inr b'"
    by (auto simp: rbind_eq_Inr_iff Let_def)
  have "(n, s) \<in> S" using Cons.prems(2) x by simp
  then have "buckets_ok S (AList.update t ((case map_of b t of None \<Rightarrow> [] | Some ns \<Rightarrow> ns) @ [n]) b)"
    using buckets_ok_update Cons.prems(3) t(1) by blast
  from Cons.IH [OF t(2) _ this] Cons.prems(2,3) show ?case
    by (simp add: x update_append_mset buckets_ok_def del: concat_map_singleton)
qed simp

text \<open>Striping a bucket loses and duplicates nothing, and no stripe is empty.\<close>

lemma mset_residues:
  "mset (concat (map (\<lambda>i. filter (\<lambda>j. g j = i) xs) [0..<k])) = mset (filter (\<lambda>j. g j < k) xs)" for g :: "nat \<Rightarrow> nat"
proof (induction k)
  case (Suc k)
  have "mset (filter (\<lambda>j. g j < k) xs) + mset (filter (\<lambda>j. g j = k) xs) = mset (filter (\<lambda>j. g j < Suc k) xs)"
    by (induction xs) (auto simp: less_Suc_eq)
  then show ?case using Suc by simp
qed simp

lemma stride_residue: "i < k \<Longrightarrow> stride xs i k = map ((!) xs) (filter (\<lambda>j. j mod k = i) [0..<length xs])"
proof -
  assume i: "i < k"
  have "(i \<le> j \<and> (j - i) mod k = 0) \<longleftrightarrow> j mod k = i" for j
    using i by (metis le_add_diff_inverse mod_add_self2 mod_eq_dvd_iff_nat mod_eq_nat2E mod_if
        mod_less mod_less_eq_dividend dvd_eq_mod_eq_0)
  then show ?thesis by (simp add: stride_def)
qed

lemma mset_stripes:
  assumes "0 < k"
  shows "mset (concat (map (\<lambda>i. stride xs i k) [0..<k])) = mset xs"
proof -
  have "map (\<lambda>i. stride xs i k) [0..<k] = map (map ((!) xs)) (map (\<lambda>i. filter (\<lambda>j. j mod k = i) [0..<length xs]) [0..<k])"
    by (simp add: stride_residue)
  then have "mset (concat (map (\<lambda>i. stride xs i k) [0..<k])) =
      image_mset ((!) xs) (mset (concat (map (\<lambda>i. filter (\<lambda>j. j mod k = i) [0..<length xs]) [0..<k])))"
    by (simp only: map_concat [symmetric] mset_map)
  also have "\<dots> = image_mset ((!) xs) (mset [0..<length xs])"
    using assms by (simp add: mset_residues)
  also have "\<dots> = mset xs" by (metis map_nth mset_map)
  finally show ?thesis .
qed

lemma stride_nonempty: "i < k \<Longrightarrow> k \<le> length xs \<Longrightarrow> stride xs i k \<noteq> []"
  by (auto simp: stride_residue filter_empty_conv intro!: bexI [of _ i])

lemma stripe_bucket_parts:
  assumes "0 < g" and "ns \<noteq> []"
  shows "mset (concat (stripe_bucket g ns)) = mset ns" and "\<forall>x\<in>set (stripe_bucket g ns). x \<noteq> []"
    and "stripe_bucket g ns \<noteq> []"
proof -
  let ?k = "nat (ceil_div (int (length ns)) g)"
  have pos: "0 < ?k" using ceil_div_le_iff [OF assms(1), of "int (length ns)" 0] assms(2) by auto
  have "int (length ns) \<le> int (length ns) * g" using assms by simp
  then have "ceil_div (int (length ns)) g \<le> int (length ns)" using ceil_div_le_iff [OF assms(1)] by simp
  then have le: "?k \<le> length ns" by simp
  show "mset (concat (stripe_bucket g ns)) = mset ns"
    using mset_stripes [OF pos, of ns] by (simp add: stripe_bucket_def Let_def)
  show "\<forall>x\<in>set (stripe_bucket g ns). x \<noteq> []"
    unfolding stripe_bucket_def Let_def using stride_nonempty [OF _ le] by (simp only: set_map set_upt) fastforce
  show "stripe_bucket g ns \<noteq> []" unfolding stripe_bucket_def Let_def using pos by simp
qed

lemma stripe_bucket_subset: "x \<in> set (stripe_bucket g ns) \<Longrightarrow> set x \<subseteq> set ns"
  by (auto simp: stripe_bucket_def Let_def stride_def)

lemma choose_group_size_pos: "sizes \<noteq> [] \<Longrightarrow> \<forall>n\<in>set sizes. 0 < n \<Longrightarrow> 0 < choose_group_size sizes"
  by (simp add: choose_group_size_def)

text \<open>The whole: a partition of the layers into groups of one type and one page size.\<close>

definition is_layer_group :: "(string \<times> kv_spec) list \<Rightarrow> kv_group \<Rightarrow> bool" where
  "is_layer_group specs g \<longleftrightarrow> layer_names g \<noteq> [] \<and> map_of specs (hd (layer_names g)) = Some (group_spec g) \<and>
     (\<forall>n\<in>set (layer_names g). \<exists>s t. map_of specs n = Some s \<and> type_id s = Inr t \<and> type_id (group_spec g) = Inr t)"

lemma make_group_is_group:
  assumes "distinct (map fst specs)" and "names \<noteq> []"
    and "\<forall>n\<in>set names. \<exists>s. (n, s) \<in> set specs \<and> type_id s = Inr t"
  shows "\<exists>g. make_group specs names = Inr g \<and> layer_names g = names \<and> is_layer_group specs g"
proof -
  have all: "\<forall>n\<in>set names. \<exists>s. map_of specs n = Some s \<and> type_id s = Inr t"
    using assms(1,3) by (metis map_of_eq_Some_iff)
  obtain n ns where names: "names = n # ns" using assms(2) by (cases names) auto
  with all obtain s where "map_of specs n = Some s" "type_id s = Inr t" by auto
  then show ?thesis using all names
    by (intro exI [of _ "\<lparr>layer_names = names, group_spec = s\<rparr>"])
      (auto simp: make_group_def is_layer_group_def simp del: split_paired_Ex)
qed

lemma make_groups_all:
  assumes "\<forall>names\<in>set nss. \<exists>g. make_group specs names = Inr g \<and> layer_names g = names \<and> is_layer_group specs g"
  shows "\<exists>gs. mapE (make_group specs) nss = Inr gs \<and> map layer_names gs = nss \<and> (\<forall>g\<in>set gs. is_layer_group specs g)"
  using assms by (induction nss) auto

lemma grouped_names:
  assumes d: "distinct (map fst specs)" and ok: "buckets_ok (set specs) b" and g: "0 < g"
  defines "nss \<equiv> concat (map (\<lambda>(t, ns). stripe_bucket g ns) b)"
  shows "mset (concat nss) = mset (concat (map snd b))"
    and "\<exists>gs. mapE (make_group specs) nss = Inr gs \<and> map layer_names gs = nss \<and> (\<forall>g\<in>set gs. is_layer_group specs g)"
proof -
  have "\<forall>(t, ns)\<in>set b. ns \<noteq> []" using ok by (auto simp: buckets_ok_def)
  then show "mset (concat nss) = mset (concat (map snd b))"
    unfolding nss_def using stripe_bucket_parts(1) [OF g] by (induction b) auto
  show "\<exists>gs. mapE (make_group specs) nss = Inr gs \<and> map layer_names gs = nss \<and> (\<forall>g\<in>set gs. is_layer_group specs g)"
  proof (rule make_groups_all, rule ballI)
    fix names assume "names \<in> set nss"
    then obtain t ns where b: "(t, ns) \<in> set b" "names \<in> set (stripe_bucket g ns)" by (auto simp: nss_def)
    then have "ns \<noteq> []" "\<forall>n\<in>set ns. \<exists>s. (n, s) \<in> set specs \<and> type_id s = Inr t"
      using ok by (auto simp: buckets_ok_def)
    then show "\<exists>g. make_group specs names = Inr g \<and> layer_names g = names \<and> is_layer_group specs g"
      using stripe_bucket_parts(2) [OF g, of ns] stripe_bucket_subset [OF b(2)] b(2)
      by (intro make_group_is_group [OF d]) auto
  qed
qed

theorem kv_cache_groups_partition:
  assumes u: "unify_page_sizes specs0 = Inr specs" and d: "distinct (map fst specs0)"
    and groups: "get_kv_cache_groups specs0 = Inr groups"
  shows "mset (concat (map layer_names groups)) = mset (map fst specs0)"
    and "\<forall>g\<in>set groups. is_layer_group specs g"
    and "\<exists>page. \<forall>g\<in>set groups. page_size_bytes (group_spec g) = Inr page"
proof -
  note names = unify_page_sizes_names [OF u]
  have ds: "distinct (map fst specs)" using names d by simp
  from groups u obtain b where b: "fill_buckets specs [] = Inr b" by (auto simp: get_kv_cache_groups_def rbind_eq_Inr_iff split: if_splits)
  have ok: "buckets_ok (set specs) b" and m: "mset (concat (map snd b)) = mset (map fst specs0)"
    using fill_buckets_ok [OF b order_refl] names by (simp_all add: buckets_ok_def)
  have all: "mset (concat (map layer_names groups)) = mset (map fst specs0) \<and> (\<forall>g\<in>set groups. is_layer_group specs g) \<and>
      (\<exists>page. \<forall>g\<in>set groups. page_size_bytes (group_spec g) = Inr page)"
  proof (cases "length b = 1")
    case True
    then obtain t ns where tn: "b = [(t, ns)]" by (auto simp: length_Suc_conv)
    then have ns: "ns \<noteq> []" "\<forall>n\<in>set ns. \<exists>s. (n, s) \<in> set specs \<and> type_id s = Inr t"
      using ok by (auto simp: buckets_ok_def)
    from make_group_is_group [OF ds ns] obtain g where
      g: "make_group specs ns = Inr g" "layer_names g = ns" "is_layer_group specs g" by blast
    have "groups = [g]" using groups u b True tn g by (simp add: get_kv_cache_groups_def split: if_splits)
    moreover obtain page where "page_size_bytes (group_spec g) = Inr page"
      using g(3) hd_in_set unfolding is_layer_group_def type_id_Inr by blast
    ultimately show ?thesis using g m tn by auto
  next
    case False
    let ?sizes = "map (\<lambda>(t, ns). int (length ns)) b"
    let ?gs = "choose_group_size ?sizes"
    have "specs0 \<noteq> []" using groups by (auto simp: get_kv_cache_groups_def)
    then have "b \<noteq> []" using m by auto
    moreover have "\<forall>n\<in>set ?sizes. 0 < n" using ok by (auto simp: buckets_ok_def)
    ultimately have pos: "0 < ?gs" by (intro choose_group_size_pos) auto
    from grouped_names(2) [OF ds ok pos] obtain gs where gs:
      "mapE (make_group specs) (concat (map (\<lambda>(t, ns). stripe_bucket ?gs ns) b)) = Inr gs"
      "map layer_names gs = concat (map (\<lambda>(t, ns). stripe_bucket ?gs ns) b)"
      "\<forall>g\<in>set gs. is_layer_group specs g" by blast
    from groups u b False gs(1) obtain pages where pages: "groups = gs"
      "mapE (\<lambda>g. page_size_bytes (group_spec g)) gs = Inr pages" "length (remdups pages) = 1"
      by (auto simp: get_kv_cache_groups_def Let_def rbind_eq_Inr_iff split: if_splits)
    from pages(3) obtain page where "set pages = {page}"
      by (metis One_nat_def length_0_conv length_Suc_conv list.set(1) list.set(2) set_remdups)
    then have "\<forall>g\<in>set gs. page_size_bytes (group_spec g) = Inr page"
      using pages(2) unfolding mapE_Inr_iff list_all2_conv_all_nth
      by (auto simp: in_set_conv_nth) (metis nth_mem singletonD)
    then show ?thesis using gs(2,3) pages(1) m grouped_names(1) [OF ds ok pos] by simp
  qed
  then show "mset (concat (map layer_names groups)) = mset (map fst specs0)" "\<forall>g\<in>set groups. is_layer_group specs g"
    "\<exists>page. \<forall>g\<in>set groups. page_size_bytes (group_spec g) = Inr page" by blast+
qed

end
