(* ===== verification/RequestState.thy ===== *)
theory RequestState
  imports BlockPool "HOL-Library.Product_Lexorder" "HOL-Library.List_Lexorder" "HOL-Library.Char_ord"
begin

text \<open>
  \<open>pvllm/v1/request.py\<close>, the hashing half of \<open>pvllm/v1/core/kv_cache_utils.py\<close>, and the
  stop check of \<open>pvllm/v1/core/sched/utils.py\<close>.

  The digest (\<open>sha256\<close> of a pickled tuple, or Python's \<open>hash\<close>) is the parameter \<open>H\<close> of the
  hashing functions. Times are rationals: they are only compared and copied. A request's
  grammar is one of three observations of its future: not ready, failed, compiled.
\<close>

section \<open>Status\<close>

datatype request_status =
    WAITING
  | WAITING_FOR_STRUCTURED_OUTPUT_GRAMMAR
  | WAITING_FOR_REMOTE_KVS
  | WAITING_FOR_STREAMING_REQ
  | RUNNING
  | PREEMPTED
  | FINISHED_STOPPED
  | FINISHED_LENGTH_CAPPED
  | FINISHED_ABORTED
  | FINISHED_IGNORED
  | FINISHED_ERROR
  | FINISHED_REPETITION

text \<open>\<open>enum.auto()\<close> numbers the members of the \<open>IntEnum\<close> from 1; comparison is by value.\<close>

fun status_value :: "request_status \<Rightarrow> int" where
  "status_value WAITING = 1"
| "status_value WAITING_FOR_STRUCTURED_OUTPUT_GRAMMAR = 2"
| "status_value WAITING_FOR_REMOTE_KVS = 3"
| "status_value WAITING_FOR_STREAMING_REQ = 4"
| "status_value RUNNING = 5"
| "status_value PREEMPTED = 6"
| "status_value FINISHED_STOPPED = 7"
| "status_value FINISHED_LENGTH_CAPPED = 8"
| "status_value FINISHED_ABORTED = 9"
| "status_value FINISHED_IGNORED = 10"
| "status_value FINISHED_ERROR = 11"
| "status_value FINISHED_REPETITION = 12"

lemma status_value_inject: "status_value s = status_value t \<longleftrightarrow> s = t"
  by (cases s; cases t) simp_all

instantiation request_status :: linorder
begin

definition less_eq_request_status :: "request_status \<Rightarrow> request_status \<Rightarrow> bool" where
  "less_eq_request_status s t \<longleftrightarrow> status_value s \<le> status_value t"

definition less_request_status :: "request_status \<Rightarrow> request_status \<Rightarrow> bool" where
  "less_request_status s t \<longleftrightarrow> status_value s < status_value t"

instance
  by standard (auto simp: less_eq_request_status_def less_request_status_def status_value_inject)

end

definition status_is_finished :: "request_status \<Rightarrow> bool" where
  "status_is_finished s \<longleftrightarrow> PREEMPTED < s"

datatype finish_reason = STOP | LENGTH | ABORT | ERROR | REPETITION

fun finished_reason_map :: "request_status \<Rightarrow> finish_reason option" where
  "finished_reason_map FINISHED_STOPPED = Some STOP"
| "finished_reason_map FINISHED_LENGTH_CAPPED = Some LENGTH"
| "finished_reason_map FINISHED_ABORTED = Some ABORT"
| "finished_reason_map FINISHED_IGNORED = Some LENGTH"
| "finished_reason_map FINISHED_ERROR = Some ERROR"
| "finished_reason_map FINISHED_REPETITION = Some REPETITION"
| "finished_reason_map WAITING_FOR_STREAMING_REQ = Some STOP"
| "finished_reason_map _ = None"

section \<open>Requests\<close>

text \<open>The sampling parameters the engine core and the worker read.\<close>

record structured_params =
  so_json :: "json option" \<comment> \<open>a string or an object\<close>
  so_regex :: "string option"
  so_choice :: "string list option"
  so_grammar :: "string option"
  so_json_object :: "bool option"
  so_structural_tag :: "string option"
  so_backend :: "string option" \<comment> \<open>the field \<open>_backend\<close>\<close>

record sampling_params =
  sp_max_tokens :: "int option"
  sp_min_tokens :: int
  sp_eos_token_id :: "int option"
  sp_stop_token_ids :: "int list"
  sp_structured_outputs :: bool \<comment> \<open>a constraint is set\<close>
  sp_constraint :: "structured_params option"
  sp_request_seed :: "int option"

record mm_feature =
  mm_identifier :: string
  modality :: string
  mm_position :: int
  mm_length :: int
  num_embeds :: int

record lora_request =
  lora_name :: string
  lora_int_id :: int

datatype grammar_state = GrammarPending | GrammarFailed | GrammarCompiled

datatype event_type = QUEUED | SCHEDULED | PREEMPTED_EVENT

text \<open>
  The hasher attached to a request is a closure over the block size and the sentinel hash;
  the record keeps these two. \<open>trace_headers\<close> and \<open>kv_transfer_params\<close> are carried by the
  source and read by nothing here.
\<close>

record request =
  request_id :: string
  client_index :: int
  priority :: int
  sampling_params :: "sampling_params option"
  use_pooling :: bool \<comment> \<open>\<open>pooling_params is not None\<close>\<close>
  lora_req :: "lora_request option"
  arrival_time :: rat
  status :: request_status
  events :: "(event_type \<times> rat) list"
  stop_reason :: "int option"
  max_tokens :: int
  prompt_token_ids :: "int list"
  output_token_ids :: "int list"
  all_token_ids :: "int list"
  num_computed_tokens :: int
  spec_token_ids :: "int list"
  cache_salt :: "string option"
  mm_features :: "mm_feature list"
  structured_output :: "grammar_state option"
  is_prefill_chunk :: bool
  num_preemptions :: int
  num_cached_tokens :: int
  block_hashes :: "block_hash_t list"
  block_hasher :: "(int \<times> block_hash_t) option"

definition num_tokens :: "request \<Rightarrow> int" where
  "num_tokens r = int (length (all_token_ids r))"

definition num_tokens_with_spec :: "request \<Rightarrow> int" where
  "num_tokens_with_spec r = int (length (all_token_ids r)) + int (length (spec_token_ids r))"

definition num_output_tokens :: "request \<Rightarrow> int" where
  "num_output_tokens r = int (length (output_token_ids r))"

definition use_structured_output :: "request \<Rightarrow> bool" where
  "use_structured_output r \<longleftrightarrow> structured_output r \<noteq> None"

definition is_finished :: "request \<Rightarrow> bool" where
  "is_finished r \<longleftrightarrow> status_is_finished (status r)"

definition get_finished_reason :: "request \<Rightarrow> finish_reason option" where
  "get_finished_reason r = finished_reason_map (status r)"

section \<open>Block hashing\<close>

text \<open>
  The extra keys are put into one tuple without tags: an adapter name and a salt are both
  plain strings there, a multimodal item is a pair.
\<close>

datatype extra_key = KStr string | KPair string int

datatype hash_input =
    HashBlock block_hash_t "int list" "extra_key list option"
      \<comment> \<open>\<open>(parent_block_hash, tuple(token_ids), extra_keys)\<close>\<close>
  | HashNone string int \<comment> \<open>\<open>("pvllm-none-hash", seed)\<close>\<close>

type_synonym hash_fn = "hash_input \<Rightarrow> block_hash_t"

definition compute_none_hash :: "hash_fn \<Rightarrow> int \<Rightarrow> block_hash_t" where
  "compute_none_hash H seed = H (HashNone ''pvllm-none-hash'' seed)"

definition generate_block_hash_extra_keys ::
  "request \<Rightarrow> int \<Rightarrow> int option \<Rightarrow> extra_key list option" where
  "generate_block_hash_extra_keys r start end_opt =
     (let lora_keys = (case lora_req r of None \<Rightarrow> [] | Some l \<Rightarrow> [KStr (lora_name l)]);
          e = (case end_opt of None \<Rightarrow> num_tokens r | Some e \<Rightarrow> e);
          mm_keys = map (\<lambda>f. KPair (mm_identifier f) (mm_position f - start))
                      (filter (\<lambda>f. mm_position f < e \<and> start < mm_position f + mm_length f) (mm_features r));
          salt_keys = (case cache_salt r of None \<Rightarrow> []
                       | Some salt \<Rightarrow> if start = 0 \<and> salt \<noteq> [] then [KStr salt] else []);
          keys = lora_keys @ mm_keys @ salt_keys
      in if keys = [] then None else Some keys)"

definition hash_block_tokens ::
  "hash_fn \<Rightarrow> block_hash_t option \<Rightarrow> int list \<Rightarrow> block_hash_t \<Rightarrow> extra_key list option \<Rightarrow> block_hash_t" where
  "hash_block_tokens H parent tokens none_hash keys =
     (let par = (case parent of None \<Rightarrow> none_hash | Some p \<Rightarrow> if p = [] then none_hash else p)
      in H (HashBlock par tokens keys))"

text \<open>
  The loop of \<open>request_block_hasher\<close>. The configuration refuses a block size that is not
  positive (the loop would not end); the guard says so.
\<close>

function hash_loop ::
  "hash_fn \<Rightarrow> int \<Rightarrow> block_hash_t \<Rightarrow> request \<Rightarrow> int \<Rightarrow> block_hash_t option \<Rightarrow> block_hash_t list" where
  "hash_loop H bs none_hash r start parent =
     (if 0 < bs \<and> start + bs \<le> num_tokens r then
        let h = hash_block_tokens H parent (slice (all_token_ids r) start (start + bs)) none_hash
                  (generate_block_hash_extra_keys r start (Some (start + bs)))
        in h # hash_loop H bs none_hash r (start + bs) (Some h)
      else [])"
  by pat_completeness auto
termination
  by (relation "measure (\<lambda>(H, bs, none_hash, r, start, parent). nat (num_tokens r - start))") auto

declare hash_loop.simps [simp del]

definition request_block_hasher :: "hash_fn \<Rightarrow> int \<Rightarrow> block_hash_t \<Rightarrow> request \<Rightarrow> block_hash_t list" where
  "request_block_hasher H bs none_hash r =
     hash_loop H bs none_hash r (int (length (block_hashes r)) * bs)
       (if block_hashes r = [] then None else Some (last (block_hashes r)))"

definition update_block_hashes :: "hash_fn \<Rightarrow> request \<Rightarrow> request" where
  "update_block_hashes H r =
     (case block_hasher r of
        None \<Rightarrow> r
      | Some (bs, none_hash) \<Rightarrow>
          r\<lparr>block_hashes := block_hashes r @ request_block_hasher H bs none_hash r\<rparr>)"

definition attach_block_hasher :: "hash_fn \<Rightarrow> int \<times> block_hash_t \<Rightarrow> request \<Rightarrow> request" where
  "attach_block_hasher H hasher r = update_block_hashes H (r\<lparr>block_hasher := Some hasher\<rparr>)"

definition append_output_token_ids :: "hash_fn \<Rightarrow> int list \<Rightarrow> request \<Rightarrow> request" where
  "append_output_token_ids H toks r =
     update_block_hashes H
       (r\<lparr>output_token_ids := output_token_ids r @ toks, all_token_ids := all_token_ids r @ toks\<rparr>)"

text \<open>\<open>Request.__init__\<close>.\<close>

definition request_init ::
  "hash_fn \<Rightarrow> string \<Rightarrow> int list option \<Rightarrow> sampling_params option \<Rightarrow> rat \<Rightarrow> int \<Rightarrow> lora_request option \<Rightarrow>
   string option \<Rightarrow> int \<Rightarrow> (int \<times> block_hash_t) option \<Rightarrow> mm_feature list \<Rightarrow> bool \<Rightarrow> request result" where
  "request_init H rid prompt sp arrival client lora salt prio hasher mm pooling =
     (if (sp = None) = (\<not> pooling) then Inl ValueError
      else if (case sp of None \<Rightarrow> False | Some s \<Rightarrow> sp_max_tokens s = None) then Inl ValueError
      else
        let p = (case prompt of None \<Rightarrow> [] | Some ts \<Rightarrow> ts);
            so = (case sp of None \<Rightarrow> None
                  | Some s \<Rightarrow> if sp_structured_outputs s then Some GrammarPending else None)
        in Inr (update_block_hashes H
             \<lparr>request_id = rid, client_index = client, priority = prio, sampling_params = sp,
              use_pooling = pooling, lora_req = lora, arrival_time = arrival,
              status = (if so = None then WAITING else WAITING_FOR_STRUCTURED_OUTPUT_GRAMMAR),
              events = [], stop_reason = None,
              max_tokens = (case sp of None \<Rightarrow> 0
                            | Some s \<Rightarrow> (case sp_max_tokens s of None \<Rightarrow> 0 | Some m \<Rightarrow> m)),
              prompt_token_ids = p, output_token_ids = [], all_token_ids = p,
              num_computed_tokens = 0, spec_token_ids = [], cache_salt = salt, mm_features = mm,
              structured_output = so, is_prefill_chunk = False, num_preemptions = 0,
              num_cached_tokens = 0, block_hashes = [], block_hasher = hasher\<rparr>))"

definition record_event :: "event_type \<Rightarrow> rat \<Rightarrow> request \<Rightarrow> request" where
  "record_event e t r = r\<lparr>events := events r @ [(e, t)]\<rparr>"

definition take_events :: "request \<Rightarrow> (event_type \<times> rat) list option \<times> request" where
  "take_events r = (if events r = [] then (None, r) else (Some (events r), r\<lparr>events := []\<rparr>))"

text \<open>\<open>Request.__lt__\<close>; \<open>addr\<close> is the identity \<open>id()\<close> the interpreter gives an object.\<close>

definition request_lt :: "(request \<Rightarrow> int) \<Rightarrow> request \<Rightarrow> request \<Rightarrow> bool" where
  "request_lt addr r s =
     (if priority r \<noteq> priority s then priority r < priority s
      else if arrival_time r \<noteq> arrival_time s then arrival_time r < arrival_time s
      else if request_id r \<noteq> request_id s then request_id r < request_id s
      else addr r < addr s)"

section \<open>The stop check\<close>

definition check_stop :: "int \<Rightarrow> request \<Rightarrow> (bool \<times> request) result" where
  "check_stop max_model_len r =
     (case sampling_params r of
        None \<Rightarrow> Inl AssertionError
      | Some sp \<Rightarrow>
          if num_output_tokens r < sp_min_tokens sp then Inr (False, r)
          else if output_token_ids r = [] then Inl IndexError
          else let last_token_id = last (output_token_ids r) in
            if Some last_token_id = sp_eos_token_id sp then
              Inr (True, r\<lparr>status := FINISHED_STOPPED\<rparr>)
            else if last_token_id \<in> set (sp_stop_token_ids sp) then
              Inr (True, r\<lparr>status := FINISHED_STOPPED, stop_reason := Some last_token_id\<rparr>)
            else if max_model_len \<le> num_tokens r \<or> max_tokens r \<le> num_output_tokens r then
              Inr (True, r\<lparr>status := FINISHED_LENGTH_CAPPED\<rparr>)
            else Inr (False, r))"


section \<open>Status facts\<close>

lemma status_is_finished_iff:
  "status_is_finished s \<longleftrightarrow>
     s \<in> {FINISHED_STOPPED, FINISHED_LENGTH_CAPPED, FINISHED_ABORTED, FINISHED_IGNORED,
          FINISHED_ERROR, FINISHED_REPETITION}"
  by (cases s) (simp_all add: status_is_finished_def less_request_status_def)

text \<open>Every finished status has a reason to report.\<close>

lemma finished_has_reason: "status_is_finished s \<Longrightarrow> finished_reason_map s \<noteq> None"
  by (cases s) (simp_all add: status_is_finished_iff)

section \<open>The priority order\<close>

definition sort_key :: "request \<Rightarrow> int \<times> rat \<times> string" where
  "sort_key r = (priority r, arrival_time r, request_id r)"

lemma request_lt_sort_key:
  "request_id r \<noteq> request_id s \<Longrightarrow> request_lt addr r s \<longleftrightarrow> sort_key r < sort_key s"
  by (auto simp: request_lt_def sort_key_def less_prod_def)

section \<open>Hash chains\<close>

text \<open>The hash of block \<open>k\<close> of a request, by recursion on its position.\<close>

abbreviation block_tokens :: "int \<Rightarrow> request \<Rightarrow> nat \<Rightarrow> int list" where
  "block_tokens bs r k \<equiv> slice (all_token_ids r) (int k * bs) (int k * bs + bs)"

abbreviation block_keys :: "int \<Rightarrow> request \<Rightarrow> nat \<Rightarrow> extra_key list option" where
  "block_keys bs r k \<equiv> generate_block_hash_extra_keys r (int k * bs) (Some (int k * bs + bs))"

primrec chain_hash :: "hash_fn \<Rightarrow> int \<Rightarrow> block_hash_t \<Rightarrow> request \<Rightarrow> nat \<Rightarrow> block_hash_t" where
  "chain_hash H bs nh r 0 = hash_block_tokens H None (block_tokens bs r 0) nh (block_keys bs r 0)"
| "chain_hash H bs nh r (Suc k) =
     hash_block_tokens H (Some (chain_hash H bs nh r k)) (block_tokens bs r (Suc k)) nh
       (block_keys bs r (Suc k))"

definition num_full_hashes :: "int \<Rightarrow> request \<Rightarrow> nat" where
  "num_full_hashes bs r = nat (num_tokens r div bs)"

lemma hash_loop_chain:
  assumes bs: "0 < bs"
  shows "hash_loop H bs nh r (int k * bs) (if k = 0 then None else Some (chain_hash H bs nh r (k - 1)))
         = map (chain_hash H bs nh r) [k..<num_full_hashes bs r]"
proof (induction "num_full_hashes bs r - k" arbitrary: k)
  have guard: "int k * bs + bs \<le> num_tokens r \<longleftrightarrow> k < num_full_hashes bs r" for k
  proof -
    have "int k * bs + bs \<le> num_tokens r \<longleftrightarrow> (int k + 1) * bs \<le> num_tokens r"
      by (simp add: algebra_simps)
    also have "\<dots> \<longleftrightarrow> int k + 1 \<le> num_tokens r div bs"
      using le_div_iff_mult_le [OF bs] by simp
    also have "\<dots> \<longleftrightarrow> k < num_full_hashes bs r" by (auto simp: num_full_hashes_def)
    finally show ?thesis .
  qed
  {
    case 0
    then have "\<not> int k * bs + bs \<le> num_tokens r" using guard [of k] by simp
    with 0 show ?case by (subst hash_loop.simps) simp
  next
    case (Suc n)
    then have k: "k < num_full_hashes bs r" by simp
    let ?h = "chain_hash H bs nh r k"
    have h: "hash_block_tokens H (if k = 0 then None else Some (chain_hash H bs nh r (k - 1)))
        (block_tokens bs r k) nh (block_keys bs r k) = ?h"
      by (cases k) simp_all
    have "hash_loop H bs nh r (int k * bs + bs) (Some ?h) =
        map (chain_hash H bs nh r) [Suc k..<num_full_hashes bs r]"
      using Suc.hyps(1) [of "Suc k"] Suc.hyps(2) by (simp add: algebra_simps)
    moreover have "int k * bs + bs \<le> num_tokens r" using guard k by simp
    ultimately show ?case
      using bs k by (subst hash_loop.simps) (simp add: h Let_def upt_conv_Cons)
  }
qed

text \<open>
  The hashes stored in a request are those of its full blocks, for the tokens it has now.
\<close>

definition hashes_current :: "hash_fn \<Rightarrow> request \<Rightarrow> bool" where
  "hashes_current H r \<longleftrightarrow>
     (case block_hasher r of
        None \<Rightarrow> block_hashes r = []
      | Some (bs, nh) \<Rightarrow>
          0 < bs \<and> block_hashes r = map (chain_hash H bs nh r) [0..<num_full_hashes bs r])"

text \<open>Two requests that agree on what identifies a block's content, apart from later tokens.\<close>

definition same_identity :: "request \<Rightarrow> request \<Rightarrow> bool" where
  "same_identity r r' \<longleftrightarrow>
     lora_req r' = lora_req r \<and> cache_salt r' = cache_salt r \<and> mm_features r' = mm_features r"

lemma extra_keys_same_identity:
  "same_identity r r' \<Longrightarrow>
   generate_block_hash_extra_keys r' a (Some b) = generate_block_hash_extra_keys r a (Some b)"
  by (simp add: same_identity_def generate_block_hash_extra_keys_def)

lemma chain_hash_extend:
  assumes "same_identity r r'" "all_token_ids r' = all_token_ids r @ ts" "0 < bs"
    and "k < num_full_hashes bs r"
  shows "chain_hash H bs nh r' k = chain_hash H bs nh r k"
  using assms(4)
proof (induction k)
  have tokens: "block_tokens bs r' k = block_tokens bs r k" if "k < num_full_hashes bs r" for k
  proof -
    have "int k + 1 \<le> num_tokens r div bs" using that by (auto simp: num_full_hashes_def)
    then have "(int k + 1) * bs \<le> num_tokens r" using le_div_iff_mult_le [OF assms(3)] by simp
    then have "nat (int k * bs + bs) \<le> length (all_token_ids r)"
      by (simp add: num_tokens_def algebra_simps)
    then show ?thesis by (simp add: assms(2))
  qed
  note keys = extra_keys_same_identity [OF assms(1)]
  {
    case 0
    with tokens [of 0] show ?case by (simp add: keys)
  next
    case (Suc k)
    with tokens [of "Suc k"] show ?case by (simp add: keys)
  }
qed

lemma num_full_hashes_mono:
  "0 < bs \<Longrightarrow> num_tokens r \<le> num_tokens r' \<Longrightarrow> num_full_hashes bs r \<le> num_full_hashes bs r'"
  by (simp add: num_full_hashes_def nat_mono zdiv_mono1)

lemma chain_hash_irrelevant [simp]:
  "chain_hash H bs nh (r\<lparr>block_hashes := x\<rparr>) k = chain_hash H bs nh r k"
  "chain_hash H bs nh (r\<lparr>block_hasher := y\<rparr>) k = chain_hash H bs nh r k"
  by (induction k) (simp_all add: generate_block_hash_extra_keys_def num_tokens_def)

lemma num_full_hashes_irrelevant [simp]:
  "num_full_hashes bs (r\<lparr>block_hashes := x\<rparr>) = num_full_hashes bs r"
  "num_full_hashes bs (r\<lparr>block_hasher := y\<rparr>) = num_full_hashes bs r"
  by (simp_all add: num_full_hashes_def num_tokens_def)

text \<open>Hashing what is new completes any prefix of the chain.\<close>

lemma update_block_hashes_prefix:
  assumes "block_hasher r = Some (bs, nh)" "0 < bs" "m \<le> num_full_hashes bs r"
    and "block_hashes r = map (chain_hash H bs nh r) [0..<m]"
  shows "block_hashes (update_block_hashes H r) = map (chain_hash H bs nh r) [0..<num_full_hashes bs r]"
proof -
  have "(if block_hashes r = [] then None else Some (last (block_hashes r))) =
      (if m = 0 then None else Some (chain_hash H bs nh r (m - 1)))"
    using assms(4) by (cases m) auto
  then have "request_block_hasher H bs nh r = map (chain_hash H bs nh r) [m..<num_full_hashes bs r]"
    using hash_loop_chain [OF assms(2), of H nh r m] assms(4)
    by (simp add: request_block_hasher_def)
  moreover have "[0..<num_full_hashes bs r] = [0..<m] @ [m..<num_full_hashes bs r]"
    using assms(3) by (metis upt_add_eq_append le_add_diff_inverse zero_le)
  ultimately show ?thesis
    using assms(1,4) by (simp add: update_block_hashes_def)
qed

lemma update_block_hashes_fields [simp]:
  "all_token_ids (update_block_hashes H r) = all_token_ids r"
  "block_hasher (update_block_hashes H r) = block_hasher r"
  "same_identity (update_block_hashes H r) r' = same_identity r r'"
  "same_identity r' (update_block_hashes H r) = same_identity r' r"
  by (auto simp: update_block_hashes_def same_identity_def split: option.splits prod.splits)

lemma num_full_hashes_update [simp]:
  "num_full_hashes bs (update_block_hashes H r) = num_full_hashes bs r"
  by (simp add: num_full_hashes_def num_tokens_def)

lemma chain_hash_update [simp]:
  "chain_hash H bs nh (update_block_hashes G r) k = chain_hash H bs nh r k"
  by (simp add: update_block_hashes_def split: option.split)

lemma append_hashes_current:
  assumes "hashes_current H r"
  shows "hashes_current H (append_output_token_ids H ts r)"
proof (cases "block_hasher r")
  case None
  with assms show ?thesis
    by (simp add: hashes_current_def append_output_token_ids_def update_block_hashes_def)
next
  case (Some h)
  obtain bs nh where h: "h = (bs, nh)" by (cases h)
  let ?r' = "r\<lparr>output_token_ids := output_token_ids r @ ts, all_token_ids := all_token_ids r @ ts\<rparr>"
  from assms Some h have bs: "0 < bs"
    and old: "block_hashes r = map (chain_hash H bs nh r) [0..<num_full_hashes bs r]"
    by (simp_all add: hashes_current_def)
  have mono: "num_full_hashes bs r \<le> num_full_hashes bs ?r'"
    using bs by (intro num_full_hashes_mono) (simp_all add: num_tokens_def)
  have "chain_hash H bs nh ?r' k = chain_hash H bs nh r k" if "k < num_full_hashes bs r" for k
    using that bs by (intro chain_hash_extend [where ts = ts]) (simp_all add: same_identity_def)
  then have "block_hashes ?r' = map (chain_hash H bs nh ?r') [0..<num_full_hashes bs r]"
    using old by simp
  with update_block_hashes_prefix [of ?r' bs nh "num_full_hashes bs r" H] Some h bs mono
  show ?thesis by (simp add: hashes_current_def append_output_token_ids_def)
qed

lemma attach_hashes_current:
  "0 < bs \<Longrightarrow> block_hashes r = [] \<Longrightarrow> hashes_current H (attach_block_hasher H (bs, nh) r)"
  using update_block_hashes_prefix [of "r\<lparr>block_hasher := Some (bs, nh)\<rparr>" bs nh 0 H]
  by (simp add: hashes_current_def attach_block_hasher_def)

lemma from_scratch:
  assumes "hashes_current H r" "block_hasher r = Some (bs, nh)"
  shows "block_hashes r = request_block_hasher H bs nh (r\<lparr>block_hashes := []\<rparr>)"
  using assms hash_loop_chain [of bs H nh "r\<lparr>block_hashes := []\<rparr>" 0]
  by (simp add: hashes_current_def request_block_hasher_def)

text \<open>
  The input that was hashed for block \<open>k\<close>. If the digest does not collide on the inputs of
  two requests, equal hashes at a position mean equal content up to and including it.
\<close>

definition hash_input_at :: "hash_fn \<Rightarrow> int \<Rightarrow> block_hash_t \<Rightarrow> request \<Rightarrow> nat \<Rightarrow> hash_input" where
  "hash_input_at H bs nh r k =
     HashBlock (if k = 0 then nh
                else if chain_hash H bs nh r (k - 1) = [] then nh else chain_hash H bs nh r (k - 1))
       (block_tokens bs r k) (block_keys bs r k)"

lemma chain_hash_input: "chain_hash H bs nh r k = H (hash_input_at H bs nh r k)"
  by (cases k) (simp_all add: hash_input_at_def hash_block_tokens_def Let_def)

lemma chain_hash_injective:
  assumes inj: "inj_on H (hash_input_at H bs nh r ` {..k} \<union> hash_input_at H bs nh s ` {..k})"
    and ne: "\<And>i. i \<le> k \<Longrightarrow> chain_hash H bs nh r i \<noteq> [] \<and> chain_hash H bs nh s i \<noteq> []"
    and eq: "chain_hash H bs nh r k = chain_hash H bs nh s k"
    and "i \<le> k"
  shows "block_tokens bs r i = block_tokens bs s i \<and> block_keys bs r i = block_keys bs s i"
proof -
  have step: "hash_input_at H bs nh r j = hash_input_at H bs nh s j"
    if "chain_hash H bs nh r j = chain_hash H bs nh s j" "j \<le> k" for j
    using inj_onD [OF inj, of "hash_input_at H bs nh r j" "hash_input_at H bs nh s j"] that
    by (simp add: chain_hash_input)
  have "chain_hash H bs nh r i = chain_hash H bs nh s i"
    using \<open>i \<le> k\<close>
  proof (induction rule: inc_induct)
    case base
    from eq show ?case .
  next
    case (step n)
    from \<open>n < k\<close> have "Suc n \<le> k" "n \<le> k" by simp_all
    with step.IH have "hash_input_at H bs nh r (Suc n) = hash_input_at H bs nh s (Suc n)"
      using \<open>\<And>j. chain_hash H bs nh r j = chain_hash H bs nh s j \<Longrightarrow> j \<le> k \<Longrightarrow> _\<close> by blast
    with ne [OF \<open>n \<le> k\<close>] show ?case by (simp add: hash_input_at_def)
  qed
  from step [OF this \<open>i \<le> k\<close>] show ?thesis by (simp add: hash_input_at_def)
qed

section \<open>Stop check facts\<close>

lemma check_stop_True: "check_stop mml r = Inr (True, r') \<Longrightarrow> status_is_finished (status r')"
  by (auto simp: check_stop_def Let_def status_is_finished_def less_request_status_def
      split: option.splits if_splits)

lemma check_stop_False: "check_stop mml r = Inr (False, r') \<Longrightarrow> r' = r"
  by (auto simp: check_stop_def Let_def split: option.splits if_splits)

text \<open>The stop check touches the status and the stop reason only.\<close>

lemma check_stop_frame:
  "check_stop mml r = Inr (b, r') \<Longrightarrow>
   r' = r\<lparr>status := status r', stop_reason := stop_reason r'\<rparr>"
  by (auto simp: check_stop_def Let_def split: option.splits if_splits)

end
