(* ===== verification/SingleTypeManager.thy ===== *)
theory SingleTypeManager
  imports KVSpec RequestState
begin

text \<open>
  \<open>pvllm/v1/core/single_type_kv_cache_manager.py\<close>: the bookkeeping of one KV cache group.

  The class of a manager is determined by its spec (\<open>get_manager_for_kv_cache_spec\<close>), so the
  overridden methods are case distinctions on the spec. The pool, which all managers share,
  is passed in and returned. \<open>req_to_blocks\<close> is a \<open>defaultdict\<close>: indexing it inserts an
  empty entry, \<open>.get\<close> does not.
\<close>

record kv_manager =
  mgr_spec :: kv_spec
  kv_cache_group_id :: int
  req_to_blocks :: "(string \<times> bref list) list"

definition get_manager_for_kv_cache_spec :: "kv_spec \<Rightarrow> int \<Rightarrow> kv_manager" where
  "get_manager_for_kv_cache_spec s g = \<lparr>mgr_spec = s, kv_cache_group_id = g, req_to_blocks = []\<rparr>"

abbreviation mgr_block_size :: "kv_manager \<Rightarrow> int" where
  "mgr_block_size m \<equiv> block_size (mgr_spec m)"

text \<open>\<open>self.req_to_blocks.get(request_id, [])\<close>.\<close>

definition get_blocks :: "kv_manager \<Rightarrow> string \<Rightarrow> bref list" where
  "get_blocks m rid = (case map_of (req_to_blocks m) rid of None \<Rightarrow> [] | Some bs \<Rightarrow> bs)"

definition set_blocks :: "string \<Rightarrow> bref list \<Rightarrow> kv_manager \<Rightarrow> kv_manager" where
  "set_blocks rid bs m = m\<lparr>req_to_blocks := AList.update rid bs (req_to_blocks m)\<rparr>"

fun get_num_skipped_tokens :: "kv_spec \<Rightarrow> int \<Rightarrow> int" where
  "get_num_skipped_tokens (SlidingWindowSpec a w) n = max 0 (n - w)"
| "get_num_skipped_tokens (SlidingWindowMLASpec a w) n = max 0 (n - w)"
| "get_num_skipped_tokens (MambaSpec bs st pad) n = n - 1"
| "get_num_skipped_tokens _ n = 0"

definition get_num_blocks_to_allocate ::
  "kv_manager \<Rightarrow> block_pool \<Rightarrow> string \<Rightarrow> int \<Rightarrow> bref list \<Rightarrow> int \<Rightarrow> int" where
  "get_num_blocks_to_allocate m p rid num_toks new_computed total_computed =
     (let bs = mgr_block_size m;
          num_required = ceil_div num_toks bs;
          num_req_blocks = int (length (get_blocks m rid));
          num_skipped = get_num_skipped_tokens (mgr_spec m) total_computed div bs;
          num_local_computed = int (length new_computed) + num_req_blocks;
          num_new = max (num_required - max num_skipped num_local_computed) 0;
          num_skipped_new_computed = max 0 (num_skipped - num_req_blocks);
          num_evictable = int (length (filter (\<lambda>b. ref_cnt (blk p b) = 0 \<and> \<not> is_null (blk p b))
                                 (drop (nat num_skipped_new_computed) new_computed)))
      in num_new + num_evictable)"

definition allocate_new_blocks ::
  "string \<Rightarrow> int \<Rightarrow> kv_manager \<Rightarrow> block_pool \<Rightarrow> (bref list \<times> kv_manager \<times> block_pool) result" where
  "allocate_new_blocks rid num_toks m p =
     (let blocks = get_blocks m rid;
          num_required = (num_toks + mgr_block_size m - 1) div mgr_block_size m;
          num_new = max 0 (num_required - int (length blocks))
      in if num_new = 0 then Inr ([], set_blocks rid blocks m, p)
         else rbind (get_new_blocks num_new p) (\<lambda>(new_blocks, p').
              Inr (new_blocks, set_blocks rid (blocks @ new_blocks) m, p')))"

text \<open>The loop of \<open>remove_skipped_blocks\<close>: the slots given up, in index order.\<close>

fun shed_loop :: "bref \<Rightarrow> nat list \<Rightarrow> bref list \<Rightarrow> bref list \<Rightarrow> bref list \<times> bref list" where
  "shed_loop null_b [] blocks removed = (removed, blocks)"
| "shed_loop null_b (i # is) blocks removed =
     (if blocks ! i = null_b then shed_loop null_b is blocks removed
      else shed_loop null_b is (blocks[i := null_b]) (removed @ [blocks ! i]))"

definition mgr_remove_skipped_blocks ::
  "string \<Rightarrow> int \<Rightarrow> kv_manager \<Rightarrow> block_pool \<Rightarrow> (kv_manager \<times> block_pool) result" where
  "mgr_remove_skipped_blocks rid num_computed m p =
     (let num_skipped_toks = get_num_skipped_tokens (mgr_spec m) num_computed;
          blocks = get_blocks m rid
      in if num_skipped_toks \<le> 0 then Inr (m, p)
         else if blocks = [] then Inr (m, p)
         else case null_block p of
                None \<Rightarrow> Inl AssertionError
              | Some null_b \<Rightarrow>
                  let num_skipped = min (num_skipped_toks div mgr_block_size m) (int (length blocks));
                      (removed, blocks') = shed_loop null_b [0..<nat num_skipped] blocks [];
                      m' = set_blocks rid blocks' m
                  in if removed = [] then Inr (m', p)
                     else rbind (free_blocks (rev removed) p) (\<lambda>p'. Inr (m', p')))"

definition mgr_adopt_cached_blocks :: "string \<Rightarrow> bref list \<Rightarrow> kv_manager \<Rightarrow> kv_manager result" where
  "mgr_adopt_cached_blocks rid blocks m =
     (if get_blocks m rid \<noteq> [] then Inl AssertionError
      else Inr (set_blocks rid blocks m))"

definition mgr_pop_blocks_for_free :: "string \<Rightarrow> kv_manager \<Rightarrow> bref list \<times> kv_manager" where
  "mgr_pop_blocks_for_free rid m =
     (get_blocks m rid, m\<lparr>req_to_blocks := AList.delete rid (req_to_blocks m)\<rparr>)"

definition mgr_free :: "string \<Rightarrow> kv_manager \<Rightarrow> block_pool \<Rightarrow> (kv_manager \<times> block_pool) result" where
  "mgr_free rid m p =
     (let (blocks, m') = mgr_pop_blocks_for_free rid m
      in if blocks = [] then Inr (m', p)
         else rbind (free_blocks (rev blocks) p) (\<lambda>p'. Inr (m', p')))"

definition num_holders :: "kv_manager \<Rightarrow> int" where
  "num_holders m = int (length (filter (\<lambda>(rid, bs). bs \<noteq> []) (req_to_blocks m)))"

definition mgr_num_common_prefix_blocks :: "kv_manager \<Rightarrow> block_pool \<Rightarrow> string \<Rightarrow> int" where
  "mgr_num_common_prefix_blocks m p rid =
     (if is_full_attention (mgr_spec m)
      then int (length (takeWhile (\<lambda>b. ref_cnt (blk p b) = num_holders m) (get_blocks m rid)))
      else 0)"

section \<open>Prefix cache lookup per group type\<close>

fun full_hit_loop :: "block_pool \<Rightarrow> int \<Rightarrow> block_hash_t list \<Rightarrow> bref list result" where
  "full_hit_loop p g [] = Inr []"
| "full_hit_loop p g (h # hs) =
     rbind (get_cached_block p h g) (\<lambda>c.
       case c of None \<Rightarrow> Inr []
       | Some b \<Rightarrow> rbind (full_hit_loop p g hs) (\<lambda>bs. Inr (b # bs)))"

fun window_hit_loop ::
  "block_pool \<Rightarrow> int \<Rightarrow> block_hash_t list \<Rightarrow> int \<Rightarrow> nat list \<Rightarrow> bref list \<Rightarrow> nat \<Rightarrow> bref list result" where
  "window_hit_loop p g hs needed [] computed contiguous = Inr (take contiguous computed)"
| "window_hit_loop p g hs needed (i # is) computed contiguous =
     (if length hs \<le> i then Inl IndexError
      else rbind (get_cached_block p (hs ! i) g) (\<lambda>c.
        case c of None \<Rightarrow> window_hit_loop p g hs needed is computed 0
        | Some b \<Rightarrow>
            if needed \<le> int (contiguous + 1) then Inr (take (i + (contiguous + 1)) (computed[i := b]))
            else window_hit_loop p g hs needed is (computed[i := b]) (contiguous + 1)))"

fun mamba_hit_loop :: "block_pool \<Rightarrow> int \<Rightarrow> block_hash_t list \<Rightarrow> bref \<Rightarrow> nat list \<Rightarrow> bref list result" where
  "mamba_hit_loop p g hs null_b [] = Inr []"
| "mamba_hit_loop p g hs null_b (i # is) =
     (if length hs \<le> i then Inl IndexError
      else rbind (get_cached_block p (hs ! i) g) (\<lambda>c.
        case c of None \<Rightarrow> mamba_hit_loop p g hs null_b is
        | Some b \<Rightarrow> Inr (replicate i null_b @ [b])))"

text \<open>
  \<open>find_longest_cache_hit\<close>: the blocks and the number of tokens they cover. Token counts are
  natural numbers here: the caller passes \<open>max(0, ...)\<close>.
\<close>

definition find_longest_cache_hit ::
  "kv_manager \<Rightarrow> block_pool \<Rightarrow> block_hash_t list \<Rightarrow> nat \<Rightarrow> (bref list \<times> nat) result" where
  "find_longest_cache_hit m p hs max_length =
     (let bs = nat (mgr_block_size m);
          n = max_length div bs;
          g = kv_cache_group_id m;
          ret = (\<lambda>blocks. Inr (blocks, length blocks * bs))
      in case spec_window (mgr_spec m) of
           Some w \<Rightarrow>
             (case null_block p of
                None \<Rightarrow> Inl AssertionError
              | Some null_b \<Rightarrow>
                  rbind (window_hit_loop p g hs (ceil_div (w - 1) (mgr_block_size m)) (rev [0..<n])
                          (replicate n null_b) 0) ret)
         | None \<Rightarrow>
             if is_mamba (mgr_spec m) then
               (case null_block p of
                  None \<Rightarrow> Inl AssertionError
                | Some null_b \<Rightarrow> rbind (mamba_hit_loop p g hs null_b (rev [0..<n])) ret)
             else rbind (full_hit_loop p g (take n hs)) ret)"

section \<open>What a prefix cache hit is\<close>

text \<open>
  \<open>cached_at\<close> is the block the cache holds for the \<open>i\<close>-th hash. A group can serve a prefix
  of \<open>L\<close> blocks when the part of it the group still reads is cached: all of it for full
  attention, the window's last blocks (at least one) for a window, the last one for a state.
  \<open>hit_list\<close> is the block table such a hit gives: placeholders for the part not read.
\<close>

definition cached_at :: "block_pool \<Rightarrow> int \<Rightarrow> block_hash_t list \<Rightarrow> nat \<Rightarrow> bref option" where
  "cached_at p g hs i = (case get_cached_block p (hs ! i) g of Inr c \<Rightarrow> c | Inl e \<Rightarrow> None)"

definition read_tail :: "kv_spec \<Rightarrow> nat \<Rightarrow> nat" where
  "read_tail s L =
     (case spec_window s of
        Some w \<Rightarrow> max 1 (nat (ceil_div (w - 1) (block_size s)))
      | None \<Rightarrow> if is_mamba s then 1 else L)"

definition serves_blocks :: "kv_manager \<Rightarrow> block_pool \<Rightarrow> block_hash_t list \<Rightarrow> nat \<Rightarrow> bool" where
  "serves_blocks m p hs L =
     list_all (\<lambda>i. cached_at p (kv_cache_group_id m) hs i \<noteq> None) [L - read_tail (mgr_spec m) L..<L]"

definition hit_list :: "kv_manager \<Rightarrow> block_pool \<Rightarrow> block_hash_t list \<Rightarrow> nat \<Rightarrow> bref list" where
  "hit_list m p hs L =
     (let k = L - read_tail (mgr_spec m) L
      in replicate k (the (null_block p)) @
         map (\<lambda>i. the (cached_at p (kv_cache_group_id m) hs i)) [k..<L])"

text \<open>A manager on a pool it can work with.\<close>

definition mgr_ok :: "block_pool \<Rightarrow> kv_manager \<Rightarrow> bool" where
  "mgr_ok p m \<longleftrightarrow> 0 < mgr_block_size m \<and> 0 \<le> kv_cache_group_id m \<and> kv_cache_group_id m < 2 ^ 32 \<and>
     (is_full_attention (mgr_spec m) \<or> null_block p \<noteq> None) \<and>
     (\<forall>w. spec_window (mgr_spec m) = Some w \<longrightarrow> 1 \<le> w)"

lemma length_hit_list [simp]: "length (hit_list m p hs L) = L"
  by (simp add: hit_list_def Let_def)

lemma get_cached_at:
  "0 \<le> g \<Longrightarrow> g < 2 ^ 32 \<Longrightarrow> get_cached_block p (hs ! i) g = Inr (cached_at p g hs i)"
  using get_cached_block_total [of g p "hs ! i"] by (auto simp: cached_at_def)

lemma full_hit_loop_spec:
  assumes g: "0 \<le> g" "g < 2 ^ 32"
  shows "n \<le> length hs \<Longrightarrow> \<exists>L\<le>n. full_hit_loop p g (take n hs) = Inr (map (\<lambda>i. the (cached_at p g hs i)) [0..<L]) \<and>
    (\<forall>i<L. cached_at p g hs i \<noteq> None) \<and> (L < n \<longrightarrow> cached_at p g hs L = None)"
proof (induction n arbitrary: hs)
  case 0
  then show ?case by simp
next
  case (Suc n)
  then obtain h hs' where hs: "hs = h # hs'" and n: "n \<le> length hs'" by (cases hs) auto
  have shift: "cached_at p g (h # hs') (Suc i) = cached_at p g hs' i" for i
    by (simp add: cached_at_def)
  have c0: "get_cached_block p h g = Inr (cached_at p g hs 0)"
    using get_cached_at [OF g, of p hs 0] by (simp add: hs)
  show ?case
  proof (cases "cached_at p g hs 0")
    case None
    then show ?thesis using c0 by (intro exI [of _ 0]) (simp add: hs)
  next
    case (Some b)
    from Suc.IH [OF n] obtain L where L: "L \<le> n"
      "full_hit_loop p g (take n hs') = Inr (map (\<lambda>i. the (cached_at p g hs' i)) [0..<L])"
      "\<forall>i<L. cached_at p g hs' i \<noteq> None" "L < n \<longrightarrow> cached_at p g hs' L = None" by blast
    have "map (\<lambda>i. the (cached_at p g hs i)) [0..<Suc L] =
        b # map (\<lambda>i. the (cached_at p g hs' i)) [0..<L]"
      unfolding upt_conv_Cons [OF zero_less_Suc] using Some
      by (simp add: hs map_Suc_upt [symmetric] shift del: upt_Suc)
    moreover have "\<forall>i<Suc L. cached_at p g hs i \<noteq> None"
    proof (intro allI impI)
      fix i assume "i < Suc L"
      then show "cached_at p g hs i \<noteq> None" using Some L(3) by (cases i) (auto simp: hs shift)
    qed
    ultimately show ?thesis
      using c0 Some L by (intro exI [of _ "Suc L"]) (simp add: hs shift del: upt_Suc)
  qed
qed

lemma mamba_hit_loop_spec:
  assumes g: "0 \<le> g" "g < 2 ^ 32"
  shows "n \<le> length hs \<Longrightarrow> \<exists>L\<le>n. mamba_hit_loop p g hs nb (rev [0..<n]) =
      Inr (replicate (L - 1) nb @ map (\<lambda>i. the (cached_at p g hs i)) [L - 1..<L]) \<and>
    (0 < L \<longrightarrow> cached_at p g hs (L - 1) \<noteq> None) \<and>
    (\<forall>i. L \<le> i \<longrightarrow> i < n \<longrightarrow> cached_at p g hs i = None)"
proof (induction n)
  case 0
  then show ?case by simp
next
  case (Suc n)
  show ?case
  proof (cases "cached_at p g hs n")
    case None
    from Suc obtain L where "L \<le> n" "mamba_hit_loop p g hs nb (rev [0..<n]) =
        Inr (replicate (L - 1) nb @ map (\<lambda>i. the (cached_at p g hs i)) [L - 1..<L])"
      "0 < L \<longrightarrow> cached_at p g hs (L - 1) \<noteq> None" "\<forall>i. L \<le> i \<longrightarrow> i < n \<longrightarrow> cached_at p g hs i = None"
      by auto
    then show ?thesis using None Suc.prems get_cached_at [OF g, of p hs n]
      by (intro exI [of _ L]) (auto simp: less_Suc_eq)
  next
    case (Some b)
    then show ?thesis using Suc.prems get_cached_at [OF g, of p hs n]
      by (intro exI [of _ "Suc n"]) auto
  qed
qed

lemma window_hit_loop_spec:
  assumes g: "0 \<le> g" "g < 2 ^ 32" and k: "k = max 1 (nat needed)"
  shows "length computed = N \<Longrightarrow> n + c \<le> N \<Longrightarrow> N \<le> length hs \<Longrightarrow> c < k \<Longrightarrow>
    \<forall>j<n. computed ! j = nb \<Longrightarrow>
    \<forall>j. n \<le> j \<longrightarrow> j < n + c \<longrightarrow> cached_at p g hs j = Some (computed ! j) \<Longrightarrow>
    \<forall>L. n + c < L \<longrightarrow> L \<le> N \<longrightarrow> (\<exists>i. L - k \<le> i \<and> i < L \<and> cached_at p g hs i = None) \<Longrightarrow>
    \<exists>L\<le>N. window_hit_loop p g hs needed (rev [0..<n]) computed c =
        Inr (replicate (L - k) nb @ map (\<lambda>i. the (cached_at p g hs i)) [L - k..<L]) \<and>
      (\<forall>i. L - k \<le> i \<longrightarrow> i < L \<longrightarrow> cached_at p g hs i \<noteq> None) \<and>
      (\<forall>L'. L < L' \<longrightarrow> L' \<le> N \<longrightarrow> (\<exists>i. L' - k \<le> i \<and> i < L' \<and> cached_at p g hs i = None))"
proof (induction n arbitrary: computed c)
  case 0
  have "take c computed = map (\<lambda>i. the (cached_at p g hs i)) [0..<c]"
    using 0 by (intro nth_equalityI) auto
  then show ?case using 0 by (intro exI [of _ c]) auto
next
  case (Suc n)
  have n: "n < length hs" using Suc.prems by simp
  show ?case
  proof (cases "cached_at p g hs n")
    case None
    have "\<exists>i. L - k \<le> i \<and> i < L \<and> cached_at p g hs i = None" if "n + 0 < L" "L \<le> N" for L
    proof (cases "Suc n + c < L")
      case True
      then show ?thesis using Suc.prems that by blast
    next
      case False
      then show ?thesis using None that Suc.prems by (intro exI [of _ n]) auto
    qed
    then have "\<exists>L\<le>N. window_hit_loop p g hs needed (rev [0..<n]) computed 0 =
        Inr (replicate (L - k) nb @ map (\<lambda>i. the (cached_at p g hs i)) [L - k..<L]) \<and>
      (\<forall>i. L - k \<le> i \<longrightarrow> i < L \<longrightarrow> cached_at p g hs i \<noteq> None) \<and>
      (\<forall>L'. L < L' \<longrightarrow> L' \<le> N \<longrightarrow> (\<exists>i. L' - k \<le> i \<and> i < L' \<and> cached_at p g hs i = None))"
      using Suc.prems by (intro Suc.IH) auto
    then show ?thesis using None n get_cached_at [OF g, of p hs n] by simp
  next
    case (Some b)
    have tab: "cached_at p g hs j = Some (computed[n := b] ! j)" if "n \<le> j" "j < Suc n + c" for j
      using that Suc.prems Some by (cases "j = n") auto
    show ?thesis
    proof (cases "needed \<le> int (c + 1)")
      case True
      then have k': "k = c + 1" using k Suc.prems(4) by auto
      have "take (n + (c + 1)) (computed[n := b]) =
          replicate n nb @ map (\<lambda>i. the (cached_at p g hs i)) [n..<n + (c + 1)]"
        using Suc.prems tab by (intro nth_equalityI) (auto simp: nth_append simp del: upt_Suc)
      then show ?thesis using True Some n k' Suc.prems(2,7) tab get_cached_at [OF g, of p hs n]
        by (intro exI [of _ "n + (c + 1)"]) auto
    next
      case False
      then have c: "c + 1 < k" using k by auto
      have "\<exists>L\<le>N. window_hit_loop p g hs needed (rev [0..<n]) (computed[n := b]) (c + 1) =
          Inr (replicate (L - k) nb @ map (\<lambda>i. the (cached_at p g hs i)) [L - k..<L]) \<and>
        (\<forall>i. L - k \<le> i \<longrightarrow> i < L \<longrightarrow> cached_at p g hs i \<noteq> None) \<and>
        (\<forall>L'. L < L' \<longrightarrow> L' \<le> N \<longrightarrow> (\<exists>i. L' - k \<le> i \<and> i < L' \<and> cached_at p g hs i = None))"
        using Suc.prems c tab by (intro Suc.IH) auto
      then show ?thesis using False Some n get_cached_at [OF g, of p hs n] by simp
    qed
  qed
qed

text \<open>
  The lookup of every group type returns the longest prefix, within the bound, that the group
  can serve, and the table for it.
\<close>

definition greatest_served :: "kv_manager \<Rightarrow> block_pool \<Rightarrow> block_hash_t list \<Rightarrow> nat \<Rightarrow> nat \<Rightarrow> bool" where
  "greatest_served m p hs n L \<longleftrightarrow>
     L \<le> n \<and> serves_blocks m p hs L \<and> (\<forall>L'. L < L' \<longrightarrow> L' \<le> n \<longrightarrow> \<not> serves_blocks m p hs L')"

lemma serves_blocks_iff:
  "serves_blocks m p hs L \<longleftrightarrow>
     (\<forall>i. L - read_tail (mgr_spec m) L \<le> i \<longrightarrow> i < L \<longrightarrow> cached_at p (kv_cache_group_id m) hs i \<noteq> None)"
  by (auto simp: serves_blocks_def list_all_iff)

lemma spec_window_not_full: "spec_window s = Some w \<Longrightarrow> \<not> is_full_attention s \<and> \<not> is_mamba s"
  by (cases s) auto

lemma spec_cases:
  obtains (Full) "is_full_attention s" "spec_window s = None" "\<not> is_mamba s"
    | (Window) w where "spec_window s = Some w"
    | (Mamba) "is_mamba s" "spec_window s = None"
  by (cases s) auto

lemma find_longest_cache_hit_spec:
  assumes ok: "mgr_ok p m" and n: "max_length div nat (mgr_block_size m) \<le> length hs"
  shows "\<exists>L. find_longest_cache_hit m p hs max_length =
           Inr (hit_list m p hs L, L * nat (mgr_block_size m)) \<and>
         greatest_served m p hs (max_length div nat (mgr_block_size m)) L"
proof -
  let ?n = "max_length div nat (mgr_block_size m)"
  let ?g = "kv_cache_group_id m"
  have g: "0 \<le> ?g" "?g < 2 ^ 32" using ok by (auto simp: mgr_ok_def)
  show ?thesis
  proof (cases "mgr_spec m" rule: spec_cases)
    case Full
    from full_hit_loop_spec [OF g n] obtain L where L: "L \<le> ?n"
      "full_hit_loop p ?g (take ?n hs) = Inr (map (\<lambda>i. the (cached_at p ?g hs i)) [0..<L])"
      "\<forall>i<L. cached_at p ?g hs i \<noteq> None" "L < ?n \<longrightarrow> cached_at p ?g hs L = None" by blast
    have tail: "read_tail (mgr_spec m) L' = L'" for L' using Full by (simp add: read_tail_def)
    have "greatest_served m p hs ?n L"
      using L(1,3,4) by (auto simp: greatest_served_def serves_blocks_iff tail)
    then show ?thesis using L(2) Full tail
      by (intro exI [of _ L]) (simp add: find_longest_cache_hit_def Let_def hit_list_def)
  next
    case (Window w)
    then obtain nb where nb: "null_block p = Some nb"
      using ok spec_window_not_full by (auto simp: mgr_ok_def)
    let ?k = "max 1 (nat (ceil_div (w - 1) (mgr_block_size m)))"
    have "\<exists>L\<le>?n. window_hit_loop p ?g hs (ceil_div (w - 1) (mgr_block_size m)) (rev [0..<?n]) (replicate ?n nb) 0 =
        Inr (replicate (L - ?k) nb @ map (\<lambda>i. the (cached_at p ?g hs i)) [L - ?k..<L]) \<and>
      (\<forall>i. L - ?k \<le> i \<longrightarrow> i < L \<longrightarrow> cached_at p ?g hs i \<noteq> None) \<and>
      (\<forall>L'. L < L' \<longrightarrow> L' \<le> ?n \<longrightarrow> (\<exists>i. L' - ?k \<le> i \<and> i < L' \<and> cached_at p ?g hs i = None))"
      using n by (intro window_hit_loop_spec [OF g refl]) auto
    then obtain L where L: "L \<le> ?n" and
      run: "window_hit_loop p ?g hs (ceil_div (w - 1) (mgr_block_size m)) (rev [0..<?n]) (replicate ?n nb) 0 =
        Inr (replicate (L - ?k) nb @ map (\<lambda>i. the (cached_at p ?g hs i)) [L - ?k..<L])"
      and srv: "\<forall>i. L - ?k \<le> i \<longrightarrow> i < L \<longrightarrow> cached_at p ?g hs i \<noteq> None"
      and mx: "\<forall>L'. L < L' \<longrightarrow> L' \<le> ?n \<longrightarrow> (\<exists>i. L' - ?k \<le> i \<and> i < L' \<and> cached_at p ?g hs i = None)"
      by blast
    have tail: "read_tail (mgr_spec m) L' = ?k" for L' using Window by (simp add: read_tail_def)
    have "greatest_served m p hs ?n L"
      using L srv mx unfolding greatest_served_def serves_blocks_iff tail by blast
    moreover have "find_longest_cache_hit m p hs max_length =
           Inr (hit_list m p hs L, L * nat (mgr_block_size m))"
      unfolding find_longest_cache_hit_def Let_def hit_list_def tail
      by (simp only: Window nb option.simps run rbind_Inr) simp
    ultimately show ?thesis by blast
  next
    case Mamba
    then obtain nb where nb: "null_block p = Some nb"
      using ok by (cases "mgr_spec m") (auto simp: mgr_ok_def)
    from mamba_hit_loop_spec [OF g n] obtain L where L: "L \<le> ?n"
      "mamba_hit_loop p ?g hs nb (rev [0..<?n]) =
        Inr (replicate (L - 1) nb @ map (\<lambda>i. the (cached_at p ?g hs i)) [L - 1..<L])"
      "0 < L \<longrightarrow> cached_at p ?g hs (L - 1) \<noteq> None"
      "\<forall>i. L \<le> i \<longrightarrow> i < ?n \<longrightarrow> cached_at p ?g hs i = None" by blast
    have tail: "read_tail (mgr_spec m) L' = 1" for L' using Mamba by (simp add: read_tail_def)
    have "\<not> serves_blocks m p hs L'" if "L < L'" "L' \<le> ?n" for L'
      using that L(4) by (auto simp: serves_blocks_iff tail intro!: exI [of _ "L' - 1"])
    moreover have "serves_blocks m p hs L"
    proof (unfold serves_blocks_iff tail, intro allI impI)
      fix i assume "L - 1 \<le> i" "i < L"
      then have "i = L - 1" "0 < L" by auto
      then show "cached_at p ?g hs i \<noteq> None" using L(3) by simp
    qed
    ultimately have "greatest_served m p hs ?n L" using L(1) by (auto simp: greatest_served_def)
    moreover have "find_longest_cache_hit m p hs max_length =
           Inr (hit_list m p hs L, L * nat (mgr_block_size m))"
      unfolding find_longest_cache_hit_def Let_def hit_list_def tail
      by (simp only: Mamba nb option.simps if_True L(2) rbind_Inr) simp
    ultimately show ?thesis by blast
  qed
qed

section \<open>Bookkeeping\<close>

text \<open>
  \<open>mgr_table\<close> is the multiset of all table entries of a manager. Every operation keeps the
  pool's reference counts equal to the entries: \<open>pool_holds p (M + mgr_table m)\<close>, where \<open>M\<close>
  stands for the tables of the other managers.
\<close>

definition mgr_table :: "kv_manager \<Rightarrow> bref multiset" where
  "mgr_table m = mset (concat (map snd (req_to_blocks m)))"

definition mgr_keys :: "kv_manager \<Rightarrow> bool" where
  "mgr_keys m = distinct (map fst (req_to_blocks m))"

lemma set_blocks_simps [simp, frame_simps]:
  "mgr_spec (set_blocks rid bs m) = mgr_spec m"
  "kv_cache_group_id (set_blocks rid bs m) = kv_cache_group_id m"
  "get_blocks (set_blocks rid bs m) r = (if r = rid then bs else get_blocks m r)"
  by (simp_all add: set_blocks_def get_blocks_def update_conv')

lemma mgr_keys_set_blocks [simp]: "mgr_keys m \<Longrightarrow> mgr_keys (set_blocks rid bs m)"
  by (simp add: mgr_keys_def set_blocks_def distinct_update)

lemma table_update:
  "distinct (map fst al) \<Longrightarrow>
   mset (concat (map snd (AList.update k v al))) + mset (case map_of al k of None \<Rightarrow> [] | Some b \<Rightarrow> b) =
   mset (concat (map snd al)) + mset v"
  by (induction al) (auto simp: ac_simps)

lemma table_delete:
  "distinct (map fst al) \<Longrightarrow>
   mset (concat (map snd (AList.delete k al))) + mset (case map_of al k of None \<Rightarrow> [] | Some b \<Rightarrow> b) =
   mset (concat (map snd al))"
proof (induction al)
  case (Cons kv al)
  have "AList.delete k al = al" if "k \<notin> fst ` set al" using that by (simp add: delete_id)
  with Cons show ?case by (cases kv) (auto simp: ac_simps dest: weak_map_of_SomeI)
qed simp

lemma mgr_table_set_blocks:
  "mgr_keys m \<Longrightarrow>
   mgr_table (set_blocks rid bs m) + mset (get_blocks m rid) = mgr_table m + mset bs"
  using table_update [of "req_to_blocks m" rid bs]
  by (simp add: mgr_keys_def mgr_table_def set_blocks_def get_blocks_def)

lemma mgr_table_set_append:
  assumes "mgr_keys m"
  shows "mgr_table (set_blocks rid (get_blocks m rid @ bs) m) = mgr_table m + mset bs"
  using mgr_table_set_blocks [OF assms, of rid "get_blocks m rid @ bs"] by simp

lemma pop_blocks:
  assumes "mgr_keys m" and "mgr_pop_blocks_for_free rid m = (bs, m')"
  shows "bs = get_blocks m rid" and "mgr_table m = mgr_table m' + mset bs" and "mgr_keys m'"
    and "mgr_spec m' = mgr_spec m" and "kv_cache_group_id m' = kv_cache_group_id m"
    and "get_blocks m' r = (if r = rid then [] else get_blocks m r)"
  using assms table_delete [of "req_to_blocks m" rid]
  by (auto simp: mgr_pop_blocks_for_free_def mgr_table_def get_blocks_def mgr_keys_def delete_conv'
      distinct_delete)

text \<open>Null entries are not counted.\<close>

lemma pool_holds_nulls:
  assumes "pool_holds p M" "\<And>b. null_block p \<noteq> Some b \<Longrightarrow> count M' b = count M b"
    and "\<And>b. null_block p = Some b \<Longrightarrow> real_block p b"
  shows "pool_holds p M'"
proof -
  have "real_block p b" if "b \<in># M'" for b
    using assms that unfolding pool_holds_def by (metis count_greater_zero_iff)
  then show ?thesis using assms(1,2) by (simp add: pool_holds_def)
qed

lemma pool_holds_null_real: "pool_holds p M \<Longrightarrow> null_block p = Some b \<Longrightarrow> real_block p b"
  by (auto simp: pool_holds_def pool_inv_def pool_core_def null_ok_def real_block_iff)

lemma same_pins: "(\<lambda>b. null_block p' = Some b) = (\<lambda>b. null_block p = Some b) \<Longrightarrow> null_block p' = null_block p"
  by (metis not_None_eq)

lemma get_num_free_nonneg: "pool_holds p M \<Longrightarrow> 0 \<le> get_num_free_blocks p"
  by (auto simp: pool_holds_def dest: pool_invD(5))

text \<open>A step of a manager keeps its identity, and the tables of the other requests.\<close>

definition mgr_step :: "string \<Rightarrow> kv_manager \<Rightarrow> kv_manager \<Rightarrow> bool" where
  "mgr_step rid m m' \<longleftrightarrow> mgr_spec m' = mgr_spec m \<and> kv_cache_group_id m' = kv_cache_group_id m \<and>
     mgr_keys m' \<and> (\<forall>r. r \<noteq> rid \<longrightarrow> get_blocks m' r = get_blocks m r)"

definition pool_step :: "block_pool \<Rightarrow> block_pool \<Rightarrow> bool" where
  "pool_step p p' \<longleftrightarrow> real_block p' = real_block p \<and> null_block p' = null_block p"

lemma pool_step_refl [simp, intro]: "pool_step p p" by (simp add: pool_step_def)

lemma pool_step_trans: "pool_step p p' \<Longrightarrow> pool_step p' p'' \<Longrightarrow> pool_step p p''"
  by (simp add: pool_step_def)

lemma mgr_step_refl: "mgr_keys m \<Longrightarrow> mgr_step rid m m" by (simp add: mgr_step_def)

lemma mgr_step_trans: "mgr_step rid m m' \<Longrightarrow> mgr_step rid m' m'' \<Longrightarrow> mgr_step rid m m''"
  by (simp add: mgr_step_def)

lemma mgr_step_set_blocks [simp, intro]: "mgr_keys m \<Longrightarrow> mgr_step rid m (set_blocks rid bs m)"
  by (simp add: mgr_step_def)

definition shortfall :: "kv_manager \<Rightarrow> string \<Rightarrow> int \<Rightarrow> int" where
  "shortfall m rid num_toks =
     max 0 (ceil_div num_toks (mgr_block_size m) - int (length (get_blocks m rid)))"

lemma ceil_div_add: "0 < b \<Longrightarrow> (n + b - 1) div b = ceil_div n b" for n b :: int
proof -
  assume b: "0 < b"
  have "ceil_div n b \<le> k \<longleftrightarrow> (n + b - 1) div b \<le> k" for k
    using ceil_div_le_iff [OF b, of n k] le_div_iff_mult_le [OF b, of "k + 1" "n + b - 1"]
    by (auto simp: algebra_simps)
  then show ?thesis by (meson order_antisym order_refl)
qed

lemma allocate_new_blocks_holds:
  assumes hold: "pool_holds p (M + mgr_table m)" and keys: "mgr_keys m" and bs: "0 < mgr_block_size m"
    and fit: "shortfall m rid num_toks \<le> get_num_free_blocks p"
  shows "\<exists>new m' p'. allocate_new_blocks rid num_toks m p = Inr (new, m', p') \<and>
    pool_holds p' (M + mgr_table m') \<and> mgr_step rid m m' \<and> pool_step p p' \<and>
    get_blocks m' rid = get_blocks m rid @ new \<and> int (length new) = shortfall m rid num_toks \<and>
    num_toks \<le> int (length (get_blocks m' rid)) * mgr_block_size m \<and>
    get_num_free_blocks p' = get_num_free_blocks p - shortfall m rid num_toks"
proof -
  let ?n = "shortfall m rid num_toks"
  have n: "(num_toks + mgr_block_size m - 1) div mgr_block_size m = ceil_div num_toks (mgr_block_size m)"
    by (rule ceil_div_add [OF bs])
  have cover: "num_toks \<le> int (length (get_blocks m rid @ new)) * mgr_block_size m"
    if "int (length new) = ?n" for new :: "bref list"
    by (rule iffD1 [OF ceil_div_le_iff [OF bs]]) (use that in \<open>simp add: shortfall_def\<close>)
  show ?thesis
  proof (cases "?n = 0")
    case True
    have "mgr_table (set_blocks rid (get_blocks m rid) m) = mgr_table m"
      using mgr_table_set_append [OF keys, of rid "[]"] by simp
    with True show ?thesis using hold keys cover [of "[]"]
      by (auto simp: allocate_new_blocks_def Let_def shortfall_def n max_def split: if_splits)
  next
    case False
    have "0 \<le> ?n" by (simp add: shortfall_def)
    from pool.holds_alloc [OF hold this fit] obtain new p' where
      A: "get_new_blocks ?n p = Inr (new, p')" "pool_holds p' (M + mgr_table m + mset new)"
        "int (length new) = ?n" "real_block p' = real_block p"
        "null_block p' = null_block p" "get_num_free_blocks p' = get_num_free_blocks p - ?n"
      by (metis same_pins)
    have "pool_holds p' (M + mgr_table (set_blocks rid (get_blocks m rid @ new) m))"
      using A(2) by (simp add: mgr_table_set_append [OF keys] ac_simps)
    then show ?thesis using A cover [OF A(3)] False keys
      by (auto simp: allocate_new_blocks_def Let_def n pool_step_def shortfall_def)
  qed
qed

text \<open>Shedding: the first \<open>k\<close> slots become null, the blocks they held are released.\<close>

lemma shed_loop_range:
  "length done + length rest = length (done @ rest) \<Longrightarrow> k \<le> length rest \<Longrightarrow>
   shed_loop nb [length done..<length done + k] (done @ rest) removed =
     (removed @ filter (\<lambda>b. b \<noteq> nb) (take k rest), done @ replicate k nb @ drop k rest)"
proof (induction k arbitrary: "done" rest removed)
  case (Suc k)
  then obtain b rest' where rest: "rest = b # rest'" by (cases rest) auto
  have upt: "[length done..<length done + Suc k] = length done # [length (done @ [nb])..<length (done @ [nb]) + k]"
    by (simp add: upt_conv_Cons)
  have IH: "shed_loop nb [length (done @ [nb])..<length (done @ [nb]) + k] ((done @ [nb]) @ rest') r =
      (r @ filter (\<lambda>b. b \<noteq> nb) (take k rest'), (done @ [nb]) @ replicate k nb @ drop k rest')" for r
    using Suc.prems by (intro Suc.IH) (auto simp: rest)
  have ne: "shed_loop nb (length done # is) (done @ b # rest') removed =
      (if b = nb then shed_loop nb is (done @ b # rest') removed
       else shed_loop nb is ((done @ [nb]) @ rest') (removed @ [b]))" for "is"
    by simp
  show ?case unfolding upt rest ne using IH by (cases "b = nb") (simp_all add: replicate_app_Cons_same)
qed simp

lemma shed_loop_spec:
  "k \<le> length bs \<Longrightarrow>
   shed_loop nb [0..<k] bs [] = (filter (\<lambda>b. b \<noteq> nb) (take k bs), replicate k nb @ drop k bs)"
  using shed_loop_range [of "[]" bs k nb "[]"] by simp

definition skipped_slots :: "kv_manager \<Rightarrow> string \<Rightarrow> int \<Rightarrow> nat" where
  "skipped_slots m rid n =
     min (nat (get_num_skipped_tokens (mgr_spec m) n div mgr_block_size m)) (length (get_blocks m rid))"

lemma mgr_remove_skipped_holds:
  assumes hold: "pool_holds p (M + mgr_table m)" and keys: "mgr_keys m" and ok: "mgr_ok p m"
  shows "\<exists>m' p'. mgr_remove_skipped_blocks rid n m p = Inr (m', p') \<and>
    pool_holds p' (M + mgr_table m') \<and> mgr_step rid m m' \<and> pool_step p p' \<and>
    (let k = skipped_slots m rid n; bs = get_blocks m rid
     in get_blocks m' rid = replicate k (the (null_block p)) @ drop k bs)"
proof -
  let ?t = "get_num_skipped_tokens (mgr_spec m) n" and ?bs = "get_blocks m rid"
  show ?thesis
  proof (cases "?t \<le> 0 \<or> ?bs = []")
    case True
    have "?t div mgr_block_size m \<le> 0" if "?t \<le> 0"
      using that ok by (simp add: mgr_ok_def div_nonpos_pos_le0)
    with True have "skipped_slots m rid n = 0" by (auto simp: skipped_slots_def)
    with True show ?thesis using hold mgr_step_refl [OF keys]
      by (auto simp: mgr_remove_skipped_blocks_def Let_def)
  next
    case False
    then have "\<not> is_full_attention (mgr_spec m)" by (cases "mgr_spec m") auto
    with ok obtain nb where nb: "null_block p = Some nb" by (auto simp: mgr_ok_def)
    let ?k = "skipped_slots m rid n"
    have k: "nat (min (?t div mgr_block_size m) (int (length ?bs))) = ?k"
      by (simp add: skipped_slots_def min_def nat_le_iff)
    have le: "?k \<le> length ?bs" by (simp add: skipped_slots_def)
    let ?rem = "filter (\<lambda>b. b \<noteq> nb) (take ?k ?bs)" and ?tab = "replicate ?k nb @ drop ?k ?bs"
    let ?m = "set_blocks rid ?tab m"
    have shed: "shed_loop nb [0..<?k] ?bs [] = (?rem, ?tab)" by (rule shed_loop_spec [OF le])
    have "mset ?bs = mset (take ?k ?bs) + mset (drop ?k ?bs)"
      by (metis append_take_drop_id mset_append)
    then have "count (mgr_table ?m) b + count (mset ?rem) b = count (mgr_table m) b" if "b \<noteq> nb" for b
      using arg_cong [OF mgr_table_set_blocks [OF keys, of rid ?tab], of "\<lambda>M. count M b"] that
      by simp
    then have H: "pool_holds p (M + mgr_table ?m + mset ?rem)"
      using pool_holds_null_real [OF hold] nb
      by (intro pool_holds_nulls [OF hold]) auto
    have run: "mgr_remove_skipped_blocks rid n m p =
        (if ?rem = [] then Inr (?m, p) else rbind (free_blocks (rev ?rem) p) (\<lambda>p'. Inr (?m, p')))"
      using False by (simp only: mgr_remove_skipped_blocks_def Let_def nb option.simps k shed prod.case) simp
    have step: "mgr_step rid m ?m" using keys by simp
    have tab: "get_blocks ?m rid = replicate ?k (the (null_block p)) @ drop ?k ?bs" using nb by simp
    show ?thesis
    proof (cases "?rem = []")
      case True
      then show ?thesis using run H step tab by (auto simp: Let_def)
    next
      case False
      from pool.holds_free [OF H] obtain p' where "free_blocks (rev ?rem) p = Inr p'"
        "pool_holds p' (M + mgr_table ?m)" "pool_step p p'"
        by (metis same_pins pool_step_def)
      with False run step tab show ?thesis by (auto simp: Let_def)
    qed
  qed
qed

lemma mgr_free_holds:
  assumes hold: "pool_holds p (M + mgr_table m)" and keys: "mgr_keys m"
  shows "\<exists>m' p'. mgr_free rid m p = Inr (m', p') \<and> pool_holds p' (M + mgr_table m') \<and>
    mgr_step rid m m' \<and> pool_step p p' \<and> get_blocks m' rid = []"
proof -
  obtain bs m' where pop: "mgr_pop_blocks_for_free rid m = (bs, m')"
    using prod.exhaust by blast
  note P = pop_blocks [OF keys pop]
  have step: "mgr_step rid m m'" using P by (simp add: mgr_step_def)
  have H: "pool_holds p (M + mgr_table m' + mset bs)" using hold by (simp add: P(2) ac_simps)
  from pool.holds_free [OF H] obtain p' where "free_blocks (rev bs) p = Inr p'"
    "pool_holds p' (M + mgr_table m')" "pool_step p p'"
    by (metis same_pins pool_step_def)
  then show ?thesis using H step pop P(6) [of rid]
    by (cases "bs = []") (auto simp: mgr_free_def)
qed

lemma mgr_adopt:
  assumes keys: "mgr_keys m" and none: "get_blocks m rid = []"
  shows "mgr_adopt_cached_blocks rid bs m = Inr (set_blocks rid bs m)"
    and "mgr_table (set_blocks rid bs m) = mgr_table m + mset bs"
  using mgr_table_set_blocks [OF keys, of rid bs] none by (simp_all add: mgr_adopt_cached_blocks_def)

section \<open>The interface the coordinator relies on\<close>

text \<open>
  A finder answers, for a bound in tokens, with the longest prefix it can serve. The
  coordinator needs three consequences: an answer never loses a prefix that is servable below
  the bound; an answer that equals the bound certifies it; a second lookup below a servable
  length agrees with it.
\<close>

locale longest_hit =
  fixes ready :: "'m \<Rightarrow> nat \<Rightarrow> bool"
    and unit_len :: "'m \<Rightarrow> nat"
    and find :: "'m \<Rightarrow> nat \<Rightarrow> ('b list \<times> nat) result"
    and serves :: "'m \<Rightarrow> nat \<Rightarrow> bool"
    and tab :: "'m \<Rightarrow> nat \<Rightarrow> 'b list"
  assumes unit_pos: "ready m n \<Longrightarrow> 0 < unit_len m"
    and ready_less: "ready m n \<Longrightarrow> n' \<le> n \<Longrightarrow> ready m n'"
    and find_greatest: "ready m n \<Longrightarrow>
      \<exists>L. find m n = Inr (tab m L, L * unit_len m) \<and> L \<le> n div unit_len m \<and> serves m L \<and>
          (\<forall>L'. L < L' \<longrightarrow> L' \<le> n div unit_len m \<longrightarrow> \<not> serves m L')"
begin

lemma find_result:
  assumes "ready m n"
  obtains L where "find m n = Inr (tab m L, L * unit_len m)" "L * unit_len m \<le> n" "serves m L"
    "\<And>L'. serves m L' \<Longrightarrow> L' \<le> n div unit_len m \<Longrightarrow> L' \<le> L"
proof -
  from find_greatest [OF assms] obtain L where L: "find m n = Inr (tab m L, L * unit_len m)"
    "L \<le> n div unit_len m" "serves m L"
    "\<forall>L'. L < L' \<longrightarrow> L' \<le> n div unit_len m \<longrightarrow> \<not> serves m L'" by blast
  have "L * unit_len m \<le> n"
    using L(2) by (metis div_times_less_eq_dividend le_trans mult_le_mono1)
  with L that show thesis by (meson not_le)
qed

lemma find_at_served:
  assumes r: "ready m (L * unit_len m)" and s: "serves m L"
  shows "find m (L * unit_len m) = Inr (tab m L, L * unit_len m)"
proof -
  have u: "0 < unit_len m" using unit_pos [OF r] .
  from find_result [OF r] obtain L1 where
    "find m (L * unit_len m) = Inr (tab m L1, L1 * unit_len m)" "L1 * unit_len m \<le> L * unit_len m"
    "\<And>L'. serves m L' \<Longrightarrow> L' \<le> L * unit_len m div unit_len m \<Longrightarrow> L' \<le> L1" by metis
  moreover from this s u have "L1 = L" by (simp add: le_antisym)
  ultimately show ?thesis by simp
qed

lemma find_fixpoint:
  assumes "ready m n" "find m n = Inr (bs, n)"
  shows "serves m (n div unit_len m) \<and> bs = tab m (n div unit_len m) \<and> unit_len m dvd n"
proof -
  from find_result [OF assms(1)] obtain L where
    "find m n = Inr (tab m L, L * unit_len m)" "serves m L" by metis
  with assms(2) unit_pos [OF assms(1)] show ?thesis by auto
qed

end

text \<open>A finder that reads the whole prefix serves every shorter one as well.\<close>

locale prefix_hit = longest_hit +
  fixes whole :: "'a \<Rightarrow> bool"
  assumes downward: "whole m \<Longrightarrow> serves m L \<Longrightarrow> L' \<le> L \<Longrightarrow> serves m L'"
    and tab_take: "whole m \<Longrightarrow> L' \<le> L \<Longrightarrow> take L' (tab m L) = tab m L'"
begin

text \<open>Looking it up once and taking the minimum with later bounds loses nothing.\<close>

lemma whole_min:
  assumes w: "whole m" and s: "serves m L" and n: "n \<le> L * unit_len m" and u: "0 < unit_len m"
  shows "serves m (n div unit_len m)" and "take (n div unit_len m) (tab m L) = tab m (n div unit_len m)"
proof -
  have "n div unit_len m \<le> L" using n u by (metis div_le_mono nonzero_mult_div_cancel_right not_gr_zero)
  then show "serves m (n div unit_len m)" "take (n div unit_len m) (tab m L) = tab m (n div unit_len m)"
    using downward [OF w s] tab_take [OF w] by blast+
qed

end

interpretation lookup: prefix_hit
  "\<lambda>(m, p, hs) n. mgr_ok p m \<and> n div nat (mgr_block_size m) \<le> length hs"
  "\<lambda>(m, p, hs). nat (mgr_block_size m)"
  "\<lambda>(m, p, hs). find_longest_cache_hit m p hs"
  "\<lambda>(m, p, hs). serves_blocks m p hs"
  "\<lambda>(m, p, hs). hit_list m p hs"
  "\<lambda>(m, p, hs). is_full_attention (mgr_spec m)"
proof (unfold_locales, goal_cases)
  case (1 x n)
  then show ?case by (auto simp: mgr_ok_def)
next
  case (2 x n n')
  then show ?case by (auto intro: le_trans [OF div_le_mono])
next
  case (3 x n)
  obtain m p hs where x: "x = (m, p, hs)" by (cases x)
  from 3 find_longest_cache_hit_spec [of p m n hs] show ?case
    unfolding x greatest_served_def by auto
next
  case (4 x L L')
  obtain m p hs where x: "x = (m, p, hs)" by (cases x)
  have "read_tail (mgr_spec m) k = k" for k
    using 4(1) by (cases "mgr_spec m") (simp_all add: x read_tail_def)
  with 4 show ?case by (auto simp: x serves_blocks_iff)
next
  case (5 x L' L)
  obtain m p hs where x: "x = (m, p, hs)" by (cases x)
  have "read_tail (mgr_spec m) k = k" for k
    using 5(1) by (cases "mgr_spec m") (simp_all add: x read_tail_def)
  with 5 show ?case by (simp add: x hit_list_def take_map)
qed

section \<open>A hit and the part of it a group does not read\<close>

lemma hit_list_nth:
  assumes "i < L"
  shows "hit_list m p hs L ! i =
    (if i < L - read_tail (mgr_spec m) L then the (null_block p)
     else the (cached_at p (kv_cache_group_id m) hs i))"
  using assms by (auto simp: hit_list_def Let_def nth_append)

lemma read_tail_pos: "0 < L \<Longrightarrow> 0 < read_tail s L"
  by (auto simp: read_tail_def split: option.split)

lemma cached_at_real:
  "pool_core p \<Longrightarrow> cached_at p g hs i = Some b \<Longrightarrow> real_block p b \<and> \<not> is_null (blk p b)"
  using get_cached_block_Some [of p "hs ! i" g b]
  by (auto simp: cached_at_def split: sum.splits)

lemma hit_list_blocks:
  assumes hold: "pool_holds p M" and ok: "mgr_ok p m" and s: "serves_blocks m p hs L"
  shows "\<forall>b\<in>set (hit_list m p hs L). real_block p b"
    and "0 < L \<Longrightarrow> \<exists>b\<in>set (hit_list m p hs L). null_block p \<noteq> Some b"
proof -
  from hold obtain xs where xs: "pool_inv p xs" by (auto simp: pool_holds_def)
  note core = pool_invD(1) [OF xs]
  have el: "real_block p (hit_list m p hs L ! i) \<and>
      (L - read_tail (mgr_spec m) L \<le> i \<longrightarrow> null_block p \<noteq> Some (hit_list m p hs L ! i))" if i: "i < L" for i
  proof (cases "i < L - read_tail (mgr_spec m) L")
    case True
    then have "\<not> is_full_attention (mgr_spec m)"
      by (cases "mgr_spec m") (auto simp: read_tail_def)
    with ok obtain nb where "null_block p = Some nb" by (auto simp: mgr_ok_def)
    then show ?thesis using True i pool_holds_null_real [OF hold] by (simp add: hit_list_nth)
  next
    case False
    then obtain b where b: "cached_at p (kv_cache_group_id m) hs i = Some b"
      using s i unfolding serves_blocks_iff by (meson not_le option.exhaust)
    then show ?thesis using False i cached_at_real [OF core b] null_iff [OF xs, of b]
      by (simp add: hit_list_nth)
  qed
  then show "\<forall>b\<in>set (hit_list m p hs L). real_block p b"
    by (auto simp: in_set_conv_nth)
  show "\<exists>b\<in>set (hit_list m p hs L). null_block p \<noteq> Some b" if L: "0 < L"
    using el [of "L - 1"] L read_tail_pos [OF L, of "mgr_spec m"]
    by (intro bexI [of _ "hit_list m p hs L ! (L - 1)"]) auto
qed

text \<open>The blocks a group skips after a hit are placeholders: none of them is real.\<close>

lemma window_skip:
  fixes L :: nat and bs w :: int
  assumes bs: "0 < bs" and w: "1 \<le> w"
  shows "nat (max 0 (int L * bs - w) div bs) \<le> L - max 1 (nat (ceil_div (w - 1) bs))"
proof -
  let ?k = "max 0 (int L * bs - w) div bs" and ?d = "ceil_div (w - 1) bs"
  show ?thesis
  proof (cases "?k \<le> 0")
    case True
    then show ?thesis by simp
  next
    case False
    then have pos: "0 < ?k" by simp
    then have "0 < int L * bs - w" by (metis div_0 less_irrefl max.absorb1 not_le)
    then have k: "?k * bs \<le> int L * bs - w"
      using le_div_iff_mult_le [OF bs, of ?k "max 0 (int L * bs - w)"] by simp
    have d: "(?d - 1) * bs < w - 1"
      using ceil_div_le_iff [OF bs, of "w - 1" "?d - 1"] by simp
    have "?k * bs < (int L - ?d + 1) * bs" using k d by (simp add: algebra_simps)
    then have "?k \<le> int L - ?d" using bs by (simp add: mult_less_cancel_right)
    moreover have "?k * bs < int L * bs" using k w by simp
    then have "?k \<le> int L - 1" using bs by (simp add: mult_less_cancel_right)
    ultimately show ?thesis using pos by linarith
  qed
qed

lemma hit_skip:
  assumes ok: "mgr_ok p m"
  shows "nat (get_num_skipped_tokens (mgr_spec m) (int L * mgr_block_size m) div mgr_block_size m)
    \<le> L - read_tail (mgr_spec m) L"
proof (cases "mgr_spec m" rule: spec_cases)
  case Full
  then have "get_num_skipped_tokens (mgr_spec m) n = 0" for n by (cases "mgr_spec m") auto
  then show ?thesis by simp
next
  case (Window w)
  then have "get_num_skipped_tokens (mgr_spec m) n = max 0 (n - w)" for n by (cases "mgr_spec m") auto
  with Window show ?thesis using ok window_skip [of "mgr_block_size m" w L]
    by (simp add: read_tail_def mgr_ok_def)
next
  case Mamba
  then have sk: "get_num_skipped_tokens (mgr_spec m) n = n - 1" for n by (cases "mgr_spec m") auto
  have bs: "0 < mgr_block_size m" using ok by (simp add: mgr_ok_def)
  have "(int L * mgr_block_size m - 1) div mgr_block_size m < int L"
    using le_div_iff_mult_le [OF bs, of "int L" "int L * mgr_block_size m - 1"] by linarith
  with Mamba show ?thesis by (simp add: read_tail_def sk nat_le_iff)
qed

lemma hit_skipped_null:
  assumes ok: "mgr_ok p m"
    and b: "b \<in> set (take (nat (get_num_skipped_tokens (mgr_spec m) (int L * mgr_block_size m) div mgr_block_size m))
                   (hit_list m p hs L))"
  shows "null_block p = Some b"
proof -
  from b obtain i where i: "i < L"
    "i < nat (get_num_skipped_tokens (mgr_spec m) (int L * mgr_block_size m) div mgr_block_size m)"
    "b = hit_list m p hs L ! i" by (auto simp: in_set_conv_nth)
  with hit_skip [OF ok, of L] have lt: "i < L - read_tail (mgr_spec m) L" by simp
  then have "\<not> is_full_attention (mgr_spec m)"
    by (cases "mgr_spec m") (auto simp: read_tail_def)
  with ok obtain nb where "null_block p = Some nb" by (auto simp: mgr_ok_def)
  with i lt show ?thesis by (simp add: hit_list_nth)
qed

lemma skipped_le: "0 \<le> n \<Longrightarrow> mgr_ok p m \<Longrightarrow> get_num_skipped_tokens (mgr_spec m) n \<le> n"
  by (cases "mgr_spec m") (auto simp: mgr_ok_def)

end
