(* ===== verification/Coordinator.thy ===== *)
theory Coordinator
  imports SingleTypeManager
begin

text \<open>
  \<open>pvllm/v1/core/kv_cache_coordinator.py\<close>: one manager per KV cache group, over one pool.

  The coordinator's state is the list of its managers (\<open>single_type_managers\<close>), in group order;
  the pool is passed in and returned. \<open>find_longest_cache_hit\<close> keeps, per group, the blocks
  found (\<open>None\<close> before the first lookup) and their length: the cells of \<open>hit_pass\<close>.
\<close>

definition get_kv_cache_coordinator :: "kv_cache_config \<Rightarrow> kv_manager list result" where
  "get_kv_cache_coordinator c =
     (if kv_cache_groups c = [] then Inl ValueError
      else Inr (map (\<lambda>(i, g). get_manager_for_kv_cache_spec (group_spec g) (int i))
                 (enumerate 0 (kv_cache_groups c))))"

type_synonym hit_cell = "bref list option \<times> nat"

text \<open>One pass of the \<open>for\<close> loop: every group accepts the candidate length or lowers it.\<close>

fun hit_pass ::
  "block_pool \<Rightarrow> block_hash_t list \<Rightarrow> kv_manager list \<Rightarrow> hit_cell list \<Rightarrow> nat \<Rightarrow> (hit_cell list \<times> nat) result" where
  "hit_pass p hs (m # ms) ((found, len) # cells) cur =
     (if is_full_attention (mgr_spec m) \<and> found \<noteq> None
      then rbind (hit_pass p hs ms cells (min cur len)) (\<lambda>(cells', cur').
           Inr ((found, len) # cells', cur'))
      else rbind (find_longest_cache_hit m p hs cur) (\<lambda>(blocks, n).
           rbind (hit_pass p hs ms cells n) (\<lambda>(cells', cur').
           Inr ((Some blocks, n) # cells', cur'))))"
| "hit_pass p hs _ _ cur = Inr ([], cur)"

text \<open>The \<open>while True\<close> loop: it is repeated only after the length went down.\<close>

function hit_loop ::
  "block_pool \<Rightarrow> block_hash_t list \<Rightarrow> kv_manager list \<Rightarrow> hit_cell list \<Rightarrow> nat \<Rightarrow> (hit_cell list \<times> nat) result" where
  "hit_loop p hs ms cells hit_length =
     rbind (hit_pass p hs ms cells hit_length) (\<lambda>(cells', cur).
       if hit_length \<le> cur then Inr (cells', hit_length)
       else hit_loop p hs ms cells' cur)"
  by auto
termination by (relation "measure (\<lambda>(p, hs, ms, cells, n). n)") auto

declare hit_loop.simps [simp del]

definition trim_cell :: "nat \<Rightarrow> kv_manager \<Rightarrow> hit_cell \<Rightarrow> bref list" where
  "trim_cell num m cell =
     (case fst cell of
        None \<Rightarrow> []
      | Some blocks \<Rightarrow> if is_full_attention (mgr_spec m) then take num blocks else blocks)"

definition co_find_longest_cache_hit ::
  "kv_manager list \<Rightarrow> block_pool \<Rightarrow> block_hash_t list \<Rightarrow> nat \<Rightarrow> (bref list list \<times> nat) result" where
  "co_find_longest_cache_hit ms p hs max_length =
     rbind (hit_loop p hs ms (replicate (length ms) (None, 0)) max_length) (\<lambda>(cells, hit_length).
       case ms of
         [] \<Rightarrow> Inl ValueError
       | m0 # _ \<Rightarrow>
           let num = nat (ceil_div (int hit_length) (mgr_block_size m0))
           in Inr (map2 (trim_cell num) ms cells, hit_length))"

definition co_get_num_blocks_to_allocate ::
  "kv_manager list \<Rightarrow> block_pool \<Rightarrow> string \<Rightarrow> int \<Rightarrow> bref list list \<Rightarrow> int \<Rightarrow> int result" where
  "co_get_num_blocks_to_allocate ms p rid num_toks new_computed total_computed =
     (let per_group = (if new_computed = [] then replicate (length ms) [] else new_computed)
      in if length per_group \<noteq> length ms then Inl ValueError
         else Inr (sum_list (map2 (\<lambda>m bs. get_num_blocks_to_allocate m p rid num_toks bs total_computed)
                               ms per_group)))"

fun co_allocate_new_blocks ::
  "string \<Rightarrow> int \<Rightarrow> kv_manager list \<Rightarrow> block_pool \<Rightarrow> (bref list list \<times> kv_manager list \<times> block_pool) result" where
  "co_allocate_new_blocks rid n [] p = Inr ([], [], p)"
| "co_allocate_new_blocks rid n (m # ms) p =
     rbind (allocate_new_blocks rid n m p) (\<lambda>(new, m', p').
     rbind (co_allocate_new_blocks rid n ms p') (\<lambda>(news, ms', p'').
     Inr (new # news, m' # ms', p'')))"

definition co_get_blocks :: "kv_manager list \<Rightarrow> string \<Rightarrow> bref list list" where
  "co_get_blocks ms rid = map (\<lambda>m. get_blocks m rid) ms"

fun co_adopt_cached_blocks :: "string \<Rightarrow> bref list list \<Rightarrow> kv_manager list \<Rightarrow> kv_manager list result" where
  "co_adopt_cached_blocks rid (bs # bss) (m # ms) =
     rbind (mgr_adopt_cached_blocks rid bs m) (\<lambda>m'.
     rbind (co_adopt_cached_blocks rid bss ms) (\<lambda>ms'. Inr (m' # ms')))"
| "co_adopt_cached_blocks rid [] [] = Inr []"
| "co_adopt_cached_blocks rid _ _ = Inl ValueError"

fun co_pop_blocks_for_free :: "string \<Rightarrow> kv_manager list \<Rightarrow> bref list \<times> kv_manager list" where
  "co_pop_blocks_for_free rid [] = ([], [])"
| "co_pop_blocks_for_free rid (m # ms) =
     (let (bs, m') = mgr_pop_blocks_for_free rid m;
          (rest, ms') = co_pop_blocks_for_free rid ms
      in (bs @ rest, m' # ms'))"

text \<open>A \<open>for\<close> loop over the managers whose body changes the manager and the pool.\<close>

fun each_manager ::
  "(kv_manager \<Rightarrow> block_pool \<Rightarrow> (kv_manager \<times> block_pool) result) \<Rightarrow>
   kv_manager list \<Rightarrow> block_pool \<Rightarrow> (kv_manager list \<times> block_pool) result" where
  "each_manager f [] p = Inr ([], p)"
| "each_manager f (m # ms) p =
     rbind (f m p) (\<lambda>(m', p'). rbind (each_manager f ms p') (\<lambda>(ms', p''). Inr (m' # ms', p'')))"

definition co_remove_skipped_blocks ::
  "string \<Rightarrow> int \<Rightarrow> kv_manager list \<Rightarrow> block_pool \<Rightarrow> (kv_manager list \<times> block_pool) result" where
  "co_remove_skipped_blocks rid n = each_manager (mgr_remove_skipped_blocks rid n)"

definition co_free :: "string \<Rightarrow> kv_manager list \<Rightarrow> block_pool \<Rightarrow> (kv_manager list \<times> block_pool) result" where
  "co_free rid = each_manager (mgr_free rid)"

definition co_get_num_common_prefix_blocks :: "kv_manager list \<Rightarrow> block_pool \<Rightarrow> string \<Rightarrow> int list" where
  "co_get_num_common_prefix_blocks ms p rid = map (\<lambda>m. mgr_num_common_prefix_blocks m p rid) ms"

section \<open>The reconciled hit\<close>

text \<open>
  All groups share the block size \<open>B\<close>. \<open>common_hit\<close>: the longest prefix within \<open>n\<close> blocks that
  every group can serve.
\<close>

definition common_hit :: "kv_manager list \<Rightarrow> block_pool \<Rightarrow> block_hash_t list \<Rightarrow> nat \<Rightarrow> nat \<Rightarrow> bool" where
  "common_hit ms p hs n L \<longleftrightarrow>
     L \<le> n \<and> (\<forall>m\<in>set ms. serves_blocks m p hs L) \<and>
     (\<forall>L'. L < L' \<longrightarrow> L' \<le> n \<longrightarrow> \<not> (\<forall>m\<in>set ms. serves_blocks m p hs L'))"

definition groups_ok :: "block_pool \<Rightarrow> kv_manager list \<Rightarrow> nat \<Rightarrow> bool" where
  "groups_ok p ms B \<longleftrightarrow> 0 < B \<and> (\<forall>m\<in>set ms. mgr_ok p m \<and> nat (mgr_block_size m) = B)"

text \<open>A cell whose lookup is not repeated holds a servable prefix, the longest one below \<open>n\<close>.\<close>

definition cell_inv :: "block_pool \<Rightarrow> block_hash_t list \<Rightarrow> nat \<Rightarrow> nat \<Rightarrow> kv_manager \<Rightarrow> hit_cell \<Rightarrow> bool" where
  "cell_inv p hs B n m cell \<longleftrightarrow> (is_full_attention (mgr_spec m) \<and> fst cell \<noteq> None \<longrightarrow>
     (\<exists>L. cell = (Some (hit_list m p hs L), L * B) \<and> serves_blocks m p hs L \<and>
          (\<forall>L'. serves_blocks m p hs L' \<longrightarrow> L' \<le> n div B \<longrightarrow> L' \<le> L)))"

text \<open>A cell that accepted the length \<open>n\<close>.\<close>

definition cell_at :: "block_pool \<Rightarrow> block_hash_t list \<Rightarrow> nat \<Rightarrow> nat \<Rightarrow> kv_manager \<Rightarrow> hit_cell \<Rightarrow> bool" where
  "cell_at p hs B n m cell \<longleftrightarrow>
     serves_blocks m p hs (n div B) \<and> trim_cell (n div B) m cell = hit_list m p hs (n div B)"

lemma cell_inv_mono: "cell_inv p hs B n m c \<Longrightarrow> n' \<le> n \<Longrightarrow> cell_inv p hs B n' m c"
  unfolding cell_inv_def by (metis div_le_mono le_trans)

lemma hit_pass_spec:
  assumes B: "0 < B"
  shows "groups_ok p ms B \<Longrightarrow> list_all2 (cell_inv p hs B cur) ms cells \<Longrightarrow> cur div B \<le> length hs \<Longrightarrow>
    \<exists>cells' c. hit_pass p hs ms cells cur = Inr (cells', c) \<and> c \<le> cur \<and>
      list_all2 (cell_inv p hs B c) ms cells' \<and>
      (\<forall>L\<le>cur div B. (\<forall>m\<in>set ms. serves_blocks m p hs L) \<longrightarrow> L \<le> c div B) \<and>
      (B dvd cur \<or> (ms \<noteq> [] \<and> fst (hd cells) = None) \<longrightarrow> B dvd c) \<and>
      (c = cur \<longrightarrow> list_all2 (cell_at p hs B c) ms cells')"
proof (induction ms arbitrary: cells cur)
  case Nil
  then show ?case by simp
next
  case (Cons m ms)
  then obtain found len cells1 where cells: "cells = (found, len) # cells1"
    and inv: "cell_inv p hs B cur m (found, len)" and invs: "list_all2 (cell_inv p hs B cur) ms cells1"
    by (auto simp: list_all2_Cons1)
  have gs: "groups_ok p ms B" and m: "mgr_ok p m" "nat (mgr_block_size m) = B"
    using Cons.prems(1) by (auto simp: groups_ok_def)
  show ?case
  proof (cases "is_full_attention (mgr_spec m) \<and> found \<noteq> None")
    case True
    with inv obtain L0 where L0: "found = Some (hit_list m p hs L0)" "len = L0 * B"
      "serves_blocks m p hs L0" "\<And>L'. serves_blocks m p hs L' \<Longrightarrow> L' \<le> cur div B \<Longrightarrow> L' \<le> L0"
      unfolding cell_inv_def fst_conv prod.inject by blast
    let ?n = "min cur len"
    have "list_all2 (cell_inv p hs B ?n) ms cells1"
      using invs by (rule list_all2_mono) (auto intro: cell_inv_mono)
    moreover have "?n div B \<le> length hs"
      using Cons.prems(3) by (meson div_le_mono le_trans min.cobounded1)
    ultimately obtain cells' c where
      P: "hit_pass p hs ms cells1 ?n = Inr (cells', c)" "c \<le> ?n" "list_all2 (cell_inv p hs B c) ms cells'"
        "\<forall>L\<le>?n div B. (\<forall>m\<in>set ms. serves_blocks m p hs L) \<longrightarrow> L \<le> c div B"
        "B dvd ?n \<longrightarrow> B dvd c" "c = ?n \<longrightarrow> list_all2 (cell_at p hs B c) ms cells'"
      using Cons.IH [OF gs, of ?n cells1] by blast
    have "L \<le> c div B" if "L \<le> cur div B" "\<forall>x\<in>set (m # ms). serves_blocks x p hs L" for L
    proof -
      have "L \<le> L0" using L0(4) that by simp
      then have "L \<le> ?n div B" using that(1) B by (simp add: L0(2) min_def)
      then show ?thesis using P(4) that(2) by simp
    qed
    moreover have "cell_at p hs B c m (found, len)" if "c = cur"
      using that P(2) L0 True m B lookup.whole_min [of "(m, p, hs)" L0 c]
      by (auto simp: cell_at_def trim_cell_def)
    moreover have "cell_inv p hs B c m (found, len)" using cell_inv_mono [OF inv] P(2) by simp
    moreover have "B dvd cur \<longrightarrow> B dvd ?n" by (auto simp: L0(2) min_def)
    moreover have "hit_pass p hs (m # ms) cells cur = Inr ((found, len) # cells', c)"
      using P(1) True by (simp add: cells)
    ultimately show ?thesis using P(2,3,5,6) True
      by (intro exI [of _ "(found, len) # cells'"] exI [of _ c])
        (simp add: cells min_def split: if_splits)
  next
    case False
    from lookup.find_result [of "(m, p, hs)" cur] m Cons.prems(3) obtain L where
      F: "find_longest_cache_hit m p hs cur = Inr (hit_list m p hs L, L * B)" "L * B \<le> cur"
        "serves_blocks m p hs L" "\<And>L'. serves_blocks m p hs L' \<Longrightarrow> L' \<le> cur div B \<Longrightarrow> L' \<le> L"
      by auto
    have len: "L * B div B \<le> length hs" using F(2) Cons.prems(3) by (meson div_le_mono le_trans)
    have "list_all2 (cell_inv p hs B (L * B)) ms cells1"
      using invs by (rule list_all2_mono) (use F(2) in \<open>auto intro: cell_inv_mono\<close>)
    from Cons.IH [OF gs this len] obtain cells' c where
      P: "hit_pass p hs ms cells1 (L * B) = Inr (cells', c)" "c \<le> L * B"
        "list_all2 (cell_inv p hs B c) ms cells'"
        "\<forall>L'\<le>L * B div B. (\<forall>m\<in>set ms. serves_blocks m p hs L') \<longrightarrow> L' \<le> c div B"
        "B dvd L * B \<longrightarrow> B dvd c" "c = L * B \<longrightarrow> list_all2 (cell_at p hs B c) ms cells'"
      by blast
    have "c div B \<le> cur div B" using F(2) P(2) by (meson div_le_mono le_trans)
    then have "cell_inv p hs B c m (Some (hit_list m p hs L), L * B)"
      using F(3,4) unfolding cell_inv_def by (metis le_trans)
    moreover have "cell_at p hs B c m (Some (hit_list m p hs L), L * B)" if "c = L * B"
      using that F(3) B by (simp add: cell_at_def trim_cell_def)
    moreover have "L' \<le> c div B" if "L' \<le> cur div B" "\<forall>x\<in>set (m # ms). serves_blocks x p hs L'" for L'
      using that P(4) F(4) B by simp
    moreover have "hit_pass p hs (m # ms) cells cur = Inr ((Some (hit_list m p hs L), L * B) # cells', c)"
      using P(1) F(1) False by (simp only: cells hit_pass.simps(1) if_False rbind_Inr prod.case)
    moreover have "c = cur \<Longrightarrow> c = L * B" and "c \<le> cur" using P(2) F(2) by simp_all
    ultimately show ?thesis using P(3,5,6)
      by (intro exI [of _ "(Some (hit_list m p hs L), L * B) # cells'"] exI [of _ c])
        (auto simp del: hit_pass.simps)
  qed
qed

lemma hit_loop_spec:
  assumes G: "groups_ok p ms B" and ms: "ms \<noteq> []"
  shows "list_all2 (cell_inv p hs B n) ms cells \<Longrightarrow> n div B \<le> length hs \<Longrightarrow>
    B dvd n \<or> fst (hd cells) = None \<Longrightarrow>
    \<exists>cells' L. hit_loop p hs ms cells n = Inr (cells', L * B) \<and>
      common_hit ms p hs (n div B) L \<and> list_all2 (cell_at p hs B (L * B)) ms cells'"
proof (induction n arbitrary: cells rule: less_induct)
  case (less n)
  have B: "0 < B" using G by (simp add: groups_ok_def)
  from hit_pass_spec [OF B G less.prems(1,2)] less.prems(3) ms obtain cells' c where
    P: "hit_pass p hs ms cells n = Inr (cells', c)" "c \<le> n" "list_all2 (cell_inv p hs B c) ms cells'"
      "\<And>L. L \<le> n div B \<Longrightarrow> \<forall>m\<in>set ms. serves_blocks m p hs L \<Longrightarrow> L \<le> c div B"
      "B dvd c" "c = n \<longrightarrow> list_all2 (cell_at p hs B c) ms cells'"
    by blast
  show ?case
  proof (cases "c = n")
    case True
    then have at: "list_all2 (cell_at p hs B n) ms cells'" using P(6) by simp
    obtain L where L: "n = L * B" using P(5) True by (metis dvd_div_mult_self)
    have "\<forall>m\<in>set ms. serves_blocks m p hs L"
      using at B by (auto simp: L cell_at_def list_all2_conv_all_nth in_set_conv_nth)
    then have "common_hit ms p hs (n div B) L"
      using B by (simp add: common_hit_def L)
    then show ?thesis using P(1) True at L
      by (intro exI [of _ cells'] exI [of _ L]) (simp add: hit_loop.simps)
  next
    case False
    then have less_n: "c < n" using P(2) by simp
    have "c div B \<le> length hs" using P(2) less.prems(2) by (meson div_le_mono le_trans)
    from less.IH [OF less_n P(3) this] P(5) obtain cells'' L where
      R: "hit_loop p hs ms cells' c = Inr (cells'', L * B)" "common_hit ms p hs (c div B) L"
        "list_all2 (cell_at p hs B (L * B)) ms cells''" by blast
    have "common_hit ms p hs (n div B) L"
      using R(2) P(4) div_le_mono [OF P(2), of B] unfolding common_hit_def by (meson le_trans)
    moreover have "hit_loop p hs ms cells n = Inr (cells'', L * B)"
      using P(1) R(1) less_n by (simp add: hit_loop.simps [of p hs ms cells n])
    ultimately show ?thesis using R(3) by blast
  qed
qed

lemma map2_at:
  "list_all2 P xs ys \<Longrightarrow> (\<And>x y. P x y \<Longrightarrow> f x y = g x) \<Longrightarrow> map2 f xs ys = map g xs"
  by (induction rule: list_all2_induct) auto

lemma ceil_div_nat: "0 < B \<Longrightarrow> nat (ceil_div (int (L * B)) (int B)) = L"
  by simp

lemma co_find_longest_cache_hit_spec:
  assumes G: "groups_ok p ms B" and ms: "ms \<noteq> []" and n: "max_length div B \<le> length hs"
  shows "\<exists>L. co_find_longest_cache_hit ms p hs max_length =
           Inr (map (\<lambda>m. hit_list m p hs L) ms, L * B) \<and> common_hit ms p hs (max_length div B) L"
proof -
  have B: "0 < B" using G by (simp add: groups_ok_def)
  have "list_all2 (cell_inv p hs B max_length) ms (replicate (length ms) (None, 0))"
    by (simp add: list_all2_conv_all_nth cell_inv_def)
  from hit_loop_spec [OF G ms this n] ms obtain cells L where
    H: "hit_loop p hs ms (replicate (length ms) (None, 0)) max_length = Inr (cells, L * B)"
      "common_hit ms p hs (max_length div B) L" "list_all2 (cell_at p hs B (L * B)) ms cells"
    by (cases ms) auto
  obtain m0 ms' where m0: "ms = m0 # ms'" using ms by (cases ms) auto
  then have bs: "mgr_block_size m0 = int B" using G by (auto simp: groups_ok_def mgr_ok_def)
  have num: "nat (ceil_div (int (L * B)) (mgr_block_size m0)) = L"
    unfolding bs by (rule ceil_div_nat [OF B])
  have "map2 (trim_cell L) ms cells = map (\<lambda>m. hit_list m p hs L) ms"
    using H(3) by (rule map2_at) (use B in \<open>simp add: cell_at_def\<close>)
  then show ?thesis using H(1,2) num
    by (intro exI [of _ L]) (simp add: co_find_longest_cache_hit_def m0 Let_def)
qed

section \<open>Bookkeeping across groups\<close>

definition co_table :: "kv_manager list \<Rightarrow> bref multiset" where
  "co_table ms = sum_list (map mgr_table ms)"

definition co_keys :: "kv_manager list \<Rightarrow> bool" where
  "co_keys ms = list_all mgr_keys ms"

definition co_step :: "string \<Rightarrow> kv_manager list \<Rightarrow> kv_manager list \<Rightarrow> bool" where
  "co_step rid ms ms' = list_all2 (mgr_step rid) ms ms'"

lemma co_table_simps [simp]: "co_table [] = {#}" "co_table (m # ms) = mgr_table m + co_table ms"
  by (simp_all add: co_table_def)

lemma co_keys_simps [simp]: "co_keys []" "co_keys (m # ms) \<longleftrightarrow> mgr_keys m \<and> co_keys ms"
  by (simp_all add: co_keys_def)

lemma co_step_simps [simp]: "co_step rid [] []" "co_step rid (m # ms) (m' # ms') \<longleftrightarrow> mgr_step rid m m' \<and> co_step rid ms ms'"
  by (simp_all add: co_step_def)

lemma co_step_refl: "co_keys ms \<Longrightarrow> co_step rid ms ms"
  by (induction ms) (auto intro: mgr_step_refl)

lemma co_step_trans: "co_step rid ms ms' \<Longrightarrow> co_step rid ms' ms'' \<Longrightarrow> co_step rid ms ms''"
  unfolding co_step_def by (rule list_all2_trans [OF mgr_step_trans])

lemma co_step_keys: "co_step rid ms ms' \<Longrightarrow> co_keys ms'"
  unfolding co_step_def co_keys_def
  by (induction rule: list_all2_induct) (auto simp: mgr_step_def)

lemma co_step_other: "co_step rid ms ms' \<Longrightarrow> r \<noteq> rid \<Longrightarrow> co_get_blocks ms' r = co_get_blocks ms r"
  unfolding co_step_def co_get_blocks_def
  by (induction rule: list_all2_induct) (auto simp: mgr_step_def)

lemma mgr_ok_step: "mgr_ok p m \<Longrightarrow> mgr_step rid m m' \<Longrightarrow> pool_step p p' \<Longrightarrow> mgr_ok p' m'"
  by (simp add: mgr_ok_def mgr_step_def pool_step_def)

lemma groups_ok_step:
  assumes "groups_ok p ms B" "co_step rid ms ms'" "pool_step p p'"
  shows "groups_ok p' ms' B"
proof -
  have "mgr_ok p' m' \<and> nat (mgr_block_size m') = B" if "m' \<in> set ms'" for m'
  proof -
    from that assms(2) obtain m where "m \<in> set ms" "mgr_step rid m m'"
      unfolding co_step_def list_all2_conv_all_nth by (metis in_set_conv_nth)
    with assms(1,3) show ?thesis
      by (auto simp: groups_ok_def mgr_step_def intro: mgr_ok_step)
  qed
  with assms(1) show ?thesis by (simp add: groups_ok_def)
qed

lemma groups_ok_Cons [simp]:
  "groups_ok p (m # ms) B \<longleftrightarrow> mgr_ok p m \<and> nat (mgr_block_size m) = B \<and> groups_ok p ms B"
  by (auto simp: groups_ok_def mgr_ok_def)

lemma groups_ok_pool: "groups_ok p ms B \<Longrightarrow> pool_step p p' \<Longrightarrow> groups_ok p' ms B"
  by (simp add: groups_ok_def mgr_ok_def pool_step_def)

text \<open>A loop over the managers whose body keeps the counts keeps the counts.\<close>

lemma each_manager_holds:
  assumes step: "\<And>M m p. pool_holds p (M + mgr_table m) \<Longrightarrow> mgr_keys m \<Longrightarrow> mgr_ok p m \<Longrightarrow>
    \<exists>m' p'. f m p = Inr (m', p') \<and> pool_holds p' (M + mgr_table m') \<and> mgr_step rid m m' \<and>
      pool_step p p' \<and> Q (null_block p) m m'"
  shows "pool_holds p (M + co_table ms) \<Longrightarrow> co_keys ms \<Longrightarrow> groups_ok p ms B \<Longrightarrow>
    \<exists>ms' p'. each_manager f ms p = Inr (ms', p') \<and> pool_holds p' (M + co_table ms') \<and>
      co_step rid ms ms' \<and> pool_step p p' \<and> list_all2 (Q (null_block p)) ms ms'"
proof (induction ms arbitrary: p M)
  case Nil
  then show ?case by simp
next
  case (Cons m ms)
  have "pool_holds p ((M + co_table ms) + mgr_table m)" using Cons.prems(1) by (simp add: ac_simps)
  from step [OF this] Cons.prems(2,3) obtain m' p' where S: "f m p = Inr (m', p')"
    "pool_holds p' ((M + co_table ms) + mgr_table m')" "mgr_step rid m m'" "pool_step p p'"
    "Q (null_block p) m m'" by auto
  have H: "pool_holds p' ((M + mgr_table m') + co_table ms)" using S(2) by (simp add: ac_simps)
  have G: "groups_ok p' ms B" using Cons.prems(3) S(4) groups_ok_pool by auto
  from Cons.IH [OF H _ G] Cons.prems(2) S(4) obtain ms' p'' where R:
    "each_manager f ms p' = Inr (ms', p'')" "pool_holds p'' ((M + mgr_table m') + co_table ms')"
    "co_step rid ms ms'" "pool_step p' p''" "list_all2 (Q (null_block p)) ms ms'"
    by (auto simp: pool_step_def)
  show ?case using S R pool_step_trans [OF S(4) R(4)]
    by (intro exI [of _ "m' # ms'"] exI [of _ p'']) (simp add: ac_simps)
qed

lemma co_remove_skipped_holds:
  assumes "pool_holds p (M + co_table ms)" "co_keys ms" "groups_ok p ms B"
  shows "\<exists>ms' p'. co_remove_skipped_blocks rid n ms p = Inr (ms', p') \<and>
    pool_holds p' (M + co_table ms') \<and> co_step rid ms ms' \<and> pool_step p p' \<and>
    list_all2 (\<lambda>m m'. let k = skipped_slots m rid n; bs = get_blocks m rid
       in get_blocks m' rid = replicate k (the (null_block p)) @ drop k bs) ms ms'"
  unfolding co_remove_skipped_blocks_def
  using each_manager_holds [where f = "mgr_remove_skipped_blocks rid n" and
      Q = "\<lambda>nb m m'. let k = skipped_slots m rid n; bs = get_blocks m rid
       in get_blocks m' rid = replicate k (the nb) @ drop k bs", OF _ assms]
    mgr_remove_skipped_holds by blast

lemma co_free_holds:
  assumes "pool_holds p (M + co_table ms)" "co_keys ms" "groups_ok p ms B"
  shows "\<exists>ms' p'. co_free rid ms p = Inr (ms', p') \<and>
    pool_holds p' (M + co_table ms') \<and> co_step rid ms ms' \<and> pool_step p p' \<and>
    list_all (\<lambda>m. get_blocks m rid = []) ms'"
proof -
  from each_manager_holds [where f = "mgr_free rid" and Q = "\<lambda>nb m m'. get_blocks m' rid = []",
      OF _ assms] mgr_free_holds
  obtain ms' p' where "each_manager (mgr_free rid) ms p = Inr (ms', p')"
    "pool_holds p' (M + co_table ms')" "co_step rid ms ms'" "pool_step p p'"
    "list_all2 (\<lambda>m m'. get_blocks m' rid = []) ms ms'" by blast
  moreover from this(5) have "list_all (\<lambda>m. get_blocks m rid = []) ms'"
    by (induction rule: list_all2_induct) auto
  ultimately show ?thesis unfolding co_free_def by blast
qed

definition total_shortfall :: "kv_manager list \<Rightarrow> string \<Rightarrow> int \<Rightarrow> int" where
  "total_shortfall ms rid n = sum_list (map (\<lambda>m. shortfall m rid n) ms)"

lemma shortfall_nonneg [simp]: "0 \<le> shortfall m rid n"
  by (simp add: shortfall_def)

lemma total_shortfall_nonneg [simp]: "0 \<le> total_shortfall ms rid n"
  unfolding total_shortfall_def by (rule sum_list_nonneg) auto

text \<open>What allocation adds to the tables of a request.\<close>

definition grown :: "string \<Rightarrow> int \<Rightarrow> kv_manager \<Rightarrow> bref list \<Rightarrow> kv_manager \<Rightarrow> bool" where
  "grown rid n m new m' \<longleftrightarrow>
     get_blocks m' rid = get_blocks m rid @ new \<and> int (length new) = shortfall m rid n \<and>
     n \<le> int (length (get_blocks m' rid)) * mgr_block_size m'"

lemma co_allocate_holds:
  "pool_holds p (M + co_table ms) \<Longrightarrow> co_keys ms \<Longrightarrow> groups_ok p ms B \<Longrightarrow>
   total_shortfall ms rid n \<le> get_num_free_blocks p \<Longrightarrow>
   \<exists>news ms' p'. co_allocate_new_blocks rid n ms p = Inr (news, ms', p') \<and>
     pool_holds p' (M + co_table ms') \<and> co_step rid ms ms' \<and> pool_step p p' \<and>
     length news = length ms \<and> list_all2 (\<lambda>(m, new). grown rid n m new) (zip ms news) ms' \<and>
     get_num_free_blocks p' = get_num_free_blocks p - total_shortfall ms rid n"
proof (induction ms arbitrary: p M)
  case Nil
  then show ?case by (simp add: total_shortfall_def)
next
  case (Cons m ms)
  have tot: "total_shortfall (m # ms) rid n = shortfall m rid n + total_shortfall ms rid n"
    by (simp add: total_shortfall_def)
  have H: "pool_holds p ((M + co_table ms) + mgr_table m)" using Cons.prems(1) by (simp add: ac_simps)
  have fit: "shortfall m rid n \<le> get_num_free_blocks p"
    using Cons.prems(4) total_shortfall_nonneg [of ms rid n] unfolding tot by linarith
  have bs: "0 < mgr_block_size m" "mgr_keys m" using Cons.prems(2,3) by (auto simp: mgr_ok_def)
  from allocate_new_blocks_holds [OF H bs(2) bs(1) fit] obtain new m' p' where
    S: "allocate_new_blocks rid n m p = Inr (new, m', p')"
      "pool_holds p' ((M + co_table ms) + mgr_table m')" "mgr_step rid m m'" "pool_step p p'"
      "get_blocks m' rid = get_blocks m rid @ new" "int (length new) = shortfall m rid n"
      "n \<le> int (length (get_blocks m' rid)) * mgr_block_size m"
      "get_num_free_blocks p' = get_num_free_blocks p - shortfall m rid n" by blast
  have H': "pool_holds p' ((M + mgr_table m') + co_table ms)" using S(2) by (simp add: ac_simps)
  have G: "groups_ok p' ms B" using Cons.prems(3) S(4) groups_ok_pool by auto
  have fit': "total_shortfall ms rid n \<le> get_num_free_blocks p'"
    using Cons.prems(4) S(8) by (simp add: tot)
  from Cons.IH [OF H' _ G fit'] Cons.prems(2) obtain news ms' p'' where R:
    "co_allocate_new_blocks rid n ms p' = Inr (news, ms', p'')"
    "pool_holds p'' ((M + mgr_table m') + co_table ms')" "co_step rid ms ms'" "pool_step p' p''"
    "length news = length ms" "list_all2 (\<lambda>(m, new). grown rid n m new) (zip ms news) ms'"
    "get_num_free_blocks p'' = get_num_free_blocks p' - total_shortfall ms rid n" by auto
  have "grown rid n m new m'"
    using S(3,5-7) by (simp add: grown_def mgr_step_def)
  then show ?case using S R pool_step_trans [OF S(4) R(4)]
    by (intro exI [of _ "new # news"] exI [of _ "m' # ms'"] exI [of _ p''])
      (simp add: tot ac_simps)
qed

text \<open>Adopting a hit, for a request that holds nothing.\<close>

lemma co_adopt:
  assumes "length bss = length ms" "co_keys ms" "\<forall>m\<in>set ms. get_blocks m rid = []"
  shows "co_adopt_cached_blocks rid bss ms = Inr (map2 (set_blocks rid) bss ms)"
    and "co_table (map2 (set_blocks rid) bss ms) = co_table ms + mset (concat bss)"
    and "co_step rid ms (map2 (set_blocks rid) bss ms)"
  using assms by (induction bss ms rule: list_induct2) (auto simp: mgr_adopt ac_simps)

section \<open>The estimate\<close>

text \<open>
  The estimate of a group covers what allocation takes after adoption, and the cached blocks
  that adoption takes out of the free queue, provided the head a group skips lies within its
  table (\<open>fits_head\<close>) and holds no block that is waiting in the free queue.
\<close>

definition free_cached :: "block_pool \<Rightarrow> bref list \<Rightarrow> bref set" where
  "free_cached p bs = {b \<in> set bs. null_block p \<noteq> Some b \<and> ref_cnt (blk p b) = 0}"

definition fits_head :: "block_pool \<Rightarrow> string \<Rightarrow> int \<Rightarrow> kv_manager \<Rightarrow> bref list \<Rightarrow> bool" where
  "fits_head p rid n m bs \<longleftrightarrow>
     (let k = get_num_skipped_tokens (mgr_spec m) n div mgr_block_size m;
          held = int (length (get_blocks m rid))
      in k \<le> int (length bs) + held \<and>
         (\<forall>b\<in>set (take (nat (k - held)) bs). null_block p = Some b))"

lemma estimate_covers:
  assumes inv: "pool_inv p xs" and bs: "\<forall>b\<in>set bs. real_block p b"
    and head: "fits_head p rid n m bs"
  shows "max 0 (ceil_div num_toks (mgr_block_size m) - int (length bs + length (get_blocks m rid))) +
         int (card (free_cached p bs)) \<le> get_num_blocks_to_allocate m p rid num_toks bs n"
proof -
  let ?k = "get_num_skipped_tokens (mgr_spec m) n div mgr_block_size m"
  let ?held = "int (length (get_blocks m rid))"
  let ?d = "drop (nat (max 0 (?k - ?held))) bs"
  have d: "nat (max 0 (?k - ?held)) = nat (?k - ?held)" by simp
  have "b \<in> set ?d" if "b \<in> free_cached p bs" for b
  proof -
    from that have "b \<in> set bs" "null_block p \<noteq> Some b" by (auto simp: free_cached_def)
    moreover have "set bs = set (take (nat (?k - ?held)) bs) \<union> set (drop (nat (?k - ?held)) bs)"
      by (metis append_take_drop_id set_append)
    ultimately show ?thesis using head unfolding d by (auto simp: fits_head_def Let_def)
  qed
  then have "free_cached p bs \<subseteq> set (filter (\<lambda>b. ref_cnt (blk p b) = 0 \<and> \<not> is_null (blk p b)) ?d)"
    using bs null_iff [OF inv] by (auto simp: free_cached_def)
  then have "card (free_cached p bs) \<le> length (filter (\<lambda>b. ref_cnt (blk p b) = 0 \<and> \<not> is_null (blk p b)) ?d)"
    by (meson List.finite_set card_length card_mono le_trans)
  moreover have "?k \<le> int (length bs) + ?held" using head by (simp add: fits_head_def Let_def)
  ultimately show ?thesis
    by (simp add: get_num_blocks_to_allocate_def Let_def max_def)
qed

definition estimates :: "kv_manager list \<Rightarrow> block_pool \<Rightarrow> string \<Rightarrow> int \<Rightarrow> bref list list \<Rightarrow> int \<Rightarrow> int" where
  "estimates ms p rid num_toks bss n =
     sum_list (map2 (\<lambda>m bs. get_num_blocks_to_allocate m p rid num_toks bs n) ms bss)"

lemma co_estimate:
  "length bss = length ms \<Longrightarrow> ms \<noteq> [] \<Longrightarrow>
   co_get_num_blocks_to_allocate ms p rid num_toks bss n = Inr (estimates ms p rid num_toks bss n)"
  by (auto simp: co_get_num_blocks_to_allocate_def estimates_def Let_def)

lemma free_cached_Un: "free_cached p (bs @ cs) = free_cached p bs \<union> free_cached p cs"
  by (auto simp: free_cached_def)

lemma finite_free_cached [simp]: "finite (free_cached p bs)"
  by (simp add: free_cached_def)

text \<open>Over all groups: what adoption takes, and then allocation, is within the estimate.\<close>

lemma estimates_cover:
  assumes inv: "pool_inv p xs" and len: "length bss = length ms"
  shows "list_all2 (fits_head p rid n) ms bss \<Longrightarrow> \<forall>bs\<in>set bss. \<forall>b\<in>set bs. real_block p b \<Longrightarrow>
    (\<forall>m\<in>set ms. get_blocks m rid = []) \<or> (\<forall>bs\<in>set bss. bs = []) \<Longrightarrow>
    ms' = (if \<forall>bs\<in>set bss. bs = [] then ms else map2 (set_blocks rid) bss ms) \<Longrightarrow>
    total_shortfall ms' rid num_toks + int (card (free_cached p (concat bss)))
      \<le> estimates ms p rid num_toks bss n"
proof -
  assume head: "list_all2 (fits_head p rid n) ms bss" and real: "\<forall>bs\<in>set bss. \<forall>b\<in>set bs. real_block p b"
    and fresh: "(\<forall>m\<in>set ms. get_blocks m rid = []) \<or> (\<forall>bs\<in>set bss. bs = [])"
    and ms': "ms' = (if \<forall>bs\<in>set bss. bs = [] then ms else map2 (set_blocks rid) bss ms)"
  let ?need = "\<lambda>m bs. max 0 (ceil_div num_toks (mgr_block_size m) - int (length bs + length (get_blocks m rid)))"
  have sum: "sum_list (map2 ?need ms bss) + int (card (free_cached p (concat bss)))
      \<le> estimates ms p rid num_toks bss n"
    using head real
  proof (induction rule: list_all2_induct)
    case Nil
    then show ?case by (simp add: estimates_def free_cached_def)
  next
    case (Cons m ms bs bss)
    have "?need m bs + int (card (free_cached p bs)) \<le> get_num_blocks_to_allocate m p rid num_toks bs n"
      using Cons by (intro estimate_covers [OF inv]) auto
    moreover have "card (free_cached p (bs @ concat bss)) \<le> card (free_cached p bs) + card (free_cached p (concat bss))"
      unfolding free_cached_Un by (rule card_Un_le)
    ultimately show ?case using Cons by (simp add: estimates_def)
  qed
  have "total_shortfall ms' rid num_toks = sum_list (map2 ?need ms bss)"
  proof (cases "\<forall>bs\<in>set bss. bs = []")
    case True
    then have ms: "ms' = ms" using ms' by simp
    show ?thesis unfolding total_shortfall_def ms using len True
      by (induction bss ms rule: list_induct2) (auto simp: shortfall_def)
  next
    case False
    with fresh have none: "\<forall>m\<in>set ms. get_blocks m rid = []" by auto
    have ms: "ms' = map2 (set_blocks rid) bss ms" using ms' False by simp
    show ?thesis unfolding total_shortfall_def ms using len none
      by (induction bss ms rule: list_induct2) (auto simp: shortfall_def)
  qed
  with sum show ?thesis by simp
qed

end
