(* ===== verification/KVManager.thy ===== *)
theory KVManager
  imports Coordinator
begin

text \<open>
  \<open>pvllm/v1/core/kv_cache_manager.py\<close> and \<open>kv_cache_metrics.py\<close>: the scheduler's view of block
  allocation. The manager owns the pool and the managers of the coordinator, which refer to
  it; the hash function is the parameter of the model.

  \<open>KVCacheBlocks\<close> is a list of block lists, one per group. \<open>allocate_slots\<close> returns \<open>None\<close> when
  the request does not fit, and raises only for calls the scheduler does not make.
\<close>

record prefix_cache_stats =
  queries :: int
  hits :: int
  evictions :: int
  cached_blocks :: int

definition stats_zero :: prefix_cache_stats where
  "stats_zero = \<lparr>queries = 0, hits = 0, evictions = 0, cached_blocks = 0\<rparr>"

definition hit_rate :: "prefix_cache_stats \<Rightarrow> rat" where
  "hit_rate s = (if queries s = 0 then 0 else of_int (hits s) / of_int (queries s))"

record kv_cache_manager =
  kvm_max_model_len :: int
  kvm_block_size :: int
  has_skipping_groups :: bool
  kvm_pool :: block_pool
  kvm_enable_caching :: bool
  single_type_managers :: "kv_manager list"
  kvm_stats :: prefix_cache_stats
  kvm_none_hash :: block_hash_t

text \<open>\<open>KVCacheBlocks\<close>.\<close>

definition blocks_add :: "bref list list \<Rightarrow> bref list list \<Rightarrow> bref list list result" where
  "blocks_add xs ys = (if length xs = length ys then Inr (map2 (@) xs ys) else Inl ValueError)"

definition get_block_ids :: "bref list list \<Rightarrow> bool \<Rightarrow> int list list option" where
  "get_block_ids groups allow_none =
     (if allow_none \<and> list_all (\<lambda>g. g = []) groups then None
      else Some (map (map block_id) groups))"

definition blocks_num :: "bref list list \<Rightarrow> nat" where
  "blocks_num groups = sum_list (map length groups)"

definition kv_cache_manager_init ::
  "hash_fn \<Rightarrow> kv_cache_config \<Rightarrow> int \<Rightarrow> bool \<Rightarrow> bool \<Rightarrow> int \<Rightarrow> kv_cache_manager result" where
  "kv_cache_manager_init H c max_len caching kv_cache_events seed =
     rbind (config_block_size c) (\<lambda>bs.
     let skipping = list_ex (\<lambda>g. is_sliding_window (group_spec g) \<or> is_mamba (group_spec g)) (kv_cache_groups c)
     in rbind (block_pool_init (num_blocks c) caching kv_cache_events skipping) (\<lambda>p.
        rbind (get_kv_cache_coordinator c) (\<lambda>ms.
        Inr \<lparr>kvm_max_model_len = max_len, kvm_block_size = bs, has_skipping_groups = skipping,
             kvm_pool = p, kvm_enable_caching = caching, single_type_managers = ms,
             kvm_stats = stats_zero, kvm_none_hash = compute_none_hash H seed\<rparr>)))"

text \<open>\<open>self.block_hasher\<close>, what the engine attaches to a request.\<close>

definition kvm_block_hasher :: "kv_cache_manager \<Rightarrow> (int \<times> block_hash_t) option" where
  "kvm_block_hasher k = (if kvm_enable_caching k then Some (kvm_block_size k, kvm_none_hash k) else None)"

definition usage :: "kv_cache_manager \<Rightarrow> rat" where
  "usage k = get_usage (kvm_pool k)"

definition empty_blocks :: "kv_cache_manager \<Rightarrow> bref list list" where
  "empty_blocks k = replicate (length (single_type_managers k)) []"

definition get_computed_blocks ::
  "request \<Rightarrow> kv_cache_manager \<Rightarrow> (bref list list \<times> int \<times> kv_cache_manager) result" where
  "get_computed_blocks r k =
     (if \<not> kvm_enable_caching k \<or> 0 < num_computed_tokens r then Inr (empty_blocks k, 0, k)
      else
        let k1 = k\<lparr>kvm_stats := (kvm_stats k)\<lparr>queries := queries (kvm_stats k) + num_tokens r\<rparr>\<rparr>
        in rbind (co_find_longest_cache_hit (single_type_managers k) (kvm_pool k) (block_hashes r)
                    (nat (max 0 (num_tokens r - 1)))) (\<lambda>(per_group, n).
           let k2 = k1\<lparr>kvm_stats := (kvm_stats k1)\<lparr>hits := hits (kvm_stats k1) + int n\<rparr>\<rparr>
           in if n = 0 then Inr (empty_blocks k, 0, k2)
              else Inr (per_group, int n, k2)))"

text \<open>The loop of \<open>_cache_full_blocks\<close> over the groups.\<close>

definition num_already_cached :: "block_pool \<Rightarrow> bref list \<Rightarrow> nat" where
  "num_already_cached p blocks =
     length (takeWhile (\<lambda>b. \<not> (block_hash (blk p b) = None \<and> \<not> is_null (blk p b))) blocks)"

definition cache_group ::
  "block_hash_t list \<Rightarrow> nat \<Rightarrow> int \<times> bref list \<Rightarrow> block_pool \<Rightarrow> block_pool result" where
  "cache_group hashes num_full gb p =
     (case gb of (g, blocks) \<Rightarrow>
        if blocks = [] then Inr p
        else cache_full_blocks hashes blocks (num_already_cached p blocks) num_full g p)"

definition kvm_cache_full_blocks :: "request \<Rightarrow> int \<Rightarrow> kv_cache_manager \<Rightarrow> kv_cache_manager result" where
  "kvm_cache_full_blocks r n k =
     (let num_full = nat (min (n div kvm_block_size k) (int (length (block_hashes r))));
          groups = map (\<lambda>(i, bs). (int i, bs))
                     (enumerate 0 (co_get_blocks (single_type_managers k) (request_id r)))
      in rbind (foldE (cache_group (block_hashes r) num_full) groups (kvm_pool k)) (\<lambda>p.
         Inr (k\<lparr>kvm_pool := p\<rparr>)))"

text \<open>\<open>new_computed_blocks\<close> is \<open>None\<close> when the caller passes none.\<close>

definition per_group_cached :: "bref list list option \<Rightarrow> kv_cache_manager \<Rightarrow> bref list list" where
  "per_group_cached new_computed k =
     (case new_computed of
        None \<Rightarrow> empty_blocks k
      | Some bss \<Rightarrow> if blocks_num bss \<noteq> 0 then bss else empty_blocks k)"

definition allocate_slots ::
  "request \<Rightarrow> int \<Rightarrow> int \<Rightarrow> bref list list option \<Rightarrow> int \<Rightarrow> bool \<Rightarrow> kv_cache_manager \<Rightarrow>
   (bref list list option \<times> kv_cache_manager) result" where
  "allocate_slots r num_new num_new_computed new_computed lookahead delay_cache k =
     (if num_new = 0 then Inl ValueError
      else
        let num_computed = num_computed_tokens r + num_new_computed;
            slots = min (num_computed + num_new + lookahead) (kvm_max_model_len k);
            per_group = per_group_cached new_computed k;
            p = kvm_pool k;
            ms = single_type_managers k;
            rid = request_id r;
            cached = filter (\<lambda>b. \<not> is_null (blk p b)) (concat per_group)
        in rbind (co_get_num_blocks_to_allocate ms p rid slots per_group num_computed) (\<lambda>needed.
           if get_num_free_blocks p < needed then Inr (None, k)
           else
             rbind (if cached \<noteq> []
                    then rbind (touch cached p) (\<lambda>p1.
                         rbind (co_adopt_cached_blocks rid per_group ms) (\<lambda>ms1. Inr (p1, ms1)))
                    else Inr (p, ms)) (\<lambda>(p1, ms1).
             rbind (co_allocate_new_blocks rid slots ms1 p1) (\<lambda>(new_blocks, ms2, p2).
             let k2 = k\<lparr>kvm_pool := p2, single_type_managers := ms2\<rparr>
             in rbind (if kvm_enable_caching k \<and> \<not> delay_cache
                       then kvm_cache_full_blocks r (num_computed + num_new) k2
                       else Inr k2) (\<lambda>k3.
                Inr (Some new_blocks, k3))))))"

definition remove_skipped_blocks :: "request \<Rightarrow> kv_cache_manager \<Rightarrow> kv_cache_manager result" where
  "remove_skipped_blocks r k =
     (if \<not> has_skipping_groups k then Inr k
      else rbind (co_remove_skipped_blocks (request_id r) (num_computed_tokens r)
                    (single_type_managers k) (kvm_pool k)) (\<lambda>(ms, p).
           Inr (k\<lparr>single_type_managers := ms, kvm_pool := p\<rparr>)))"

definition kvm_free :: "request \<Rightarrow> kv_cache_manager \<Rightarrow> kv_cache_manager result" where
  "kvm_free r k =
     rbind (co_free (request_id r) (single_type_managers k) (kvm_pool k)) (\<lambda>(ms, p).
     Inr (k\<lparr>single_type_managers := ms, kvm_pool := p\<rparr>))"

definition kvm_pop_blocks_for_free :: "request \<Rightarrow> kv_cache_manager \<Rightarrow> bref list \<times> kv_cache_manager" where
  "kvm_pop_blocks_for_free r k =
     (let (bs, ms) = co_pop_blocks_for_free (request_id r) (single_type_managers k)
      in (bs, k\<lparr>single_type_managers := ms\<rparr>))"

definition kvm_get_blocks :: "kv_cache_manager \<Rightarrow> string \<Rightarrow> bref list list" where
  "kvm_get_blocks k rid = co_get_blocks (single_type_managers k) rid"

definition get_num_common_prefix_blocks :: "kv_cache_manager \<Rightarrow> string \<Rightarrow> int list" where
  "get_num_common_prefix_blocks k rid =
     co_get_num_common_prefix_blocks (single_type_managers k) (kvm_pool k) rid"

definition reset_prefix_cache :: "kv_cache_manager \<Rightarrow> bool \<times> kv_cache_manager" where
  "reset_prefix_cache k =
     (let (ok, p) = pool_reset_prefix_cache (kvm_pool k)
      in if ok then (True, k\<lparr>kvm_pool := p, kvm_stats := stats_zero\<rparr>)
         else (False, k\<lparr>kvm_pool := p\<rparr>))"

definition make_prefix_cache_stats :: "kv_cache_manager \<Rightarrow> prefix_cache_stats \<times> kv_cache_manager" where
  "make_prefix_cache_stats k =
     (let s = (kvm_stats k)\<lparr>evictions := num_evicted_blocks (kvm_pool k),
                 cached_blocks := int (length (cached_block_hash_to_block (kvm_pool k)))\<rparr>
      in (s, k\<lparr>kvm_stats := s\<rparr>))"

section \<open>The invariant\<close>

text \<open>
  Every block is referenced as often as the block tables contain it; all groups share one
  block size; the index of a manager is the group id it looks blocks up with.
\<close>

definition kvm_inv :: "kv_cache_manager \<Rightarrow> bool" where
  "kvm_inv k \<longleftrightarrow>
     pool_holds (kvm_pool k) (co_table (single_type_managers k)) \<and>
     co_keys (single_type_managers k) \<and> single_type_managers k \<noteq> [] \<and>
     groups_ok (kvm_pool k) (single_type_managers k) (nat (kvm_block_size k)) \<and>
     map kv_cache_group_id (single_type_managers k) = map int [0..<length (single_type_managers k)] \<and>
     (\<not> has_skipping_groups k \<longrightarrow> (\<forall>m\<in>set (single_type_managers k). is_full_attention (mgr_spec m)))"

lemma co_step_ids:
  "co_step rid ms ms' \<Longrightarrow> map kv_cache_group_id ms' = map kv_cache_group_id ms \<and> map mgr_spec ms' = map mgr_spec ms"
  unfolding co_step_def by (induction rule: list_all2_induct) (auto simp: mgr_step_def)

lemma co_step_length: "co_step rid ms ms' \<Longrightarrow> length ms' = length ms"
  by (simp add: co_step_def list_all2_lengthD)

lemma kvm_inv_step:
  assumes "kvm_inv k" and step: "co_step rid (single_type_managers k) ms'" "pool_step (kvm_pool k) p'"
    and hold: "pool_holds p' (co_table ms')"
    and k': "kvm_pool k' = p'" "single_type_managers k' = ms'" "kvm_block_size k' = kvm_block_size k"
      "has_skipping_groups k' = has_skipping_groups k"
  shows "kvm_inv k'"
proof -
  have "\<forall>m\<in>set ms'. is_full_attention (mgr_spec m)" if "\<not> has_skipping_groups k"
  proof -
    have "\<forall>s\<in>set (map mgr_spec (single_type_managers k)). is_full_attention s"
      using assms(1) that by (simp add: kvm_inv_def)
    then have "\<forall>s\<in>set (map mgr_spec ms'). is_full_attention s" using co_step_ids [OF step(1)] by simp
    then show ?thesis by simp
  qed
  then show ?thesis
    using assms(1) hold co_step_keys [OF step(1)] co_step_ids [OF step(1)] co_step_length [OF step(1)]
      groups_ok_step [OF _ step]
    by (auto simp: kvm_inv_def k')
qed

lemma pool_holds_grow:
  "pool_holds p M \<Longrightarrow> pool_inv p' xs \<Longrightarrow> same_config p p' \<Longrightarrow> hash_grows p p' \<Longrightarrow> pool_holds p' M"
  unfolding pool_holds_def using same_config_real [of p p']
  by (auto simp: hash_grows_def same_config_def)

lemma pool_step_config: "same_config p p' \<Longrightarrow> pool_step p p'"
  using same_config_real [of p p'] by (auto simp: pool_step_def same_config_def)

lemma table_member: "m \<in> set ms \<Longrightarrow> b \<in> set (get_blocks m rid) \<Longrightarrow> b \<in># co_table ms"
proof (induction ms)
  case (Cons m' ms)
  have "b \<in># mgr_table m" if "b \<in> set (get_blocks m rid)"
    using that by (cases "map_of (req_to_blocks m) rid")
      (force simp: mgr_table_def get_blocks_def dest: map_of_SomeD)+
  with Cons show ?case by auto
qed simp

lemma cache_group_holds:
  assumes hold: "pool_holds p M" and bs: "\<forall>b\<in>set blocks. real_block p b" and g: "0 \<le> g" "g < 2 ^ 32"
  shows "\<exists>p'. cache_group hashes n (g, blocks) p = Inr p' \<and> pool_holds p' M \<and> pool_step p p' \<and>
    get_num_free_blocks p' = get_num_free_blocks p \<and> hash_grows p p'"
proof (cases "blocks = []")
  case True
  then show ?thesis using hold by (auto simp: cache_group_def)
next
  case False
  from hold obtain xs where xs: "pool_inv p xs" by (auto simp: pool_holds_def)
  from cache_full_blocks_inv [OF xs bs g] obtain p' where
    "cache_full_blocks hashes blocks (num_already_cached p blocks) n g p = Inr p'" "pool_inv p' xs"
    "same_config p p'" "hash_grows p p'" by blast
  then show ?thesis
    using False pool_holds_grow [OF hold] pool_step_config pool_invD(5) [OF xs] pool_invD(5)
    by (auto simp: cache_group_def)
qed

lemma cache_groups_hold:
  assumes hold: "pool_holds p M"
    and gs: "\<forall>(g, blocks)\<in>set groups. 0 \<le> g \<and> g < 2 ^ 32 \<and> (\<forall>b\<in>set blocks. real_block p b)"
  shows "\<exists>p'. foldE (cache_group hashes n) groups p = Inr p' \<and> pool_holds p' M \<and> pool_step p p' \<and>
    get_num_free_blocks p' = get_num_free_blocks p \<and> hash_grows p p'"
proof -
  define I where "I = (\<lambda>(dn :: (int \<times> bref list) list) q. pool_holds q M \<and> pool_step p q \<and>
    get_num_free_blocks q = get_num_free_blocks p \<and> hash_grows p q)"
  have "\<exists>p'. foldE (cache_group hashes n) groups p = Inr p' \<and> I groups p'"
  proof (rule foldE_invariant)
    show "I [] p" using hold by (simp add: I_def)
  next
    fix dn x todo q
    assume split: "groups = dn @ x # todo" and I: "I dn q"
    obtain g blocks where x: "x = (g, blocks)" by (cases x)
    have q: "pool_holds q M" "pool_step p q" "get_num_free_blocks q = get_num_free_blocks p"
      "hash_grows p q" using I by (simp_all add: I_def)
    have "0 \<le> g" "g < 2 ^ 32" "\<forall>b\<in>set blocks. real_block q b"
      using gs split q(2) by (auto simp: x pool_step_def)
    from cache_group_holds [OF q(1) this(3,1,2), of hashes n] q
    show "\<exists>q'. cache_group hashes n x q = Inr q' \<and> I (dn @ [x]) q'"
      unfolding x I_def by (metis pool_step_trans hash_grows_trans)
  qed
  then show ?thesis by (simp add: I_def)
qed

lemma kvm_cache_full_blocks_inv:
  assumes inv: "kvm_inv k"
  shows "\<exists>k'. kvm_cache_full_blocks r n k = Inr k' \<and> kvm_inv k' \<and>
    single_type_managers k' = single_type_managers k \<and> pool_step (kvm_pool k) (kvm_pool k') \<and>
    get_num_free_blocks (kvm_pool k') = get_num_free_blocks (kvm_pool k)"
proof -
  let ?ms = "single_type_managers k" and ?p = "kvm_pool k"
  let ?groups = "map (\<lambda>(i, bs). (int i, bs)) (enumerate 0 (co_get_blocks ?ms (request_id r)))"
  have hold: "pool_holds ?p (co_table ?ms)" using inv by (simp add: kvm_inv_def)
  have "0 \<le> g \<and> g < 2 ^ 32 \<and> (\<forall>b\<in>set blocks. real_block ?p b)" if "(g, blocks) \<in> set ?groups" for g blocks
  proof -
    from that obtain i where i: "i < length ?ms" "g = int i" "blocks = get_blocks (?ms ! i) (request_id r)"
      by (auto simp: co_get_blocks_def in_set_enumerate_eq)
    have "map kv_cache_group_id ?ms ! i = int i" using inv i(1) by (simp add: kvm_inv_def)
    then have "kv_cache_group_id (?ms ! i) = g" using i by simp
    moreover have "mgr_ok ?p (?ms ! i)" using inv i(1) by (auto simp: kvm_inv_def groups_ok_def)
    moreover have "real_block ?p b" if "b \<in> set blocks" for b
      using table_member [OF nth_mem [OF i(1)]] that hold i(3) by (auto simp: pool_holds_def)
    ultimately show ?thesis by (auto simp: mgr_ok_def)
  qed
  then have "\<forall>(g, blocks)\<in>set ?groups. 0 \<le> g \<and> g < 2 ^ 32 \<and> (\<forall>b\<in>set blocks. real_block ?p b)"
    by blast
  from cache_groups_hold [OF hold this] obtain p' where
    F: "foldE (cache_group (block_hashes r) (nat (min (n div kvm_block_size k) (int (length (block_hashes r)))))) ?groups ?p = Inr p'"
    "pool_holds p' (co_table ?ms)" "pool_step ?p p'" "get_num_free_blocks p' = get_num_free_blocks ?p" by blast
  have "co_step (request_id r) ?ms ?ms" using inv by (simp add: kvm_inv_def co_step_refl)
  from kvm_inv_step [OF inv this F(3) F(2), of "k\<lparr>kvm_pool := p'\<rparr>"]
  have "kvm_inv (k\<lparr>kvm_pool := p'\<rparr>)" by simp
  with F show ?thesis by (simp add: kvm_cache_full_blocks_def Let_def)
qed

section \<open>Allocation\<close>

text \<open>What a caller may pass as the cached prefix of a request.\<close>

definition adoptable :: "kv_cache_manager \<Rightarrow> string \<Rightarrow> int \<Rightarrow> bref list list \<Rightarrow> bool" where
  "adoptable k rid n bss \<longleftrightarrow>
     length bss = length (single_type_managers k) \<and>
     (\<forall>b\<in>set (concat bss). real_block (kvm_pool k) b) \<and>
     list_all2 (fits_head (kvm_pool k) rid n) (single_type_managers k) bss \<and>
     ((\<forall>bs\<in>set bss. bs = []) \<or>
      (\<forall>m\<in>set (single_type_managers k). get_blocks m rid = []) \<and>
      (\<exists>b\<in>set (concat bss). null_block (kvm_pool k) \<noteq> Some b))"

text \<open>The pool and the managers after touching and adopting the cached prefix.\<close>

lemma touch_adopt:
  assumes inv: "kvm_inv k" and ad: "adoptable k rid n bss"
  defines "p \<equiv> kvm_pool k" and "ms \<equiv> single_type_managers k"
  defines "cached \<equiv> filter (\<lambda>b. \<not> is_null (blk p b)) (concat bss)"
  shows "\<exists>p1 ms1. (if cached \<noteq> [] then rbind (touch cached p) (\<lambda>p1.
            rbind (co_adopt_cached_blocks rid bss ms) (\<lambda>ms1. Inr (p1, ms1)))
          else Inr (p, ms)) = Inr (p1, ms1) \<and>
      pool_holds p1 (co_table ms1) \<and> co_step rid ms ms1 \<and> pool_step p p1 \<and>
      co_get_blocks ms1 rid = map2 (@) (co_get_blocks ms rid) bss \<and>
      total_shortfall ms1 rid slots \<le>
        get_num_free_blocks p1 - get_num_free_blocks p + estimates ms p rid slots bss n"
proof -
  from inv have hold: "pool_holds p (co_table ms)" and keys: "co_keys ms"
    by (simp_all add: kvm_inv_def p_def ms_def)
  then obtain xs where xs: "pool_inv p xs" by (auto simp: pool_holds_def)
  from ad have len: "length bss = length ms" and real: "\<forall>b\<in>set (concat bss). real_block p b"
    and head: "list_all2 (fits_head p rid n) ms bss"
    by (simp_all add: adoptable_def p_def ms_def)
  have cached: "cached = filter (\<lambda>b. null_block p \<noteq> Some b) (concat bss)"
    unfolding cached_def using real null_iff [OF xs] by (intro filter_cong) auto
  let ?ms1 = "if \<forall>bs\<in>set bss. bs = [] then ms else map2 (set_blocks rid) bss ms"
  have cover: "total_shortfall ?ms1 rid slots + int (card (free_cached p (concat bss)))
      \<le> estimates ms p rid slots bss n"
    using ad real by (intro estimates_cover [OF xs len head]) (auto simp: adoptable_def ms_def)
  show ?thesis
  proof (cases "\<forall>bs\<in>set bss. bs = []")
    case True
    then have "concat bss = []" by simp
    then have "cached = []" unfolding cached by (simp only: filter.simps)
    moreover have "co_get_blocks ms rid = map2 (@) (co_get_blocks ms rid) bss"
      unfolding co_get_blocks_def using len True
      by (induction bss ms rule: list_induct2) auto
    ultimately show ?thesis using hold co_step_refl [OF keys] cover True by auto
  next
    case False
    with ad have none: "\<forall>m\<in>set ms. get_blocks m rid = []"
      and ex: "\<exists>b\<in>set (concat bss). null_block p \<noteq> Some b"
      by (auto simp: adoptable_def ms_def p_def)
    from ex have ne: "cached \<noteq> []" by (auto simp: cached filter_empty_conv)
    note A = co_adopt [OF len keys none]
    have cards: "{b \<in> set (concat bss). null_block p \<noteq> Some b \<and> ref_cnt (blk p b) = 0} =
        free_cached p (concat bss)" by (simp add: free_cached_def)
    from pool.holds_take [OF hold real, unfolded cards] obtain p1 where T: "touch cached p = Inr p1"
      "pool_holds p1 (co_table ms + mset (concat bss))" "real_block p1 = real_block p"
      "null_block p1 = null_block p"
      "get_num_free_blocks p1 = get_num_free_blocks p - int (card (free_cached p (concat bss)))"
      unfolding cached by (metis same_pins)
    have "co_get_blocks (map2 (set_blocks rid) bss ms) rid = map2 (@) (co_get_blocks ms rid) bss"
      unfolding co_get_blocks_def using len none
      by (induction bss ms rule: list_induct2) auto
    moreover have "?ms1 = map2 (set_blocks rid) bss ms" by (rule if_not_P [OF False])
    ultimately show ?thesis using ne T A cover
      by (intro exI [of _ p1] exI [of _ "map2 (set_blocks rid) bss ms"]) (simp add: pool_step_def)
  qed
qed

lemma kvm_update_inv:
  "kvm_inv k \<Longrightarrow> co_step rid (single_type_managers k) ms' \<Longrightarrow> pool_step (kvm_pool k) p' \<Longrightarrow>
   pool_holds p' (co_table ms') \<Longrightarrow> kvm_inv (k\<lparr>kvm_pool := p', single_type_managers := ms'\<rparr>)"
  by (erule kvm_inv_step) simp_all

lemma grown_tables:
  "list_all2 (\<lambda>(m, new). grown rid n m new) (zip ms news) ms' \<Longrightarrow> length news = length ms \<Longrightarrow>
   co_get_blocks ms' rid = map2 (@) (co_get_blocks ms rid) news \<and>
   list_all (\<lambda>m. n \<le> int (length (get_blocks m rid)) * mgr_block_size m) ms' \<and>
   list_all2 (\<lambda>m m'. int (length (get_blocks m' rid)) = max (int (length (get_blocks m rid))) (ceil_div n (mgr_block_size m))) ms ms'"
proof (induction ms arbitrary: news ms')
  case (Cons m ms)
  then obtain new news' where news: "news = new # news'" by (cases news) auto
  with Cons.prems obtain m' ms'' where ms': "ms' = m' # ms''" and g: "grown rid n m new m'"
    and r: "list_all2 (\<lambda>(m, new). grown rid n m new) (zip ms news') ms''"
    by (auto simp: list_all2_Cons1)
  from g have 1: "get_blocks m' rid = get_blocks m rid @ new" "int (length new) = shortfall m rid n"
    "n \<le> int (length (get_blocks m' rid)) * mgr_block_size m'" unfolding grown_def by blast+
  then have "int (length (get_blocks m' rid)) = max (int (length (get_blocks m rid))) (ceil_div n (mgr_block_size m))"
    by (simp add: shortfall_def max_def)
  with 1 Cons.IH [OF r] Cons.prems(2) show ?case
    by (simp add: news ms' co_get_blocks_def del: of_nat_add length_append)
qed (simp add: co_get_blocks_def)

lemma kvm_block_sizes:
  "kvm_inv k \<Longrightarrow> m \<in> set (single_type_managers k) \<Longrightarrow> mgr_block_size m = kvm_block_size k \<and> 0 < kvm_block_size k"
  by (auto simp: kvm_inv_def groups_ok_def mgr_ok_def)

text \<open>The slots of a request: every group has room for \<open>n\<close> tokens.\<close>

definition has_slots :: "kv_cache_manager \<Rightarrow> string \<Rightarrow> int \<Rightarrow> bool" where
  "has_slots k rid n =
     list_all (\<lambda>bs. n \<le> int (length bs) * kvm_block_size k) (kvm_get_blocks k rid)"

definition table_within :: "kv_cache_manager \<Rightarrow> string \<Rightarrow> int \<Rightarrow> bool" where
  "table_within k rid n \<longleftrightarrow> (\<forall>bs\<in>set (kvm_get_blocks k rid). int (length bs) \<le> n)"

lemma allocate_slots_spec:
  fixes nc :: "bref list list option" and r :: request and num_new num_hit lookahead :: int
  assumes inv: "kvm_inv k" and new: "num_new \<noteq> 0"
  defines "bss \<equiv> per_group_cached nc k"
  defines "n \<equiv> num_computed_tokens r + num_hit"
  defines "slots \<equiv> min (n + num_new + lookahead) (kvm_max_model_len k)"
  assumes ad: "adoptable k (request_id r) n bss"
  shows "if get_num_free_blocks (kvm_pool k)
            < estimates (single_type_managers k) (kvm_pool k) (request_id r) slots bss n
         then allocate_slots r num_new num_hit nc lookahead delay k = Inr (None, k)
         else \<exists>news k'. allocate_slots r num_new num_hit nc lookahead delay k = Inr (Some news, k') \<and>
           kvm_inv k' \<and> length news = length (single_type_managers k) \<and>
           kvm_get_blocks k' (request_id r) = map2 (@) (map2 (@) (kvm_get_blocks k (request_id r)) bss) news \<and>
           (\<forall>rid. rid \<noteq> request_id r \<longrightarrow> kvm_get_blocks k' rid = kvm_get_blocks k rid) \<and>
           has_slots k' (request_id r) slots \<and>
           (\<forall>M. (\<forall>bs\<in>set (map2 (@) (kvm_get_blocks k (request_id r)) bss). int (length bs) \<le> M) \<longrightarrow>
              ceil_div slots (kvm_block_size k) \<le> M \<longrightarrow> table_within k' (request_id r) M)"
proof -
  let ?p = "kvm_pool k" and ?ms = "single_type_managers k" and ?rid = "request_id r"
  let ?est = "estimates ?ms ?p ?rid slots bss n"
  have ms: "?ms \<noteq> []" using inv by (simp add: kvm_inv_def)
  have len: "length bss = length ?ms" using ad by (simp add: adoptable_def)
  note est = co_estimate [OF len ms, of ?p ?rid slots n]
  show ?thesis
  proof (cases "get_num_free_blocks ?p < ?est")
    case True
    then show ?thesis using new est unfolding bss_def n_def slots_def
      by (simp add: allocate_slots_def Let_def)
  next
    case False
    from touch_adopt [OF inv ad, of slots] obtain p1 ms1 where T:
      "(if filter (\<lambda>b. \<not> is_null (blk ?p b)) (concat bss) \<noteq> [] then rbind (touch (filter (\<lambda>b. \<not> is_null (blk ?p b)) (concat bss)) ?p) (\<lambda>p1.
            rbind (co_adopt_cached_blocks ?rid bss ?ms) (\<lambda>ms1. Inr (p1, ms1)))
          else Inr (?p, ?ms)) = Inr (p1, ms1)"
      "pool_holds p1 (co_table ms1)" "co_step ?rid ?ms ms1" "pool_step ?p p1"
      "co_get_blocks ms1 ?rid = map2 (@) (co_get_blocks ?ms ?rid) bss"
      "total_shortfall ms1 ?rid slots \<le> get_num_free_blocks p1 - get_num_free_blocks ?p + ?est"
      by blast
    have G: "groups_ok p1 ms1 (nat (kvm_block_size k))"
      using inv groups_ok_step [OF _ T(3,4)] by (simp add: kvm_inv_def)
    have "total_shortfall ms1 ?rid slots \<le> get_num_free_blocks p1" using T(6) False by linarith
    from co_allocate_holds [of p1 "{#}", OF _ co_step_keys [OF T(3)] G this] T(2)
    obtain news ms2 p2 where A: "co_allocate_new_blocks ?rid slots ms1 p1 = Inr (news, ms2, p2)"
      "pool_holds p2 (co_table ms2)" "co_step ?rid ms1 ms2" "pool_step p1 p2" "length news = length ms1"
      "list_all2 (\<lambda>(m, new). grown ?rid slots m new) (zip ms1 news) ms2" by auto
    let ?k2 = "k\<lparr>kvm_pool := p2, single_type_managers := ms2\<rparr>"
    have step: "co_step ?rid ?ms ms2" "pool_step ?p p2"
      using co_step_trans [OF T(3) A(3)] pool_step_trans [OF T(4) A(4)] by auto
    have inv2: "kvm_inv ?k2" by (rule kvm_update_inv [OF inv step A(2)])
    from kvm_cache_full_blocks_inv [OF inv2, of r "n + num_new"] inv2
    have "\<exists>k3. (if kvm_enable_caching k \<and> \<not> delay
                       then kvm_cache_full_blocks r (n + num_new) ?k2 else Inr ?k2) = Inr k3 \<and>
      kvm_inv k3 \<and> single_type_managers k3 = ms2"
      by (cases "kvm_enable_caching k \<and> \<not> delay") auto
    then obtain k3 where K: "(if kvm_enable_caching k \<and> \<not> delay
                       then kvm_cache_full_blocks r (n + num_new) ?k2 else Inr ?k2) = Inr k3"
      "kvm_inv k3" "single_type_managers k3 = ms2"
      by blast
    have run: "allocate_slots r num_new num_hit nc lookahead delay k = Inr (Some news, k3)"
      using new False est T(1) A(1) K(1) unfolding bss_def n_def slots_def
      by (simp add: allocate_slots_def Let_def)
    from grown_tables [OF A(6,5)] have tabs: "co_get_blocks ms2 ?rid = map2 (@) (co_get_blocks ms1 ?rid) news"
      and cov: "list_all (\<lambda>m. slots \<le> int (length (get_blocks m ?rid)) * mgr_block_size m) ms2"
      and lens: "list_all2 (\<lambda>m m'. int (length (get_blocks m' ?rid)) =
        max (int (length (get_blocks m ?rid))) (ceil_div slots (mgr_block_size m))) ms1 ms2"
      by auto
    have "int (length (get_blocks m2 ?rid)) \<le> M"
      if M: "\<forall>bs\<in>set (map2 (@) (kvm_get_blocks k ?rid) bss). int (length bs) \<le> M" "ceil_div slots (kvm_block_size k) \<le> M"
        and m2: "m2 \<in> set ms2" for M m2
    proof -
      from lens m2 obtain m1 where m1: "m1 \<in> set ms1"
        "int (length (get_blocks m2 ?rid)) = max (int (length (get_blocks m1 ?rid))) (ceil_div slots (mgr_block_size m1))"
        unfolding list_all2_conv_all_nth in_set_conv_nth by metis
      have "get_blocks m1 ?rid \<in> set (co_get_blocks ms1 ?rid)" using m1(1) by (simp add: co_get_blocks_def)
      then have "int (length (get_blocks m1 ?rid)) \<le> M" using M(1) unfolding T(5) kvm_get_blocks_def by blast
      moreover have "mgr_block_size m1 = kvm_block_size k" using G m1(1) by (auto simp: groups_ok_def mgr_ok_def)
      ultimately show ?thesis using m1(2) M(2) by simp
    qed
    then have within: "\<forall>M. (\<forall>bs\<in>set (map2 (@) (kvm_get_blocks k ?rid) bss). int (length bs) \<le> M) \<longrightarrow>
        ceil_div slots (kvm_block_size k) \<le> M \<longrightarrow> table_within k3 ?rid M"
      by (simp add: table_within_def kvm_get_blocks_def co_get_blocks_def K(3))
    have "slots \<le> int (length (get_blocks m ?rid)) * kvm_block_size k3" if "m \<in> set ms2" for m
      using cov kvm_block_sizes [OF K(2), of m] that K(3) by (auto simp: list_all_iff)
    then have "has_slots k3 ?rid slots"
      by (simp add: has_slots_def kvm_get_blocks_def co_get_blocks_def K(3) list_all_iff)
    then show ?thesis using run K(2,3) False tabs T(5) A(5) co_step_length [OF T(3)] co_step_other [OF step(1)] within
      by (simp add: kvm_get_blocks_def)
  qed
qed

section \<open>Lookup and allocation together\<close>

lemma map_replicate_empty: "\<forall>bs\<in>set (empty_blocks k). bs = []"
  by (simp add: empty_blocks_def)

text \<open>A request that keeps running: nothing to adopt.\<close>

lemma adoptable_empty:
  assumes inv: "kvm_inv k" and n: "0 \<le> n" and slots: "has_slots k rid n"
  shows "adoptable k rid n (empty_blocks k)"
proof -
  have "fits_head (kvm_pool k) rid n m []" if m: "m \<in> set (single_type_managers k)" for m
  proof -
    have ok: "mgr_ok (kvm_pool k) m" using inv m by (auto simp: kvm_inv_def groups_ok_def)
    have bs: "mgr_block_size m = kvm_block_size k" "0 < kvm_block_size k"
      using kvm_block_sizes [OF inv m] by auto
    have "get_num_skipped_tokens (mgr_spec m) n \<le> n" by (rule skipped_le [OF n ok])
    moreover have "n \<le> int (length (get_blocks m rid)) * kvm_block_size k"
      using slots m by (auto simp: has_slots_def kvm_get_blocks_def co_get_blocks_def list_all_iff)
    ultimately have "\<not> int (length (get_blocks m rid)) + 1 \<le> get_num_skipped_tokens (mgr_spec m) n div kvm_block_size k"
      unfolding le_div_iff_mult_le [OF bs(2)] using bs(2) by (simp add: algebra_simps)
    then show ?thesis by (simp add: fits_head_def Let_def bs(1))
  qed
  then show ?thesis
    by (auto simp: adoptable_def empty_blocks_def list_all2_conv_all_nth)
qed

lemma hit_adoptable:
  assumes inv: "kvm_inv k" and fresh: "\<forall>m\<in>set (single_type_managers k). get_blocks m rid = []"
    and common: "\<forall>m\<in>set (single_type_managers k). serves_blocks m (kvm_pool k) hs L" and L: "0 < L"
  shows "adoptable k rid (int L * kvm_block_size k)
    (map (\<lambda>m. hit_list m (kvm_pool k) hs L) (single_type_managers k))"
proof -
  let ?p = "kvm_pool k" and ?ms = "single_type_managers k"
  have hold: "pool_holds ?p (co_table ?ms)" and ms: "?ms \<noteq> []" using inv by (auto simp: kvm_inv_def)
  have ok: "mgr_ok ?p m" if "m \<in> set ?ms" for m using inv that by (auto simp: kvm_inv_def groups_ok_def)
  note hit = hit_list_blocks [OF hold ok]
  have "fits_head ?p rid (int L * kvm_block_size k) m (hit_list m ?p hs L)" if m: "m \<in> set ?ms" for m
  proof -
    have bs: "mgr_block_size m = kvm_block_size k" using kvm_block_sizes [OF inv m] by simp
    have "nat (get_num_skipped_tokens (mgr_spec m) (int L * mgr_block_size m) div mgr_block_size m) \<le> L"
      using hit_skip [OF ok [OF m], of L] by linarith
    moreover have "get_blocks m rid = []" using fresh m by simp
    ultimately show ?thesis using hit_skipped_null [OF ok [OF m], of _ L hs]
      by (auto simp: fits_head_def Let_def bs nat_le_iff)
  qed
  then have "list_all2 (fits_head ?p rid (int L * kvm_block_size k)) ?ms (map (\<lambda>m. hit_list m ?p hs L) ?ms)"
    by (simp add: list_all2_conv_all_nth)
  moreover have "\<exists>b\<in>set (concat (map (\<lambda>m. hit_list m ?p hs L) ?ms)). null_block ?p \<noteq> Some b"
  proof -
    obtain m where m: "m \<in> set ?ms" using ms by (cases ?ms) auto
    with hit(2) [OF m _ L] common obtain b where "b \<in> set (hit_list m ?p hs L)" "null_block ?p \<noteq> Some b"
      by blast
    with m show ?thesis by auto
  qed
  moreover have "\<forall>b\<in>set (concat (map (\<lambda>m. hit_list m ?p hs L) ?ms)). real_block ?p b"
    using hit(1) common by auto
  ultimately show ?thesis using fresh unfolding adoptable_def by auto
qed

text \<open>The lookup.\<close>

lemma get_computed_blocks_hit:
  assumes inv: "kvm_inv k" and on: "kvm_enable_caching k" and new: "num_computed_tokens r \<le> 0"
    and hs: "(num_tokens r - 1) div kvm_block_size k \<le> int (length (block_hashes r))"
  shows "\<exists>L k'. common_hit (single_type_managers k) (kvm_pool k) (block_hashes r)
             (nat (max 0 (num_tokens r - 1)) div nat (kvm_block_size k)) L \<and>
    get_computed_blocks r k =
      Inr (if L = 0 then empty_blocks k
           else map (\<lambda>m. hit_list m (kvm_pool k) (block_hashes r) L) (single_type_managers k),
           int L * kvm_block_size k, k') \<and>
    k' = k\<lparr>kvm_stats := (kvm_stats k)\<lparr>queries := queries (kvm_stats k) + num_tokens r,
                                    hits := hits (kvm_stats k) + int L * kvm_block_size k\<rparr>\<rparr>"
proof -
  let ?B = "nat (kvm_block_size k)"
  have G: "groups_ok (kvm_pool k) (single_type_managers k) ?B" and ms: "single_type_managers k \<noteq> []"
    using inv by (auto simp: kvm_inv_def)
  then have B: "0 < kvm_block_size k" by (simp add: groups_ok_def)
  have "nat (max 0 (num_tokens r - 1)) div ?B \<le> length (block_hashes r)"
  proof (cases "num_tokens r - 1 \<le> 0")
    case False
    then show ?thesis using hs by (simp flip: nat_div_distrib add: nat_le_iff)
  qed simp
  from co_find_longest_cache_hit_spec [OF G ms this] obtain L where
    L: "co_find_longest_cache_hit (single_type_managers k) (kvm_pool k) (block_hashes r)
          (nat (max 0 (num_tokens r - 1))) =
        Inr (map (\<lambda>m. hit_list m (kvm_pool k) (block_hashes r) L) (single_type_managers k), L * ?B)"
      "common_hit (single_type_managers k) (kvm_pool k) (block_hashes r) (nat (max 0 (num_tokens r - 1)) div ?B) L"
    by blast
  have LB: "int (L * ?B) = int L * kvm_block_size k" using B by simp
  show ?thesis
    by (rule exI [of _ L], rule exI, rule conjI [OF L(2)], rule conjI [OF _ refl])
      (use new on B L(1) LB in \<open>simp add: get_computed_blocks_def Let_def del: of_nat_mult\<close>)
qed

section \<open>Release, reset, construction\<close>

lemma kvm_free_inv:
  assumes inv: "kvm_inv k"
  shows "\<exists>k'. kvm_free r k = Inr k' \<and> kvm_inv k' \<and>
    list_all (\<lambda>bs. bs = []) (kvm_get_blocks k' (request_id r)) \<and>
    (\<forall>rid. rid \<noteq> request_id r \<longrightarrow> kvm_get_blocks k' rid = kvm_get_blocks k rid) \<and>
    kvm_block_size k' = kvm_block_size k \<and> has_skipping_groups k' = has_skipping_groups k \<and>
    kvm_max_model_len k' = kvm_max_model_len k"
proof -
  have "pool_holds (kvm_pool k) ({#} + co_table (single_type_managers k))"
    "co_keys (single_type_managers k)"
    "groups_ok (kvm_pool k) (single_type_managers k) (nat (kvm_block_size k))"
    using inv by (simp_all add: kvm_inv_def)
  from co_free_holds [OF this, of "request_id r"] obtain ms' p' where
    F: "co_free (request_id r) (single_type_managers k) (kvm_pool k) = Inr (ms', p')"
      "pool_holds p' (co_table ms')" "co_step (request_id r) (single_type_managers k) ms'"
      "pool_step (kvm_pool k) p'" "list_all (\<lambda>m. get_blocks m (request_id r) = []) ms'" by auto
  have "kvm_inv (k\<lparr>single_type_managers := ms', kvm_pool := p'\<rparr>)"
    by (rule kvm_inv_step [OF inv F(3,4,2)]) simp_all
  with F(1,5) co_step_other [OF F(3)] show ?thesis
    by (auto simp: kvm_free_def kvm_get_blocks_def co_get_blocks_def list_all_iff)
qed

lemma remove_skipped_blocks_inv:
  assumes inv: "kvm_inv k"
  shows "\<exists>k'. remove_skipped_blocks r k = Inr k' \<and> kvm_inv k' \<and>
    list_all2 (\<lambda>m m'. let j = skipped_slots m (request_id r) (num_computed_tokens r);
         bs = get_blocks m (request_id r)
       in get_blocks m' (request_id r) = replicate j (the (null_block (kvm_pool k))) @ drop j bs)
      (single_type_managers k) (single_type_managers k') \<and>
    (\<forall>rid. rid \<noteq> request_id r \<longrightarrow> kvm_get_blocks k' rid = kvm_get_blocks k rid) \<and>
    kvm_block_size k' = kvm_block_size k"
proof (cases "has_skipping_groups k")
  case False
  have "skipped_slots m rid n = 0" if "m \<in> set (single_type_managers k)" for m rid n
  proof -
    have "is_full_attention (mgr_spec m)" using inv False that by (auto simp: kvm_inv_def)
    then show ?thesis by (cases "mgr_spec m") (simp_all add: skipped_slots_def)
  qed
  then show ?thesis using False inv
    by (auto simp: remove_skipped_blocks_def list_all2_conv_all_nth Let_def)
next
  case True
  have "pool_holds (kvm_pool k) ({#} + co_table (single_type_managers k))"
    "co_keys (single_type_managers k)"
    "groups_ok (kvm_pool k) (single_type_managers k) (nat (kvm_block_size k))"
    using inv by (simp_all add: kvm_inv_def)
  from co_remove_skipped_holds [OF this, of "request_id r" "num_computed_tokens r"] obtain ms' p' where
    F: "co_remove_skipped_blocks (request_id r) (num_computed_tokens r) (single_type_managers k) (kvm_pool k) = Inr (ms', p')"
      "pool_holds p' (co_table ms')" "co_step (request_id r) (single_type_managers k) ms'"
      "pool_step (kvm_pool k) p'"
      "list_all2 (\<lambda>m m'. let j = skipped_slots m (request_id r) (num_computed_tokens r);
         bs = get_blocks m (request_id r)
       in get_blocks m' (request_id r) = replicate j (the (null_block (kvm_pool k))) @ drop j bs)
        (single_type_managers k) ms'" by auto
  have "kvm_inv (k\<lparr>single_type_managers := ms', kvm_pool := p'\<rparr>)"
    by (rule kvm_inv_step [OF inv F(3,4,2)]) simp_all
  with F(1,5) co_step_other [OF F(3)] True show ?thesis
    by (auto simp: remove_skipped_blocks_def kvm_get_blocks_def)
qed

text \<open>Shedding keeps the length of every table, so the slots of the request stay.\<close>

lemma remove_skipped_slots:
  assumes "kvm_inv k" "remove_skipped_blocks r k = Inr k'" "has_slots k rid n"
  shows "has_slots k' rid n"
proof -
  from remove_skipped_blocks_inv [OF assms(1), of r] assms(2) have
    L: "list_all2 (\<lambda>m m'. let j = skipped_slots m (request_id r) (num_computed_tokens r);
         bs = get_blocks m (request_id r)
       in get_blocks m' (request_id r) = replicate j (the (null_block (kvm_pool k))) @ drop j bs)
      (single_type_managers k) (single_type_managers k')"
    and others: "rid \<noteq> request_id r \<Longrightarrow> kvm_get_blocks k' rid = kvm_get_blocks k rid"
    and bs: "kvm_block_size k' = kvm_block_size k" by auto
  have "map length (kvm_get_blocks k' (request_id r)) = map length (kvm_get_blocks k (request_id r))"
    unfolding kvm_get_blocks_def co_get_blocks_def using L
    by (induction rule: list_all2_induct) (auto simp: Let_def skipped_slots_def)
  then have "map length (kvm_get_blocks k' rid) = map length (kvm_get_blocks k rid)"
    using others by (cases "rid = request_id r") auto
  moreover have "has_slots j rid n \<longleftrightarrow> (\<forall>l\<in>set (map length (kvm_get_blocks j rid)). n \<le> int l * kvm_block_size j)" for j
    by (simp add: has_slots_def list_all_iff)
  ultimately show ?thesis using assms(3) bs by metis
qed

lemma table_empty_iff: "co_table ms = {#} \<longleftrightarrow> (\<forall>m\<in>set ms. \<forall>(r, bs)\<in>set (req_to_blocks m). bs = [])"
  by (induction ms) (auto simp: mgr_table_def)

text \<open>With no entries in any table the whole pool is free, and the prefix cache can be reset.\<close>

lemma idle_pool_free:
  assumes inv: "kvm_inv k" and idle: "co_table (single_type_managers k) = {#}"
  shows "get_num_free_blocks (kvm_pool k) = num_usable_blocks (kvm_pool k)"
    and "usage k = 0"
    and "fst (reset_prefix_cache k)"
proof -
  from inv idle have hold: "pool_holds (kvm_pool k) {#}" by (simp add: kvm_inv_def)
  then obtain xs where xs: "pool_inv (kvm_pool k) xs" by (auto simp: pool_holds_def)
  have zero: "\<forall>b. real_block (kvm_pool k) b \<and> null_block (kvm_pool k) \<noteq> Some b \<longrightarrow> ref_cnt (blk (kvm_pool k) b) = 0"
    using pool.holds_empty [OF hold] by blast
  then show all: "get_num_free_blocks (kvm_pool k) = num_usable_blocks (kvm_pool k)"
    using free_le_usable(2) [OF xs] pool_invD(5) [OF xs] by simp
  then show "usage k = 0"
    using usable_pos [OF pool_invD(1) [OF xs]] by (simp add: usage_def get_usage_def)
  show "fst (reset_prefix_cache k)"
    using reset_inv(1) [OF xs] zero by (simp add: reset_prefix_cache_def split: prod.split)
      (metis fst_conv)
qed

text \<open>The specs of a configuration the coordinator can work with.\<close>

definition spec_ok :: "int \<Rightarrow> kv_spec \<Rightarrow> bool" where
  "spec_ok B s \<longleftrightarrow> block_size s = B \<and> (case spec_window s of None \<Rightarrow> True | Some w \<Rightarrow> 1 \<le> w)"

lemma kv_cache_manager_init_inv:
  assumes init: "kv_cache_manager_init H c max_len caching kv_events seed = Inr k"
    and B: "0 < B" and specs: "\<forall>g\<in>set (kv_cache_groups c). spec_ok B (group_spec g)"
    and few: "length (kv_cache_groups c) < 2 ^ 32"
  shows "kvm_inv k" and "co_table (single_type_managers k) = {#}" and "kvm_block_size k = B"
    and "kvm_get_blocks k rid = replicate (length (kv_cache_groups c)) []"
proof -
  let ?sk = "list_ex (\<lambda>g. is_sliding_window (group_spec g) \<or> is_mamba (group_spec g)) (kv_cache_groups c)"
  let ?ms = "map (\<lambda>(i, g). get_manager_for_kv_cache_spec (group_spec g) (int i)) (enumerate 0 (kv_cache_groups c))"
  from init obtain bs p ms where I: "config_block_size c = Inr bs"
    "block_pool_init (num_blocks c) caching kv_events ?sk = Inr p" "get_kv_cache_coordinator c = Inr ms"
    "k = \<lparr>kvm_max_model_len = max_len, kvm_block_size = bs, has_skipping_groups = ?sk,
             kvm_pool = p, kvm_enable_caching = caching, single_type_managers = ms,
             kvm_stats = stats_zero, kvm_none_hash = compute_none_hash H seed\<rparr>"
    by (auto simp: kv_cache_manager_init_def Let_def rbind_eq_Inr_iff)
  from I(3) have ms: "ms = ?ms" "kv_cache_groups c \<noteq> []"
    by (auto simp: get_kv_cache_coordinator_def split: if_splits)
  from I(1) specs have bs: "bs = B"
    by (auto simp: config_block_size_def spec_ok_def split: list.splits)
  note P = block_pool_init_inv [OF I(2)]
  have nthm: "ms ! i = get_manager_for_kv_cache_spec (group_spec (kv_cache_groups c ! i)) (int i)"
    if "i < length (kv_cache_groups c)" for i using that by (simp add: ms nth_enumerate_eq)
  have len: "length ms = length (kv_cache_groups c)" by (simp add: ms)
  have el: "\<exists>i g. i < length (kv_cache_groups c) \<and> g \<in> set (kv_cache_groups c) \<and>
      m = get_manager_for_kv_cache_spec (group_spec g) (int i)" if "m \<in> set ms" for m
    using that nthm len by (metis in_set_conv_nth)
  have tab: "co_table ms' = {#}" if "\<forall>m\<in>set ms'. req_to_blocks m = []" for ms'
    using that by (auto simp: table_empty_iff)
  have empty: "\<forall>m\<in>set ms. req_to_blocks m = []"
    using el by (fastforce simp: get_manager_for_kv_cache_spec_def)
  show t: "co_table (single_type_managers k) = {#}" using tab [OF empty] I(4) by simp
  show "kvm_block_size k = B" using I(4) bs by simp
  show "kvm_get_blocks k rid = replicate (length (kv_cache_groups c)) []"
    using empty I(4) len
    by (auto simp: kvm_get_blocks_def co_get_blocks_def get_blocks_def intro!: nth_equalityI)
  have null: "null_block p \<noteq> None" if "g \<in> set (kv_cache_groups c)" "\<not> is_full_attention (group_spec g)" for g
  proof -
    have "is_sliding_window (group_spec g) \<or> is_mamba (group_spec g)"
      using that(2) by (cases "group_spec g") auto
    then show ?thesis using P(5) that(1) by (auto simp: list_ex_iff)
  qed
  have "ref_cnt (blk p b) = 0" if b: "real_block p b" "null_block p \<noteq> Some b" for b
  proof -
    obtain i where i: "b = Blk i" "int i < num_blocks c" using b(1) P(3) by (auto simp: real_block_iff)
    then have "b \<in> set (map Blk [(if ?sk then 1 else 0)..<nat (num_blocks c)])"
      using b(2) P(5) by (cases ?sk) (auto simp: Suc_le_eq zless_nat_conj)
    then show ?thesis using pool_invD(3) [OF P(1)] by blast
  qed
  then have hold: "pool_holds p {#}" using P(1) by (auto simp: pool_holds_def)
  have oks: "groups_ok p ms (nat B)"
  proof -
    have "mgr_ok p m \<and> nat (mgr_block_size m) = nat B" if m: "m \<in> set ms" for m
    proof -
      from el [OF m] obtain i g where "i < length (kv_cache_groups c)" "g \<in> set (kv_cache_groups c)"
        "m = get_manager_for_kv_cache_spec (group_spec g) (int i)" by blast
      then show ?thesis using specs B few null [of g]
        by (auto simp: mgr_ok_def get_manager_for_kv_cache_spec_def spec_ok_def split: option.splits)
    qed
    then show ?thesis using B by (simp add: groups_ok_def)
  qed
  have ids: "map kv_cache_group_id ms = map int [0..<length ms]"
    by (rule nth_equalityI) (auto simp: len nthm get_manager_for_kv_cache_spec_def)
  have full: "is_full_attention (mgr_spec m)" if "\<not> ?sk" "m \<in> set ms" for m
  proof -
    from el [OF that(2)] obtain g where g: "g \<in> set (kv_cache_groups c)" "mgr_spec m = group_spec g"
      by (auto simp: get_manager_for_kv_cache_spec_def)
    then show ?thesis using that(1) by (cases "group_spec g") (auto simp: list_ex_iff)
  qed
  show "kvm_inv k"
    unfolding kvm_inv_def I(4) bs using hold tab [OF empty] oks ids full ms(2) len empty
    by (auto simp: co_keys_def mgr_keys_def list_all_iff)
qed

section \<open>What the scheduler relies on\<close>

text \<open>The fields no operation changes.\<close>

definition kvm_conf :: "kv_cache_manager \<Rightarrow> int \<times> int \<times> bool \<times> block_hash_t" where
  "kvm_conf k = (kvm_block_size k, kvm_max_model_len k, kvm_enable_caching k, kvm_none_hash k)"

lemma kvm_conf_eq:
  "kvm_conf k' = kvm_conf k \<longleftrightarrow> kvm_block_size k' = kvm_block_size k \<and> kvm_max_model_len k' = kvm_max_model_len k \<and>
     kvm_enable_caching k' = kvm_enable_caching k \<and> kvm_none_hash k' = kvm_none_hash k"
  by (simp add: kvm_conf_def)

lemma kvm_conf_update [simp]:
  "kvm_conf (k\<lparr>kvm_pool := p\<rparr>) = kvm_conf k" "kvm_conf (k\<lparr>single_type_managers := ms\<rparr>) = kvm_conf k"
  "kvm_conf (k\<lparr>kvm_stats := s\<rparr>) = kvm_conf k"
  by (simp_all add: kvm_conf_def)

lemma allocate_slots_conf: "allocate_slots r n h nc l d k = Inr (res, k') \<Longrightarrow> kvm_conf k' = kvm_conf k"
  by (auto simp: allocate_slots_def kvm_cache_full_blocks_def Let_def rbind_eq_Inr_iff split: if_splits)

lemma kvm_free_conf: "kvm_free r k = Inr k' \<Longrightarrow> kvm_conf k' = kvm_conf k"
  by (auto simp: kvm_free_def rbind_eq_Inr_iff)

lemma remove_skipped_conf: "remove_skipped_blocks r k = Inr k' \<Longrightarrow> kvm_conf k' = kvm_conf k"
  by (auto simp: remove_skipped_blocks_def rbind_eq_Inr_iff split: if_splits)

lemma get_computed_conf: "get_computed_blocks r k = Inr (bss, n, k') \<Longrightarrow> kvm_conf k' = kvm_conf k"
  by (auto simp: get_computed_blocks_def Let_def rbind_eq_Inr_iff split: if_splits)

definition holds_none :: "kv_cache_manager \<Rightarrow> string \<Rightarrow> bool" where
  "holds_none k rid \<longleftrightarrow> (\<forall>bs\<in>set (kvm_get_blocks k rid). bs = [])"

lemma holds_none_managers: "holds_none k rid \<longleftrightarrow> (\<forall>m\<in>set (single_type_managers k). get_blocks m rid = [])"
  by (auto simp: holds_none_def kvm_get_blocks_def co_get_blocks_def)

lemma blocks_cong:
  assumes "kvm_get_blocks k' rid = kvm_get_blocks k rid" and "kvm_conf k' = kvm_conf k"
  shows "holds_none k' rid = holds_none k rid" and "has_slots k' rid n = has_slots k rid n"
  using assms by (simp_all add: holds_none_def has_slots_def kvm_conf_eq)

lemma has_slots_mono: "has_slots k rid n \<Longrightarrow> m \<le> n \<Longrightarrow> has_slots k rid m"
  by (auto simp: has_slots_def list_all_iff)

lemma holds_none_slots: "holds_none k rid \<Longrightarrow> kvm_inv k \<Longrightarrow> has_slots k rid 0"
  by (auto simp: has_slots_def list_all_iff holds_none_def kvm_inv_def groups_ok_def)

text \<open>Slots behind a prefix that may be adopted: given, or nothing happens.\<close>

lemma allocate_adopting:
  assumes inv: "kvm_inv k" and n: "n \<noteq> 0"
    and ad: "adoptable k (request_id r) (num_computed_tokens r + h) (per_group_cached nc k)"
  shows "\<exists>res k'. allocate_slots r n h nc 0 delay k = Inr (res, k') \<and> kvm_inv k' \<and> kvm_conf k' = kvm_conf k \<and>
    (\<forall>rid. rid \<noteq> request_id r \<longrightarrow> kvm_get_blocks k' rid = kvm_get_blocks k rid) \<and>
    (res = None \<longrightarrow> k' = k) \<and>
    (\<forall>news. res = Some news \<longrightarrow>
       has_slots k' (request_id r) (min (num_computed_tokens r + h + n) (kvm_max_model_len k)) \<and>
       kvm_get_blocks k' (request_id r) =
         map2 (@) (map2 (@) (kvm_get_blocks k (request_id r)) (per_group_cached nc k)) news \<and>
       length news = length (single_type_managers k) \<and>
       (\<forall>M. (\<forall>bs\<in>set (map2 (@) (kvm_get_blocks k (request_id r)) (per_group_cached nc k)). int (length bs) \<le> M) \<longrightarrow>
          ceil_div (min (num_computed_tokens r + h + n) (kvm_max_model_len k)) (kvm_block_size k) \<le> M \<longrightarrow>
          table_within k' (request_id r) M))"
proof -
  note spec = allocate_slots_spec [OF inv n ad, of 0 delay]
  show ?thesis
  proof (cases "allocate_slots r n h nc 0 delay k")
    case (Inl e)
    with spec show ?thesis by (auto split: if_splits)
  next
    case (Inr a)
    obtain res k' where a: "a = (res, k')" by force
    with Inr allocate_slots_conf have "kvm_conf k' = kvm_conf k" by blast
    then show ?thesis using spec Inr a inv by (auto split: if_splits)
  qed
qed

lemma allocate_running:
  assumes inv: "kvm_inv k" and n: "n \<noteq> 0" and c: "0 \<le> num_computed_tokens r"
    and slots: "has_slots k (request_id r) (num_computed_tokens r)"
  shows "\<exists>res k'. allocate_slots r n 0 None 0 False k = Inr (res, k') \<and> kvm_inv k' \<and> kvm_conf k' = kvm_conf k \<and>
    (\<forall>rid. rid \<noteq> request_id r \<longrightarrow> kvm_get_blocks k' rid = kvm_get_blocks k rid) \<and>
    (res = None \<longrightarrow> k' = k) \<and>
    (res \<noteq> None \<longrightarrow> has_slots k' (request_id r) (min (num_computed_tokens r + n) (kvm_max_model_len k)))"
proof -
  have none: "per_group_cached None k = empty_blocks k" by (simp add: per_group_cached_def)
  have "adoptable k (request_id r) (num_computed_tokens r + 0) (per_group_cached None k)"
    unfolding none using adoptable_empty [OF inv c slots] by simp
  from allocate_adopting [OF inv n this, of False] show ?thesis by fastforce
qed

lemma free_holds:
  assumes "kvm_inv k"
  shows "\<exists>k'. kvm_free r k = Inr k' \<and> kvm_inv k' \<and> kvm_conf k' = kvm_conf k \<and> holds_none k' (request_id r) \<and>
    (\<forall>rid. rid \<noteq> request_id r \<longrightarrow> kvm_get_blocks k' rid = kvm_get_blocks k rid)"
  using kvm_free_inv [OF assms, of r] kvm_free_conf by (fastforce simp: holds_none_def list_all_iff)

lemma shed_holds:
  assumes "kvm_inv k"
  shows "\<exists>k'. remove_skipped_blocks r k = Inr k' \<and> kvm_inv k' \<and> kvm_conf k' = kvm_conf k \<and>
    (\<forall>n. has_slots k (request_id r) n \<longrightarrow> has_slots k' (request_id r) n) \<and>
    (\<forall>rid. rid \<noteq> request_id r \<longrightarrow> kvm_get_blocks k' rid = kvm_get_blocks k rid)"
  using remove_skipped_blocks_inv [OF assms, of r] remove_skipped_conf remove_skipped_slots [OF assms] by metis

text \<open>A waiting request is looked up and given slots behind the blocks found.\<close>

lemma lookup_waiting:
  assumes inv: "kvm_inv k" and new: "num_computed_tokens r = 0" and pos: "0 < num_tokens r"
    and hs: "kvm_enable_caching k \<Longrightarrow> (num_tokens r - 1) div kvm_block_size k \<le> int (length (block_hashes r))"
    and fresh: "holds_none k (request_id r)"
  shows "\<exists>bss hit k1. get_computed_blocks r k = Inr (bss, hit, k1) \<and> kvm_inv k1 \<and> kvm_conf k1 = kvm_conf k \<and>
    (\<forall>rid. kvm_get_blocks k1 rid = kvm_get_blocks k rid) \<and> 0 \<le> hit \<and> hit < num_tokens r \<and>
    length bss = length (single_type_managers k) \<and>
    per_group_cached (Some bss) k1 = bss \<and> adoptable k1 (request_id r) hit bss \<and>
    (\<forall>bs\<in>set bss. int (length bs) * kvm_block_size k \<le> hit)"
proof (cases "kvm_enable_caching k")
  case False
  have "adoptable k (request_id r) 0 (empty_blocks k)"
    using adoptable_empty [OF inv _ holds_none_slots [OF fresh inv]] by simp
  moreover have "get_computed_blocks r k = Inr (empty_blocks k, 0, k)" using False by (simp add: get_computed_blocks_def)
  moreover have "per_group_cached (Some (empty_blocks k)) k = empty_blocks k" by (simp add: per_group_cached_def)
  ultimately show ?thesis using inv pos by (simp add: empty_blocks_def)
next
  case on: True
  have "num_computed_tokens r \<le> 0" using new by simp
  from get_computed_blocks_hit [OF inv on this hs [OF on]] obtain L k1 where L:
    "common_hit (single_type_managers k) (kvm_pool k) (block_hashes r) (nat (max 0 (num_tokens r - 1)) div nat (kvm_block_size k)) L"
    "get_computed_blocks r k = Inr (if L = 0 then empty_blocks k
           else map (\<lambda>m. hit_list m (kvm_pool k) (block_hashes r) L) (single_type_managers k),
           int L * kvm_block_size k, k1)"
    "k1 = k\<lparr>kvm_stats := (kvm_stats k)\<lparr>queries := queries (kvm_stats k) + num_tokens r,
                                    hits := hits (kvm_stats k) + int L * kvm_block_size k\<rparr>\<rparr>" by blast
  let ?bss = "if L = 0 then empty_blocks k else map (\<lambda>m. hit_list m (kvm_pool k) (block_hashes r) L) (single_type_managers k)"
  let ?rid = "request_id r" and ?B = "kvm_block_size k"
  have B: "0 < ?B" using inv by (simp add: kvm_inv_def groups_ok_def)
  have ad: "adoptable k ?rid (int L * ?B) ?bss"
  proof (cases "L = 0")
    case True
    then show ?thesis using adoptable_empty [OF inv _ holds_none_slots [OF fresh inv]] by simp
  next
    case False
    then show ?thesis using hit_adoptable [OF inv fresh [unfolded holds_none_managers], of "block_hashes r" L] L(1)
      by (simp add: common_hit_def)
  qed
  have cached: "per_group_cached (Some ?bss) k1 = ?bss"
  proof (cases "L = 0")
    case True
    then show ?thesis using L(3) by (simp add: per_group_cached_def empty_blocks_def)
  next
    case False
    obtain m where "m \<in> set (single_type_managers k)"
      using inv by (metis kvm_inv_def list.set_intros(1) neq_Nil_conv)
    then have "blocks_num ?bss \<noteq> 0" using False length_hit_list [of m] by (auto simp: blocks_num_def)
    then show ?thesis by (simp add: per_group_cached_def)
  qed
  have "nat (max 0 (num_tokens r - 1)) div nat ?B = nat ((num_tokens r - 1) div ?B)"
    using pos B by (simp add: nat_div_distrib max_def)
  then have "int L \<le> (num_tokens r - 1) div ?B"
    using L(1) pos B by (simp add: common_hit_def le_nat_iff pos_imp_zdiv_nonneg_iff)
  then have "int L * ?B \<le> num_tokens r - 1" using le_div_iff_mult_le [OF B] by simp
  moreover have "kvm_inv k1" using inv L(3) by (simp add: kvm_inv_def)
  moreover have "adoptable k1 ?rid (int L * ?B) ?bss" using ad L(3) by (simp add: adoptable_def)
  moreover have "\<forall>rid. kvm_get_blocks k1 rid = kvm_get_blocks k rid" using L(3) by (simp add: kvm_get_blocks_def)
  moreover have "kvm_conf k1 = kvm_conf k" using L(3) by simp
  moreover have "length ?bss = length (single_type_managers k)" by (simp add: empty_blocks_def)
  moreover have "\<forall>bs\<in>set ?bss. int (length bs) * ?B \<le> int L * ?B"
    using length_hit_list by (auto simp: empty_blocks_def)
  moreover have "0 \<le> int L * ?B" using B by simp
  ultimately show ?thesis using L(2) cached by (intro exI [of _ ?bss] exI [of _ "int L * ?B"] exI [of _ k1]) simp
qed

lemma hit_then_slots:
  assumes inv: "kvm_inv k" and new: "num_computed_tokens r = 0" and pos: "0 < num_tokens r"
    and hs: "kvm_enable_caching k \<Longrightarrow> (num_tokens r - 1) div kvm_block_size k \<le> int (length (block_hashes r))"
    and fresh: "holds_none k (request_id r)" and n: "num_new \<noteq> 0"
  shows "\<exists>bss hit k1 res k2. get_computed_blocks r k = Inr (bss, hit, k1) \<and>
    allocate_slots r num_new hit (Some bss) 0 delay k1 = Inr (res, k2) \<and> kvm_inv k2 \<and>
    (\<forall>news. res = Some news \<longrightarrow>
       kvm_get_blocks k2 (request_id r) = map2 (@) bss news \<and>
       has_slots k2 (request_id r) (min (hit + num_new) (kvm_max_model_len k)))"
proof -
  from lookup_waiting [OF assms(1-5)] obtain bss hit k1 where k1: "get_computed_blocks r k = Inr (bss, hit, k1)"
    "kvm_inv k1" "kvm_conf k1 = kvm_conf k" "\<forall>rid. kvm_get_blocks k1 rid = kvm_get_blocks k rid"
    "length bss = length (single_type_managers k)" "per_group_cached (Some bss) k1 = bss"
    "adoptable k1 (request_id r) hit bss" by blast
  have ad: "adoptable k1 (request_id r) (num_computed_tokens r + hit) (per_group_cached (Some bss) k1)"
    using k1(6,7) new by simp
  have "kvm_get_blocks k1 (request_id r) = map (\<lambda>_. []) (single_type_managers k)"
    using fresh k1(4) by (auto simp: holds_none_managers kvm_get_blocks_def co_get_blocks_def)
  then have "map2 (@) (kvm_get_blocks k1 (request_id r)) bss = bss"
    using k1(5) by (intro nth_equalityI) auto
  then show ?thesis using allocate_adopting [OF k1(2) n ad, of delay] k1(1,3,6) new
    by (fastforce simp: kvm_conf_eq)
qed

end
