(* ===== verification/RequestQueue.thy ===== *)
theory RequestQueue
  imports RequestState
begin

text \<open>
  \<open>pvllm/v1/core/sched/request_queue.py\<close>: the waiting queue under each scheduling policy.

  An entry is what identifies a waiting request and orders it: its priority, arrival time and
  id (\<open>sort_key\<close>), which never change while it waits. A deque is the list of its entries, front
  first; a \<open>heapq\<close> heap is the sorted list of its entries (the library's contract: \<open>heap[0]\<close>
  and \<open>heappop\<close> give the least entry; request ids are distinct, so the order is total).
\<close>

type_synonym queue_entry = "int \<times> rat \<times> string"

abbreviation entry_id :: "queue_entry \<Rightarrow> string" where
  "entry_id e \<equiv> snd (snd e)"

datatype scheduling_policy = FCFS | PRIORITY

datatype request_queue =
    FCFSRequestQueue "queue_entry list"
  | PriorityRequestQueue "queue_entry list"

section \<open>First come, first served\<close>

definition fcfs_add :: "queue_entry \<Rightarrow> queue_entry list \<Rightarrow> queue_entry list" where
  "fcfs_add e q = q @ [e]"

definition list_pop :: "queue_entry list \<Rightarrow> (queue_entry \<times> queue_entry list) result" where
  "list_pop q = (case q of [] \<Rightarrow> Inl IndexError | e # es \<Rightarrow> Inr (e, es))"

definition list_peek :: "queue_entry list \<Rightarrow> queue_entry result" where
  "list_peek q = (case q of [] \<Rightarrow> Inl IndexError | e # es \<Rightarrow> Inr e)"

definition fcfs_prepend :: "queue_entry \<Rightarrow> queue_entry list \<Rightarrow> queue_entry list" where
  "fcfs_prepend e q = e # q"

text \<open>\<open>self.extendleft(reversed(list(requests)))\<close>.\<close>

definition fcfs_prepend_requests :: "queue_entry list \<Rightarrow> queue_entry list \<Rightarrow> queue_entry list" where
  "fcfs_prepend_requests es q = fold fcfs_prepend (rev es) q"

definition fcfs_remove :: "queue_entry \<Rightarrow> queue_entry list \<Rightarrow> queue_entry list result" where
  "fcfs_remove e q = (if e \<in> set q then Inr (remove1 e q) else Inl ValueError)"

definition fcfs_remove_requests :: "queue_entry list \<Rightarrow> queue_entry list \<Rightarrow> queue_entry list" where
  "fcfs_remove_requests es q = filter (\<lambda>e. e \<notin> set es) q"

section \<open>Priority\<close>

definition prio_add :: "queue_entry \<Rightarrow> queue_entry list \<Rightarrow> queue_entry list" where
  "prio_add e q = insort e q"

definition prio_prepend_requests :: "queue_entry list \<Rightarrow> queue_entry list \<Rightarrow> queue_entry list" where
  "prio_prepend_requests es q = fold prio_add es q"

definition prio_remove :: "queue_entry \<Rightarrow> queue_entry list \<Rightarrow> queue_entry list" where
  "prio_remove e q = filter (\<lambda>x. x \<noteq> e) q"

definition prio_remove_requests :: "queue_entry list \<Rightarrow> queue_entry list \<Rightarrow> queue_entry list" where
  "prio_remove_requests es q = filter (\<lambda>e. e \<notin> set es) q"

section \<open>Either policy\<close>

definition create_request_queue :: "scheduling_policy \<Rightarrow> request_queue" where
  "create_request_queue p = (case p of PRIORITY \<Rightarrow> PriorityRequestQueue [] | FCFS \<Rightarrow> FCFSRequestQueue [])"

text \<open>Iteration order.\<close>

fun queue_list :: "request_queue \<Rightarrow> queue_entry list" where
  "queue_list (FCFSRequestQueue q) = q"
| "queue_list (PriorityRequestQueue q) = q"

fun add_request :: "queue_entry \<Rightarrow> request_queue \<Rightarrow> request_queue" where
  "add_request e (FCFSRequestQueue q) = FCFSRequestQueue (fcfs_add e q)"
| "add_request e (PriorityRequestQueue q) = PriorityRequestQueue (prio_add e q)"

fun pop_request :: "request_queue \<Rightarrow> (queue_entry \<times> request_queue) result" where
  "pop_request (FCFSRequestQueue q) = rbind (list_pop q) (\<lambda>(e, q'). Inr (e, FCFSRequestQueue q'))"
| "pop_request (PriorityRequestQueue q) = rbind (list_pop q) (\<lambda>(e, q'). Inr (e, PriorityRequestQueue q'))"

fun peek_request :: "request_queue \<Rightarrow> queue_entry result" where
  "peek_request (FCFSRequestQueue q) = list_peek q"
| "peek_request (PriorityRequestQueue q) = list_peek q"

fun prepend_request :: "queue_entry \<Rightarrow> request_queue \<Rightarrow> request_queue" where
  "prepend_request e (FCFSRequestQueue q) = FCFSRequestQueue (fcfs_prepend e q)"
| "prepend_request e (PriorityRequestQueue q) = PriorityRequestQueue (prio_add e q)"

fun prepend_requests :: "request_queue \<Rightarrow> request_queue \<Rightarrow> request_queue" where
  "prepend_requests r (FCFSRequestQueue q) = FCFSRequestQueue (fcfs_prepend_requests (queue_list r) q)"
| "prepend_requests r (PriorityRequestQueue q) = PriorityRequestQueue (prio_prepend_requests (queue_list r) q)"

fun remove_request :: "queue_entry \<Rightarrow> request_queue \<Rightarrow> request_queue result" where
  "remove_request e (FCFSRequestQueue q) = rbind (fcfs_remove e q) (\<lambda>q'. Inr (FCFSRequestQueue q'))"
| "remove_request e (PriorityRequestQueue q) = Inr (PriorityRequestQueue (prio_remove e q))"

fun remove_requests :: "queue_entry list \<Rightarrow> request_queue \<Rightarrow> request_queue" where
  "remove_requests es (FCFSRequestQueue q) = FCFSRequestQueue (fcfs_remove_requests es q)"
| "remove_requests es (PriorityRequestQueue q) = PriorityRequestQueue (prio_remove_requests es q)"

section \<open>The interface the scheduler relies on\<close>

text \<open>
  Whatever the policy, the queue is a bag with an iteration order; \<open>peek\<close> and \<open>pop\<close> agree on
  its first element, nothing is lost and nothing is invented.
\<close>

locale waiting_queue =
  fixes wf :: "'q \<Rightarrow> bool"
    and contents :: "'q \<Rightarrow> 'e list"
    and add prepend :: "'e \<Rightarrow> 'q \<Rightarrow> 'q"
    and pop :: "'q \<Rightarrow> ('e \<times> 'q) result"
    and peek :: "'q \<Rightarrow> 'e result"
    and remove :: "'e \<Rightarrow> 'q \<Rightarrow> 'q result"
  assumes add: "wf q \<Longrightarrow> wf (add e q) \<and> mset (contents (add e q)) = add_mset e (mset (contents q))"
    and prepend: "wf q \<Longrightarrow> wf (prepend e q) \<and> mset (contents (prepend e q)) = add_mset e (mset (contents q))"
    and pop_empty: "contents q = [] \<Longrightarrow> pop q = Inl IndexError \<and> peek q = Inl IndexError"
    and pop_first: "wf q \<Longrightarrow> contents q = e # es \<Longrightarrow>
      peek q = Inr e \<and> (\<exists>q'. pop q = Inr (e, q') \<and> wf q' \<and> contents q' = es)"
    and remove: "wf q \<Longrightarrow> distinct (contents q) \<Longrightarrow> e \<in> set (contents q) \<Longrightarrow>
      \<exists>q'. remove e q = Inr q' \<and> wf q' \<and> contents q' = filter (\<lambda>x. x \<noteq> e) (contents q)"
begin

lemma peek_pop:
  assumes "wf q" "peek q = Inr e"
  shows "\<exists>q'. pop q = Inr (e, q') \<and> wf q' \<and> contents q = e # contents q'"
proof (cases "contents q")
  case Nil
  then show ?thesis using pop_empty [OF Nil] assms(2) by simp
next
  case (Cons x xs)
  then show ?thesis using pop_first [OF assms(1) Cons] assms(2) by auto
qed

lemma pop_eq_Inr_iff: "wf q \<Longrightarrow> (\<exists>r. pop q = Inr r) \<longleftrightarrow> contents q \<noteq> []"
  using pop_empty pop_first by (cases "contents q") fastforce+

lemma add_distinct:
  assumes "wf q" "distinct (contents q)" "e \<notin> set (contents q)"
  shows "distinct (contents (add e q))" and "set (contents (add e q)) = insert e (set (contents q))"
proof -
  from add [OF assms(1), of e] have M: "mset (contents (add e q)) = mset (e # contents q)" by simp
  then show "set (contents (add e q)) = insert e (set (contents q))" by (metis mset_eq_setD list.simps(15))
  from M show "distinct (contents (add e q))" using assms(2,3) mset_eq_imp_distinct_iff by fastforce
qed

lemma prepend_distinct:
  assumes "wf q" "distinct (contents q)" "e \<notin> set (contents q)"
  shows "distinct (contents (prepend e q))" and "set (contents (prepend e q)) = insert e (set (contents q))"
proof -
  from prepend [OF assms(1), of e] have M: "mset (contents (prepend e q)) = mset (e # contents q)" by simp
  then show "set (contents (prepend e q)) = insert e (set (contents q))" by (metis mset_eq_setD list.simps(15))
  from M show "distinct (contents (prepend e q))" using assms(2,3) mset_eq_imp_distinct_iff by fastforce
qed

end

text \<open>Arrival order is admission order, and a prepended request is next.\<close>

locale fifo_queue = waiting_queue +
  assumes add_back: "contents (add e q) = contents q @ [e]"
    and prepend_front: "contents (prepend e q) = e # contents q"
begin

lemma prepend_next: "wf q \<Longrightarrow> \<exists>q'. pop (prepend e q) = Inr (e, q') \<and> contents q' = contents q"
  using pop_first [OF conjunct1 [OF prepend] prepend_front] by blast

lemma add_does_not_overtake:
  "wf q \<Longrightarrow> contents q = x # xs \<Longrightarrow> \<exists>q'. pop (add e q) = Inr (x, q') \<and> contents q' = xs @ [e]"
  using pop_first [OF conjunct1 [OF add], of q e x "xs @ [e]"] by (auto simp: add_back)

end

text \<open>The least entry is next, however the entries arrived.\<close>

locale priority_queue = waiting_queue wf contents add prepend pop peek remove
  for wf :: "'q \<Rightarrow> bool" and contents :: "'q \<Rightarrow> 'e :: linorder list"
    and add prepend :: "'e \<Rightarrow> 'q \<Rightarrow> 'q" and pop :: "'q \<Rightarrow> ('e \<times> 'q) result"
    and peek :: "'q \<Rightarrow> 'e result" and remove :: "'e \<Rightarrow> 'q \<Rightarrow> 'q result" +
  assumes ordered: "wf q \<Longrightarrow> sorted (contents q)"
begin

lemma pop_least:
  assumes "wf q" "pop q = Inr (e, q')"
  shows "e \<in> set (contents q) \<and> (\<forall>x\<in>set (contents q). e \<le> x)"
proof (cases "contents q")
  case Nil
  then show ?thesis using pop_empty [OF Nil] assms(2) by simp
next
  case (Cons x xs)
  then show ?thesis using pop_first [OF assms(1) Cons] assms(2) ordered [OF assms(1)] by auto
qed

text \<open>The content determines the order: two queues with the same entries drain alike.\<close>

lemma order_of_contents:
  "wf q \<Longrightarrow> wf r \<Longrightarrow> mset (contents q) = mset (contents r) \<Longrightarrow> contents q = contents r"
  by (metis ordered properties_for_sort sorted_sort_id)

end

interpretation fcfs: fifo_queue "\<lambda>q. True" "\<lambda>q. q" fcfs_add fcfs_prepend list_pop list_peek fcfs_remove
  by unfold_locales
    (auto simp: fcfs_add_def fcfs_prepend_def list_pop_def list_peek_def fcfs_remove_def distinct_remove1_removeAll
      removeAll_filter_not_eq intro!: filter_cong)

interpretation prio: priority_queue sorted "\<lambda>q. q" prio_add prio_add list_pop list_peek
  "\<lambda>e q. Inr (prio_remove e q)"
  by unfold_locales
    (auto simp: prio_add_def list_pop_def list_peek_def prio_remove_def sorted_insort sorted_wrt_filter)

text \<open>The queue the scheduler holds, whichever policy created it.\<close>

fun queue_wf :: "request_queue \<Rightarrow> bool" where
  "queue_wf (FCFSRequestQueue q) = True"
| "queue_wf (PriorityRequestQueue q) = sorted q"

fun queue_policy :: "request_queue \<Rightarrow> scheduling_policy" where
  "queue_policy (FCFSRequestQueue q) = FCFS"
| "queue_policy (PriorityRequestQueue q) = PRIORITY"

interpretation rq: waiting_queue queue_wf queue_list add_request prepend_request pop_request peek_request
  remove_request
proof (unfold_locales, goal_cases)
  case (1 q e)
  then show ?case by (cases q) (auto simp: fcfs_add_def prio_add_def sorted_insort)
next
  case (2 q e)
  then show ?case by (cases q) (auto simp: fcfs_prepend_def prio_add_def sorted_insort)
next
  case (3 q)
  then show ?case by (cases q) (auto simp: list_pop_def list_peek_def)
next
  case (4 q e es)
  then show ?case by (cases q) (auto simp: list_pop_def list_peek_def)
next
  case (5 q e)
  then show ?case
    using fcfs.remove [of _ e] prio.remove [of _ e] by (cases q) (auto simp: rbind_eq_Inr_iff sorted_wrt_filter)
qed

lemma queue_policy_ops [simp, frame_simps]:
  "queue_policy (add_request e q) = queue_policy q"
  "queue_policy (prepend_request e q) = queue_policy q"
  "queue_policy (prepend_requests r q) = queue_policy q"
  by (cases q; simp)+

lemma pop_policy: "pop_request q = Inr (e, q') \<Longrightarrow> queue_policy q' = queue_policy q"
  by (cases q) (auto simp: rbind_eq_Inr_iff)

text \<open>Returning the set-aside requests: in front and in order, or by priority.\<close>

lemma fold_prepend: "fold fcfs_prepend es q = rev es @ q"
  by (induction es arbitrary: q) (auto simp: fcfs_prepend_def)

lemma fold_insort_sorted: "sorted q \<Longrightarrow> sorted (fold prio_add es q) \<and> mset (fold prio_add es q) = mset es + mset q"
  by (induction es arbitrary: q) (auto simp: prio_add_def sorted_insort)

lemma prepend_requests_fcfs:
  "queue_list (prepend_requests r (FCFSRequestQueue q)) = queue_list r @ q"
  by (simp add: fcfs_prepend_requests_def fold_prepend)

lemma prepend_requests_wf:
  "queue_wf q \<Longrightarrow> queue_wf (prepend_requests r q) \<and>
   mset (queue_list (prepend_requests r q)) = mset (queue_list r) + mset (queue_list q)"
  using fold_insort_sorted
  by (cases q) (auto simp: fcfs_prepend_requests_def fold_prepend prio_prepend_requests_def)

lemma create_request_queue_empty [simp]:
  "queue_list (create_request_queue p) = []" "queue_wf (create_request_queue p)"
  "queue_policy (create_request_queue p) = p"
  by (cases p; simp add: create_request_queue_def)+

end
