(* ===== verification/EncoderCache.thy ===== *)
theory EncoderCache
  imports RequestState
begin

text \<open>
  \<open>pvllm/v1/core/encoder_cache_manager.py\<close>: encoder outputs shared across requests, under a
  budget in embeddings. Python sets are lists without repetitions here; the order in which the
  interpreter iterates a set is not specified, and the model fixes insertion order.
\<close>

section \<open>Operations\<close>

record encoder_cache =
  cache_size :: int
  num_free_slots :: int
  num_freeable_slots :: int
  enc_cached :: "(string \<times> string list) list" \<comment> \<open>\<open>mm_hash\<close> to the requests referencing it\<close>
  freeable :: "string list"
  request_cached_ids :: "(string \<times> nat list) list"
  freed :: "string list"
  num_queries :: int
  num_hits :: int
  entry_size :: "(string \<times> int) list"

definition encoder_cache_init :: "int \<Rightarrow> encoder_cache result" where
  "encoder_cache_init n =
     (if n < 1 then Inl ValueError
      else Inr \<lparr>cache_size = n, num_free_slots = n, num_freeable_slots = n, enc_cached = [],
                freeable = [], request_cached_ids = [], freed = [], num_queries = 0, num_hits = 0,
                entry_size = []\<rparr>)"

definition feature_at :: "request \<Rightarrow> nat \<Rightarrow> mm_feature result" where
  "feature_at r i = (if i < length (mm_features r) then Inr (mm_features r ! i) else Inl IndexError)"

definition has_cache :: "request \<Rightarrow> nat \<Rightarrow> encoder_cache \<Rightarrow> bool result" where
  "has_cache r i c = rbind (feature_at r i) (\<lambda>f. Inr (map_of (enc_cached c) (mm_identifier f) \<noteq> None))"

definition get_cached_input_ids :: "request \<Rightarrow> encoder_cache \<Rightarrow> nat list" where
  "get_cached_input_ids r c =
     (case map_of (request_cached_ids c) (request_id r) of None \<Rightarrow> [] | Some ids \<Rightarrow> ids)"

definition size_of_entry :: "encoder_cache \<Rightarrow> string \<Rightarrow> int" where
  "size_of_entry c h = (case map_of (entry_size c) h of None \<Rightarrow> 0 | Some n \<Rightarrow> n)"

text \<open>The eviction loop of \<open>can_allocate\<close>; the first argument after the bound is \<open>freeable\<close>.\<close>

fun evict_loop :: "int \<Rightarrow> string list \<Rightarrow> encoder_cache \<Rightarrow> encoder_cache result" where
  "evict_loop n [] c = Inr (c\<lparr>freeable := []\<rparr>)"
| "evict_loop n (h # hs) c =
     (if num_free_slots c < n then
        (case map_of (enc_cached c) h of
           Some (r # rs) \<Rightarrow> Inl AssertionError
         | _ \<Rightarrow> evict_loop n hs
                 (c\<lparr>enc_cached := AList.delete h (enc_cached c),
                    num_free_slots := num_free_slots c + size_of_entry c h,
                    entry_size := AList.delete h (entry_size c),
                    freed := freed c @ [h]\<rparr>))
      else Inr (c\<lparr>freeable := h # hs\<rparr>))"

definition can_allocate :: "request \<Rightarrow> nat \<Rightarrow> encoder_cache \<Rightarrow> (bool \<times> encoder_cache) result" where
  "can_allocate r i c =
     rbind (feature_at r i) (\<lambda>f.
       let n = num_embeds f in
       if cache_size c < n then Inr (False, c)
       else if n \<le> num_free_slots c then Inr (True, c)
       else if num_freeable_slots c < n then Inr (False, c)
       else rbind (evict_loop n (freeable c) c) (\<lambda>c'. Inr (n \<le> num_free_slots c', c')))"

definition add_to :: "'a \<Rightarrow> 'a list \<Rightarrow> 'a list" where
  "add_to x xs = (if x \<in> set xs then xs else xs @ [x])"

definition allocate :: "request \<Rightarrow> nat \<Rightarrow> encoder_cache \<Rightarrow> encoder_cache result" where
  "allocate r i c =
     rbind (feature_at r i) (\<lambda>f.
       let h = mm_identifier f; rid = request_id r
       in rbind (case map_of (enc_cached c) h of
                   None \<Rightarrow> Inr (c\<lparr>enc_cached := AList.update h [] (enc_cached c),
                                entry_size := AList.update h (num_embeds f) (entry_size c),
                                num_free_slots := num_free_slots c - num_embeds f,
                                num_freeable_slots := num_freeable_slots c - num_embeds f\<rparr>)
                 | Some [] \<Rightarrow>
                     (case map_of (entry_size c) h of
                        None \<Rightarrow> Inl KeyError
                      | Some n \<Rightarrow> Inr (c\<lparr>freeable := remove1 h (freeable c),
                                      num_freeable_slots := num_freeable_slots c - n\<rparr>))
                 | Some (_ # _) \<Rightarrow> Inr c) (\<lambda>c1.
          let refs = (case map_of (enc_cached c1) h of None \<Rightarrow> [] | Some rs \<Rightarrow> rs)
          in Inr (c1\<lparr>enc_cached := AList.update h (add_to rid refs) (enc_cached c1),
                     request_cached_ids :=
                       AList.update rid (add_to i (get_cached_input_ids r c1)) (request_cached_ids c1)\<rparr>)))"

definition record_lookup :: "bool \<Rightarrow> encoder_cache \<Rightarrow> encoder_cache" where
  "record_lookup hit c =
     c\<lparr>num_queries := num_queries c + 1, num_hits := num_hits c + (if hit then 1 else 0)\<rparr>"

definition free_encoder_input :: "request \<Rightarrow> nat \<Rightarrow> encoder_cache \<Rightarrow> encoder_cache result" where
  "free_encoder_input r i c =
     (let rid = request_id r;
          c1 = (case map_of (request_cached_ids c) rid of
                  None \<Rightarrow> c
                | Some held \<Rightarrow>
                    let held' = removeAll i held
                    in c\<lparr>request_cached_ids :=
                           (if held' = [] then AList.delete rid (request_cached_ids c)
                            else AList.update rid held' (request_cached_ids c))\<rparr>)
      in rbind (feature_at r i) (\<lambda>f.
         let h = mm_identifier f in
         case map_of (enc_cached c1) h of
           None \<Rightarrow> Inr c1
         | Some refs \<Rightarrow>
             let refs' = removeAll rid refs;
                 c2 = c1\<lparr>enc_cached := AList.update h refs' (enc_cached c1)\<rparr>
             in if refs' = [] \<and> h \<notin> set (freeable c2) then
                  (case map_of (entry_size c2) h of
                     None \<Rightarrow> Inl KeyError
                   | Some n \<Rightarrow> Inr (c2\<lparr>freeable := freeable c2 @ [h],
                                   num_freeable_slots := num_freeable_slots c2 + n\<rparr>))
                else Inr c2))"

definition enc_free :: "request \<Rightarrow> encoder_cache \<Rightarrow> encoder_cache result" where
  "enc_free r c = foldE (free_encoder_input r) (get_cached_input_ids r c) c"

definition get_freed_mm_hashes :: "encoder_cache \<Rightarrow> string list \<times> encoder_cache" where
  "get_freed_mm_hashes c = (freed c, c\<lparr>freed := []\<rparr>)"

section \<open>The invariant\<close>

text \<open>
  The space accounting: what is free is the budget less every resident entry, what is freeable
  is the budget less the referenced ones, and the eviction queue lists exactly the resident
  entries nobody references.
\<close>

definition resident :: "encoder_cache \<Rightarrow> string set" where
  "resident c = dom (map_of (enc_cached c))"

definition referenced :: "encoder_cache \<Rightarrow> string set" where
  "referenced c = {h. \<exists>r rs. map_of (enc_cached c) h = Some (r # rs)}"

definition used :: "encoder_cache \<Rightarrow> string set \<Rightarrow> int" where
  "used c hs = (\<Sum>h\<in>hs. size_of_entry c h)"

definition enc_inv :: "encoder_cache \<Rightarrow> bool" where
  "enc_inv c \<longleftrightarrow>
     distinct (map fst (enc_cached c)) \<and> distinct (map fst (entry_size c)) \<and>
     dom (map_of (entry_size c)) = resident c \<and>
     distinct (freeable c) \<and> (\<forall>h. h \<in> set (freeable c) \<longleftrightarrow> map_of (enc_cached c) h = Some []) \<and>
     (\<forall>h. 0 \<le> size_of_entry c h) \<and>
     num_free_slots c = cache_size c - used c (resident c) \<and>
     num_freeable_slots c = cache_size c - used c (referenced c) \<and>
     0 \<le> num_free_slots c"

lemma finite_resident [simp]: "finite (resident c)"
  by (simp add: resident_def finite_dom_map_of)

lemma referenced_resident: "referenced c \<subseteq> resident c"
  by (auto simp: referenced_def resident_def)

lemma finite_referenced [simp]: "finite (referenced c)"
  by (rule finite_subset [OF referenced_resident finite_resident])

lemma free_le_freeable: "enc_inv c \<Longrightarrow> num_free_slots c \<le> num_freeable_slots c"
  unfolding enc_inv_def used_def
  using sum_mono2 [OF finite_resident referenced_resident, of c "size_of_entry c"] by auto

lemma encoder_cache_init_inv: "encoder_cache_init n = Inr c \<Longrightarrow> enc_inv c"
  by (auto simp: encoder_cache_init_def enc_inv_def resident_def referenced_def used_def size_of_entry_def
      split: if_splits)

text \<open>The fields the space accounting depends on.\<close>

lemma enc_inv_cong:
  "enc_inv c \<Longrightarrow> cache_size c' = cache_size c \<Longrightarrow> num_free_slots c' = num_free_slots c \<Longrightarrow>
   num_freeable_slots c' = num_freeable_slots c \<Longrightarrow> enc_cached c' = enc_cached c \<Longrightarrow>
   freeable c' = freeable c \<Longrightarrow> entry_size c' = entry_size c \<Longrightarrow> enc_inv c'"
  by (simp add: enc_inv_def resident_def referenced_def used_def size_of_entry_def)

text \<open>One eviction.\<close>

lemma evict_one:
  assumes inv: "enc_inv (c\<lparr>freeable := h # hs\<rparr>)"
  shows "enc_inv (c\<lparr>freeable := hs, enc_cached := AList.delete h (enc_cached c),
                    num_free_slots := num_free_slots c + size_of_entry c h,
                    entry_size := AList.delete h (entry_size c), freed := freed c @ [h]\<rparr>)"
    and "map_of (enc_cached c) h = Some []"
proof -
  let ?c' = "c\<lparr>freeable := hs, enc_cached := AList.delete h (enc_cached c),
                    num_free_slots := num_free_slots c + size_of_entry c h,
                    entry_size := AList.delete h (entry_size c), freed := freed c @ [h]\<rparr>"
  show h: "map_of (enc_cached c) h = Some []" using inv by (auto simp: enc_inv_def)
  have same: "resident (c\<lparr>freeable := xs\<rparr>) = resident c" "referenced (c\<lparr>freeable := xs\<rparr>) = referenced c"
    "size_of_entry (c\<lparr>freeable := xs\<rparr>) = size_of_entry c" "used (c\<lparr>freeable := xs\<rparr>) = used c" for xs
    by (simp_all add: resident_def referenced_def size_of_entry_def used_def fun_eq_iff)
  from inv have I: "distinct (map fst (enc_cached c))" "distinct (map fst (entry_size c))"
    "dom (map_of (entry_size c)) = resident c" "h \<notin> set hs" "distinct hs"
    "\<And>x. x = h \<or> x \<in> set hs \<longleftrightarrow> map_of (enc_cached c) x = Some []" "\<And>x. 0 \<le> size_of_entry c x"
    "num_free_slots c = cache_size c - used c (resident c)"
    "num_freeable_slots c = cache_size c - used c (referenced c)" "0 \<le> num_free_slots c"
    unfolding enc_inv_def same by auto
  have res: "resident ?c' = resident c - {h}" and ref: "referenced ?c' = referenced c"
    using h by (auto simp: resident_def referenced_def delete_conv')
  have sz: "size_of_entry ?c' x = (if x = h then 0 else size_of_entry c x)" for x
    by (simp add: size_of_entry_def delete_conv')
  have hr: "h \<in> resident c" "h \<notin> referenced c" using h by (auto simp: resident_def referenced_def)
  have "used ?c' (resident ?c') = used c (resident c) - size_of_entry c h"
    unfolding res used_def sz using hr(1) by (simp add: sum_diff1 sum.If_cases Int_absorb2 subset_iff cong: sum.cong)
  moreover have "used ?c' (referenced ?c') = used c (referenced c)"
    unfolding ref used_def sz using hr(2) by (intro sum.cong) auto
  moreover have "dom (map_of (entry_size ?c')) = resident ?c'"
    unfolding res using I(3) by (auto simp: delete_conv')
  moreover have "x \<in> set hs \<longleftrightarrow> map_of (enc_cached ?c') x = Some []" for x
    using I(6) [of x] I(4) by (auto simp: delete_conv')
  moreover have "0 \<le> size_of_entry ?c' x" for x using I(7) by (simp add: sz)
  moreover have "distinct (map fst (enc_cached ?c'))" "distinct (map fst (entry_size ?c'))"
    using I(1,2) by (simp_all add: distinct_delete)
  ultimately show "enc_inv ?c'"
    using I(5,7-10) by (simp add: enc_inv_def)
qed

lemma evict_loop_spec:
  "enc_inv (c\<lparr>freeable := hs\<rparr>) \<Longrightarrow>
   \<exists>k c'. evict_loop n hs c = Inr c' \<and> enc_inv c' \<and> k \<le> length hs \<and> freeable c' = drop k hs \<and>
     freed c' = freed c @ take k hs \<and> (n \<le> num_free_slots c' \<or> k = length hs) \<and>
     enc_cached c' = filter (\<lambda>(h, rs). h \<notin> set (take k hs)) (enc_cached c) \<and>
     cache_size c' = cache_size c \<and> num_freeable_slots c' = num_freeable_slots c \<and>
     request_cached_ids c' = request_cached_ids c"
proof (induction hs arbitrary: c)
  case Nil
  then show ?case
    by (intro exI [of _ 0] exI [of _ "c\<lparr>freeable := []\<rparr>"]) simp
next
  case (Cons h hs)
  note E = evict_one [OF Cons.prems]
  let ?c = "c\<lparr>enc_cached := AList.delete h (enc_cached c),
              num_free_slots := num_free_slots c + size_of_entry c h,
              entry_size := AList.delete h (entry_size c), freed := freed c @ [h]\<rparr>"
  show ?case
  proof (cases "num_free_slots c < n")
    case True
    have "enc_inv (?c\<lparr>freeable := hs\<rparr>)" by (rule enc_inv_cong [OF E(1)]) simp_all
    from Cons.IH [OF this] obtain k c' where R: "evict_loop n hs ?c = Inr c'" "enc_inv c'"
      "k \<le> length hs" "freeable c' = drop k hs" "freed c' = freed ?c @ take k hs"
      "n \<le> num_free_slots c' \<or> k = length hs"
      "enc_cached c' = filter (\<lambda>(h, rs). h \<notin> set (take k hs)) (enc_cached ?c)"
      "cache_size c' = cache_size ?c" "num_freeable_slots c' = num_freeable_slots ?c"
      "request_cached_ids c' = request_cached_ids ?c" by blast
    have "enc_cached c' = filter (\<lambda>(x, rs). x \<notin> set (take (Suc k) (h # hs))) (enc_cached c)"
      unfolding R(7) by (auto simp: AList.delete_eq intro!: filter_cong)
    moreover have "evict_loop n (h # hs) c = Inr c'" using True R(1) E(2) by simp
    ultimately show ?thesis using R by (intro exI [of _ "Suc k"] exI [of _ c']) simp
  next
    case False
    then show ?thesis using Cons.prems
      by (intro exI [of _ 0] exI [of _ "c\<lparr>freeable := h # hs\<rparr>"]) auto
  qed
qed

text \<open>
  \<open>can_allocate\<close> says yes exactly when the item fits beside the referenced entries; it evicts
  from the front of the queue, nothing that is referenced, and then there is room.
\<close>

lemma can_allocate_spec:
  assumes inv: "enc_inv c" and f: "feature_at r i = Inr f"
  shows "\<exists>k c'. can_allocate r i c = Inr (num_embeds f \<le> cache_size c \<and> num_embeds f \<le> num_freeable_slots c, c') \<and>
    enc_inv c' \<and> k \<le> length (freeable c) \<and> freeable c' = drop k (freeable c) \<and> freed c' = freed c @ take k (freeable c) \<and>
    enc_cached c' = filter (\<lambda>(h, rs). h \<notin> set (take k (freeable c))) (enc_cached c) \<and>
    cache_size c' = cache_size c \<and> request_cached_ids c' = request_cached_ids c \<and>
    (num_embeds f \<le> cache_size c \<and> num_embeds f \<le> num_freeable_slots c \<longrightarrow> num_embeds f \<le> num_free_slots c')"
proof -
  let ?n = "num_embeds f"
  have le: "num_free_slots c \<le> num_freeable_slots c" by (rule free_le_freeable [OF inv])
  consider (big) "cache_size c < ?n" | (fits) "?n \<le> cache_size c" "?n \<le> num_free_slots c"
    | (never) "?n \<le> cache_size c" "num_free_slots c < ?n" "num_freeable_slots c < ?n"
    | (evict) "?n \<le> cache_size c" "num_free_slots c < ?n" "?n \<le> num_freeable_slots c" by linarith
  then show ?thesis
  proof cases
    case evict
    have "enc_inv (c\<lparr>freeable := freeable c\<rparr>)" using inv by simp
    from evict_loop_spec [OF this, of ?n] obtain k c' where R:
      "evict_loop ?n (freeable c) c = Inr c'" "enc_inv c'" "k \<le> length (freeable c)"
      "freeable c' = drop k (freeable c)" "freed c' = freed c @ take k (freeable c)"
      "?n \<le> num_free_slots c' \<or> k = length (freeable c)"
      "enc_cached c' = filter (\<lambda>(h, rs). h \<notin> set (take k (freeable c))) (enc_cached c)"
      "cache_size c' = cache_size c" "num_freeable_slots c' = num_freeable_slots c"
      "request_cached_ids c' = request_cached_ids c" by blast
    have "?n \<le> num_free_slots c'"
    proof (cases "k = length (freeable c)")
      case True
      then have "set (freeable c') = {}" using R(4) by simp
      then have "resident c' = referenced c'"
        using R(2) referenced_resident [of c'] unfolding enc_inv_def resident_def referenced_def
        by (auto simp: neq_Nil_conv) (metis neq_Nil_conv)
      then have "num_free_slots c' = num_freeable_slots c'" using R(2) by (simp add: enc_inv_def)
      with evict(3) R(9) show ?thesis by simp
    qed (use R(6) in simp)
    with R evict f show ?thesis
      by (intro exI [of _ k] exI [of _ c']) (simp add: can_allocate_def Let_def)
  qed (use inv f le in \<open>auto simp: can_allocate_def Let_def intro!: exI [of _ 0]\<close>)
qed

section \<open>References\<close>

lemma add_to_nonempty [simp]: "add_to x xs \<noteq> []"
  by (auto simp: add_to_def)

lemma set_add_to [simp]: "set (add_to x xs) = insert x (set xs)"
  by (auto simp: add_to_def)

text \<open>
  The accounting invariant in terms of lookups; \<open>S\<close> is the size of an entry. It is the form in
  which changes of one entry are easy to follow.
\<close>

definition accounts ::
  "int \<Rightarrow> (string \<rightharpoonup> string list) \<Rightarrow> (string \<rightharpoonup> int) \<Rightarrow> string list \<Rightarrow> int \<Rightarrow> int \<Rightarrow> bool" where
  "accounts cap refs sizes fr free_n freeable_n \<longleftrightarrow>
     finite (dom refs) \<and> dom sizes = dom refs \<and> distinct fr \<and> set fr = {h. refs h = Some []} \<and>
     (\<forall>h n. sizes h = Some n \<longrightarrow> 0 \<le> n) \<and>
     free_n = cap - (\<Sum>h\<in>dom refs. the (sizes h)) \<and>
     freeable_n = cap - (\<Sum>h\<in>{h. \<exists>r rs. refs h = Some (r # rs)}. the (sizes h)) \<and> 0 \<le> free_n"

lemma enc_inv_iff:
  "enc_inv c \<longleftrightarrow> distinct (map fst (enc_cached c)) \<and> distinct (map fst (entry_size c)) \<and>
     accounts (cache_size c) (map_of (enc_cached c)) (map_of (entry_size c)) (freeable c)
       (num_free_slots c) (num_freeable_slots c)"
proof -
  have sz: "size_of_entry c h = the (map_of (entry_size c) h)" if "dom (map_of (entry_size c)) = resident c" "h \<in> resident c" for h
  proof -
    from that have "map_of (entry_size c) h \<noteq> None" by blast
    then show ?thesis by (auto simp: size_of_entry_def)
  qed
  have nn: "(\<forall>h. 0 \<le> size_of_entry c h) \<longleftrightarrow> (\<forall>h n. map_of (entry_size c) h = Some n \<longrightarrow> 0 \<le> n)"
    unfolding size_of_entry_def by (auto split: option.splits)
  have used1: "used c (resident c) = (\<Sum>h\<in>dom (map_of (enc_cached c)). the (map_of (entry_size c) h))"
    if "dom (map_of (entry_size c)) = resident c"
    unfolding used_def using sz [OF that] by (intro sum.cong) (auto simp: resident_def)
  have used2: "used c (referenced c) = (\<Sum>h\<in>{h. \<exists>r rs. map_of (enc_cached c) h = Some (r # rs)}. the (map_of (entry_size c) h))"
    if "dom (map_of (entry_size c)) = resident c"
    unfolding used_def using sz [OF that] referenced_resident [of c]
    by (intro sum.cong) (auto simp: referenced_def)
  have "dom (map_of (entry_size c)) = dom (map_of (enc_cached c)) \<longleftrightarrow> dom (map_of (entry_size c)) = resident c"
    by (simp add: resident_def)
  then show ?thesis
    unfolding enc_inv_def accounts_def nn using used1 used2
    by (auto simp: finite_dom_map_of resident_def)
qed

lemma accounts_size: "accounts cap refs sizes fr a b \<Longrightarrow> refs h = Some rs \<Longrightarrow> \<exists>n. sizes h = Some n"
  unfolding accounts_def by blast

lemma accounts_free: "accounts cap refs sizes fr a b \<Longrightarrow> h \<in> set fr \<longleftrightarrow> refs h = Some []"
  by (simp add: accounts_def)

lemma accounts_new:
  assumes "accounts cap refs sizes fr a b" "refs h = None" "0 \<le> n" "n \<le> a"
  shows "accounts cap (refs(h \<mapsto> x # xs)) (sizes(h \<mapsto> n)) fr (a - n) (b - n)"
proof -
  have fin: "finite (dom refs)" and dom: "dom sizes = dom refs" using assms(1) by (auto simp: accounts_def)
  let ?ref = "{k. \<exists>r rs. refs k = Some (r # rs)}"
  have fin2: "finite ?ref" by (rule finite_subset [OF _ fin]) auto
  have h: "h \<notin> dom refs" "h \<notin> ?ref" using assms(2) by auto
  have eq: "{k. \<exists>r rs. (refs(h \<mapsto> x # xs)) k = Some (r # rs)} = insert h ?ref" by auto
  have s: "(\<Sum>k\<in>A. the ((sizes(h \<mapsto> n)) k)) = (\<Sum>k\<in>A. the (sizes k))" if "h \<notin> A" for A
    using that by (intro sum.cong) auto
  have ins: "(\<Sum>k\<in>insert h A. the ((sizes(h \<mapsto> n)) k)) = n + (\<Sum>k\<in>A. the (sizes k))"
    if "finite A" "h \<notin> A" for A
    using that s [OF that(2)] by simp
  have doms: "dom (refs(h \<mapsto> x # xs)) = insert h (dom refs)" "dom (sizes(h \<mapsto> n)) = insert h (dom refs)"
    using dom by auto
  have idle: "{k. (refs(h \<mapsto> x # xs)) k = Some []} = {k. refs k = Some []}" using assms(2) by auto
  show ?thesis
    using assms unfolding accounts_def eq doms idle ins [OF fin h(1)] ins [OF fin2 h(2)]
    by (auto split: if_splits)
qed

lemma accounts_take:
  assumes "accounts cap refs sizes fr a b" "refs h = Some []" "sizes h = Some n"
  shows "accounts cap (refs(h \<mapsto> x # xs)) sizes (remove1 h fr) a (b - n)"
proof -
  have fin: "finite (dom refs)" using assms(1) by (auto simp: accounts_def)
  let ?ref = "{k. \<exists>r rs. refs k = Some (r # rs)}"
  have fin2: "finite ?ref" by (rule finite_subset [OF _ fin]) auto
  have h: "h \<notin> ?ref" using assms(2) by auto
  have eq: "{k. \<exists>r rs. (refs(h \<mapsto> x # xs)) k = Some (r # rs)} = insert h ?ref" by auto
  have dom: "dom (refs(h \<mapsto> x # xs)) = dom refs" using assms(2) by auto
  show ?thesis
    using assms fin2 h unfolding accounts_def eq dom by auto
qed

lemma accounts_more:
  assumes "accounts cap refs sizes fr a b" "refs h = Some (y # ys)"
  shows "accounts cap (refs(h \<mapsto> x # xs)) sizes fr a b"
proof -
  have eq: "{k. \<exists>r rs. (refs(h \<mapsto> x # xs)) k = Some (r # rs)} = {k. \<exists>r rs. refs k = Some (r # rs)}"
    "{k. (refs(h \<mapsto> x # xs)) k = Some []} = {k. refs k = Some []}" using assms(2) by auto
  have dom: "dom (refs(h \<mapsto> x # xs)) = dom refs" using assms(2) by auto
  show ?thesis using assms unfolding accounts_def eq dom by blast
qed

lemma accounts_drop:
  assumes "accounts cap refs sizes fr a b" "refs h = Some (y # ys)" "sizes h = Some n"
  shows "accounts cap (refs(h \<mapsto> [])) sizes (fr @ [h]) a (b + n)"
proof -
  have fin: "finite (dom refs)" using assms(1) by (auto simp: accounts_def)
  let ?ref = "{k. \<exists>r rs. refs k = Some (r # rs)}"
  have fin2: "finite ?ref" by (rule finite_subset [OF _ fin]) auto
  have h: "h \<in> ?ref" using assms(2) by auto
  have eq: "{k. \<exists>r rs. (refs(h \<mapsto> [])) k = Some (r # rs)} = ?ref - {h}" by auto
  have dom: "dom (refs(h \<mapsto> [])) = dom refs" using assms(2) by auto
  have "(\<Sum>k\<in>?ref. the (sizes k)) = n + (\<Sum>k\<in>?ref - {h}. the (sizes k))"
    using sum.remove [OF fin2 h, of "\<lambda>k. the (sizes k)"] assms(3) by simp
  then show ?thesis
    using assms unfolding accounts_def eq dom by auto
qed

lemma accounts_idle:
  assumes "accounts cap refs sizes fr a b" "refs h = Some []"
  shows "accounts cap (refs(h \<mapsto> [])) sizes fr a b"
  using assms by (simp add: map_upd_triv)

lemma get_ids_same: "request_cached_ids c' = request_cached_ids c \<Longrightarrow> get_cached_input_ids r c' = get_cached_input_ids r c"
  by (simp add: get_cached_input_ids_def)

lemma get_ids_update:
  "request_cached_ids c' = AList.update (request_id r) ids (request_cached_ids c) \<Longrightarrow> get_cached_input_ids r c' = ids"
  by (simp add: get_cached_input_ids_def update_conv')

text \<open>The end of \<open>allocate\<close>, once the entry exists.\<close>

definition take_ref :: "request \<Rightarrow> nat \<Rightarrow> string \<Rightarrow> string list \<Rightarrow> encoder_cache \<Rightarrow> encoder_cache" where
  "take_ref r i h refs c1 =
     c1\<lparr>enc_cached := AList.update h (add_to (request_id r) refs) (enc_cached c1),
        request_cached_ids := AList.update (request_id r) (add_to i (get_cached_input_ids r c1)) (request_cached_ids c1)\<rparr>"

lemma take_ref_ids: "set (get_cached_input_ids r (take_ref r i h refs c)) = insert i (set (get_cached_input_ids r c))"
proof -
  have "get_cached_input_ids r (take_ref r i h refs c) = add_to i (get_cached_input_ids r c)"
    by (rule get_ids_update [where c = c]) (simp add: take_ref_def)
  then show ?thesis by simp
qed

lemma allocate_inv:
  assumes inv: "enc_inv c" and f: "feature_at r i = Inr f" and nn: "0 \<le> num_embeds f"
    and room: "map_of (enc_cached c) (mm_identifier f) = None \<Longrightarrow> num_embeds f \<le> num_free_slots c"
  shows "\<exists>c' refs. allocate r i c = Inr c' \<and> enc_inv c' \<and>
    map_of (enc_cached c') = (map_of (enc_cached c))(mm_identifier f \<mapsto> refs) \<and> request_id r \<in> set refs \<and>
    set refs = insert (request_id r)
      (case map_of (enc_cached c) (mm_identifier f) of None \<Rightarrow> {} | Some rs \<Rightarrow> set rs) \<and>
    set (get_cached_input_ids r c') = insert i (set (get_cached_input_ids r c)) \<and>
    cache_size c' = cache_size c"
proof -
  let ?h = "mm_identifier f" and ?rid = "request_id r"
  note I = inv [unfolded enc_inv_iff]
  consider (new) "map_of (enc_cached c) ?h = None" | (idle) "map_of (enc_cached c) ?h = Some []"
    | (held) y ys where "map_of (enc_cached c) ?h = Some (y # ys)"
    by (metis list.exhaust option.exhaust)
  then show ?thesis
  proof cases
    case new
    let ?c1 = "c\<lparr>enc_cached := AList.update ?h [] (enc_cached c),
                entry_size := AList.update ?h (num_embeds f) (entry_size c),
                num_free_slots := num_free_slots c - num_embeds f,
                num_freeable_slots := num_freeable_slots c - num_embeds f\<rparr>"
    have "allocate r i c = Inr (take_ref r i ?h [] ?c1)"
      using new f by (simp add: allocate_def Let_def take_ref_def update_conv')
    moreover have "accounts (cache_size c) ((map_of (enc_cached c))(?h \<mapsto> [?rid])) ((map_of (entry_size c))(?h \<mapsto> num_embeds f))
        (freeable c) (num_free_slots c - num_embeds f) (num_freeable_slots c - num_embeds f)"
      using I nn room [OF new] new by (intro accounts_new) auto
    then have "enc_inv (take_ref r i ?h [] ?c1)"
      using I by (simp add: enc_inv_iff take_ref_def update_conv' distinct_update add_to_def)
    moreover have "map_of (enc_cached (take_ref r i ?h [] ?c1)) = (map_of (enc_cached c))(?h \<mapsto> [?rid])"
      by (simp add: take_ref_def update_conv' add_to_def)
    moreover have "get_cached_input_ids r ?c1 = get_cached_input_ids r c" by (rule get_ids_same) simp
    ultimately show ?thesis using take_ref_ids [of r i ?h "[]" ?c1] new
      by (intro exI [of _ "take_ref r i ?h [] ?c1"] exI [of _ "[?rid]"]) (simp add: take_ref_def)
  next
    case idle
    obtain n where n: "map_of (entry_size c) ?h = Some n"
      using I idle accounts_size [where refs = "map_of (enc_cached c)" and h = ?h] by metis
    let ?c1 = "c\<lparr>freeable := remove1 ?h (freeable c), num_freeable_slots := num_freeable_slots c - n\<rparr>"
    have "allocate r i c = Inr (take_ref r i ?h [] ?c1)"
      using idle f n by (simp add: allocate_def Let_def take_ref_def)
    moreover have "accounts (cache_size c) ((map_of (enc_cached c))(?h \<mapsto> [?rid])) (map_of (entry_size c))
        (remove1 ?h (freeable c)) (num_free_slots c) (num_freeable_slots c - n)"
      using I idle n by (intro accounts_take) auto
    then have "enc_inv (take_ref r i ?h [] ?c1)"
      using I by (simp add: enc_inv_iff take_ref_def update_conv' distinct_update add_to_def)
    moreover have "map_of (enc_cached (take_ref r i ?h [] ?c1)) = (map_of (enc_cached c))(?h \<mapsto> [?rid])"
      by (simp add: take_ref_def update_conv' add_to_def)
    moreover have "get_cached_input_ids r ?c1 = get_cached_input_ids r c" by (rule get_ids_same) simp
    ultimately show ?thesis using take_ref_ids [of r i ?h "[]" ?c1] idle
      by (intro exI [of _ "take_ref r i ?h [] ?c1"] exI [of _ "[?rid]"]) (simp add: take_ref_def)
  next
    case held
    let ?rs = "add_to ?rid (y # ys)"
    have "allocate r i c = Inr (take_ref r i ?h (y # ys) c)"
      using held f by (simp add: allocate_def Let_def take_ref_def)
    moreover obtain z zs where z: "?rs = z # zs" by (metis add_to_nonempty neq_Nil_conv)
    have "accounts (cache_size c) ((map_of (enc_cached c))(?h \<mapsto> ?rs)) (map_of (entry_size c))
        (freeable c) (num_free_slots c) (num_freeable_slots c)"
      unfolding z using I held by (intro accounts_more) auto
    then have "enc_inv (take_ref r i ?h (y # ys) c)"
      using I by (simp add: enc_inv_iff take_ref_def update_conv' distinct_update)
    moreover have "map_of (enc_cached (take_ref r i ?h (y # ys) c)) = (map_of (enc_cached c))(?h \<mapsto> ?rs)"
      by (simp add: take_ref_def update_conv')
    ultimately show ?thesis using take_ref_ids [of r i ?h "y # ys" c] held
      by (intro exI [of _ "take_ref r i ?h (y # ys) c"] exI [of _ ?rs]) (simp add: take_ref_def)
  qed
qed

text \<open>Dropping one input of a request.\<close>

definition forget_id :: "request \<Rightarrow> nat \<Rightarrow> encoder_cache \<Rightarrow> encoder_cache" where
  "forget_id r i c =
     (case map_of (request_cached_ids c) (request_id r) of
        None \<Rightarrow> c
      | Some held \<Rightarrow>
          let held' = removeAll i held
          in c\<lparr>request_cached_ids :=
                 (if held' = [] then AList.delete (request_id r) (request_cached_ids c)
                  else AList.update (request_id r) held' (request_cached_ids c))\<rparr>)"

lemma forget_id_fields [simp]:
  "enc_cached (forget_id r i c) = enc_cached c" "freeable (forget_id r i c) = freeable c"
  "entry_size (forget_id r i c) = entry_size c" "cache_size (forget_id r i c) = cache_size c"
  "num_free_slots (forget_id r i c) = num_free_slots c"
  "num_freeable_slots (forget_id r i c) = num_freeable_slots c"
  by (simp_all add: forget_id_def Let_def split: option.split)

lemma forget_id_ids: "get_cached_input_ids r (forget_id r i c) = removeAll i (get_cached_input_ids r c)"
  by (auto simp: get_cached_input_ids_def forget_id_def Let_def update_conv' delete_conv' split: option.split)

lemma free_encoder_input_unfold:
  "free_encoder_input r i c = rbind (feature_at r i) (\<lambda>f.
     let h = mm_identifier f; c1 = forget_id r i c in
     case map_of (enc_cached c1) h of
       None \<Rightarrow> Inr c1
     | Some refs \<Rightarrow>
         let refs' = removeAll (request_id r) refs;
             c2 = c1\<lparr>enc_cached := AList.update h refs' (enc_cached c1)\<rparr>
         in if refs' = [] \<and> h \<notin> set (freeable c2) then
              (case map_of (entry_size c2) h of
                 None \<Rightarrow> Inl KeyError
               | Some n \<Rightarrow> Inr (c2\<lparr>freeable := freeable c2 @ [h],
                               num_freeable_slots := num_freeable_slots c2 + n\<rparr>))
            else Inr c2)"
  by (simp only: free_encoder_input_def forget_id_def Let_def)

lemma free_encoder_input_inv:
  assumes inv: "enc_inv c" and f: "feature_at r i = Inr f"
  shows "\<exists>c'. free_encoder_input r i c = Inr c' \<and> enc_inv c' \<and> cache_size c' = cache_size c \<and>
    resident c' = resident c \<and> num_free_slots c' = num_free_slots c \<and>
    (\<forall>h. map_of (enc_cached c') h =
       (if h = mm_identifier f then map_option (removeAll (request_id r)) (map_of (enc_cached c) h)
        else map_of (enc_cached c) h)) \<and>
    get_cached_input_ids r c' = removeAll i (get_cached_input_ids r c)"
proof -
  let ?h = "mm_identifier f" and ?rid = "request_id r" and ?c1 = "forget_id r i c"
  note I = inv [unfolded enc_inv_iff]
  have same: "get_cached_input_ids r c' = removeAll i (get_cached_input_ids r c)"
    if "request_cached_ids c' = request_cached_ids ?c1" for c'
    using get_ids_same [OF that, of r] forget_id_ids [of r i c] by simp
  show ?thesis
  proof (cases "map_of (enc_cached c) ?h")
    case None
    have "free_encoder_input r i c = Inr ?c1"
      using f None by (simp add: free_encoder_input_unfold Let_def)
    moreover have "enc_inv ?c1" by (rule enc_inv_cong [OF inv]) simp_all
    ultimately show ?thesis using None same [of ?c1]
      by (intro exI [of _ ?c1]) (auto simp: resident_def)
  next
    case (Some refs)
    let ?rs = "removeAll ?rid refs"
    let ?c2 = "?c1\<lparr>enc_cached := AList.update ?h ?rs (enc_cached ?c1)\<rparr>"
    have map: "map_of (enc_cached ?c2) = (map_of (enc_cached c))(?h \<mapsto> ?rs)" by (simp add: update_conv')
    have dom: "dom (map_of (enc_cached ?c2)) = dom (map_of (enc_cached c))"
      unfolding map using Some by auto
    obtain n where n: "map_of (entry_size c) ?h = Some n"
      using I Some accounts_size [where refs = "map_of (enc_cached c)" and h = ?h] by metis
    have fr: "?h \<in> set (freeable c) \<longleftrightarrow> refs = []"
      using I accounts_free [of _ "map_of (enc_cached c)" _ "freeable c" _ _ ?h] Some by (metis option.inject)
    show ?thesis
    proof (cases "?rs = [] \<and> ?h \<notin> set (freeable c)")
      case True
      then obtain y ys where refs: "refs = y # ys" using fr by (cases refs) auto
      let ?c' = "?c2\<lparr>freeable := freeable ?c2 @ [?h], num_freeable_slots := num_freeable_slots ?c2 + n\<rparr>"
      have run: "free_encoder_input r i c = Inr ?c'"
        using f Some True n by (simp add: free_encoder_input_unfold Let_def)
      have "accounts (cache_size c) ((map_of (enc_cached c))(?h \<mapsto> [])) (map_of (entry_size c))
          (freeable c @ [?h]) (num_free_slots c) (num_freeable_slots c + n)"
        using I Some refs n by (intro accounts_drop) auto
      then have "enc_inv ?c'"
        using I True by (simp add: enc_inv_iff update_conv' distinct_update)
      then show ?thesis using run same [of ?c'] map dom Some True
        by (intro exI [of _ ?c']) (auto simp: resident_def)
    next
      case False
      have run: "free_encoder_input r i c = Inr ?c2"
        using f Some False by (auto simp: free_encoder_input_unfold Let_def)
      have "accounts (cache_size c) ((map_of (enc_cached c))(?h \<mapsto> ?rs)) (map_of (entry_size c))
          (freeable c) (num_free_slots c) (num_freeable_slots c)"
      proof (cases "?rs")
        case Nil
        then have "refs = []" using False fr by simp
        then show ?thesis using I Some Nil accounts_idle by auto
      next
        case (Cons z zs)
        then obtain y ys where "refs = y # ys" by (cases refs) auto
        then show ?thesis unfolding Cons using I Some by (intro accounts_more) auto
      qed
      then have "enc_inv ?c2"
        using I by (simp add: enc_inv_iff update_conv' distinct_update)
      then show ?thesis using run same [of ?c2] map dom Some
        by (intro exI [of _ ?c2]) (auto simp: resident_def)
    qed
  qed
qed

lemma map_of_filter_keys: "h \<notin> A \<Longrightarrow> map_of (filter (\<lambda>(k, v). k \<notin> A) xs) h = map_of xs h"
  by (induction xs) auto

lemma referenced_not_freeable: "enc_inv c \<Longrightarrow> h \<in> referenced c \<Longrightarrow> h \<notin> set (freeable c)"
  unfolding enc_inv_def referenced_def mem_Collect_eq by (metis list.distinct(1) option.inject)

section \<open>The inputs held, per request\<close>

definition ids_of :: "encoder_cache \<Rightarrow> string \<Rightarrow> nat list" where
  "ids_of c rid = (case map_of (request_cached_ids c) rid of None \<Rightarrow> [] | Some ids \<Rightarrow> ids)"

lemma get_cached_input_ids_of: "get_cached_input_ids r c = ids_of c (request_id r)"
  by (simp add: get_cached_input_ids_def ids_of_def)

lemma ids_of_cong: "request_cached_ids c' = request_cached_ids c \<Longrightarrow> ids_of c' = ids_of c"
  by (simp add: ids_of_def fun_eq_iff)

definition claim_entry :: "mm_feature \<Rightarrow> encoder_cache \<Rightarrow> encoder_cache result" where
  "claim_entry f c =
     (case map_of (enc_cached c) (mm_identifier f) of
        None \<Rightarrow> Inr (c\<lparr>enc_cached := AList.update (mm_identifier f) [] (enc_cached c),
                     entry_size := AList.update (mm_identifier f) (num_embeds f) (entry_size c),
                     num_free_slots := num_free_slots c - num_embeds f,
                     num_freeable_slots := num_freeable_slots c - num_embeds f\<rparr>)
      | Some [] \<Rightarrow>
          (case map_of (entry_size c) (mm_identifier f) of
             None \<Rightarrow> Inl KeyError
           | Some n \<Rightarrow> Inr (c\<lparr>freeable := remove1 (mm_identifier f) (freeable c),
                           num_freeable_slots := num_freeable_slots c - n\<rparr>))
      | Some (_ # _) \<Rightarrow> Inr c)"

lemma allocate_unfold:
  "allocate r i c = rbind (feature_at r i) (\<lambda>f. rbind (claim_entry f c) (\<lambda>c1.
     Inr (take_ref r i (mm_identifier f)
       (case map_of (enc_cached c1) (mm_identifier f) of None \<Rightarrow> [] | Some rs \<Rightarrow> rs) c1)))"
  by (simp only: allocate_def claim_entry_def take_ref_def Let_def)

lemma claim_entry_ids: "claim_entry f c = Inr c1 \<Longrightarrow> request_cached_ids c1 = request_cached_ids c"
  unfolding claim_entry_def by (simp split: option.split_asm list.split_asm; force)

lemma take_ref_ids_of:
  "ids_of (take_ref r i h refs c) rid =
     (if rid = request_id r then add_to i (get_cached_input_ids r c) else ids_of c rid)"
  by (simp add: take_ref_def ids_of_def update_conv')

lemma allocate_ids:
  assumes "allocate r i c = Inr c'"
  shows "ids_of c' rid = (if rid = request_id r then add_to i (ids_of c rid) else ids_of c rid)"
proof -
  from assms obtain f c1 h refs where "claim_entry f c = Inr c1" "c' = take_ref r i h refs c1"
    unfolding allocate_unfold rbind_eq_Inr_iff by blast
  then show ?thesis using ids_of_cong [OF claim_entry_ids] by (simp add: take_ref_ids_of get_cached_input_ids_of)
qed

lemma forget_id_other: "rid \<noteq> request_id r \<Longrightarrow> ids_of (forget_id r i c) rid = ids_of c rid"
  by (auto simp: forget_id_def ids_of_def Let_def update_conv' delete_conv' split: option.split)

lemma free_encoder_input_ids:
  assumes "free_encoder_input r i c = Inr c'"
  shows "ids_of c' rid = (if rid = request_id r then removeAll i (ids_of c rid) else ids_of c rid)"
proof -
  from assms have "request_cached_ids c' = request_cached_ids (forget_id r i c)"
    unfolding free_encoder_input_unfold Let_def rbind_eq_Inr_iff
    by (elim exE conjE) (simp split: option.split_asm if_split_asm; force)
  then have "ids_of c' = ids_of (forget_id r i c)" by (rule ids_of_cong)
  then show ?thesis using forget_id_ids [of r i c] forget_id_other [of rid r i c]
    by (auto simp: get_cached_input_ids_of)
qed

text \<open>Dropping several inputs of one request, as \<open>free\<close> does.\<close>

lemma free_inputs_inv:
  assumes "enc_inv c" and "\<forall>i\<in>set is. i < length (mm_features r)"
  shows "\<exists>c'. foldE (free_encoder_input r) is c = Inr c' \<and> enc_inv c' \<and> cache_size c' = cache_size c \<and>
    ids_of c' (request_id r) = filter (\<lambda>i. i \<notin> set is) (ids_of c (request_id r)) \<and>
    (\<forall>rid. rid \<noteq> request_id r \<longrightarrow> ids_of c' rid = ids_of c rid) \<and>
    (\<forall>h. map_of (enc_cached c') h =
       (if h \<in> (\<lambda>i. mm_identifier (mm_features r ! i)) ` set is
        then map_option (removeAll (request_id r)) (map_of (enc_cached c) h) else map_of (enc_cached c) h))"
  using assms
proof (induction "is" arbitrary: c)
  case Nil
  then show ?case by simp
next
  case (Cons i "is")
  have f: "feature_at r i = Inr (mm_features r ! i)" using Cons.prems by (simp add: feature_at_def)
  from free_encoder_input_inv [OF Cons.prems(1) f] obtain c1 where
    c1: "free_encoder_input r i c = Inr c1" "enc_inv c1" "cache_size c1 = cache_size c"
    "\<forall>h. map_of (enc_cached c1) h =
       (if h = mm_identifier (mm_features r ! i) then map_option (removeAll (request_id r)) (map_of (enc_cached c) h)
        else map_of (enc_cached c) h)" by blast
  from Cons.IH [OF c1(2)] Cons.prems obtain c' where
    c': "foldE (free_encoder_input r) is c1 = Inr c'" "enc_inv c'" "cache_size c' = cache_size c1"
    "ids_of c' (request_id r) = filter (\<lambda>i. i \<notin> set is) (ids_of c1 (request_id r))"
    "\<forall>rid. rid \<noteq> request_id r \<longrightarrow> ids_of c' rid = ids_of c1 rid"
    "\<forall>h. map_of (enc_cached c') h =
       (if h \<in> (\<lambda>i. mm_identifier (mm_features r ! i)) ` set is
        then map_option (removeAll (request_id r)) (map_of (enc_cached c1) h) else map_of (enc_cached c1) h)" by auto
  note ids = free_encoder_input_ids [OF c1(1)]
  have idem: "removeAll x (removeAll x ys) = removeAll x ys" for x :: string and ys by simp
  have "\<forall>h. map_of (enc_cached c') h =
       (if h \<in> (\<lambda>i. mm_identifier (mm_features r ! i)) ` set (i # is)
        then map_option (removeAll (request_id r)) (map_of (enc_cached c) h) else map_of (enc_cached c) h)"
    using c'(6) c1(4) by (auto simp: option.map_comp comp_def)
  moreover have "ids_of c' (request_id r) = filter (\<lambda>j. j \<notin> set (i # is)) (ids_of c (request_id r))"
    using c'(4) ids by (auto simp: removeAll_filter_not_eq intro!: filter_cong)
  ultimately show ?case using c1 c' ids by auto
qed

lemma enc_free_inv:
  assumes "enc_inv c" and "\<forall>i\<in>set (get_cached_input_ids r c). i < length (mm_features r)"
  shows "\<exists>c'. enc_free r c = Inr c' \<and> enc_inv c' \<and> cache_size c' = cache_size c \<and>
    get_cached_input_ids r c' = [] \<and> (\<forall>rid. rid \<noteq> request_id r \<longrightarrow> ids_of c' rid = ids_of c rid) \<and>
    (\<forall>i\<in>set (get_cached_input_ids r c).
       \<forall>rs. map_of (enc_cached c') (mm_identifier (mm_features r ! i)) = Some rs \<longrightarrow> request_id r \<notin> set rs)"
proof -
  from free_inputs_inv [OF assms] obtain c' where
    c': "enc_free r c = Inr c'" "enc_inv c'" "cache_size c' = cache_size c"
    "ids_of c' (request_id r) = filter (\<lambda>i. i \<notin> set (get_cached_input_ids r c)) (ids_of c (request_id r))"
    "\<forall>rid. rid \<noteq> request_id r \<longrightarrow> ids_of c' rid = ids_of c rid"
    "\<forall>h. map_of (enc_cached c') h =
       (if h \<in> (\<lambda>i. mm_identifier (mm_features r ! i)) ` set (get_cached_input_ids r c)
        then map_option (removeAll (request_id r)) (map_of (enc_cached c) h) else map_of (enc_cached c) h)"
    unfolding enc_free_def by blast
  moreover have "filter (\<lambda>i. i \<notin> set xs) xs = []" for xs :: "nat list" by simp
  ultimately show ?thesis by (auto simp: get_cached_input_ids_of)
qed

end
