(* ===== verification/Connector.thy ===== *)
theory Connector
  imports RequestState
begin

text \<open>
  \<open>pvllm/sim/kv_store.py\<close> and \<open>pvllm/distributed/kv_transfer/sim_connector.py\<close>: the external KV
  store and the connector to it. The store is a set of keys with insertion order; no bytes
  move. A store is shared by name, so the connector's methods take it and return it; the
  registry \<open>_STORES\<close> is an association list.

  Rates and durations are rational numbers (floats in the source). The part of the
  constructor that reads the model card is the argument \<open>windowed\<close>.
\<close>

section \<open>The store\<close>

record kv_store =
  store_name :: string
  bandwidth_bytes_per_second :: rat
  latency_seconds :: rat
  capacity_blocks :: "int option"
  resident_keys :: "string list" \<comment> \<open>\<open>resident\<close>, oldest first\<close>
  num_lookups :: int
  store_hits :: int
  bytes_read :: int
  bytes_written :: int

definition kv_store_init :: "string \<Rightarrow> rat \<Rightarrow> rat \<Rightarrow> int option \<Rightarrow> kv_store result" where
  "kv_store_init name bw lat cap =
     (if bw \<le> 0 then Inl ValueError
      else if lat < 0 then Inl ValueError
      else Inr \<lparr>store_name = name, bandwidth_bytes_per_second = bw, latency_seconds = lat,
                capacity_blocks = cap, resident_keys = [], num_lookups = 0, store_hits = 0,
                bytes_read = 0, bytes_written = 0\<rparr>)"

fun count_prefix :: "string list \<Rightarrow> string list \<Rightarrow> nat" where
  "count_prefix [] keys = 0"
| "count_prefix (h # hs) keys = (if h \<in> set keys then Suc (count_prefix hs keys) else 0)"

definition longest_prefix :: "string list \<Rightarrow> kv_store \<Rightarrow> nat \<times> kv_store" where
  "longest_prefix hs s =
     (let matched = count_prefix hs (resident_keys s)
      in (matched, s\<lparr>num_lookups := num_lookups s + int (length hs),
                     store_hits := store_hits s + int matched\<rparr>))"

definition transfer_seconds :: "kv_store \<Rightarrow> int \<Rightarrow> rat" where
  "transfer_seconds s n =
     (if n \<le> 0 then 0 else latency_seconds s + of_int n / bandwidth_bytes_per_second s)"

definition store_read :: "int \<Rightarrow> kv_store \<Rightarrow> rat \<times> kv_store" where
  "store_read n s = (let s' = s\<lparr>bytes_read := bytes_read s + n\<rparr> in (transfer_seconds s' n, s'))"

text \<open>\<open>resident.pop(h, None); resident[h] = None\<close>: the key becomes the most recent.\<close>

definition refresh_key :: "string \<Rightarrow> string list \<Rightarrow> string list" where
  "refresh_key h keys = filter (\<lambda>k. k \<noteq> h) keys @ [h]"

fun evict_oldest :: "int \<Rightarrow> string list \<Rightarrow> string list result" where
  "evict_oldest cap [] = (if cap < 0 then Inl StopIteration else Inr [])"
| "evict_oldest cap (k # ks) =
     (if cap < int (length (k # ks)) then evict_oldest cap ks else Inr (k # ks))"

definition store_write :: "string list \<Rightarrow> int \<Rightarrow> kv_store \<Rightarrow> (rat \<times> kv_store) result" where
  "store_write hs n s =
     (let keys = fold refresh_key hs (resident_keys s)
      in rbind (case capacity_blocks s of None \<Rightarrow> Inr keys | Some cap \<Rightarrow> evict_oldest cap keys) (\<lambda>keys'.
         let s' = s\<lparr>resident_keys := keys', bytes_written := bytes_written s + n\<rparr>
         in Inr (transfer_seconds s' n, s')))"

definition store_clear :: "kv_store \<Rightarrow> kv_store" where
  "store_clear s = s\<lparr>resident_keys := [], num_lookups := 0, store_hits := 0, bytes_read := 0, bytes_written := 0\<rparr>"

type_synonym store_registry = "(string \<times> kv_store) list"

text \<open>\<open>get_store\<close>: an argument that is \<open>None\<close> is not given, and then takes the class default.\<close>

definition get_store ::
  "string \<Rightarrow> rat option \<Rightarrow> rat option \<Rightarrow> int option \<Rightarrow> store_registry \<Rightarrow> (kv_store \<times> store_registry) result" where
  "get_store name bw lat cap stores =
     (case map_of stores name of
        None \<Rightarrow>
          rbind (kv_store_init name (case bw of None \<Rightarrow> 10 ^ 10 | Some b \<Rightarrow> b)
                   (case lat of None \<Rightarrow> 1 / 1000 | Some l \<Rightarrow> l) cap) (\<lambda>s.
          Inr (s, AList.update name s stores))
      | Some s \<Rightarrow>
          if (bw \<noteq> None \<and> bw \<noteq> Some (bandwidth_bytes_per_second s)) \<or>
             (lat \<noteq> None \<and> lat \<noteq> Some (latency_seconds s)) \<or>
             (cap \<noteq> None \<and> cap \<noteq> capacity_blocks s)
          then Inl ValueError else Inr (s, stores))"

section \<open>The connector\<close>

datatype kv_role = KVProducer | KVConsumer | KVBoth

record sim_connector =
  conn_block_size :: int
  namespace :: string
  may_load :: bool
  may_save :: bool
  block_bytes :: int
  pending_loads :: "(string \<times> int list \<times> int) list"
  pending_saves :: "(string \<times> int list \<times> int) list"
  load_seconds :: rat
  save_seconds :: rat
  unpaid_save_seconds :: rat

text \<open>\<open>namespace_parts\<close> are the six values joined with a bar.\<close>

fun join_bar :: "string list \<Rightarrow> string" where
  "join_bar [] = []"
| "join_bar [s] = s"
| "join_bar (s # t # ss) = s @ ''|'' @ join_bar (t # ss)"

definition sim_connector_init ::
  "bool \<Rightarrow> bool \<Rightarrow> int \<Rightarrow> string list \<Rightarrow> kv_role option \<Rightarrow> sim_connector result" where
  "sim_connector_init prefix_caching windowed bs namespace_parts role =
     (if \<not> prefix_caching then Inl ValueError
      else if windowed then Inl NotImplementedError
      else let role_name = (case role of None \<Rightarrow> KVBoth | Some r \<Rightarrow> r)
           in Inr \<lparr>conn_block_size = bs, namespace = join_bar namespace_parts,
                   may_load = (role_name = KVConsumer \<or> role_name = KVBoth),
                   may_save = (role_name = KVProducer \<or> role_name = KVBoth),
                   block_bytes = 0, pending_loads = [], pending_saves = [],
                   load_seconds = 0, save_seconds = 0, unpaid_save_seconds = 0\<rparr>)"

definition store_key :: "sim_connector \<Rightarrow> block_hash_t \<Rightarrow> string" where
  "store_key c h = namespace c @ ''|'' @ h"

definition set_block_bytes :: "int \<Rightarrow> sim_connector \<Rightarrow> sim_connector" where
  "set_block_bytes n c = c\<lparr>block_bytes := n\<rparr>"

definition get_num_new_matched_tokens ::
  "request \<Rightarrow> int \<Rightarrow> sim_connector \<Rightarrow> kv_store \<Rightarrow> int \<times> kv_store" where
  "get_num_new_matched_tokens r num_computed c s =
     (if \<not> may_load c \<or> block_hashes r = [] \<or> block_bytes c = 0 then (0, s)
      else
        let local_blocks = nat (num_computed div conn_block_size c);
            remaining = drop local_blocks (block_hashes r)
        in if remaining = [] then (0, s)
           else
             let (matched, s') = longest_prefix (map (store_key c) remaining) s
             in if matched = 0 then (0, s')
                else
                  let matched' = (if length (block_hashes r) \<le> local_blocks + matched
                                  then int matched - 1 else int matched)
                  in if matched' \<le> 0 then (0, s') else (matched' * conn_block_size c, s'))"

definition update_state_after_alloc ::
  "request \<Rightarrow> bref list list \<Rightarrow> int \<Rightarrow> sim_connector \<Rightarrow> sim_connector result" where
  "update_state_after_alloc r blocks num_external c =
     (if num_external \<le> 0 then Inr c
      else case map (map block_id) blocks of
             [] \<Rightarrow> Inl IndexError
           | ids # _ \<Rightarrow>
               let local_blocks = num_computed_tokens r div conn_block_size c;
                   n = num_external div conn_block_size c
               in Inr (c\<lparr>pending_loads := AList.update (request_id r)
                          (slice ids local_blocks (local_blocks + n), num_external) (pending_loads c)\<rparr>))"

type_synonym connector_meta = "(string \<times> int list \<times> int) list \<times> (string \<times> int list \<times> int) list"

definition build_connector_meta :: "sim_connector \<Rightarrow> connector_meta \<times> sim_connector" where
  "build_connector_meta c =
     ((pending_loads c, pending_saves c), c\<lparr>pending_loads := [], pending_saves := []\<rparr>)"

text \<open>\<open>request_finished\<close>: the flag says whether the blocks must be held back.\<close>

definition request_finished ::
  "request \<Rightarrow> sim_connector \<Rightarrow> kv_store \<Rightarrow> (bool \<times> sim_connector \<times> kv_store) result" where
  "request_finished r c s =
     (if \<not> may_save c \<or> block_hashes r = [] \<or> block_bytes c = 0 then Inr (False, c, s)
      else
        let computed = min (num_computed_tokens r div conn_block_size c) (int (length (block_hashes r)))
        in if computed \<le> 0 then Inr (False, c, s)
           else
             let hs = map (store_key c) (take (nat computed) (block_hashes r))
             in rbind (store_write hs (int (length hs) * block_bytes c) s) (\<lambda>(seconds, s').
                Inr (False, c\<lparr>save_seconds := save_seconds c + seconds,
                              unpaid_save_seconds := unpaid_save_seconds c + seconds\<rparr>, s')))"

definition start_load_kv :: "connector_meta \<Rightarrow> sim_connector \<Rightarrow> kv_store \<Rightarrow> rat \<times> sim_connector \<times> kv_store" where
  "start_load_kv meta c s =
     (if fst meta = [] \<or> block_bytes c = 0 then (0, c, s)
      else
        let n = sum_list (map (\<lambda>(rid, ids, toks). int (length ids)) (fst meta));
            (seconds, s') = store_read (n * block_bytes c) s
        in (seconds, c\<lparr>load_seconds := load_seconds c + seconds\<rparr>, s'))"

definition wait_for_save :: "sim_connector \<Rightarrow> rat \<times> sim_connector" where
  "wait_for_save c = (unpaid_save_seconds c, c\<lparr>unpaid_save_seconds := 0\<rparr>)"

section \<open>The store as a bounded recency list\<close>

lemma count_prefix_takeWhile: "count_prefix hs keys = length (takeWhile (\<lambda>h. h \<in> set keys) hs)"
  by (induction hs) auto

lemma count_prefix_le: "count_prefix hs keys \<le> length hs"
  by (simp add: count_prefix_takeWhile length_takeWhile_le)

lemma set_refresh: "set (fold refresh_key hs keys) = set hs \<union> set keys"
  by (induction hs arbitrary: keys) (auto simp: refresh_key_def)

lemma distinct_refresh: "distinct keys \<Longrightarrow> distinct (fold refresh_key hs keys)"
  by (induction hs arbitrary: keys) (auto simp: refresh_key_def)

text \<open>The keys just written are the most recent ones, in the order written.\<close>

lemma refresh_recent:
  assumes "distinct hs"
  shows "fold refresh_key hs keys = filter (\<lambda>k. k \<notin> set hs) keys @ hs"
  using assms
proof (induction hs arbitrary: keys)
  case (Cons h hs)
  then show ?case by (auto simp: refresh_key_def intro: filter_cong)
qed simp

lemma evict_oldest_spec:
  "0 \<le> cap \<Longrightarrow> evict_oldest cap keys = Inr (drop (length keys - nat cap) keys)"
  by (induction keys) (auto simp: Suc_diff_le nat_le_iff not_less)

lemma store_write_spec:
  assumes cap: "\<forall>cap. capacity_blocks s = Some cap \<longrightarrow> 0 \<le> cap"
  shows "\<exists>t s'. store_write hs n s = Inr (t, s') \<and>
    resident_keys s' = (let keys = fold refresh_key hs (resident_keys s) in
      case capacity_blocks s of None \<Rightarrow> keys | Some cap \<Rightarrow> drop (length keys - nat cap) keys) \<and>
    capacity_blocks s' = capacity_blocks s"
  using cap evict_oldest_spec
  by (cases "capacity_blocks s") (auto simp: store_write_def Let_def)

text \<open>What a producer publishes, a consumer with the same namespace finds.\<close>

lemma publish_then_match:
  assumes cap: "capacity_blocks s = None"
    and hs: "\<exists>t. store_write (map (store_key c) hs) n s = Inr (t, s')"
  shows "length hs \<le> fst (longest_prefix (map (store_key c) (hs @ rest)) s')"
proof -
  from hs cap have "resident_keys s' = fold refresh_key (map (store_key c) hs) (resident_keys s)"
    by (auto simp: store_write_def Let_def)
  then have all: "\<forall>k\<in>set (map (store_key c) hs). k \<in> set (resident_keys s')"
    by (simp add: set_refresh)
  have "length xs \<le> count_prefix (xs @ ys) keys" if "\<forall>k\<in>set xs. k \<in> set keys" for xs ys keys
    using that by (induction xs) auto
  from this [OF all, of "map (store_key c) rest"] show ?thesis
    by (simp add: longest_prefix_def Let_def)
qed

text \<open>
  The match never covers the last block of the request, so a token is left to compute, and it
  is a whole number of blocks.
\<close>

lemma matched_leaves_work:
  assumes bs: "0 < conn_block_size c" and n: "0 \<le> n"
    and m: "get_num_new_matched_tokens r n c s = (m, s')"
    and h: "int (length (block_hashes r)) * conn_block_size c \<le> num_tokens r"
    and al: "n mod conn_block_size c = 0"
  shows "0 \<le> m" and "m mod conn_block_size c = 0" and "0 < m \<Longrightarrow> n + m + conn_block_size c \<le> num_tokens r"
proof -
  let ?bs = "conn_block_size c"
  let ?l = "nat (n div ?bs)"
  have l: "int ?l * ?bs = n" using bs n al by (auto simp: pos_imp_zdiv_nonneg_iff)
  have main: "m = 0 \<or> (\<exists>k>0. m = k * ?bs \<and> int ?l + k < int (length (block_hashes r)))"
  proof (cases "\<not> may_load c \<or> block_hashes r = [] \<or> block_bytes c = 0 \<or> drop ?l (block_hashes r) = []")
    case True
    then show ?thesis using m by (auto simp: get_num_new_matched_tokens_def Let_def split: if_splits)
  next
    case False
    define q where "q = count_prefix (map (store_key c) (drop ?l (block_hashes r))) (resident_keys s)"
    have "q \<le> length (block_hashes r) - ?l"
      using count_prefix_le [of "map (store_key c) (drop ?l (block_hashes r))" "resident_keys s"]
      by (simp add: q_def)
    then have "?l + q \<le> length (block_hashes r)" using False by auto
    then have bound: "int ?l + int q \<le> int (length (block_hashes r))" by (metis of_nat_add of_nat_le_iff)
    define k where "k = (if length (block_hashes r) \<le> ?l + q then int q - 1 else int q)"
    have "int ?l + k < int (length (block_hashes r))" using bound by (auto simp: k_def)
    moreover have "m = (if q = 0 \<or> k \<le> 0 then 0 else k * ?bs)"
      using m False
      by (simp add: get_num_new_matched_tokens_def longest_prefix_def Let_def q_def [symmetric]
          k_def [symmetric] split: if_splits)
    ultimately show ?thesis by (metis not_le)
  qed
  show "0 \<le> m" "m mod ?bs = 0" using main bs by auto
  assume "0 < m"
  with main obtain k where k: "m = k * ?bs" "int ?l + k + 1 \<le> int (length (block_hashes r))" by force
  have "(int ?l + k + 1) * ?bs \<le> int (length (block_hashes r)) * ?bs"
    using k(2) bs by (intro mult_right_mono) auto
  then show "n + m + ?bs \<le> num_tokens r" using h l k(1) by (simp add: algebra_simps)
qed

end
