(* ===== verification/Scheduler.thy ===== *)
theory Scheduler
  imports KVManager RequestQueue EncoderCache Connector
begin

text \<open>
  \<open>pvllm/v1/core/sched/scheduler.py\<close>: which requests run in a step, and how the results are
  folded back.

  Request objects are shared in the source: the dictionary \<open>requests\<close>, the running list and the
  waiting queues hold the same objects. Here \<open>requests\<close> is the store of the objects, by id, and
  the lists hold ids; \<open>req s rid\<close> is the object. Everything a step changes is in the record
  \<open>scheduler\<close>; the local variables of \<open>schedule\<close> are the record \<open>step\<close>, which extends it by
  inclusion. The trace sink is absent (\<open>trace=None\<close>, its default); logging and the statistics
  snapshot for the metrics layer change nothing.
\<close>

section \<open>State\<close>

record scheduler_config =
  max_num_running_reqs :: int
  max_num_scheduled_tokens :: int
  max_model_len :: int
  max_num_partial_prefills :: int
  enable_chunked_prefill :: bool
  long_prefill_token_threshold :: int
  sched_policy :: scheduling_policy
  max_loras :: "int option" \<comment> \<open>\<open>None\<close> without a LoRA configuration\<close>
  spec_disable_by_batch_size :: "int option"
  max_num_encoder_input_tokens :: int

record scheduler =
  conf :: scheduler_config
  kvm :: kv_cache_manager
  requests :: "(string \<times> request) list"
  running :: "string list"
  waiting :: request_queue
  skipped_waiting :: request_queue
  finished_req_ids :: "string set"
  step_index :: int
  num_preemptions_total :: int
  pending_scheduled :: "string list"
  grammar_compile_error_reqs :: "string set"
  encoder :: encoder_cache
  connector :: "(sim_connector \<times> kv_store) option"
  num_draft_tokens_total :: int
  num_accepted_tokens_total :: int

definition req :: "scheduler \<Rightarrow> string \<Rightarrow> request" where
  "req s rid = the (map_of (requests s) rid)"

definition set_req :: "string \<Rightarrow> request \<Rightarrow> scheduler \<Rightarrow> scheduler" where
  "set_req rid r s = s\<lparr>requests := AList.update rid r (requests s)\<rparr>"

definition scheduler_init ::
  "hash_fn \<Rightarrow> scheduler_config \<Rightarrow> kv_cache_config \<Rightarrow> bool \<Rightarrow> int \<Rightarrow> int \<Rightarrow> (sim_connector \<times> kv_store) option \<Rightarrow>
   scheduler result" where
  "scheduler_init H cf kvc caching seed encoder_cache_size conn =
     rbind (kv_cache_manager_init H kvc (max_model_len cf) caching False seed) (\<lambda>k.
     rbind (encoder_cache_init encoder_cache_size) (\<lambda>enc.
     Inr \<lparr>conf = cf, kvm = k, requests = [], running = [],
          waiting = create_request_queue (sched_policy cf),
          skipped_waiting = create_request_queue (sched_policy cf), finished_req_ids = {},
          step_index = 0, num_preemptions_total = 0, pending_scheduled = [],
          grammar_compile_error_reqs = {}, encoder = enc, connector = conn,
          num_draft_tokens_total = 0, num_accepted_tokens_total = 0\<rparr>))"

section \<open>Admission and counts\<close>

definition sched_add_request :: "hash_fn \<Rightarrow> request \<Rightarrow> scheduler \<Rightarrow> scheduler" where
  "sched_add_request H r s =
     (let r' = (case kvm_block_hasher (kvm s) of None \<Rightarrow> r | Some h \<Rightarrow> attach_block_hasher H h r)
      in s\<lparr>waiting := add_request (sort_key r') (waiting s),
           requests := AList.update (request_id r') r' (requests s)\<rparr>)"

definition has_requests :: "scheduler \<Rightarrow> bool" where
  "has_requests s \<longleftrightarrow> running s \<noteq> [] \<or> queue_list (waiting s) \<noteq> [] \<or> queue_list (skipped_waiting s) \<noteq> [] \<or>
     finished_req_ids s \<noteq> {}"

definition get_num_unfinished_requests :: "scheduler \<Rightarrow> int" where
  "get_num_unfinished_requests s =
     int (length (queue_list (waiting s)) + length (running s) + length (queue_list (skipped_waiting s)))"

definition get_request_counts :: "scheduler \<Rightarrow> int \<times> int" where
  "get_request_counts s =
     (int (length (running s)), int (length (queue_list (waiting s)) + length (queue_list (skipped_waiting s))))"

definition num_partial_prefills :: "scheduler \<Rightarrow> int" where
  "num_partial_prefills s = int (length (filter (\<lambda>rid. is_prefill_chunk (req s rid)) (running s)))"

section \<open>Encoder inputs\<close>

text \<open>The loop of \<open>_schedule_encoder\<close> over the items, from \<open>i\<close> on.\<close>

fun schedule_encoder_loop ::
  "request \<Rightarrow> int \<Rightarrow> int \<Rightarrow> int \<Rightarrow> int \<Rightarrow> nat list \<Rightarrow> nat list \<Rightarrow> int \<Rightarrow> encoder_cache \<Rightarrow>
   (int \<times> nat list \<times> int \<times> encoder_cache) result" where
  "schedule_encoder_loop r start end_pos num_new max_enc [] scheduled budget c =
     Inr (num_new, scheduled, budget, c)"
| "schedule_encoder_loop r start end_pos num_new max_enc (i # is) scheduled budget c =
     (let f = mm_features r ! i in
      if end_pos \<le> mm_position f \<or> mm_position f + mm_length f \<le> start then
        schedule_encoder_loop r start end_pos num_new max_enc is scheduled budget c
      else if i \<in> set (get_cached_input_ids r c) then
        schedule_encoder_loop r start end_pos num_new max_enc is scheduled budget c
      else
        rbind (has_cache r i c) (\<lambda>hit.
        let c1 = record_lookup hit c in
        if hit then
          rbind (allocate r i c1) (\<lambda>c2.
          schedule_encoder_loop r start end_pos num_new max_enc is scheduled budget c2)
        else if max_enc < num_embeds f \<or> cache_size c1 < num_embeds f then Inl ValueError
        else if budget < num_embeds f then Inr (max 0 (mm_position f - start), scheduled, budget, c1)
        else
          rbind (can_allocate r i c1) (\<lambda>(ok, c2).
          if \<not> ok then Inr (max 0 (mm_position f - start), scheduled, budget, c2)
          else rbind (allocate r i c2) (\<lambda>c3.
               schedule_encoder_loop r start end_pos num_new max_enc is (scheduled @ [i])
                 (budget - num_embeds f) c3))))"

definition schedule_encoder ::
  "request \<Rightarrow> int \<Rightarrow> int \<Rightarrow> scheduler \<Rightarrow> (int \<times> nat list \<times> int \<times> scheduler) result" where
  "schedule_encoder r num_new budget s =
     (if mm_features r = [] then Inr (num_new, [], budget, s)
      else
        rbind (schedule_encoder_loop r (num_computed_tokens r) (num_computed_tokens r + num_new) num_new
                 (max_num_encoder_input_tokens (conf s)) [0..<length (mm_features r)] [] budget (encoder s))
          (\<lambda>(n, ids, budget', c). Inr (n, ids, budget', s\<lparr>encoder := c\<rparr>)))"

text \<open>The budget given back, and the cache without the references.\<close>

fun release_inputs :: "request \<Rightarrow> nat list \<Rightarrow> encoder_cache \<Rightarrow> (int \<times> encoder_cache) result" where
  "release_inputs r [] c = Inr (0, c)"
| "release_inputs r (i # is) c =
     rbind (feature_at r i) (\<lambda>f.
     rbind (free_encoder_input r i c) (\<lambda>c1.
     rbind (release_inputs r is c1) (\<lambda>(n, c2).
     Inr (num_embeds f + n, c2))))"

text \<open>\<open>_free_encoder_inputs\<close>: references whose placeholders are fully computed.\<close>

definition free_encoder_inputs :: "request \<Rightarrow> scheduler \<Rightarrow> scheduler result" where
  "free_encoder_inputs r s =
     rbind (foldE (\<lambda>i c. rbind (feature_at r i) (\<lambda>f.
              if mm_position f + mm_length f \<le> num_computed_tokens r then free_encoder_input r i c else Inr c))
            (get_cached_input_ids r (encoder s)) (encoder s)) (\<lambda>c.
     Inr (s\<lparr>encoder := c\<rparr>))"

section \<open>Preemption\<close>

definition preempt_request :: "string \<Rightarrow> scheduler \<Rightarrow> scheduler result" where
  "preempt_request rid s =
     (let r = req s rid in
      if status r \<noteq> RUNNING then Inl AssertionError
      else
        rbind (kvm_free r (kvm s)) (\<lambda>k.
        let r' = r\<lparr>status := PREEMPTED, num_computed_tokens := 0,
                   num_preemptions := num_preemptions r + 1, spec_token_ids := []\<rparr>
        in Inr (set_req rid r' (s\<lparr>kvm := k, num_preemptions_total := num_preemptions_total s + 1,
                                  waiting := prepend_request (sort_key r') (waiting s)\<rparr>))))"

text \<open>\<open>max(self.running, key=...)\<close>: the first of the greatest elements.\<close>

definition victim_key :: "request \<Rightarrow> int \<times> rat" where
  "victim_key r = (priority r, arrival_time r)"

fun first_max :: "('a \<Rightarrow> 'k :: linorder) \<Rightarrow> 'a \<Rightarrow> 'a list \<Rightarrow> 'a" where
  "first_max key best [] = best"
| "first_max key best (x # xs) = first_max key (if key best < key x then x else best) xs"

section \<open>The local state of a step\<close>

record step =
  sched :: scheduler
  token_budget :: int
  encoder_budget :: int
  req_to_new_blocks :: "(string \<times> bref list list) list"
  num_scheduled_tokens :: "(string \<times> int) list"
  scheduled_spec_decode_tokens :: "(string \<times> int list) list"
  scheduled_encoder_inputs :: "(string \<times> nat list) list"
  scheduled_running_reqs :: "string list"
  scheduled_new_reqs :: "string list"
  scheduled_resumed_reqs :: "string list"
  preempted_reqs :: "string list"
  req_index :: int
  scheduled_loras :: "int list"

definition encoder_inputs_of :: "string \<Rightarrow> step \<Rightarrow> nat list" where
  "encoder_inputs_of rid st = (case map_of (scheduled_encoder_inputs st) rid of None \<Rightarrow> [] | Some ids \<Rightarrow> ids)"

text \<open>\<open>_release_encoder_reservation\<close>, with its caller's addition to the encoder budget.\<close>

definition release_encoder_reservation :: "string \<Rightarrow> nat list \<Rightarrow> step \<Rightarrow> step result" where
  "release_encoder_reservation rid ids st =
     rbind (release_inputs (req (sched st) rid) ids (encoder (sched st))) (\<lambda>(n, c).
     Inr (st\<lparr>scheduled_encoder_inputs := AList.delete rid (scheduled_encoder_inputs st),
             encoder_budget := encoder_budget st + n, sched := (sched st)\<lparr>encoder := c\<rparr>\<rparr>))"

text \<open>Choosing the victim and taking it out of the running list and of the step.\<close>

definition take_victim :: "step \<Rightarrow> (string \<times> step) result" where
  "take_victim st =
     (let s = sched st in
      case sched_policy (conf s) of
        PRIORITY \<Rightarrow>
          (case running s of
             [] \<Rightarrow> Inl ValueError
           | rid0 # rids \<Rightarrow>
               let v = first_max (\<lambda>rid. victim_key (req s rid)) rid0 rids;
                   st1 = st\<lparr>sched := s\<lparr>running := remove1 v (running s)\<rparr>\<rparr>
               in if v \<in> set (scheduled_running_reqs st) then
                    (case map_of (num_scheduled_tokens st) v of
                       None \<Rightarrow> Inl KeyError
                     | Some n \<Rightarrow>
                         Inr (v, st1\<lparr>scheduled_running_reqs := remove1 v (scheduled_running_reqs st),
                                     token_budget := token_budget st + n,
                                     num_scheduled_tokens := AList.delete v (num_scheduled_tokens st),
                                     req_to_new_blocks := AList.delete v (req_to_new_blocks st),
                                     req_index := req_index st - 1\<rparr>))
                  else Inr (v, st1))
      | FCFS \<Rightarrow>
          (case running s of
             [] \<Rightarrow> Inl IndexError
           | _ \<Rightarrow> Inr (last (running s), st\<lparr>sched := s\<lparr>running := butlast (running s)\<rparr>\<rparr>)))"

definition preempt_victim :: "step \<Rightarrow> (string \<times> step) result" where
  "preempt_victim st =
     rbind (take_victim st) (\<lambda>(v, st1).
     rbind (release_encoder_reservation v (encoder_inputs_of v st1) st1) (\<lambda>st2.
     rbind (preempt_request v (sched st2)) (\<lambda>s3.
     Inr (v, st2\<lparr>sched := s3, preempted_reqs := preempted_reqs st2 @ [v]\<rparr>))))"

lemma first_max_in: "first_max key x xs \<in> set (x # xs)"
  by (induction xs arbitrary: x) (auto split: if_splits)

lemma first_max_ge_start: "key x \<le> key (first_max key x xs)"
proof (induction xs arbitrary: x)
  case (Cons z zs)
  have "key x \<le> key (if key x < key z then z else x)" by auto
  also have "\<dots> \<le> key (first_max key (if key x < key z then z else x) zs)" by (rule Cons.IH)
  finally show ?case by simp
qed simp

lemma first_max_greatest: "y \<in> set (x # xs) \<Longrightarrow> key y \<le> key (first_max key x xs)"
proof (induction xs arbitrary: x)
  case (Cons z zs)
  let ?w = "if key x < key z then z else x"
  have w: "key ?w \<le> key (first_max key ?w zs)" by (rule first_max_ge_start)
  consider "y = x" | "y = z" | "y \<in> set zs" using Cons.prems by auto
  then show ?case
  proof cases
    case 3
    then show ?thesis using Cons.IH [of ?w] by simp
  qed (use w in \<open>auto split: if_splits\<close>)
qed simp

lemma set_req_simps [simp, frame_simps]:
  "conf (set_req rid r s) = conf s" "kvm (set_req rid r s) = kvm s" "running (set_req rid r s) = running s"
  "waiting (set_req rid r s) = waiting s" "skipped_waiting (set_req rid r s) = skipped_waiting s"
  "finished_req_ids (set_req rid r s) = finished_req_ids s" "encoder (set_req rid r s) = encoder s"
  "connector (set_req rid r s) = connector s"
  "req (set_req rid r s) x = (if x = rid then r else req s x)"
  "requests (set_req rid r s) = AList.update rid r (requests s)"
  by (simp_all add: set_req_def req_def update_conv')

lemma preempt_request_running: "preempt_request rid s = Inr s' \<Longrightarrow> running s' = running s \<and> conf s' = conf s"
  by (auto simp: preempt_request_def Let_def rbind_eq_Inr_iff split: if_splits)

lemma take_victim_running:
  assumes "take_victim st = Inr (v, st')"
  shows "v \<in> set (running (sched st))" and "running (sched st') = remove1 v (running (sched st)) \<or>
      running (sched st') = butlast (running (sched st)) \<and> v = last (running (sched st))"
    and "length (running (sched st')) + 1 = length (running (sched st))"
    and "req_index st - 1 \<le> req_index st'" and "sched_policy (conf (sched st)) = FCFS \<Longrightarrow> req_index st' = req_index st"
proof -
  have "v \<in> set (running (sched st)) \<and>
      (running (sched st') = remove1 v (running (sched st)) \<or>
       running (sched st') = butlast (running (sched st)) \<and> v = last (running (sched st))) \<and>
      req_index st - 1 \<le> req_index st' \<and> (sched_policy (conf (sched st)) = FCFS \<longrightarrow> req_index st' = req_index st)"
  proof (cases "running (sched st)")
    case Nil
    then show ?thesis using assms by (auto simp: take_victim_def Let_def split: scheduling_policy.splits)
  next
    case (Cons x xs)
    have "first_max (\<lambda>rid. victim_key (req (sched st) rid)) x xs \<in> set (x # xs)" by (rule first_max_in)
    then show ?thesis using assms Cons
      by (auto simp: take_victim_def Let_def split: scheduling_policy.splits if_splits option.splits)
  qed
  moreover have "0 < length (running (sched st))" using calculation by (auto intro: length_pos_if_in_set)
  ultimately show "v \<in> set (running (sched st))" "running (sched st') = remove1 v (running (sched st)) \<or>
      running (sched st') = butlast (running (sched st)) \<and> v = last (running (sched st))"
    "length (running (sched st')) + 1 = length (running (sched st))" "req_index st - 1 \<le> req_index st'"
    "sched_policy (conf (sched st)) = FCFS \<Longrightarrow> req_index st' = req_index st"
    by (auto simp: length_remove1)
qed

lemma release_running:
  "release_encoder_reservation rid ids st = Inr st' \<Longrightarrow>
   running (sched st') = running (sched st) \<and> req_index st' = req_index st \<and> token_budget st' = token_budget st"
  by (auto simp: release_encoder_reservation_def rbind_eq_Inr_iff)

lemma preempt_victim_running:
  assumes "preempt_victim st = Inr (v, st')"
  shows "length (running (sched st')) + 1 = length (running (sched st))"
    and "req_index st - 1 \<le> req_index st'"
proof -
  from assms obtain st1 st2 s3 where "take_victim st = Inr (v, st1)"
    "release_encoder_reservation v (encoder_inputs_of v st1) st1 = Inr st2"
    "preempt_request v (sched st2) = Inr s3" "st' = st2\<lparr>sched := s3, preempted_reqs := preempted_reqs st2 @ [v]\<rparr>"
    by (auto simp: preempt_victim_def rbind_eq_Inr_iff)
  then show "length (running (sched st')) + 1 = length (running (sched st))" "req_index st - 1 \<le> req_index st'"
    using take_victim_running(3,4) [of st v st1] release_running [of v _ st1 st2] preempt_request_running by auto
qed

section \<open>Phase 1: running requests\<close>

text \<open>\<open>while True\<close>: allocate, or preempt and try again, until the request itself is the victim.\<close>

function allocate_or_preempt :: "string \<Rightarrow> int \<Rightarrow> step \<Rightarrow> (bref list list option \<times> step) result" where
  "allocate_or_preempt rid n st =
     (let s = sched st in
      rbind (allocate_slots (req s rid) n 0 None 0 False (kvm s)) (\<lambda>(res, k).
      case res of
        Some blocks \<Rightarrow> Inr (Some blocks, st\<lparr>sched := s\<lparr>kvm := k\<rparr>\<rparr>)
      | None \<Rightarrow>
          rbind (preempt_victim (st\<lparr>sched := s\<lparr>kvm := k\<rparr>\<rparr>)) (\<lambda>(v, st').
          if v = rid then Inr (None, st') else allocate_or_preempt rid n st')))"
  by auto
termination
  by (relation "measure (\<lambda>(rid, n, st). length (running (sched st)))")
    (auto dest!: preempt_victim_running(1))

declare allocate_or_preempt.simps [simp del]

lemma allocate_or_preempt_running:
  "allocate_or_preempt rid n st = Inr (res, st') \<Longrightarrow>
   length (running (sched st')) \<le> length (running (sched st)) \<and>
   req_index st - req_index st' \<le> int (length (running (sched st))) - int (length (running (sched st')))"
proof (induction rid n st arbitrary: res st' rule: allocate_or_preempt.induct)
  case (1 rid n st)
  let ?s = "sched st"
  from 1(2) obtain a k where A: "allocate_slots (req ?s rid) n 0 None 0 False (kvm ?s) = Inr (a, k)"
    by (auto simp: allocate_or_preempt.simps [of rid n st] Let_def rbind_eq_Inr_iff)
  show ?case
  proof (cases a)
    case (Some blocks)
    then show ?thesis using 1(2) A by (auto simp: allocate_or_preempt.simps [of rid n st] Let_def)
  next
    case None
    let ?st = "st\<lparr>sched := ?s\<lparr>kvm := k\<rparr>\<rparr>"
    from 1(2) A None obtain v st1 where V: "preempt_victim ?st = Inr (v, st1)"
      and R: "(if v = rid then Inr (None, st1) else allocate_or_preempt rid n st1) = Inr (res, st')"
      by (auto simp: allocate_or_preempt.simps [of rid n st] Let_def rbind_eq_Inr_iff)
    note P = preempt_victim_running [OF V]
    show ?thesis
    proof (cases "v = rid")
      case True
      then show ?thesis using R P by auto
    next
      case False
      then have "length (running (sched st')) \<le> length (running (sched st1)) \<and>
          req_index st1 - req_index st' \<le> int (length (running (sched st1))) - int (length (running (sched st')))"
        using R 1(1) [OF refl A refl None V refl False] by simp
      then show ?thesis using P by simp
    qed
  qed
qed

text \<open>How many tokens a running request may get, before the encoder has its say.\<close>

definition running_share :: "scheduler_config \<Rightarrow> request \<Rightarrow> int \<Rightarrow> int" where
  "running_share cf r budget =
     (let n0 = num_tokens_with_spec r - num_computed_tokens r;
          thr = long_prefill_token_threshold cf;
          n1 = (if 0 < thr \<and> thr < n0 then thr else n0)
      in min (min n1 budget) (max_model_len cf - num_computed_tokens r))"

text \<open>Speculation is off above a batch size.\<close>

definition drop_drafts :: "scheduler \<Rightarrow> request \<Rightarrow> request" where
  "drop_drafts s r =
     (case spec_disable_by_batch_size (conf s) of
        None \<Rightarrow> r
      | Some m \<Rightarrow> if m < int (length (running s)) then r\<lparr>spec_token_ids := []\<rparr> else r)"

text \<open>Recording a request in the step, and the drafts it verifies.\<close>

definition record_running :: "string \<Rightarrow> int \<Rightarrow> bref list list \<Rightarrow> step \<Rightarrow> step" where
  "record_running rid n blocks st =
     (let r = req (sched st) rid;
          st1 = st\<lparr>scheduled_running_reqs := scheduled_running_reqs st @ [rid],
                   req_to_new_blocks := AList.update rid blocks (req_to_new_blocks st),
                   num_scheduled_tokens := AList.update rid n (num_scheduled_tokens st),
                   token_budget := token_budget st - n,
                   req_index := req_index st + 1\<rparr>
      in if spec_token_ids r = [] then st1
         else
           let k = n + num_computed_tokens r - num_tokens r
           in st1\<lparr>scheduled_spec_decode_tokens :=
                    (if 0 < k then AList.update rid (take (nat k) (spec_token_ids r)) (scheduled_spec_decode_tokens st1)
                     else scheduled_spec_decode_tokens st1),
                  sched := set_req rid (r\<lparr>spec_token_ids := []\<rparr>) (sched st1)\<rparr>)"

text \<open>One iteration; the flag is false where the loop breaks.\<close>

definition running_step :: "step \<Rightarrow> (bool \<times> step) result" where
  "running_step st =
     (let s = sched st;
          rid = running s ! nat (req_index st);
          r = drop_drafts s (req s rid);
          s1 = set_req rid r s
      in if num_tokens_with_spec r - num_computed_tokens r \<le> 0 then Inl AssertionError
         else
           let n = running_share (conf s) r (token_budget st)
           in if n \<le> 0 then Inr (True, st\<lparr>sched := s1, req_index := req_index st + 1\<rparr>)
              else
                rbind (schedule_encoder r n (encoder_budget st) s1) (\<lambda>(n', ids, eb, s2).
                let st2 = st\<lparr>sched := s2, encoder_budget := eb\<rparr>
                in if n' \<le> 0 then Inr (True, st2\<lparr>req_index := req_index st + 1\<rparr>)
                   else
                     let st3 = (if ids = [] then st2
                                else st2\<lparr>scheduled_encoder_inputs :=
                                           AList.update rid ids (scheduled_encoder_inputs st2)\<rparr>)
                     in rbind (allocate_or_preempt rid n' st3) (\<lambda>(res, st4).
                        case res of
                          None \<Rightarrow>
                            rbind (release_encoder_reservation rid (encoder_inputs_of rid st4) st4) (\<lambda>st5.
                            Inr (False, st5))
                        | Some blocks \<Rightarrow> Inr (True, record_running rid n' blocks st4))))"

lemma schedule_encoder_frame:
  "schedule_encoder r n b s = Inr (n', ids, b', s') \<Longrightarrow> \<exists>c. s' = s\<lparr>encoder := c\<rparr>"
  by (auto simp: schedule_encoder_def rbind_eq_Inr_iff split: if_splits intro: exI [of _ "encoder s"])

lemma record_running_running:
  "running (sched (record_running rid n blocks st)) = running (sched st)"
  "req_index (record_running rid n blocks st) = req_index st + 1"
  by (simp_all add: record_running_def Let_def)

lemma running_step_progress:
  assumes "running_step st = Inr (True, st')"
  shows "int (length (running (sched st'))) - req_index st' < int (length (running (sched st))) - req_index st"
proof -
  let ?s = "sched st"
  let ?rid = "running ?s ! nat (req_index st)"
  let ?r = "drop_drafts ?s (req ?s ?rid)"
  let ?n = "running_share (conf ?s) ?r (token_budget st)"
  show ?thesis
  proof (cases "?n \<le> 0")
    case True
    with assms have "st' = st\<lparr>sched := set_req ?rid ?r ?s, req_index := req_index st + 1\<rparr>"
      by (simp add: running_step_def Let_def split: if_splits)
    then show ?thesis by simp
  next
    case False
    with assms obtain n' ids eb s2 where
      E: "schedule_encoder ?r ?n (encoder_budget st) (set_req ?rid ?r ?s) = Inr (n', ids, eb, s2)"
      by (auto simp: running_step_def Let_def rbind_eq_Inr_iff split: if_splits)
    then have r2: "running s2 = running ?s" using schedule_encoder_frame by fastforce
    let ?st2 = "st\<lparr>sched := s2, encoder_budget := eb\<rparr>"
    let ?st3 = "if ids = [] then ?st2 else ?st2\<lparr>scheduled_encoder_inputs := AList.update ?rid ids (scheduled_encoder_inputs ?st2)\<rparr>"
    show ?thesis
    proof (cases "n' \<le> 0")
      case True
      with assms False E have "st' = ?st2\<lparr>req_index := req_index st + 1\<rparr>"
        by (simp add: running_step_def Let_def split: if_splits)
      then show ?thesis using r2 by simp
    next
      case n': False
      with assms False E obtain res st4 where A: "allocate_or_preempt ?rid n' ?st3 = Inr (res, st4)"
        and R: "(case res of
                  None \<Rightarrow> rbind (release_encoder_reservation ?rid (encoder_inputs_of ?rid st4) st4) (\<lambda>st5. Inr (False, st5))
                | Some blocks \<Rightarrow> Inr (True, record_running ?rid n' blocks st4)) = Inr (True, st')"
        by (auto simp: running_step_def Let_def rbind_eq_Inr_iff split: if_splits)
      from R obtain blocks where "st' = record_running ?rid n' blocks st4"
        by (cases res) (auto simp: rbind_eq_Inr_iff)
      then show ?thesis using allocate_or_preempt_running [OF A] r2
        by (auto simp: record_running_running split: if_splits)
    qed
  qed
qed

function running_loop :: "step \<Rightarrow> step result" where
  "running_loop st =
     (if req_index st < int (length (running (sched st))) \<and> 0 < token_budget st
      then rbind (running_step st) (\<lambda>(go, st'). if go then running_loop st' else Inr st')
      else Inr st)"
  by auto
termination
  by (relation "measure (\<lambda>st. nat (int (length (running (sched st))) - req_index st))")
    (auto dest!: running_step_progress)

declare running_loop.simps [simp del]

section \<open>Phase 3: admission from the waiting queue\<close>

definition promote_grammar_request :: "string \<Rightarrow> scheduler \<Rightarrow> bool \<times> scheduler" where
  "promote_grammar_request rid s =
     (let r = req s rid in
      case structured_output r of
        None \<Rightarrow> (True, set_req rid (r\<lparr>status := WAITING\<rparr>) s)
      | Some GrammarPending \<Rightarrow> (False, s)
      | Some GrammarFailed \<Rightarrow>
          (False, s\<lparr>grammar_compile_error_reqs := insert rid (grammar_compile_error_reqs s)\<rparr>)
      | Some GrammarCompiled \<Rightarrow>
          (True, set_req rid (r\<lparr>status := (if num_preemptions r \<noteq> 0 then PREEMPTED else WAITING)\<rparr>) s))"

text \<open>\<open>self.waiting.pop_request()\<close> followed by \<open>self.skipped_waiting.add_request(request)\<close>.\<close>

definition set_aside :: "queue_entry \<Rightarrow> scheduler \<Rightarrow> scheduler result" where
  "set_aside e s =
     rbind (pop_request (waiting s)) (\<lambda>(_, q).
     Inr (s\<lparr>waiting := q, skipped_waiting := add_request e (skipped_waiting s)\<rparr>))"

definition external_tokens :: "request \<Rightarrow> int \<Rightarrow> scheduler \<Rightarrow> int \<times> scheduler" where
  "external_tokens r n s =
     (case connector s of
        None \<Rightarrow> (0, s)
      | Some (c, store) \<Rightarrow>
          let (m, store') = get_num_new_matched_tokens r n c store
          in (m, s\<lparr>connector := Some (c, store')\<rparr>))"

text \<open>What happens once the blocks are allocated.\<close>

definition admit :: "int \<Rightarrow> int \<Rightarrow> int \<Rightarrow> step \<Rightarrow> step result" where
  "admit num_local num_external num_new st =
     (let s = sched st in
      rbind (pop_request (waiting s)) (\<lambda>(e, q).
      let rid = entry_id e;
          s1 = s\<lparr>waiting := q, running := running s @ [rid], pending_scheduled := pending_scheduled s @ [rid]\<rparr>;
          r = req s1 rid
      in if status r \<noteq> WAITING \<and> status r \<noteq> PREEMPTED then Inl RuntimeError
         else
           rbind (case connector s1 of
                    Some (c, store) \<Rightarrow>
                      if num_external \<noteq> 0 then
                        rbind (update_state_after_alloc r (kvm_get_blocks (kvm s1) rid) num_external c) (\<lambda>c'.
                        Inr (s1\<lparr>connector := Some (c', store)\<rparr>))
                      else Inr s1
                  | None \<Rightarrow> Inr s1) (\<lambda>s2.
           let r' = r\<lparr>status := RUNNING, num_computed_tokens := num_local + num_external,
                      num_cached_tokens := num_local\<rparr>
           in Inr (st\<lparr>sched := set_req rid r' s2,
                     scheduled_new_reqs := scheduled_new_reqs st @ (if status r = WAITING then [rid] else []),
                     scheduled_resumed_reqs := scheduled_resumed_reqs st @ (if status r = PREEMPTED then [rid] else []),
                     scheduled_loras := (case lora_req r of None \<Rightarrow> scheduled_loras st
                                         | Some l \<Rightarrow> add_to (lora_int_id l) (scheduled_loras st)),
                     req_to_new_blocks := AList.update rid (kvm_get_blocks (kvm s2) rid) (req_to_new_blocks st),
                     num_scheduled_tokens := AList.update rid num_new (num_scheduled_tokens st),
                     token_budget := token_budget st - num_new\<rparr>))))"

text \<open>One iteration of the admission loop.\<close>

definition lora_blocked :: "step \<Rightarrow> request \<Rightarrow> bool" where
  "lora_blocked st r \<longleftrightarrow>
     (case max_loras (conf (sched st)) of
        None \<Rightarrow> False
      | Some m \<Rightarrow>
          (case lora_req r of
             None \<Rightarrow> False
           | Some l \<Rightarrow> m \<le> int (length (scheduled_loras st)) \<and> lora_int_id l \<notin> set (scheduled_loras st)))"

definition admission_allocate ::
  "queue_entry \<Rightarrow> bref list list \<Rightarrow> int \<Rightarrow> int \<Rightarrow> int \<Rightarrow> step \<Rightarrow> (bool \<times> step) result" where
  "admission_allocate e hit num_local num_external n st =
     (let rid = entry_id e; r = req (sched st) rid in
      rbind (schedule_encoder r n (encoder_budget st) (sched st)) (\<lambda>(n', ids, eb, s1).
      let st1 = st\<lparr>sched := s1, encoder_budget := eb\<rparr>
      in if n' \<le> 0 then
           rbind (set_aside e s1) (\<lambda>s2.
           rbind (kvm_free r (kvm s2)) (\<lambda>k.
           Inr (True, st1\<lparr>sched := s2\<lparr>kvm := k\<rparr>\<rparr>)))
         else
           rbind (allocate_slots r n' (num_local + num_external) (Some hit) 0 False (kvm s1)) (\<lambda>(res, k).
           let st2 = st1\<lparr>sched := s1\<lparr>kvm := k\<rparr>\<rparr>
           in case res of
                None \<Rightarrow> rbind (release_encoder_reservation rid ids st2) (\<lambda>st3. Inr (False, st3))
              | Some blocks \<Rightarrow>
                  let st3 = (if ids = [] then st2
                             else st2\<lparr>scheduled_encoder_inputs :=
                                        AList.update rid ids (scheduled_encoder_inputs st2)\<rparr>)
                  in rbind (admit num_local num_external n' st3) (\<lambda>st4. Inr (True, st4)))))"

text \<open>The tokens a waiting request may get; without chunking the rest must fit in the step.\<close>

definition admission_share :: "scheduler_config \<Rightarrow> request \<Rightarrow> int \<Rightarrow> int" where
  "admission_share cf r num_computed =
     (let n0 = num_tokens r - num_computed; thr = long_prefill_token_threshold cf
      in if 0 < thr \<and> thr < n0 then thr else n0)"

definition admission_lookup :: "queue_entry \<Rightarrow> step \<Rightarrow> (bool \<times> step) result" where
  "admission_lookup e st =
     (let s = sched st; cf = conf s; r = req s (entry_id e) in
      rbind (get_computed_blocks r (kvm s)) (\<lambda>(hit, num_local, k).
      let (num_external, s2) = external_tokens r num_local (s\<lparr>kvm := k\<rparr>);
          st2 = st\<lparr>sched := s2\<rparr>;
          n1 = admission_share cf r (num_local + num_external);
          n = min n1 (token_budget st)
      in if \<not> enable_chunked_prefill cf \<and> token_budget st < n1 then Inr (False, st2)
         else if n \<le> 0 then Inr (False, st2)
         else admission_allocate e hit num_local num_external n st2))"

definition admission_step :: "step \<Rightarrow> (bool \<times> step) result" where
  "admission_step st =
     (let s = sched st; cf = conf s in
      if max_num_running_reqs cf \<le> int (length (running s)) then Inr (False, st)
      else if enable_chunked_prefill cf \<and> max_num_partial_prefills cf \<le> num_partial_prefills s then Inr (False, st)
      else
        rbind (peek_request (waiting s)) (\<lambda>e.
        let rid = entry_id e; r = req s rid in
        if lora_blocked st r then
          rbind (set_aside e s) (\<lambda>s1. Inr (True, st\<lparr>sched := s1\<rparr>))
        else
          let (ready, s1) = (if status r = WAITING_FOR_STRUCTURED_OUTPUT_GRAMMAR
                             then promote_grammar_request rid s else (True, s))
          in if \<not> ready then rbind (set_aside e s1) (\<lambda>s2. Inr (True, st\<lparr>sched := s2\<rparr>))
             else admission_lookup e (st\<lparr>sched := s1\<rparr>)))"

text \<open>Each iteration that goes on takes one request off the queue.\<close>

definition num_waiting :: "scheduler \<Rightarrow> nat" where
  "num_waiting s = length (queue_list (waiting s))"

lemma pop_request_length: "pop_request q = Inr (e, q') \<Longrightarrow> length (queue_list q) = Suc (length (queue_list q'))"
  by (cases q) (auto simp: list_pop_def rbind_eq_Inr_iff split: list.splits)

lemma set_aside_waiting: "set_aside e s = Inr s' \<Longrightarrow> num_waiting s = Suc (num_waiting s')"
  by (auto simp: set_aside_def rbind_eq_Inr_iff num_waiting_def dest: pop_request_length)

lemma promote_waiting: "promote_grammar_request rid s = (b, s') \<Longrightarrow> waiting s' = waiting s"
  by (auto simp: promote_grammar_request_def Let_def split: option.splits grammar_state.splits)

lemma external_waiting: "external_tokens r n s = (m, s') \<Longrightarrow> waiting s' = waiting s"
  by (auto simp: external_tokens_def Let_def split: option.splits prod.splits)

lemma admit_waiting:
  assumes "admit a b n st = Inr st'"
  shows "num_waiting (sched st) = Suc (num_waiting (sched st'))"
proof -
  from assms obtain e q where P: "pop_request (waiting (sched st)) = Inr (e, q)"
    by (auto simp: admit_def Let_def rbind_eq_Inr_iff)
  with assms have "waiting (sched st') = q"
    by (auto simp: admit_def Let_def rbind_eq_Inr_iff split: if_splits option.splits prod.splits)
  with pop_request_length [OF P] show ?thesis by (simp add: num_waiting_def)
qed

lemma admission_allocate_waiting:
  assumes "admission_allocate e hit l x n st = Inr (True, st')"
  shows "num_waiting (sched st) = Suc (num_waiting (sched st'))"
proof -
  let ?rid = "entry_id e"
  let ?r = "req (sched st) ?rid"
  from assms obtain n' ids eb s1 where E: "schedule_encoder ?r n (encoder_budget st) (sched st) = Inr (n', ids, eb, s1)"
    by (auto simp: admission_allocate_def Let_def rbind_eq_Inr_iff)
  then have w: "num_waiting s1 = num_waiting (sched st)"
    using schedule_encoder_frame by (fastforce simp: num_waiting_def)
  show ?thesis
  proof (cases "n' \<le> 0")
    case True
    with assms E obtain s2 k where "set_aside e s1 = Inr s2" "sched st' = s2\<lparr>kvm := k\<rparr>"
      by (auto simp: admission_allocate_def Let_def rbind_eq_Inr_iff)
    with set_aside_waiting w show ?thesis by (fastforce simp: num_waiting_def)
  next
    case False
    with assms E obtain res k where A: "allocate_slots ?r n' (l + x) (Some hit) 0 False (kvm s1) = Inr (res, k)"
      by (auto simp: admission_allocate_def Let_def rbind_eq_Inr_iff)
    with assms E False obtain st3 where "admit l x n' st3 = Inr st'" "waiting (sched st3) = waiting s1"
      by (cases res) (auto simp: admission_allocate_def Let_def rbind_eq_Inr_iff split: if_splits)
    with admit_waiting w show ?thesis by (fastforce simp: num_waiting_def)
  qed
qed

lemma admission_lookup_waiting:
  assumes "admission_lookup e st = Inr (True, st')"
  shows "num_waiting (sched st') < num_waiting (sched st)"
proof -
  let ?s = "sched st"
  let ?r = "req ?s (entry_id e)"
  from assms obtain hit l k where L: "get_computed_blocks ?r (kvm ?s) = Inr (hit, l, k)"
    by (auto simp: admission_lookup_def Let_def rbind_eq_Inr_iff)
  obtain x s2 where X: "external_tokens ?r l (?s\<lparr>kvm := k\<rparr>) = (x, s2)" by fastforce
  from assms L X obtain n where "admission_allocate e hit l x n (st\<lparr>sched := s2\<rparr>) = Inr (True, st')"
    by (auto simp: admission_lookup_def Let_def split: if_splits)
  with admission_allocate_waiting external_waiting [OF X] show ?thesis
    by (fastforce simp: num_waiting_def)
qed

lemma admission_step_progress:
  assumes "admission_step st = Inr (True, st')"
  shows "num_waiting (sched st') < num_waiting (sched st)"
proof -
  let ?s = "sched st"
  from assms obtain e where P: "peek_request (waiting ?s) = Inr e"
    by (auto simp: admission_step_def Let_def rbind_eq_Inr_iff split: if_splits)
  let ?rid = "entry_id e"
  let ?r = "req ?s ?rid"
  obtain ready s1 where R: "(if status ?r = WAITING_FOR_STRUCTURED_OUTPUT_GRAMMAR
      then promote_grammar_request ?rid ?s else (True, ?s)) = (ready, s1)" by fastforce
  then have w1: "num_waiting s1 = num_waiting ?s"
    using promote_waiting by (fastforce simp: num_waiting_def split: if_splits)
  show ?thesis
  proof (cases "lora_blocked st ?r")
    case True
    with assms P obtain s1' where "set_aside e ?s = Inr s1'" "st' = st\<lparr>sched := s1'\<rparr>"
      by (auto simp: admission_step_def Let_def rbind_eq_Inr_iff split: if_splits)
    then show ?thesis using set_aside_waiting by fastforce
  next
    case lora: False
    show ?thesis
    proof (cases ready)
      case False
      with assms P R lora obtain s2 where "set_aside e s1 = Inr s2" "st' = st\<lparr>sched := s2\<rparr>"
        by (simp add: admission_step_def Let_def rbind_eq_Inr_iff split: if_splits) blast
      then show ?thesis using set_aside_waiting w1 by fastforce
    next
      case True
      with assms P R lora have "admission_lookup e (st\<lparr>sched := s1\<rparr>) = Inr (True, st')"
        by (simp add: admission_step_def Let_def split: if_splits)
      from admission_lookup_waiting [OF this] w1 show ?thesis by simp
    qed
  qed
qed

function admission_loop :: "step \<Rightarrow> step result" where
  "admission_loop st =
     (if queue_list (waiting (sched st)) \<noteq> [] \<and> 0 < token_budget st
      then rbind (admission_step st) (\<lambda>(go, st'). if go then admission_loop st' else Inr st')
      else Inr st)"
  by auto
termination
  by (relation "measure (\<lambda>st. num_waiting (sched st))") (auto dest!: admission_step_progress)

declare admission_loop.simps [simp del]

section \<open>The step\<close>

record new_request_data =
  nr_req_id :: string
  nr_prompt_token_ids :: "int list"
  nr_prefill_token_ids :: "int list"
  nr_mm_features :: "mm_feature list"
  nr_sampling_params :: "sampling_params option"
  nr_block_ids :: "int list list"
  nr_num_computed_tokens :: int
  nr_lora_request :: "lora_request option"
  nr_pooling :: bool

definition new_request_data_of :: "request \<Rightarrow> int list list \<Rightarrow> new_request_data" where
  "new_request_data_of r ids =
     \<lparr>nr_req_id = request_id r, nr_prompt_token_ids = prompt_token_ids r,
      nr_prefill_token_ids = all_token_ids r, nr_mm_features = mm_features r,
      nr_sampling_params = sampling_params r, nr_block_ids = ids,
      nr_num_computed_tokens = num_computed_tokens r, nr_lora_request = lora_req r,
      nr_pooling = use_pooling r\<rparr>"

text \<open>The parallel arrays of \<open>CachedRequestData\<close>, one row per request.\<close>

record cached_row =
  cr_req_id :: string
  cr_new_token_ids :: "int list"
  cr_new_block_ids :: "int list list option"
  cr_num_computed_tokens :: int
  cr_num_output_tokens :: int

record scheduler_output =
  so_new_reqs :: "new_request_data list"
  so_cached_reqs :: "cached_row list"
  so_num_scheduled_tokens :: "(string \<times> int) list"
  so_total_num_scheduled_tokens :: int
  so_spec_decode_tokens :: "(string \<times> int list) list"
  so_encoder_inputs :: "(string \<times> nat list) list"
  so_num_common_prefix_blocks :: "int list"
  so_structured_output_request_ids :: "(string \<times> nat) list"
  so_finished_req_ids :: "string set"
  so_free_encoder_mm_hashes :: "string list"
  so_kv_connector_metadata :: "connector_meta option"
  so_preempted_req_ids :: "string set option"

definition initial_step :: "scheduler \<Rightarrow> step" where
  "initial_step s =
     \<lparr>sched = s, token_budget = max_num_scheduled_tokens (conf s),
      encoder_budget = max_num_encoder_input_tokens (conf s), req_to_new_blocks = [],
      num_scheduled_tokens = [], scheduled_spec_decode_tokens = [], scheduled_encoder_inputs = [],
      scheduled_running_reqs = [], scheduled_new_reqs = [], scheduled_resumed_reqs = [],
      preempted_reqs = [], req_index = 0, scheduled_loras = []\<rparr>"

text \<open>Between the phases: the adapters that are resident.\<close>

definition resident_loras :: "scheduler \<Rightarrow> int list" where
  "resident_loras s =
     remdups (concat (map (\<lambda>rid. case lora_req (req s rid) of None \<Rightarrow> [] | Some l \<Rightarrow> [lora_int_id l]) (running s)))"

definition collect_loras :: "step \<Rightarrow> step result" where
  "collect_loras st =
     (case max_loras (conf (sched st)) of
        None \<Rightarrow> Inr (st\<lparr>scheduled_loras := []\<rparr>)
      | Some m \<Rightarrow>
          let ls = resident_loras (sched st)
          in if int (length ls) \<le> m then Inr (st\<lparr>scheduled_loras := ls\<rparr>) else Inl AssertionError)"

definition total_scheduled :: "step \<Rightarrow> int" where
  "total_scheduled st = sum_list (map snd (num_scheduled_tokens st))"

definition restore_skipped_waiting :: "scheduler \<Rightarrow> scheduler" where
  "restore_skipped_waiting s =
     (if queue_list (skipped_waiting s) = [] then s
      else s\<lparr>waiting := prepend_requests (skipped_waiting s) (waiting s),
             skipped_waiting := create_request_queue (sched_policy (conf s))\<rparr>)"

text \<open>The decision proper: everything up to the two assertions and the restored queue.\<close>

definition decide :: "scheduler \<Rightarrow> step result" where
  "decide s =
     rbind (running_loop (initial_step s)) (\<lambda>st1.
     rbind (collect_loras st1) (\<lambda>st2.
     rbind (if preempted_reqs st2 = [] then admission_loop st2 else Inr st2) (\<lambda>st3.
     if max_num_scheduled_tokens (conf s) < total_scheduled st3 then Inl AssertionError
     else if max_num_running_reqs (conf s) < int (length (running (sched st3))) then Inl AssertionError
     else Inr (st3\<lparr>sched := restore_skipped_waiting (sched st3)\<rparr>))))"

definition blocks_of :: "step \<Rightarrow> string \<Rightarrow> bref list list" where
  "blocks_of st rid = the (map_of (req_to_new_blocks st) rid)"

definition make_cached_row :: "step \<Rightarrow> string \<Rightarrow> cached_row" where
  "make_cached_row st rid =
     (let r = req (sched st) rid; n = the (map_of (num_scheduled_tokens st) rid); start = num_computed_tokens r
      in \<lparr>cr_req_id = rid, cr_new_token_ids = slice (all_token_ids r) start (start + n),
          cr_new_block_ids = get_block_ids (blocks_of st rid) True,
          cr_num_computed_tokens = start, cr_num_output_tokens = num_output_tokens r\<rparr>)"

definition constrained_ids :: "step \<Rightarrow> string list" where
  "constrained_ids st =
     sort (filter (\<lambda>rid. use_structured_output (req (sched st) rid) \<and> \<not> is_prefill_chunk (req (sched st) rid))
             (map fst (num_scheduled_tokens st)))"

definition make_output :: "step \<Rightarrow> scheduler_output" where
  "make_output st =
     (let s = sched st in
      \<lparr>so_new_reqs = map (\<lambda>rid. new_request_data_of (req s rid) (the (get_block_ids (blocks_of st rid) False)))
                       (scheduled_new_reqs st @ scheduled_resumed_reqs st),
       so_cached_reqs = map (make_cached_row st) (scheduled_running_reqs st),
       so_num_scheduled_tokens = num_scheduled_tokens st,
       so_total_num_scheduled_tokens = total_scheduled st,
       so_spec_decode_tokens = scheduled_spec_decode_tokens st,
       so_encoder_inputs = scheduled_encoder_inputs st,
       so_num_common_prefix_blocks =
         (case running s of
            [] \<Rightarrow> replicate (length (single_type_managers (kvm s))) 0
          | rid # _ \<Rightarrow> get_num_common_prefix_blocks (kvm s) rid),
       so_structured_output_request_ids =
         map (\<lambda>(i, rid). (rid, i)) (enumerate 0 (constrained_ids st)),
       so_finished_req_ids = finished_req_ids s,
       so_free_encoder_mm_hashes = freed (encoder s),
       so_kv_connector_metadata = map_option (\<lambda>(c, store). fst (build_connector_meta c)) (connector s),
       so_preempted_req_ids = (if preempted_reqs st = [] then None else Some (set (preempted_reqs st)))\<rparr>)"

text \<open>\<open>_update_after_schedule\<close>.\<close>

definition advance_request :: "string \<times> int \<Rightarrow> scheduler \<Rightarrow> scheduler" where
  "advance_request rn s =
     (case rn of (rid, n) \<Rightarrow>
        let r = req s rid; m = num_computed_tokens r + n
        in set_req rid (r\<lparr>num_computed_tokens := m, is_prefill_chunk := m < num_tokens r\<rparr>) s)"

definition update_after_schedule :: "(string \<times> int) list \<Rightarrow> scheduler \<Rightarrow> scheduler" where
  "update_after_schedule scheduled s = (fold advance_request scheduled s)\<lparr>finished_req_ids := {}\<rparr>"

text \<open>Building the output drains the connector's metadata and the encoder's evictions.\<close>

definition drain_outputs :: "scheduler \<Rightarrow> scheduler" where
  "drain_outputs s =
     s\<lparr>encoder := snd (get_freed_mm_hashes (encoder s)),
       connector := map_option (\<lambda>(c, store). (snd (build_connector_meta c), store)) (connector s)\<rparr>"

definition schedule :: "scheduler \<Rightarrow> (scheduler_output \<times> scheduler) result" where
  "schedule s =
     rbind (decide s) (\<lambda>st.
       let s1 = update_after_schedule (num_scheduled_tokens st) (drain_outputs (sched st))
       in Inr (make_output st, s1\<lparr>step_index := step_index s1 + 1\<rparr>))"

section \<open>Folding results back\<close>

record model_runner_output =
  req_id_to_index :: "(string \<times> nat) list"
  sampled_token_ids :: "int list list"
  mro_spec_token_ids :: "int list list option"
  pooler_output :: "rat list option list"

record engine_core_output =
  eco_request_id :: string
  eco_new_token_ids :: "int list"
  eco_finish_reason :: "finish_reason option"
  eco_stop_reason :: "(int + string) option" \<comment> \<open>the token, or the text of an error\<close>
  eco_events :: "(event_type \<times> rat) list option"
  eco_num_cached_tokens :: int
  eco_pooling_output :: "rat list option"

definition indexed :: "model_runner_output \<Rightarrow> 'a list \<Rightarrow> string \<Rightarrow> 'a option" where
  "indexed out xs rid =
     (case map_of (req_id_to_index out) rid of
        None \<Rightarrow> None
      | Some i \<Rightarrow> if i < length xs then Some (xs ! i) else None)"

text \<open>\<open>_update_request_with_output\<close>: one token at a time, until a stop condition holds.\<close>

fun update_request_with_output ::
  "hash_fn \<Rightarrow> int \<Rightarrow> int list \<Rightarrow> request \<Rightarrow> (int list \<times> bool \<times> request) result" where
  "update_request_with_output H max_len [] r = Inr ([], False, r)"
| "update_request_with_output H max_len (t # ts) r =
     rbind (check_stop max_len (append_output_token_ids H [t] r)) (\<lambda>(stop, r').
     if stop then Inr ([t], True, r')
     else rbind (update_request_with_output H max_len ts r') (\<lambda>(ts', stopped, r'').
          Inr (t # ts', stopped, r'')))"

text \<open>\<open>_free_request\<close>; \<open>r\<close> is the object, already marked finished.\<close>

definition free_request :: "request \<Rightarrow> scheduler \<Rightarrow> scheduler result" where
  "free_request r s =
     rbind (case connector s of
              None \<Rightarrow> Inr s
            | Some (c, store) \<Rightarrow>
                rbind (request_finished r c store) (\<lambda>(delay, c', store').
                if delay then Inl NotImplementedError else Inr (s\<lparr>connector := Some (c', store')\<rparr>))) (\<lambda>s1.
     rbind (if mm_features r = [] then Inr s1
            else rbind (enc_free r (encoder s1)) (\<lambda>c. Inr (s1\<lparr>encoder := c\<rparr>))) (\<lambda>s2.
     if \<not> is_finished r then Inl AssertionError
     else
       rbind (kvm_free r (kvm s2)) (\<lambda>k.
       Inr (s2\<lparr>kvm := k, finished_req_ids := insert (request_id r) (finished_req_ids s2),
               requests := AList.delete (request_id r) (requests s2)\<rparr>))))"

text \<open>Rolling rejected drafts off the count.\<close>

definition roll_back :: "nat \<Rightarrow> int list \<Rightarrow> request \<Rightarrow> request" where
  "roll_back num_drafts generated r =
     (let rejected = int num_drafts - max 0 (int (length generated) - 1)
      in if num_drafts \<noteq> 0 \<and> 0 < rejected
         then r\<lparr>num_computed_tokens := num_computed_tokens r - rejected\<rparr> else r)"

definition count_drafts :: "nat \<Rightarrow> int list \<Rightarrow> scheduler \<Rightarrow> scheduler" where
  "count_drafts num_drafts generated s =
     (if num_drafts = 0 then s
      else s\<lparr>num_draft_tokens_total := num_draft_tokens_total s + int num_drafts,
             num_accepted_tokens_total := num_accepted_tokens_total s + max 0 (int (length generated) - 1)\<rparr>)"

text \<open>The requests kept, the outputs per client, and the state: what the loop accumulates.\<close>

type_synonym fold_state = "string list \<times> (int \<times> engine_core_output list) list \<times> scheduler"

definition add_output ::
  "int \<Rightarrow> engine_core_output \<Rightarrow> (int \<times> engine_core_output list) list \<Rightarrow> (int \<times> engine_core_output list) list" where
  "add_output client out outs =
     AList.update client ((case map_of outs client of None \<Rightarrow> [] | Some os \<Rightarrow> os) @ [out]) outs"

definition fold_request ::
  "hash_fn \<Rightarrow> scheduler_output \<Rightarrow> model_runner_output \<Rightarrow> string \<Rightarrow> fold_state \<Rightarrow> fold_state result" where
  "fold_request H so out rid acc =
     (case acc of (still, outs, s) \<Rightarrow>
        if (case map_of (so_num_scheduled_tokens so) rid of None \<Rightarrow> 0 | Some n \<Rightarrow> n) = 0 then
          Inr (still @ [rid], outs, s)
        else
          let generated = (case indexed out (sampled_token_ids out) rid of None \<Rightarrow> [] | Some ts \<Rightarrow> ts);
              num_drafts = length (case map_of (so_spec_decode_tokens so) rid of None \<Rightarrow> [] | Some ds \<Rightarrow> ds);
              s0 = count_drafts num_drafts generated s;
              r0 = roll_back num_drafts generated (req s0 rid);
              pooled = (if use_pooling r0
                        then (case indexed out (pooler_output out) rid of None \<Rightarrow> None | Some v \<Rightarrow> v) else None);
              r1 = (if pooled \<noteq> None then r0\<lparr>status := FINISHED_STOPPED\<rparr> else r0)
          in rbind (if generated \<noteq> [] \<and> \<not> use_pooling r1
                    then update_request_with_output H (max_model_len (conf s)) generated r1
                    else Inr ([], pooled \<noteq> None, r1)) (\<lambda>(new_toks, stopped, r2).
             rbind (if stopped then free_request r2 (set_req rid r2 s0) else Inr (set_req rid r2 s0)) (\<lambda>s1.
             let still' = (if stopped then still else still @ [rid])
             in if new_toks = [] \<and> \<not> stopped then Inr (still', outs, s1)
                else
                  let (evs, r3) = take_events r2;
                      o' = \<lparr>eco_request_id = rid, eco_new_token_ids = new_toks,
                            eco_finish_reason = get_finished_reason r2, eco_stop_reason = map_option Inl (stop_reason r2),
                            eco_events = evs, eco_num_cached_tokens = num_cached_tokens r2,
                            eco_pooling_output = pooled\<rparr>
                  in Inr (still', add_output (client_index r2) o' outs,
                          (if stopped then s1 else set_req rid r3 s1)))))"

text \<open>The second loop: window eviction, and encoder inputs that are behind the request.\<close>

definition shed_request :: "string \<Rightarrow> scheduler \<Rightarrow> scheduler result" where
  "shed_request rid s =
     rbind (remove_skipped_blocks (req s rid) (kvm s)) (\<lambda>k.
     let s1 = s\<lparr>kvm := k\<rparr>
     in if mm_features (req s rid) = [] then Inr s1 else free_encoder_inputs (req s rid) s1)"

definition store_drafts :: "model_runner_output \<Rightarrow> string \<Rightarrow> scheduler \<Rightarrow> scheduler" where
  "store_drafts out rid s =
     (case mro_spec_token_ids out of
        None \<Rightarrow> s
      | Some drafts \<Rightarrow>
          (case indexed out drafts rid of
             None \<Rightarrow> s
           | Some ds \<Rightarrow> set_req rid ((req s rid)\<lparr>spec_token_ids := ds\<rparr>) s))"

definition update_from_output ::
  "hash_fn \<Rightarrow> scheduler_output \<Rightarrow> model_runner_output \<Rightarrow> scheduler \<Rightarrow>
   ((int \<times> engine_core_output list) list \<times> scheduler) result" where
  "update_from_output H so out s =
     rbind (foldE (fold_request H so out) (running s) ([], [], s)) (\<lambda>(still, outs, s1).
     rbind (foldE shed_request still s1) (\<lambda>s2.
     let s3 = fold (store_drafts out) still s2
     in Inr (outs, s3\<lparr>running := still\<rparr>)))"

section \<open>Termination from outside, and the remaining handlers\<close>

definition finish_one :: "request_status \<Rightarrow> string \<Rightarrow> scheduler \<Rightarrow> scheduler result" where
  "finish_one st rid s =
     (case map_of (requests s) rid of
        None \<Rightarrow> Inr s
      | Some r \<Rightarrow>
          if is_finished r then Inr s
          else
            rbind (if status r = RUNNING
                   then (if rid \<in> set (running s) then Inr (s\<lparr>running := remove1 rid (running s)\<rparr>)
                         else Inl ValueError)
                   else rbind (remove_request (sort_key r) (waiting s)) (\<lambda>q. Inr (s\<lparr>waiting := q\<rparr>))) (\<lambda>s1.
            let r' = r\<lparr>status := st\<rparr> in free_request r' (set_req rid r' s1)))"

definition finish_requests :: "string list \<Rightarrow> request_status \<Rightarrow> scheduler \<Rightarrow> scheduler result" where
  "finish_requests rids st s =
     (if \<not> status_is_finished st then Inl AssertionError else foldE (finish_one st) rids s)"

definition sched_reset_prefix_cache :: "scheduler \<Rightarrow> bool \<times> scheduler" where
  "sched_reset_prefix_cache s = (let (ok, k) = reset_prefix_cache (kvm s) in (ok, s\<lparr>kvm := k\<rparr>))"

definition take_grammar_compile_errors :: "scheduler \<Rightarrow> string set \<times> scheduler" where
  "take_grammar_compile_errors s = (grammar_compile_error_reqs s, s\<lparr>grammar_compile_error_reqs := {}\<rparr>)"

definition take_newly_scheduled :: "scheduler \<Rightarrow> string list \<times> scheduler" where
  "take_newly_scheduled s = (pending_scheduled s, s\<lparr>pending_scheduled := []\<rparr>)"

end
