(* ===== verification/SchedulerInv.thy ===== *)
theory SchedulerInv
  imports Scheduler
begin

text \<open>
  The invariant of the scheduler and its preservation by every handler.

  The state is seen as its parts: the configuration, the KV cache manager, the requests by id
  as a map \<open>R\<close>, the running list, the two waiting queues and the encoder cache. The scheduler
  is taken without a KV connector and text and images are allowed; a request is well formed if
  the frontend's checks passed.
\<close>

section \<open>The parts\<close>

type_synonym request_table = "string \<rightharpoonup> request"

abbreviation queue_ids :: "request_queue \<Rightarrow> string list" where
  "queue_ids q \<equiv> map entry_id (queue_list q)"

text \<open>
  What the input processor has checked of a generating request: the tokens it may still emit
  fit the context window, and its minimum is no greater than its maximum.
\<close>

definition budget_ok :: "scheduler_config \<Rightarrow> request \<Rightarrow> bool" where
  "budget_ok cf r \<longleftrightarrow>
     (case sampling_params r of
        None \<Rightarrow> use_pooling r
      | Some sp \<Rightarrow> sp_min_tokens sp \<le> max_tokens r \<and> num_output_tokens r < max_tokens r \<and>
          num_tokens r + (max_tokens r - num_output_tokens r) \<le> max_model_len cf)"

text \<open>A request as the frontend admits it, with the hashes the prefix cache needs.\<close>

definition request_ok :: "hash_fn \<Rightarrow> scheduler_config \<Rightarrow> (int \<times> int \<times> bool \<times> block_hash_t) \<Rightarrow> int \<Rightarrow> string \<Rightarrow> request \<Rightarrow> bool" where
  "request_ok H cf kc cap rid r \<longleftrightarrow>
     request_id r = rid \<and> 0 < num_tokens r \<and> num_tokens r \<le> max_model_len cf \<and> 0 \<le> num_computed_tokens r \<and>
     (\<forall>f\<in>set (mm_features r). 0 \<le> num_embeds f \<and> num_embeds f \<le> max_num_encoder_input_tokens cf \<and> num_embeds f \<le> cap) \<and>
     hashes_current H r \<and>
     (case kc of (bs, len, caching, nh) \<Rightarrow> caching \<longrightarrow> block_hasher r = Some (bs, nh)) \<and>
     budget_ok cf r"

definition table_ok :: "hash_fn \<Rightarrow> scheduler_config \<Rightarrow> (int \<times> int \<times> bool \<times> block_hash_t) \<Rightarrow> int \<Rightarrow> request_table \<Rightarrow> bool" where
  "table_ok H cf kc cap R \<longleftrightarrow> (\<forall>rid r. R rid = Some r \<longrightarrow> request_ok H cf kc cap rid r)"

text \<open>Every known request is in exactly one place, and the queues hold the keys of their requests.\<close>

definition place_ok :: "scheduling_policy \<Rightarrow> request_table \<Rightarrow> string list \<Rightarrow> request_queue \<Rightarrow> request_queue \<Rightarrow> bool" where
  "place_ok pol R run wq sq \<longleftrightarrow>
     distinct (run @ queue_ids wq @ queue_ids sq) \<and> set (run @ queue_ids wq @ queue_ids sq) = dom R \<and>
     queue_wf wq \<and> queue_wf sq \<and> queue_policy wq = pol \<and> queue_policy sq = pol \<and>
     (\<forall>e\<in>set (queue_list wq @ queue_list sq). \<exists>r. R (entry_id e) = Some r \<and> e = sort_key r)"

definition run_ok :: "kv_cache_manager \<Rightarrow> request_table \<Rightarrow> string list \<Rightarrow> bool" where
  "run_ok k R run \<longleftrightarrow> (\<forall>rid\<in>set run. \<exists>r. R rid = Some r \<and> status r = RUNNING \<and> has_slots k rid (num_computed_tokens r))"

definition idle_ok :: "kv_cache_manager \<Rightarrow> string list \<Rightarrow> bool" where
  "idle_ok k run \<longleftrightarrow> (\<forall>rid. rid \<notin> set run \<longrightarrow> holds_none k rid)"

definition waiting_status :: "request_status \<Rightarrow> bool" where
  "waiting_status s \<longleftrightarrow> s \<in> {WAITING, PREEMPTED, WAITING_FOR_STRUCTURED_OUTPUT_GRAMMAR}"

definition wait_ok :: "request_table \<Rightarrow> string list \<Rightarrow> bool" where
  "wait_ok R ids \<longleftrightarrow> (\<forall>rid\<in>set ids. \<exists>r. R rid = Some r \<and> waiting_status (status r) \<and> num_computed_tokens r = 0)"

definition enc_ok :: "request_table \<Rightarrow> encoder_cache \<Rightarrow> bool" where
  "enc_ok R c \<longleftrightarrow> enc_inv c \<and>
     (\<forall>rid. ids_of c rid \<noteq> [] \<longrightarrow> (\<exists>r. R rid = Some r \<and> (\<forall>i\<in>set (ids_of c rid). i < length (mm_features r))))"

definition lora_of :: "request option \<Rightarrow> int set" where
  "lora_of x = (case x of None \<Rightarrow> {} | Some r \<Rightarrow> (case lora_req r of None \<Rightarrow> {} | Some l \<Rightarrow> {lora_int_id l}))"

definition loras :: "request_table \<Rightarrow> string list \<Rightarrow> int set" where
  "loras R run = (\<Union>rid\<in>set run. lora_of (R rid))"

definition lora_ok :: "scheduler_config \<Rightarrow> request_table \<Rightarrow> string list \<Rightarrow> bool" where
  "lora_ok cf R run \<longleftrightarrow> (case max_loras cf of None \<Rightarrow> True | Some m \<Rightarrow> int (card (loras R run)) \<le> m)"

text \<open>All of them, on the scheduler.\<close>

definition table :: "scheduler \<Rightarrow> request_table" where
  "table s = map_of (requests s)"

definition core_inv :: "hash_fn \<Rightarrow> scheduler \<Rightarrow> bool" where
  "core_inv H s \<longleftrightarrow>
     connector s = None \<and> kvm_inv (kvm s) \<and> kvm_max_model_len (kvm s) = max_model_len (conf s) \<and>
     table_ok H (conf s) (kvm_conf (kvm s)) (cache_size (encoder s)) (table s) \<and>
     place_ok (sched_policy (conf s)) (table s) (running s) (waiting s) (skipped_waiting s) \<and>
     run_ok (kvm s) (table s) (running s) \<and> idle_ok (kvm s) (running s) \<and>
     wait_ok (table s) (queue_ids (waiting s) @ queue_ids (skipped_waiting s)) \<and>
     enc_ok (table s) (encoder s) \<and> lora_ok (conf s) (table s) (running s) \<and>
     int (length (running s)) \<le> max_num_running_reqs (conf s) \<and> 0 \<le> max_num_scheduled_tokens (conf s)"

lemmas core_invD = core_inv_def [THEN iffD1]

section \<open>Requests that differ in their progress only\<close>

definition same_request :: "request \<Rightarrow> request \<Rightarrow> bool" where
  "same_request r r' \<longleftrightarrow>
     request_id r' = request_id r \<and> priority r' = priority r \<and> arrival_time r' = arrival_time r \<and>
     lora_req r' = lora_req r \<and> mm_features r' = mm_features r \<and> sampling_params r' = sampling_params r \<and>
     use_pooling r' = use_pooling r \<and> block_hasher r' = block_hasher r \<and> block_hashes r' = block_hashes r \<and>
     all_token_ids r' = all_token_ids r \<and> cache_salt r' = cache_salt r \<and>
     output_token_ids r' = output_token_ids r \<and> max_tokens r' = max_tokens r"

lemma same_request_refl [simp]: "same_request r r"
  by (simp add: same_request_def)

lemma same_request_updates [simp]:
  "same_request r (r\<lparr>status := a\<rparr>)" "same_request r (r\<lparr>num_computed_tokens := b\<rparr>)"
  "same_request r (r\<lparr>spec_token_ids := c\<rparr>)" "same_request r (r\<lparr>num_preemptions := d\<rparr>)"
  "same_request r (r\<lparr>num_cached_tokens := d\<rparr>)" "same_request r (r\<lparr>is_prefill_chunk := e\<rparr>)"
  by (simp_all add: same_request_def)

lemma same_request_sort_key: "same_request r r' \<Longrightarrow> sort_key r' = sort_key r"
  by (simp add: same_request_def sort_key_def)

lemma same_request_num_tokens: "same_request r r' \<Longrightarrow> num_tokens r' = num_tokens r"
  by (simp add: same_request_def num_tokens_def)

lemma same_request_chain:
  assumes "same_request r r'"
  shows "chain_hash H bs nh r' k = chain_hash H bs nh r k" and "num_full_hashes bs r' = num_full_hashes bs r"
proof -
  have keys: "generate_block_hash_extra_keys r' a b = generate_block_hash_extra_keys r a b" for a b
    using assms by (simp add: generate_block_hash_extra_keys_def same_request_def num_tokens_def cong: option.case_cong)
  show "chain_hash H bs nh r' k = chain_hash H bs nh r k"
    by (induction k) (use assms keys in \<open>simp_all add: same_request_def\<close>)
  show "num_full_hashes bs r' = num_full_hashes bs r"
    using same_request_num_tokens [OF assms] by (simp add: num_full_hashes_def)
qed

lemma same_request_hashes:
  assumes "same_request r r'"
  shows "hashes_current H r' = hashes_current H r"
proof -
  have "chain_hash H bs nh r' = chain_hash H bs nh r" for bs nh
    using same_request_chain(1) [OF assms] by (rule ext)
  moreover have "block_hasher r' = block_hasher r" "block_hashes r' = block_hashes r"
    using assms by (simp_all add: same_request_def)
  ultimately show ?thesis using same_request_chain(2) [OF assms]
    by (simp add: hashes_current_def cong: option.case_cong)
qed

lemma budget_ok_same: "same_request r r' \<Longrightarrow> budget_ok cf r' = budget_ok cf r"
  by (simp add: budget_ok_def same_request_def num_tokens_def num_output_tokens_def cong: option.case_cong)

lemma request_ok_same:
  "request_ok H cf kc cap rid r \<Longrightarrow> same_request r r' \<Longrightarrow> 0 \<le> num_computed_tokens r' \<Longrightarrow> request_ok H cf kc cap rid r'"
  by (auto simp: request_ok_def same_request_hashes same_request_num_tokens budget_ok_same)
     (auto simp: same_request_def)

lemma table_ok_upd:
  "table_ok H cf kc cap R \<Longrightarrow> R rid = Some r \<Longrightarrow> same_request r r' \<Longrightarrow> 0 \<le> num_computed_tokens r' \<Longrightarrow>
   table_ok H cf kc cap (R(rid \<mapsto> r'))"
  by (auto simp: table_ok_def intro: request_ok_same)

text \<open>What the places, the adapters and the encoder see of a request.\<close>

definition same_frame :: "request \<Rightarrow> request \<Rightarrow> bool" where
  "same_frame r r' \<longleftrightarrow> sort_key r' = sort_key r \<and> lora_req r' = lora_req r \<and> mm_features r' = mm_features r"

lemma same_request_frame: "same_request r r' \<Longrightarrow> same_frame r r'"
  by (simp add: same_frame_def same_request_def sort_key_def)

lemma loras_frame:
  assumes "R rid = Some r" "same_frame r r'"
  shows "loras (R(rid \<mapsto> r')) run = loras R run"
proof -
  have "lora_of ((R(rid \<mapsto> r')) x) = lora_of (R x)" for x
    using assms by (simp add: lora_of_def same_frame_def)
  then show ?thesis by (simp add: loras_def)
qed

lemma lora_ok_frame:
  assumes "R rid = Some r" "same_frame r r'"
  shows "lora_ok cf (R(rid \<mapsto> r')) run = lora_ok cf R run"
  unfolding lora_ok_def loras_frame [of R rid r r', OF assms] ..

lemma place_ok_frame:
  assumes "place_ok pol R run wq sq" "R rid = Some r" "same_frame r r'"
  shows "place_ok pol (R(rid \<mapsto> r')) run wq sq"
proof -
  have "dom (R(rid \<mapsto> r')) = dom R" using assms(2) by auto
  moreover have "\<exists>r. (R(rid \<mapsto> r')) (entry_id e) = Some r \<and> e = sort_key r"
    if "\<exists>r. R (entry_id e) = Some r \<and> e = sort_key r" for e
    using that assms(2,3) by (cases "entry_id e = rid") (auto simp: same_frame_def)
  ultimately show ?thesis using assms(1) unfolding place_ok_def by (simp del: fun_upd_apply)
qed

lemma enc_ok_frame:
  assumes "enc_ok R c" "R rid = Some r" "same_frame r r'"
  shows "enc_ok (R(rid \<mapsto> r')) c"
proof -
  have "\<exists>r. (R(rid \<mapsto> r')) x = Some r \<and> (\<forall>i\<in>set (ids_of c x). i < length (mm_features r))"
    if "\<exists>r. R x = Some r \<and> (\<forall>i\<in>set (ids_of c x). i < length (mm_features r))" for x
    using that assms(2,3) by (cases "x = rid") (auto simp: same_frame_def)
  then show ?thesis using assms(1) unfolding enc_ok_def by (simp del: fun_upd_apply)
qed

lemma loras_upd: "R rid = Some r \<Longrightarrow> same_request r r' \<Longrightarrow> loras (R(rid \<mapsto> r')) run = loras R run"
  by (rule loras_frame [of R rid r r', OF _ same_request_frame])

lemma lora_ok_upd: "R rid = Some r \<Longrightarrow> same_request r r' \<Longrightarrow> lora_ok cf (R(rid \<mapsto> r')) run = lora_ok cf R run"
  by (rule lora_ok_frame [of R rid r r', OF _ same_request_frame])

lemmas place_ok_upd = place_ok_frame [OF _ _ same_request_frame]
  and enc_ok_upd = enc_ok_frame [OF _ _ same_request_frame]

lemma finite_loras [simp]: "finite (loras R run)"
  by (auto simp: loras_def lora_of_def split: option.split)

lemma loras_subset: "set run' \<subseteq> set run \<Longrightarrow> loras R run' \<subseteq> loras R run"
  by (auto simp: loras_def)

lemma lora_ok_subset:
  assumes "set run' \<subseteq> set run" "lora_ok cf R run"
  shows "lora_ok cf R run'"
proof -
  have "card (loras R run') \<le> card (loras R run)" by (rule card_mono [OF finite_loras loras_subset [OF assms(1)]])
  then show ?thesis using assms(2) by (auto simp: lora_ok_def split: option.splits)
qed

text \<open>The parts do not depend on more than they name.\<close>

lemma run_ok_cong:
  assumes "run_ok k R run" "kvm_conf k' = kvm_conf k" "\<forall>rid\<in>set run. kvm_get_blocks k' rid = kvm_get_blocks k rid"
  shows "run_ok k' R run"
proof -
  have "has_slots k' rid n = has_slots k rid n" if "rid \<in> set run" for rid n
    using blocks_cong(2) assms(2,3) that by blast
  then show ?thesis using assms(1) by (simp add: run_ok_def)
qed

lemma idle_ok_cong:
  assumes "idle_ok k run" "kvm_conf k' = kvm_conf k"
    "\<forall>rid. rid \<notin> set run \<longrightarrow> kvm_get_blocks k' rid = kvm_get_blocks k rid"
  shows "idle_ok k' run"
proof -
  have "holds_none k' rid = holds_none k rid" if "rid \<notin> set run" for rid
    using blocks_cong(1) assms(2,3) that by blast
  then show ?thesis using assms(1) by (simp add: idle_ok_def)
qed

lemma table_upd [simp]:
  "table (set_req rid r s) = (table s)(rid \<mapsto> r)"
  "table (s\<lparr>kvm := k\<rparr>) = table s" "table (s\<lparr>running := run\<rparr>) = table s" "table (s\<lparr>waiting := w\<rparr>) = table s"
  "table (s\<lparr>skipped_waiting := w\<rparr>) = table s" "table (s\<lparr>encoder := c\<rparr>) = table s"
  "table (s\<lparr>num_preemptions_total := n\<rparr>) = table s" "table (s\<lparr>pending_scheduled := p\<rparr>) = table s"
  "table (s\<lparr>grammar_compile_error_reqs := g\<rparr>) = table s"
  by (simp_all add: table_def set_req_def update_conv')

lemma req_table: "table s rid = Some r \<Longrightarrow> req s rid = r"
  by (simp add: table_def req_def)

section \<open>The encoder, as the scheduler uses it\<close>

definition features_fit :: "int \<Rightarrow> int \<Rightarrow> request \<Rightarrow> bool" where
  "features_fit max_enc cap r \<longleftrightarrow> (\<forall>f\<in>set (mm_features r). 0 \<le> num_embeds f \<and> num_embeds f \<le> max_enc \<and> num_embeds f \<le> cap)"

text \<open>How the encoder cache may change on behalf of one request: by inputs of that request only.\<close>

definition enc_step :: "request \<Rightarrow> encoder_cache \<Rightarrow> encoder_cache \<Rightarrow> bool" where
  "enc_step r c c' \<longleftrightarrow> enc_inv c' \<and> cache_size c' = cache_size c \<and>
     (\<forall>rid. rid \<noteq> request_id r \<longrightarrow> ids_of c' rid = ids_of c rid) \<and>
     set (ids_of c' (request_id r)) \<subseteq> set (ids_of c (request_id r)) \<union> {..<length (mm_features r)}"

lemma enc_step_refl: "enc_inv c \<Longrightarrow> enc_step r c c"
  by (simp add: enc_step_def)

lemma enc_step_trans: "enc_step r a b \<Longrightarrow> enc_step r b c \<Longrightarrow> enc_step r a c"
  unfolding enc_step_def by (simp, blast)

lemma enc_step_inv: "enc_step r c c' \<Longrightarrow> enc_inv c'" and enc_step_size: "enc_step r c c' \<Longrightarrow> cache_size c' = cache_size c"
  by (simp_all add: enc_step_def)

lemma record_lookup_step: "enc_inv c \<Longrightarrow> enc_step r c (record_lookup b c)"
  unfolding enc_step_def using enc_inv_cong [of c "record_lookup b c"] ids_of_cong [of "record_lookup b c" c]
  by (simp add: record_lookup_def)

lemma can_allocate_step:
  assumes "enc_inv c" and "i < length (mm_features r)"
  shows "\<exists>ok c'. can_allocate r i c = Inr (ok, c') \<and> enc_step r c c' \<and> (ok \<longrightarrow> num_embeds (mm_features r ! i) \<le> num_free_slots c')"
proof -
  have f: "feature_at r i = Inr (mm_features r ! i)" using assms(2) by (simp add: feature_at_def)
  from can_allocate_spec [OF assms(1) f] obtain c' where c': "enc_inv c'" "cache_size c' = cache_size c"
    "request_cached_ids c' = request_cached_ids c"
    "can_allocate r i c = Inr (num_embeds (mm_features r ! i) \<le> cache_size c \<and> num_embeds (mm_features r ! i) \<le> num_freeable_slots c, c')"
    "num_embeds (mm_features r ! i) \<le> cache_size c \<and> num_embeds (mm_features r ! i) \<le> num_freeable_slots c \<longrightarrow>
       num_embeds (mm_features r ! i) \<le> num_free_slots c'" by blast
  moreover have "enc_step r c c'" using c'(1,2) ids_of_cong [OF c'(3)] by (simp add: enc_step_def)
  ultimately show ?thesis by blast
qed

lemma allocate_step:
  assumes "enc_inv c" and i: "i < length (mm_features r)" and "0 \<le> num_embeds (mm_features r ! i)"
    and "map_of (enc_cached c) (mm_identifier (mm_features r ! i)) = None \<Longrightarrow> num_embeds (mm_features r ! i) \<le> num_free_slots c"
  shows "\<exists>c'. allocate r i c = Inr c' \<and> enc_step r c c'"
proof -
  have f: "feature_at r i = Inr (mm_features r ! i)" using i by (simp add: feature_at_def)
  from allocate_inv [OF assms(1) f assms(3,4)] obtain c' where c': "allocate r i c = Inr c'" "enc_inv c'"
    "cache_size c' = cache_size c" by blast
  then have "enc_step r c c'" using allocate_ids [OF c'(1)] i by (simp add: enc_step_def)
  then show ?thesis using c'(1) by blast
qed

lemma free_input_step:
  assumes "enc_inv c" and i: "i < length (mm_features r)"
  shows "\<exists>c'. free_encoder_input r i c = Inr c' \<and> enc_step r c c' \<and>
    ids_of c' (request_id r) = removeAll i (ids_of c (request_id r))"
proof -
  have f: "feature_at r i = Inr (mm_features r ! i)" using i by (simp add: feature_at_def)
  from free_encoder_input_inv [OF assms(1) f] obtain c' where c': "free_encoder_input r i c = Inr c'" "enc_inv c'"
    "cache_size c' = cache_size c" by blast
  then show ?thesis using free_encoder_input_ids [OF c'(1)] by (auto simp: enc_step_def)
qed

text \<open>Scheduling the encoder inputs of a step never raises for a request that fits.\<close>

lemma schedule_encoder_loop_ok:
  assumes "enc_inv c" and "\<forall>i\<in>set is. i < length (mm_features r)" and "features_fit max_enc (cache_size c) r" and "0 < n"
    and "\<forall>i\<in>set sch. i < length (mm_features r)"
  shows "\<exists>n' ids b' c'. schedule_encoder_loop r start (start + n) n max_enc is sch b c = Inr (n', ids, b', c') \<and>
    n' \<le> n \<and> enc_step r c c' \<and> (\<forall>i\<in>set ids. i < length (mm_features r))"
  using assms
proof (induction "is" arbitrary: sch b c)
  case Nil
  then show ?case by (simp add: enc_step_refl)
next
  case (Cons i "is")
  let ?f = "mm_features r ! i"
  have i: "i < length (mm_features r)" using Cons.prems(2) by simp
  then have "?f \<in> set (mm_features r)" by simp
  then have fit: "0 \<le> num_embeds ?f" "num_embeds ?f \<le> max_enc" "num_embeds ?f \<le> cache_size c"
    using Cons.prems(3) by (auto simp: features_fit_def)
  have f: "feature_at r i = Inr ?f" using i by (simp add: feature_at_def)
  have rest: "\<exists>n' ids b' c'. schedule_encoder_loop r start (start + n) n max_enc is s b1 c1 = Inr (n', ids, b', c') \<and>
      n' \<le> n \<and> enc_step r c c' \<and> (\<forall>i\<in>set ids. i < length (mm_features r))"
    if "enc_step r c c1" "\<forall>i\<in>set s. i < length (mm_features r)" for s b1 c1
    using Cons.IH [of c1 s b1] that Cons.prems(2-4) enc_step_trans [OF that(1)] by (auto simp: enc_step_def [of r c c1])
  show ?case
  proof (cases "start + n \<le> mm_position ?f \<or> mm_position ?f + mm_length ?f \<le> start \<or> i \<in> set (get_cached_input_ids r c)")
    case True
    then show ?thesis using rest [OF enc_step_refl [OF Cons.prems(1)] Cons.prems(5)] by (auto simp: Let_def)
  next
    case False
    have short: "max 0 (mm_position ?f - start) \<le> n" using False Cons.prems(4) by auto
    let ?hit = "map_of (enc_cached c) (mm_identifier ?f) \<noteq> None"
    have hc: "has_cache r i c = Inr ?hit" using f by (simp add: has_cache_def)
    let ?c1 = "record_lookup ?hit c"
    have s1: "enc_step r c ?c1" by (rule record_lookup_step [OF Cons.prems(1)])
    have c1: "enc_cached ?c1 = enc_cached c" "cache_size ?c1 = cache_size c" by (simp_all add: record_lookup_def)
    show ?thesis
    proof (cases ?hit)
      case hit: True
      obtain c2 where c2: "allocate r i ?c1 = Inr c2" "enc_step r ?c1 c2"
        using allocate_step [OF enc_step_inv [OF s1] i fit(1)] hit c1 by auto
      then show ?thesis using rest [OF enc_step_trans [OF s1 c2(2)] Cons.prems(5)] False hc hit by (auto simp: Let_def)
    next
      case miss: False
      show ?thesis
      proof (cases "b < num_embeds ?f")
        case True
        then show ?thesis using False hc miss fit c1 short s1 Cons.prems(5) by (auto simp: Let_def)
      next
        case budget: False
        obtain ok c2 where c2: "can_allocate r i ?c1 = Inr (ok, c2)" "enc_step r ?c1 c2"
          "ok \<longrightarrow> num_embeds ?f \<le> num_free_slots c2"
          using can_allocate_step [OF enc_step_inv [OF s1] i] by blast
        note s2 = enc_step_trans [OF s1 c2(2)]
        show ?thesis
        proof (cases ok)
          case True
          obtain c3 where c3: "allocate r i c2 = Inr c3" "enc_step r c2 c3"
            using allocate_step [OF enc_step_inv [OF c2(2)] i fit(1)] c2(3) True by auto
          have "\<forall>i\<in>set (sch @ [i]). i < length (mm_features r)" using Cons.prems(5) i by simp
          from rest [OF enc_step_trans [OF s2 c3(2)] this] show ?thesis
            using False hc miss fit c1 budget c2(1) c3(1) True by (auto simp: Let_def)
        next
          case nok: False
          then show ?thesis using False hc miss fit c1 budget c2(1) short s2 Cons.prems(5) by (auto simp: Let_def)
        qed
      qed
    qed
  qed
qed

lemma schedule_encoder_ok:
  assumes "enc_inv (encoder s)" and "features_fit (max_num_encoder_input_tokens (conf s)) (cache_size (encoder s)) r" and "0 < n"
  shows "\<exists>n' ids b' c'. schedule_encoder r n b s = Inr (n', ids, b', s\<lparr>encoder := c'\<rparr>) \<and>
    n' \<le> n \<and> enc_step r (encoder s) c' \<and> (\<forall>i\<in>set ids. i < length (mm_features r))"
proof (cases "mm_features r = []")
  case True
  then show ?thesis using enc_step_refl [OF assms(1)]
    by (intro exI [of _ n] exI [of _ "[]"] exI [of _ b] exI [of _ "encoder s"]) (simp add: schedule_encoder_def)
next
  case False
  have "\<forall>i\<in>set [0..<length (mm_features r)]. i < length (mm_features r)" by simp
  from schedule_encoder_loop_ok [OF assms(1) this assms(2,3), of "[]"] obtain n' ids b' c' where
    "schedule_encoder_loop r (num_computed_tokens r) (num_computed_tokens r + n) n
      (max_num_encoder_input_tokens (conf s)) [0..<length (mm_features r)] [] b (encoder s) = Inr (n', ids, b', c')"
    "n' \<le> n" "enc_step r (encoder s) c'" "\<forall>i\<in>set ids. i < length (mm_features r)" by fastforce
  then show ?thesis using False by (auto simp: schedule_encoder_def)
qed

lemma release_inputs_ok:
  assumes "enc_inv c" and "\<forall>i\<in>set ids. i < length (mm_features r)"
  shows "\<exists>n c'. release_inputs r ids c = Inr (n, c') \<and> enc_step r c c'"
  using assms
proof (induction ids arbitrary: c)
  case Nil
  then show ?case by (simp add: enc_step_refl)
next
  case (Cons i ids)
  from free_input_step [OF Cons.prems(1), of i r] Cons.prems(2) obtain c1 where
    c1: "free_encoder_input r i c = Inr c1" "enc_step r c c1" by auto
  from Cons.IH [OF enc_step_inv [OF c1(2)]] Cons.prems(2) obtain n c' where
    "release_inputs r ids c1 = Inr (n, c')" "enc_step r c1 c'" by auto
  moreover have "feature_at r i = Inr (mm_features r ! i)" using Cons.prems(2) by (simp add: feature_at_def)
  ultimately show ?case using c1 enc_step_trans [OF c1(2)] by auto
qed

lemma enc_ok_step:
  assumes "enc_ok R c" and "enc_step r c c'" and "R (request_id r) = Some r0" and "mm_features r0 = mm_features r"
  shows "enc_ok R c'"
proof -
  have "\<exists>r. R rid = Some r \<and> (\<forall>i\<in>set (ids_of c' rid). i < length (mm_features r))" if "ids_of c' rid \<noteq> []" for rid
  proof (cases "rid = request_id r")
    case False
    then show ?thesis using that assms(1,2) by (simp add: enc_ok_def enc_step_def)
  next
    case True
    have "\<forall>i\<in>set (ids_of c rid). i < length (mm_features r0)"
    proof (cases "ids_of c rid = []")
      case False
      then show ?thesis using assms(1,3) True unfolding enc_ok_def by fastforce
    qed simp
    then have "\<forall>i\<in>set (ids_of c' rid). i < length (mm_features r0)"
      using assms(2,4) True unfolding enc_step_def by (metis UnE lessThan_iff subsetD)
    then show ?thesis using assms(3) True by blast
  qed
  then show ?thesis using enc_step_inv [OF assms(2)] unfolding enc_ok_def by blast
qed

section \<open>Elementary changes of the state\<close>

lemma core_parts:
  assumes "core_inv H s"
  shows "connector s = None" "kvm_inv (kvm s)" "kvm_max_model_len (kvm s) = max_model_len (conf s)"
    "table_ok H (conf s) (kvm_conf (kvm s)) (cache_size (encoder s)) (table s)"
    "place_ok (sched_policy (conf s)) (table s) (running s) (waiting s) (skipped_waiting s)"
    "run_ok (kvm s) (table s) (running s)" "idle_ok (kvm s) (running s)"
    "wait_ok (table s) (queue_ids (waiting s) @ queue_ids (skipped_waiting s))"
    "enc_ok (table s) (encoder s)" "lora_ok (conf s) (table s) (running s)"
    "int (length (running s)) \<le> max_num_running_reqs (conf s)" "0 \<le> max_num_scheduled_tokens (conf s)"
  using assms by (simp_all only: core_inv_def)

lemma core_running:
  assumes "core_inv H s" "rid \<in> set (running s)"
  obtains r where "table s rid = Some r" "req s rid = r" "status r = RUNNING" "request_id r = rid"
    "0 \<le> num_computed_tokens r" "has_slots (kvm s) rid (num_computed_tokens r)" "num_tokens r \<le> max_model_len (conf s)"
    "features_fit (max_num_encoder_input_tokens (conf s)) (cache_size (encoder s)) r"
proof -
  from core_parts(6) [OF assms(1)] assms(2) obtain r where r: "table s rid = Some r" "status r = RUNNING"
    "has_slots (kvm s) rid (num_computed_tokens r)" by (auto simp: run_ok_def)
  moreover have "request_ok H (conf s) (kvm_conf (kvm s)) (cache_size (encoder s)) rid r"
    using core_parts(4) [OF assms(1)] r(1) by (simp add: table_ok_def)
  ultimately show thesis using that [OF r(1) req_table [OF r(1)]] by (simp add: request_ok_def features_fit_def)
qed

lemma run_waiting_disjoint:
  assumes "core_inv H s" "rid \<in> set (running s)"
  shows "rid \<notin> set (queue_ids (waiting s))" and "rid \<notin> set (queue_ids (skipped_waiting s))"
  using core_parts(5) [OF assms(1)] assms(2) by (auto simp: place_ok_def)

lemma wait_ok_upd_other:
  "wait_ok R ids \<Longrightarrow> rid \<notin> set ids \<Longrightarrow> wait_ok (R(rid \<mapsto> r)) ids"
  by (auto simp: wait_ok_def)

lemma run_ok_upd_other: "run_ok k R run \<Longrightarrow> rid \<notin> set run \<Longrightarrow> run_ok k (R(rid \<mapsto> r)) run"
  by (auto simp: run_ok_def)

lemma run_ok_upd:
  "run_ok k R run \<Longrightarrow> status r = RUNNING \<Longrightarrow> has_slots k rid (num_computed_tokens r) \<Longrightarrow> run_ok k (R(rid \<mapsto> r)) run"
  by (auto simp: run_ok_def)

lemma core_encoder:
  assumes "core_inv H s" "enc_step r (encoder s) c'" "table s (request_id r) = Some r0" "mm_features r0 = mm_features r"
  shows "core_inv H (s\<lparr>encoder := c'\<rparr>)"
  using assms enc_ok_step [OF core_parts(9) [OF assms(1)] assms(2-4)] enc_step_size [OF assms(2)]
  by (simp add: core_inv_def)

lemma core_replace_running:
  assumes core: "core_inv H s" and run: "rid \<in> set (running s)" and r: "table s rid = Some r" "same_frame r r'"
    and ok: "status r' = RUNNING" "has_slots (kvm s) rid (num_computed_tokens r')"
      "request_ok H (conf s) (kvm_conf (kvm s)) (cache_size (encoder s)) rid r'"
  shows "core_inv H (set_req rid r' s)"
proof -
  note P = core_parts [OF core]
  have "wait_ok ((table s)(rid \<mapsto> r')) (queue_ids (waiting s) @ queue_ids (skipped_waiting s))"
    using run_waiting_disjoint [OF core run] by (intro wait_ok_upd_other P) auto
  moreover have "run_ok (kvm s) ((table s)(rid \<mapsto> r')) (running s)" by (rule run_ok_upd [OF P(6) ok(1,2)])
  moreover have "table_ok H (conf s) (kvm_conf (kvm s)) (cache_size (encoder s)) ((table s)(rid \<mapsto> r'))"
    using P(4) ok(3) by (simp add: table_ok_def)
  ultimately show ?thesis using P place_ok_frame [OF P(5) r] enc_ok_frame [OF P(9) r]
    lora_ok_frame [of "table s" rid r r', OF r]
    unfolding core_inv_def by simp
qed

lemma core_set_running:
  assumes core: "core_inv H s" and run: "rid \<in> set (running s)" and r: "table s rid = Some r" "same_request r r'"
    and ok: "status r' = RUNNING" "0 \<le> num_computed_tokens r'" "has_slots (kvm s) rid (num_computed_tokens r')"
  shows "core_inv H (set_req rid r' s)"
proof (rule core_replace_running [OF core run r(1) same_request_frame [OF r(2)] ok(1,3)])
  have "request_ok H (conf s) (kvm_conf (kvm s)) (cache_size (encoder s)) rid r"
    using core_parts(4) [OF core] r(1) by (simp add: table_ok_def)
  then show "request_ok H (conf s) (kvm_conf (kvm s)) (cache_size (encoder s)) rid r'"
    by (rule request_ok_same [OF _ r(2) ok(2)])
qed

text \<open>A running request goes back to the waiting queue.\<close>

lemma place_preempt:
  assumes place: "place_ok pol R run wq sq" and v: "v \<in> set run" and r: "R v = Some r" "same_request r r'" "request_id r = v"
  shows "place_ok pol (R(v \<mapsto> r')) (remove1 v run) (prepend_request (sort_key r') wq) sq"
proof -
  have wf: "queue_wf wq" using place by (simp add: place_ok_def)
  let ?wq = "prepend_request (sort_key r') wq"
  have key: "sort_key r' = sort_key r" "entry_id (sort_key r) = v"
    using same_request_sort_key [OF r(2)] r(3) by (simp_all add: sort_key_def)
  note pre = rq.prepend [OF wf, of "sort_key r'"]
  have ids: "mset (queue_ids ?wq) = add_mset v (mset (queue_ids wq))"
    unfolding mset_map using pre key by simp
  have all: "mset (remove1 v run @ queue_ids ?wq @ queue_ids sq) = mset (run @ queue_ids wq @ queue_ids sq)"
    using ids v by simp
  have dist: "distinct (remove1 v run @ queue_ids ?wq @ queue_ids sq)"
    using place mset_eq_imp_distinct_iff [OF all] by (simp add: place_ok_def)
  have dom: "set (remove1 v run @ queue_ids ?wq @ queue_ids sq) = dom (R(v \<mapsto> r'))"
  proof -
    have "dom (R(v \<mapsto> r')) = dom R" using r(1) by auto
    then show ?thesis using place mset_eq_setD [OF all] by (simp add: place_ok_def)
  qed
  have "\<exists>x. (R(v \<mapsto> r')) (entry_id e) = Some x \<and> e = sort_key x" if e: "e \<in> set (queue_list ?wq @ queue_list sq)" for e
  proof -
    have "set (queue_list ?wq) = insert (sort_key r) (set (queue_list wq))"
      using arg_cong [OF conjunct2 [OF pre], of set_mset] key(1) by simp
    then have "e = sort_key r \<or> e \<in> set (queue_list wq @ queue_list sq)" using e by auto
    then show ?thesis
    proof
      assume "e = sort_key r"
      then show ?thesis using key by simp
    next
      assume "e \<in> set (queue_list wq @ queue_list sq)"
      then obtain x where x: "R (entry_id e) = Some x" "e = sort_key x"
        using place unfolding place_ok_def by blast
      then show ?thesis using r(1) key(1) by (cases "entry_id e = v") auto
    qed
  qed
  then show ?thesis using place dist dom pre unfolding place_ok_def by (simp del: fun_upd_apply)
qed

lemma core_preempt:
  assumes core: "core_inv H s" and v: "v \<in> set (running s)" and r: "table s v = Some r"
    and enc: "enc_step r (encoder s) c'"
    and k': "kvm_inv k'" "kvm_conf k' = kvm_conf (kvm s)" "holds_none k' v"
      "\<forall>rid. rid \<noteq> v \<longrightarrow> kvm_get_blocks k' rid = kvm_get_blocks (kvm s) rid"
    and r': "same_request r r'" "status r' = PREEMPTED" "num_computed_tokens r' = 0"
  shows "core_inv H (set_req v r' (s\<lparr>running := remove1 v (running s), encoder := c', kvm := k',
    num_preemptions_total := n, waiting := prepend_request (sort_key r') (waiting s)\<rparr>))"
proof -
  note P = core_parts [OF core]
  let ?R = "(table s)(v \<mapsto> r')" and ?run = "remove1 v (running s)" and ?wq = "prepend_request (sort_key r') (waiting s)"
  have id: "request_id r = v" using P(4) r by (simp add: table_ok_def request_ok_def)
  have dist: "distinct (running s)" using P(5) by (simp add: place_ok_def)
  have set: "set ?run = set (running s) - {v}" using dist by simp
  have "run_ok (kvm s) (table s) ?run" using P(6) set by (simp add: run_ok_def)
  then have "run_ok k' (table s) ?run" by (rule run_ok_cong [OF _ k'(2)]) (use k'(4) set in auto)
  then have run: "run_ok k' ?R ?run" by (rule run_ok_upd_other) (simp add: set)
  have idle: "idle_ok k' ?run"
  proof -
    have "holds_none k' rid" if "rid \<notin> set ?run" for rid
    proof (cases "rid = v")
      case False
      then have "rid \<notin> set (running s)" using that set by simp
      then show ?thesis using P(7) k'(2,4) False blocks_cong(1) [of k' rid "kvm s"] by (simp add: idle_ok_def)
    qed (use k'(3) in simp)
    then show ?thesis by (simp add: idle_ok_def)
  qed
  have "set (queue_ids ?wq) = insert v (set (queue_ids (waiting s)))"
  proof -
    have "queue_wf (waiting s)" using P(5) by (simp add: place_ok_def)
    then have "mset (queue_list ?wq) = add_mset (sort_key r') (mset (queue_list (waiting s)))" using rq.prepend by blast
    then have "set (queue_list ?wq) = insert (sort_key r') (set (queue_list (waiting s)))"
      by (auto dest: arg_cong [where f = set_mset])
    then show ?thesis using id same_request_sort_key [OF r'(1)] by (simp add: sort_key_def)
  qed
  then have wait: "wait_ok ?R (queue_ids ?wq @ queue_ids (skipped_waiting s))"
    using P(8) r'(2,3) by (auto simp: wait_ok_def waiting_status_def)
  have len: "int (length ?run) \<le> max_num_running_reqs (conf s)"
    using P(11) v by (simp add: length_remove1)
  have lora: "lora_ok (conf s) ?R ?run"
    unfolding lora_ok_upd [of "table s" v r r', OF r r'(1)] by (rule lora_ok_subset [OF _ P(10)]) (use set in auto)
  have enc: "enc_ok ?R c'" using enc_ok_step [OF P(9) enc, of r] r id enc_ok_upd [of "table s" c' v r r'] r'(1) by blast
  have kc: "cache_size c' = cache_size (encoder s)" "kvm_max_model_len k' = max_model_len (conf s)"
    using enc_step_size [OF \<open>enc_step r (encoder s) c'\<close>] k'(2) P(3) by (simp_all add: kvm_conf_eq)
  show ?thesis
    unfolding core_inv_def
    using P(1,12) k'(1,2) table_ok_upd [OF P(4) r r'(1)] r'(3) place_preempt [OF P(5) v r r'(1) id] run idle wait enc lora len kc
    by simp
qed

section \<open>The books of a step\<close>

text \<open>
  What a step has recorded so far agrees with the state: what it scheduled is running and has
  slots, the budget accounts for every token, and drafts are counted where they are verified.
\<close>

definition granted :: "scheduler \<Rightarrow> (string \<times> int list) list \<Rightarrow> string \<Rightarrow> int \<Rightarrow> bool" where
  "granted s spec rid n \<longleftrightarrow>
     (\<exists>r. table s rid = Some r \<and> 1 \<le> n \<and> has_slots (kvm s) rid (num_computed_tokens r + n) \<and>
        num_computed_tokens r + n \<le> max_model_len (conf s) \<and>
        (case map_of spec rid of
           None \<Rightarrow> num_computed_tokens r + n \<le> num_tokens r
         | Some ds \<Rightarrow> ds \<noteq> [] \<and> num_computed_tokens r + n = num_tokens r + int (length ds)))"

definition inputs_ok :: "scheduler \<Rightarrow> (string \<times> nat list) list \<Rightarrow> bool" where
  "inputs_ok s inputs \<longleftrightarrow>
     (\<forall>rid ids. map_of inputs rid = Some ids \<longrightarrow> (\<exists>r. table s rid = Some r \<and> (\<forall>i\<in>set ids. i < length (mm_features r))))"

text \<open>Between steps no running request has computed all it has.\<close>

definition behind :: "scheduler \<Rightarrow> string \<Rightarrow> bool" where
  "behind s rid \<longleftrightarrow> (\<exists>r. table s rid = Some r \<and> num_computed_tokens r < num_tokens r)"

definition books :: "step \<Rightarrow> bool" where
  "books st \<longleftrightarrow>
     distinct (map fst (num_scheduled_tokens st)) \<and>
     set (map fst (num_scheduled_tokens st)) =
       set (scheduled_running_reqs st @ scheduled_new_reqs st @ scheduled_resumed_reqs st) \<and>
     set (map fst (num_scheduled_tokens st)) \<subseteq> set (running (sched st)) \<and>
     (\<forall>(rid, n)\<in>set (num_scheduled_tokens st). granted (sched st) (scheduled_spec_decode_tokens st) rid n) \<and>
     token_budget st + total_scheduled st = max_num_scheduled_tokens (conf (sched st)) \<and> 0 \<le> token_budget st \<and>
     dom (map_of (scheduled_spec_decode_tokens st)) \<subseteq> set (scheduled_running_reqs st) \<union> set (preempted_reqs st) \<and>
     set (preempted_reqs st) \<subseteq> set (queue_ids (waiting (sched st))) \<and>
     inputs_ok (sched st) (scheduled_encoder_inputs st) \<and> (\<forall>rid\<in>set (running (sched st)). behind (sched st) rid)"

definition phase1 :: "step \<Rightarrow> bool" where
  "phase1 st \<longleftrightarrow> books st \<and> scheduled_new_reqs st = [] \<and> scheduled_resumed_reqs st = [] \<and>
     distinct (scheduled_running_reqs st) \<and> int (length (scheduled_running_reqs st)) \<le> req_index st \<and>
     set (scheduled_running_reqs st) \<subseteq> set (take (nat (req_index st)) (running (sched st)))"

text \<open>The request the loop is at: not yet scheduled, and not behind the index.\<close>

definition at_request :: "string \<Rightarrow> step \<Rightarrow> bool" where
  "at_request rid st \<longleftrightarrow>
     rid \<in> set (take (Suc (nat (req_index st))) (running (sched st))) \<and> rid \<notin> set (scheduled_running_reqs st) \<and>
     (sched_policy (conf (sched st)) = FCFS \<longrightarrow>
        nat (req_index st) < length (running (sched st)) \<and> running (sched st) ! nat (req_index st) = rid)"

lemma update_new: "k \<notin> set (map fst xs) \<Longrightarrow> AList.update k v xs = xs @ [(k, v)]"
  by (induction xs) auto

lemma sum_delete:
  "distinct (map fst xs) \<Longrightarrow> map_of xs k = Some n \<Longrightarrow>
   sum_list (map snd (AList.delete k xs)) + n = sum_list (map snd xs)" for n :: int
proof (induction xs)
  case (Cons x xs)
  then show ?case
  proof (cases "fst x = k")
    case True
    then have "AList.delete k xs = xs" using Cons.prems(1) by (auto simp: delete_id)
    then show ?thesis using Cons.prems(2) True by (cases x) simp
  qed (cases x; auto)
qed simp

lemma butlast_remove1: "distinct xs \<Longrightarrow> xs \<noteq> [] \<Longrightarrow> butlast xs = remove1 (last xs) xs"
proof (induction xs)
  case (Cons x xs)
  then show ?case by (cases xs) (auto dest: last_in_set)
qed simp

lemma take_remove1_subset: "set (take j xs) - {v} \<subseteq> set (take j (remove1 v xs))"
proof (induction xs arbitrary: j)
  case (Cons x xs)
  show ?case
  proof (cases j)
    case (Suc i)
    show ?thesis
    proof (cases "x = v")
      case True
      have "set (take i xs) \<subseteq> set (take (Suc i) xs)" by (simp add: set_take_subset_set_take)
      then show ?thesis using Suc True by auto
    next
      case False
      then show ?thesis using Suc Cons.IH [of i] by auto
    qed
  qed simp
qed simp

lemma take_remove1_shift:
  "distinct xs \<Longrightarrow> v \<in> set (take j xs) \<Longrightarrow> set (take j xs) - {v} \<subseteq> set (take (j - 1) (remove1 v xs))"
proof (induction xs arbitrary: j)
  case (Cons x xs)
  show ?case
  proof (cases j)
    case (Suc i)
    show ?thesis
    proof (cases "x = v")
      case True
      then show ?thesis using Suc Cons.prems(1) by (auto dest: in_set_takeD)
    next
      case False
      then have "v \<in> set (take i xs)" using Cons.prems Suc by auto
      moreover from this have "0 < i" by (cases i) auto
      ultimately show ?thesis using Cons.IH [of i] Cons.prems(1) Suc False by (cases i) auto
    qed
  qed (use Cons.prems in simp)
qed simp

text \<open>Choosing a victim: it is running, and its entries in the step go with it.\<close>

lemma take_victim_ok:
  assumes core: "core_inv H (sched st)" and p: "phase1 st" and at: "at_request rid st"
  shows "\<exists>v st1. take_victim st = Inr (v, st1) \<and> v \<in> set (running (sched st)) \<and>
    sched st1 = (sched st)\<lparr>running := remove1 v (running (sched st))\<rparr> \<and>
    encoder_budget st1 = encoder_budget st \<and> scheduled_spec_decode_tokens st1 = scheduled_spec_decode_tokens st \<and>
    scheduled_encoder_inputs st1 = scheduled_encoder_inputs st \<and> preempted_reqs st1 = preempted_reqs st \<and>
    scheduled_new_reqs st1 = [] \<and> scheduled_resumed_reqs st1 = [] \<and>
    (if v \<in> set (scheduled_running_reqs st) then
       \<exists>n. map_of (num_scheduled_tokens st) v = Some n \<and>
         scheduled_running_reqs st1 = remove1 v (scheduled_running_reqs st) \<and>
         num_scheduled_tokens st1 = AList.delete v (num_scheduled_tokens st) \<and>
         token_budget st1 = token_budget st + n \<and> req_index st1 = req_index st - 1 \<and>
         sched_policy (conf (sched st)) = PRIORITY
     else scheduled_running_reqs st1 = scheduled_running_reqs st \<and>
       num_scheduled_tokens st1 = num_scheduled_tokens st \<and> token_budget st1 = token_budget st \<and>
       req_index st1 = req_index st) \<and>
    (sched_policy (conf (sched st)) = FCFS \<longrightarrow> v = last (running (sched st)))"
proof -
  let ?s = "sched st"
  have dist: "distinct (running ?s)" using core_parts(5) [OF core] by (simp add: place_ok_def)
  have "running ?s \<noteq> []" using at by (auto simp: at_request_def)
  then obtain x xs where xs: "running ?s = x # xs" by (cases "running ?s") auto
  show ?thesis
  proof (cases "sched_policy (conf ?s)")
    case FCFS
    let ?v = "last (running ?s)"
    have "?v \<notin> set (scheduled_running_reqs st)"
    proof
      assume "?v \<in> set (scheduled_running_reqs st)"
      then have "?v \<in> set (take (nat (req_index st)) (running ?s))" using p by (auto simp: phase1_def)
      then obtain j where j: "j < nat (req_index st)" "j < length (running ?s)" "running ?s ! j = ?v"
        by (auto simp: in_set_conv_nth)
      moreover have "nat (req_index st) < length (running ?s)" using at FCFS by (simp add: at_request_def)
      moreover have "?v = running ?s ! (length (running ?s) - 1)" using xs by (simp add: last_conv_nth)
      ultimately show False using dist by (simp add: nth_eq_iff_index_eq)
    qed
    then show ?thesis using FCFS xs p butlast_remove1 [OF dist]
      by (intro exI [of _ ?v]) (simp add: take_victim_def Let_def phase1_def)
  next
    case PRIORITY
    let ?v = "first_max (\<lambda>rid. victim_key (req ?s rid)) x xs"
    have v: "?v \<in> set (running ?s)" using first_max_in [of "\<lambda>rid. victim_key (req ?s rid)" x xs] xs by simp
    show ?thesis
    proof (cases "?v \<in> set (scheduled_running_reqs st)")
      case True
      then have "?v \<in> set (map fst (num_scheduled_tokens st))" using p by (auto simp: phase1_def books_def)
      then obtain n where "map_of (num_scheduled_tokens st) ?v = Some n"
        by (metis map_of_eq_None_iff not_None_eq set_map)
      then show ?thesis using PRIORITY xs p v True
        by (intro exI [of _ ?v]) (simp add: take_victim_def Let_def phase1_def)
    next
      case False
      then show ?thesis using PRIORITY xs p v
        by (intro exI [of _ ?v]) (simp add: take_victim_def Let_def phase1_def)
    qed
  qed
qed

lemma granted_cong:
  assumes "granted s spec rid n" and "table s' rid = table s rid" and "kvm_conf (kvm s') = kvm_conf (kvm s)"
    and "kvm_get_blocks (kvm s') rid = kvm_get_blocks (kvm s) rid" and "conf s' = conf s"
    and "map_of spec' rid = map_of spec rid"
  shows "granted s' spec' rid n"
  using assms blocks_cong(2) [OF assms(4,3)] unfolding granted_def by simp

lemma behind_cong: "behind s rid \<Longrightarrow> table s' rid = table s rid \<Longrightarrow> behind s' rid"
  by (simp add: behind_def)

lemma behind_same:
  assumes "behind s rid" "table s rid = Some r" "table s' rid = Some r'" "same_request r r'"
    "num_computed_tokens r' = num_computed_tokens r"
  shows "behind s' rid"
  using assms same_request_num_tokens [OF assms(4)] by (simp add: behind_def)

lemma inputs_ok_upd:
  assumes "inputs_ok s inputs" "table s v = Some r" "same_request r r'" "table s' = (table s)(v \<mapsto> r')"
  shows "inputs_ok s' inputs"
proof -
  have "\<exists>r. table s' rid = Some r \<and> (\<forall>i\<in>set ids. i < length (mm_features r))" if "map_of inputs rid = Some ids" for rid ids
  proof -
    from that assms(1) obtain x where x: "table s rid = Some x" "\<forall>i\<in>set ids. i < length (mm_features x)"
      unfolding inputs_ok_def by blast
    then show ?thesis using assms(2-4) by (cases "rid = v") (auto simp: same_request_def)
  qed
  then show ?thesis unfolding inputs_ok_def by blast
qed

lemma inputs_ok_same: "inputs_ok s inputs \<Longrightarrow> table s' = table s \<Longrightarrow> inputs_ok s' inputs"
  by (simp add: inputs_ok_def)

lemma inputs_ok_delete: "inputs_ok s inputs \<Longrightarrow> inputs_ok s (AList.delete v inputs)"
  unfolding inputs_ok_def by (auto simp: delete_conv' split: if_splits)

lemma encoder_inputs_of_ok:
  assumes "inputs_ok (sched st) (scheduled_encoder_inputs st)" "table (sched st) rid = Some r"
  shows "\<forall>i\<in>set (encoder_inputs_of rid st). i < length (mm_features r)"
proof (cases "map_of (scheduled_encoder_inputs st) rid")
  case (Some ids)
  then obtain r' where "table (sched st) rid = Some r'" "\<forall>i\<in>set ids. i < length (mm_features r')"
    using assms(1) unfolding inputs_ok_def by blast
  then show ?thesis using Some assms(2) by (simp add: encoder_inputs_of_def)
qed (simp add: encoder_inputs_of_def)

text \<open>Preemption keeps the invariant and the books, for any victim.\<close>

definition same_step :: "string \<Rightarrow> step \<Rightarrow> step \<Rightarrow> bool" where
  "same_step rid st st' \<longleftrightarrow> conf (sched st') = conf (sched st) \<and>
     table (sched st') rid = table (sched st) rid \<and>
     kvm_get_blocks (kvm (sched st')) rid = kvm_get_blocks (kvm (sched st)) rid \<and>
     kvm_conf (kvm (sched st')) = kvm_conf (kvm (sched st)) \<and>
     map_of (scheduled_spec_decode_tokens st') rid = map_of (scheduled_spec_decode_tokens st) rid"

definition preempted_request :: "request \<Rightarrow> request" where
  "preempted_request r = r\<lparr>status := PREEMPTED, num_computed_tokens := 0,
     num_preemptions := num_preemptions r + 1, spec_token_ids := []\<rparr>"

lemma preempted_request_facts [simp]:
  "same_request r (preempted_request r)" "status (preempted_request r) = PREEMPTED"
  "num_computed_tokens (preempted_request r) = 0"
  by (simp_all add: preempted_request_def same_request_def)

text \<open>The state after the victim went, in one piece.\<close>

definition after_preempt :: "string \<Rightarrow> request \<Rightarrow> encoder_cache \<Rightarrow> kv_cache_manager \<Rightarrow> scheduler \<Rightarrow> scheduler" where
  "after_preempt v r c k s = set_req v (preempted_request r) (s\<lparr>running := remove1 v (running s), encoder := c, kvm := k,
     num_preemptions_total := num_preemptions_total s + 1,
     waiting := prepend_request (sort_key (preempted_request r)) (waiting s)\<rparr>)"

lemma preempt_victim_state:
  assumes core: "core_inv H (sched st)" and p: "phase1 st" and at: "at_request rid st"
  shows "\<exists>v r c k st1 st'. take_victim st = Inr (v, st1) \<and> preempt_victim st = Inr (v, st') \<and>
    v \<in> set (running (sched st)) \<and> table (sched st) v = Some r \<and> enc_step r (encoder (sched st)) c \<and>
    kvm_inv k \<and> kvm_conf k = kvm_conf (kvm (sched st)) \<and> holds_none k v \<and>
    (\<forall>x. x \<noteq> v \<longrightarrow> kvm_get_blocks k x = kvm_get_blocks (kvm (sched st)) x) \<and>
    sched st' = after_preempt v r c k (sched st) \<and>
    scheduled_running_reqs st' = scheduled_running_reqs st1 \<and> num_scheduled_tokens st' = num_scheduled_tokens st1 \<and>
    token_budget st' = token_budget st1 \<and> req_index st' = req_index st1 \<and>
    scheduled_spec_decode_tokens st' = scheduled_spec_decode_tokens st1 \<and>
    scheduled_encoder_inputs st' = AList.delete v (scheduled_encoder_inputs st1) \<and>
    preempted_reqs st' = preempted_reqs st1 @ [v] \<and>
    scheduled_new_reqs st' = scheduled_new_reqs st1 \<and> scheduled_resumed_reqs st' = scheduled_resumed_reqs st1"
proof -
  let ?s = "sched st"
  from take_victim_ok [OF assms] obtain v st1 where tv: "take_victim st = Inr (v, st1)" "v \<in> set (running ?s)"
    "sched st1 = ?s\<lparr>running := remove1 v (running ?s)\<rparr>" "scheduled_encoder_inputs st1 = scheduled_encoder_inputs st"
    by blast
  obtain r where r: "table ?s v = Some r" "req ?s v = r" "status r = RUNNING" "request_id r = v"
    using core_running [OF core tv(2)] by metis
  have enc: "enc_inv (encoder ?s)" using core_parts(9) [OF core] by (simp add: enc_ok_def)
  have "\<forall>i\<in>set (encoder_inputs_of v st). i < length (mm_features r)"
    using encoder_inputs_of_ok [OF _ r(1)] p by (simp add: phase1_def books_def)
  then have ids: "\<forall>i\<in>set (encoder_inputs_of v st1). i < length (mm_features r)"
    using tv(4) by (simp add: encoder_inputs_of_def)
  obtain m c where c: "release_inputs r (encoder_inputs_of v st1) (encoder ?s) = Inr (m, c)" "enc_step r (encoder ?s) c"
    using release_inputs_ok [OF enc ids] by blast
  have req1: "req (sched st1) v = r" using r(2) tv(3) by (simp add: req_def)
  let ?st2 = "st1\<lparr>scheduled_encoder_inputs := AList.delete v (scheduled_encoder_inputs st1),
             encoder_budget := encoder_budget st1 + m, sched := (sched st1)\<lparr>encoder := c\<rparr>\<rparr>"
  have rel: "release_encoder_reservation v (encoder_inputs_of v st1) st1 = Inr ?st2"
    using c(1) req1 tv(3) by (simp add: release_encoder_reservation_def)
  from free_holds [OF core_parts(2) [OF core], of r] r(4) obtain k where
    k: "kvm_free r (kvm ?s) = Inr k" "kvm_inv k" "kvm_conf k = kvm_conf (kvm ?s)" "holds_none k v"
    "\<forall>x. x \<noteq> v \<longrightarrow> kvm_get_blocks k x = kvm_get_blocks (kvm ?s) x" by auto
  have req2: "req (sched ?st2) v = r" using req1 by (simp add: req_def)
  have pr: "preempt_request v (sched ?st2) = Inr (after_preempt v r c k ?s)"
    using req2 r(3) k(1) tv(3)
    by (simp add: preempt_request_def Let_def after_preempt_def preempted_request_def)
  show ?thesis
    using tv rel pr r(1) c(2) k(2-5)
    by (intro exI [of _ v] exI [of _ r] exI [of _ c] exI [of _ k] exI [of _ st1]
        exI [of _ "?st2\<lparr>sched := after_preempt v r c k ?s, preempted_reqs := preempted_reqs ?st2 @ [v]\<rparr>"])
      (simp add: preempt_victim_def)
qed

lemma after_preempt_fields [simp]:
  "conf (after_preempt v r c k s) = conf s" "running (after_preempt v r c k s) = remove1 v (running s)"
  "kvm (after_preempt v r c k s) = k" "encoder (after_preempt v r c k s) = c"
  "table (after_preempt v r c k s) = (table s)(v \<mapsto> preempted_request r)"
  "waiting (after_preempt v r c k s) = prepend_request (sort_key (preempted_request r)) (waiting s)"
  "skipped_waiting (after_preempt v r c k s) = skipped_waiting s"
  by (simp_all add: after_preempt_def)

lemma prepend_ids:
  assumes "queue_wf q"
  shows "set (queue_ids (prepend_request e q)) = insert (entry_id e) (set (queue_ids q))"
proof -
  have "set (queue_list (prepend_request e q)) = insert e (set (queue_list q))"
    using rq.prepend [OF assms, of e] by (auto dest: arg_cong [where f = set_mset])
  then show ?thesis by simp
qed

lemma preempt_victim_ok:
  assumes core: "core_inv H (sched st)" and p: "phase1 st" and at: "at_request rid st"
  shows "\<exists>v st'. preempt_victim st = Inr (v, st') \<and> core_inv H (sched st') \<and> phase1 st' \<and>
    (v \<noteq> rid \<longrightarrow> at_request rid st' \<and> same_step rid st st') \<and> conf (sched st') = conf (sched st) \<and>
    v \<in> set (preempted_reqs st') \<and> (v = rid \<longrightarrow> rid \<notin> set (running (sched st'))) \<and>
    token_budget st \<le> token_budget st'"
proof -
  let ?s = "sched st"
  note P = core_parts [OF core]
  have wf: "queue_wf (waiting ?s)" and dist: "distinct (running ?s)" using P(5) by (simp_all add: place_ok_def)
  from preempt_victim_state [OF assms] obtain v r c k st1 st' where
    tv: "take_victim st = Inr (v, st1)" and run: "preempt_victim st = Inr (v, st')"
    and v: "v \<in> set (running ?s)" and r: "table ?s v = Some r" and c: "enc_step r (encoder ?s) c"
    and k: "kvm_inv k" "kvm_conf k = kvm_conf (kvm ?s)" "holds_none k v"
      "\<forall>x. x \<noteq> v \<longrightarrow> kvm_get_blocks k x = kvm_get_blocks (kvm ?s) x"
    and s': "sched st' = after_preempt v r c k ?s"
    and f: "scheduled_running_reqs st' = scheduled_running_reqs st1" "num_scheduled_tokens st' = num_scheduled_tokens st1"
      "token_budget st' = token_budget st1" "req_index st' = req_index st1"
      "scheduled_spec_decode_tokens st' = scheduled_spec_decode_tokens st1"
      "scheduled_encoder_inputs st' = AList.delete v (scheduled_encoder_inputs st1)"
      "preempted_reqs st' = preempted_reqs st1 @ [v]"
      "scheduled_new_reqs st' = scheduled_new_reqs st1" "scheduled_resumed_reqs st' = scheduled_resumed_reqs st1"
    by blast
  from take_victim_ok [OF assms] tv have g:
    "scheduled_spec_decode_tokens st1 = scheduled_spec_decode_tokens st"
    "scheduled_encoder_inputs st1 = scheduled_encoder_inputs st" "preempted_reqs st1 = preempted_reqs st"
    "scheduled_new_reqs st1 = []" "scheduled_resumed_reqs st1 = []"
    and choice: "if v \<in> set (scheduled_running_reqs st) then
       \<exists>n. map_of (num_scheduled_tokens st) v = Some n \<and>
         scheduled_running_reqs st1 = remove1 v (scheduled_running_reqs st) \<and>
         num_scheduled_tokens st1 = AList.delete v (num_scheduled_tokens st) \<and>
         token_budget st1 = token_budget st + n \<and> req_index st1 = req_index st - 1 \<and>
         sched_policy (conf ?s) = PRIORITY
     else scheduled_running_reqs st1 = scheduled_running_reqs st \<and>
       num_scheduled_tokens st1 = num_scheduled_tokens st \<and> token_budget st1 = token_budget st \<and>
       req_index st1 = req_index st"
    and fcfs: "sched_policy (conf ?s) = FCFS \<longrightarrow> v = last (running ?s)" by auto
  have id: "request_id r = v" using P(4) r by (simp add: table_ok_def request_ok_def)
  have core': "core_inv H (sched st')"
    unfolding s' after_preempt_def by (rule core_preempt [OF core v r c k]) simp_all
  have keys: "set (map fst (num_scheduled_tokens st)) = set (scheduled_running_reqs st)"
    and N: "distinct (map fst (num_scheduled_tokens st))"
    and B: "token_budget st + total_scheduled st = max_num_scheduled_tokens (conf ?s)" "0 \<le> token_budget st"
    and gr: "\<forall>(x, n)\<in>set (num_scheduled_tokens st). granted ?s (scheduled_spec_decode_tokens st) x n"
    and sub: "set (scheduled_running_reqs st) \<subseteq> set (take (nat (req_index st)) (running ?s))"
    and sdist: "distinct (scheduled_running_reqs st)" and slen: "int (length (scheduled_running_reqs st)) \<le> req_index st"
    and spec: "dom (map_of (scheduled_spec_decode_tokens st)) \<subseteq> set (scheduled_running_reqs st) \<union> set (preempted_reqs st)"
    and pre: "set (preempted_reqs st) \<subseteq> set (queue_ids (waiting ?s))"
    and inp: "inputs_ok ?s (scheduled_encoder_inputs st)" and beh: "\<forall>x\<in>set (running ?s). behind ?s x"
    using p by (auto simp: phase1_def books_def)
  have all: "set (scheduled_running_reqs st') = set (scheduled_running_reqs st) - {v} \<and>
      num_scheduled_tokens st' = AList.delete v (num_scheduled_tokens st) \<and>
      (token_budget st' + total_scheduled st' = max_num_scheduled_tokens (conf ?s) \<and> 0 \<le> token_budget st') \<and>
      set (scheduled_running_reqs st') \<subseteq> set (take (nat (req_index st')) (remove1 v (running ?s))) \<and>
      distinct (scheduled_running_reqs st') \<and> int (length (scheduled_running_reqs st')) \<le> req_index st' \<and>
      token_budget st \<le> token_budget st'"
  proof (cases "v \<in> set (scheduled_running_reqs st)")
    case True
    with choice f obtain n where n: "map_of (num_scheduled_tokens st) v = Some n"
      "scheduled_running_reqs st' = remove1 v (scheduled_running_reqs st)"
      "num_scheduled_tokens st' = AList.delete v (num_scheduled_tokens st)"
      "token_budget st' = token_budget st + n" "req_index st' = req_index st - 1" by auto
    have "1 \<le> n" using gr map_of_SomeD [OF n(1)] by (auto simp: granted_def)
    moreover have "v \<in> set (take (nat (req_index st)) (running ?s))" using sub True by blast
    from take_remove1_shift [OF dist this] sub
    have "set (scheduled_running_reqs st) - {v} \<subseteq> set (take (nat (req_index st) - 1) (remove1 v (running ?s)))" by blast
    moreover have "nat (req_index st - 1) = nat (req_index st) - 1" by simp
    moreover have "int (length (scheduled_running_reqs st) - 1) + 1 = int (length (scheduled_running_reqs st))"
      using length_pos_if_in_set [OF True] by linarith
    ultimately show ?thesis
      using n sdist slen B sum_delete [OF N n(1)] True
      by (simp add: total_scheduled_def length_remove1 of_nat_diff)
  next
    case False
    then have "AList.delete v (num_scheduled_tokens st) = num_scheduled_tokens st"
      using keys by (intro delete_id) simp
    moreover have "set (scheduled_running_reqs st) \<subseteq> set (take (nat (req_index st)) (remove1 v (running ?s)))"
      using sub False take_remove1_subset [of "nat (req_index st)" "running ?s" v] by blast
    ultimately show ?thesis
      using choice f False sdist slen B by (simp add: total_scheduled_def)
  qed
  then have sched: "set (scheduled_running_reqs st') = set (scheduled_running_reqs st) - {v}"
    and Ns: "num_scheduled_tokens st' = AList.delete v (num_scheduled_tokens st)"
    and bud: "token_budget st' + total_scheduled st' = max_num_scheduled_tokens (conf ?s)" "0 \<le> token_budget st'"
    and sub': "set (scheduled_running_reqs st') \<subseteq> set (take (nat (req_index st')) (remove1 v (running ?s)))"
    and sd': "distinct (scheduled_running_reqs st')" "int (length (scheduled_running_reqs st')) \<le> req_index st'"
    and more: "token_budget st \<le> token_budget st'"
    by blast+
  have "books st'"
  proof -
    have keys': "set (map fst (num_scheduled_tokens st')) = set (scheduled_running_reqs st) - {v}"
      "distinct (map fst (num_scheduled_tokens st'))"
      unfolding Ns using keys distinct_delete [OF N] by (auto simp: delete_keys)
    have "granted (sched st') (scheduled_spec_decode_tokens st') x n" if "(x, n) \<in> set (num_scheduled_tokens st')" for x n
    proof -
      have "x \<noteq> v" using that keys'(1) by (metis DiffD2 image_eqI insertI1 list.set_map fst_conv)
      moreover have "(x, n) \<in> set (num_scheduled_tokens st)" using that unfolding Ns by (simp add: AList.delete_eq)
      then have "granted ?s (scheduled_spec_decode_tokens st) x n" using gr by blast
      ultimately show ?thesis using k(2,4) f(5) g(1) by (elim granted_cong) (simp_all add: s')
    qed
    then have "\<forall>(x, n)\<in>set (num_scheduled_tokens st'). granted (sched st') (scheduled_spec_decode_tokens st') x n" by blast
    moreover have "\<forall>x\<in>set (running (sched st')). behind (sched st') x"
      using beh dist behind_cong by (auto simp: s' behind_def)
    moreover have "inputs_ok (sched st') (scheduled_encoder_inputs st')"
      using inputs_ok_upd [OF inputs_ok_delete [OF inp] r, of "preempted_request r" "sched st'" v] f(6) g(2) by (simp add: s')
    moreover have "set (preempted_reqs st') \<subseteq> set (queue_ids (waiting (sched st')))"
      using pre f(7) g(3) prepend_ids [OF wf] id by (auto simp: s' sort_key_def preempted_request_def)
    moreover have "dom (map_of (scheduled_spec_decode_tokens st')) \<subseteq> set (scheduled_running_reqs st') \<union> set (preempted_reqs st')"
      using spec f(5,7) g(1,3) sched by auto
    moreover have "set (map fst (num_scheduled_tokens st')) \<subseteq> set (running (sched st'))"
      using keys'(1) sub dist by (auto simp: s' dest: in_set_takeD)
    ultimately show ?thesis using keys' sched f(8,9) g(4,5) bud unfolding books_def by (simp add: s')
  qed
  then have phase: "phase1 st'" using f(8,9) g(4,5) sub' sd' by (simp add: phase1_def s')
  have at': "at_request rid st' \<and> same_step rid st st'" if "v \<noteq> rid"
  proof -
    have in_take: "rid \<in> set (take (Suc (nat (req_index st))) (running ?s))" and nsch: "rid \<notin> set (scheduled_running_reqs st)"
      using at by (auto simp: at_request_def)
    have t: "rid \<in> set (take (Suc (nat (req_index st'))) (remove1 v (running ?s)))"
    proof (cases "v \<in> set (scheduled_running_reqs st)")
      case True
      have "0 < nat (req_index st)" using slen length_pos_if_in_set [OF True] by linarith
      moreover have "req_index st' = req_index st - 1" using choice f(4) True by auto
      ultimately have idx: "req_index st' = req_index st - 1" "0 < nat (req_index st)" by simp_all
      have "v \<in> set (take (Suc (nat (req_index st))) (running ?s))"
        using True sub set_take_subset_set_take [of "nat (req_index st)" "Suc (nat (req_index st))" "running ?s"] by auto
      from take_remove1_shift [OF dist this] in_take that
      have "rid \<in> set (take (nat (req_index st)) (remove1 v (running ?s)))" by auto
      moreover have "Suc (nat (req_index st')) = nat (req_index st)" using idx by simp
      ultimately show ?thesis by simp
    next
      case False
      then have "req_index st' = req_index st" using choice f(4) by simp
      then show ?thesis using take_remove1_subset [of "Suc (nat (req_index st))" "running ?s" v] in_take that by auto
    qed
    have "nat (req_index st') < length (remove1 v (running ?s)) \<and> remove1 v (running ?s) ! nat (req_index st') = rid"
      if F: "sched_policy (conf ?s) = FCFS"
    proof -
      have last: "v = last (running ?s)" "req_index st' = req_index st" using fcfs choice F f(4) by (auto split: if_splits)
      have i: "nat (req_index st) < length (running ?s)" "running ?s ! nat (req_index st) = rid"
        using at F by (simp_all add: at_request_def)
      have ne: "running ?s \<noteq> []" using v by auto
      have "nat (req_index st) \<noteq> length (running ?s) - 1" using i \<open>v \<noteq> rid\<close> last(1) ne by (auto simp: last_conv_nth)
      then have "nat (req_index st) < length (butlast (running ?s))" using i by simp
      moreover from this have "butlast (running ?s) ! nat (req_index st) = rid" using i by (simp add: nth_butlast)
      moreover have "remove1 v (running ?s) = butlast (running ?s)" using butlast_remove1 [OF dist ne] last(1) by simp
      ultimately show ?thesis using last(2) by simp
    qed
    then have "at_request rid st'" using t nsch sched by (simp add: at_request_def s')
    moreover have "same_step rid st st'" using that k(2,4) f(5) g(1) by (simp add: same_step_def s')
    ultimately show ?thesis by simp
  qed
  show ?thesis using run core' phase at' f(7) dist more by (intro exI [of _ v] exI [of _ st']) (auto simp: s')
qed

section \<open>Phase 1\<close>

lemma core_kvm_running:
  assumes core: "core_inv H s" and rid: "rid \<in> set (running s)" and r: "table s rid = Some r"
    and k: "kvm_inv k" "kvm_conf k = kvm_conf (kvm s)" "\<forall>x. x \<noteq> rid \<longrightarrow> kvm_get_blocks k x = kvm_get_blocks (kvm s) x"
    and slots: "has_slots k rid (num_computed_tokens r)"
  shows "core_inv H (s\<lparr>kvm := k\<rparr>)"
proof -
  note P = core_parts [OF core]
  have "run_ok k (table s) (running s)"
    unfolding run_ok_def
  proof
    fix x assume x: "x \<in> set (running s)"
    then obtain y where y: "table s x = Some y" "status y = RUNNING" "has_slots (kvm s) x (num_computed_tokens y)"
      using P(6) by (auto simp: run_ok_def)
    then show "\<exists>r. table s x = Some r \<and> status r = RUNNING \<and> has_slots k x (num_computed_tokens r)"
      using slots r k(2,3) blocks_cong(2) [of k x "kvm s"] by (cases "x = rid") auto
  qed
  moreover have "idle_ok k (running s)" by (rule idle_ok_cong [OF P(7) k(2)]) (use k(3) rid in auto)
  moreover have "kvm_max_model_len k = max_model_len (conf s)" using k(2) P(3) by (simp add: kvm_conf_eq)
  ultimately show ?thesis using P k(1,2) by (simp add: core_inv_def)
qed

text \<open>The books survive a change of the KV cache that leaves the scheduled requests alone.\<close>

lemma books_kvm:
  assumes b: "books st" and k: "kvm_conf k = kvm_conf (kvm (sched st))"
    "\<forall>x\<in>set (map fst (num_scheduled_tokens st)). kvm_get_blocks k x = kvm_get_blocks (kvm (sched st)) x"
  shows "books (st\<lparr>sched := (sched st)\<lparr>kvm := k\<rparr>\<rparr>)"
proof -
  have "granted ((sched st)\<lparr>kvm := k\<rparr>) (scheduled_spec_decode_tokens st) x n" if "(x, n) \<in> set (num_scheduled_tokens st)" for x n
  proof (rule granted_cong)
    show "granted (sched st) (scheduled_spec_decode_tokens st) x n" using b that by (auto simp: books_def)
    show "kvm_get_blocks (kvm ((sched st)\<lparr>kvm := k\<rparr>)) x = kvm_get_blocks (kvm (sched st)) x"
      using k(2) that by force
  qed (use k(1) in simp_all)
  then have "\<forall>(x, n)\<in>set (num_scheduled_tokens st). granted ((sched st)\<lparr>kvm := k\<rparr>) (scheduled_spec_decode_tokens st) x n" by blast
  then show ?thesis using b unfolding books_def
    by (simp add: inputs_ok_def behind_def total_scheduled_def) (metis Un_subset_iff)
qed

lemma books_encoder:
  assumes "books st"
  shows "books (st\<lparr>scheduled_encoder_inputs := AList.delete rid (scheduled_encoder_inputs st), encoder_budget := b,
      sched := (sched st)\<lparr>encoder := c\<rparr>\<rparr>)"
    and "books (st\<lparr>sched := (sched st)\<lparr>encoder := c\<rparr>, encoder_budget := b\<rparr>)"
  using assms inputs_ok_delete [of "sched st" "scheduled_encoder_inputs st" rid]
  unfolding books_def by (auto simp: inputs_ok_def behind_def total_scheduled_def granted_def)

lemma sched_id [simp]: "st\<lparr>sched := sched st\<rparr> = st" and kvm_id [simp]: "s\<lparr>kvm := kvm s\<rparr> = s"
  by simp_all

lemma release_ok:
  assumes core: "core_inv H (sched st)" and b: "books st" and r: "table (sched st) rid = Some r"
    and ids: "\<forall>i\<in>set ids. i < length (mm_features r)"
  shows "\<exists>st' c m. release_encoder_reservation rid ids st = Inr st' \<and> core_inv H (sched st') \<and> books st' \<and>
    st' = st\<lparr>scheduled_encoder_inputs := AList.delete rid (scheduled_encoder_inputs st),
             encoder_budget := encoder_budget st + m, sched := (sched st)\<lparr>encoder := c\<rparr>\<rparr>"
proof -
  have enc: "enc_inv (encoder (sched st))" using core_parts(9) [OF core] by (simp add: enc_ok_def)
  from release_inputs_ok [OF enc ids] obtain m c where
    c: "release_inputs r ids (encoder (sched st)) = Inr (m, c)" "enc_step r (encoder (sched st)) c" by blast
  have id: "request_id r = rid" using core_parts(4) [OF core] r by (simp add: table_ok_def request_ok_def)
  have "core_inv H ((sched st)\<lparr>encoder := c\<rparr>)" using core_encoder [OF core c(2), of r] r id by simp
  then show ?thesis
    using c(1) req_table [OF r] books_encoder(1) [OF b, where c = c and b = "encoder_budget st + m" and rid = rid]
    by (auto simp: release_encoder_reservation_def)
qed

lemma at_request_running: "at_request rid st \<Longrightarrow> rid \<in> set (running (sched st))"
  by (auto simp: at_request_def dest: in_set_takeD)

lemma allocate_or_preempt_ok:
  assumes "core_inv H (sched st)" "phase1 st" "at_request rid st" "table (sched st) rid = Some r"
    and "1 \<le> n" and "num_computed_tokens r + n \<le> max_model_len (conf (sched st))"
  shows "\<exists>res st'. allocate_or_preempt rid n st = Inr (res, st') \<and> core_inv H (sched st') \<and> phase1 st' \<and>
    conf (sched st') = conf (sched st) \<and> token_budget st \<le> token_budget st' \<and>
    (res \<noteq> None \<longrightarrow> at_request rid st' \<and> table (sched st') rid = Some r \<and>
       map_of (scheduled_spec_decode_tokens st') rid = map_of (scheduled_spec_decode_tokens st) rid \<and>
       has_slots (kvm (sched st')) rid (num_computed_tokens r + n)) \<and>
    (res = None \<longrightarrow> rid \<in> set (preempted_reqs st'))"
  using assms
proof (induction rid n st rule: allocate_or_preempt.induct)
  case (1 rid n st)
  let ?s = "sched st"
  note core = "1.prems"(1) and p = "1.prems"(2) and at = "1.prems"(3) and tab = "1.prems"(4)
  note run = at_request_running [OF at]
  obtain r' where r': "table ?s rid = Some r'" "req ?s rid = r'" "request_id r' = rid" "0 \<le> num_computed_tokens r'"
    "has_slots (kvm ?s) rid (num_computed_tokens r')" using core_running [OF core run] by metis
  then have r: "req ?s rid = r" "request_id r = rid" "0 \<le> num_computed_tokens r" "has_slots (kvm ?s) rid (num_computed_tokens r)"
    using tab by auto
  have len: "kvm_max_model_len (kvm ?s) = max_model_len (conf ?s)" by (rule core_parts(3) [OF core])
  from allocate_running [OF core_parts(2) [OF core], of n r] r "1.prems"(5,6) obtain res k where
    A: "allocate_slots r n 0 None 0 False (kvm ?s) = Inr (res, k)" "kvm_inv k" "kvm_conf k = kvm_conf (kvm ?s)"
    "\<forall>x. x \<noteq> rid \<longrightarrow> kvm_get_blocks k x = kvm_get_blocks (kvm ?s) x" "res = None \<longrightarrow> k = kvm ?s"
    "res \<noteq> None \<longrightarrow> has_slots k rid (num_computed_tokens r + n)" unfolding len by auto
  show ?case
  proof (cases res)
    case (Some blocks)
    let ?st = "st\<lparr>sched := ?s\<lparr>kvm := k\<rparr>\<rparr>"
    have slots: "has_slots k rid (num_computed_tokens r + n)" "has_slots k rid (num_computed_tokens r)"
      using A(6) Some has_slots_mono "1.prems"(5) by auto
    have c: "core_inv H (sched ?st)" using core_kvm_running [OF core run tab A(2-4) slots(2)] by simp
    have b: "books st" using p by (simp add: phase1_def)
    have "rid \<notin> set (map fst (num_scheduled_tokens st))" using at p by (auto simp: at_request_def phase1_def books_def)
    then have "books ?st" using A(4) by (intro books_kvm [OF b A(3)]) auto
    then have "phase1 ?st" "at_request rid ?st" using p at by (simp_all add: phase1_def at_request_def)
    then show ?thesis using c A(1) Some slots(1) tab r(1)
      by (intro exI [of _ res] exI [of _ ?st]) (simp add: allocate_or_preempt.simps [of rid n st] Let_def)
  next
    case None
    then have st: "st\<lparr>sched := ?s\<lparr>kvm := k\<rparr>\<rparr> = st" using A(5) by simp
    from preempt_victim_ok [OF core p at] obtain v st1 where
      V: "preempt_victim st = Inr (v, st1)" "core_inv H (sched st1)" "phase1 st1"
      "v \<noteq> rid \<longrightarrow> at_request rid st1 \<and> same_step rid st st1" "conf (sched st1) = conf ?s" "v \<in> set (preempted_reqs st1)"
      "token_budget st \<le> token_budget st1" by blast
    show ?thesis
    proof (cases "v = rid")
      case True
      then show ?thesis using A(1) None V st r(1)
        by (intro exI [of _ None] exI [of _ st1]) (simp add: allocate_or_preempt.simps [of rid n st] Let_def)
    next
      case False
      have tab1: "table (sched st1) rid = Some r" using V(4) False tab by (simp add: same_step_def)
      have eq: "allocate_or_preempt rid n st = allocate_or_preempt rid n st1"
        using A(1) None V(1) st r(1) False by (simp add: allocate_or_preempt.simps [of rid n st] Let_def)
      have at1: "at_request rid st1" "same_step rid st st1" using V(4) False by simp_all
      have sp: "map_of (scheduled_spec_decode_tokens st1) rid = map_of (scheduled_spec_decode_tokens st) rid"
        using at1(2) by (simp add: same_step_def)
      have V1: "preempt_victim (st\<lparr>sched := ?s\<lparr>kvm := k\<rparr>\<rparr>) = Inr (v, st1)" using V(1) st by simp
      have A1: "allocate_slots (req ?s rid) n 0 None 0 False (kvm ?s) = Inr (res, k)" using A(1) r(1) by simp
      have "\<exists>res st'. allocate_or_preempt rid n st1 = Inr (res, st') \<and> core_inv H (sched st') \<and> phase1 st' \<and>
        conf (sched st') = conf (sched st1) \<and> token_budget st1 \<le> token_budget st' \<and>
        (res \<noteq> None \<longrightarrow> at_request rid st' \<and> table (sched st') rid = Some r \<and>
           map_of (scheduled_spec_decode_tokens st') rid = map_of (scheduled_spec_decode_tokens st1) rid \<and>
           has_slots (kvm (sched st')) rid (num_computed_tokens r + n)) \<and>
        (res = None \<longrightarrow> rid \<in> set (preempted_reqs st'))"
        using "1.IH" [OF refl A1 refl None V1 refl False] V(2,3,5) at1(1) tab1 "1.prems"(5,6) by simp
      then show ?thesis unfolding eq sp V(5) using V(7) order_trans by fast
    qed
  qed
qed

lemma num_tokens_with_spec_ge: "num_tokens r \<le> num_tokens_with_spec r"
  by (simp add: num_tokens_with_spec_def num_tokens_def)

lemma books_same:
  assumes "sched st' = sched st" "token_budget st' = token_budget st"
    "num_scheduled_tokens st' = num_scheduled_tokens st"
    "scheduled_spec_decode_tokens st' = scheduled_spec_decode_tokens st"
    "scheduled_encoder_inputs st' = scheduled_encoder_inputs st"
    "scheduled_running_reqs st' = scheduled_running_reqs st" "scheduled_new_reqs st' = scheduled_new_reqs st"
    "scheduled_resumed_reqs st' = scheduled_resumed_reqs st" "preempted_reqs st' = preempted_reqs st"
  shows "books st' = books st"
  unfolding books_def total_scheduled_def assms ..

lemma books_state:
  assumes "books st" and same: "running s' = running (sched st)" "conf s' = conf (sched st)"
    and wait: "set (queue_ids (waiting (sched st))) \<subseteq> set (queue_ids (waiting s'))"
    and "\<And>x n. (x, n) \<in> set (num_scheduled_tokens st) \<Longrightarrow> granted s' (scheduled_spec_decode_tokens st) x n"
    and "inputs_ok s' (scheduled_encoder_inputs st)"
    and "\<And>x. x \<in> set (running (sched st)) \<Longrightarrow> behind s' x"
  shows "books (st\<lparr>sched := s'\<rparr>)"
proof -
  have gr: "\<forall>(x, n)\<in>set (num_scheduled_tokens st). granted s' (scheduled_spec_decode_tokens st) x n"
    using assms(5) by blast
  have beh: "\<forall>x\<in>set (running (sched st)). behind s' x" using assms(7) by blast
  have tot: "total_scheduled (st\<lparr>sched := s'\<rparr>) = total_scheduled st" by (simp add: total_scheduled_def)
  have fields: "sched (st\<lparr>sched := s'\<rparr>) = s'" "num_scheduled_tokens (st\<lparr>sched := s'\<rparr>) = num_scheduled_tokens st"
    "scheduled_running_reqs (st\<lparr>sched := s'\<rparr>) = scheduled_running_reqs st" "token_budget (st\<lparr>sched := s'\<rparr>) = token_budget st"
    "scheduled_new_reqs (st\<lparr>sched := s'\<rparr>) = scheduled_new_reqs st" "preempted_reqs (st\<lparr>sched := s'\<rparr>) = preempted_reqs st"
    "scheduled_resumed_reqs (st\<lparr>sched := s'\<rparr>) = scheduled_resumed_reqs st"
    "scheduled_spec_decode_tokens (st\<lparr>sched := s'\<rparr>) = scheduled_spec_decode_tokens st"
    "scheduled_encoder_inputs (st\<lparr>sched := s'\<rparr>) = scheduled_encoder_inputs st" by simp_all
  show ?thesis using assms(1,6) gr beh wait unfolding books_def tot fields same by blast
qed

lemma books_set_running:
  assumes b: "books st" and r: "table (sched st) rid = Some r" "same_request r r'"
    "num_computed_tokens r' = num_computed_tokens r"
  shows "books (st\<lparr>sched := set_req rid r' (sched st)\<rparr>)"
proof -
  let ?s' = "set_req rid r' (sched st)"
  show ?thesis
  proof (rule books_state [OF b])
    fix x n assume "(x, n) \<in> set (num_scheduled_tokens st)"
    then have g: "granted (sched st) (scheduled_spec_decode_tokens st) x n" using b unfolding books_def by blast
    show "granted ?s' (scheduled_spec_decode_tokens st) x n"
    proof (cases "x = rid")
      case True
      then show ?thesis using g r same_request_num_tokens [OF r(2)] by (simp add: granted_def cong: option.case_cong)
    next
      case False
      show ?thesis by (rule granted_cong [OF g]) (use False in simp_all)
    qed
  next
    show "inputs_ok ?s' (scheduled_encoder_inputs st)"
    proof (rule inputs_ok_upd)
      show "inputs_ok (sched st) (scheduled_encoder_inputs st)" using b unfolding books_def by blast
    qed (use r in simp_all)
  next
    fix x assume "x \<in> set (running (sched st))"
    then have "behind (sched st) x" using b unfolding books_def by blast
    then show "behind ?s' x" using r same_request_num_tokens [OF r(2)] by (cases "x = rid") (simp_all add: behind_def)
  qed simp_all
qed

lemma phase1_skip:
  assumes "phase1 st" "books (st\<lparr>sched := s'\<rparr>)" "running s' = running (sched st)"
  shows "phase1 (st\<lparr>sched := s', req_index := req_index st + 1\<rparr>)"
proof -
  have "0 \<le> req_index st" using assms(1) by (simp add: phase1_def)
  then have "set (take (nat (req_index st)) (running s')) \<subseteq> set (take (nat (req_index st + 1)) (running s'))"
    by (intro set_take_subset_set_take) simp
  then have "set (scheduled_running_reqs st) \<subseteq> set (take (nat (req_index st + 1)) (running s'))"
    using assms(1,3) by (auto simp: phase1_def)
  moreover have "books (st\<lparr>sched := s', req_index := req_index st + 1\<rparr>)"
    using assms(2) books_same [of "st\<lparr>sched := s', req_index := req_index st + 1\<rparr>" "st\<lparr>sched := s'\<rparr>"] by simp
  ultimately show ?thesis using assms(1) by (simp add: phase1_def)
qed

lemma spec_entry_none:
  assumes core: "core_inv H (sched st)" and b: "books st" and "rid \<in> set (running (sched st))"
    and "rid \<notin> set (scheduled_running_reqs st)"
  shows "map_of (scheduled_spec_decode_tokens st) rid = None"
proof -
  have "rid \<notin> set (preempted_reqs st)" using b run_waiting_disjoint(1) [OF core assms(3)] unfolding books_def by blast
  then show ?thesis using b assms(4) unfolding books_def by blast
qed

text \<open>Recording a request that got its slots.\<close>

lemma record_running_ok:
  assumes core: "core_inv H (sched st)" and p: "phase1 st" and at: "at_request rid st"
    and r: "table (sched st) rid = Some r" and slots: "has_slots (kvm (sched st)) rid (num_computed_tokens r + n)"
    and n: "1 \<le> n" "n \<le> token_budget st" "num_computed_tokens r + n \<le> num_tokens_with_spec r"
      "num_computed_tokens r + n \<le> max_model_len (conf (sched st))"
  shows "core_inv H (sched (record_running rid n blocks st))" and "phase1 (record_running rid n blocks st)"
    and "conf (sched (record_running rid n blocks st)) = conf (sched st)"
proof -
  let ?s = "sched st"
  let ?st' = "record_running rid n blocks st"
  define spec' where "spec' = scheduled_spec_decode_tokens ?st'"
  have b: "books st" using p by (simp add: phase1_def)
  note run = at_request_running [OF at]
  have nsch: "rid \<notin> set (scheduled_running_reqs st)" using at by (simp add: at_request_def)
  have none: "map_of (scheduled_spec_decode_tokens st) rid = None" by (rule spec_entry_none [OF core b run nsch])
  have req: "req ?s rid = r" by (rule req_table [OF r])
  let ?r' = "if spec_token_ids r = [] then r else r\<lparr>spec_token_ids := []\<rparr>"
  have s': "sched ?st' = (if spec_token_ids r = [] then ?s else set_req rid ?r' ?s)"
    using req by (simp add: record_running_def Let_def)
  have f: "scheduled_running_reqs ?st' = scheduled_running_reqs st @ [rid]"
    "num_scheduled_tokens ?st' = AList.update rid n (num_scheduled_tokens st)"
    "token_budget ?st' = token_budget st - n" "req_index ?st' = req_index st + 1"
    "scheduled_new_reqs ?st' = scheduled_new_reqs st" "scheduled_resumed_reqs ?st' = scheduled_resumed_reqs st"
    "preempted_reqs ?st' = preempted_reqs st" "scheduled_encoder_inputs ?st' = scheduled_encoder_inputs st"
    using req by (simp_all add: record_running_def Let_def)
  have same: "same_request r ?r'" "num_computed_tokens ?r' = num_computed_tokens r" "num_tokens ?r' = num_tokens r"
    by (simp_all add: num_tokens_def)
  have run': "running (sched ?st') = running ?s" "waiting (sched ?st') = waiting ?s" "kvm (sched ?st') = kvm ?s"
    "conf (sched ?st') = conf ?s" using s' by simp_all
  have tab': "table (sched ?st') = (table ?s)(rid \<mapsto> ?r')" using s' r by (auto simp: fun_eq_iff)
  show conf: "conf (sched ?st') = conf ?s" by (rule run'(4))
  obtain r0 where "table ?s rid = Some r0" "status r0 = RUNNING" "0 \<le> num_computed_tokens r0"
    "has_slots (kvm ?s) rid (num_computed_tokens r0)" using core_running [OF core run] by metis
  then have "core_inv H (set_req rid (r\<lparr>spec_token_ids := []\<rparr>) ?s)"
    using r by (intro core_set_running [OF core run r]) simp_all
  then show "core_inv H (sched ?st')" using s' core by simp
  have keys: "set (map fst (num_scheduled_tokens st)) = set (scheduled_running_reqs st)"
    using p by (auto simp: phase1_def books_def)
  then have fresh: "rid \<notin> set (map fst (num_scheduled_tokens st))" using nsch by simp
  note N = update_new [OF fresh, of n]
  have spec_other: "map_of spec' x = map_of (scheduled_spec_decode_tokens st) x" if "x \<noteq> rid" for x
    using that req by (simp add: spec'_def record_running_def Let_def update_conv')
  have spec_rid: "case map_of spec' rid of None \<Rightarrow> num_computed_tokens r + n \<le> num_tokens r
      | Some ds \<Rightarrow> ds \<noteq> [] \<and> num_computed_tokens r + n = num_tokens r + int (length ds)"
  proof (cases "spec_token_ids r = [] \<or> n + num_computed_tokens r - num_tokens r \<le> 0")
    case True
    then have "map_of spec' rid = None" using none req by (auto simp: spec'_def record_running_def Let_def)
    then show ?thesis using True n(3) by (auto simp: num_tokens_with_spec_def num_tokens_def)
  next
    case False
    let ?k = "n + num_computed_tokens r - num_tokens r"
    have "map_of spec' rid = Some (take (nat ?k) (spec_token_ids r))"
      using False req by (simp add: spec'_def record_running_def Let_def update_conv')
    moreover have "?k \<le> int (length (spec_token_ids r))" using n(3) by (simp add: num_tokens_with_spec_def num_tokens_def)
    ultimately show ?thesis using False by (auto simp: min_absorb2 nat_le_iff)
  qed
  have gr: "granted (sched ?st') spec' x m" if "(x, m) \<in> set (num_scheduled_tokens ?st')" for x m
  proof (cases "x = rid")
    case True
    then have "m = n" using that N f(2) fresh by (auto simp: image_iff)
    then show ?thesis using True spec_rid slots n(1,4) run' tab' by (auto simp: granted_def num_tokens_def split: option.splits)
  next
    case False
    then have "(x, m) \<in> set (num_scheduled_tokens st)" using that N f(2) by auto
    then have "granted ?s (scheduled_spec_decode_tokens st) x m" using b by (auto simp: books_def)
    then show ?thesis using False spec_other run' tab' by (elim granted_cong) simp_all
  qed
  have "books ?st'"
  proof -
    have "dom (map_of spec') \<subseteq> insert rid (dom (map_of (scheduled_spec_decode_tokens st)))"
      using spec_other by (metis domIff insertCI insertE subsetI)
    then have "dom (map_of (scheduled_spec_decode_tokens ?st')) \<subseteq> set (scheduled_running_reqs ?st') \<union> set (preempted_reqs ?st')"
    proof -
      have "dom (map_of (scheduled_spec_decode_tokens st)) \<subseteq> set (scheduled_running_reqs st) \<union> set (preempted_reqs st)"
        using b unfolding books_def by blast
      then show ?thesis using \<open>dom (map_of spec') \<subseteq> _\<close> f(1,7) unfolding spec'_def by (simp, blast)
    qed
    moreover have "\<forall>(x, m)\<in>set (num_scheduled_tokens ?st'). granted (sched ?st') (scheduled_spec_decode_tokens ?st') x m"
      using gr unfolding spec'_def by blast
    moreover have "inputs_ok (sched ?st') (scheduled_encoder_inputs ?st')"
      using b f(8) by (intro inputs_ok_upd [OF _ r same(1) tab']) (simp add: books_def)
    moreover have "\<forall>x\<in>set (running (sched ?st')). behind (sched ?st') x"
      using b run'(1) tab' r same(2,3) unfolding books_def behind_def by auto
    moreover have "distinct (map fst (num_scheduled_tokens ?st'))"
      "set (map fst (num_scheduled_tokens ?st')) = insert rid (set (map fst (num_scheduled_tokens st)))"
      using b f(2) N fresh by (auto simp: books_def)
    moreover have "token_budget ?st' + total_scheduled ?st' = max_num_scheduled_tokens (conf ?s)" "0 \<le> token_budget ?st'"
      using b f(2,3) N n(2) by (simp_all add: books_def total_scheduled_def)
    moreover have "set (map fst (num_scheduled_tokens st)) \<subseteq> set (running ?s)" "set (preempted_reqs st) \<subseteq> set (queue_ids (waiting ?s))"
      using b unfolding books_def by blast+
    moreover have "scheduled_new_reqs st = []" "scheduled_resumed_reqs st = []" using p by (simp_all add: phase1_def)
    ultimately show ?thesis using f run' run keys unfolding books_def by simp
  qed
  moreover have "set (scheduled_running_reqs ?st') \<subseteq> set (take (nat (req_index ?st')) (running (sched ?st')))"
  proof -
    have z: "nat (req_index st + 1) = Suc (nat (req_index st))" using p by (simp add: phase1_def nat_add_distrib)
    have "set (take (nat (req_index st)) (running ?s)) \<subseteq> set (take (Suc (nat (req_index st))) (running ?s))"
      by (rule set_take_subset_set_take) simp
    then show ?thesis using p at f(1,4) run'(1) z by (auto simp: phase1_def at_request_def)
  qed
  ultimately show "phase1 ?st'" using p f nsch by (simp add: phase1_def)
qed

end
