(* ===== verification/SchedulerRun.thy ===== *)
theory SchedulerRun
  imports SchedulerInv
begin

text \<open>
  The phases of \<open>schedule\<close>, one after the other: each iteration of the two loops keeps the
  invariant and the books and does not raise, so neither do the loops and the step.
\<close>

section \<open>One iteration over the running requests\<close>

lemma running_step_granted:
  assumes "rid = running (sched st) ! nat (req_index st)" and "r = drop_drafts (sched st) (req (sched st) rid)"
    and "num_computed_tokens r < num_tokens_with_spec r"
    and "n = running_share (conf (sched st)) r (token_budget st)" and "0 < n"
    and "schedule_encoder r n (encoder_budget st) (set_req rid r (sched st)) = Inr (n', ids, eb, s2)" and "0 < n'"
    and "allocate_or_preempt rid n' st3 = Inr (res, st4)"
    and "st3 = (if ids = [] then st\<lparr>sched := s2, encoder_budget := eb\<rparr>
      else st\<lparr>sched := s2, encoder_budget := eb,
              scheduled_encoder_inputs := AList.update rid ids (scheduled_encoder_inputs st)\<rparr>)"
  shows "running_step st = (case res of
      None \<Rightarrow> rbind (release_encoder_reservation rid (encoder_inputs_of rid st4) st4) (\<lambda>st5. Inr (False, st5))
    | Some blocks \<Rightarrow> Inr (True, record_running rid n' blocks st4))"
  using assms(3,5-9)
  unfolding running_step_def Let_def assms(1) [symmetric] assms(2) [symmetric] assms(4) [symmetric]
  by (cases "ids = []") simp_all

lemma drop_drafts_facts [simp]:
  "same_request r (drop_drafts s r)" "num_computed_tokens (drop_drafts s r) = num_computed_tokens r"
  "status (drop_drafts s r) = status r" "num_tokens (drop_drafts s r) = num_tokens r"
  "mm_features (drop_drafts s r) = mm_features r" "request_id (drop_drafts s r) = request_id r"
  by (auto simp: drop_drafts_def num_tokens_def split: option.split)

lemma running_share_bounds:
  "running_share cf r b \<le> b" "num_computed_tokens r + running_share cf r b \<le> num_tokens_with_spec r"
  "num_computed_tokens r + running_share cf r b \<le> max_model_len cf"
  by (auto simp: running_share_def Let_def)

lemma phase1_books:
  assumes "phase1 st" "books st'" "req_index st' = req_index st" "running (sched st') = running (sched st)"
    "scheduled_running_reqs st' = scheduled_running_reqs st" "scheduled_new_reqs st' = scheduled_new_reqs st"
    "scheduled_resumed_reqs st' = scheduled_resumed_reqs st"
  shows "phase1 st'"
  using assms by (simp add: phase1_def)

lemma books_inputs:
  assumes "books st" "table (sched st) rid = Some r" "\<forall>i\<in>set ids. i < length (mm_features r)"
  shows "books (st\<lparr>scheduled_encoder_inputs := AList.update rid ids (scheduled_encoder_inputs st)\<rparr>)"
proof -
  have "inputs_ok (sched st) (scheduled_encoder_inputs st)" using assms(1) by (simp add: books_def)
  then have "inputs_ok (sched st) (AList.update rid ids (scheduled_encoder_inputs st))"
    unfolding inputs_ok_def using assms(2,3) by (auto simp: update_conv')
  then show ?thesis using assms(1) unfolding books_def total_scheduled_def by auto
qed

lemma running_at:
  assumes core: "core_inv H (sched st)" and p: "phase1 st" and i: "req_index st < int (length (running (sched st)))"
  shows "at_request (running (sched st) ! nat (req_index st)) st"
proof -
  let ?run = "running (sched st)" and ?i = "nat (req_index st)"
  have dist: "distinct ?run" using core_parts(5) [OF core] by (simp add: place_ok_def)
  have "0 \<le> req_index st" using p by (simp add: phase1_def)
  then have lt: "?i < length ?run" using i by linarith
  have "?run ! ?i \<notin> set (take ?i ?run)"
    using dist lt by (auto simp: in_set_conv_nth nth_eq_iff_index_eq)
  moreover have "?run ! ?i \<in> set (take (Suc ?i) ?run)" using lt by (simp add: take_Suc_conv_app_nth)
  ultimately show ?thesis using p lt by (auto simp: phase1_def at_request_def)
qed

lemma phase1_next:
  assumes "phase1 st"
  shows "phase1 (st\<lparr>req_index := req_index st + 1\<rparr>)"
proof -
  have "books (st\<lparr>sched := sched st\<rparr>)" using assms by (simp add: phase1_def)
  from phase1_skip [OF assms this refl] show ?thesis by simp
qed

lemma running_step_ok:
  assumes core: "core_inv H (sched st)" and p: "phase1 st" and i: "req_index st < int (length (running (sched st)))"
  shows "\<exists>go st'. running_step st = Inr (go, st') \<and> core_inv H (sched st') \<and> phase1 st' \<and>
    conf (sched st') = conf (sched st) \<and> (go \<or> preempted_reqs st' \<noteq> [])"
proof -
  let ?s = "sched st"
  define rid where "rid = running ?s ! nat (req_index st)"
  have at: "at_request rid st" unfolding rid_def by (rule running_at [OF core p i])
  have run: "rid \<in> set (running ?s)" by (rule at_request_running [OF at])
  have b: "books st" using p by (simp add: phase1_def)
  obtain r0 where r0: "table ?s rid = Some r0" "req ?s rid = r0" "status r0 = RUNNING" "request_id r0 = rid"
    "0 \<le> num_computed_tokens r0" "has_slots (kvm ?s) rid (num_computed_tokens r0)"
    "features_fit (max_num_encoder_input_tokens (conf ?s)) (cache_size (encoder ?s)) r0"
    using core_running [OF core run] by metis
  define r where "r = drop_drafts ?s r0"
  have r': "r = drop_drafts ?s (req ?s rid)" by (simp only: r_def r0(2))
  have r: "same_request r0 r" "num_computed_tokens r = num_computed_tokens r0" "status r = RUNNING"
    "num_tokens r = num_tokens r0" "mm_features r = mm_features r0" "request_id r = rid"
    using r0 by (simp_all add: r_def)
  let ?s1 = "set_req rid r ?s"
  have core1: "core_inv H ?s1" by (rule core_set_running [OF core run r0(1) r(1)]) (use r0 r in simp_all)
  have b1: "books (st\<lparr>sched := ?s1\<rparr>)" by (rule books_set_running [OF b r0(1) r(1,2)])
  have "behind ?s rid" using b run by (auto simp: books_def)
  then have more: "num_computed_tokens r < num_tokens_with_spec r"
    using r0(1) r(2,4) num_tokens_with_spec_ge [of r] by (simp add: behind_def)
  define n where "n = running_share (conf ?s) r (token_budget st)"
  note share = running_share_bounds [where cf = "conf ?s" and r = r and b = "token_budget st", folded n_def]
  show ?thesis
  proof (cases "n \<le> 0")
    case True
    have "phase1 (st\<lparr>sched := ?s1, req_index := req_index st + 1\<rparr>)" by (rule phase1_skip [OF p b1]) simp
    moreover have "running_step st = Inr (True, st\<lparr>sched := ?s1, req_index := req_index st + 1\<rparr>)"
      using True more r0(2) by (simp add: running_step_def Let_def r_def n_def rid_def)
    ultimately show ?thesis using core1
      by (intro exI [of _ True] exI [of _ "st\<lparr>sched := ?s1, req_index := req_index st + 1\<rparr>"]) simp
  next
    case n: False
    have enc1: "enc_inv (encoder ?s1)" using core_parts(9) [OF core] by (simp add: enc_ok_def)
    have fit: "features_fit (max_num_encoder_input_tokens (conf ?s1)) (cache_size (encoder ?s1)) r"
      using r0(7) r(5) by (simp add: features_fit_def)
    from schedule_encoder_ok [OF enc1 fit, of n "encoder_budget st"] n obtain n' ids eb c where
      E: "schedule_encoder r n (encoder_budget st) ?s1 = Inr (n', ids, eb, ?s1\<lparr>encoder := c\<rparr>)" "n' \<le> n"
      "enc_step r (encoder ?s1) c" "\<forall>i\<in>set ids. i < length (mm_features r)" by auto
    let ?s2 = "?s1\<lparr>encoder := c\<rparr>"
    let ?st2 = "st\<lparr>sched := ?s2, encoder_budget := eb\<rparr>"
    have core2: "core_inv H ?s2" by (rule core_encoder [OF core1 E(3), of r]) (simp_all add: r(6))
    have "?st2 = st\<lparr>sched := ?s1\<rparr>\<lparr>sched := (sched (st\<lparr>sched := ?s1\<rparr>))\<lparr>encoder := c\<rparr>, encoder_budget := eb\<rparr>" by simp
    then have b2: "books ?st2" using books_encoder(2) [OF b1, where c = c and b = eb] by (rule ssubst)
    show ?thesis
    proof (cases "n' \<le> 0")
      case True
      have p2: "phase1 ?st2" by (rule phase1_books [OF p b2]) simp_all
      have "phase1 (?st2\<lparr>req_index := req_index st + 1\<rparr>)" using phase1_next [OF p2] by simp
      moreover have "running_step st = Inr (True, ?st2\<lparr>req_index := req_index st + 1\<rparr>)"
        using True more n r0(2) E(1) by (simp add: running_step_def Let_def r_def n_def rid_def)
      ultimately show ?thesis using core2
        by (intro exI [of _ True] exI [of _ "?st2\<lparr>req_index := req_index st + 1\<rparr>"]) simp
    next
      case n': False
      define st3 where "st3 = (if ids = [] then ?st2
        else ?st2\<lparr>scheduled_encoder_inputs := AList.update rid ids (scheduled_encoder_inputs st)\<rparr>)"
      have f3: "sched st3 = ?s2" "req_index st3 = req_index st" "scheduled_running_reqs st3 = scheduled_running_reqs st"
        "scheduled_new_reqs st3 = scheduled_new_reqs st" "scheduled_resumed_reqs st3 = scheduled_resumed_reqs st"
        "token_budget st3 = token_budget st"
        "scheduled_spec_decode_tokens st3 = scheduled_spec_decode_tokens st"
        by (simp_all add: st3_def)
      have tab3: "table (sched st3) rid = Some r" by (simp add: f3)
      have "books st3" using b2 books_inputs [OF b2, of rid r ids] E(4) unfolding st3_def by simp
      then have p3: "phase1 st3" by (rule phase1_books [OF p]) (simp_all add: f3)
      have at3: "at_request rid st3" using at by (simp add: at_request_def f3)
      have core3: "core_inv H (sched st3)" using core2 f3 by simp
      have "1 \<le> n'" "num_computed_tokens r + n' \<le> max_model_len (conf (sched st3))"
        using n' E(2) share(3) by (simp_all add: f3)
      from allocate_or_preempt_ok [OF core3 p3 at3 tab3 this] obtain res st4 where
        A: "allocate_or_preempt rid n' st3 = Inr (res, st4)" "core_inv H (sched st4)" "phase1 st4"
          "conf (sched st4) = conf (sched st3)" "token_budget st3 \<le> token_budget st4"
        and some: "res \<noteq> None \<longrightarrow> at_request rid st4 \<and> table (sched st4) rid = Some r \<and>
          has_slots (kvm (sched st4)) rid (num_computed_tokens r + n')"
        and none: "res = None \<longrightarrow> rid \<in> set (preempted_reqs st4)" by blast
      have step: "running_step st = (case res of
          None \<Rightarrow> rbind (release_encoder_reservation rid (encoder_inputs_of rid st4) st4) (\<lambda>st5. Inr (False, st5))
        | Some blocks \<Rightarrow> Inr (True, record_running rid n' blocks st4))"
        by (rule running_step_granted [OF rid_def r' more n_def _ E(1) _ A(1) st3_def]) (use n n' in simp_all)
      have conf4: "conf (sched st4) = conf ?s" using A(4) f3 by simp
      show ?thesis
      proof (cases res)
        case (Some blocks)
        then have at4: "at_request rid st4" and tab4: "table (sched st4) rid = Some r"
          and slots: "has_slots (kvm (sched st4)) rid (num_computed_tokens r + n')" using some by simp_all
        have "1 \<le> n'" "n' \<le> token_budget st4" "num_computed_tokens r + n' \<le> num_tokens_with_spec r"
          "num_computed_tokens r + n' \<le> max_model_len (conf (sched st4))"
          using n' E(2) share A(5) f3(6) by (simp_all add: conf4)
        note R = record_running_ok [OF A(2,3) at4 tab4 slots this, of blocks]
        show ?thesis using step Some R conf4
          by (intro exI [of _ True] exI [of _ "record_running rid n' blocks st4"]) simp
      next
        case None
        then have pre: "rid \<in> set (preempted_reqs st4)" using none by simp
        have b4: "books st4" using A(3) by (simp add: phase1_def)
        have "rid \<in> set (queue_ids (waiting (sched st4)))" using pre b4 unfolding books_def by blast
        then have "rid \<in> dom (table (sched st4))"
          using core_parts(5) [OF A(2)] unfolding place_ok_def by (metis Un_iff set_append)
        then obtain r4 where tab4: "table (sched st4) rid = Some r4" by blast
        have "\<forall>i\<in>set (encoder_inputs_of rid st4). i < length (mm_features r4)"
          using encoder_inputs_of_ok [OF _ tab4] b4 by (simp add: books_def)
        from release_ok [OF A(2) b4 tab4 this] obtain st5 c m where
          R: "release_encoder_reservation rid (encoder_inputs_of rid st4) st4 = Inr st5"
          "core_inv H (sched st5)" "books st5"
          "st5 = st4\<lparr>scheduled_encoder_inputs := AList.delete rid (scheduled_encoder_inputs st4),
             encoder_budget := encoder_budget st4 + m, sched := (sched st4)\<lparr>encoder := c\<rparr>\<rparr>" by blast
        have "phase1 st5" by (rule phase1_books [OF A(3) R(3)]) (simp_all add: R(4))
        moreover have "preempted_reqs st5 \<noteq> []" "conf (sched st5) = conf ?s" using pre conf4 by (auto simp: R(4))
        ultimately show ?thesis using step None R(1,2) by (intro exI [of _ False] exI [of _ st5]) simp
      qed
    qed
  qed
qed

text \<open>The whole loop: it returns, and what it leaves is in order.\<close>

lemma running_loop_ok:
  assumes "core_inv H (sched st)" "phase1 st"
  shows "\<exists>st'. running_loop st = Inr st' \<and> core_inv H (sched st') \<and> phase1 st' \<and> conf (sched st') = conf (sched st)"
  using assms
proof (induction st rule: running_loop.induct)
  case (1 st)
  let ?on = "req_index st < int (length (running (sched st))) \<and> 0 < token_budget st"
  show ?case
  proof (cases ?on)
    case False
    then have "running_loop st = Inr st" by (subst running_loop.simps) (simp only: if_False)
    then show ?thesis using "1.prems" by simp
  next
    case True
    from running_step_ok [OF "1.prems"] True obtain go st' where
      S: "running_step st = Inr (go, st')" "core_inv H (sched st')" "phase1 st'" "conf (sched st') = conf (sched st)"
      by auto
    have eq: "running_loop st = (if go then running_loop st' else Inr st')"
      using True S(1) by (simp add: running_loop.simps [of st])
    show ?thesis
    proof (cases go)
      case False
      then show ?thesis using eq S by simp
    next
      case go: True
      from "1.IH" [OF True S(1) refl go S(2,3)] show ?thesis using eq go S(4) by simp
    qed
  qed
qed

lemma initial_phase1:
  assumes "0 \<le> max_num_scheduled_tokens (conf s)" "\<forall>rid\<in>set (running s). behind s rid"
  shows "phase1 (initial_step s)"
  using assms by (simp add: phase1_def books_def initial_step_def total_scheduled_def inputs_ok_def)

section \<open>Changes to a waiting request\<close>

lemma core_waiting:
  assumes "core_inv H s" "e \<in> set (queue_list (waiting s) @ queue_list (skipped_waiting s))"
  obtains r where "table s (entry_id e) = Some r" "req s (entry_id e) = r" "e = sort_key r" "request_id r = entry_id e"
    "num_computed_tokens r = 0" "waiting_status (status r)" "entry_id e \<notin> set (running s)"
    "request_ok H (conf s) (kvm_conf (kvm s)) (cache_size (encoder s)) (entry_id e) r" "holds_none (kvm s) (entry_id e)"
proof -
  note P = core_parts [OF assms(1)]
  from P(5) assms(2) obtain r where r: "table s (entry_id e) = Some r" "e = sort_key r"
    unfolding place_ok_def by blast
  have mem: "entry_id e \<in> set (queue_ids (waiting s) @ queue_ids (skipped_waiting s))" using assms(2) by auto
  then obtain r' where r': "table s (entry_id e) = Some r'" "waiting_status (status r')" "num_computed_tokens r' = 0"
    using P(8) unfolding wait_ok_def by blast
  have nrun: "entry_id e \<notin> set (running s)" using P(5) mem by (auto simp: place_ok_def)
  have ok: "request_ok H (conf s) (kvm_conf (kvm s)) (cache_size (encoder s)) (entry_id e) r"
    using P(4) r(1) by (simp add: table_ok_def)
  then have "request_id r = entry_id e" by (simp add: request_ok_def)
  moreover have "holds_none (kvm s) (entry_id e)" using P(7) nrun by (simp add: idle_ok_def)
  ultimately show thesis using that [OF r(1) req_table [OF r(1)] r(2)] r r' nrun ok by auto
qed

lemma core_waitingD:
  assumes "core_inv H s" "e \<in> set (queue_list (waiting s) @ queue_list (skipped_waiting s))" "table s (entry_id e) = Some r"
  shows "req s (entry_id e) = r" "request_id r = entry_id e" "num_computed_tokens r = 0" "waiting_status (status r)"
    "entry_id e \<notin> set (running s)" "holds_none (kvm s) (entry_id e)" "e = sort_key r"
    "request_ok H (conf s) (kvm_conf (kvm s)) (cache_size (encoder s)) (entry_id e) r"
proof -
  obtain x where "table s (entry_id e) = Some x" "req s (entry_id e) = x" "e = sort_key x" "request_id x = entry_id e"
    "num_computed_tokens x = 0" "waiting_status (status x)" "entry_id e \<notin> set (running s)"
    "request_ok H (conf s) (kvm_conf (kvm s)) (cache_size (encoder s)) (entry_id e) x" "holds_none (kvm s) (entry_id e)"
    by (rule core_waiting [OF assms(1,2)])
  then show "req s (entry_id e) = r" "request_id r = entry_id e" "num_computed_tokens r = 0" "waiting_status (status r)"
    "entry_id e \<notin> set (running s)" "holds_none (kvm s) (entry_id e)" "e = sort_key r"
    "request_ok H (conf s) (kvm_conf (kvm s)) (cache_size (encoder s)) (entry_id e) r"
    using assms(3) by simp_all
qed

lemma core_set_waiting:
  assumes core: "core_inv H s" and rid: "rid \<notin> set (running s)" and r: "table s rid = Some r" "same_request r r'"
    and ok: "waiting_status (status r')" "num_computed_tokens r' = 0"
  shows "core_inv H (set_req rid r' s)"
proof -
  note P = core_parts [OF core]
  have "run_ok (kvm s) ((table s)(rid \<mapsto> r')) (running s)" by (rule run_ok_upd_other [OF P(6) rid])
  moreover have "wait_ok ((table s)(rid \<mapsto> r')) (queue_ids (waiting s) @ queue_ids (skipped_waiting s))"
    using P(8) ok by (auto simp: wait_ok_def)
  moreover have "table_ok H (conf s) (kvm_conf (kvm s)) (cache_size (encoder s)) ((table s)(rid \<mapsto> r'))"
    by (rule table_ok_upd [OF P(4) r]) (simp add: ok(2))
  ultimately show ?thesis using P place_ok_upd [OF P(5) r] enc_ok_upd [OF P(9) r]
    lora_ok_upd [of "table s" rid r r', OF r]
    unfolding core_inv_def by simp
qed

text \<open>The KV cache may change for a request that does not run, as long as it ends with nothing.\<close>

lemma core_kvm_idle:
  assumes core: "core_inv H s" and rid: "rid \<notin> set (running s)"
    and k: "kvm_inv k" "kvm_conf k = kvm_conf (kvm s)" "holds_none k rid"
      "\<forall>x. x \<noteq> rid \<longrightarrow> kvm_get_blocks k x = kvm_get_blocks (kvm s) x"
  shows "core_inv H (s\<lparr>kvm := k\<rparr>)"
proof -
  note P = core_parts [OF core]
  have "run_ok k (table s) (running s)" by (rule run_ok_cong [OF P(6) k(2)]) (use k(4) rid in auto)
  moreover have "idle_ok k (running s)"
    unfolding idle_ok_def
  proof (intro allI impI)
    fix x assume "x \<notin> set (running s)"
    then show "holds_none k x"
      using P(7) k(2-4) blocks_cong(1) [of k x "kvm s"] by (cases "x = rid") (auto simp: idle_ok_def)
  qed
  moreover have "kvm_max_model_len k = max_model_len (conf s)" using k(2) P(3) by (simp add: kvm_conf_eq)
  ultimately show ?thesis using P k(1,2) by (simp add: core_inv_def)
qed

text \<open>The head of the waiting queue is set aside.\<close>

lemma set_aside_ok:
  assumes core: "core_inv H s" and q: "queue_list (waiting s) = e # es"
  shows "\<exists>q. set_aside e s = Inr (s\<lparr>waiting := q, skipped_waiting := add_request e (skipped_waiting s)\<rparr>) \<and>
    core_inv H (s\<lparr>waiting := q, skipped_waiting := add_request e (skipped_waiting s)\<rparr>)"
proof -
  note P = core_parts [OF core]
  have wf: "queue_wf (waiting s)" "queue_wf (skipped_waiting s)"
    and pol: "queue_policy (waiting s) = sched_policy (conf s)" "queue_policy (skipped_waiting s) = sched_policy (conf s)"
    using P(5) by (simp_all add: place_ok_def)
  from rq.pop_first [OF wf(1) q] obtain q where pop: "pop_request (waiting s) = Inr (e, q)" "queue_wf q" "queue_list q = es"
    by blast
  let ?sq = "add_request e (skipped_waiting s)"
  note add = rq.add [OF wf(2), of e]
  have ids: "mset (queue_ids ?sq) = add_mset (entry_id e) (mset (queue_ids (skipped_waiting s)))"
    unfolding mset_map using add by simp
  have all: "mset (running s @ queue_ids q @ queue_ids ?sq) =
      mset (running s @ queue_ids (waiting s) @ queue_ids (skipped_waiting s))"
    using ids pop(3) q by simp
  have entries: "set (queue_list q @ queue_list ?sq) = set (queue_list (waiting s) @ queue_list (skipped_waiting s))"
  proof -
    have "mset (queue_list q @ queue_list ?sq) = mset (queue_list (waiting s) @ queue_list (skipped_waiting s))"
      using add pop(3) q by simp
    then show ?thesis by (rule mset_eq_setD)
  qed
  have place: "place_ok (sched_policy (conf s)) (table s) (running s) q ?sq"
    using P(5) mset_eq_imp_distinct_iff [OF all] mset_eq_setD [OF all] add pop(2) pol pop_policy [OF pop(1)]
    unfolding place_ok_def entries by simp
  have "set (queue_ids q @ queue_ids ?sq) = set (queue_ids (waiting s) @ queue_ids (skipped_waiting s))"
    using arg_cong [OF entries, of "image entry_id"] by (simp add: image_Un)
  then have "wait_ok (table s) (queue_ids q @ queue_ids ?sq)" using P(8) unfolding wait_ok_def by simp
  then have "core_inv H (s\<lparr>waiting := q, skipped_waiting := ?sq\<rparr>)"
    using P place by (simp add: core_inv_def)
  then show ?thesis using pop(1) by (auto simp: set_aside_def)
qed

text \<open>The head of the waiting queue is admitted, with the slots it has been given.\<close>

lemma core_admit:
  assumes core: "core_inv H s" and q: "queue_list (waiting s) = e # es"
    and pop: "pop_request (waiting s) = Inr (e, q)"
    and r: "table s (entry_id e) = Some r" "same_request r r'" "status r' = RUNNING" "0 \<le> num_computed_tokens r'"
    and k: "kvm_inv k" "kvm_conf k = kvm_conf (kvm s)" "has_slots k (entry_id e) (num_computed_tokens r')"
      "\<forall>x. x \<noteq> entry_id e \<longrightarrow> kvm_get_blocks k x = kvm_get_blocks (kvm s) x"
    and room: "int (length (running s)) < max_num_running_reqs (conf s)"
    and lora: "lora_ok (conf s) (table s) (running s @ [entry_id e])"
  shows "core_inv H (set_req (entry_id e) r'
    (s\<lparr>kvm := k, waiting := q, running := running s @ [entry_id e], pending_scheduled := p\<rparr>))"
proof -
  note P = core_parts [OF core]
  let ?rid = "entry_id e" and ?R = "(table s)(entry_id e \<mapsto> r')" and ?run = "running s @ [entry_id e]"
  have wf: "queue_wf (waiting s)" using P(5) by (simp add: place_ok_def)
  from rq.pop_first [OF wf q] pop have q': "queue_wf q" "queue_list q = es" by auto
  have e: "e \<in> set (queue_list (waiting s) @ queue_list (skipped_waiting s))" using q by simp
  obtain "?rid \<notin> set (running s)" using core_waiting [OF core e] by metis
  note nrun = this
  have d: "distinct (running s @ queue_ids (waiting s) @ queue_ids (skipped_waiting s))"
    "set (running s @ queue_ids (waiting s) @ queue_ids (skipped_waiting s)) = dom (table s)"
    using P(5) by (simp_all add: place_ok_def)
  have place: "place_ok (sched_policy (conf s)) ?R ?run q (skipped_waiting s)"
  proof -
    have all: "mset (?run @ queue_ids q @ queue_ids (skipped_waiting s)) =
        mset (running s @ queue_ids (waiting s) @ queue_ids (skipped_waiting s))"
      using q q'(2) by simp
    have "dom ?R = dom (table s)" using r(1) by auto
    then have dom: "set (?run @ queue_ids q @ queue_ids (skipped_waiting s)) = dom ?R"
      using d(2) mset_eq_setD [OF all] by simp
    have "\<forall>x\<in>set (queue_list (waiting s) @ queue_list (skipped_waiting s)). \<exists>y. ?R (entry_id x) = Some y \<and> x = sort_key y"
      using place_ok_upd [OF P(5) r(1,2)] unfolding place_ok_def by blast
    moreover have "set (queue_list q @ queue_list (skipped_waiting s)) \<subseteq>
        set (queue_list (waiting s) @ queue_list (skipped_waiting s))" using q q'(2) by auto
    ultimately have "\<forall>x\<in>set (queue_list q @ queue_list (skipped_waiting s)). \<exists>y. ?R (entry_id x) = Some y \<and> x = sort_key y"
      by blast
    then show ?thesis
      using P(5) mset_eq_imp_distinct_iff [OF all] d(1) dom q'(1) pop_policy [OF pop] unfolding place_ok_def
      by (simp del: fun_upd_apply)
  qed
  have "run_ok k (table s) (running s)" by (rule run_ok_cong [OF P(6) k(2)]) (use k(4) nrun in metis)
  then have "run_ok k ?R (running s)" by (rule run_ok_upd_other [OF _ nrun])
  then have run: "run_ok k ?R ?run" using r(3) k(3) by (simp add: run_ok_def)
  have idle: "idle_ok k ?run"
    unfolding idle_ok_def
  proof (intro allI impI)
    fix x assume "x \<notin> set ?run"
    then show "holds_none k x" using P(7) k(2,4) blocks_cong(1) [of k x "kvm s"] by (auto simp: idle_ok_def)
  qed
  have "wait_ok (table s) (queue_ids q @ queue_ids (skipped_waiting s))" using P(8) q q'(2) by (simp add: wait_ok_def)
  moreover have "?rid \<notin> set (queue_ids q @ queue_ids (skipped_waiting s))" using d(1) q q'(2) by auto
  ultimately have wait: "wait_ok ?R (queue_ids q @ queue_ids (skipped_waiting s))" by (rule wait_ok_upd_other)
  have "lora_ok (conf s) ?R ?run" unfolding lora_ok_upd [of "table s" ?rid r r', OF r(1,2)] by (rule lora)
  moreover have "kvm_max_model_len k = max_model_len (conf s)" using k(2) P(3) by (simp add: kvm_conf_eq)
  ultimately show ?thesis
    using P(1,12) k(1,2) table_ok_upd [OF P(4) r(1,2,4)] place run idle wait enc_ok_upd [OF P(9) r(1,2)] room
    unfolding core_inv_def by simp
qed

lemma books_admit:
  assumes b: "books st" and pre: "preempted_reqs st = []" and rid: "rid \<notin> set (running (sched st))"
    and r: "table (sched st) rid = Some r" "same_request r r'" "num_computed_tokens r' < num_tokens r'"
    and k: "kvm_conf k = kvm_conf (kvm (sched st))" "has_slots k rid (num_computed_tokens r' + n)"
      "\<forall>x. x \<noteq> rid \<longrightarrow> kvm_get_blocks k x = kvm_get_blocks (kvm (sched st)) x"
    and n: "1 \<le> n" "n \<le> token_budget st" "num_computed_tokens r' + n \<le> num_tokens r'" "num_tokens r' \<le> max_model_len (conf (sched st))"
    and s': "running s' = running (sched st) @ [rid]" "table s' = (table (sched st))(rid \<mapsto> r')" "kvm s' = k"
      "conf s' = conf (sched st)"
    and st': "sched st' = s'" "num_scheduled_tokens st' = AList.update rid n (num_scheduled_tokens st)"
      "token_budget st' = token_budget st - n" "scheduled_running_reqs st' = scheduled_running_reqs st"
      "set (scheduled_new_reqs st' @ scheduled_resumed_reqs st') =
        insert rid (set (scheduled_new_reqs st @ scheduled_resumed_reqs st))"
      "preempted_reqs st' = preempted_reqs st" "scheduled_encoder_inputs st' = scheduled_encoder_inputs st"
      "scheduled_spec_decode_tokens st' = scheduled_spec_decode_tokens st"
  shows "books st'"
proof -
  let ?s = "sched st"
  have keys: "set (map fst (num_scheduled_tokens st)) \<subseteq> set (running ?s)"
    "set (map fst (num_scheduled_tokens st)) =
      set (scheduled_running_reqs st @ scheduled_new_reqs st @ scheduled_resumed_reqs st)"
    using b unfolding books_def by blast+
  then have fresh: "rid \<notin> set (map fst (num_scheduled_tokens st))" using rid by blast
  note N = update_new [OF fresh, of n]
  have none: "map_of (scheduled_spec_decode_tokens st) rid = None"
  proof -
    have "rid \<notin> set (scheduled_running_reqs st)" using keys rid by auto
    moreover have "dom (map_of (scheduled_spec_decode_tokens st)) \<subseteq> set (scheduled_running_reqs st)"
      using b pre unfolding books_def by simp
    ultimately show ?thesis by blast
  qed
  have gr: "granted s' (scheduled_spec_decode_tokens st) x m" if "(x, m) \<in> set (num_scheduled_tokens st')" for x m
  proof (cases "x = rid")
    case True
    then have "m = n" using that N st'(2) fresh by (auto simp: image_iff)
    then show ?thesis using True none k(2) n(1,3,4) s' by (simp add: granted_def)
  next
    case False
    then have "(x, m) \<in> set (num_scheduled_tokens st)" using that N st'(2) by auto
    then have "granted ?s (scheduled_spec_decode_tokens st) x m" using b unfolding books_def by blast
    then show ?thesis using False k(1,3) s' by (elim granted_cong) simp_all
  qed
  have "\<forall>(x, m)\<in>set (num_scheduled_tokens st'). granted (sched st') (scheduled_spec_decode_tokens st') x m"
    unfolding st'(1,8) using gr by blast
  moreover have "inputs_ok (sched st') (scheduled_encoder_inputs st')"
  proof (rule inputs_ok_upd [OF _ r(1,2)])
    show "inputs_ok ?s (scheduled_encoder_inputs st')" unfolding st'(7) using b unfolding books_def by blast
  qed (simp add: st'(1) s'(2))
  moreover have "\<forall>x\<in>set (running (sched st')). behind (sched st') x"
  proof -
    have "\<forall>x\<in>set (running ?s). behind ?s x" using b unfolding books_def by blast
    then show ?thesis unfolding st'(1) s'(1) using s'(2) r(3) by (simp add: behind_def)
  qed
  moreover have "distinct (map fst (num_scheduled_tokens st'))"
    "set (map fst (num_scheduled_tokens st')) = insert rid (set (map fst (num_scheduled_tokens st)))"
  proof -
    have "distinct (map fst (num_scheduled_tokens st))" using b unfolding books_def by blast
    then show "distinct (map fst (num_scheduled_tokens st'))"
      "set (map fst (num_scheduled_tokens st')) = insert rid (set (map fst (num_scheduled_tokens st)))"
      unfolding st'(2) N using fresh by simp_all
  qed
  moreover have "token_budget st' + total_scheduled st' = max_num_scheduled_tokens (conf ?s)" "0 \<le> token_budget st'"
  proof -
    have "token_budget st + total_scheduled st = max_num_scheduled_tokens (conf ?s)" using b unfolding books_def by blast
    then show "token_budget st' + total_scheduled st' = max_num_scheduled_tokens (conf ?s)" "0 \<le> token_budget st'"
      unfolding st'(3) total_scheduled_def st'(2) N using n(2) by simp_all
  qed
  moreover have "dom (map_of (scheduled_spec_decode_tokens st)) \<subseteq> set (scheduled_running_reqs st) \<union> set (preempted_reqs st)"
    using b unfolding books_def by blast
  moreover have "set (map fst (num_scheduled_tokens st')) =
      set (scheduled_running_reqs st' @ scheduled_new_reqs st' @ scheduled_resumed_reqs st')"
  proof -
    have "set (map fst (num_scheduled_tokens st')) = insert rid (set (map fst (num_scheduled_tokens st)))" by fact
    also have "\<dots> = insert rid (set (scheduled_running_reqs st @ scheduled_new_reqs st @ scheduled_resumed_reqs st))"
      unfolding keys(2) ..
    also have "\<dots> = set (scheduled_running_reqs st') \<union> insert rid (set (scheduled_new_reqs st @ scheduled_resumed_reqs st))"
      unfolding st'(4) by simp
    also have "\<dots> = set (scheduled_running_reqs st' @ scheduled_new_reqs st' @ scheduled_resumed_reqs st')"
      unfolding st'(5) [symmetric] by simp
    finally show ?thesis .
  qed
  moreover have "set (map fst (num_scheduled_tokens st')) \<subseteq> set (running (sched st'))"
    unfolding \<open>set (map fst (num_scheduled_tokens st')) = insert rid _\<close> st'(1) s'(1) using keys(1) by auto
  moreover have "conf (sched st') = conf ?s" "preempted_reqs st' = []" using st'(1,6) s'(4) pre by simp_all
  ultimately show ?thesis unfolding books_def st'(4,8) pre by simp
qed

section \<open>Admission\<close>

text \<open>The books while requests are admitted: nothing was preempted, and the adapters are counted.\<close>

definition phase3 :: "step \<Rightarrow> bool" where
  "phase3 st \<longleftrightarrow> books st \<and> preempted_reqs st = [] \<and>
     (max_loras (conf (sched st)) \<noteq> None \<longrightarrow>
        distinct (scheduled_loras st) \<and> set (scheduled_loras st) = loras (table (sched st)) (running (sched st)))"

lemma loras_cong:
  assumes "\<forall>x\<in>set run. R' x = R x"
  shows "loras R' run = loras R run"
  using assms by (simp add: loras_def)

text \<open>A change that leaves the running requests alone.\<close>

definition idle_change :: "scheduler \<Rightarrow> scheduler \<Rightarrow> bool" where
  "idle_change s s' \<longleftrightarrow> running s' = running s \<and> conf s' = conf s \<and> kvm_conf (kvm s') = kvm_conf (kvm s) \<and>
     (\<forall>x\<in>set (running s). table s' x = table s x \<and> kvm_get_blocks (kvm s') x = kvm_get_blocks (kvm s) x) \<and>
     (\<forall>x r. table s x = Some r \<longrightarrow> (\<exists>r'. table s' x = Some r' \<and> mm_features r' = mm_features r))"

lemma idle_change_refl [simp]: "idle_change s s"
  by (simp add: idle_change_def)

lemma phase3_idle:
  assumes p: "phase3 st" and ch: "idle_change (sched st) s'"
  shows "phase3 (st\<lparr>sched := s'\<rparr>)" and "phase3 (st\<lparr>sched := s', encoder_budget := eb\<rparr>)"
proof -
  let ?s = "sched st" and ?st = "st\<lparr>sched := s'\<rparr>"
  have b: "books st" and pre: "preempted_reqs st = []" using p by (simp_all add: phase3_def)
  have same: "running s' = running ?s" "conf s' = conf ?s" "kvm_conf (kvm s') = kvm_conf (kvm ?s)"
    and run: "\<And>x. x \<in> set (running ?s) \<Longrightarrow> table s' x = table ?s x"
      "\<And>x. x \<in> set (running ?s) \<Longrightarrow> kvm_get_blocks (kvm s') x = kvm_get_blocks (kvm ?s) x"
    and keep: "\<And>x r. table ?s x = Some r \<Longrightarrow> \<exists>r'. table s' x = Some r' \<and> mm_features r' = mm_features r"
    using ch unfolding idle_change_def by blast+
  have keys: "set (map fst (num_scheduled_tokens st)) \<subseteq> set (running ?s)" using b unfolding books_def by blast
  have gr: "granted s' (scheduled_spec_decode_tokens st) x n" if xn: "(x, n) \<in> set (num_scheduled_tokens st)" for x n
  proof (rule granted_cong)
    have "x \<in> fst ` set (num_scheduled_tokens st)" using xn by (rule rev_image_eqI) simp
    then have x: "x \<in> set (running ?s)" using keys by auto
    show "granted ?s (scheduled_spec_decode_tokens st) x n" using b xn unfolding books_def by blast
    show "table s' x = table ?s x" "kvm_get_blocks (kvm s') x = kvm_get_blocks (kvm ?s) x" by (rule run [OF x])+
  qed (simp_all add: same)
  have inp: "inputs_ok s' (scheduled_encoder_inputs st)"
  proof -
    have "inputs_ok ?s (scheduled_encoder_inputs st)" using b unfolding books_def by blast
    then show ?thesis unfolding inputs_ok_def using keep by metis
  qed
  have beh: "behind s' x" if x: "x \<in> set (running ?s)" for x
  proof (rule behind_cong)
    show "behind ?s x" using b x unfolding books_def by blast
  qed (rule run(1) [OF x])
  have st: "sched ?st = s'" "running s' = running ?s" "conf s' = conf ?s" "total_scheduled ?st = total_scheduled st"
    "num_scheduled_tokens ?st = num_scheduled_tokens st" "scheduled_running_reqs ?st = scheduled_running_reqs st"
    "scheduled_new_reqs ?st = scheduled_new_reqs st" "scheduled_resumed_reqs ?st = scheduled_resumed_reqs st"
    "token_budget ?st = token_budget st" "preempted_reqs ?st = []"
    "scheduled_spec_decode_tokens ?st = scheduled_spec_decode_tokens st"
    "scheduled_encoder_inputs ?st = scheduled_encoder_inputs st"
    by (simp_all add: same pre total_scheduled_def)
  have "books ?st"
    unfolding books_def st
  proof (intro conjI)
    show "\<forall>(x, n)\<in>set (num_scheduled_tokens st). granted s' (scheduled_spec_decode_tokens st) x n" using gr by blast
    show "\<forall>x\<in>set (running ?s). behind s' x" using beh by blast
    show "dom (map_of (scheduled_spec_decode_tokens st)) \<subseteq> set (scheduled_running_reqs st) \<union> set []"
      using b pre unfolding books_def by metis
  qed (use b inp in \<open>(unfold books_def, blast)+\<close>, simp)
  moreover have "loras (table s') (running s') = loras (table ?s) (running ?s)"
    unfolding same(1) by (rule loras_cong) (use run(1) in blast)
  ultimately show one: "phase3 ?st" using p same(2) by (simp add: phase3_def)
  show "phase3 (st\<lparr>sched := s', encoder_budget := eb\<rparr>)"
    using one books_same [of "st\<lparr>sched := s', encoder_budget := eb\<rparr>" ?st] by (simp add: phase3_def)
qed

lemma resident_loras_facts:
  assumes "core_inv H s"
  shows "distinct (resident_loras s)" and "set (resident_loras s) = loras (table s) (running s)"
proof -
  show "distinct (resident_loras s)" by (simp add: resident_loras_def)
  have "set (case lora_req (req s x) of None \<Rightarrow> [] | Some l \<Rightarrow> [lora_int_id l]) = lora_of (table s x)"
    if x: "x \<in> set (running s)" for x
  proof -
    obtain r where "table s x = Some r" "req s x = r" using core_running [OF assms x] by metis
    then show ?thesis by (simp add: lora_of_def split: option.split)
  qed
  then show "set (resident_loras s) = loras (table s) (running s)"
    by (simp add: resident_loras_def loras_def)
qed

lemma collect_loras_ok:
  assumes core: "core_inv H (sched st)" and b: "books st"
  shows "\<exists>ls. collect_loras st = Inr (st\<lparr>scheduled_loras := ls\<rparr>) \<and> books (st\<lparr>scheduled_loras := ls\<rparr>) \<and>
    (preempted_reqs st = [] \<longrightarrow> phase3 (st\<lparr>scheduled_loras := ls\<rparr>))"
proof -
  let ?s = "sched st"
  have same: "books (st\<lparr>scheduled_loras := ls\<rparr>)" for ls using b books_same [of "st\<lparr>scheduled_loras := ls\<rparr>" st] by simp
  note F = resident_loras_facts [OF core]
  show ?thesis
  proof (cases "max_loras (conf ?s)")
    case None
    then show ?thesis using same by (auto simp: collect_loras_def phase3_def)
  next
    case (Some m)
    have "int (length (resident_loras ?s)) \<le> m"
      using core_parts(10) [OF core] Some F distinct_card [OF F(1)] by (simp add: lora_ok_def)
    then show ?thesis using Some same F by (auto simp: collect_loras_def phase3_def Let_def)
  qed
qed

text \<open>An adapter that is not blocked fits.\<close>

lemma lora_fits:
  assumes r: "R rid = Some r" and base: "lora_ok cf R run"
    and ls: "max_loras cf \<noteq> None \<Longrightarrow> distinct ls \<and> set ls = loras R run"
    and nb: "\<And>m l. max_loras cf = Some m \<Longrightarrow> lora_req r = Some l \<Longrightarrow> \<not> (m \<le> int (length ls) \<and> lora_int_id l \<notin> set ls)"
  shows "lora_ok cf R (run @ [rid])"
proof (cases "max_loras cf")
  case (Some m)
  have ls': "distinct ls" "set ls = loras R run" using ls Some by simp_all
  have ext: "loras R (run @ [rid]) = lora_of (Some r) \<union> loras R run" using r by (auto simp: loras_def)
  have le: "int (card (loras R run)) \<le> m" using base Some by (simp add: lora_ok_def)
  have "int (card (lora_of (Some r) \<union> loras R run)) \<le> m"
  proof (cases "lora_req r")
    case None
    then show ?thesis using le by (simp add: lora_of_def)
  next
    case l: (Some l)
    then have *: "lora_of (Some r) \<union> loras R run = insert (lora_int_id l) (loras R run)" by (simp add: lora_of_def)
    show ?thesis
    proof (cases "lora_int_id l \<in> loras R run")
      case True
      then show ?thesis unfolding * using le by (simp add: insert_absorb)
    next
      case False
      have "length ls = card (loras R run)" using distinct_card [OF ls'(1)] ls'(2) by simp
      then have "int (card (loras R run)) < m" using nb [OF Some l] False ls'(2) by simp
      then show ?thesis unfolding * using False by simp
    qed
  qed
  then show ?thesis using Some ext by (simp add: lora_ok_def)
qed (simp add: lora_ok_def)

lemma idle_change_encoder [simp]: "idle_change s (s\<lparr>encoder := c\<rparr>)"
  by (simp add: idle_change_def)

lemma idle_change_trans:
  assumes "idle_change a b" "idle_change b c"
  shows "idle_change a c"
proof -
  have "\<exists>r'. table c x = Some r' \<and> mm_features r' = mm_features r" if "table a x = Some r" for x r
  proof -
    from that assms(1) obtain y where y: "table b x = Some y" "mm_features y = mm_features r"
      unfolding idle_change_def by blast
    with assms(2) obtain z where "table c x = Some z" "mm_features z = mm_features y" unfolding idle_change_def by blast
    with y(2) show ?thesis by simp
  qed
  moreover have "running b = running a" "conf b = conf a" "kvm_conf (kvm b) = kvm_conf (kvm a)"
    "\<And>x. x \<in> set (running a) \<Longrightarrow> table b x = table a x \<and> kvm_get_blocks (kvm b) x = kvm_get_blocks (kvm a) x"
    using assms(1) unfolding idle_change_def by blast+
  moreover have "running c = running b" "conf c = conf b" "kvm_conf (kvm c) = kvm_conf (kvm b)"
    "\<And>x. x \<in> set (running b) \<Longrightarrow> table c x = table b x \<and> kvm_get_blocks (kvm c) x = kvm_get_blocks (kvm b) x"
    using assms(2) unfolding idle_change_def by blast+
  ultimately show ?thesis unfolding idle_change_def by metis
qed

lemma idle_change_kvm:
  assumes "kvm_conf k = kvm_conf (kvm s)" "rid \<notin> set (running s)"
    "\<forall>x. x \<noteq> rid \<longrightarrow> kvm_get_blocks k x = kvm_get_blocks (kvm s) x"
  shows "idle_change s (s\<lparr>kvm := k\<rparr>)"
proof -
  have "kvm_get_blocks k x = kvm_get_blocks (kvm s) x" if "x \<in> set (running s)" for x
    using that assms(2,3) by metis
  then show ?thesis using assms(1) by (simp add: idle_change_def)
qed

lemma idle_change_queues [simp]: "idle_change s (s\<lparr>waiting := q, skipped_waiting := q'\<rparr>)"
  by (simp add: idle_change_def)

lemma idle_change_set_req:
  assumes "rid \<notin> set (running s)" "table s rid = Some r" "mm_features r' = mm_features r"
  shows "idle_change s (set_req rid r' s)"
  using assms by (auto simp: idle_change_def)

text \<open>\<open>pop\<close>, the move to the running list, and the entry in the step.\<close>

lemma admit_ok:
  assumes core: "core_inv H s" and q: "queue_list (waiting s) = e # es"
    and r: "table s (entry_id e) = Some r" and stat: "status r = WAITING \<or> status r = PREEMPTED"
    and k: "kvm_inv k" "kvm_conf k = kvm_conf (kvm s)" "has_slots k (entry_id e) (hit + n)"
      "\<forall>x. x \<noteq> entry_id e \<longrightarrow> kvm_get_blocks k x = kvm_get_blocks (kvm s) x"
    and room: "int (length (running s)) < max_num_running_reqs (conf s)"
    and n: "1 \<le> n" "n \<le> token_budget st" "hit + n \<le> num_tokens r" "0 \<le> hit"
    and p: "phase3 st" and st: "sched st = s\<lparr>kvm := k\<rparr>" and nb: "\<not> lora_blocked st r"
  shows "\<exists>st'. admit hit 0 n st = Inr st' \<and> core_inv H (sched st') \<and> phase3 st' \<and> conf (sched st') = conf s"
proof -
  let ?rid = "entry_id e" and ?sk = "s\<lparr>kvm := k\<rparr>"
  have e: "e \<in> set (queue_list (waiting s) @ queue_list (skipped_waiting s))" using q by simp
  note nrun = core_waitingD(5) [OF core e r] and ok = core_waitingD(8) [OF core e r]
  have wf: "queue_wf (waiting s)" using core_parts(5) [OF core] by (simp add: place_ok_def)
  from rq.pop_first [OF wf q] obtain q' where pop: "pop_request (waiting s) = Inr (e, q')" by blast
  define r' where "r' = r\<lparr>status := RUNNING, num_computed_tokens := hit, num_cached_tokens := hit\<rparr>"
  have r': "same_request r r'" "status r' = RUNNING" "num_computed_tokens r' = hit" "num_tokens r' = num_tokens r"
    "lora_req r' = lora_req r"
    by (simp_all add: r'_def same_request_def num_tokens_def)
  let ?s1 = "?sk\<lparr>waiting := q', running := running s @ [?rid], pending_scheduled := pending_scheduled s @ [?rid]\<rparr>"
  let ?s2 = "set_req ?rid r' ?s1"
  define st' where "st' = st\<lparr>sched := ?s2,
      scheduled_new_reqs := scheduled_new_reqs st @ (if status r = WAITING then [?rid] else []),
      scheduled_resumed_reqs := scheduled_resumed_reqs st @ (if status r = PREEMPTED then [?rid] else []),
      scheduled_loras := (case lora_req r of None \<Rightarrow> scheduled_loras st
                          | Some l \<Rightarrow> add_to (lora_int_id l) (scheduled_loras st)),
      req_to_new_blocks := AList.update ?rid (kvm_get_blocks k ?rid) (req_to_new_blocks st),
      num_scheduled_tokens := AList.update ?rid n (num_scheduled_tokens st),
      token_budget := token_budget st - n\<rparr>"
  have req1: "req ?s1 ?rid = r" using req_table [OF r] by (simp add: req_def)
  have "connector s = None" by (rule core_parts(1) [OF core])
  then have run: "admit hit 0 n st = Inr st'"
    using pop stat req1 unfolding admit_def st Let_def st'_def r'_def by auto
  have slots: "has_slots k ?rid hit" by (rule has_slots_mono [OF k(3)]) (use n in simp)
  have "lora_ok (conf s) (table s) (running s @ [?rid])"
  proof (rule lora_fits [of "table s" "?rid" r, OF r core_parts(10) [OF core]])
    show "distinct (scheduled_loras st) \<and> set (scheduled_loras st) = loras (table s) (running s)"
      if "max_loras (conf s) \<noteq> None" using p that by (simp add: phase3_def st)
    show "\<not> (m \<le> int (length (scheduled_loras st)) \<and> lora_int_id l \<notin> set (scheduled_loras st))"
      if "max_loras (conf s) = Some m" "lora_req r = Some l" for m l
      using nb that by (simp add: lora_blocked_def st)
  qed
  then have core': "core_inv H (sched st')"
    using core_admit [OF core q pop r r'(1,2) _ k(1,2) _ k(4) room, of "pending_scheduled s @ [?rid]"] slots n(4) r'(3)
    by (simp add: st'_def)
  have f: "sched st' = ?s2" "running ?s2 = running s @ [?rid]" "table ?s2 = (table s)(?rid \<mapsto> r')" "conf ?s2 = conf s"
    "scheduled_loras st' = (case lora_req r of None \<Rightarrow> scheduled_loras st | Some l \<Rightarrow> add_to (lora_int_id l) (scheduled_loras st))"
    "preempted_reqs st' = preempted_reqs st"
    by (simp_all add: st'_def)
  have b: "books st" and pre: "preempted_reqs st = []" using p by (simp_all add: phase3_def)
  have "books st'"
  proof (rule books_admit [OF b pre, of ?rid r r' k n ?s2])
    show "set (scheduled_new_reqs st' @ scheduled_resumed_reqs st') =
        insert ?rid (set (scheduled_new_reqs st @ scheduled_resumed_reqs st))"
      using stat by (auto simp: st'_def)
    show "num_tokens r' \<le> max_model_len (conf (sched st))" using ok r'(4) by (simp add: request_ok_def st)
    show "num_computed_tokens r' < num_tokens r'" "num_computed_tokens r' + n \<le> num_tokens r'"
      "has_slots k ?rid (num_computed_tokens r' + n)"
      using n r'(3,4) k(3) by simp_all
    show "1 \<le> n" "n \<le> token_budget st" by (rule n)+
    show "table (sched st) ?rid = Some r" "?rid \<notin> set (running (sched st))" using r nrun by (simp_all add: st)
    show "same_request r r'" by (rule r')
  qed (simp_all add: st st'_def)
  moreover have "distinct (scheduled_loras st') \<and> set (scheduled_loras st') = loras (table (sched st')) (running (sched st'))"
    if m: "max_loras (conf (sched st')) \<noteq> None"
  proof -
    have ls: "distinct (scheduled_loras st)" "set (scheduled_loras st) = loras (table s) (running s)"
      using p m by (simp_all add: phase3_def st f)
    have "loras ((table s)(?rid \<mapsto> r')) (running s) = loras (table s) (running s)"
      by (rule loras_upd [of "table s" "?rid" r r', OF r r'(1)])
    then have upd: "loras ((table s)(?rid \<mapsto> r')) (running s @ [?rid]) = lora_of (Some r') \<union> loras (table s) (running s)"
      unfolding loras_def by auto
    show ?thesis unfolding f upd using ls r'(5)
      by (cases "lora_req r") (auto simp: lora_of_def add_to_def)
  qed
  ultimately have "phase3 st'" using pre by (simp add: phase3_def f(6))
  then show ?thesis using run core' f(1,4) by auto
qed

lemma lora_blocked_cong:
  "conf (sched st') = conf (sched st) \<Longrightarrow> scheduled_loras st' = scheduled_loras st \<Longrightarrow> lora_req r' = lora_req r \<Longrightarrow>
   lora_blocked st' r' = lora_blocked st r"
  unfolding lora_blocked_def by (simp cong: option.case_cong)

lemma admission_allocate_ok:
  fixes bss :: "bref list list"
  assumes core: "core_inv H (sched st)" and p: "phase3 st" and q: "queue_list (waiting (sched st)) = e # es"
    and r: "table (sched st) (entry_id e) = Some r" and stat: "status r = WAITING \<or> status r = PREEMPTED"
    and room: "int (length (running (sched st))) < max_num_running_reqs (conf (sched st))"
    and nb: "\<not> lora_blocked st r"
    and hit: "per_group_cached (Some bss) (kvm (sched st)) = bss" "adoptable (kvm (sched st)) (entry_id e) hit bss" "0 \<le> hit"
    and n: "1 \<le> n" "n \<le> token_budget st" "hit + n \<le> num_tokens r"
  shows "\<exists>go st'. admission_allocate e bss hit 0 n st = Inr (go, st') \<and> core_inv H (sched st') \<and> phase3 st' \<and>
    conf (sched st') = conf (sched st)"
proof -
  let ?s = "sched st" and ?rid = "entry_id e"
  have e: "e \<in> set (queue_list (waiting ?s) @ queue_list (skipped_waiting ?s))" using q by simp
  note W = core_waitingD [OF core e r]
  have fit: "features_fit (max_num_encoder_input_tokens (conf ?s)) (cache_size (encoder ?s)) r"
    and len: "num_tokens r \<le> max_model_len (conf ?s)"
    using W(8) by (simp_all add: request_ok_def features_fit_def)
  have enc: "enc_inv (encoder ?s)" using core_parts(9) [OF core] by (simp add: enc_ok_def)
  from schedule_encoder_ok [OF enc fit, of n "encoder_budget st"] n(1) obtain n' ids eb c where
    E: "schedule_encoder r n (encoder_budget st) ?s = Inr (n', ids, eb, ?s\<lparr>encoder := c\<rparr>)" "n' \<le> n"
    "enc_step r (encoder ?s) c" "\<forall>i\<in>set ids. i < length (mm_features r)" by auto
  let ?s1 = "?s\<lparr>encoder := c\<rparr>"
  let ?st1 = "st\<lparr>sched := ?s1, encoder_budget := eb\<rparr>"
  have core1: "core_inv H ?s1" by (rule core_encoder [OF core E(3), of r]) (simp_all add: W(2) r)
  have p1: "phase3 ?st1" by (rule phase3_idle(2) [OF p]) simp
  have q1: "queue_list (waiting ?s1) = e # es" using q by simp
  have r1: "table ?s1 ?rid = Some r" using r by simp
  show ?thesis
  proof (cases "n' \<le> 0")
    case True
    from set_aside_ok [OF core1 q1] obtain q' where
      A: "set_aside e ?s1 = Inr (?s1\<lparr>waiting := q', skipped_waiting := add_request e (skipped_waiting ?s1)\<rparr>)"
      "core_inv H (?s1\<lparr>waiting := q', skipped_waiting := add_request e (skipped_waiting ?s1)\<rparr>)" by blast
    let ?s2 = "?s1\<lparr>waiting := q', skipped_waiting := add_request e (skipped_waiting ?s1)\<rparr>"
    from free_holds [OF core_parts(2) [OF A(2)], of r] W(2) obtain k where
      K: "kvm_free r (kvm ?s2) = Inr k" "kvm_inv k" "kvm_conf k = kvm_conf (kvm ?s2)" "holds_none k ?rid"
      "\<forall>x. x \<noteq> ?rid \<longrightarrow> kvm_get_blocks k x = kvm_get_blocks (kvm ?s2) x" by auto
    have core3: "core_inv H (?s2\<lparr>kvm := k\<rparr>)" by (rule core_kvm_idle [OF A(2) _ K(2-5)]) (use W(5) in simp)
    have "idle_change ?s ?s2" by (simp add: idle_change_def)
    moreover have "idle_change ?s2 (?s2\<lparr>kvm := k\<rparr>)" by (rule idle_change_kvm [OF K(3) _ K(5)]) (use W(5) in simp)
    ultimately have "phase3 (st\<lparr>sched := ?s2\<lparr>kvm := k\<rparr>, encoder_budget := eb\<rparr>)"
      by (intro phase3_idle(2) [OF p]) (rule idle_change_trans)
    moreover have "admission_allocate e bss hit 0 n st = Inr (True, st\<lparr>sched := ?s2\<lparr>kvm := k\<rparr>, encoder_budget := eb\<rparr>)"
      using E(1) A(1) K(1) True W(1) by (simp add: admission_allocate_def Let_def)
    ultimately show ?thesis using core3
      by (intro exI [of _ True] exI [of _ "st\<lparr>sched := ?s2\<lparr>kvm := k\<rparr>, encoder_budget := eb\<rparr>"]) simp
  next
    case False
    have ad: "adoptable (kvm ?s) (request_id r) (num_computed_tokens r + hit) (per_group_cached (Some bss) (kvm ?s))"
      unfolding W(2,3) hit(1) using hit(2) by simp
    have "n' \<noteq> 0" using False by simp
    from allocate_adopting [OF core_parts(2) [OF core] this ad, of False] obtain res k where
      K: "allocate_slots r n' hit (Some bss) 0 False (kvm ?s) = Inr (res, k)" "kvm_inv k" "kvm_conf k = kvm_conf (kvm ?s)"
      "\<forall>x. x \<noteq> ?rid \<longrightarrow> kvm_get_blocks k x = kvm_get_blocks (kvm ?s) x" "res = None \<longrightarrow> k = kvm ?s"
      "\<forall>news. res = Some news \<longrightarrow> has_slots k ?rid (min (hit + n') (kvm_max_model_len (kvm ?s)))"
      unfolding W(2,3) add_0 by blast
    let ?st2 = "st\<lparr>sched := ?s1\<lparr>kvm := k\<rparr>, encoder_budget := eb\<rparr>"
    have swap: "?st2 = st\<lparr>encoder_budget := eb, sched := ?s1\<lparr>kvm := k\<rparr>\<rparr>" by simp
    have k1: "kvm_conf k = kvm_conf (kvm ?s1)" "\<forall>x. x \<noteq> ?rid \<longrightarrow> kvm_get_blocks k x = kvm_get_blocks (kvm ?s1) x"
      and nrun1: "?rid \<notin> set (running ?s1)" using K(3,4) W(5) by simp_all
    have "idle_change ?s1 (?s1\<lparr>kvm := k\<rparr>)" by (rule idle_change_kvm [OF k1(1) nrun1 k1(2)])
    then have "idle_change ?s (?s1\<lparr>kvm := k\<rparr>)" by (rule idle_change_trans [OF idle_change_encoder])
    then have p2: "phase3 ?st2" by (rule phase3_idle(2) [OF p])
    show ?thesis
    proof (cases res)
      case None
      then have k: "k = kvm ?s" using K(5) by simp
      have s2: "?s1\<lparr>kvm := k\<rparr> = ?s1" unfolding k by simp
      have b2: "books ?st2" using p2 by (simp add: phase3_def)
      have core2: "core_inv H (sched ?st2)" using core1 s2 by simp
      have t2: "table (sched ?st2) ?rid = Some r" using r by simp
      from release_ok [OF core2 b2 t2 E(4)] obtain st3 c3 m where
        R: "release_encoder_reservation ?rid ids ?st2 = Inr st3" "core_inv H (sched st3)" "books st3"
        "st3 = ?st2\<lparr>scheduled_encoder_inputs := AList.delete ?rid (scheduled_encoder_inputs ?st2),
             encoder_budget := encoder_budget ?st2 + m, sched := (sched ?st2)\<lparr>encoder := c3\<rparr>\<rparr>"
        by blast
      have "phase3 st3" using R(3) p2 by (simp add: phase3_def R(4))
      moreover have "admission_allocate e bss hit 0 n st = Inr (False, st3)"
        using E(1) K(1) R(1) [unfolded swap] False None W(1) by (simp add: admission_allocate_def Let_def)
      moreover have "conf (sched st3) = conf ?s" by (simp add: R(4))
      ultimately show ?thesis using R(2) by blast
    next
      case (Some news)
      define st3 where "st3 = (if ids = [] then ?st2
        else ?st2\<lparr>scheduled_encoder_inputs := AList.update ?rid ids (scheduled_encoder_inputs st)\<rparr>)"
      have f3: "sched st3 = ?s1\<lparr>kvm := k\<rparr>" "token_budget st3 = token_budget st"
        "scheduled_loras st3 = scheduled_loras ?st2" "preempted_reqs st3 = preempted_reqs ?st2"
        by (simp_all add: st3_def)
      have "books st3"
      proof (cases "ids = []")
        case False
        have t2: "table (sched ?st2) ?rid = Some r" using r by simp
        have "books ?st2" using p2 by (simp add: phase3_def)
        from books_inputs [OF this t2 E(4)] show ?thesis using False by (simp add: st3_def)
      qed (use p2 in \<open>simp add: phase3_def st3_def\<close>)
      then have p3: "phase3 st3" using p2 f3 by (simp add: phase3_def)
      have slots: "has_slots k ?rid (hit + n')"
        using K(6) Some core_parts(3) [OF core] E(2) n(3) len by (simp add: min_def split: if_splits)
      have room1: "int (length (running ?s1)) < max_num_running_reqs (conf ?s1)" using room by simp
      have "scheduled_loras st3 = scheduled_loras st" by (simp add: st3_def)
      then have nb3: "\<not> lora_blocked st3 r" using nb lora_blocked_cong [of st3 st r r] f3(1) by simp
      have n3: "1 \<le> n'" "n' \<le> token_budget st3" "hit + n' \<le> num_tokens r" using False E(2) n f3(2) by linarith+
      from admit_ok [OF core1 q1 r1 stat K(2) k1(1) slots k1(2) room1 n3 hit(3) p3 f3(1) nb3] obtain st' where
        D: "admit hit 0 n' st3 = Inr st'" "core_inv H (sched st')" "phase3 st'" "conf (sched st') = conf ?s1" by blast
      have "admission_allocate e bss hit 0 n st = Inr (True, st')"
        using E(1) K(1) D(1) [unfolded st3_def swap] False Some W(1)
        by (cases "ids = []") (simp_all add: admission_allocate_def Let_def)
      then show ?thesis using D(2-4) by auto
    qed
  qed
qed

text \<open>The status of a waiting request once it is ready, and what the prefix cache needs of it.\<close>

lemma admission_lookup_ok:
  assumes core: "core_inv H (sched st)" and p: "phase3 st" and q: "queue_list (waiting (sched st)) = e # es"
    and r: "table (sched st) (entry_id e) = Some r" and stat: "status r = WAITING \<or> status r = PREEMPTED"
    and room: "int (length (running (sched st))) < max_num_running_reqs (conf (sched st))"
    and nb: "\<not> lora_blocked st r"
  shows "\<exists>go st'. admission_lookup e st = Inr (go, st') \<and> core_inv H (sched st') \<and> phase3 st' \<and>
    conf (sched st') = conf (sched st)"
proof -
  let ?s = "sched st" and ?rid = "entry_id e"
  note P = core_parts [OF core]
  have e: "e \<in> set (queue_list (waiting ?s) @ queue_list (skipped_waiting ?s))" using q by simp
  note W = core_waitingD [OF core e r]
  have pos: "0 < num_tokens r" and cur: "hashes_current H r"
    and hasher: "kvm_enable_caching (kvm ?s) \<longrightarrow> block_hasher r = Some (kvm_block_size (kvm ?s), kvm_none_hash (kvm ?s))"
    using W(8) by (simp_all add: request_ok_def kvm_conf_def)
  have hs: "(num_tokens r - 1) div kvm_block_size (kvm ?s) \<le> int (length (block_hashes r))"
    if "kvm_enable_caching (kvm ?s)"
  proof -
    have B: "0 < kvm_block_size (kvm ?s)" using P(2) by (auto simp: kvm_inv_def groups_ok_def)
    have "int (length (block_hashes r)) = num_tokens r div kvm_block_size (kvm ?s)"
      using cur hasher that pos B by (simp add: hashes_current_def num_full_hashes_def pos_imp_zdiv_nonneg_iff)
    then show ?thesis using B by (simp add: zdiv_mono1)
  qed
  have fresh: "holds_none (kvm ?s) (request_id r)" using W(2,6) by simp
  from lookup_waiting [OF P(2) W(3) pos hs fresh] obtain bss hit k where
    L: "get_computed_blocks r (kvm ?s) = Inr (bss, hit, k)" "kvm_inv k" "kvm_conf k = kvm_conf (kvm ?s)"
    "\<forall>x. kvm_get_blocks k x = kvm_get_blocks (kvm ?s) x" "0 \<le> hit" "hit < num_tokens r"
    "per_group_cached (Some bss) k = bss" "adoptable k (request_id r) hit bss" by blast
  let ?s2 = "?s\<lparr>kvm := k\<rparr>" and ?st2 = "st\<lparr>sched := ?s\<lparr>kvm := k\<rparr>\<rparr>"
  have hn: "holds_none k ?rid" using fresh W(2) blocks_cong(1) [of k ?rid "kvm ?s"] L(3,4) by simp
  have core2: "core_inv H ?s2" by (rule core_kvm_idle [OF core W(5) L(2,3) hn]) (use L(4) in simp)
  have "idle_change ?s ?s2" by (rule idle_change_kvm [OF L(3) W(5)]) (use L(4) in simp)
  then have p2: "phase3 ?st2" by (rule phase3_idle(1) [OF p])
  have ext: "external_tokens r hit ?s2 = (0, ?s2)" using P(1) by (simp add: external_tokens_def)
  define n1 where "n1 = admission_share (conf ?s) r hit"
  define n where "n = min n1 (token_budget st)"
  have run: "admission_lookup e st =
      (if \<not> enable_chunked_prefill (conf ?s) \<and> token_budget st < n1 then Inr (False, ?st2)
       else if n \<le> 0 then Inr (False, ?st2)
       else admission_allocate e bss hit 0 n ?st2)"
    unfolding admission_lookup_def Let_def W(1) L(1) rbind_Inr prod.case ext n_def n1_def add_0_right ..
  show ?thesis
  proof (cases "(\<not> enable_chunked_prefill (conf ?s) \<and> token_budget st < n1) \<or> n \<le> 0")
    case True
    then have "admission_lookup e st = Inr (False, ?st2)" unfolding run by (simp only: if_P split: if_split) blast
    then show ?thesis using core2 p2 by auto
  next
    case False
    have "n1 \<le> num_tokens r - hit" by (simp add: n1_def admission_share_def Let_def)
    then have n: "1 \<le> n" "n \<le> token_budget ?st2" "hit + n \<le> num_tokens r" using False by (auto simp: n_def)
    have core2': "core_inv H (sched ?st2)" using core2 by simp
    have q2: "queue_list (waiting (sched ?st2)) = e # es" using q by simp
    have r2: "table (sched ?st2) (entry_id e) = Some r" using r by simp
    have room2: "int (length (running (sched ?st2))) < max_num_running_reqs (conf (sched ?st2))" using room by simp
    have nb2: "\<not> lora_blocked ?st2 r" using nb lora_blocked_cong [of ?st2 st r r] by simp
    have hit2: "per_group_cached (Some bss) (kvm (sched ?st2)) = bss" "adoptable (kvm (sched ?st2)) (entry_id e) hit bss"
      using L(7,8) W(2) by simp_all
    from admission_allocate_ok [OF core2' p2 q2 r2 stat room2 nb2 hit2 L(5) n] False show ?thesis
      unfolding run by auto
  qed
qed

lemma promote_ok:
  assumes core: "core_inv H s" and q: "queue_list (waiting s) = e # es"
    and r: "table s (entry_id e) = Some r" and stat: "status r = WAITING_FOR_STRUCTURED_OUTPUT_GRAMMAR"
    and go: "promote_grammar_request (entry_id e) s = (ready, s')"
  shows "core_inv H s' \<and> idle_change s s' \<and> waiting s' = waiting s \<and>
    (ready \<longrightarrow> (\<exists>r'. table s' (entry_id e) = Some r' \<and> (status r' = WAITING \<or> status r' = PREEMPTED) \<and> lora_req r' = lora_req r))"
proof -
  have e: "e \<in> set (queue_list (waiting s) @ queue_list (skipped_waiting s))" using q by simp
  note W = core_waitingD [OF core e r]
  have upd: "core_inv H (set_req (entry_id e) (r\<lparr>status := x\<rparr>) s) \<and> idle_change s (set_req (entry_id e) (r\<lparr>status := x\<rparr>) s)"
    if "x = WAITING \<or> x = PREEMPTED" for x
  proof
    show "core_inv H (set_req (entry_id e) (r\<lparr>status := x\<rparr>) s)"
      by (rule core_set_waiting [OF core W(5) r]) (use that W(3) in \<open>auto simp: waiting_status_def\<close>)
    show "idle_change s (set_req (entry_id e) (r\<lparr>status := x\<rparr>) s)"
      by (rule idle_change_set_req [OF W(5) r]) simp
  qed
  have err: "core_inv H (s\<lparr>grammar_compile_error_reqs := g\<rparr>) \<and> idle_change s (s\<lparr>grammar_compile_error_reqs := g\<rparr>)" for g
    using core by (simp add: core_inv_def idle_change_def)
  show ?thesis
  proof (cases "structured_output r")
    case None
    then show ?thesis using go W(1) upd [of WAITING] by (auto simp: promote_grammar_request_def Let_def)
  next
    case (Some g)
    show ?thesis
    proof (cases g)
      case GrammarPending
      then show ?thesis using Some go W(1) core by (auto simp: promote_grammar_request_def Let_def)
    next
      case GrammarFailed
      then show ?thesis using Some go W(1) err by (auto simp: promote_grammar_request_def Let_def)
    next
      case GrammarCompiled
      have "s' = set_req (entry_id e) (r\<lparr>status := (if num_preemptions r \<noteq> 0 then PREEMPTED else WAITING)\<rparr>) s" "ready"
        using GrammarCompiled Some go W(1) by (auto simp: promote_grammar_request_def Let_def)
      then show ?thesis using upd [of "if num_preemptions r \<noteq> 0 then PREEMPTED else WAITING"] by auto
    qed
  qed
qed

lemma admission_step_ok:
  assumes core: "core_inv H (sched st)" and p: "phase3 st" and ne: "queue_list (waiting (sched st)) \<noteq> []"
  shows "\<exists>go st'. admission_step st = Inr (go, st') \<and> core_inv H (sched st') \<and> phase3 st' \<and>
    conf (sched st') = conf (sched st)"
proof -
  let ?s = "sched st"
  note P = core_parts [OF core]
  have wf: "queue_wf (waiting ?s)" using P(5) by (simp add: place_ok_def)
  from ne obtain e es where q: "queue_list (waiting ?s) = e # es" by (cases "queue_list (waiting ?s)") auto
  have peek: "peek_request (waiting ?s) = Inr e" using rq.pop_first [OF wf q] by simp
  have e: "e \<in> set (queue_list (waiting ?s) @ queue_list (skipped_waiting ?s))" using q by simp
  obtain r where r: "table ?s (entry_id e) = Some r" using core_waiting [OF core e] by metis
  note W = core_waitingD [OF core e r]
  show ?thesis
  proof (cases "max_num_running_reqs (conf ?s) \<le> int (length (running ?s)) \<or>
      (enable_chunked_prefill (conf ?s) \<and> max_num_partial_prefills (conf ?s) \<le> num_partial_prefills ?s)")
    case True
    then have "admission_step st = Inr (False, st)" by (auto simp: admission_step_def Let_def)
    then show ?thesis using core p by auto
  next
    case go: False
    then have room: "int (length (running ?s)) < max_num_running_reqs (conf ?s)" by simp
    define ready s1 where "ready = fst (if status r = WAITING_FOR_STRUCTURED_OUTPUT_GRAMMAR
        then promote_grammar_request (entry_id e) ?s else (True, ?s))"
      and "s1 = snd (if status r = WAITING_FOR_STRUCTURED_OUTPUT_GRAMMAR
        then promote_grammar_request (entry_id e) ?s else (True, ?s))"
    have step: "admission_step st =
       (if lora_blocked st r then rbind (set_aside e ?s) (\<lambda>s1. Inr (True, st\<lparr>sched := s1\<rparr>))
        else if \<not> ready then rbind (set_aside e s1) (\<lambda>s2. Inr (True, st\<lparr>sched := s2\<rparr>))
        else admission_lookup e (st\<lparr>sched := s1\<rparr>))"
      using go peek W(1) by (auto simp: admission_step_def Let_def ready_def s1_def split_beta)
    have aside: "\<exists>go st'. rbind (set_aside e s) (\<lambda>s2. Inr (True, st\<lparr>sched := s2\<rparr>)) = Inr (go, st') \<and>
        core_inv H (sched st') \<and> phase3 st' \<and> conf (sched st') = conf ?s"
      if c: "core_inv H s" "idle_change ?s s" "waiting s = waiting ?s" for s
    proof -
      have "queue_list (waiting s) = e # es" using q c(3) by simp
      from set_aside_ok [OF c(1) this] obtain q' where
        A: "set_aside e s = Inr (s\<lparr>waiting := q', skipped_waiting := add_request e (skipped_waiting s)\<rparr>)"
        "core_inv H (s\<lparr>waiting := q', skipped_waiting := add_request e (skipped_waiting s)\<rparr>)" by blast
      let ?s2 = "s\<lparr>waiting := q', skipped_waiting := add_request e (skipped_waiting s)\<rparr>"
      have ch: "idle_change ?s ?s2" by (rule idle_change_trans [OF c(2) idle_change_queues])
      then have "phase3 (st\<lparr>sched := ?s2\<rparr>)" by (rule phase3_idle(1) [OF p])
      moreover have "conf ?s2 = conf ?s" using ch by (simp add: idle_change_def)
      ultimately show ?thesis using A by auto
    qed
    show ?thesis
    proof (cases "lora_blocked st r")
      case True
      then show ?thesis unfolding step using aside [OF core] by simp
    next
      case lora: False
      have K: "core_inv H s1 \<and> idle_change ?s s1 \<and> waiting s1 = waiting ?s \<and>
        (ready \<longrightarrow> (\<exists>r'. table s1 (entry_id e) = Some r' \<and> (status r' = WAITING \<or> status r' = PREEMPTED) \<and> lora_req r' = lora_req r))"
      proof (cases "status r = WAITING_FOR_STRUCTURED_OUTPUT_GRAMMAR")
        case True
        then have "promote_grammar_request (entry_id e) ?s = (ready, s1)" by (simp add: ready_def s1_def)
        then show ?thesis by (rule promote_ok [OF core q r True])
      next
        case False
        then have "status r = WAITING \<or> status r = PREEMPTED" using W(4) by (simp add: waiting_status_def)
        then show ?thesis using False core r by (simp add: ready_def s1_def)
      qed
      show ?thesis
      proof (cases ready)
        case False
        then show ?thesis unfolding step using lora aside [of s1] K by simp
      next
        case True
        let ?st1 = "st\<lparr>sched := s1\<rparr>"
        from K True obtain r' where r': "table s1 (entry_id e) = Some r'" "status r' = WAITING \<or> status r' = PREEMPTED"
          "lora_req r' = lora_req r" by blast
        have ch: "idle_change ?s s1" and q1: "queue_list (waiting (sched ?st1)) = e # es" and c1: "core_inv H (sched ?st1)"
          using K q by simp_all
        have same: "running s1 = running ?s" "conf s1 = conf ?s" using ch by (simp_all add: idle_change_def)
        have p1: "phase3 ?st1" by (rule phase3_idle(1) [OF p ch])
        have "table (sched ?st1) (entry_id e) = Some r'" using r' by simp
        moreover have "int (length (running (sched ?st1))) < max_num_running_reqs (conf (sched ?st1))"
          using room same by simp
        moreover have "\<not> lora_blocked ?st1 r'" using lora lora_blocked_cong [of ?st1 st r' r] same r'(3) by simp
        ultimately show ?thesis
          unfolding step using lora True same admission_lookup_ok [OF c1 p1 q1 _ r'(2)] by simp
      qed
    qed
  qed
qed

text \<open>The admission loop returns, with everything in order.\<close>

lemma admission_loop_ok:
  assumes "core_inv H (sched st)" "phase3 st"
  shows "\<exists>st'. admission_loop st = Inr st' \<and> core_inv H (sched st') \<and> phase3 st' \<and> conf (sched st') = conf (sched st)"
  using assms
proof (induction st rule: admission_loop.induct)
  case (1 st)
  show ?case
  proof (cases "queue_list (waiting (sched st)) \<noteq> [] \<and> 0 < token_budget st")
    case False
    then have "admission_loop st = Inr st" by (subst admission_loop.simps) (simp only: if_False)
    then show ?thesis using "1.prems" by simp
  next
    case True
    from admission_step_ok [OF "1.prems" conjunct1 [OF True]] obtain go st' where
      S: "admission_step st = Inr (go, st')" "core_inv H (sched st')" "phase3 st'" "conf (sched st') = conf (sched st)"
      by auto
    have eq: "admission_loop st = (if go then admission_loop st' else Inr st')"
      using True S(1) by (simp add: admission_loop.simps [of st])
    show ?thesis
    proof (cases go)
      case False
      then show ?thesis using eq S by simp
    next
      case go: True
      from "1.IH" [OF True S(1) refl go S(2,3)] show ?thesis using eq go S(4) by simp
    qed
  qed
qed

section \<open>The step\<close>

lemma core_restore:
  assumes core: "core_inv H s"
  shows "core_inv H (restore_skipped_waiting s)" and "queue_list (skipped_waiting (restore_skipped_waiting s)) = []"
    and "set (queue_ids (waiting s)) \<subseteq> set (queue_ids (waiting (restore_skipped_waiting s)))"
    and "running (restore_skipped_waiting s) = running s" "table (restore_skipped_waiting s) = table s"
    and "kvm (restore_skipped_waiting s) = kvm s" "conf (restore_skipped_waiting s) = conf s"
proof -
  note P = core_parts [OF core]
  let ?wq = "prepend_requests (skipped_waiting s) (waiting s)" and ?sq = "create_request_queue (sched_policy (conf s))"
  show "queue_list (skipped_waiting (restore_skipped_waiting s)) = []"
    "running (restore_skipped_waiting s) = running s" "table (restore_skipped_waiting s) = table s"
    "kvm (restore_skipped_waiting s) = kvm s" "conf (restore_skipped_waiting s) = conf s"
    by (simp_all add: restore_skipped_waiting_def)
  have wf: "queue_wf (waiting s)" using P(5) by (simp add: place_ok_def)
  have M: "queue_wf ?wq" "mset (queue_list ?wq) = mset (queue_list (skipped_waiting s)) + mset (queue_list (waiting s))"
    using prepend_requests_wf [OF wf] by simp_all
  have ids: "mset (queue_ids ?wq) = mset (queue_ids (skipped_waiting s)) + mset (queue_ids (waiting s))"
    unfolding mset_map M(2) by simp
  have setl: "set (queue_list ?wq) = set (queue_list (waiting s) @ queue_list (skipped_waiting s))"
    using arg_cong [OF M(2), of set_mset] by auto
  have "core_inv H (s\<lparr>waiting := ?wq, skipped_waiting := ?sq\<rparr>)"
  proof -
    have all: "mset (running s @ queue_ids ?wq @ queue_ids ?sq) =
        mset (running s @ queue_ids (waiting s) @ queue_ids (skipped_waiting s))"
      using ids by simp
    have "place_ok (sched_policy (conf s)) (table s) (running s) ?wq ?sq"
      using P(5) mset_eq_imp_distinct_iff [OF all] mset_eq_setD [OF all] M(1) setl unfolding place_ok_def by simp
    moreover have "wait_ok (table s) (queue_ids ?wq @ queue_ids ?sq)"
    proof -
      have "set (queue_ids ?wq @ queue_ids ?sq) = set (queue_ids (waiting s) @ queue_ids (skipped_waiting s))"
        using arg_cong [OF setl, of "image entry_id"] by (simp add: image_Un)
      then show ?thesis using P(8) unfolding wait_ok_def by simp
    qed
    ultimately show ?thesis using P by (simp add: core_inv_def)
  qed
  then show "core_inv H (restore_skipped_waiting s)" using core by (simp add: restore_skipped_waiting_def)
  show "set (queue_ids (waiting s)) \<subseteq> set (queue_ids (waiting (restore_skipped_waiting s)))"
    using setl by (auto simp: restore_skipped_waiting_def)
qed

text \<open>A scheduler between two steps.\<close>

definition ready_inv :: "hash_fn \<Rightarrow> scheduler \<Rightarrow> bool" where
  "ready_inv H s \<longleftrightarrow> core_inv H s \<and> queue_list (skipped_waiting s) = [] \<and> (\<forall>rid\<in>set (running s). behind s rid)"

lemma decide_ok:
  assumes "ready_inv H s"
  shows "\<exists>st. decide s = Inr st \<and> core_inv H (sched st) \<and> books st \<and> conf (sched st) = conf s \<and>
    queue_list (skipped_waiting (sched st)) = []"
proof -
  have core: "core_inv H s" and beh: "\<forall>rid\<in>set (running s). behind s rid" using assms by (simp_all add: ready_inv_def)
  have p0: "phase1 (initial_step s)" by (rule initial_phase1 [OF core_parts(12) [OF core] beh])
  have c0: "core_inv H (sched (initial_step s))" using core by (simp add: initial_step_def)
  from running_loop_ok [OF c0 p0] obtain st1 where
    R: "running_loop (initial_step s) = Inr st1" "core_inv H (sched st1)" "phase1 st1" "conf (sched st1) = conf s"
    by (auto simp: initial_step_def)
  have b1: "books st1" using R(3) by (simp add: phase1_def)
  from collect_loras_ok [OF R(2) b1] obtain ls where
    L: "collect_loras st1 = Inr (st1\<lparr>scheduled_loras := ls\<rparr>)" "books (st1\<lparr>scheduled_loras := ls\<rparr>)"
    "preempted_reqs st1 = [] \<longrightarrow> phase3 (st1\<lparr>scheduled_loras := ls\<rparr>)" by blast
  let ?st2 = "st1\<lparr>scheduled_loras := ls\<rparr>"
  have "\<exists>st3. (if preempted_reqs ?st2 = [] then admission_loop ?st2 else Inr ?st2) = Inr st3 \<and>
      core_inv H (sched st3) \<and> books st3 \<and> conf (sched st3) = conf s"
  proof (cases "preempted_reqs st1 = []")
    case True
    have c2: "core_inv H (sched ?st2)" using R(2) by simp
    from admission_loop_ok [OF c2] L(3) True obtain st3 where
      "admission_loop ?st2 = Inr st3" "core_inv H (sched st3)" "phase3 st3" "conf (sched st3) = conf (sched ?st2)" by blast
    then show ?thesis using True R(4) by (simp add: phase3_def)
  next
    case False
    then show ?thesis using L(2) R(2,4) by simp
  qed
  then obtain st3 where A: "(if preempted_reqs ?st2 = [] then admission_loop ?st2 else Inr ?st2) = Inr st3"
    "core_inv H (sched st3)" "books st3" "conf (sched st3) = conf s" by blast
  have "total_scheduled st3 \<le> max_num_scheduled_tokens (conf s)" using A(3,4) unfolding books_def by simp
  moreover have "int (length (running (sched st3))) \<le> max_num_running_reqs (conf s)"
    using core_parts(11) [OF A(2)] A(4) by simp
  ultimately have D: "decide s = Inr (st3\<lparr>sched := restore_skipped_waiting (sched st3)\<rparr>)"
    using R(1) L(1) A(1) by (simp add: decide_def not_less)
  note S = core_restore [OF A(2)]
  have "books (st3\<lparr>sched := restore_skipped_waiting (sched st3)\<rparr>)"
  proof -
    let ?s' = "restore_skipped_waiting (sched st3)" and ?st = "st3\<lparr>sched := restore_skipped_waiting (sched st3)\<rparr>"
    have g: "granted ?s' spec x n = granted (sched st3) spec x n" for spec x n
      using S(5-7) by (simp add: granted_def)
    show ?thesis
    proof (rule books_state [OF A(3) S(4,7,3)])
      show "granted ?s' (scheduled_spec_decode_tokens st3) x n" if "(x, n) \<in> set (num_scheduled_tokens st3)" for x n
        unfolding g using A(3) that unfolding books_def by blast
      show "inputs_ok ?s' (scheduled_encoder_inputs st3)"
      proof (rule inputs_ok_same [OF _ S(5)])
        show "inputs_ok (sched st3) (scheduled_encoder_inputs st3)" using A(3) unfolding books_def by blast
      qed
      show "behind ?s' x" if "x \<in> set (running (sched st3))" for x
      proof (rule behind_cong)
        show "behind (sched st3) x" using A(3) that unfolding books_def by blast
      qed (simp add: S(5))
    qed
  qed
  then show ?thesis using D S(1,2,7) A(4) by simp
qed

text \<open>
  The state handed to the worker: every scheduled request has its tokens counted, ends no later
  than its last token or its last draft, and the others have tokens left to compute.
\<close>

definition advanced :: "scheduler \<Rightarrow> (string \<times> int list) list \<Rightarrow> string \<Rightarrow> bool" where
  "advanced s spec rid \<longleftrightarrow>
     (\<exists>r. table s rid = Some r \<and> num_computed_tokens r \<le> max_model_len (conf s) \<and>
        (case map_of spec rid of
           None \<Rightarrow> num_computed_tokens r \<le> num_tokens r
         | Some ds \<Rightarrow> ds \<noteq> [] \<and> num_computed_tokens r = num_tokens r + int (length ds)))"

definition in_flight :: "hash_fn \<Rightarrow> scheduler_output \<Rightarrow> scheduler \<Rightarrow> bool" where
  "in_flight H so s \<longleftrightarrow>
     core_inv H s \<and> queue_list (skipped_waiting s) = [] \<and>
     distinct (map fst (so_num_scheduled_tokens so)) \<and>
     set (map fst (so_num_scheduled_tokens so)) \<subseteq> set (running s) \<and>
     (\<forall>rid\<in>set (running s).
        case map_of (so_num_scheduled_tokens so) rid of
          None \<Rightarrow> behind s rid
        | Some n \<Rightarrow> 1 \<le> n \<and> advanced s (so_spec_decode_tokens so) rid)"

definition advance :: "int \<Rightarrow> request \<Rightarrow> request" where
  "advance n r = r\<lparr>num_computed_tokens := num_computed_tokens r + n,
     is_prefill_chunk := num_computed_tokens r + n < num_tokens r\<rparr>"

lemma advance_facts [simp]:
  "same_request r (advance n r)" "num_computed_tokens (advance n r) = num_computed_tokens r + n"
  "status (advance n r) = status r" "num_tokens (advance n r) = num_tokens r"
  by (simp_all add: advance_def same_request_def num_tokens_def)

lemma advance_fold_ok:
  assumes "core_inv H s" and "distinct (map fst ns)"
    and "\<forall>(rid, n)\<in>set ns. rid \<in> set (running s) \<and> 0 \<le> n \<and>
      (\<exists>r. table s rid = Some r \<and> has_slots (kvm s) rid (num_computed_tokens r + n))"
  shows "core_inv H (fold advance_request ns s) \<and> running (fold advance_request ns s) = running s \<and>
    conf (fold advance_request ns s) = conf s \<and> skipped_waiting (fold advance_request ns s) = skipped_waiting s \<and>
    (\<forall>x. table (fold advance_request ns s) x =
       (case map_of ns x of None \<Rightarrow> table s x | Some n \<Rightarrow> map_option (advance n) (table s x)))"
  using assms
proof (induction ns arbitrary: s)
  case (Cons p ns)
  obtain rid n where p: "p = (rid, n)" by (cases p) blast
  with Cons.prems(3) obtain r where r: "rid \<in> set (running s)" "0 \<le> n" "table s rid = Some r"
    "has_slots (kvm s) rid (num_computed_tokens r + n)" by auto
  obtain r0 where "table s rid = Some r0" "status r0 = RUNNING" "0 \<le> num_computed_tokens r0"
    using core_running [OF Cons.prems(1) r(1)] by metis
  then have r0: "status r = RUNNING" "0 \<le> num_computed_tokens r" using r(3) by simp_all
  let ?s = "set_req rid (advance n r) s"
  have step: "advance_request p s = ?s"
    by (simp add: advance_request_def p Let_def req_table [OF r(3)] advance_def)
  have core: "core_inv H ?s"
    by (rule core_set_running [OF Cons.prems(1) r(1,3)]) (use r r0 in simp_all)
  have nin: "rid \<notin> set (map fst ns)" and d: "distinct (map fst ns)" using Cons.prems(2) p by simp_all
  have "\<forall>(x, m)\<in>set ns. x \<in> set (running ?s) \<and> 0 \<le> m \<and>
      (\<exists>r. table ?s x = Some r \<and> has_slots (kvm ?s) x (num_computed_tokens r + m))"
  proof (clarify)
    fix x m assume xm: "(x, m) \<in> set ns"
    then have "x \<noteq> rid" using nin by force
    moreover have "x \<in> set (running s) \<and> 0 \<le> m \<and>
        (\<exists>r. table s x = Some r \<and> has_slots (kvm s) x (num_computed_tokens r + m))"
      using Cons.prems(3) xm by auto
    ultimately show "x \<in> set (running ?s) \<and> 0 \<le> m \<and>
        (\<exists>r. table ?s x = Some r \<and> has_slots (kvm ?s) x (num_computed_tokens r + m))"
      by simp
  qed
  note IH = Cons.IH [OF core d this]
  have none: "map_of ns rid = None" using nin by (simp add: map_of_eq_None_iff)
  have "table (fold advance_request ns ?s) x =
      (case map_of (p # ns) x of None \<Rightarrow> table s x | Some m \<Rightarrow> map_option (advance m) (table s x))" for x
  proof (cases "x = rid")
    case True
    then show ?thesis using IH none r(3) p by simp
  next
    case False
    then show ?thesis using IH p by (simp add: fun_upd_other cong: option.case_cong)
  qed
  then show ?case using IH step by simp
qed simp

lemma core_drain:
  assumes core: "core_inv H s"
  shows "core_inv H (drain_outputs s)" and "table (drain_outputs s) = table s" and "running (drain_outputs s) = running s"
    and "kvm (drain_outputs s) = kvm s" and "conf (drain_outputs s) = conf s"
    and "skipped_waiting (drain_outputs s) = skipped_waiting s"
proof -
  show frame: "table (drain_outputs s) = table s" "running (drain_outputs s) = running s"
    "kvm (drain_outputs s) = kvm s" "conf (drain_outputs s) = conf s" "skipped_waiting (drain_outputs s) = skipped_waiting s"
    by (simp_all add: drain_outputs_def table_def)
  note P = core_parts [OF core]
  have con: "connector (drain_outputs s) = None" "waiting (drain_outputs s) = waiting s"
    "encoder (drain_outputs s) = snd (get_freed_mm_hashes (encoder s))"
    using P(1) by (simp_all add: drain_outputs_def)
  have "enc_ok (table s) (snd (get_freed_mm_hashes (encoder s)))"
    using P(9) enc_inv_cong [of "encoder s" "snd (get_freed_mm_hashes (encoder s))"]
      ids_of_cong [of "snd (get_freed_mm_hashes (encoder s))" "encoder s"]
    unfolding enc_ok_def by (simp add: get_freed_mm_hashes_def)
  moreover have "cache_size (snd (get_freed_mm_hashes (encoder s))) = cache_size (encoder s)"
    by (simp add: get_freed_mm_hashes_def)
  ultimately show "core_inv H (drain_outputs s)"
    using P unfolding core_inv_def frame con by simp
qed

lemma make_output_fields [simp]:
  "so_num_scheduled_tokens (make_output st) = num_scheduled_tokens st"
  "so_spec_decode_tokens (make_output st) = scheduled_spec_decode_tokens st"
  "so_total_num_scheduled_tokens (make_output st) = total_scheduled st"
  by (simp_all add: make_output_def Let_def)

lemma core_counters [simp]:
  "core_inv H (s\<lparr>finished_req_ids := f\<rparr>) = core_inv H s" "core_inv H (s\<lparr>step_index := i\<rparr>) = core_inv H s"
  "core_inv H (s\<lparr>num_draft_tokens_total := a\<rparr>) = core_inv H s" "core_inv H (s\<lparr>num_accepted_tokens_total := b\<rparr>) = core_inv H s"
  "core_inv H (s\<lparr>pending_scheduled := p\<rparr>) = core_inv H s" "core_inv H (s\<lparr>grammar_compile_error_reqs := g\<rparr>) = core_inv H s"
  by (simp_all add: core_inv_def table_def)

lemma table_counters [simp]:
  "table (s\<lparr>finished_req_ids := f\<rparr>) = table s" "table (s\<lparr>step_index := i\<rparr>) = table s"
  "table (s\<lparr>num_draft_tokens_total := a\<rparr>) = table s" "table (s\<lparr>num_accepted_tokens_total := b\<rparr>) = table s"
  by (simp_all add: table_def)

lemma schedule_ok:
  assumes inv: "ready_inv H s"
  shows "\<exists>so s'. schedule s = Inr (so, s') \<and> in_flight H so s' \<and> conf s' = conf s \<and>
    so_total_num_scheduled_tokens so = sum_list (map snd (so_num_scheduled_tokens so)) \<and>
    so_total_num_scheduled_tokens so \<le> max_num_scheduled_tokens (conf s) \<and>
    int (length (running s')) \<le> max_num_running_reqs (conf s)"
proof -
  from decide_ok [OF inv] obtain st where D: "decide s = Inr st" "core_inv H (sched st)" "books st"
    "conf (sched st) = conf s" "queue_list (skipped_waiting (sched st)) = []" by blast
  let ?ns = "num_scheduled_tokens st" and ?spec = "scheduled_spec_decode_tokens st"
  let ?d = "drain_outputs (sched st)"
  note C = core_drain [OF D(2)]
  have dist: "distinct (map fst ?ns)" and sub: "set (map fst ?ns) \<subseteq> set (running (sched st))"
    and tot: "token_budget st + total_scheduled st = max_num_scheduled_tokens (conf (sched st))" "0 \<le> token_budget st"
    and beh: "\<forall>x\<in>set (running (sched st)). behind (sched st) x"
    and gr: "\<forall>(x, n)\<in>set ?ns. granted (sched st) ?spec x n"
    using D(3) unfolding books_def by blast+
  have "\<forall>(rid, n)\<in>set ?ns. rid \<in> set (running ?d) \<and> 0 \<le> n \<and>
      (\<exists>r. table ?d rid = Some r \<and> has_slots (kvm ?d) rid (num_computed_tokens r + n))"
  proof clarify
    fix rid n assume rn: "(rid, n) \<in> set ?ns"
    then have "granted (sched st) ?spec rid n" using gr by blast
    moreover have "rid \<in> set (running (sched st))" using rn sub by force
    ultimately show "rid \<in> set (running ?d) \<and> 0 \<le> n \<and>
        (\<exists>r. table ?d rid = Some r \<and> has_slots (kvm ?d) rid (num_computed_tokens r + n))"
      unfolding C(2-4) granted_def by auto
  qed
  note F = advance_fold_ok [OF C(1) dist this]
  let ?s1 = "update_after_schedule ?ns ?d"
  define s' where "s' = ?s1\<lparr>step_index := step_index ?s1 + 1\<rparr>"
  have run: "schedule s = Inr (make_output st, s')" using D(1) by (simp add: schedule_def Let_def s'_def)
  have S: "core_inv H s'" "running s' = running (sched st)" "conf s' = conf s" "queue_list (skipped_waiting s') = []"
    "\<And>x. table s' x = (case map_of ?ns x of None \<Rightarrow> table (sched st) x | Some n \<Rightarrow> map_option (advance n) (table (sched st) x))"
    using F [unfolded C(2)] D(4,5) by (simp_all add: update_after_schedule_def C(3,5,6) s'_def)
  have "case map_of ?ns rid of None \<Rightarrow> behind s' rid | Some n \<Rightarrow> 1 \<le> n \<and> advanced s' ?spec rid"
    if rid: "rid \<in> set (running (sched st))" for rid
  proof (cases "map_of ?ns rid")
    case None
    have "behind (sched st) rid" using beh rid by blast
    then have "behind s' rid" by (rule behind_cong) (use S(5) [of rid] None in simp)
    then show ?thesis using None by simp
  next
    case (Some n)
    then have "granted (sched st) ?spec rid n" using gr map_of_SomeD by fast
    then obtain r where r: "table (sched st) rid = Some r" "1 \<le> n" "num_computed_tokens r + n \<le> max_model_len (conf s)"
      "case map_of ?spec rid of None \<Rightarrow> num_computed_tokens r + n \<le> num_tokens r
       | Some ds \<Rightarrow> ds \<noteq> [] \<and> num_computed_tokens r + n = num_tokens r + int (length ds)"
      unfolding granted_def D(4) by blast
    have "table s' rid = Some (advance n r)" using S(5) [of rid] Some r(1) by simp
    then have "advanced s' ?spec rid" using r(3,4) S(3) unfolding advanced_def by (simp cong: option.case_cong)
    then show ?thesis using Some r(2) by simp
  qed
  then have "in_flight H (make_output st) s'"
    using S(1,4) dist sub unfolding in_flight_def make_output_fields S(2) by blast
  moreover have "int (length (running s')) \<le> max_num_running_reqs (conf s)" using core_parts(11) [OF S(1)] S(3) by simp
  moreover have "total_scheduled st = sum_list (map snd ?ns)" by (simp add: total_scheduled_def)
  moreover have "total_scheduled st \<le> max_num_scheduled_tokens (conf s)" using tot D(4) by simp
  ultimately show ?thesis using run S(3) by auto
qed

end
