(* ===== verification/SchedulerFold.thy ===== *)
theory SchedulerFold
  imports SchedulerRun
begin

text \<open>
  Folding a step's results back (\<open>update_from_output\<close>), requests that come and go from outside,
  and what follows for every state the engine can reach: no step raises, and every state between
  two steps satisfies \<open>ready_inv\<close>.
\<close>

section \<open>Requests that leave\<close>

text \<open>The invariant reads these parts of the scheduler only.\<close>

lemma core_inv_cong:
  assumes "connector s' = connector s" "kvm s' = kvm s" "conf s' = conf s" "table s' = table s"
    "running s' = running s" "waiting s' = waiting s" "skipped_waiting s' = skipped_waiting s" "encoder s' = encoder s"
  shows "core_inv H s' = core_inv H s"
  unfolding core_inv_def assms ..

lemma length_remove1_less: "length (remove1 x xs) \<le> length xs"
  by (simp add: length_remove1)

lemma core_forget:
  assumes core: "core_inv H s" and sk: "rid \<notin> set (queue_ids (skipped_waiting s))"
    and same: "connector s' = None" "conf s' = conf s" "table s' = (table s)(rid := None)"
      "running s' = remove1 rid (running s)" "skipped_waiting s' = skipped_waiting s"
    and q: "queue_list (waiting s') = filter (\<lambda>e. entry_id e \<noteq> rid) (queue_list (waiting s))"
      "queue_wf (waiting s')" "queue_policy (waiting s') = queue_policy (waiting s)"
    and k: "kvm_inv (kvm s')" "kvm_conf (kvm s') = kvm_conf (kvm s)" "holds_none (kvm s') rid"
      "\<forall>x. x \<noteq> rid \<longrightarrow> kvm_get_blocks (kvm s') x = kvm_get_blocks (kvm s) x"
    and c: "enc_inv (encoder s')" "cache_size (encoder s') = cache_size (encoder s)" "ids_of (encoder s') rid = []"
      "\<forall>x. x \<noteq> rid \<longrightarrow> ids_of (encoder s') x = ids_of (encoder s) x"
  shows "core_inv H s'"
proof -
  note P = core_parts [OF core]
  let ?R = "(table s)(rid := None)" and ?run = "remove1 rid (running s)"
  let ?ids = "running s @ queue_ids (waiting s) @ queue_ids (skipped_waiting s)"
  let ?ids' = "?run @ queue_ids (waiting s') @ queue_ids (skipped_waiting s)"
  have d: "distinct ?ids" "set ?ids = dom (table s)" using P(5) by (simp_all add: place_ok_def)
  have wq: "queue_ids (waiting s') = filter (\<lambda>x. x \<noteq> rid) (queue_ids (waiting s))"
    unfolding q(1) by (simp add: filter_map comp_def)
  have "distinct (running s)" using d(1) by simp
  then have run: "?run = filter (\<lambda>x. x \<noteq> rid) (running s)"
    by (simp add: distinct_remove1_removeAll removeAll_filter_not_eq eq_commute)
  have "filter (\<lambda>x. x \<noteq> rid) (queue_ids (skipped_waiting s)) = queue_ids (skipped_waiting s)"
    using sk by (intro filter_True) auto
  then have ids: "?ids' = filter (\<lambda>x. x \<noteq> rid) ?ids" unfolding wq run by simp
  have set': "set ?ids' = dom (table s) - {rid}" unfolding ids using d(2) by auto
  have sub: "set ?run = set (running s) - {rid}" using run by auto
  have ent: "set (queue_list (waiting s') @ queue_list (skipped_waiting s)) \<subseteq>
      set (queue_list (waiting s) @ queue_list (skipped_waiting s))" unfolding q(1) by auto
  have keys: "\<exists>r. ?R (entry_id e) = Some r \<and> e = sort_key r"
    if e: "e \<in> set (queue_list (waiting s') @ queue_list (skipped_waiting s))" for e
  proof -
    have "entry_id e \<in> set ?ids'" using e by auto
    then have "entry_id e \<noteq> rid" using set' by blast
    moreover obtain r where "table s (entry_id e) = Some r" "e = sort_key r"
      using P(5) e ent unfolding place_ok_def by blast
    ultimately show ?thesis by simp
  qed
  have dist: "distinct ?ids'" unfolding ids by (rule distinct_filter [OF d(1)])
  have dom': "dom ?R = dom (table s) - {rid}" by auto
  have place: "place_ok (sched_policy (conf s)) ?R ?run (waiting s') (skipped_waiting s)"
    unfolding place_ok_def
  proof (intro conjI ballI)
    show "distinct ?ids'" by (rule dist)
    show "set ?ids' = dom ?R" unfolding dom' by (rule set')
    show "queue_wf (skipped_waiting s)" "queue_policy (skipped_waiting s) = sched_policy (conf s)"
      "queue_policy (waiting s') = sched_policy (conf s)"
      using P(5) q(3) by (simp_all add: place_ok_def)
  qed (use q(2) keys in simp_all)
  have "run_ok (kvm s) (table s) ?run" using P(6) sub by (simp add: run_ok_def)
  then have "run_ok (kvm s') (table s) ?run" by (rule run_ok_cong [OF _ k(2)]) (use k(4) sub in auto)
  then have run_ok: "run_ok (kvm s') ?R ?run" using sub by (auto simp: run_ok_def)
  have idle: "idle_ok (kvm s') ?run"
    unfolding idle_ok_def
  proof (intro allI impI)
    fix x assume x: "x \<notin> set ?run"
    show "holds_none (kvm s') x"
    proof (cases "x = rid")
      case False
      then have "x \<notin> set (running s)" using x sub by blast
      then have "holds_none (kvm s) x" using P(7) unfolding idle_ok_def by blast
      then show ?thesis using blocks_cong(1) [of "kvm s'" x "kvm s"] k(2,4) False by simp
    qed (use k(3) in simp)
  qed
  have wait: "wait_ok ?R (queue_ids (waiting s') @ queue_ids (skipped_waiting s))"
  proof -
    have "set (queue_ids (waiting s') @ queue_ids (skipped_waiting s)) \<subseteq>
        set (queue_ids (waiting s) @ queue_ids (skipped_waiting s)) - {rid}"
      using wq sk by auto
    moreover have "\<forall>x\<in>set (queue_ids (waiting s) @ queue_ids (skipped_waiting s)) - {rid}.
        \<exists>r. ?R x = Some r \<and> waiting_status (status r) \<and> num_computed_tokens r = 0"
      using P(8) unfolding wait_ok_def by simp
    ultimately show ?thesis unfolding wait_ok_def by blast
  qed
  have enc: "enc_ok ?R (encoder s')"
    unfolding enc_ok_def
  proof (intro conjI allI impI)
    fix x assume x: "ids_of (encoder s') x \<noteq> []"
    then have "x \<noteq> rid" using c(3) by auto
    then show "\<exists>r. ?R x = Some r \<and> (\<forall>i\<in>set (ids_of (encoder s') x). i < length (mm_features r))"
      using P(9) x c(4) unfolding enc_ok_def by simp
  qed (rule c(1))
  have lora: "lora_ok (conf s) ?R ?run"
  proof -
    have "loras ?R ?run = loras (table s) ?run" by (rule loras_cong) (use sub in simp)
    moreover have "lora_ok (conf s) (table s) ?run" by (rule lora_ok_subset [OF _ P(10)]) (use sub in blast)
    ultimately show ?thesis unfolding lora_ok_def by (simp cong: option.case_cong)
  qed
  have table: "table_ok H (conf s) (kvm_conf (kvm s')) (cache_size (encoder s')) ?R"
    unfolding k(2) c(2) using P(4) by (simp add: table_ok_def)
  have "int (length ?run) \<le> max_num_running_reqs (conf s)"
    using P(11) length_remove1_less [of rid "running s"] by linarith
  moreover have "kvm_max_model_len (kvm s') = max_model_len (conf s)" using k(2) P(3) by (simp add: kvm_conf_eq)
  ultimately show ?thesis
    unfolding core_inv_def same using k(1) table place run_ok idle wait enc lora P(12) by simp
qed

text \<open>\<open>_free_request\<close> returns and gives everything back.\<close>

lemma free_request_ok:
  assumes con: "connector s = None" and k: "kvm_inv (kvm s)" and c: "enc_inv (encoder s)"
    and ids: "\<forall>i\<in>set (ids_of (encoder s) (request_id r)). i < length (mm_features r)"
    and fin: "is_finished r"
  shows "\<exists>k' c' f. free_request r s = Inr (s\<lparr>encoder := c', kvm := k', finished_req_ids := f,
      requests := AList.delete (request_id r) (requests s)\<rparr>) \<and>
    kvm_inv k' \<and> kvm_conf k' = kvm_conf (kvm s) \<and> holds_none k' (request_id r) \<and>
    (\<forall>x. x \<noteq> request_id r \<longrightarrow> kvm_get_blocks k' x = kvm_get_blocks (kvm s) x) \<and>
    enc_inv c' \<and> cache_size c' = cache_size (encoder s) \<and> ids_of c' (request_id r) = [] \<and>
    (\<forall>x. x \<noteq> request_id r \<longrightarrow> ids_of c' x = ids_of (encoder s) x)"
proof -
  have "\<exists>c'. (if mm_features r = [] then Inr s else rbind (enc_free r (encoder s)) (\<lambda>c. Inr (s\<lparr>encoder := c\<rparr>))) =
      Inr (s\<lparr>encoder := c'\<rparr>) \<and> enc_inv c' \<and> cache_size c' = cache_size (encoder s) \<and> ids_of c' (request_id r) = [] \<and>
      (\<forall>x. x \<noteq> request_id r \<longrightarrow> ids_of c' x = ids_of (encoder s) x)"
  proof (cases "mm_features r = []")
    case True
    then have "ids_of (encoder s) (request_id r) = []" using ids by (cases "ids_of (encoder s) (request_id r)") auto
    then show ?thesis using True c by (intro exI [of _ "encoder s"]) simp
  next
    case False
    from enc_free_inv [OF c, of r] ids show ?thesis using False by (auto simp: get_cached_input_ids_of)
  qed
  then obtain c' where C: "(if mm_features r = [] then Inr s else rbind (enc_free r (encoder s)) (\<lambda>c. Inr (s\<lparr>encoder := c\<rparr>))) =
      Inr (s\<lparr>encoder := c'\<rparr>)" "enc_inv c'" "cache_size c' = cache_size (encoder s)" "ids_of c' (request_id r) = []"
      "\<forall>x. x \<noteq> request_id r \<longrightarrow> ids_of c' x = ids_of (encoder s) x" by blast
  from free_holds [OF k, of r] obtain k' where K: "kvm_free r (kvm s) = Inr k'" "kvm_inv k'"
    "kvm_conf k' = kvm_conf (kvm s)" "holds_none k' (request_id r)"
    "\<forall>x. x \<noteq> request_id r \<longrightarrow> kvm_get_blocks k' x = kvm_get_blocks (kvm s) x" by blast
  have "free_request r s = Inr (s\<lparr>encoder := c', kvm := k', finished_req_ids := insert (request_id r) (finished_req_ids s),
      requests := AList.delete (request_id r) (requests s)\<rparr>)"
    unfolding free_request_def using con C(1) K(1) fin by simp
  then show ?thesis using C(2-5) K(2-5) by blast
qed

section \<open>Tokens that come back\<close>

lemma append_fields [simp]:
  "request_id (append_output_token_ids H ts r) = request_id r" "status (append_output_token_ids H ts r) = status r"
  "num_tokens (append_output_token_ids H ts r) = num_tokens r + int (length ts)"
  "num_output_tokens (append_output_token_ids H ts r) = num_output_tokens r + int (length ts)"
  "num_computed_tokens (append_output_token_ids H ts r) = num_computed_tokens r"
  "sampling_params (append_output_token_ids H ts r) = sampling_params r"
  "max_tokens (append_output_token_ids H ts r) = max_tokens r" "use_pooling (append_output_token_ids H ts r) = use_pooling r"
  "mm_features (append_output_token_ids H ts r) = mm_features r" "block_hasher (append_output_token_ids H ts r) = block_hasher r"
  "sort_key (append_output_token_ids H ts r) = sort_key r" "lora_req (append_output_token_ids H ts r) = lora_req r"
  by (simp_all add: append_output_token_ids_def update_block_hashes_def num_tokens_def num_output_tokens_def sort_key_def
      split: option.split)

lemma check_stop_result:
  assumes sp: "sampling_params r = Some sp" and out: "output_token_ids r \<noteq> []"
  shows "\<exists>b r'. check_stop len r = Inr (b, r')"
  using assms by (auto simp: check_stop_def Let_def)

lemma check_stop_cap:
  assumes "check_stop len r = Inr (False, r')" "sampling_params r = Some sp" "sp_min_tokens sp \<le> num_output_tokens r"
  shows "num_tokens r < len" and "num_output_tokens r < max_tokens r"
  using assms by (auto simp: check_stop_def Let_def split: if_splits)

lemma request_ok_append:
  assumes ok: "request_ok H cf kc cap rid r" and sp: "sampling_params r = Some sp"
    and more: "num_output_tokens r + 1 < max_tokens r"
  shows "request_ok H cf kc cap rid (append_output_token_ids H [t] r)"
proof -
  have "hashes_current H r" using ok by (simp add: request_ok_def)
  then have "hashes_current H (append_output_token_ids H [t] r)" by (rule append_hashes_current)
  then show ?thesis using ok sp more by (auto simp: request_ok_def budget_ok_def split: prod.splits)
qed

text \<open>
  Tokens are appended until a stop condition holds: then the request is finished; otherwise all
  of them are in, and the request is still within its budget.
\<close>

lemma update_request_ok:
  assumes "request_ok H cf kc cap rid r" and "sampling_params r = Some sp"
  shows "\<exists>ts' stop r'. update_request_with_output H (max_model_len cf) ts r = Inr (ts', stop, r') \<and>
    request_id r' = request_id r \<and> mm_features r' = mm_features r \<and> same_frame r r' \<and>
    (if stop then is_finished r' \<and> ts' \<noteq> []
     else ts' = ts \<and> request_ok H cf kc cap rid r' \<and> status r' = status r \<and> use_pooling r' = use_pooling r \<and>
       num_tokens r' = num_tokens r + int (length ts) \<and> num_computed_tokens r' = num_computed_tokens r)"
  using assms
proof (induction ts arbitrary: r)
  case Nil
  then show ?case by (auto simp: same_frame_def intro: exI [of _ False])
next
  case (Cons t ts)
  let ?a = "append_output_token_ids H [t] r"
  have spa: "sampling_params ?a = Some sp" using Cons.prems(2) by simp
  have "output_token_ids ?a \<noteq> []"
    by (simp add: append_output_token_ids_def update_block_hashes_def split: option.split)
  from check_stop_result [OF spa this] obtain b r1 where C: "check_stop (max_model_len cf) ?a = Inr (b, r1)" by blast
  show ?case
  proof (cases b)
    case True
    then have fin: "is_finished r1" using check_stop_True C by (simp add: is_finished_def)
    have "r1 = ?a\<lparr>status := status r1, stop_reason := stop_reason r1\<rparr>" using C True by (intro check_stop_frame)
    then obtain x y where r1: "r1 = ?a\<lparr>status := x, stop_reason := y\<rparr>" by blast
    have "update_request_with_output H (max_model_len cf) (t # ts) r = Inr ([t], True, r1)" using C True by simp
    moreover have "request_id r1 = request_id r" "mm_features r1 = mm_features r" "lora_req r1 = lora_req r" by (simp_all add: r1)
    moreover have "sort_key r1 = sort_key ?a" by (simp add: r1 sort_key_def)
    ultimately show ?thesis using fin by (intro exI [of _ "[t]"] exI [of _ True] exI [of _ r1]) (simp add: same_frame_def)
  next
    case False
    then have r1: "r1 = ?a" using check_stop_False C by simp
    have more: "num_output_tokens r + 1 < max_tokens r"
    proof (cases "sp_min_tokens sp \<le> num_output_tokens ?a")
      case True
      show ?thesis using check_stop_cap(2) [of "max_model_len cf" ?a r1 sp] C False spa True by simp
    next
      case not: False
      have "sp_min_tokens sp \<le> max_tokens r" using Cons.prems by (simp add: request_ok_def budget_ok_def)
      then show ?thesis using not by simp
    qed
    note ok = request_ok_append [OF Cons.prems more, of t]
    from Cons.IH [OF ok spa] obtain ts' stop r' where R: "update_request_with_output H (max_model_len cf) ts ?a = Inr (ts', stop, r')"
      "request_id r' = request_id ?a" "mm_features r' = mm_features ?a" "same_frame ?a r'"
      "if stop then is_finished r' \<and> ts' \<noteq> []
       else ts' = ts \<and> request_ok H cf kc cap rid r' \<and> status r' = status ?a \<and> use_pooling r' = use_pooling ?a \<and>
         num_tokens r' = num_tokens ?a + int (length ts) \<and> num_computed_tokens r' = num_computed_tokens ?a" by blast
    have "update_request_with_output H (max_model_len cf) (t # ts) r = Inr (t # ts', stop, r')" using C False r1 R(1) by simp
    moreover have "same_frame r r'" using R(4) by (simp add: same_frame_def)
    ultimately show ?thesis using R(2,3,5)
      by (intro exI [of _ "t # ts'"] exI [of _ stop] exI [of _ r']) (cases stop; simp)
  qed
qed

section \<open>One request of \<open>update_from_output\<close>\<close>

abbreviation drafts_of :: "scheduler_output \<Rightarrow> string \<Rightarrow> int list" where
  "drafts_of so rid \<equiv> (case map_of (so_spec_decode_tokens so) rid of None \<Rightarrow> [] | Some ds \<Rightarrow> ds)"

abbreviation generated_for :: "model_runner_output \<Rightarrow> string \<Rightarrow> int list" where
  "generated_for out rid \<equiv> (case indexed out (sampled_token_ids out) rid of None \<Rightarrow> [] | Some ts \<Rightarrow> ts)"

abbreviation pooled_for :: "model_runner_output \<Rightarrow> string \<Rightarrow> rat list option" where
  "pooled_for out rid \<equiv> (case indexed out (pooler_output out) rid of None \<Rightarrow> None | Some v \<Rightarrow> v)"

text \<open>
  What the scheduler relies on from the worker: nothing is sampled while a prompt is being
  computed, otherwise one token and at most one more for each draft; and a pooling request
  whose prompt is complete gets its vector.
\<close>

definition answers :: "scheduler_output \<Rightarrow> model_runner_output \<Rightarrow> string \<Rightarrow> request \<Rightarrow> bool" where
  "answers so out rid r \<longleftrightarrow>
     (if use_pooling r then num_tokens r \<le> num_computed_tokens r \<longrightarrow> pooled_for out rid \<noteq> None
      else if num_computed_tokens r < num_tokens r then generated_for out rid = []
      else 1 \<le> length (generated_for out rid) \<and> length (generated_for out rid) \<le> 1 + length (drafts_of so rid))"

definition worker_ok :: "scheduler_output \<Rightarrow> model_runner_output \<Rightarrow> scheduler \<Rightarrow> bool" where
  "worker_ok so out s \<longleftrightarrow>
     (\<forall>rid r. rid \<in> set (map fst (so_num_scheduled_tokens so)) \<longrightarrow> table s rid = Some r \<longrightarrow> answers so out rid r)"

text \<open>A request of the step, before and after its results are folded in.\<close>

definition pending :: "scheduler_output \<Rightarrow> model_runner_output \<Rightarrow> scheduler \<Rightarrow> string \<Rightarrow> bool" where
  "pending so out s rid \<longleftrightarrow>
     (case map_of (so_num_scheduled_tokens so) rid of
        None \<Rightarrow> behind s rid
      | Some n \<Rightarrow> 1 \<le> n \<and> advanced s (so_spec_decode_tokens so) rid \<and> answers so out rid (req s rid))"

lemma pending_cong:
  "pending so out s rid \<Longrightarrow> table s' rid = table s rid \<Longrightarrow> conf s' = conf s \<Longrightarrow> pending so out s' rid"
  by (simp add: pending_def behind_def advanced_def req_def table_def cong: option.case_cong)

definition fold_inv :: "hash_fn \<Rightarrow> scheduler_output \<Rightarrow> model_runner_output \<Rightarrow> scheduler_config \<Rightarrow>
    string list \<Rightarrow> string list \<Rightarrow> scheduler \<Rightarrow> bool" where
  "fold_inv H so out cf still rest s \<longleftrightarrow>
     core_inv H (s\<lparr>running := still @ rest\<rparr>) \<and> conf s = cf \<and> queue_list (skipped_waiting s) = [] \<and>
     (\<forall>rid\<in>set still. behind s rid) \<and> (\<forall>rid\<in>set rest. pending so out s rid)"

lemma count_drafts_parts [simp]:
  "connector (count_drafts d g s) = connector s" "kvm (count_drafts d g s) = kvm s" "conf (count_drafts d g s) = conf s"
  "table (count_drafts d g s) = table s" "waiting (count_drafts d g s) = waiting s" "requests (count_drafts d g s) = requests s"
  "skipped_waiting (count_drafts d g s) = skipped_waiting s" "encoder (count_drafts d g s) = encoder s"
  "req (count_drafts d g s) = req s"
  by (simp_all add: count_drafts_def req_def fun_eq_iff)

text \<open>
  Rolling back leaves the request one token behind its new end, whatever was accepted; a chunk of
  a prompt is not rolled back at all.
\<close>

lemma roll_back_behind:
  assumes adv: "case map_of (so_spec_decode_tokens so) rid of
        None \<Rightarrow> num_computed_tokens r \<le> num_tokens r
      | Some ds \<Rightarrow> ds \<noteq> [] \<and> num_computed_tokens r = num_tokens r + int (length ds)"
    and ans: "answers so out rid r" and np: "\<not> use_pooling r"
  shows "num_computed_tokens (roll_back (length (drafts_of so rid)) (generated_for out rid) r) <
      num_tokens r + int (length (generated_for out rid))"
    and "num_computed_tokens (roll_back (length (drafts_of so rid)) (generated_for out rid) r) \<le> num_computed_tokens r"
    and "0 \<le> num_computed_tokens r \<Longrightarrow> 0 < num_tokens r \<Longrightarrow>
      0 \<le> num_computed_tokens (roll_back (length (drafts_of so rid)) (generated_for out rid) r)"
proof -
  let ?g = "generated_for out rid" and ?ds = "drafts_of so rid"
  have "num_computed_tokens (roll_back (length ?ds) ?g r) < num_tokens r + int (length ?g) \<and>
    num_computed_tokens (roll_back (length ?ds) ?g r) \<le> num_computed_tokens r \<and>
    (0 \<le> num_computed_tokens r \<longrightarrow> 0 < num_tokens r \<longrightarrow> 0 \<le> num_computed_tokens (roll_back (length ?ds) ?g r))"
  proof (cases "map_of (so_spec_decode_tokens so) rid")
    case None
    then have "roll_back (length ?ds) ?g r = r" by (simp add: roll_back_def Let_def)
    moreover have "num_computed_tokens r < num_tokens r + int (length ?g)"
      using ans np adv None by (auto simp: answers_def split: if_splits)
    ultimately show ?thesis by simp
  next
    case (Some ds)
    then have ds: "?ds = ds" "ds \<noteq> []" "num_computed_tokens r = num_tokens r + int (length ds)" using adv by simp_all
    have g: "1 \<le> length ?g" "length ?g \<le> 1 + length ds" using ans np ds Some by (auto simp: answers_def split: if_splits)
    have "num_computed_tokens (roll_back (length ?ds) ?g r) = num_tokens r + int (length ?g) - 1"
      unfolding ds(1) using ds(2,3) g by (auto simp: roll_back_def Let_def max_def)
    then show ?thesis using g ds(3) by simp
  qed
  then show "num_computed_tokens (roll_back (length ?ds) ?g r) < num_tokens r + int (length ?g)"
    "num_computed_tokens (roll_back (length ?ds) ?g r) \<le> num_computed_tokens r"
    "0 \<le> num_computed_tokens r \<Longrightarrow> 0 < num_tokens r \<Longrightarrow> 0 \<le> num_computed_tokens (roll_back (length ?ds) ?g r)"
    by simp_all
qed

lemma fold_stay:
  assumes inv: "fold_inv H so out cf still (rid # rest) s" and r: "table s rid = Some r" "same_frame r r'"
    and ok: "status r' = RUNNING" "has_slots (kvm s) rid (num_computed_tokens r')"
      "request_ok H cf (kvm_conf (kvm s)) (cache_size (encoder s)) rid r'" "num_computed_tokens r' < num_tokens r'"
    and s': "connector s' = connector s" "kvm s' = kvm s" "conf s' = conf s" "table s' = (table s)(rid \<mapsto> r')"
      "waiting s' = waiting s" "skipped_waiting s' = skipped_waiting s" "encoder s' = encoder s"
  shows "fold_inv H so out cf (still @ [rid]) rest s'"
proof -
  let ?S = "s\<lparr>running := still @ rid # rest\<rparr>"
  have core: "core_inv H ?S" and cf: "conf s = cf" using inv by (simp_all add: fold_inv_def)
  have "distinct (running ?S)" using core_parts(5) [OF core] unfolding place_ok_def by (metis distinct_append)
  then have d: "rid \<notin> set rest" "rid \<notin> set still" by simp_all
  have "core_inv H (set_req rid r' ?S)"
    by (rule core_replace_running [OF core _ _ r(2) ok(1)]) (use r ok cf in simp_all)
  then have "core_inv H (s'\<lparr>running := (still @ [rid]) @ rest\<rparr>)"
    by (rule iffD1 [OF core_inv_cong [symmetric], rotated -1]) (use s' in simp_all)
  moreover have "\<forall>x\<in>set (still @ [rid]). behind s' x"
    using inv s'(4) ok(4) d by (auto simp: fold_inv_def behind_def)
  moreover have "\<forall>x\<in>set rest. pending so out s' x"
  proof
    fix x assume x: "x \<in> set rest"
    then have "pending so out s x" using inv by (simp add: fold_inv_def)
    then show "pending so out s' x" by (rule pending_cong) (use s' x d in auto)
  qed
  ultimately show ?thesis using inv s' unfolding fold_inv_def by simp
qed

lemma fold_leave:
  assumes inv: "fold_inv H so out cf still (rid # rest) s" and r: "table s rid = Some r" "mm_features r' = mm_features r"
    "request_id r' = rid" "is_finished r'"
    and s0: "connector s0 = connector s" "kvm s0 = kvm s" "conf s0 = conf s" "requests s0 = requests s"
      "waiting s0 = waiting s" "skipped_waiting s0 = skipped_waiting s" "encoder s0 = encoder s"
  shows "\<exists>s1. free_request r' (set_req rid r' s0) = Inr s1 \<and> fold_inv H so out cf still rest s1"
proof -
  let ?S = "s\<lparr>running := still @ rid # rest\<rparr>"
  have core: "core_inv H ?S" and cf: "conf s = cf" using inv by (simp_all add: fold_inv_def)
  note P = core_parts [OF core]
  have "distinct (running ?S)" using P(5) unfolding place_ok_def by (metis distinct_append)
  then have d: "rid \<notin> set rest" "rid \<notin> set still" by simp_all
  have run: "rid \<in> set (running ?S)" by simp
  note w = run_waiting_disjoint [OF core run]
  have ids: "\<forall>i\<in>set (ids_of (encoder s) rid). i < length (mm_features r')"
  proof (cases "ids_of (encoder s) rid = []")
    case False
    then show ?thesis using P(9) r(1,2) unfolding enc_ok_def by fastforce
  qed simp
  have con: "connector (set_req rid r' s0) = None" "kvm_inv (kvm (set_req rid r' s0))"
    "enc_inv (encoder (set_req rid r' s0))"
    "\<forall>i\<in>set (ids_of (encoder (set_req rid r' s0)) (request_id r')). i < length (mm_features r')"
    using P(1,2,9) s0 ids r(3) by (simp_all add: enc_ok_def)
  from free_request_ok [OF con r(4)] obtain k c f where
    F: "free_request r' (set_req rid r' s0) = Inr ((set_req rid r' s0)\<lparr>encoder := c, kvm := k, finished_req_ids := f,
      requests := AList.delete rid (requests (set_req rid r' s0))\<rparr>)"
    "kvm_inv k" "kvm_conf k = kvm_conf (kvm s)" "holds_none k rid"
    "\<forall>x. x \<noteq> rid \<longrightarrow> kvm_get_blocks k x = kvm_get_blocks (kvm s) x"
    "enc_inv c" "cache_size c = cache_size (encoder s)" "ids_of c rid = []"
    "\<forall>x. x \<noteq> rid \<longrightarrow> ids_of c x = ids_of (encoder s) x"
    using s0 r(3) by auto
  define s1 where "s1 = (set_req rid r' s0)\<lparr>encoder := c, kvm := k, finished_req_ids := f,
      requests := AList.delete rid (requests (set_req rid r' s0))\<rparr>"
  have s1: "connector s1 = None" "conf s1 = cf" "table s1 = (table s)(rid := None)" "skipped_waiting s1 = skipped_waiting s"
    "waiting s1 = waiting s" "kvm s1 = k" "encoder s1 = c"
    using P(1) s0 cf by (simp_all add: s1_def table_def delete_conv' update_conv' fun_eq_iff)
  have "core_inv H (s1\<lparr>running := still @ rest\<rparr>)"
  proof (rule core_forget [OF core])
    show "rid \<notin> set (queue_ids (skipped_waiting ?S))" by (rule w(2))
    show "running (s1\<lparr>running := still @ rest\<rparr>) = remove1 rid (running ?S)" using d by (simp add: remove1_append)
    have "\<forall>e\<in>set (queue_list (waiting s)). entry_id e \<noteq> rid" using w(1) by auto
    then show "queue_list (waiting (s1\<lparr>running := still @ rest\<rparr>)) = filter (\<lambda>e. entry_id e \<noteq> rid) (queue_list (waiting ?S))"
      using s1 by (simp add: filter_id_conv)
    show "queue_wf (waiting (s1\<lparr>running := still @ rest\<rparr>))" using P(5) s1 by (simp add: place_ok_def)
  qed (use s1 F cf in simp_all)
  moreover have "\<forall>x\<in>set still. behind s1 x"
  proof
    fix x assume x: "x \<in> set still"
    then have "behind s x" using inv by (simp add: fold_inv_def)
    then show "behind s1 x" by (rule behind_cong) (use s1(3) x d in auto)
  qed
  moreover have "\<forall>x\<in>set rest. pending so out s1 x"
  proof
    fix x assume x: "x \<in> set rest"
    then have "pending so out s x" using inv by (simp add: fold_inv_def)
    then show "pending so out s1 x" by (rule pending_cong) (use s1 cf x d in auto)
  qed
  moreover have "queue_list (skipped_waiting s1) = []" using inv s1(4) by (simp add: fold_inv_def)
  ultimately have "fold_inv H so out cf still rest s1" using s1(2) by (simp add: fold_inv_def)
  then show ?thesis using F(1) unfolding s1_def by blast
qed

lemma fold_request_ok:
  assumes inv: "fold_inv H so out cf still (rid # rest) s"
  shows "\<exists>still' outs' s'. fold_request H so out rid (still, outs, s) = Inr (still', outs', s') \<and>
    fold_inv H so out cf still' rest s'"
proof -
  let ?S = "s\<lparr>running := still @ rid # rest\<rparr>"
  have core: "core_inv H ?S" and cf: "conf s = cf" and pend: "pending so out s rid"
    using inv by (simp_all add: fold_inv_def)
  have run: "rid \<in> set (running ?S)" by simp
  obtain r where "table ?S rid = Some r" "status r = RUNNING" "request_id r = rid" "0 \<le> num_computed_tokens r"
    "has_slots (kvm ?S) rid (num_computed_tokens r)" using core_running [OF core run] by metis
  then have tab: "table s rid = Some r" "status r = RUNNING" "request_id r = rid" "0 \<le> num_computed_tokens r"
    "has_slots (kvm s) rid (num_computed_tokens r)" by simp_all
  have rq: "req s rid = r" by (rule req_table [OF tab(1)])
  have ok: "request_ok H cf (kvm_conf (kvm s)) (cache_size (encoder s)) rid r"
    using core_parts(4) [OF core] tab(1) cf by (simp add: table_ok_def)
  let ?g = "generated_for out rid" and ?ds = "drafts_of so rid" and ?P = "pooled_for out rid"
  let ?s0 = "count_drafts (length ?ds) ?g s"
  define r0 where "r0 = roll_back (length ?ds) ?g r"
  show ?thesis
  proof (cases "map_of (so_num_scheduled_tokens so) rid")
    case None
    then have "behind s rid" using pend by (simp add: pending_def)
    then have "num_computed_tokens r < num_tokens r" using tab(1) by (simp add: behind_def)
    then have "fold_inv H so out cf (still @ [rid]) rest s"
      by (intro fold_stay [OF inv tab(1) _ tab(2,5) ok]) (use tab(1) in \<open>auto simp: same_frame_def\<close>)
    then show ?thesis using None by (simp add: fold_request_def)
  next
    case (Some n)
    then have n: "n \<noteq> 0" and ans: "answers so out rid r"
      and adv: "advanced s (so_spec_decode_tokens so) rid" using pend rq by (simp_all add: pending_def)
    have step: "fold_request H so out rid (still, outs, s) =
      (let pooled = (if use_pooling r0 then ?P else None);
           r1 = (if pooled \<noteq> None then r0\<lparr>status := FINISHED_STOPPED\<rparr> else r0)
       in rbind (if ?g \<noteq> [] \<and> \<not> use_pooling r1
                 then update_request_with_output H (max_model_len (conf s)) ?g r1
                 else Inr ([], pooled \<noteq> None, r1)) (\<lambda>(new_toks, stopped, r2).
          rbind (if stopped then free_request r2 (set_req rid r2 ?s0) else Inr (set_req rid r2 ?s0)) (\<lambda>s1.
          let still' = (if stopped then still else still @ [rid])
          in if new_toks = [] \<and> \<not> stopped then Inr (still', outs, s1)
             else
               let (evs, r3) = take_events r2;
                   o' = \<lparr>eco_request_id = rid, eco_new_token_ids = new_toks,
                         eco_finish_reason = get_finished_reason r2, eco_stop_reason = map_option Inl (stop_reason r2),
                         eco_events = evs, eco_num_cached_tokens = num_cached_tokens r2,
                         eco_pooling_output = pooled\<rparr>
               in Inr (still', add_output (client_index r2) o' outs,
                       (if stopped then s1 else set_req rid r3 s1)))))"
      using n by (simp only: fold_request_def prod.case Some option.case if_False Let_def count_drafts_parts rq r0_def)
    have r0: "same_request r r0" "use_pooling r0 = use_pooling r" "status r0 = RUNNING" "request_id r0 = rid"
      using tab(2,3) by (simp_all add: r0_def roll_back_def Let_def)
    have adv': "case map_of (so_spec_decode_tokens so) rid of
        None \<Rightarrow> num_computed_tokens r \<le> num_tokens r
      | Some ds \<Rightarrow> ds \<noteq> [] \<and> num_computed_tokens r = num_tokens r + int (length ds)"
      using adv tab(1) by (auto simp: advanced_def)
    have s0: "connector ?s0 = connector s" "kvm ?s0 = kvm s" "conf ?s0 = conf s" "requests ?s0 = requests s"
      "waiting ?s0 = waiting s" "skipped_waiting ?s0 = skipped_waiting s" "encoder ?s0 = encoder s" by simp_all
    have quiet: "\<exists>still' outs' s'. fold_request H so out rid (still, outs, s) = Inr (still', outs', s') \<and>
        fold_inv H so out cf still' rest s'"
      if lt: "num_computed_tokens r < num_tokens r" and none: "?g = [] \<or> use_pooling r" "\<not> use_pooling r \<or> ?P = None"
    proof -
      have "map_of (so_spec_decode_tokens so) rid = None" using adv' lt by (cases "map_of (so_spec_decode_tokens so) rid") auto
      then have "r0 = r" by (simp add: r0_def roll_back_def Let_def)
      then have "fold_request H so out rid (still, outs, s) = Inr (still @ [rid], outs, set_req rid r ?s0)"
        unfolding step using none by auto
      moreover have "fold_inv H so out cf (still @ [rid]) rest (set_req rid r ?s0)"
        by (rule fold_stay [OF inv tab(1) _ tab(2,5) ok lt]) (simp_all add: same_frame_def)
      ultimately show ?thesis by blast
    qed
    show ?thesis
    proof (cases "use_pooling r")
      case True
      show ?thesis
      proof (cases "?P = None")
        case True
        then show ?thesis using quiet ans \<open>use_pooling r\<close> by (auto simp: answers_def not_le)
      next
        case False
        define r1 where "r1 = r0\<lparr>status := FINISHED_STOPPED\<rparr>"
        have p1: "use_pooling r1" using r0(2) \<open>use_pooling r\<close> by (simp add: r1_def)
        have "mm_features r1 = mm_features r" "request_id r1 = rid" "is_finished r1"
          using r0 by (simp_all add: r1_def same_request_def is_finished_def status_is_finished_iff)
        from fold_leave [OF inv tab(1) this s0] obtain s1 where
          L: "free_request r1 (set_req rid r1 ?s0) = Inr s1" "fold_inv H so out cf still rest s1" by blast
        have "\<exists>outs'. fold_request H so out rid (still, outs, s) = Inr (still, outs', s1)"
          unfolding step using False r0(2) \<open>use_pooling r\<close> p1 L(1)
          by (auto simp: Let_def r1_def [symmetric] split_beta)
        then show ?thesis using L(2) by blast
      qed
    next
      case np: False
      show ?thesis
      proof (cases "?g = []")
        case True
        then show ?thesis using quiet ans np by (auto simp: answers_def split: if_splits)
      next
        case False
        note B = roll_back_behind [OF adv' ans np, folded r0_def]
        have pos: "0 < num_tokens r" using ok by (simp add: request_ok_def)
        note ok0 = request_ok_same [OF ok r0(1) B(3) [OF tab(4) pos]]
        obtain sp where sp: "sampling_params r0 = Some sp"
          using ok0 np r0(2) by (auto simp: request_ok_def budget_ok_def split: option.splits)
        from update_request_ok [OF ok0 sp, of ?g] obtain ts' stop r2 where
          U: "update_request_with_output H (max_model_len cf) ?g r0 = Inr (ts', stop, r2)" "request_id r2 = request_id r0"
          "mm_features r2 = mm_features r0" "same_frame r0 r2"
          "if stop then is_finished r2 \<and> ts' \<noteq> []
           else ts' = ?g \<and> request_ok H cf (kvm_conf (kvm s)) (cache_size (encoder s)) rid r2 \<and> status r2 = status r0 \<and>
             use_pooling r2 = use_pooling r0 \<and> num_tokens r2 = num_tokens r0 + int (length ?g) \<and>
             num_computed_tokens r2 = num_computed_tokens r0" by blast
        show ?thesis
        proof (cases stop)
          case True
          have "mm_features r2 = mm_features r" "request_id r2 = rid" "is_finished r2"
            using r0(1,4) U True by (simp_all add: same_request_def)
          from fold_leave [OF inv tab(1) this s0] obtain s1 where
            L: "free_request r2 (set_req rid r2 ?s0) = Inr s1" "fold_inv H so out cf still rest s1" by blast
          have "\<exists>outs'. fold_request H so out rid (still, outs, s) = Inr (still, outs', s1)"
            unfolding step using False np r0(2) U(1) L(1) True cf by (simp add: Let_def split_beta)
          then show ?thesis using L(2) by blast
        next
          case go: False
          define r3 where "r3 = snd (take_events r2)"
          have U': "ts' = ?g" "request_ok H cf (kvm_conf (kvm s)) (cache_size (encoder s)) rid r2" "status r2 = status r0"
            "num_tokens r2 = num_tokens r0 + int (length ?g)" "num_computed_tokens r2 = num_computed_tokens r0"
            using U(5) go by simp_all
          have r3: "r3 = r2 \<or> r3 = r2\<lparr>events := []\<rparr>" by (simp add: r3_def take_events_def)
          have same3: "same_request r2 r3" "num_computed_tokens r3 = num_computed_tokens r2" "status r3 = status r2"
            "num_tokens r3 = num_tokens r2" using r3 by (auto simp: same_request_def num_tokens_def)
          have "\<exists>outs'. fold_request H so out rid (still, outs, s) =
              Inr (still @ [rid], outs', set_req rid r3 (set_req rid r2 ?s0))"
            unfolding step using False np r0(2) U(1) U'(1) go cf by (simp add: Let_def split_beta r3_def)
          moreover have "fold_inv H so out cf (still @ [rid]) rest (set_req rid r3 (set_req rid r2 ?s0))"
          proof (rule fold_stay [OF inv tab(1)])
            have "same_frame r r0" by (rule same_request_frame [OF r0(1)])
            moreover have "same_frame r2 r3" by (rule same_request_frame [OF same3(1)])
            ultimately show "same_frame r r3" using U(4) by (simp add: same_frame_def)
            show "status r3 = RUNNING" using same3(3) U'(3) r0(3) by simp
            show "has_slots (kvm s) rid (num_computed_tokens r3)"
              by (rule has_slots_mono [OF tab(5)]) (use same3(2) U'(5) B(2) in simp)
            have "0 \<le> num_computed_tokens r3" using same3(2) U'(5) B(3) [OF tab(4) pos] by simp
            then show "request_ok H cf (kvm_conf (kvm s)) (cache_size (encoder s)) rid r3"
              by (rule request_ok_same [OF U'(2) same3(1)])
            show "num_computed_tokens r3 < num_tokens r3"
              using same3(2,4) U'(4,5) B(1) same_request_num_tokens [OF r0(1)] by simp
          qed simp_all
          ultimately show ?thesis by blast
        qed
      qed
    qed
  qed
qed

section \<open>The whole update\<close>

lemma fold_requests_ok:
  assumes "fold_inv H so out cf still rest s"
  shows "\<exists>still' outs' s'. foldE (fold_request H so out) rest (still, outs, s) = Inr (still', outs', s') \<and>
    fold_inv H so out cf still' [] s'"
  using assms
proof (induction rest arbitrary: still outs s)
  case (Cons rid rest)
  from fold_request_ok [OF Cons.prems, of outs] obtain a b c where
    F: "fold_request H so out rid (still, outs, s) = Inr (a, b, c)" "fold_inv H so out cf a rest c" by blast
  from Cons.IH [OF F(2), of b] F(1) show ?case by simp
qed simp

lemma behind_inputs_ok:
  assumes "enc_inv c" and "\<forall>i\<in>set is. i < length (mm_features r)"
  shows "\<exists>c'. foldE (\<lambda>i c. rbind (feature_at r i) (\<lambda>f.
      if mm_position f + mm_length f \<le> num_computed_tokens r then free_encoder_input r i c else Inr c)) is c = Inr c' \<and>
    enc_step r c c'"
  using assms
proof (induction "is" arbitrary: c)
  case Nil
  then show ?case by (simp add: enc_step_refl)
next
  case (Cons i "is")
  have i: "i < length (mm_features r)" using Cons.prems(2) by simp
  let ?f = "mm_features r ! i"
  have f: "feature_at r i = Inr ?f" using i by (simp add: feature_at_def)
  obtain c1 where c1: "(if mm_position ?f + mm_length ?f \<le> num_computed_tokens r then free_encoder_input r i c else Inr c) = Inr c1"
    "enc_step r c c1"
  proof (cases "mm_position ?f + mm_length ?f \<le> num_computed_tokens r")
    case True
    then show ?thesis using that free_input_step [OF Cons.prems(1) i] by auto
  next
    case False
    then show ?thesis using that [of c] enc_step_refl [OF Cons.prems(1)] by simp
  qed
  have "\<forall>i\<in>set is. i < length (mm_features r)" using Cons.prems(2) by simp
  from Cons.IH [OF enc_step_inv [OF c1(2)] this] obtain c' where
    "foldE (\<lambda>i c. rbind (feature_at r i) (\<lambda>f.
      if mm_position f + mm_length f \<le> num_computed_tokens r then free_encoder_input r i c else Inr c)) is c1 = Inr c'"
    "enc_step r c1 c'" by blast
  then show ?case using f c1 enc_step_trans [OF c1(2)] by auto
qed

lemma free_encoder_inputs_ok:
  assumes "enc_inv (encoder s)" and "\<forall>i\<in>set (ids_of (encoder s) (request_id r)). i < length (mm_features r)"
  shows "\<exists>c. free_encoder_inputs r s = Inr (s\<lparr>encoder := c\<rparr>) \<and> enc_step r (encoder s) c"
  using behind_inputs_ok [OF assms] by (auto simp: free_encoder_inputs_def get_cached_input_ids_of)

text \<open>Shedding keeps everything but the blocks and the encoder references that are behind.\<close>

lemma shed_request_ok:
  assumes core: "core_inv H (s\<lparr>running := run\<rparr>)" and rid: "rid \<in> set run"
  shows "\<exists>k c. shed_request rid s = Inr (s\<lparr>kvm := k, encoder := c\<rparr>) \<and> core_inv H (s\<lparr>kvm := k, encoder := c, running := run\<rparr>)"
proof -
  let ?S = "s\<lparr>running := run\<rparr>"
  note P = core_parts [OF core]
  have run: "rid \<in> set (running ?S)" using rid by simp
  obtain r where "table ?S rid = Some r" "request_id r = rid" "has_slots (kvm ?S) rid (num_computed_tokens r)"
    using core_running [OF core run] by metis
  then have r: "table s rid = Some r" "request_id r = rid" "has_slots (kvm s) rid (num_computed_tokens r)" by simp_all
  have rq: "req s rid = r" by (rule req_table [OF r(1)])
  have "kvm_inv (kvm s)" using P(2) by simp
  from shed_holds [OF this, of r] r(2,3) obtain k where K: "remove_skipped_blocks r (kvm s) = Inr k" "kvm_inv k"
    "kvm_conf k = kvm_conf (kvm s)" "has_slots k rid (num_computed_tokens r)"
    "\<forall>x. x \<noteq> rid \<longrightarrow> kvm_get_blocks k x = kvm_get_blocks (kvm s) x" by auto
  have core1: "core_inv H (?S\<lparr>kvm := k\<rparr>)"
    by (rule core_kvm_running [OF core run]) (use r K in auto)
  show ?thesis
  proof (cases "mm_features r = []")
    case True
    have "shed_request rid s = Inr (s\<lparr>kvm := k, encoder := encoder s\<rparr>)"
      using K(1) True rq by (simp add: shed_request_def Let_def)
    moreover have "core_inv H (s\<lparr>kvm := k, encoder := encoder s, running := run\<rparr>)"
      by (rule iffD1 [OF core_inv_cong [symmetric], rotated -1, OF core1]) simp_all
    ultimately show ?thesis by blast
  next
    case False
    have ids: "\<forall>i\<in>set (ids_of (encoder s) (request_id r)). i < length (mm_features r)"
    proof (cases "ids_of (encoder s) rid = []")
      case False
      then show ?thesis using P(9) r unfolding enc_ok_def by fastforce
    qed (use r in simp)
    have "enc_inv (encoder (s\<lparr>kvm := k\<rparr>))" using P(9) by (simp add: enc_ok_def)
    from free_encoder_inputs_ok [OF this, of r] ids obtain c where
      C: "free_encoder_inputs r (s\<lparr>kvm := k\<rparr>) = Inr (s\<lparr>kvm := k, encoder := c\<rparr>)" "enc_step r (encoder s) c" by auto
    have "core_inv H (?S\<lparr>kvm := k, encoder := c\<rparr>)"
      by (rule core_encoder [OF core1, of r]) (use C(2) r in simp_all)
    then have "core_inv H (s\<lparr>kvm := k, encoder := c, running := run\<rparr>)"
      by (rule iffD1 [OF core_inv_cong [symmetric], rotated -1]) simp_all
    moreover have "shed_request rid s = Inr (s\<lparr>kvm := k, encoder := c\<rparr>)"
      using K(1) False rq C(1) by (simp add: shed_request_def Let_def)
    ultimately show ?thesis by blast
  qed
qed

lemma shed_requests_ok:
  assumes "core_inv H (s\<lparr>running := run\<rparr>)" and "set rids \<subseteq> set run"
  shows "\<exists>s'. foldE shed_request rids s = Inr s' \<and> core_inv H (s'\<lparr>running := run\<rparr>) \<and> table s' = table s \<and>
    conf s' = conf s \<and> skipped_waiting s' = skipped_waiting s"
  using assms
proof (induction rids arbitrary: s)
  case (Cons rid rids)
  then have "rid \<in> set run" by simp
  from shed_request_ok [OF Cons.prems(1) this] obtain k c where
    S: "shed_request rid s = Inr (s\<lparr>kvm := k, encoder := c\<rparr>)" "core_inv H (s\<lparr>kvm := k, encoder := c, running := run\<rparr>)" by blast
  have "set rids \<subseteq> set run" using Cons.prems(2) by simp
  from Cons.IH [OF S(2) this] S(1) show ?case by auto
qed simp

lemma store_drafts_ok:
  assumes core: "core_inv H (s\<lparr>running := run\<rparr>)" and "rid \<in> set run"
  shows "core_inv H ((store_drafts out rid s)\<lparr>running := run\<rparr>)"
    and "conf (store_drafts out rid s) = conf s" and "skipped_waiting (store_drafts out rid s) = skipped_waiting s"
    and "behind s x \<Longrightarrow> behind (store_drafts out rid s) x"
proof -
  let ?S = "s\<lparr>running := run\<rparr>"
  have run: "rid \<in> set (running ?S)" using assms(2) by simp
  obtain r where "table ?S rid = Some r" "status r = RUNNING" "0 \<le> num_computed_tokens r"
    "has_slots (kvm ?S) rid (num_computed_tokens r)" using core_running [OF core run] by metis
  then have r: "table s rid = Some r" "status r = RUNNING" "0 \<le> num_computed_tokens r"
    "has_slots (kvm s) rid (num_computed_tokens r)" by simp_all
  have rq: "req s rid = r" by (rule req_table [OF r(1)])
  have cases: "store_drafts out rid s = s \<or> (\<exists>ds. store_drafts out rid s = set_req rid (r\<lparr>spec_token_ids := ds\<rparr>) s)"
    by (auto simp: store_drafts_def rq split: option.split)
  have upd: "core_inv H ((set_req rid (r\<lparr>spec_token_ids := ds\<rparr>) s)\<lparr>running := run\<rparr>)" for ds
  proof -
    have "core_inv H (set_req rid (r\<lparr>spec_token_ids := ds\<rparr>) ?S)"
      by (rule core_set_running [OF core run, where r = r]) (simp_all add: r)
    then show ?thesis by (rule iffD1 [OF core_inv_cong [symmetric], rotated -1]) simp_all
  qed
  show "core_inv H ((store_drafts out rid s)\<lparr>running := run\<rparr>)" using cases core upd by auto
  show "conf (store_drafts out rid s) = conf s" "skipped_waiting (store_drafts out rid s) = skipped_waiting s"
    using cases by auto
  show "behind (store_drafts out rid s) x" if "behind s x"
    using cases that r(1) by (auto simp: behind_def num_tokens_def)
qed

lemma store_all_ok:
  assumes "core_inv H (s\<lparr>running := run\<rparr>)" and "set rids \<subseteq> set run"
  shows "core_inv H ((fold (store_drafts out) rids s)\<lparr>running := run\<rparr>) \<and> conf (fold (store_drafts out) rids s) = conf s \<and>
    skipped_waiting (fold (store_drafts out) rids s) = skipped_waiting s \<and>
    (\<forall>x. behind s x \<longrightarrow> behind (fold (store_drafts out) rids s) x)"
  using assms
proof (induction rids arbitrary: s)
  case (Cons rid rids)
  then have rid: "rid \<in> set run" "set rids \<subseteq> set run" by simp_all
  note S = store_drafts_ok [OF Cons.prems(1) rid(1), where out = out]
  from Cons.IH [OF S(1) rid(2)] S(2-4) show ?case by auto
qed simp

text \<open>Folding back returns and leaves a scheduler that is ready for its next step.\<close>

lemma update_from_output_ok:
  assumes fl: "in_flight H so s" and w: "worker_ok so out s"
  shows "\<exists>outs s'. update_from_output H so out s = Inr (outs, s') \<and> ready_inv H s' \<and> conf s' = conf s"
proof -
  have core: "core_inv H s" and sk: "queue_list (skipped_waiting s) = []" using fl by (simp_all add: in_flight_def)
  have "\<forall>rid\<in>set (running s). pending so out s rid"
  proof
    fix rid assume rid: "rid \<in> set (running s)"
    then have A: "case map_of (so_num_scheduled_tokens so) rid of None \<Rightarrow> behind s rid
        | Some n \<Rightarrow> 1 \<le> n \<and> advanced s (so_spec_decode_tokens so) rid" using fl by (simp add: in_flight_def)
    show "pending so out s rid"
    proof (cases "map_of (so_num_scheduled_tokens so) rid")
      case None
      then show ?thesis using A by (simp add: pending_def)
    next
      case (Some n)
      then have "rid \<in> set (map fst (so_num_scheduled_tokens so))" by (auto dest: map_of_SomeD intro: rev_image_eqI)
      moreover obtain r where "table s rid = Some r" "req s rid = r" using core_running [OF core rid] by metis
      ultimately have "answers so out rid (req s rid)" using w by (simp add: worker_ok_def)
      then show ?thesis using A Some by (simp add: pending_def)
    qed
  qed
  then have "fold_inv H so out (conf s) [] (running s) s" using core sk by (simp add: fold_inv_def)
  from fold_requests_ok [OF this, of "[]"] obtain still outs s1 where
    F: "foldE (fold_request H so out) (running s) ([], [], s) = Inr (still, outs, s1)"
    "fold_inv H so out (conf s) still [] s1" by blast
  then have core1: "core_inv H (s1\<lparr>running := still\<rparr>)" and beh: "\<forall>x\<in>set still. behind s1 x" and c1: "conf s1 = conf s"
    and sk1: "queue_list (skipped_waiting s1) = []" by (simp_all add: fold_inv_def)
  from shed_requests_ok [OF core1 subset_refl] obtain s2 where
    S: "foldE shed_request still s1 = Inr s2" "core_inv H (s2\<lparr>running := still\<rparr>)" "table s2 = table s1" "conf s2 = conf s1"
    "skipped_waiting s2 = skipped_waiting s1" by blast
  have beh2: "\<forall>x\<in>set still. behind s2 x" using beh S(3) by (simp add: behind_def)
  define s3 where "s3 = (fold (store_drafts out) still s2)\<lparr>running := still\<rparr>"
  note D = store_all_ok [OF S(2) subset_refl, where out = out]
  have "ready_inv H s3"
    using D beh2 S(5) sk1 by (auto simp: ready_inv_def s3_def behind_def)
  moreover have "conf s3 = conf s" using D S(4) c1 by (simp add: s3_def)
  moreover have "update_from_output H so out s = Inr (outs, s3)"
    using F(1) S(1) by (simp add: update_from_output_def Let_def s3_def)
  ultimately show ?thesis by blast
qed

section \<open>Requests that come and go from outside\<close>

lemma live_not_finished: "waiting_status x \<or> x = RUNNING \<Longrightarrow> \<not> status_is_finished x"
  by (auto simp: waiting_status_def status_is_finished_iff)

lemma entry_of_id:
  assumes core: "core_inv H s" and e: "e \<in> set (queue_list (waiting s))" "entry_id e = rid" and r: "table s rid = Some r"
  shows "e = sort_key r"
proof -
  have "e \<in> set (queue_list (waiting s) @ queue_list (skipped_waiting s))" using e(1) by simp
  from core_waitingD(7) [OF core this] e(2) r show ?thesis by simp
qed

lemma finish_one_ok:
  assumes inv: "ready_inv H s" and st: "status_is_finished st"
  shows "\<exists>s'. finish_one st rid s = Inr s' \<and> ready_inv H s' \<and> conf s' = conf s \<and> table s' = (table s)(rid := None)"
proof (cases "table s rid")
  case None
  then show ?thesis using inv by (auto simp: finish_one_def table_def fun_upd_idem)
next
  case (Some r)
  have core: "core_inv H s" and sk: "queue_list (skipped_waiting s) = []" and beh: "\<forall>x\<in>set (running s). behind s x"
    using inv by (simp_all add: ready_inv_def)
  note P = core_parts [OF core]
  have rid: "request_id r = rid" using P(4) Some by (simp add: table_ok_def request_ok_def)
  let ?wq = "filter (\<lambda>e. entry_id e \<noteq> rid) (queue_list (waiting s))"
  have wf: "queue_wf (waiting s)" using P(5) by (simp add: place_ok_def)
  have d: "distinct (running s @ queue_ids (waiting s) @ queue_ids (skipped_waiting s))"
    "set (running s @ queue_ids (waiting s) @ queue_ids (skipped_waiting s)) = dom (table s)"
    using P(5) by (simp_all add: place_ok_def)
  have place: "rid \<in> set (running s) \<or> rid \<in> set (queue_ids (waiting s))" using d(2) Some sk by auto
  have "\<exists>s1. (if status r = RUNNING
                then (if rid \<in> set (running s) then Inr (s\<lparr>running := remove1 rid (running s)\<rparr>) else Inl ValueError)
                else rbind (remove_request (sort_key r) (waiting s)) (\<lambda>q. Inr (s\<lparr>waiting := q\<rparr>))) = Inr s1 \<and>
      \<not> is_finished r \<and> running s1 = remove1 rid (running s) \<and> queue_list (waiting s1) = ?wq \<and> queue_wf (waiting s1) \<and>
      queue_policy (waiting s1) = queue_policy (waiting s) \<and> kvm s1 = kvm s \<and> encoder s1 = encoder s \<and>
      requests s1 = requests s \<and> connector s1 = connector s \<and> conf s1 = conf s \<and> skipped_waiting s1 = skipped_waiting s"
  proof (cases "rid \<in> set (running s)")
    case True
    have "status r = RUNNING" using core_running [OF core True] Some by (metis option.inject)
    moreover have "\<forall>e\<in>set (queue_list (waiting s)). entry_id e \<noteq> rid"
      using run_waiting_disjoint(1) [OF core True] by auto
    ultimately show ?thesis using True wf
      by (auto simp: filter_id_conv is_finished_def live_not_finished)
  next
    case False
    then obtain e where e: "e \<in> set (queue_list (waiting s))" "entry_id e = rid" using place by auto
    have key: "e = sort_key r" by (rule entry_of_id [OF core e Some])
    have "e \<in> set (queue_list (waiting s) @ queue_list (skipped_waiting s))" using e by simp
    from core_waitingD(4) [OF core this] e(2) Some have stat: "waiting_status (status r)" by simp
    then have nrun: "status r \<noteq> RUNNING" by (auto simp: waiting_status_def)
    have dl: "distinct (queue_list (waiting s))" using d(1) by (simp add: distinct_map)
    from rq.remove [OF wf dl, of "sort_key r"] e(1) key obtain q where
      Q: "remove_request (sort_key r) (waiting s) = Inr q" "queue_wf q"
      "queue_list q = filter (\<lambda>x. x \<noteq> sort_key r) (queue_list (waiting s))" by auto
    have "queue_list q = ?wq"
      unfolding Q(3) using entry_of_id [OF core _ _ Some] e(2) key by (intro filter_cong) auto
    moreover have "queue_policy q = queue_policy (waiting s)"
      using Q(1) by (cases "waiting s") (auto simp: rbind_eq_Inr_iff)
    moreover have "remove1 rid (running s) = running s" using False by (simp add: remove1_idem)
    ultimately show ?thesis using Q(1,2) nrun stat by (simp add: is_finished_def live_not_finished)
  qed
  then obtain s1 where S: "(if status r = RUNNING
                then (if rid \<in> set (running s) then Inr (s\<lparr>running := remove1 rid (running s)\<rparr>) else Inl ValueError)
                else rbind (remove_request (sort_key r) (waiting s)) (\<lambda>q. Inr (s\<lparr>waiting := q\<rparr>))) = Inr s1"
      "\<not> is_finished r" "running s1 = remove1 rid (running s)" "queue_list (waiting s1) = ?wq" "queue_wf (waiting s1)"
      "queue_policy (waiting s1) = queue_policy (waiting s)" "kvm s1 = kvm s" "encoder s1 = encoder s"
      "requests s1 = requests s" "connector s1 = connector s" "conf s1 = conf s" "skipped_waiting s1 = skipped_waiting s" by blast
  let ?r = "r\<lparr>status := st\<rparr>"
  have ids: "\<forall>i\<in>set (ids_of (encoder s) rid). i < length (mm_features r)"
  proof (cases "ids_of (encoder s) rid = []")
    case False
    then show ?thesis using P(9) Some unfolding enc_ok_def by fastforce
  qed simp
  have con: "connector (set_req rid ?r s1) = None" "kvm_inv (kvm (set_req rid ?r s1))" "enc_inv (encoder (set_req rid ?r s1))"
    "\<forall>i\<in>set (ids_of (encoder (set_req rid ?r s1)) (request_id ?r)). i < length (mm_features ?r)" "is_finished ?r"
    using P(1,2,9) S ids rid st by (simp_all add: enc_ok_def is_finished_def)
  from free_request_ok [OF con] obtain k c f where
    F: "free_request ?r (set_req rid ?r s1) = Inr ((set_req rid ?r s1)\<lparr>encoder := c, kvm := k, finished_req_ids := f,
      requests := AList.delete rid (requests (set_req rid ?r s1))\<rparr>)"
    "kvm_inv k" "kvm_conf k = kvm_conf (kvm s)" "holds_none k rid"
    "\<forall>x. x \<noteq> rid \<longrightarrow> kvm_get_blocks k x = kvm_get_blocks (kvm s) x"
    "enc_inv c" "cache_size c = cache_size (encoder s)" "ids_of c rid = []"
    "\<forall>x. x \<noteq> rid \<longrightarrow> ids_of c x = ids_of (encoder s) x"
    using S rid by auto
  define s2 where "s2 = (set_req rid ?r s1)\<lparr>encoder := c, kvm := k, finished_req_ids := f,
      requests := AList.delete rid (requests (set_req rid ?r s1))\<rparr>"
  have s2: "connector s2 = None" "conf s2 = conf s" "table s2 = (table s)(rid := None)" "skipped_waiting s2 = skipped_waiting s"
    "queue_list (waiting s2) = ?wq" "queue_wf (waiting s2)" "queue_policy (waiting s2) = queue_policy (waiting s)"
    "kvm s2 = k" "encoder s2 = c" "running s2 = remove1 rid (running s)"
    using P(1) S by (simp_all add: s2_def table_def delete_conv' update_conv' fun_eq_iff)
  have core2: "core_inv H s2" by (rule core_forget [OF core]) (use s2 F sk in simp_all)
  have dr: "distinct (running s)" using d(1) by simp
  have "\<forall>x\<in>set (running s2). behind s2 x"
  proof
    fix x assume "x \<in> set (running s2)"
    then have x: "x \<in> set (running s)" "x \<noteq> rid" using s2(10) dr by simp_all
    then have "behind s x" using beh by simp
    then show "behind s2 x" by (rule behind_cong) (use s2(3) x in simp)
  qed
  then have "ready_inv H s2" using core2 s2(4) sk by (simp add: ready_inv_def)
  moreover have "finish_one st rid s = Inr s2"
    using Some S(1,2) F(1) by (simp add: finish_one_def table_def s2_def Let_def)
  ultimately show ?thesis using s2(2,3) by auto
qed

lemma finish_requests_ok:
  assumes "ready_inv H s" and "status_is_finished st"
  shows "\<exists>s'. finish_requests rids st s = Inr s' \<and> ready_inv H s' \<and> conf s' = conf s \<and> dom (table s') = dom (table s) - set rids"
proof -
  have "\<exists>s'. foldE (finish_one st) rids s = Inr s' \<and> ready_inv H s' \<and> conf s' = conf s \<and> dom (table s') = dom (table s) - set rids"
    using assms(1)
  proof (induction rids arbitrary: s)
    case (Cons rid rids)
    from finish_one_ok [OF Cons.prems assms(2)] obtain s1 where
      S: "finish_one st rid s = Inr s1" "ready_inv H s1" "conf s1 = conf s" "table s1 = (table s)(rid := None)" by blast
    from Cons.IH [OF S(2)] obtain s2 where
      T: "foldE (finish_one st) rids s1 = Inr s2" "ready_inv H s2" "conf s2 = conf s1" "dom (table s2) = dom (table s1) - set rids" by blast
    have "dom (table s1) = dom (table s) - {rid}" unfolding S(4) by auto
    then have "dom (table s2) = dom (table s) - set (rid # rids)" using T(4) by auto
    then show ?case using S(1,3) T by simp
  qed simp
  then show ?thesis using assms(2) by (simp add: finish_requests_def)
qed

text \<open>What \<open>Request.from_engine_core_request\<close> builds from a request the frontend has checked.\<close>

definition admissible :: "scheduler \<Rightarrow> request \<Rightarrow> bool" where
  "admissible s r \<longleftrightarrow> request_id r \<notin> dom (table s) \<and>
     status r \<in> {WAITING, WAITING_FOR_STRUCTURED_OUTPUT_GRAMMAR} \<and> num_computed_tokens r = 0 \<and>
     0 < num_tokens r \<and> num_tokens r \<le> max_model_len (conf s) \<and>
     features_fit (max_num_encoder_input_tokens (conf s)) (cache_size (encoder s)) r \<and> budget_ok (conf s) r \<and>
     block_hasher r = None \<and> block_hashes r = []"

lemma add_request_ok:
  assumes inv: "ready_inv H s" and ad: "admissible s r"
  shows "ready_inv H (sched_add_request H r s)" and "conf (sched_add_request H r s) = conf s"
    and "dom (table (sched_add_request H r s)) = insert (request_id r) (dom (table s))"
proof -
  have core: "core_inv H s" and sk: "queue_list (skipped_waiting s) = []" and beh: "\<forall>x\<in>set (running s). behind s x"
    using inv by (simp_all add: ready_inv_def)
  note P = core_parts [OF core]
  let ?rid = "request_id r"
  define r' where "r' = (case kvm_block_hasher (kvm s) of None \<Rightarrow> r | Some h \<Rightarrow> attach_block_hasher H h r)"
  have fresh: "?rid \<notin> dom (table s)" using ad by (simp add: admissible_def)
  have bs: "0 < kvm_block_size (kvm s)" using P(2) by (auto simp: kvm_inv_def groups_ok_def)
  have hash: "hashes_current H r' \<and> (kvm_enable_caching (kvm s) \<longrightarrow>
      block_hasher r' = Some (kvm_block_size (kvm s), kvm_none_hash (kvm s)))"
  proof (cases "kvm_enable_caching (kvm s)")
    case True
    then show ?thesis using attach_hashes_current [OF bs, of r H "kvm_none_hash (kvm s)"] ad
      by (simp add: r'_def kvm_block_hasher_def admissible_def attach_block_hasher_def)
  next
    case False
    then show ?thesis using ad by (simp add: r'_def kvm_block_hasher_def admissible_def hashes_current_def)
  qed
  have same: "request_id r' = ?rid" "num_tokens r' = num_tokens r" "num_computed_tokens r' = num_computed_tokens r"
    "mm_features r' = mm_features r" "status r' = status r" "budget_ok (conf s) r' = budget_ok (conf s) r"
    by (auto simp: r'_def attach_block_hasher_def update_block_hashes_def num_tokens_def num_output_tokens_def budget_ok_def
        split: option.split)
  have rok: "request_ok H (conf s) (kvm_conf (kvm s)) (cache_size (encoder s)) ?rid r'"
    using ad hash same by (simp add: admissible_def request_ok_def features_fit_def kvm_conf_def)
  define s' where "s' = s\<lparr>waiting := add_request (sort_key r') (waiting s), requests := AList.update ?rid r' (requests s)\<rparr>"
  have run: "sched_add_request H r s = s'"
    by (simp add: sched_add_request_def Let_def s'_def r'_def [symmetric] same(1))
  have f: "connector s' = connector s" "kvm s' = kvm s" "conf s' = conf s" "table s' = (table s)(?rid \<mapsto> r')"
    "running s' = running s" "waiting s' = add_request (sort_key r') (waiting s)" "skipped_waiting s' = skipped_waiting s"
    "encoder s' = encoder s"
    by (simp_all add: s'_def table_def update_conv')
  show "conf (sched_add_request H r s) = conf s" "dom (table (sched_add_request H r s)) = insert ?rid (dom (table s))"
    unfolding run f by auto
  have wf: "queue_wf (waiting s)" using P(5) by (simp add: place_ok_def)
  note add = rq.add [OF wf, of "sort_key r'"]
  let ?wq = "add_request (sort_key r') (waiting s)"
  have eid: "entry_id (sort_key r') = ?rid" by (simp add: sort_key_def same)
  have d: "distinct (running s @ queue_ids (waiting s) @ queue_ids (skipped_waiting s))"
    "set (running s @ queue_ids (waiting s) @ queue_ids (skipped_waiting s)) = dom (table s)"
    using P(5) by (simp_all add: place_ok_def)
  have ids: "mset (queue_ids ?wq) = add_mset ?rid (mset (queue_ids (waiting s)))"
    unfolding mset_map using add eid by simp
  have all: "mset (running s @ queue_ids ?wq @ queue_ids (skipped_waiting s)) =
      mset (?rid # (running s @ queue_ids (waiting s) @ queue_ids (skipped_waiting s)))"
    using ids by simp
  have setl: "set (queue_list ?wq) = insert (sort_key r') (set (queue_list (waiting s)))"
    using arg_cong [OF conjunct2 [OF add], of set_mset] by simp
  have nin: "?rid \<notin> set (running s @ queue_ids (waiting s) @ queue_ids (skipped_waiting s))" using fresh d(2) by simp
  have place: "place_ok (sched_policy (conf s)) (table s') (running s) ?wq (skipped_waiting s)"
    unfolding place_ok_def
  proof (intro conjI ballI)
    show "distinct (running s @ queue_ids ?wq @ queue_ids (skipped_waiting s))"
      using mset_eq_imp_distinct_iff [OF all] d(1) nin by simp
    show "set (running s @ queue_ids ?wq @ queue_ids (skipped_waiting s)) = dom (table s')"
      using mset_eq_setD [OF all] d(2) f(4) by auto
    show "queue_wf ?wq" "queue_policy ?wq = sched_policy (conf s)" "queue_wf (skipped_waiting s)"
      "queue_policy (skipped_waiting s) = sched_policy (conf s)"
      using add P(5) by (simp_all add: place_ok_def)
    fix e assume "e \<in> set (queue_list ?wq @ queue_list (skipped_waiting s))"
    then consider "e = sort_key r'" | "e \<in> set (queue_list (waiting s) @ queue_list (skipped_waiting s))" using setl by auto
    then show "\<exists>r. table s' (entry_id e) = Some r \<and> e = sort_key r"
    proof cases
      case 1
      then show ?thesis using f(4) eid by simp
    next
      case 2
      then obtain x where "table s (entry_id e) = Some x" "e = sort_key x" using P(5) unfolding place_ok_def by blast
      then show ?thesis using f(4) fresh by auto
    qed
  qed
  have nrun: "?rid \<notin> set (running s)" using nin by simp
  have "run_ok (kvm s) (table s') (running s)" unfolding f(4) by (rule run_ok_upd_other [OF P(6) nrun])
  moreover have "wait_ok (table s') (queue_ids ?wq @ queue_ids (skipped_waiting s))"
  proof -
    have "set (queue_ids ?wq) = insert ?rid (set (queue_ids (waiting s)))" using setl eid by simp
    then show ?thesis using P(8) ad same(3,5) sk unfolding wait_ok_def f(4) by (auto simp: admissible_def waiting_status_def)
  qed
  moreover have "enc_ok (table s') (encoder s)" using P(9) fresh unfolding enc_ok_def f(4) by (auto simp: domIff)
  moreover have "lora_ok (conf s) (table s') (running s)"
  proof -
    have "loras (table s') (running s) = loras (table s) (running s)"
      unfolding f(4) by (rule loras_cong) (use nrun in auto)
    then show ?thesis using P(10) unfolding lora_ok_def by (simp cong: option.case_cong)
  qed
  moreover have "table_ok H (conf s) (kvm_conf (kvm s)) (cache_size (encoder s)) (table s')"
    unfolding f(4) using P(4) rok by (simp add: table_ok_def)
  ultimately have "core_inv H s'" using P place unfolding core_inv_def f by simp
  moreover have "\<forall>x\<in>set (running s'). behind s' x"
    using beh nrun f(4,5) by (auto simp: behind_def)
  ultimately show "ready_inv H (sched_add_request H r s)" unfolding run using sk f(7) by (simp add: ready_inv_def)
qed

section \<open>Every state the scheduler can reach\<close>

text \<open>
  From a fresh scheduler: requests arrive, steps are scheduled, run and folded back, requests are
  finished from outside (aborts, errors), a grammar's compilation ends in the background, and the
  engine core takes the lists it was left.
\<close>

inductive reaches :: "hash_fn \<Rightarrow> scheduler \<Rightarrow> scheduler \<Rightarrow> bool" for H :: hash_fn and s0 :: scheduler where
  fresh: "reaches H s0 s0"
| arrive: "reaches H s0 s \<Longrightarrow> admissible s r \<Longrightarrow> reaches H s0 (sched_add_request H r s)"
| stepped: "reaches H s0 s \<Longrightarrow> schedule s = Inr (so, s1) \<Longrightarrow> worker_ok so out s1 \<Longrightarrow>
    update_from_output H so out s1 = Inr (outs, s2) \<Longrightarrow> reaches H s0 s2"
| finished: "reaches H s0 s \<Longrightarrow> status_is_finished st \<Longrightarrow> finish_requests rids st s = Inr s' \<Longrightarrow> reaches H s0 s'"
| compiled: "reaches H s0 s \<Longrightarrow> table s rid = Some r \<Longrightarrow> reaches H s0 (set_req rid (r\<lparr>structured_output := g\<rparr>) s)"
| took_new: "reaches H s0 s \<Longrightarrow> reaches H s0 (snd (take_newly_scheduled s))"
| took_errors: "reaches H s0 s \<Longrightarrow> reaches H s0 (snd (take_grammar_compile_errors s))"

inductive_cases reaches_cases: "reaches H s0 s"

lemma encoder_cache_init_ids: "encoder_cache_init n = Inr c \<Longrightarrow> ids_of c rid = [] \<and> cache_size c = n"
  by (auto simp: encoder_cache_init_def ids_of_def split: if_splits)

lemma kv_cache_manager_init_conf:
  assumes "kv_cache_manager_init H c max_len caching kv_events seed = Inr k"
  shows "kvm_max_model_len k = max_len" "kvm_enable_caching k = caching"
  using assms by (auto simp: kv_cache_manager_init_def Let_def rbind_eq_Inr_iff)

lemma scheduler_init_ok:
  assumes init: "scheduler_init H cf kvc caching seed n None = Inr s"
    and B: "0 < B" and specs: "\<forall>g\<in>set (kv_cache_groups kvc). spec_ok B (group_spec g)"
    and few: "length (kv_cache_groups kvc) < 2 ^ 32"
    and lim: "0 \<le> max_num_running_reqs cf" "0 \<le> max_num_scheduled_tokens cf"
    and lora: "case max_loras cf of None \<Rightarrow> True | Some m \<Rightarrow> 0 \<le> m"
  shows "ready_inv H s" and "conf s = cf" and "table s = Map.empty"
proof -
  from init obtain k c where I: "kv_cache_manager_init H kvc (max_model_len cf) caching False seed = Inr k"
    "encoder_cache_init n = Inr c"
    "s = \<lparr>conf = cf, kvm = k, requests = [], running = [],
          waiting = create_request_queue (sched_policy cf),
          skipped_waiting = create_request_queue (sched_policy cf), finished_req_ids = {},
          step_index = 0, num_preemptions_total = 0, pending_scheduled = [],
          grammar_compile_error_reqs = {}, encoder = c, connector = None,
          num_draft_tokens_total = 0, num_accepted_tokens_total = 0\<rparr>"
    by (auto simp: scheduler_init_def rbind_eq_Inr_iff)
  note K = kv_cache_manager_init_inv [OF I(1) B specs few]
  show tab: "table s = Map.empty" and cf: "conf s = cf" using I(3) by (simp_all add: table_def)
  have "holds_none k rid" for rid using K(4) by (auto simp: holds_none_def)
  moreover have "lora_ok cf (table s) []" using lora by (auto simp: lora_ok_def loras_def split: option.splits)
  moreover have "enc_ok Map.empty c"
    using encoder_cache_init_inv [OF I(2)] encoder_cache_init_ids [OF I(2)] by (simp add: enc_ok_def)
  ultimately show "ready_inv H s"
    using I(3) K(1) kv_cache_manager_init_conf(1) [OF I(1)] lim tab
    by (simp add: ready_inv_def core_inv_def table_ok_def place_ok_def run_ok_def idle_ok_def wait_ok_def)
qed

lemma core_set_req:
  assumes core: "core_inv H s" and r: "table s rid = Some r" and same: "same_request r r'" "status r' = status r"
    "num_computed_tokens r' = num_computed_tokens r"
  shows "core_inv H (set_req rid r' s)"
proof -
  note P = core_parts [OF core]
  have ok: "request_ok H (conf s) (kvm_conf (kvm s)) (cache_size (encoder s)) rid r"
    using P(4) r by (simp add: table_ok_def)
  show ?thesis
  proof (cases "rid \<in> set (running s)")
    case True
    obtain r0 where "table s rid = Some r0" "status r0 = RUNNING" "0 \<le> num_computed_tokens r0"
      "has_slots (kvm s) rid (num_computed_tokens r0)" using core_running [OF core True] by metis
    then show ?thesis using r same by (intro core_set_running [OF core True r same(1)]) simp_all
  next
    case False
    then have "rid \<in> set (queue_ids (waiting s) @ queue_ids (skipped_waiting s))"
      using P(5) r unfolding place_ok_def by (metis UnE domI set_append)
    then obtain r1 where "table s rid = Some r1" "waiting_status (status r1)" "num_computed_tokens r1 = 0"
      using P(8) unfolding wait_ok_def by blast
    then show ?thesis using r same by (intro core_set_waiting [OF core False r same(1)]) simp_all
  qed
qed

lemma ready_set_req:
  assumes inv: "ready_inv H s" and r: "table s rid = Some r" and same: "same_request r r'" "status r' = status r"
    "num_computed_tokens r' = num_computed_tokens r"
  shows "ready_inv H (set_req rid r' s)"
proof -
  have core: "core_inv H s" and beh: "\<forall>x\<in>set (running s). behind s x" using inv by (simp_all add: ready_inv_def)
  have "behind (set_req rid r' s) x" if "x \<in> set (running s)" for x
    using beh that r same same_request_num_tokens [OF same(1)] by (cases "x = rid") (auto simp: behind_def)
  then show ?thesis using core_set_req [OF core r same] inv by (simp add: ready_inv_def)
qed

lemma in_flight_set_req:
  assumes inv: "in_flight H so s" and r: "table s rid = Some r" and same: "same_request r r'" "status r' = status r"
    "num_computed_tokens r' = num_computed_tokens r"
  shows "in_flight H so (set_req rid r' s)"
proof -
  have core: "core_inv H s" using inv by (simp add: in_flight_def)
  have b: "behind (set_req rid r' s) x = behind s x" for x
    using r same same_request_num_tokens [OF same(1)] by (cases "x = rid") (auto simp: behind_def)
  have a: "advanced (set_req rid r' s) spec x = advanced s spec x" for spec x
    using r same same_request_num_tokens [OF same(1)] by (cases "x = rid") (auto simp: advanced_def cong: option.case_cong)
  show ?thesis using core_set_req [OF core r same] inv by (simp add: in_flight_def a b cong: option.case_cong)
qed

lemma ready_cong:
  assumes "ready_inv H s" "connector s' = connector s" "kvm s' = kvm s" "conf s' = conf s" "table s' = table s"
    "running s' = running s" "waiting s' = waiting s" "skipped_waiting s' = skipped_waiting s" "encoder s' = encoder s"
  shows "ready_inv H s'"
proof -
  have "core_inv H s'" using core_inv_cong [OF assms(2-9)] assms(1) by (simp add: ready_inv_def)
  then show ?thesis using assms by (simp add: ready_inv_def behind_def)
qed

lemma reaches_ready:
  assumes "reaches H s0 s" and "ready_inv H s0"
  shows "ready_inv H s \<and> conf s = conf s0"
  using assms
proof (induction rule: reaches.induct)
  case (arrive s r)
  then show ?case using add_request_ok [of H s r] by simp
next
  case (stepped s so s1 out outs s2)
  from schedule_ok [of H s] stepped have "in_flight H so s1" "conf s1 = conf s0" by auto
  from update_from_output_ok [OF this(1) stepped.hyps(3)] this(2) stepped.hyps(4) show ?case by auto
next
  case (finished s st rids s')
  then show ?case using finish_requests_ok [of H s st rids] by auto
next
  case (compiled s rid r g)
  have "same_request r (r\<lparr>structured_output := g\<rparr>)" by (simp add: same_request_def)
  then show ?case using ready_set_req [of H s rid r "r\<lparr>structured_output := g\<rparr>"] compiled by simp
next
  case (took_new s)
  then have inv: "ready_inv H s" "conf s = conf s0" by simp_all
  have "ready_inv H (snd (take_newly_scheduled s))"
    by (rule ready_cong [OF inv(1)]) (simp_all add: take_newly_scheduled_def table_def)
  then show ?case using inv(2) by (simp add: take_newly_scheduled_def)
next
  case (took_errors s)
  then have inv: "ready_inv H s" "conf s = conf s0" by simp_all
  have "ready_inv H (snd (take_grammar_compile_errors s))"
    by (rule ready_cong [OF inv(1)]) (simp_all add: take_grammar_compile_errors_def table_def)
  then show ?case using inv(2) by (simp add: take_grammar_compile_errors_def)
qed simp

section \<open>A scheduler as the engine starts it\<close>

definition sane_setup :: "scheduler_config \<Rightarrow> kv_cache_config \<Rightarrow> bool" where
  "sane_setup cf kvc \<longleftrightarrow>
     (\<exists>B>0. \<forall>g\<in>set (kv_cache_groups kvc). spec_ok B (group_spec g)) \<and> length (kv_cache_groups kvc) < 2 ^ 32 \<and>
     0 \<le> max_num_running_reqs cf \<and> 0 \<le> max_num_scheduled_tokens cf \<and>
     (case max_loras cf of None \<Rightarrow> True | Some m \<Rightarrow> 0 \<le> m)"

lemma run_ready:
  assumes "scheduler_init H cf kvc caching seed n None = Inr s0" and "sane_setup cf kvc" and "reaches H s0 s"
  shows "ready_inv H s" and "conf s = cf"
proof -
  from assms(2) obtain B where "0 < B" "\<forall>g\<in>set (kv_cache_groups kvc). spec_ok B (group_spec g)"
    by (auto simp: sane_setup_def)
  with scheduler_init_ok [OF assms(1)] assms(2) have "ready_inv H s0" "conf s0 = cf" by (auto simp: sane_setup_def)
  with reaches_ready [OF assms(3)] show "ready_inv H s" "conf s = cf" by simp_all
qed

lemma holds_none_all:
  assumes inv: "kvm_inv k" and none: "\<And>rid. holds_none k rid"
  shows "get_num_free_blocks (kvm_pool k) = num_usable_blocks (kvm_pool k)" and "usage k = 0"
    and "fst (reset_prefix_cache k)"
proof -
  have "bs = []" if m: "m \<in> set (single_type_managers k)" and "(rid, bs) \<in> set (req_to_blocks m)" for m rid bs
  proof -
    have "mgr_keys m" using inv m by (simp add: kvm_inv_def co_keys_def list_all_iff)
    then have "get_blocks m rid = bs" using that(2) by (simp add: mgr_keys_def get_blocks_def)
    then show ?thesis using none [of rid] m by (simp add: holds_none_managers)
  qed
  then have "co_table (single_type_managers k) = {#}" unfolding table_empty_iff by blast
  from idle_pool_free [OF inv this] show "get_num_free_blocks (kvm_pool k) = num_usable_blocks (kvm_pool k)"
    and "usage k = 0" and "fst (reset_prefix_cache k)" by simp_all
qed

text \<open>Where a known request is between steps.\<close>

definition is_running :: "scheduler \<Rightarrow> string \<Rightarrow> request \<Rightarrow> bool" where
  "is_running s rid r \<longleftrightarrow> rid \<in> set (running s) \<and> status r = RUNNING \<and>
     0 \<le> num_computed_tokens r \<and> num_computed_tokens r < num_tokens r \<and> has_slots (kvm s) rid (num_computed_tokens r)"

definition is_waiting :: "scheduler \<Rightarrow> string \<Rightarrow> request \<Rightarrow> bool" where
  "is_waiting s rid r \<longleftrightarrow> rid \<notin> set (running s) \<and> sort_key r \<in> set (queue_list (waiting s)) \<and>
     waiting_status (status r) \<and> num_computed_tokens r = 0 \<and> holds_none (kvm s) rid"

lemma ready_places:
  assumes inv: "ready_inv H s"
  shows "distinct (running s @ map entry_id (queue_list (waiting s)))"
    and "set (running s @ map entry_id (queue_list (waiting s))) = dom (table s)"
    and "table s rid = Some r \<Longrightarrow> is_running s rid r \<or> is_waiting s rid r"
    and "table s rid = None \<Longrightarrow> holds_none (kvm s) rid"
proof -
  have core: "core_inv H s" and sk: "queue_list (skipped_waiting s) = []" and beh: "\<forall>x\<in>set (running s). behind s x"
    using inv by (simp_all add: ready_inv_def)
  note P = core_parts [OF core]
  show d: "distinct (running s @ map entry_id (queue_list (waiting s)))"
    and m: "set (running s @ map entry_id (queue_list (waiting s))) = dom (table s)"
    using P(5) sk by (simp_all add: place_ok_def)
  have idle: "holds_none (kvm s) x" if "x \<notin> set (running s)" for x using P(7) that by (simp add: idle_ok_def)
  show "is_running s rid r \<or> is_waiting s rid r" if r: "table s rid = Some r"
  proof (cases "rid \<in> set (running s)")
    case True
    then have "behind s rid" using beh by blast
    moreover obtain r0 where "table s rid = Some r0" "status r0 = RUNNING" "0 \<le> num_computed_tokens r0"
      "has_slots (kvm s) rid (num_computed_tokens r0)" using core_running [OF core True] by metis
    ultimately show ?thesis using r True by (auto simp: is_running_def behind_def)
  next
    case False
    then obtain e where e: "e \<in> set (queue_list (waiting s))" "entry_id e = rid" using m r by auto
    then have "e = sort_key r" using entry_of_id [OF core _ _ r] by simp
    moreover have "waiting_status (status r) \<and> num_computed_tokens r = 0"
      using P(8) e r unfolding wait_ok_def by force
    ultimately show ?thesis using e False idle [OF False] by (simp add: is_waiting_def)
  qed
  show "holds_none (kvm s) rid" if "table s rid = None"
    using idle [of rid] m that by (auto simp: domIff)
qed

lemma abort_all_ok:
  assumes inv: "ready_inv H s" and st: "status_is_finished st" and all: "dom (table s) \<subseteq> set rids"
  shows "\<exists>s'. finish_requests rids st s = Inr s' \<and> running s' = [] \<and> queue_list (waiting s') = [] \<and>
     usage (kvm s') = 0 \<and> fst (reset_prefix_cache (kvm s'))"
proof -
  from finish_requests_ok [OF inv st] obtain s' where
    F: "finish_requests rids st s = Inr s'" "ready_inv H s'" "dom (table s') = dom (table s) - set rids" by blast
  from F(3) all have e: "table s' = Map.empty" by auto
  note R = ready_places [OF F(2)]
  have "kvm_inv (kvm s')" using F(2) by (auto simp: ready_inv_def dest: core_parts(2))
  from holds_none_all [OF this] R(4) e have "usage (kvm s') = 0" "fst (reset_prefix_cache (kvm s'))" by simp_all
  then show ?thesis using F(1) R(2) e by simp
qed

end
