(* ===== verification/PrefixHash.thy ===== *)
theory PrefixHash
  imports RequestState
begin

text \<open>
  What equal block hashes mean. \<open>request_life\<close> is a request in the life the engine gives it: a hasher is
  attached to the new request, then tokens are appended, some at a time. \<open>digested\<close> is what the digest
  of a stored hash ought to cover: the hash stored before it, the tokens of the block, its extra keys.
\<close>

definition request_life :: "hash_fn \<Rightarrow> int \<Rightarrow> block_hash_t \<Rightarrow> request \<Rightarrow> int list list \<Rightarrow> request" where
  "request_life H bs nh r tss = fold (append_output_token_ids H) tss (attach_block_hasher H (bs, nh) r)"

definition digested :: "int \<Rightarrow> block_hash_t \<Rightarrow> request \<Rightarrow> nat \<Rightarrow> hash_input" where
  "digested bs nh r k = HashBlock (if k = 0 then nh else block_hashes r ! (k - 1)) (block_tokens bs r k) (block_keys bs r k)"

text \<open>The digest does not collide on what it digested for one request, for another, and for the root of the chains.\<close>

definition collision_free :: "hash_fn \<Rightarrow> int \<Rightarrow> int \<Rightarrow> request \<Rightarrow> request \<Rightarrow> bool" where
  "collision_free H bs seed r s \<longleftrightarrow>
     (let nh = compute_none_hash H seed
      in inj_on H (insert (HashNone ''pvllm-none-hash'' seed)
           (digested bs nh r ` {..<length (block_hashes r)} \<union> digested bs nh s ` {..<length (block_hashes s)})))"

lemma append_hasher: "block_hasher (append_output_token_ids H ts r) = block_hasher r"
  by (simp add: append_output_token_ids_def)

lemma request_life_current:
  assumes "0 < bs" and "block_hashes r = []"
  shows "hashes_current H (request_life H bs nh r tss)" and "block_hasher (request_life H bs nh r tss) = Some (bs, nh)"
proof -
  have "hashes_current H (fold (append_output_token_ids H) tss x) \<and> block_hasher (fold (append_output_token_ids H) tss x) = Some (bs, nh)"
    if "hashes_current H x" "block_hasher x = Some (bs, nh)" for x
    using that by (induction tss arbitrary: x) (simp_all add: append_hashes_current append_hasher)
  moreover have "block_hasher (attach_block_hasher H (bs, nh) r) = Some (bs, nh)" by (simp add: attach_block_hasher_def)
  ultimately show "hashes_current H (request_life H bs nh r tss)" "block_hasher (request_life H bs nh r tss) = Some (bs, nh)"
    using attach_hashes_current [OF assms] by (simp_all add: request_life_def)
qed

lemma stored_hashes:
  assumes "hashes_current H r" and "block_hasher r = Some (bs, nh)"
  shows "block_hashes r = map (chain_hash H bs nh r) [0..<num_full_hashes bs r]" and "0 < bs"
  using assms by (simp_all add: hashes_current_def)

lemma digested_input:
  assumes cur: "hashes_current H r" "block_hasher r = Some (bs, nh)" and ne: "\<And>x. H x \<noteq> []" and k: "k < length (block_hashes r)"
  shows "digested bs nh r k = hash_input_at H bs nh r k" and "block_hashes r ! k = chain_hash H bs nh r k"
proof -
  note B = stored_hashes [OF cur]
  have at: "block_hashes r ! i = chain_hash H bs nh r i" if "i < length (block_hashes r)" for i
    using that by (subst B(1), subst (asm) B(1)) simp
  show "block_hashes r ! k = chain_hash H bs nh r k" by (rule at [OF k])
  have "chain_hash H bs nh r i \<noteq> []" for i unfolding chain_hash_input by (rule ne)
  then show "digested bs nh r k = hash_input_at H bs nh r k"
    using at [of "k - 1"] k by (simp add: digested_def hash_input_at_def)
qed

lemma block_prefix:
  assumes "\<forall>i\<le>k. block_tokens bs r i = block_tokens bs s i" and "0 < bs"
  shows "take (nat (int (Suc k) * bs)) (all_token_ids r) = take (nat (int (Suc k) * bs)) (all_token_ids s)"
  using assms(1)
proof (induction k)
  case 0
  then show ?case by (simp add: slice_def)
next
  case (Suc k)
  have split: "take (nat (int (Suc (Suc k)) * bs)) xs = take (nat (int (Suc k) * bs)) xs @ slice xs (int (Suc k) * bs) (int (Suc k) * bs + bs)"
    for xs :: "int list"
  proof -
    have e: "int (Suc (Suc k)) * bs = int (Suc k) * bs + bs" by (simp add: algebra_simps)
    have "nat (int (Suc k) * bs + bs) = nat (int (Suc k) * bs) + nat bs" using assms(2) by (intro nat_add_distrib) simp_all
    then show ?thesis unfolding e by (simp add: take_add slice_def del: of_nat_Suc)
  qed
  have "take (nat (int (Suc k) * bs)) (all_token_ids r) = take (nat (int (Suc k) * bs)) (all_token_ids s)" using Suc by simp
  moreover have "block_tokens bs r (Suc k) = block_tokens bs s (Suc k)" using Suc.prems by blast
  ultimately show ?case unfolding split by simp
qed

lemma equal_hashes_mean_equal_content:
  fixes seed :: int and H :: hash_fn
  defines "nh \<equiv> compute_none_hash H seed"
  assumes r: "hashes_current H r" "block_hasher r = Some (bs, nh)" and s: "hashes_current H s" "block_hasher s = Some (bs, nh)"
    and ne: "\<And>x. H x \<noteq> []" and cf: "collision_free H bs seed r s"
  shows "k < length (block_hashes r) \<Longrightarrow> j < length (block_hashes s) \<Longrightarrow> block_hashes r ! k = block_hashes s ! j \<Longrightarrow>
    k = j \<and> (\<forall>i\<le>k. block_tokens bs r i = block_tokens bs s i \<and> block_keys bs r i = block_keys bs s i)"
proof (induction k arbitrary: j)
  let ?root = "HashNone ''pvllm-none-hash'' seed"
  have inj: "inj_on H (insert ?root (digested bs nh r ` {..<length (block_hashes r)} \<union> digested bs nh s ` {..<length (block_hashes s)}))"
    using cf by (simp add: collision_free_def Let_def nh_def)
  have R: "block_hashes r ! k = H (digested bs nh r k)" if "k < length (block_hashes r)" for k
    using digested_input [OF r ne that] chain_hash_input by simp
  have S: "block_hashes s ! j = H (digested bs nh s j)" if "j < length (block_hashes s)" for j
    using digested_input [OF s ne that] chain_hash_input by simp
  have same: "digested bs nh r k = digested bs nh s j"
    if "k < length (block_hashes r)" "j < length (block_hashes s)" "block_hashes r ! k = block_hashes s ! j" for k j
    by (rule inj_onD [OF inj]) (use that R S in auto)
  have root: "nh = H ?root" by (simp add: nh_def compute_none_hash_def)
  have offr: "block_hashes r ! k \<noteq> nh" if k: "k < length (block_hashes r)" for k
  proof
    assume "block_hashes r ! k = nh"
    then have "H (digested bs nh r k) = H ?root" using R [OF k] root by simp
    then have "digested bs nh r k = ?root" by (rule inj_onD [OF inj]) (use k in auto)
    then show False by (simp add: digested_def)
  qed
  have offs: "block_hashes s ! j \<noteq> nh" if j: "j < length (block_hashes s)" for j
  proof
    assume "block_hashes s ! j = nh"
    then have "H (digested bs nh s j) = H ?root" using S [OF j] root by simp
    then have "digested bs nh s j = ?root" by (rule inj_onD [OF inj]) (use j in auto)
    then show False by (simp add: digested_def)
  qed
  {
    case 0
    from same [OF 0] have e: "digested bs nh r 0 = digested bs nh s j" .
    then have "j = 0" using offs [of "j - 1"] 0(2) by (cases j) (auto simp: digested_def)
    then show ?case using e by (simp add: digested_def)
  next
    case (Suc k)
    from same [OF Suc.prems] have e: "digested bs nh r (Suc k) = digested bs nh s j" .
    obtain i where j: "j = Suc i" using e offr [of k] Suc.prems(1) by (cases j) (auto simp: digested_def)
    have par: "block_hashes r ! k = block_hashes s ! i" and here: "block_tokens bs r (Suc k) = block_tokens bs s (Suc i)"
      "block_keys bs r (Suc k) = block_keys bs s (Suc i)" using e j by (simp_all add: digested_def)
    have "k = i \<and> (\<forall>i\<le>k. block_tokens bs r i = block_tokens bs s i \<and> block_keys bs r i = block_keys bs s i)"
      using Suc.IH [OF _ _ par] Suc.prems(1,2) j by simp
    then show ?case using here j by (auto simp: le_Suc_eq)
  }
qed

text \<open>So they mean equal prefixes, wherever the blocks come from.\<close>

lemma equal_hashes_mean_equal_prefixes:
  fixes seed :: int and H :: hash_fn and bs :: int
  defines "nh \<equiv> compute_none_hash H seed"
  assumes bs: "0 < bs" and new: "block_hashes r = []" "block_hashes s = []" and ne: "\<And>x. H x \<noteq> []"
    and cf: "collision_free H bs seed (request_life H bs nh r rs) (request_life H bs nh s ss)"
    and k: "k < length (block_hashes (request_life H bs nh r rs))" and j: "j < length (block_hashes (request_life H bs nh s ss))"
    and eq: "block_hashes (request_life H bs nh r rs) ! k = block_hashes (request_life H bs nh s ss) ! j"
  shows "k = j \<and> take (nat (int (Suc k) * bs)) (all_token_ids (request_life H bs nh r rs)) =
      take (nat (int (Suc k) * bs)) (all_token_ids (request_life H bs nh s ss)) \<and>
    (\<forall>i\<le>k. block_keys bs (request_life H bs nh r rs) i = block_keys bs (request_life H bs nh s ss) i)"
proof -
  let ?r = "request_life H bs nh r rs" and ?s = "request_life H bs nh s ss"
  have R: "hashes_current H ?r" "block_hasher ?r = Some (bs, compute_none_hash H seed)"
    and S: "hashes_current H ?s" "block_hasher ?s = Some (bs, compute_none_hash H seed)"
    using request_life_current [OF bs new(1)] request_life_current [OF bs new(2)] by (simp_all add: nh_def)
  have "k = j \<and> (\<forall>i\<le>k. block_tokens bs ?r i = block_tokens bs ?s i \<and> block_keys bs ?r i = block_keys bs ?s i)"
    by (rule equal_hashes_mean_equal_content [OF R S ne cf k j eq])
  then show ?thesis using block_prefix [where k = k and bs = bs and r = ?r and s = ?s] bs by blast
qed

end
