(* ===== verification/StoreHistory.thy ===== *)
theory StoreHistory
  imports Connector
begin

text \<open>
  The external store over its whole life. Whatever is written, read, looked up and cleared in
  whatever order, the keys it holds are the most recent ones within its capacity, in the order in
  which each was last written.
\<close>

datatype store_op = Write "string list" int | Lookup "string list" | Read int | Clear

definition store_step :: "store_op \<Rightarrow> kv_store \<Rightarrow> kv_store result" where
  "store_step op s =
     (case op of
        Write hs n \<Rightarrow> rbind (store_write hs n s) (\<lambda>(t, s'). Inr s')
      | Lookup hs \<Rightarrow> Inr (snd (longest_prefix hs s))
      | Read n \<Rightarrow> Inr (snd (store_read n s))
      | Clear \<Rightarrow> Inr (store_clear s))"

definition store_run :: "store_op list \<Rightarrow> kv_store \<Rightarrow> kv_store result" where
  "store_run = foldE store_step"

text \<open>The specification: the keys written since the last clearing, each at its last occurrence, the newest of them.\<close>

definition written :: "store_op list \<Rightarrow> string list \<Rightarrow> string list" where
  "written = fold (\<lambda>op ks. case op of Write hs n \<Rightarrow> ks @ hs | Clear \<Rightarrow> [] | _ \<Rightarrow> ks)"

definition newest :: "int option \<Rightarrow> string list \<Rightarrow> string list" where
  "newest cap ks = (case cap of None \<Rightarrow> remdups ks | Some c \<Rightarrow> drop (length (remdups ks) - nat c) (remdups ks))"

lemma remdups_append: "remdups (xs @ ys) = filter (\<lambda>x. x \<notin> set ys) (remdups xs) @ remdups ys"
  by (induction xs) auto

lemma refresh_remdups: "fold refresh_key hs (remdups ks) = remdups (ks @ hs)"
proof (induction hs arbitrary: ks)
  case (Cons h hs)
  have "refresh_key h (remdups ks) = remdups (ks @ [h])" by (simp add: refresh_key_def remdups_append)
  then have "fold refresh_key (h # hs) (remdups ks) = fold refresh_key hs (remdups (ks @ [h]))" by (simp del: remdups.simps)
  then show ?case by (simp only: Cons.IH append.assoc append.simps)
qed simp

lemma drop_last: "c \<le> length ys \<Longrightarrow> drop (length (xs @ ys) - c) (xs @ ys) = drop (length ys - c) ys"
  by (simp add: drop_append)

lemma newest_refresh:
  assumes "\<forall>c. cap = Some c \<longrightarrow> 0 \<le> c"
  shows "newest cap (newest cap ks @ hs) = newest cap (ks @ hs)"
proof (cases cap)
  case None
  then show ?thesis by (simp add: newest_def remdups_append distinct_remdups_id)
next
  case (Some c)
  let ?L = "remdups ks" and ?P = "\<lambda>x. x \<notin> set hs"
  let ?S = "drop (length ?L - nat c) ?L"
  have S: "newest cap ks = ?S" "remdups ?S = ?S" using Some by (simp_all add: newest_def distinct_remdups_id)
  show ?thesis
  proof (cases "length ?L \<le> nat c")
    case True
    then show ?thesis using Some by (simp add: newest_def remdups_append distinct_remdups_id)
  next
    case False
    then have len: "length ?S = nat c" by simp
    let ?A = "take (length ?L - nat c) ?L" and ?R = "remdups hs"
    have L: "?L = ?A @ ?S" by simp
    have "length ?S = length (filter ?P ?S) + length (filter (\<lambda>x. \<not> ?P x) ?S)" by (rule sum_length_filter_compl [symmetric])
    moreover have "length (filter (\<lambda>x. \<not> ?P x) ?S) \<le> length ?R"
    proof -
      have "distinct (filter (\<lambda>x. \<not> ?P x) ?S)" by (rule distinct_filter, rule distinct_drop) simp
      then have "length (filter (\<lambda>x. \<not> ?P x) ?S) = card (set (filter (\<lambda>x. \<not> ?P x) ?S))" by (simp only: distinct_card)
      also have "\<dots> \<le> card (set hs)" by (rule card_mono) auto
      finally show ?thesis by (simp add: length_remdups_card_conv)
    qed
    ultimately have enough: "nat c \<le> length (filter ?P ?S @ ?R)" using len by simp
    have left: "remdups (?S @ hs) = filter ?P ?S @ ?R" unfolding remdups_append S(2) ..
    have right: "remdups (ks @ hs) = filter ?P ?A @ (filter ?P ?S @ ?R)"
      unfolding remdups_append by (metis L append.assoc filter_append)
    have "newest cap (ks @ hs) = drop (length (filter ?P ?S @ ?R) - nat c) (filter ?P ?S @ ?R)"
      unfolding newest_def Some option.case right by (rule drop_last [OF enough])
    then show ?thesis unfolding S(1) by (simp only: newest_def Some option.case left)
  qed
qed

lemma store_step_newest:
  assumes cap: "\<forall>c. capacity_blocks s = Some c \<longrightarrow> 0 \<le> c" and s: "resident_keys s = newest (capacity_blocks s) ks"
  shows "\<exists>s'. store_step op s = Inr s' \<and> capacity_blocks s' = capacity_blocks s \<and>
    resident_keys s' = newest (capacity_blocks s) (written [op] ks)"
proof (cases op)
  case (Write hs n)
  have d: "remdups (resident_keys s) = resident_keys s"
    unfolding s newest_def by (simp add: distinct_remdups_id split: option.split)
  from store_write_spec [OF cap, of hs n] obtain t s' where w: "store_write hs n s = Inr (t, s')"
    "resident_keys s' = (let keys = fold refresh_key hs (resident_keys s) in
      case capacity_blocks s of None \<Rightarrow> keys | Some cap \<Rightarrow> drop (length keys - nat cap) keys)"
    "capacity_blocks s' = capacity_blocks s" by blast
  have f: "fold refresh_key hs (resident_keys s) = remdups (resident_keys s @ hs)" using refresh_remdups [of hs "resident_keys s"] d by simp
  have "resident_keys s' = newest (capacity_blocks s) (resident_keys s @ hs)"
    unfolding w(2) f Let_def newest_def ..
  also have "\<dots> = newest (capacity_blocks s) (ks @ hs)" unfolding s by (rule newest_refresh [OF cap])
  finally show ?thesis using w Write by (simp add: store_step_def written_def)
qed (use s in \<open>simp_all add: store_step_def written_def longest_prefix_def store_read_def store_clear_def Let_def newest_def split: option.split\<close>)

lemma store_run_newest:
  assumes "\<forall>c. capacity_blocks s = Some c \<longrightarrow> 0 \<le> c" and "resident_keys s = newest (capacity_blocks s) ks"
  shows "\<exists>s'. store_run ops s = Inr s' \<and> capacity_blocks s' = capacity_blocks s \<and>
    resident_keys s' = newest (capacity_blocks s) (written ops ks)"
  using assms
proof (induction ops arbitrary: s ks)
  case (Cons op ops)
  from store_step_newest [OF Cons.prems, of op] obtain s1 where S: "store_step op s = Inr s1" "capacity_blocks s1 = capacity_blocks s"
    "resident_keys s1 = newest (capacity_blocks s1) (written [op] ks)" by auto
  from Cons.IH [of s1 "written [op] ks"] S Cons.prems(1) obtain s' where "store_run ops s1 = Inr s'" "capacity_blocks s' = capacity_blocks s"
    "resident_keys s' = newest (capacity_blocks s) (written ops (written [op] ks))" by auto
  then show ?case using S(1) by (simp add: store_run_def written_def)
qed (simp add: store_run_def written_def)

text \<open>A lookup finds the longest prefix whose keys are held.\<close>

lemma lookup_maximal:
  assumes "longest_prefix hs s = (m, s')"
  shows "m \<le> length hs" and "set (take m hs) \<subseteq> set (resident_keys s)"
    and "m < length hs \<Longrightarrow> hs ! m \<notin> set (resident_keys s)"
proof -
  have m: "m = length (takeWhile (\<lambda>h. h \<in> set (resident_keys s)) hs)"
    using assms by (simp add: longest_prefix_def Let_def count_prefix_takeWhile)
  show "m \<le> length hs" unfolding m by (rule length_takeWhile_le)
  show "set (take m hs) \<subseteq> set (resident_keys s)" unfolding m by (metis set_takeWhileD subsetI takeWhile_eq_take)
  show "hs ! m \<notin> set (resident_keys s)" if "m < length hs" using that unfolding m by (rule nth_length_takeWhile)
qed

end
