(* ===== verification/Publication.thy ===== *)
theory Publication
  imports BlockPool
begin

text \<open>
  Publication and lookup in the prefix cache together: what \<open>cache_full_blocks\<close> publishes for a group
  is found under its hash and that group, what could be found before is found as before, and no other
  pair of hash and group is affected.
\<close>

definition first_entry :: "bref list \<Rightarrow> bref option" where
  "first_entry es = (case es of [] \<Rightarrow> None | b # _ \<Rightarrow> Some b)"

lemma lookup_entries:
  "get_cached_block p h g = rbind (make_block_hash_with_group_id h g) (\<lambda>key. Inr (first_entry (cache_entries p key)))"
  by (auto simp: get_cached_block_def first_entry_def cache_entries_def intro!: arg_cong [where f = "rbind _"] split: option.split list.split)

lemma first_entry_append: "first_entry es = Some b \<Longrightarrow> first_entry (es @ fs) = Some b"
  by (cases es) (simp_all add: first_entry_def)

lemma first_entry_ne: "es \<noteq> [] \<Longrightarrow> \<exists>b\<in>set es. first_entry es = Some b"
  by (cases es) (simp_all add: first_entry_def)

lemma added_entries:
  "cache_entries (add_cache_entry key b (upd_store f p)) k =
    (if k = key \<and> b \<notin> set (cache_entries p key) then cache_entries p key @ [b] else cache_entries p k)"
  by (auto simp: add_cache_entry_def cache_entries_def Let_def update_conv' split: option.split)

text \<open>What the loop publishes from position \<open>m\<close> on.\<close>

definition published_at :: "block_hash_t list \<Rightarrow> bref list \<Rightarrow> nat \<Rightarrow> nat \<Rightarrow> nat \<Rightarrow> bool" where
  "published_at hashes blocks m n i \<longleftrightarrow> m \<le> i \<and> i < n \<and> i < length hashes \<and> i < length blocks"

definition grows_by :: "block_hash_t list \<Rightarrow> bref list \<Rightarrow> nat \<Rightarrow> nat \<Rightarrow> int \<Rightarrow> block_pool \<Rightarrow> block_pool \<Rightarrow> bool" where
  "grows_by hashes blocks m n g p p' \<longleftrightarrow>
     (\<forall>k. \<exists>es. cache_entries p' k = cache_entries p k @ es \<and>
        (\<forall>b\<in>set es. \<exists>i. published_at hashes blocks m n i \<and> b = blocks ! i \<and> make_block_hash_with_group_id (hashes ! i) g = Inr k)) \<and>
     (\<forall>i. published_at hashes blocks m n i \<and> block_hash (blk p (blocks ! i)) = None \<and> \<not> is_null (blk p (blocks ! i)) \<and>
        (\<forall>j. m \<le> j \<and> j < i \<longrightarrow> blocks ! j \<noteq> blocks ! i) \<longrightarrow>
        (\<exists>key. make_block_hash_with_group_id (hashes ! i) g = Inr key \<and> block_hash (blk p' (blocks ! i)) = Some key))"

lemma published_head: "published_at hashes blocks m n i \<longleftrightarrow> published_at hashes blocks (Suc m) n i \<or> i = m \<and> published_at hashes blocks m n m"
  by (auto simp: published_at_def)

lemma grows_by_refl: "\<not> published_at hashes blocks m n m \<Longrightarrow> grows_by hashes blocks m n g p p"
  by (auto simp: grows_by_def published_at_def)

lemma grows_by_skip:
  assumes "grows_by hashes blocks (Suc m) n g p p'" and "block_hash (blk p (blocks ! m)) \<noteq> None \<or> is_null (blk p (blocks ! m))"
  shows "grows_by hashes blocks m n g p p'"
  unfolding grows_by_def
proof (intro conjI allI impI)
  fix k
  show "\<exists>es. cache_entries p' k = cache_entries p k @ es \<and>
        (\<forall>b\<in>set es. \<exists>i. published_at hashes blocks m n i \<and> b = blocks ! i \<and> make_block_hash_with_group_id (hashes ! i) g = Inr k)"
    using assms(1) published_head unfolding grows_by_def by metis
next
  fix i
  assume i: "published_at hashes blocks m n i \<and> block_hash (blk p (blocks ! i)) = None \<and> \<not> is_null (blk p (blocks ! i)) \<and>
        (\<forall>j. m \<le> j \<and> j < i \<longrightarrow> blocks ! j \<noteq> blocks ! i)"
  then have "i \<noteq> m" using assms(2) by auto
  then have "published_at hashes blocks (Suc m) n i" using i published_head by metis
  then show "\<exists>key. make_block_hash_with_group_id (hashes ! i) g = Inr key \<and> block_hash (blk p' (blocks ! i)) = Some key"
    using i assms(1) unfolding grows_by_def by (meson Suc_leD)
qed

lemma loop_grows:
  assumes "pool_inv p xs" "\<forall>b\<in>set blocks. real_block p b" "0 \<le> g" "g < 2 ^ 32"
  shows "\<exists>p'. cache_full_loop [m..<n] hashes blocks g p = Inr p' \<and> pool_inv p' xs \<and> same_config p p' \<and> hash_grows p p' \<and>
    grows_by hashes blocks m n g p p'"
  using assms(1,2)
proof (induction "n - m" arbitrary: m p)
  case 0
  then have "\<not> published_at hashes blocks m n m" by (simp add: published_at_def)
  then show ?case using 0 grows_by_refl by auto
next
  case (Suc d)
  have up: "[m..<n] = m # [Suc m..<n]" and d: "d = n - Suc m" using Suc.hyps(2) by (simp_all add: upt_conv_Cons)
  let ?b = "blocks ! m"
  consider (stop) "length hashes \<le> m \<or> length blocks \<le> m"
    | (skip) "m < length hashes" "m < length blocks" "block_hash (blk p ?b) \<noteq> None \<or> is_null (blk p ?b)"
    | (put) "m < length hashes" "m < length blocks" "block_hash (blk p ?b) = None" "\<not> is_null (blk p ?b)"
    by linarith
  then show ?case
  proof cases
    case stop
    then have "\<not> published_at hashes blocks m n m" by (auto simp: published_at_def)
    then show ?thesis using stop Suc.prems grows_by_refl unfolding up by auto
  next
    case skip
    from Suc.hyps(1) [OF d Suc.prems] obtain p' where
      I: "cache_full_loop [Suc m..<n] hashes blocks g p = Inr p'" "pool_inv p' xs" "same_config p p'" "hash_grows p p'"
      "grows_by hashes blocks (Suc m) n g p p'" by blast
    have "cache_full_loop [m..<n] hashes blocks g p = Inr p'" unfolding up using skip I(1) by (auto simp: Let_def)
    then show ?thesis using I grows_by_skip [OF I(5) skip(3)] by blast
  next
    case put
    from assms(3,4) obtain key where key: "make_block_hash_with_group_id (hashes ! m) g = Inr key"
      by (simp add: make_block_hash_with_group_id_def to_bytes4_def)
    have real: "real_block p ?b" using put(2) Suc.prems(2) by simp
    from add_cache_entry_inv [OF Suc.prems(1) real put(3,4), of key] obtain h where
      h: "set_block_hash ?b key (fq_blocks (free_block_queue p)) = Inr h" and
      p1: "pool_inv (add_cache_entry key ?b (upd_store (\<lambda>_. h) p)) xs"
        "same_config p (add_cache_entry key ?b (upd_store (\<lambda>_. h) p))"
        "\<And>c. blk (add_cache_entry key ?b (upd_store (\<lambda>_. h) p)) c =
             (if c = ?b then (blk p ?b)\<lparr>block_hash := Some key\<rparr> else blk p c)"
      by (auto simp: Let_def)
    define p1 where "p1 = add_cache_entry key ?b (upd_store (\<lambda>_. h) p)"
    note P = p1 [folded p1_def]
    have hg: "hash_grows p p1" using P(3) put(3) by (simp add: hash_grows_def)
    have "\<forall>b\<in>set blocks. real_block p1 b" using Suc.prems(2) same_config_real [OF P(2)] by simp
    from Suc.hyps(1) [OF d P(1) this] obtain p' where
      I: "cache_full_loop [Suc m..<n] hashes blocks g p1 = Inr p'" "pool_inv p' xs" "same_config p1 p'" "hash_grows p1 p'"
      "grows_by hashes blocks (Suc m) n g p1 p'" by blast
    have run: "cache_full_loop [m..<n] hashes blocks g p = Inr p'"
      unfolding up using put key h I(1) by (simp add: Let_def p1_def)
    have here: "published_at hashes blocks m n m" using put Suc.hyps(2) by (simp add: published_at_def)
    have "grows_by hashes blocks m n g p p'"
      unfolding grows_by_def
    proof (intro conjI allI impI)
      fix k
      from I(5) obtain es where es: "cache_entries p' k = cache_entries p1 k @ es"
        "\<forall>b\<in>set es. \<exists>i. published_at hashes blocks (Suc m) n i \<and> b = blocks ! i \<and> make_block_hash_with_group_id (hashes ! i) g = Inr k"
        unfolding grows_by_def by blast
      have "\<exists>fs. cache_entries p1 k = cache_entries p k @ fs \<and> (\<forall>b\<in>set fs. b = ?b \<and> k = key)"
        unfolding p1_def added_entries by auto
      then obtain fs where fs: "cache_entries p1 k = cache_entries p k @ fs" "\<forall>b\<in>set fs. b = ?b \<and> k = key" by blast
      have "\<exists>i. published_at hashes blocks m n i \<and> b = blocks ! i \<and> make_block_hash_with_group_id (hashes ! i) g = Inr k"
        if "b \<in> set (fs @ es)" for b
      proof (cases "b \<in> set fs")
        case True
        then show ?thesis using fs(2) here key by blast
      next
        case False
        then have "b \<in> set es" using that by simp
        with es(2) obtain i where "published_at hashes blocks (Suc m) n i" "b = blocks ! i" "make_block_hash_with_group_id (hashes ! i) g = Inr k"
          by blast
        then show ?thesis using published_head by metis
      qed
      moreover have "cache_entries p' k = cache_entries p k @ (fs @ es)" using es(1) fs(1) by simp
      ultimately show "\<exists>es. cache_entries p' k = cache_entries p k @ es \<and>
        (\<forall>b\<in>set es. \<exists>i. published_at hashes blocks m n i \<and> b = blocks ! i \<and> make_block_hash_with_group_id (hashes ! i) g = Inr k)"
        by blast
    next
      fix i
      assume i: "published_at hashes blocks m n i \<and> block_hash (blk p (blocks ! i)) = None \<and> \<not> is_null (blk p (blocks ! i)) \<and>
        (\<forall>j. m \<le> j \<and> j < i \<longrightarrow> blocks ! j \<noteq> blocks ! i)"
      show "\<exists>key. make_block_hash_with_group_id (hashes ! i) g = Inr key \<and> block_hash (blk p' (blocks ! i)) = Some key"
      proof (cases "i = m")
        case True
        have "block_hash (blk p1 ?b) = Some key" by (simp add: P(3))
        then have "block_hash (blk p' ?b) = Some key" using I(4) by (auto simp: hash_grows_def)
        then show ?thesis using True key by blast
      next
        case False
        then have later: "published_at hashes blocks (Suc m) n i" using i published_head by metis
        then have "blocks ! m \<noteq> blocks ! i" using i by (simp add: published_at_def)
        then have "blk p1 (blocks ! i) = blk p (blocks ! i)" using P(3) by simp
        then show ?thesis using I(5) later i unfolding grows_by_def by (metis Suc_leD)
      qed
    qed
    then show ?thesis using run I(2) same_config_trans [OF P(2) I(3)] hash_grows_trans [OF hg I(4)] by blast
  qed
qed

lemma publication:
  assumes inv: "pool_inv p xs" and real: "\<forall>b\<in>set blocks. real_block p b" and g: "0 \<le> g" "g < 2 ^ 32"
  shows "\<exists>p'. cache_full_blocks hashes blocks m n g p = Inr p' \<and> pool_inv p' xs \<and>
    (\<forall>h f b. get_cached_block p h f = Inr (Some b) \<longrightarrow> get_cached_block p' h f = Inr (Some b)) \<and>
    (\<forall>h f. f \<noteq> g \<or> (\<forall>i. published_at hashes blocks m n i \<longrightarrow> hashes ! i \<noteq> h) \<longrightarrow> get_cached_block p' h f = get_cached_block p h f) \<and>
    (\<forall>i. published_at hashes blocks m n i \<and> block_hash (blk p (blocks ! i)) = None \<and> \<not> is_null (blk p (blocks ! i)) \<and>
        (\<forall>j. m \<le> j \<and> j < i \<longrightarrow> blocks ! j \<noteq> blocks ! i) \<longrightarrow>
      (\<exists>c. get_cached_block p' (hashes ! i) g = Inr (Some c) \<and>
        (get_cached_block p (hashes ! i) g = Inr None \<longrightarrow>
           (\<exists>j. published_at hashes blocks m n j \<and> c = blocks ! j \<and> hashes ! j = hashes ! i))))"
proof -
  from loop_grows [OF inv real g, of m n hashes] obtain p' where
    L: "cache_full_loop [m..<n] hashes blocks g p = Inr p'" "pool_inv p' xs" "same_config p p'"
    "grows_by hashes blocks m n g p p'" by blast
  have run: "cache_full_blocks hashes blocks m n g p = Inr p'" using L(1) by (cases "n \<le> m") (simp_all add: cache_full_blocks_def)
  have app: "\<exists>es. cache_entries p' k = cache_entries p k @ es \<and>
        (\<forall>b\<in>set es. \<exists>i. published_at hashes blocks m n i \<and> b = blocks ! i \<and> make_block_hash_with_group_id (hashes ! i) g = Inr k)" for k
    using L(4) unfolding grows_by_def by blast
  have keep: "get_cached_block p' h f = Inr (Some b)" if "get_cached_block p h f = Inr (Some b)" for h f b
  proof -
    from that obtain k where k: "make_block_hash_with_group_id h f = Inr k" "first_entry (cache_entries p k) = Some b"
      by (auto simp: lookup_entries rbind_eq_Inr_iff)
    from app [of k] obtain es where "cache_entries p' k = cache_entries p k @ es" by blast
    then show ?thesis using k first_entry_append [OF k(2), of es] by (simp add: lookup_entries)
  qed
  have other: "get_cached_block p' h f = get_cached_block p h f"
    if o: "f \<noteq> g \<or> (\<forall>i. published_at hashes blocks m n i \<longrightarrow> hashes ! i \<noteq> h)" for h f
  proof (cases "make_block_hash_with_group_id h f")
    case (Inr k)
    from app [of k] obtain es where es: "cache_entries p' k = cache_entries p k @ es"
      "\<forall>b\<in>set es. \<exists>i. published_at hashes blocks m n i \<and> b = blocks ! i \<and> make_block_hash_with_group_id (hashes ! i) g = Inr k" by blast
    have "es = []"
    proof (rule ccontr)
      assume "es \<noteq> []"
      then obtain b where "b \<in> set es" by (cases es) auto
      then obtain i where "published_at hashes blocks m n i" "make_block_hash_with_group_id (hashes ! i) g = Inr k" using es(2) by blast
      then show False using key_injective [OF _ Inr, of "hashes ! i" g] o by blast
    qed
    then show ?thesis using es(1) Inr by (simp add: lookup_entries)
  qed (simp add: lookup_entries)
  have found: "\<exists>c. get_cached_block p' (hashes ! i) g = Inr (Some c) \<and>
        (get_cached_block p (hashes ! i) g = Inr None \<longrightarrow>
           (\<exists>j. published_at hashes blocks m n j \<and> c = blocks ! j \<and> hashes ! j = hashes ! i))"
    if i: "published_at hashes blocks m n i \<and> block_hash (blk p (blocks ! i)) = None \<and> \<not> is_null (blk p (blocks ! i)) \<and>
        (\<forall>j. m \<le> j \<and> j < i \<longrightarrow> blocks ! j \<noteq> blocks ! i)" for i
  proof -
    from i L(4) obtain key where key: "make_block_hash_with_group_id (hashes ! i) g = Inr key"
      "block_hash (blk p' (blocks ! i)) = Some key" unfolding grows_by_def by blast
    have "real_block p' (blocks ! i)" using i real same_config_real [OF L(3)] by (simp add: published_at_def)
    then have "blocks ! i \<in> set (cache_entries p' key)"
      using key(2) pool_invD(1) [OF L(2)] by (simp add: pool_core_def cache_exact_def)
    then have "cache_entries p' key \<noteq> []" by auto
    then obtain c where c: "c \<in> set (cache_entries p' key)" "first_entry (cache_entries p' key) = Some c" using first_entry_ne by blast
    from app [of key] obtain es where es: "cache_entries p' key = cache_entries p key @ es"
      "\<forall>b\<in>set es. \<exists>i. published_at hashes blocks m n i \<and> b = blocks ! i \<and> make_block_hash_with_group_id (hashes ! i) g = Inr key" by blast
    have "\<exists>j. published_at hashes blocks m n j \<and> c = blocks ! j \<and> hashes ! j = hashes ! i" if "get_cached_block p (hashes ! i) g = Inr None"
    proof -
      have "first_entry (cache_entries p key) = None" using that key(1) by (simp add: lookup_entries)
      then have "cache_entries p key = []" using first_entry_ne by fastforce
      then have "c \<in> set es" using c(1) es(1) by simp
      then obtain j where j: "published_at hashes blocks m n j" "c = blocks ! j" "make_block_hash_with_group_id (hashes ! j) g = Inr key"
        using es(2) by blast
      then show ?thesis using key_injective [OF j(3) key(1)] by blast
    qed
    then show ?thesis using c(2) key(1) by (simp add: lookup_entries)
  qed
  show ?thesis using run L(2) keep other found by (intro exI [of _ p'] conjI allI impI) simp_all
qed

end
