(* ===== verification/StopCheck.thy ===== *)
theory StopCheck
  imports Scheduler
begin

text \<open>
  How many of a step's tokens a request keeps: \<open>ends_with\<close> says of each token, apart from the code,
  whether the request ends with it, and \<open>update_request_with_output\<close> keeps the tokens up to the first.
\<close>

definition stop_token :: "sampling_params \<Rightarrow> int \<Rightarrow> bool" where
  "stop_token sp t \<longleftrightarrow> sp_eos_token_id sp = Some t \<or> t \<in> set (sp_stop_token_ids sp)"

text \<open>The request ends with token \<open>j\<close> of \<open>ts\<close>: it has its minimum, and a stop token or no room left.\<close>

definition ends_with :: "int \<Rightarrow> sampling_params \<Rightarrow> request \<Rightarrow> int list \<Rightarrow> nat \<Rightarrow> bool" where
  "ends_with max_len sp r ts j \<longleftrightarrow>
     sp_min_tokens sp \<le> num_output_tokens r + int (Suc j) \<and>
     (stop_token sp (ts ! j) \<or> max_tokens r \<le> num_output_tokens r + int (Suc j) \<or> max_len \<le> num_tokens r + int (Suc j))"

definition end_status :: "sampling_params \<Rightarrow> int \<Rightarrow> request_status" where
  "end_status sp t = (if stop_token sp t then FINISHED_STOPPED else FINISHED_LENGTH_CAPPED)"

definition end_reason :: "sampling_params \<Rightarrow> int \<Rightarrow> int option \<Rightarrow> int option" where
  "end_reason sp t old = (if sp_eos_token_id sp \<noteq> Some t \<and> t \<in> set (sp_stop_token_ids sp) then Some t else old)"

lemma append_output_fields [simp]:
  "output_token_ids (append_output_token_ids H ts r) = output_token_ids r @ ts"
  "all_token_ids (append_output_token_ids H ts r) = all_token_ids r @ ts"
  "num_output_tokens (append_output_token_ids H ts r) = num_output_tokens r + int (length ts)"
  "num_tokens (append_output_token_ids H ts r) = num_tokens r + int (length ts)"
  "max_tokens (append_output_token_ids H ts r) = max_tokens r" "status (append_output_token_ids H ts r) = status r"
  "stop_reason (append_output_token_ids H ts r) = stop_reason r"
  "sampling_params (append_output_token_ids H ts r) = sampling_params r"
  by (simp_all add: append_output_token_ids_def update_block_hashes_def num_output_tokens_def num_tokens_def split: option.split)

lemma check_stop_appended:
  fixes t :: int and H :: hash_fn
  assumes "sampling_params r = Some sp"
  defines "a \<equiv> append_output_token_ids H [t] r"
  shows "check_stop L a = Inr (if ends_with L sp r (t # ts) 0
      then (True, a\<lparr>status := end_status sp t, stop_reason := end_reason sp t (stop_reason r)\<rparr>) else (False, a))"
proof -
  have f: "output_token_ids a = output_token_ids r @ [t]" "num_output_tokens a = num_output_tokens r + 1"
    "num_tokens a = num_tokens r + 1" "max_tokens a = max_tokens r" "stop_reason a = stop_reason r" "sampling_params a = Some sp"
    using assms(1) by (simp_all add: a_def)
  have "a\<lparr>stop_reason := stop_reason r\<rparr> = a" using f(5) by (metis request.surjective request.update_convs(10))
  then have keep: "a\<lparr>status := x, stop_reason := stop_reason r\<rparr> = a\<lparr>status := x\<rparr>" for x by (metis request.update_convs(8,10) request.surjective)
  have last: "last (output_token_ids r @ [t]) = t" "output_token_ids r @ [t] \<noteq> []" by simp_all
  have e: "ends_with L sp r (t # ts) 0 \<longleftrightarrow> sp_min_tokens sp \<le> num_output_tokens r + 1 \<and>
      (stop_token sp t \<or> max_tokens r \<le> num_output_tokens r + 1 \<or> L \<le> num_tokens r + 1)" by (simp add: ends_with_def)
  show ?thesis
    unfolding check_stop_def f option.case Let_def last(1) e stop_token_def end_status_def end_reason_def
    using last(2) by (simp add: keep eq_commute [of "Some t"])
qed

lemma ends_with_later:
  "ends_with L sp (append_output_token_ids H [t] r) ts j = ends_with L sp r (t # ts) (Suc j)"
  by (simp add: ends_with_def ac_simps)

lemma update_request_trims:
  assumes "sampling_params r = Some sp"
  shows "\<exists>n stopped r'. update_request_with_output H L ts r = Inr (take n ts, stopped, r') \<and> n \<le> length ts \<and>
    output_token_ids r' = output_token_ids r @ take n ts \<and> all_token_ids r' = all_token_ids r @ take n ts \<and>
    (\<forall>j<n. ends_with L sp r ts j \<longleftrightarrow> stopped \<and> Suc j = n) \<and>
    (if stopped
     then 0 < n \<and> status r' = end_status sp (ts ! (n - 1)) \<and> stop_reason r' = end_reason sp (ts ! (n - 1)) (stop_reason r) \<and>
       is_finished r' \<and> get_finished_reason r' \<noteq> None
     else n = length ts \<and> status r' = status r \<and> stop_reason r' = stop_reason r)"
  using assms
proof (induction ts arbitrary: r)
  case Nil
  then show ?case by auto
next
  case (Cons t ts)
  let ?a = "append_output_token_ids H [t] r"
  note C = check_stop_appended [OF Cons.prems, of L H t ts]
  show ?case
  proof (cases "ends_with L sp r (t # ts) 0")
    case True
    let ?r = "?a\<lparr>status := end_status sp t, stop_reason := end_reason sp t (stop_reason r)\<rparr>"
    have "update_request_with_output H L (t # ts) r = Inr (take 1 (t # ts), True, ?r)" using C True by simp
    moreover have "status_is_finished (end_status sp t)"
      by (simp add: end_status_def status_is_finished_def less_request_status_def)
    ultimately show ?thesis using True finished_has_reason [of "end_status sp t"]
      by (intro exI [of _ 1] exI [of _ True] exI [of _ ?r]) (simp add: is_finished_def get_finished_reason_def)
  next
    case False
    have sp: "sampling_params ?a = Some sp" using Cons.prems by simp
    from Cons.IH [OF sp] obtain n stopped r' where I:
      "update_request_with_output H L ts ?a = Inr (take n ts, stopped, r')" "n \<le> length ts"
      "output_token_ids r' = output_token_ids ?a @ take n ts" "all_token_ids r' = all_token_ids ?a @ take n ts"
      "\<forall>j<n. ends_with L sp ?a ts j \<longleftrightarrow> stopped \<and> Suc j = n"
      "if stopped
       then 0 < n \<and> status r' = end_status sp (ts ! (n - 1)) \<and> stop_reason r' = end_reason sp (ts ! (n - 1)) (stop_reason ?a) \<and>
         is_finished r' \<and> get_finished_reason r' \<noteq> None
       else n = length ts \<and> status r' = status ?a \<and> stop_reason r' = stop_reason ?a" by blast
    have run: "update_request_with_output H L (t # ts) r = Inr (take (Suc n) (t # ts), stopped, r')" using C False I(1) by simp
    have ends: "\<forall>j<Suc n. ends_with L sp r (t # ts) j \<longleftrightarrow> stopped \<and> Suc j = Suc n"
    proof (intro allI impI)
      fix j assume j: "j < Suc n"
      show "ends_with L sp r (t # ts) j \<longleftrightarrow> stopped \<and> Suc j = Suc n"
      proof (cases j)
        case 0
        then show ?thesis using False I(6) by auto
      next
        case (Suc i)
        then show ?thesis using I(5) j ends_with_later [of L sp H t r ts i] by simp
      qed
    qed
    have at: "(t # ts) ! (Suc n - 1) = ts ! (n - 1)" if "0 < n" using that by (cases n) simp_all
    show ?thesis
      by (intro exI [of _ "Suc n"] exI [of _ stopped] exI [of _ r'] conjI run ends)
        (use I(2-4,6) at in \<open>simp_all split: if_splits\<close>)
  qed
qed

end
