(* ===== verification/Examples.thy ===== *)
theory Examples
  imports SchedulerFold PrefixHash StoreHistory Publication StopCheck
begin

text \<open>
  Concrete objects at which the properties are applied: a small digest function, requests, a
  pool, a dense and a hybrid KV cache manager, an encoder cache. They model no code of their
  own; each is what a constructor of the model returns.
\<close>

definition ex_hash :: hash_fn where
  "ex_hash x = (case x of HashBlock p ts ks \<Rightarrow> ''h'' @ p @ map (\<lambda>t. char_of (nat t)) ts
                        | HashNone s n \<Rightarrow> ''none'')"

definition ex_sampling :: sampling_params where
  "ex_sampling = \<lparr>sp_max_tokens = Some 4, sp_min_tokens = 0, sp_eos_token_id = Some 2,
     sp_stop_token_ids = [7], sp_structured_outputs = False, sp_constraint = None,
     sp_request_seed = None\<rparr>"

definition ex_request :: "string \<Rightarrow> int list \<Rightarrow> request" where
  "ex_request rid toks =
     \<lparr>request_id = rid, client_index = 0, priority = 0, sampling_params = Some ex_sampling,
      use_pooling = False, lora_req = None, arrival_time = 0, status = WAITING, events = [],
      stop_reason = None, max_tokens = 4, prompt_token_ids = toks, output_token_ids = [],
      all_token_ids = toks, num_computed_tokens = 0, spec_token_ids = [], cache_salt = None,
      mm_features = [], structured_output = None, is_prefill_chunk = False, num_preemptions = 0,
      num_cached_tokens = 0, block_hashes = [], block_hasher = None\<rparr>"

text \<open>What the request constructor returns is this, with the hashes filled in.\<close>

lemma ex_request_init:
  "request_init H rid (Some toks) (Some ex_sampling) 0 0 None None 0 None [] False = Inr (ex_request rid toks)"
  by (simp add: request_init_def ex_request_def ex_sampling_def update_block_hashes_def Let_def)

definition ex_pool :: block_pool where
  "ex_pool = projr (block_pool_init 4 True False False)"

lemma ex_pool: "block_pool_init 4 True False False = Inr ex_pool"
  by (simp add: ex_pool_def block_pool_init_def)

lemma ex_pool_inv: "pool_inv ex_pool [Blk 0, Blk 1, Blk 2, Blk 3]"
proof -
  have "map Blk [0..<nat 4] = [Blk 0, Blk 1, Blk 2, Blk 3]" by code_simp
  then show ?thesis using block_pool_init_inv(1) [OF ex_pool] by simp
qed

lemma ex_pool_real: "real_block ex_pool (Blk i) \<longleftrightarrow> i < 4"
  using block_pool_init_inv(3) [OF ex_pool] by (auto simp: real_block_iff)

lemma ex_pool_null: "\<not> is_null (blk ex_pool (Blk i))"
  using pool_invD(1) [OF ex_pool_inv] block_pool_init_inv(5) [OF ex_pool]
  by (simp add: pool_core_def null_ok_def)

definition ex_attention :: attention_spec where
  "ex_attention = \<lparr>at_block_size = 2, num_kv_heads = 1, head_size = 4, dtype = ''f16'', dtype_bytes = 2\<rparr>"

definition ex_config :: kv_cache_config where
  "ex_config = \<lparr>num_blocks = 8, kv_cache_groups =
     [\<lparr>layer_names = [''l0''], group_spec = FullAttentionSpec ex_attention\<rparr>,
      \<lparr>layer_names = [''l1''], group_spec = SlidingWindowSpec ex_attention 3\<rparr>]\<rparr>"

definition ex_kvm :: kv_cache_manager where
  "ex_kvm = projr (kv_cache_manager_init ex_hash ex_config 16 True False 0)"

lemma ex_kvm: "kv_cache_manager_init ex_hash ex_config 16 True False 0 = Inr ex_kvm"
  by (simp add: ex_kvm_def kv_cache_manager_init_def ex_config_def config_block_size_def
      block_pool_init_def get_kv_cache_coordinator_def Let_def)

lemma ex_kvm_inv: "kvm_inv ex_kvm" and ex_kvm_bs: "kvm_block_size ex_kvm = 2"
  and ex_kvm_idle: "co_table (single_type_managers ex_kvm) = {#}"
  and ex_kvm_blocks: "kvm_get_blocks ex_kvm rid = [[], []]"
  using kv_cache_manager_init_inv [OF ex_kvm, of 2]
  by (simp_all add: ex_config_def spec_ok_def ex_attention_def)

lemma ex_kvm_fields:
  "length (single_type_managers ex_kvm) = 2" "kvm_enable_caching ex_kvm" "kvm_max_model_len ex_kvm = 16"
  by (simp_all add: ex_kvm_def kv_cache_manager_init_def ex_config_def config_block_size_def
      block_pool_init_def get_kv_cache_coordinator_def Let_def)

definition ex_image :: "string \<Rightarrow> int \<Rightarrow> mm_feature" where
  "ex_image h pos = \<lparr>mm_identifier = h, modality = ''image'', mm_position = pos, mm_length = 2, num_embeds = 2\<rparr>"

definition ex_encoder :: encoder_cache where
  "ex_encoder = projr (encoder_cache_init 4)"

lemma ex_encoder_inv: "enc_inv ex_encoder"
  using encoder_cache_init_inv [of 4 ex_encoder] by (simp add: ex_encoder_def encoder_cache_init_def)

text \<open>A request of five tokens, and the manager after it got its slots.\<close>

definition ex_req5 :: request where
  "ex_req5 = attach_block_hasher ex_hash (2, kvm_none_hash ex_kvm) (ex_request ''a'' [1, 2, 3, 4, 5])"

definition ex_kvm5 :: kv_cache_manager where
  "ex_kvm5 = (case allocate_slots ex_req5 5 0 None 0 False ex_kvm of Inr (Some news, k) \<Rightarrow> k | _ \<Rightarrow> ex_kvm)"

text \<open>A second request with the same prompt.\<close>

definition ex_req5b :: request where
  "ex_req5b = attach_block_hasher ex_hash (2, kvm_none_hash ex_kvm) (ex_request ''b'' [1, 2, 3, 4, 5])"

lemma ex_req5_fields:
  "request_id ex_req5 = ''a''" "num_computed_tokens ex_req5 = 0" "num_tokens ex_req5 = 5"
  "length (block_hashes ex_req5) = 2" "request_id ex_req5b = ''b''" "num_computed_tokens ex_req5b = 0"
  "num_tokens ex_req5b = 5" "length (block_hashes ex_req5b) = 2"
  by code_simp+

lemma ex_kvm_slots0: "has_slots ex_kvm ''a'' 0" and ex_adoptable: "adoptable ex_kvm ''a'' 0 (empty_blocks ex_kvm)"
proof -
  show s: "has_slots ex_kvm ''a'' 0" by (simp add: has_slots_def ex_kvm_blocks)
  show "adoptable ex_kvm ''a'' 0 (empty_blocks ex_kvm)" by (rule adoptable_empty [OF ex_kvm_inv _ s]) simp
qed

lemma ex_enough:
  "\<not> get_num_free_blocks (kvm_pool ex_kvm)
       < estimates (single_type_managers ex_kvm) (kvm_pool ex_kvm) ''a'' 5 (empty_blocks ex_kvm) 0"
  by code_simp

lemma ex_kvm5:
  obtains news where "allocate_slots ex_req5 5 0 None 0 False ex_kvm = Inr (Some news, ex_kvm5)"
    and "kvm_inv ex_kvm5" and "has_slots ex_kvm5 ''a'' 5" and "kvm_get_blocks ex_kvm5 ''b'' = [[], []]"
proof -
  have cached: "per_group_cached None ex_kvm = empty_blocks ex_kvm" by (simp add: per_group_cached_def)
  from allocate_slots_spec [OF ex_kvm_inv, where r = ex_req5 and num_new = 5 and nc = None and num_hit = 0
      and lookahead = 0 and delay = False] ex_adoptable ex_enough
  obtain news k' where "allocate_slots ex_req5 5 0 None 0 False ex_kvm = Inr (Some news, k')" "kvm_inv k'"
    "has_slots k' ''a'' 5" "kvm_get_blocks k' ''b'' = kvm_get_blocks ex_kvm ''b''"
    unfolding cached by (auto simp: ex_req5_fields ex_kvm_fields)
  moreover from this(1) have "ex_kvm5 = k'" by (simp add: ex_kvm5_def)
  ultimately show thesis using that by (simp add: ex_kvm_blocks)
qed

lemma ex_kvm5_inv: "kvm_inv ex_kvm5" and ex_kvm5_b: "kvm_get_blocks ex_kvm5 ''b'' = [[], []]"
  and ex_kvm5_slots: "has_slots ex_kvm5 ''a'' 5"
  by (rule ex_kvm5; assumption)+

lemma ex_kvm5_fields:
  "kvm_block_size ex_kvm5 = 2" "kvm_enable_caching ex_kvm5" "kvm_max_model_len ex_kvm5 = 16"
  "length (single_type_managers ex_kvm5) = 2" "get_num_free_blocks (kvm_pool ex_kvm5) = 1"
  by code_simp+

definition ex_image_request :: "string \<Rightarrow> request" where
  "ex_image_request rid = (ex_request rid [1, 1, 5])\<lparr>mm_features := [ex_image ''i'' 0]\<rparr>"

text \<open>A store that holds both full blocks of \<open>ex_req5\<close>, and a connector to it.\<close>

definition ex_connector :: sim_connector where
  "ex_connector = set_block_bytes 16 (projr (sim_connector_init True False 2 [''m''] None))"

definition ex_store :: kv_store where
  "ex_store = (projr (kv_store_init ''s'' 1 0 None))\<lparr>resident_keys := map (store_key ex_connector) (block_hashes ex_req5)\<rparr>"

text \<open>Two full attention layers and five windowed ones.\<close>

definition ex_hybrid :: "(string \<times> kv_spec) list" where
  "ex_hybrid = [(''f0'', FullAttentionSpec ex_attention), (''w0'', SlidingWindowSpec ex_attention 3),
     (''w1'', SlidingWindowSpec ex_attention 3), (''f1'', FullAttentionSpec ex_attention),
     (''w2'', SlidingWindowSpec ex_attention 3), (''w3'', SlidingWindowSpec ex_attention 3),
     (''w4'', SlidingWindowSpec ex_attention 3)]"

text \<open>A scheduler over the example groups, with one request, and a step of it.\<close>

definition ex_sched_conf :: scheduler_config where
  "ex_sched_conf = \<lparr>max_num_running_reqs = 2, max_num_scheduled_tokens = 8, max_model_len = 16,
     max_num_partial_prefills = 1, enable_chunked_prefill = True, long_prefill_token_threshold = 0,
     sched_policy = FCFS, max_loras = None, spec_disable_by_batch_size = None, max_num_encoder_input_tokens = 4\<rparr>"

definition ex_sched0 :: scheduler where
  "ex_sched0 = projr (scheduler_init ex_hash ex_sched_conf ex_config True 0 4 None)"

definition ex_sched1 :: scheduler where
  "ex_sched1 = sched_add_request ex_hash (ex_request ''a'' [1, 2, 3, 4, 5]) ex_sched0"

definition ex_decision :: "scheduler_output \<times> scheduler" where "ex_decision = projr (schedule ex_sched1)"

definition ex_answer :: model_runner_output where
  "ex_answer = \<lparr>req_id_to_index = [(''a'', 0)], sampled_token_ids = [[9]], mro_spec_token_ids = None, pooler_output = []\<rparr>"

lemma ex_sched0: "scheduler_init ex_hash ex_sched_conf ex_config True 0 4 None = Inr ex_sched0"
  by (simp add: ex_sched0_def scheduler_init_def kv_cache_manager_init_def ex_config_def ex_sched_conf_def config_block_size_def
      block_pool_init_def get_kv_cache_coordinator_def Let_def encoder_cache_init_def)

lemma ex_setup: "sane_setup ex_sched_conf ex_config"
proof -
  have "\<forall>g\<in>set (kv_cache_groups ex_config). spec_ok 2 (group_spec g)"
    by (simp add: ex_config_def spec_ok_def ex_attention_def)
  then have "\<exists>B>0. \<forall>g\<in>set (kv_cache_groups ex_config). spec_ok B (group_spec g)" by (intro exI [of _ 2]) simp
  then show ?thesis by (simp add: sane_setup_def ex_sched_conf_def ex_config_def)
qed

lemma ex_admissible: "admissible ex_sched0 (ex_request ''a'' [1, 2, 3, 4, 5])"
proof -
  have "requests ex_sched0 = []" "max_model_len (conf ex_sched0) = 16" by code_simp+
  then show ?thesis
    by (simp add: admissible_def table_def ex_request_def ex_sampling_def num_tokens_def num_output_tokens_def
        features_fit_def budget_ok_def)
qed

lemma ex_reaches: "reaches ex_hash ex_sched0 ex_sched1"
  unfolding ex_sched1_def by (rule reaches.arrive [OF reaches.fresh ex_admissible])

lemma ex_decision: "schedule ex_sched1 = Inr ex_decision"
  and ex_scheduled: "so_num_scheduled_tokens (fst ex_decision) = [(''a'', 5)]"
  and ex_decided: "map_option num_computed_tokens (map_of (requests (snd ex_decision)) ''a'') = Some 5"
    "map_option num_tokens (map_of (requests (snd ex_decision)) ''a'') = Some 5"
    "map_option use_pooling (map_of (requests (snd ex_decision)) ''a'') = Some False"
    "running (snd ex_decision) = [''a'']"
proof -
  show "schedule ex_sched1 = Inr ex_decision"
    using schedule_ok [OF run_ready(1) [OF ex_sched0 ex_setup ex_reaches]] by (auto simp: ex_decision_def)
qed code_simp+

lemma ex_worker: "worker_ok (fst ex_decision) ex_answer (snd ex_decision)"
  using ex_decided unfolding worker_ok_def ex_scheduled
  by (auto simp: answers_def table_def ex_answer_def indexed_def)

section \<open>Two things the code does\<close>

text \<open>
  The extra keys do not say what they are: the name of a LoRA adapter and a cache salt are both
  appended as bare strings. So a request under adapter \<open>x\<close> (not the empty string) and one without an adapter but with the
  salt \<open>x\<close> digest the same for their first block.
\<close>

lemma salt_as_adapter:
  "x \<noteq> [] \<Longrightarrow> block_keys 2 ((ex_request rid [1, 2])\<lparr>lora_req := Some \<lparr>lora_name = x, lora_int_id = 1\<rparr>\<rparr>) 0
     = block_keys 2 ((ex_request rid [1, 2])\<lparr>cache_salt := Some x\<rparr>) 0"
  by (simp add: generate_block_hash_extra_keys_def ex_request_def)

text \<open>
  A request with the same image at two positions: releasing the first input releases the entry, so
  another request may evict it while \<open>get_cached_input_ids\<close> still counts the second input as cached.
\<close>

lemma repeated_image_evicted:
  defines "r \<equiv> (ex_request ''a'' [1, 1, 1, 1, 5])\<lparr>mm_features := [ex_image ''i'' 0, ex_image ''i'' 2]\<rparr>"
    and "o1 \<equiv> (ex_request ''b'' [1, 1, 1, 1])\<lparr>mm_features := [(ex_image ''j'' 0)\<lparr>num_embeds := 4\<rparr>]\<rparr>"
  shows "case rbind (allocate r 0 ex_encoder) (\<lambda>c1. rbind (allocate r 1 c1) (free_encoder_input r 0)) of
      Inl _ \<Rightarrow> False
    | Inr c \<Rightarrow> (case can_allocate o1 0 c of Inl _ \<Rightarrow> False
        | Inr (ok, c') \<Rightarrow> ok \<and> get_cached_input_ids r c' = [1] \<and> has_cache r 1 c' = Inr False)"
  unfolding r_def o1_def by code_simp

end
