(* ===== verification/RegexGen.thy ===== *)
theory RegexGen
  imports Prelude "HOL-Library.Char_ord"
begin

text \<open>
  The regular-expression half of \<open>sim/grammar.py\<close>: a recursive-descent generator that walks a
  pattern and emits a string that matches it, drawing from a random generator as it goes.

  The libraries it calls are parameters, the fields of \<open>py_libs\<close>: numpy's \<open>Generator\<close> (its
  state is \<open>'g\<close>; \<open>libs_ok\<close> is what numpy documents of \<open>integers\<close>), \<open>re\<close>, \<open>json\<close>, the
  conversion of a text to a float, how many calls
  of a function that recurses the interpreter's stack has room for (\<open>recursion_limit\<close>) and how many
  nested groups of a pattern (\<open>group_limit\<close>, smaller: the descent into a group takes \<open>_alternation\<close>,
  \<open>_sequence\<close>, \<open>_quantified\<close>, \<open>_atom\<close> and its closure). The position \<open>self.pos\<close> is represented by the suffix of the
  pattern that starts there; a position past the end is the empty suffix. The closures \<open>_atom\<close>
  returns are the datatype \<open>atom\<close>, run by \<open>run_atom\<close>.
\<close>

section \<open>The libraries\<close>

record 'g py_libs =
  integers :: "int \<Rightarrow> int \<Rightarrow> 'g \<Rightarrow> int \<times> 'g"
  uniform :: "rat \<Rightarrow> rat \<Rightarrow> 'g \<Rightarrow> rat \<times> 'g"
  re_compiles :: "string \<Rightarrow> bool"
  re_fullmatch :: "string \<Rightarrow> string \<Rightarrow> bool"
  float_of_text :: "string \<Rightarrow> rat option"
  json_loads :: "string \<Rightarrow> json result"
  json_dumps :: "json \<Rightarrow> string"
  py_str :: "json \<Rightarrow> string"
  recursion_limit :: nat
  group_limit :: nat

text \<open>\<open>rng.integers(low, high)\<close> raises unless the range is inhabited, and stays in it.\<close>

definition libs_ok :: "'g py_libs \<Rightarrow> bool" where
  "libs_ok W \<longleftrightarrow> (\<forall>low high g. low < high \<longrightarrow> low \<le> fst (integers W low high g) \<and> fst (integers W low high g) < high)"

definition draw :: "'g py_libs \<Rightarrow> int \<Rightarrow> int \<Rightarrow> 'g \<Rightarrow> (int \<times> 'g) result" where
  "draw W low high g = (if high \<le> low then Inl ValueError else Inr (integers W low high g))"

text \<open>\<open>xs[int(rng.integers(len(xs)))]\<close>.\<close>

definition pick :: "'g py_libs \<Rightarrow> 'a list \<Rightarrow> 'g \<Rightarrow> ('a \<times> 'g) result" where
  "pick W xs g = rbind (draw W 0 (int (length xs)) g) (\<lambda>(i, g').
     if i < int (length xs) then Inr (xs ! nat i, g') else Inl IndexError)"

section \<open>\<open>int\<close> of a text\<close>

definition is_space :: "char \<Rightarrow> bool" where
  "is_space c \<longleftrightarrow> (let n = of_char c :: nat in 9 \<le> n \<and> n \<le> 13 \<or> 28 \<le> n \<and> n \<le> 32 \<or> n = 133 \<or> n = 160)"

definition strip :: "string \<Rightarrow> string" where
  "strip s = rev (dropWhile is_space (rev (dropWhile is_space s)))"

definition digit_value :: "char \<Rightarrow> int option" where
  "digit_value c = (let n = of_char c :: int in if 48 \<le> n \<and> n \<le> 57 then Some (n - 48) else None)"

text \<open>Digits, with single underscores between them.\<close>

fun digits_value :: "string \<Rightarrow> int \<Rightarrow> bool \<Rightarrow> int option" where
  "digits_value [] acc after_digit = (if after_digit then Some acc else None)"
| "digits_value (c # cs) acc after_digit =
     (case digit_value c of
        Some d \<Rightarrow> digits_value cs (10 * acc + d) True
      | None \<Rightarrow> if c = CHR ''_'' \<and> after_digit then digits_value cs acc False else None)"

definition int_of_text :: "string \<Rightarrow> int result" where
  "int_of_text s =
     (let t = strip s;
          v = (case t of
                 [] \<Rightarrow> None
               | c # cs \<Rightarrow> if c = CHR ''-'' then map_option uminus (digits_value cs 0 False)
                           else if c = CHR ''+'' then digits_value cs 0 False
                           else digits_value t 0 False)
      in case v of None \<Rightarrow> Inl ValueError | Some n \<Rightarrow> Inr n)"

section \<open>Tables\<close>

definition words :: "string list" where
  "words = [''alpha'', ''bravo'', ''charlie'', ''delta'', ''echo'', ''foxtrot'', ''golf'', ''hotel'', ''india'',
     ''juliet'', ''kilo'', ''lima'', ''mike'', ''november'', ''oscar'', ''papa'']"

definition lower_letters :: string where
  "lower_letters = ''abcdefghijklmnopqrstuvwxyz''"

definition upper_letters :: string where
  "upper_letters = ''ABCDEFGHIJKLMNOPQRSTUVWXYZ''"

definition ascii_letters :: string where
  "ascii_letters = lower_letters @ upper_letters"

definition escape_classes :: "char \<Rightarrow> string option" where
  "escape_classes c =
     (if c = CHR ''d'' then Some digit_chars
      else if c = CHR ''w'' then Some (ascii_letters @ digit_chars @ ''_'')
      else if c = CHR ''s'' then Some '' ''
      else if c = CHR ''D'' then Some ascii_letters
      else if c = CHR ''W'' then Some '' -''
      else if c = CHR ''S'' then Some (ascii_letters @ digit_chars)
      else None)"

definition backslash :: char where
  "backslash = CHR 0x5C"

definition unsupported_regex :: "string list" where
  "unsupported_regex = [''(?='', ''(?!'', ''(?<='', ''(?<!'', [backslash, CHR ''b''], [backslash, CHR ''B''],
     [backslash, CHR ''1''], [backslash, CHR ''2''], [backslash, CHR ''3'']]"

definition star_max :: int where
  "star_max = 3"

text \<open>\<open>sub in s\<close> for strings.\<close>

fun has_infix :: "string \<Rightarrow> string \<Rightarrow> bool" where
  "has_infix sub [] \<longleftrightarrow> sub = []"
| "has_infix sub (c # cs) \<longleftrightarrow> take (length sub) (c # cs) = sub \<or> has_infix sub cs"

section \<open>Character classes\<close>

definition char_range :: "char \<Rightarrow> char \<Rightarrow> string" where
  "char_range low high = map char_of [of_char low ..< Suc (of_char high)]"

text \<open>The members up to the closing bracket, and the pattern behind it.\<close>

fun class_members :: "string \<Rightarrow> (string \<times> string) result" where
  "class_members [] = Inl IndexError"
| "class_members (c # cs) =
     (if c = CHR '']'' then Inr ([], cs)
      else if c = backslash then
        (case cs of
           [] \<Rightarrow> Inl IndexError
         | e # cs' \<Rightarrow>
             rbind (class_members cs') (\<lambda>(ms, rest).
             Inr ((case escape_classes e of Some xs \<Rightarrow> xs | None \<Rightarrow> [e]) @ ms, rest)))
      else
        (case cs of
           d # h # cs' \<Rightarrow>
             if d = CHR ''-'' \<and> h \<noteq> CHR '']'' then
               rbind (class_members cs') (\<lambda>(ms, rest). Inr (char_range c h @ ms, rest))
             else rbind (class_members cs) (\<lambda>(ms, rest). Inr (c # ms, rest))
         | _ \<Rightarrow> rbind (class_members cs) (\<lambda>(ms, rest). Inr (c # ms, rest))))"

definition char_class :: "string \<Rightarrow> (string \<times> string) result" where
  "char_class rest =
     (case rest of
        [] \<Rightarrow> Inl IndexError
      | c # cs \<Rightarrow>
          (let negated = (c = CHR ''^'')
           in rbind (class_members (if negated then cs else rest)) (\<lambda>(ms, rest').
              let ms' = (if negated then filter (\<lambda>x. x \<notin> set ms) (ascii_letters @ digit_chars) else ms)
              in if ms' = [] then Inl ValueError else Inr (ms', rest'))))"

section \<open>The generator\<close>

datatype atom =
    Group string string \<comment> \<open>the text between the parentheses, and the text its parse produced\<close>
  | Members string
  | Literal char
  | AnyChar

text \<open>\<open>for _ in range(k)\<close> over something that draws.\<close>

primrec repeatE :: "nat \<Rightarrow> ('g \<Rightarrow> ('a \<times> 'g) result) \<Rightarrow> 'g \<Rightarrow> ('a list \<times> 'g) result" where
  "repeatE 0 f g = Inr ([], g)"
| "repeatE (Suc k) f g = rbind (f g) (\<lambda>(x, g1). rbind (repeatE k f g1) (\<lambda>(xs, g2). Inr (x # xs, g2)))"

definition maybe_lazy :: "string \<Rightarrow> string" where
  "maybe_lazy rest = (case rest of [] \<Rightarrow> [] | c # cs \<Rightarrow> if c = CHR ''?'' \<or> c = CHR ''+'' then cs else rest)"

text \<open>\<open>rest\<close> starts with the opening brace.\<close>

definition repeat_bounds :: "string \<Rightarrow> (int \<times> int \<times> string) result" where
  "repeat_bounds rest =
     (if CHR ''}'' \<notin> set rest then Inl ValueError
      else
        let body = takeWhile (\<lambda>c. c \<noteq> CHR ''}'') (tl rest);
            rest' = tl (dropWhile (\<lambda>c. c \<noteq> CHR ''}'') rest)
        in if CHR '','' \<notin> set body then rbind (int_of_text body) (\<lambda>n. Inr (n, n, rest'))
           else
             let low_text = takeWhile (\<lambda>c. c \<noteq> CHR '','') body;
                 high_text = tl (dropWhile (\<lambda>c. c \<noteq> CHR '','') body)
             in rbind (if low_text = [] then Inr 0 else int_of_text low_text) (\<lambda>low.
                rbind (if high_text = [] then Inr (low + star_max) else int_of_text high_text) (\<lambda>high.
                if high < low then Inl ValueError else Inr (low, high, rest'))))"

text \<open>
  The methods of \<open>_RegexGenerator\<close>. The recursion goes through the groups only: \<open>_atom\<close> calls
  \<open>_alternation\<close> on the text behind a parenthesis, and its closure builds a new generator for the
  text between the parentheses. So the methods take these two as arguments, and \<open>alternation\<close> ties
  the knot, with the number of groups the stack still has room for as first argument. The loops shorten the pattern; where they would not, they could
  not end, and the test of it is shown never to fail.
\<close>

type_synonym 'g parse = "string \<Rightarrow> 'g \<Rightarrow> (string \<times> string \<times> 'g) result"

definition full_with :: "'g parse \<Rightarrow> string \<Rightarrow> 'g \<Rightarrow> (string \<times> 'g) result" where
  "full_with alt pattern g =
     rbind (alt (if take 1 pattern = ''^'' then drop 1 pattern else pattern) g) (\<lambda>(text, rest, g1).
     let rest' = (if take 1 rest = ''$'' then drop 1 rest else rest)
     in if rest' = [] then Inr (text, g1) else Inl UnsupportedConstraintError)"

definition atom_with :: "'g parse \<Rightarrow> string \<Rightarrow> 'g \<Rightarrow> (atom \<times> string \<times> 'g) result" where
  "atom_with alt rest g =
     (case rest of
        [] \<Rightarrow> Inl IndexError
      | c # cs \<Rightarrow>
          if c = CHR ''('' then
            (if take 1 cs = ''?'' \<and> take 2 cs \<noteq> ''?:'' then Inl UnsupportedConstraintError
             else
               let start = (if take 2 cs = ''?:'' then drop 2 cs else cs)
               in rbind (alt start g) (\<lambda>(text, rest1, g1).
                  if take 1 rest1 = '')''
                  then Inr (Group (take (length start - length rest1) start) text, drop 1 rest1, g1)
                  else Inl ValueError))
          else if c = CHR ''['' then rbind (char_class cs) (\<lambda>(ms, rest1). Inr (Members ms, rest1, g))
          else if c = backslash then
            (case cs of
               [] \<Rightarrow> Inl IndexError
             | e # rest1 \<Rightarrow>
                 Inr (case escape_classes e of Some ms \<Rightarrow> Members ms | None \<Rightarrow> Literal e, rest1, g))
          else if c = CHR ''.'' then Inr (AnyChar, cs, g)
          else Inr (Literal c, cs, g))"

definition run_atom :: "(string \<Rightarrow> 'g \<Rightarrow> (string \<times> 'g) result) \<Rightarrow> 'g py_libs \<Rightarrow> atom \<Rightarrow> 'g \<Rightarrow> (string \<times> 'g) result" where
  "run_atom full W a g =
     (case a of
        Group inner text \<Rightarrow> if inner = [] then Inr (text, g) else full inner g
      | Members ms \<Rightarrow> rbind (pick W ms g) (\<lambda>(c, g1). Inr ([c], g1))
      | Literal c \<Rightarrow> Inr ([c], g)
      | AnyChar \<Rightarrow> rbind (pick W words g) (\<lambda>(w, g1). Inr ([hd w], g1)))"

text \<open>\<open>shift + k\<close> repetitions, \<open>k\<close> drawn from the range.\<close>

definition some_times :: "'g py_libs \<Rightarrow> ('g \<Rightarrow> (string \<times> 'g) result) \<Rightarrow> int \<Rightarrow> int \<Rightarrow> int \<Rightarrow> 'g \<Rightarrow> (string \<times> 'g) result" where
  "some_times W once shift low high g =
     rbind (draw W low high g) (\<lambda>(k, g1).
     rbind (repeatE (nat (shift + k)) once g1) (\<lambda>(ts, g2). Inr (concat ts, g2)))"

definition quantified_with :: "'g py_libs \<Rightarrow> 'g parse \<Rightarrow> 'g parse" where
  "quantified_with W alt rest g =
     rbind (atom_with alt rest g) (\<lambda>(a, rest1, g1).
     let once = run_atom (full_with alt) W a;
         c = take 1 rest1
     in if c = ''?'' then
          rbind (draw W 0 2 g1) (\<lambda>(k, g2).
          if k \<noteq> 0 then rbind (once g2) (\<lambda>(text, g3). Inr (text, maybe_lazy (drop 1 rest1), g3))
          else Inr ([], maybe_lazy (drop 1 rest1), g2))
        else if c = ''*'' then
          rbind (some_times W once 0 0 (star_max + 1) g1) (\<lambda>(text, g2). Inr (text, maybe_lazy (drop 1 rest1), g2))
        else if c = ''+'' then
          rbind (some_times W once 1 0 star_max g1) (\<lambda>(text, g2). Inr (text, maybe_lazy (drop 1 rest1), g2))
        else if c = ''{'' then
          rbind (repeat_bounds rest1) (\<lambda>(low, high, rest2).
          rbind (some_times W once 0 low (high + 1) g1) (\<lambda>(text, g2). Inr (text, rest2, g2)))
        else rbind (once g1) (\<lambda>(text, g2). Inr (text, rest1, g2)))"

fun sequence :: "'g parse \<Rightarrow> 'g parse" where
  "sequence quantified rest g =
     (if rest = [] \<or> hd rest \<in> {CHR ''|'', CHR '')'', CHR ''$''} then Inr ([], rest, g)
      else
        rbind (quantified rest g) (\<lambda>(part, rest1, g1).
        if length rest1 < length rest then
          rbind (sequence quantified rest1 g1) (\<lambda>(parts, rest2, g2). Inr (part @ parts, rest2, g2))
        else Inl RecursionError))"

declare sequence.simps [simp del]

fun branches :: "'g parse \<Rightarrow> string \<Rightarrow> 'g \<Rightarrow> (string list \<times> string \<times> 'g) result" where
  "branches seq rest g =
     rbind (seq rest g) (\<lambda>(b, rest1, g1).
     if take 1 rest1 = ''|'' then
       (if length (drop 1 rest1) < length rest
        then rbind (branches seq (drop 1 rest1) g1) (\<lambda>(bs, rest2, g2). Inr (b # bs, rest2, g2))
        else Inl RecursionError)
     else Inr ([b], rest1, g1))"

declare branches.simps [simp del]

primrec alternation :: "nat \<Rightarrow> 'g py_libs \<Rightarrow> 'g parse" where
  "alternation 0 W rest g = Inl RecursionError"
| "alternation (Suc depth) W rest g =
     rbind (branches (sequence (quantified_with W (alternation depth W))) rest g) (\<lambda>(bs, rest', g1).
     rbind (pick W bs g1) (\<lambda>(b, g2). Inr (b, rest', g2)))"

definition generate_regex_match :: "'g py_libs \<Rightarrow> string \<Rightarrow> 'g \<Rightarrow> (string \<times> 'g) result" where
  "generate_regex_match W pattern g =
     (if \<exists>m\<in>set unsupported_regex. has_infix m pattern then Inl UnsupportedConstraintError
      else if \<not> re_compiles W pattern then Inl ValueError
      else
        rbind (full_with (alternation (group_limit W) W) pattern g) (\<lambda>(value, g1).
        if re_fullmatch W pattern value then Inr (value, g1) else Inl UnsupportedConstraintError))"

end
