(* ===== verification/Doubles.thy ===== *)
theory Doubles
  imports Prelude "HOL-Library.Log_Nat"
begin

text \<open>
  Python's floats: a float is a rational number that a double represents, and the result of an
  operation is the exact result rounded to the nearest double, ties to the even significand. Values
  past the largest double, which are infinite in Python or raise, are where the operations that use
  this say so; NaN and the infinities are no values of the model.
\<close>

section \<open>Rounding\<close>

text \<open>To the nearest integer, ties to the even one.\<close>

definition round_half_even :: "rat \<Rightarrow> int" where
  "round_half_even x =
     (let n = \<lfloor>x\<rfloor>; r = x - of_int n
      in if r < 1 / 2 then n else if 1 / 2 < r then n + 1 else if even n then n else n + 1)"

text \<open>The exponent of the leading bit.\<close>

definition exponent_of :: "rat \<Rightarrow> int" where
  "exponent_of r =
     (let (a, b) = quotient_of \<bar>r\<bar>; e = int (floorlog 2 (nat a)) - int (floorlog 2 (nat b))
      in if \<bar>r\<bar> < 2 powi e then e - 1 else e)"

text \<open>53 bits of significand, no exponent below \<open>-1074\<close>.\<close>

definition double_of :: "rat \<Rightarrow> rat" where
  "double_of r =
     (let k = max (- 1074) (exponent_of r - 52) in of_int (round_half_even (r / 2 powi k)) * 2 powi k)"

text \<open>Exact values from here on round to an infinity.\<close>

definition float_limit :: int where
  "float_limit = 2 ^ 1024 - 2 ^ 970"

section \<open>The error\<close>

lemma round_half_even_error: "\<bar>of_int (round_half_even x) - x\<bar> \<le> 1 / 2"
proof -
  define n where "n = \<lfloor>x\<rfloor>"
  have "of_int n \<le> x" "x < of_int n + 1" unfolding n_def by linarith+
  then show ?thesis unfolding round_half_even_def Let_def n_def [symmetric] by (auto simp: abs_if)
qed

lemma round_half_even_int [simp]: "round_half_even (of_int n) = n"
  by (simp add: round_half_even_def)

text \<open>No integer is nearer.\<close>

lemma round_half_even_nearest: "\<bar>of_int (round_half_even x) - x\<bar> \<le> \<bar>of_int n - x\<bar>"
proof (cases "n = round_half_even x")
  case False
  then have "1 \<le> \<bar>of_int n - (of_int (round_half_even x) :: rat)\<bar>"
    by (metis of_int_1_le_iff of_int_abs of_int_diff int_one_le_iff_zero_less right_minus_eq zero_less_abs_iff)
  then show ?thesis using round_half_even_error [of x] by linarith
qed simp

lemma powi_int: "(2::rat) powi (int m - int n) = 2 ^ m / 2 ^ n"
  by (simp add: power_int_diff)

lemma exponent_bounds:
  assumes "r \<noteq> 0"
  shows "2 powi exponent_of r \<le> \<bar>r\<bar>" and "\<bar>r\<bar> < 2 powi (exponent_of r + 1)"
proof -
  obtain a b where q: "quotient_of \<bar>r\<bar> = (a, b)" by (cases "quotient_of \<bar>r\<bar>")
  have b: "0 < b" by (rule quotient_of_denom_pos [OF q])
  have r: "\<bar>r\<bar> = of_int a / of_int b" by (rule quotient_of_div [OF q])
  have "0 < (of_int a :: rat) / of_int b" using assms r by (metis zero_less_abs_iff)
  then have a: "0 < a" using b by (simp add: zero_less_divide_iff)
  obtain A B where AB: "a = int A" "b = int B" "0 < A" "0 < B"
    using zero_less_imp_eq_int [OF a] zero_less_imp_eq_int [OF b] by blast
  let ?m = "floorlog 2 A" and ?n = "floorlog 2 B"
  have A: "2 ^ (?m - 1) \<le> A" "A < 2 ^ ?m" and B: "2 ^ (?n - 1) \<le> B" "B < 2 ^ ?n"
    using floorlog_bounds [of A 2] floorlog_bounds [of B 2] AB by auto
  have "0 < ?m" using A(2) AB(3) by (cases ?m) simp_all
  moreover have "0 < ?n" using B(2) AB(4) by (cases ?n) simp_all
  ultimately obtain m n where mn: "?m = Suc m" "?n = Suc n" by (metis gr0_implies_Suc)
  have ra: "(2::rat) ^ m \<le> of_nat A" "of_nat A < (2::rat) ^ Suc m" "(2::rat) ^ n \<le> of_nat B" "of_nat B < (2::rat) ^ Suc n"
    using A B mn by (metis diff_Suc_1 of_nat_le_iff of_nat_less_iff of_nat_numeral of_nat_power)+
  have rr: "\<bar>r\<bar> = of_nat A / of_nat B" using r AB by simp
  have Bp: "0 < (of_nat B :: rat)" using AB by simp
  have up: "\<bar>r\<bar> < 2 powi (int ?m - int ?n + 1)"
  proof -
    have "of_nat A / of_nat B < (2::rat) ^ Suc m / of_nat B" using ra Bp by (simp add: divide_strict_right_mono)
    also have "\<dots> \<le> 2 ^ Suc m / 2 ^ n" using ra by (intro divide_left_mono) (simp_all add: AB)
    also have "\<dots> = 2 powi (int (Suc m) - int n)" by (simp only: powi_int)
    finally show ?thesis using rr mn by (simp add: algebra_simps)
  qed
  have low: "2 powi (int ?m - int ?n - 1) \<le> \<bar>r\<bar>"
  proof -
    have "2 powi (int m - int (Suc n)) = (2::rat) ^ m / 2 ^ Suc n" by (simp only: powi_int)
    also have "\<dots> \<le> 2 ^ m / of_nat B" using ra Bp by (intro divide_left_mono) simp_all
    also have "\<dots> \<le> of_nat A / of_nat B" using ra Bp by (intro divide_right_mono) simp_all
    finally show ?thesis using rr mn by (simp add: algebra_simps)
  qed
  show "2 powi exponent_of r \<le> \<bar>r\<bar>" "\<bar>r\<bar> < 2 powi (exponent_of r + 1)"
    using up low unfolding exponent_of_def q Let_def prod.case by (auto simp: AB algebra_simps)
qed

lemma powi_le: "i \<le> j \<Longrightarrow> (2::rat) powi i \<le> 2 powi j"
  by (rule power_int_increasing) simp_all

lemma powi_less_iff: "(2::rat) powi i < 2 powi j \<longleftrightarrow> i < j"
  using power_int_strict_increasing [of i j "2::rat"] powi_le [of j i] by (cases "i < j") auto

lemma exponent_less: "r \<noteq> 0 \<Longrightarrow> \<bar>r\<bar> < 2 powi j \<Longrightarrow> exponent_of r < j"
  using exponent_bounds(1) [of r] powi_less_iff [of "exponent_of r" j] by linarith

lemma exponent_unique: "2 powi e \<le> \<bar>r\<bar> \<Longrightarrow> \<bar>r\<bar> < 2 powi (e + 1) \<Longrightarrow> exponent_of r = e"
proof -
  assume a: "2 powi e \<le> \<bar>r\<bar>" "\<bar>r\<bar> < 2 powi (e + 1)"
  have "(0::rat) < 2 powi e" by simp
  then have "0 < \<bar>r\<bar>" using a(1) by linarith
  then have "r \<noteq> 0" by simp
  note E = exponent_bounds [OF this]
  have "(2::rat) powi e < 2 powi (exponent_of r + 1)" "(2::rat) powi exponent_of r < 2 powi (e + 1)" using a E by linarith+
  then show ?thesis by (simp add: powi_less_iff)
qed

lemma double_of_0 [simp]: "double_of 0 = 0"
  by (simp add: double_of_def round_half_even_def)

lemma double_error:
  assumes "\<bar>r\<bar> < 2 powi j" and "- 1021 \<le> j"
  shows "\<bar>double_of r - r\<bar> \<le> 2 powi (j - 53) / 2"
proof (cases "r = 0")
  case False
  let ?k = "max (- 1074) (exponent_of r - 52)"
  have k: "?k \<le> j - 53" using exponent_less [OF False assms(1)] assms(2) by simp
  let ?p = "(2::rat) powi ?k"
  have p: "0 < ?p" by simp
  have "double_of r - r = (of_int (round_half_even (r / ?p)) - r / ?p) * ?p"
    using p by (simp add: double_of_def Let_def algebra_simps)
  then have "\<bar>double_of r - r\<bar> = \<bar>of_int (round_half_even (r / ?p)) - r / ?p\<bar> * ?p" using p by (simp add: abs_mult)
  also have "\<dots> \<le> 1 / 2 * ?p" using round_half_even_error p by (intro mult_right_mono) simp_all
  also have "\<dots> \<le> 1 / 2 * 2 powi (j - 53)" using powi_le [OF k] by simp
  finally show ?thesis by simp
qed simp

text \<open>A multiple of the unit is represented.\<close>

lemma double_of_exact:
  assumes "r = of_int n * 2 powi max (- 1074) (exponent_of r - 52)"
  shows "double_of r = r"
proof -
  let ?p = "(2::rat) powi max (- 1074) (exponent_of r - 52)"
  have "?p \<noteq> 0" by simp
  then have "r / ?p = of_int n" using assms by (metis nonzero_mult_div_cancel_right)
  then show ?thesis using assms by (simp add: double_of_def Let_def)
qed

lemma double_of_int: "\<bar>n\<bar> < 2 ^ 53 \<Longrightarrow> double_of (of_int n) = of_int n"
proof (cases "n = 0")
  case False
  assume n: "\<bar>n\<bar> < 2 ^ 53"
  have "\<bar>of_int n :: rat\<bar> < 2 ^ 53" using n by (metis of_int_abs of_int_less_iff of_int_numeral of_int_power)
  then have "\<bar>of_int n :: rat\<bar> < 2 powi 53" by simp
  then have "exponent_of (of_int n) < 53" using False by (intro exponent_less) simp_all
  then have "max (- 1074) (exponent_of (of_int n) - 52) \<le> 0" by simp
  then obtain j where j: "max (- 1074) (exponent_of (of_int n) - 52) = - int j" by (metis minus_minus neg_0_le_iff_le nonneg_int_cases)
  have "(of_int n :: rat) = of_int (n * 2 ^ j) * 2 powi (- int j)" by (simp add: power_int_minus)
  then show ?thesis using double_of_exact [of "of_int n" "n * 2 ^ j"] j by simp
qed simp

text \<open>Up to the largest exponent the doubles are these numbers, and no other is nearer.\<close>

definition is_double :: "rat \<Rightarrow> bool" where
  "is_double d \<longleftrightarrow> (\<exists>m k. \<bar>m\<bar> \<le> 2 ^ 53 \<and> - 1074 \<le> k \<and> d = of_int m * 2 powi k)"

lemma powi_shift: "i \<le> j \<Longrightarrow> (2::rat) powi j = of_int (2 ^ nat (j - i)) * 2 powi i"
proof -
  assume "i \<le> j"
  then have "(2::rat) powi j = 2 powi (int (nat (j - i)) + i)" by simp
  also have "\<dots> = 2 powi int (nat (j - i)) * 2 powi i" by (rule power_int_add) simp
  also have "(2::rat) powi int (nat (j - i)) = of_int (2 ^ nat (j - i))" unfolding power_int_of_nat by simp
  finally show ?thesis .
qed

lemma double_of_nearest:
  assumes "is_double d"
  shows "\<bar>double_of r - r\<bar> \<le> \<bar>d - r\<bar>"
proof (cases "r = 0")
  case nonzero: False
  define k where "k = max (- 1074) (exponent_of r - 52)"
  define p where "p = (2::rat) powi k"
  have p: "0 < p" by (simp add: p_def)
  have fl: "double_of r = of_int (round_half_even (r / p)) * p" by (simp add: double_of_def Let_def k_def p_def)
  have near: "\<bar>double_of r - r\<bar> \<le> \<bar>of_int n * p - r\<bar>" for n
  proof -
    have e: "of_int n * p - r = (of_int n - r / p) * p" for n using p by (simp add: algebra_simps)
    show ?thesis unfolding fl e abs_mult using round_half_even_nearest [of "r / p" n] p by (intro mult_right_mono) simp_all
  qed
  from assms obtain m j where d: "\<bar>m\<bar> \<le> 2 ^ 53" "- 1074 \<le> j" "d = of_int m * 2 powi j" by (auto simp: is_double_def)
  show ?thesis
  proof (cases "k \<le> j")
    case True
    then have "d = of_int (m * 2 ^ nat (j - k)) * p" unfolding d(3) p_def powi_shift [OF True] by simp
    then show ?thesis using near by metis
  next
    case False
    then have k: "k = exponent_of r - 52" "j + 1 \<le> k" using d(2) by (simp_all add: k_def max_def split: if_splits)
    have big: "2 ^ 52 * p \<le> \<bar>r\<bar>"
    proof -
      have "(2::rat) powi (52 + k) = 2 powi 52 * p" unfolding p_def by (rule power_int_add) simp
      then have "(2::rat) powi (52 + k) = 2 ^ 52 * p" by simp
      then show ?thesis using exponent_bounds(1) [OF nonzero] k(1) by simp
    qed
    have "\<bar>d\<bar> \<le> 2 ^ 52 * p"
    proof -
      have "\<bar>of_int m :: rat\<bar> \<le> 2 ^ 53" using d(1) by (metis of_int_abs of_int_le_iff of_int_numeral of_int_power)
      then have "\<bar>d\<bar> \<le> 2 ^ 53 * 2 powi j" unfolding d(3) abs_mult by (intro mult_mono) simp_all
      also have "\<dots> = 2 ^ 52 * 2 powi (j + 1)" by (simp add: power_int_add)
      also have "\<dots> \<le> 2 ^ 52 * p" using powi_le [OF k(2)] by (simp add: p_def)
      finally show ?thesis .
    qed
    moreover have "\<bar>double_of r - r\<bar> \<le> \<bar>r\<bar> - 2 ^ 52 * p"
    proof (cases "0 \<le> r")
      case True
      then show ?thesis using near [of "2 ^ 52"] big by simp
    next
      case False
      then show ?thesis using near [of "- (2 ^ 52)"] big by simp
    qed
    moreover have "\<bar>r\<bar> - \<bar>d\<bar> \<le> \<bar>d - r\<bar>" by (simp add: abs_if)
    ultimately show ?thesis by linarith
  qed
qed simp

lemma double_of_is_double: "is_double (double_of r)"
proof -
  define k where "k = max (- 1074) (exponent_of r - 52)"
  define p where "p = (2::rat) powi k"
  have p: "0 < p" by (simp add: p_def)
  have "\<bar>r\<bar> \<le> 2 ^ 53 * p"
  proof (cases "r = 0")
    case False
    have "(2::rat) powi (53 + k) = 2 powi 53 * p" unfolding p_def by (rule power_int_add) simp
    then have "(2::rat) powi (53 + k) = 2 ^ 53 * p" by simp
    moreover have "(2::rat) powi (exponent_of r + 1) \<le> 2 powi (53 + k)" by (rule powi_le) (simp add: k_def)
    ultimately show ?thesis using exponent_bounds(2) [OF False] by linarith
  qed (use p in simp)
  then have b: "\<bar>r / p\<bar> \<le> 2 ^ 53" using p by (simp add: pos_divide_le_eq)
  have "\<bar>round_half_even (r / p)\<bar> \<le> 2 ^ 53"
  proof -
    have "(of_int \<bar>round_half_even (r / p)\<bar> :: rat) \<le> 2 ^ 53 + 1 / 2" 
      unfolding of_int_abs using round_half_even_error [of "r / p"] b by linarith
    then have "(of_int \<bar>round_half_even (r / p)\<bar> :: rat) < of_int (2 ^ 53 + 1)" by simp
    then show ?thesis unfolding of_int_less_iff by simp
  qed
  moreover have "- 1074 \<le> k" by (simp add: k_def)
  ultimately show ?thesis unfolding is_double_def double_of_def Let_def k_def [symmetric] p_def [symmetric]
    by (intro exI [of _ "round_half_even (r / p)"] exI [of _ k]) (simp add: p_def)
qed

end
