(* ===== verification/JsonSchema.thy ===== *)
theory JsonSchema
  imports RegexGen Doubles
begin

text \<open>
  The JSON half of \<open>sim/grammar.py\<close>: a generator of values that conform to a JSON schema, the
  self-check that is run on what it generates, and the entry point over all kinds of constraint.

  A schema is whatever \<open>json.loads\<close> returned, so every keyword may hold a value of any type; the
  operations on such values (\<open>int\<close>, \<open>float\<close>, \<open>in\<close>, iteration, indexing, truth) are defined for
  all of them and raise what Python raises. A float is the rational number a double represents, and
  arithmetic on floats rounds to doubles (\<open>Doubles\<close>); a schema that holds NaN or an infinity is no
  value of \<open>json\<close>.
\<close>

section \<open>Operations on values\<close>

definition field :: "string \<Rightarrow> json \<Rightarrow> json option" where
  "field k v = (case v of JObj fs \<Rightarrow> map_of fs k | _ \<Rightarrow> None)"

definition falsy :: "json \<Rightarrow> bool" where
  "falsy v = (case v of JNull \<Rightarrow> True | JBool b \<Rightarrow> \<not> b | JInt n \<Rightarrow> n = 0 | JNum q \<Rightarrow> q = 0
     | JStr s \<Rightarrow> s = [] | JArr xs \<Rightarrow> xs = [] | JObj fs \<Rightarrow> fs = [])"

definition number_of :: "json \<Rightarrow> rat option" where
  "number_of v = (case v of JBool b \<Rightarrow> Some (if b then 1 else 0) | JInt n \<Rightarrow> Some (of_int n) | JNum q \<Rightarrow> Some q
     | _ \<Rightarrow> None)"

definition py_int :: "json \<Rightarrow> int result" where
  "py_int v = (case v of JBool b \<Rightarrow> Inr (if b then 1 else 0) | JInt n \<Rightarrow> Inr n
     | JNum q \<Rightarrow> Inr (if 0 \<le> q then \<lfloor>q\<rfloor> else \<lceil>q\<rceil>) | JStr s \<Rightarrow> int_of_text s | _ \<Rightarrow> Inl TypeError)"

definition py_float :: "'g py_libs \<Rightarrow> json \<Rightarrow> rat result" where
  "py_float W v =
     (case v of
        JStr s \<Rightarrow> (case float_of_text W s of None \<Rightarrow> Inl ValueError | Some q \<Rightarrow> Inr q)
      | JNum q \<Rightarrow> Inr q
      | JInt n \<Rightarrow> if float_limit \<le> \<bar>n\<bar> then Inl OverflowError else Inr (double_of (of_int n))
      | JBool b \<Rightarrow> Inr (if b then 1 else 0)
      | _ \<Rightarrow> Inl TypeError)"

definition elements :: "json \<Rightarrow> json list result" where
  "elements v = (case v of JArr xs \<Rightarrow> Inr xs | JStr s \<Rightarrow> Inr (map (\<lambda>c. JStr [c]) s)
     | JObj fs \<Rightarrow> Inr (map (\<lambda>(k, x). JStr k) fs) | _ \<Rightarrow> Inl TypeError)"

definition hashable :: "json \<Rightarrow> bool" where
  "hashable v = (case v of JArr _ \<Rightarrow> False | JObj _ \<Rightarrow> False | _ \<Rightarrow> True)"

text \<open>\<open>v[0]\<close>.\<close>

definition first_of :: "json \<Rightarrow> json result" where
  "first_of v =
     (case v of
        JArr xs \<Rightarrow> (case xs of [] \<Rightarrow> Inl IndexError | x # _ \<Rightarrow> Inr x)
      | JStr s \<Rightarrow> (case s of [] \<Rightarrow> Inl IndexError | c # _ \<Rightarrow> Inr (JStr [c]))
      | JObj _ \<Rightarrow> Inl KeyError
      | _ \<Rightarrow> Inl TypeError)"

lemma size_element: "x \<in> set xs \<Longrightarrow> size x < Suc (size_list size xs)"
  by (induction xs) auto

lemma size_member: "(k, x) \<in> set fs \<Longrightarrow> size x < Suc (size_list (size_prod (\<lambda>_. 0) size) fs)"
  by (induction fs) auto

text \<open>\<open>==\<close>: numbers by value, objects whatever the order of their keys.\<close>

function py_eq :: "json \<Rightarrow> json \<Rightarrow> bool" where
  "py_eq v w =
     (case (v, w) of
        (JNull, JNull) \<Rightarrow> True
      | (JStr s, JStr t) \<Rightarrow> s = t
      | (JArr xs, JArr ys) \<Rightarrow> length xs = length ys \<and> (\<forall>(x, y)\<in>set (zip xs ys). py_eq x y)
      | (JObj fs, JObj gs) \<Rightarrow>
          length fs = length gs \<and>
          (\<forall>(k, x)\<in>set fs. case map_of gs k of None \<Rightarrow> False | Some y \<Rightarrow> py_eq x y)
      | _ \<Rightarrow> number_of v \<noteq> None \<and> number_of v = number_of w)"
  by pat_completeness auto

termination
  by (relation "measure (\<lambda>(v, w). size v)") (auto dest!: set_zip_leftD intro: size_element size_member)

declare py_eq.simps [simp del]

section \<open>References\<close>

definition max_depth :: nat where
  "max_depth = 12"

fun split_on :: "char \<Rightarrow> string \<Rightarrow> string list" where
  "split_on c [] = [[]]"
| "split_on c (x # xs) =
     (if x = c then [] # split_on c xs
      else (case split_on c xs of [] \<Rightarrow> [[x]] | p # ps \<Rightarrow> (x # p) # ps))"

fun resolve_path :: "string list \<Rightarrow> json \<Rightarrow> json result" where
  "resolve_path [] node = (case node of JObj _ \<Rightarrow> Inr node | _ \<Rightarrow> Inl UnsupportedConstraintError)"
| "resolve_path (p # ps) node =
     (case field p node of None \<Rightarrow> Inl UnsupportedConstraintError | Some v \<Rightarrow> resolve_path ps v)"

definition resolve_ref :: "json \<Rightarrow> json \<Rightarrow> json result" where
  "resolve_ref r doc =
     (case r of
        JStr s \<Rightarrow> if take 2 s = ''#/'' then resolve_path (split_on (CHR ''/'') (drop 2 s)) doc
                 else Inl UnsupportedConstraintError
      | _ \<Rightarrow> Inl AttributeError)"

section \<open>Generating\<close>

definition unsupported_keywords :: "string list" where
  "unsupported_keywords = [''multipleOf'', ''uniqueItems'', ''prefixItems'', ''contains'', ''minContains'',
     ''maxContains'', ''not'', ''if'', ''then'', ''else'', ''dependentRequired'', ''dependentSchemas'',
     ''patternProperties'', ''propertyNames'', ''minProperties'', ''maxProperties'']"

text \<open>\<open>schema.get("type")\<close>, resolved: a list gives its first entry other than \<open>null\<close>.\<close>

definition schema_type :: "json \<Rightarrow> json" where
  "schema_type schema =
     (case field ''type'' schema of
        Some (JArr ts) \<Rightarrow>
          (case filter (\<lambda>t. t \<noteq> JStr ''null'') ts of [] \<Rightarrow> JStr ''null'' | t # _ \<Rightarrow> t)
      | Some t \<Rightarrow> t
      | None \<Rightarrow> JNull)"

definition int_field :: "string \<Rightarrow> int \<Rightarrow> json \<Rightarrow> int result" where
  "int_field k dflt schema = (case field k schema of None \<Rightarrow> Inr dflt | Some v \<Rightarrow> py_int v)"

definition some_word :: "'g py_libs \<Rightarrow> 'g \<Rightarrow> (json \<times> 'g) result" where
  "some_word W g = rbind (pick W words g) (\<lambda>(w, g'). Inr (JStr w, g'))"

text \<open>\<open>rng.integers(len(options))\<close>, then \<open>options[i]\<close>.\<close>

definition pick_option :: "'g py_libs \<Rightarrow> json \<Rightarrow> 'g \<Rightarrow> (json \<times> 'g) result" where
  "pick_option W options g =
     (case options of
        JArr xs \<Rightarrow> pick W xs g
      | JStr s \<Rightarrow> pick W (map (\<lambda>c. JStr [c]) s) g
      | JObj fs \<Rightarrow> rbind (draw W 0 (int (length fs)) g) (\<lambda>_. Inl KeyError)
      | _ \<Rightarrow> Inl TypeError)"

text \<open>The bounds of an integer, each keyword truncated by \<open>int\<close>.\<close>

definition tighten :: "('a \<Rightarrow> 'a \<Rightarrow> 'a) \<Rightarrow> 'a option \<Rightarrow> 'a \<Rightarrow> 'a" where
  "tighten f bound x = (case bound of None \<Rightarrow> x | Some b \<Rightarrow> f b x)"

text \<open>Reads the four keywords with \<open>conv\<close>; an exclusive bound is moved inwards by \<open>up\<close> and \<open>down\<close>.\<close>

definition read_bounds ::
  "(json \<Rightarrow> 'a :: linordered_idom result) \<Rightarrow> ('a \<Rightarrow> 'a) \<Rightarrow> ('a \<Rightarrow> 'a) \<Rightarrow> json \<Rightarrow> ('a option \<times> 'a option) result" where
  "read_bounds conv up down schema =
     rbind (case field ''minimum'' schema of None \<Rightarrow> Inr None | Some v \<Rightarrow> rbind (conv v) (\<lambda>x. Inr (Some x))) (\<lambda>low0.
     rbind (case field ''exclusiveMinimum'' schema of None \<Rightarrow> Inr low0
            | Some v \<Rightarrow> rbind (conv v) (\<lambda>x. Inr (Some (tighten max low0 (up x))))) (\<lambda>low.
     rbind (case field ''maximum'' schema of None \<Rightarrow> Inr None | Some v \<Rightarrow> rbind (conv v) (\<lambda>x. Inr (Some x))) (\<lambda>high0.
     rbind (case field ''exclusiveMaximum'' schema of None \<Rightarrow> Inr high0
            | Some v \<Rightarrow> rbind (conv v) (\<lambda>x. Inr (Some (tighten min high0 (down x))))) (\<lambda>high.
     Inr (low, high)))))"

definition integer_bounds :: "json \<Rightarrow> (int option \<times> int option) result" where
  "integer_bounds = read_bounds py_int (\<lambda>x. x + 1) (\<lambda>x. x - 1)"

text \<open>The defaults, relative to the bound that is given; \<open>lower\<close> and \<open>higher\<close> go 100 away from it.\<close>

definition default_low :: "('a :: linordered_idom \<Rightarrow> 'a) \<Rightarrow> 'a option \<Rightarrow> 'a option \<Rightarrow> 'a" where
  "default_low lower low high = (case low of Some l \<Rightarrow> l | None \<Rightarrow> (case high of None \<Rightarrow> 0 | Some h \<Rightarrow> min 0 (lower h)))"

definition default_high :: "('a :: linordered_idom \<Rightarrow> 'a) \<Rightarrow> 'a option \<Rightarrow> 'a \<Rightarrow> 'a" where
  "default_high higher high low = (case high of Some h \<Rightarrow> h | None \<Rightarrow> higher low)"

text \<open>\<open>rng.integers\<close> with bounds that the schema gives: they must be 64-bit integers.\<close>

definition draw64 :: "'g py_libs \<Rightarrow> int \<Rightarrow> int \<Rightarrow> 'g \<Rightarrow> (int \<times> 'g) result" where
  "draw64 W low high g = (if low < - (2 ^ 63) \<or> 2 ^ 63 < high then Inl ValueError else draw W low high g)"

definition generate_integer :: "'g py_libs \<Rightarrow> json \<Rightarrow> 'g \<Rightarrow> (json \<times> 'g) result" where
  "generate_integer W schema g =
     rbind (integer_bounds schema) (\<lambda>(low0, high0).
     let low = default_low (\<lambda>h. h - 100) low0 high0; high = default_high (\<lambda>l. l + 100) high0 low
     in if high < low then Inl UnsupportedConstraintError
        else rbind (draw64 W low (high + 1) g) (\<lambda>(n, g'). Inr (JInt n, g')))"

definition exclusive_epsilon :: rat where
  "exclusive_epsilon = double_of (1 / 1000)"

text \<open>\<open>round(x, 4)\<close>: the double nearest to the nearest multiple of \<open>1 / 10000\<close>.\<close>

definition round4 :: "rat \<Rightarrow> rat" where
  "round4 x = double_of (of_int (round_half_even (x * 10000)) / 10000)"

text \<open>numpy refuses a range whose width is no finite double.\<close>

definition generate_number :: "'g py_libs \<Rightarrow> json \<Rightarrow> 'g \<Rightarrow> (json \<times> 'g) result" where
  "generate_number W schema g =
     rbind (read_bounds (py_float W) (\<lambda>x. double_of (x + exclusive_epsilon)) (\<lambda>x. double_of (x - exclusive_epsilon)) schema)
       (\<lambda>(low0, high0).
     let low = default_low (\<lambda>h. double_of (h - 100)) low0 high0; high = default_high (\<lambda>l. double_of (l + 100)) high0 low
     in if high < low then Inl UnsupportedConstraintError
        else if of_int float_limit \<le> high - low then Inl OverflowError
        else let (u, g') = uniform W low high g in Inr (JNum (min (max (round4 u) low) high), g'))"

text \<open>\<open>while len(value) < minimum: value += " " + word\<close>.\<close>

function pad_words :: "'g py_libs \<Rightarrow> int \<Rightarrow> string \<Rightarrow> 'g \<Rightarrow> (string \<times> 'g) result" where
  "pad_words W minimum v g =
     (if int (length v) < minimum
      then rbind (pick W words g) (\<lambda>(w, g'). pad_words W minimum (v @ '' '' @ w) g')
      else Inr (v, g))"
  by pat_completeness auto

termination
  by (relation "measure (\<lambda>(W, minimum, v, g). nat (minimum - int (length v)))") auto

declare pad_words.simps [simp del]

text \<open>\<open>s[:n]\<close>.\<close>

definition prefix_to :: "string \<Rightarrow> int \<Rightarrow> string" where
  "prefix_to s n = (if 0 \<le> n then take (nat n) s else take (nat (int (length s) + n)) s)"

definition format_texts :: "(string \<times> string) list" where
  "format_texts = [(''date-time'', ''2026-01-01T00:00:00Z''), (''date'', ''2026-01-01''),
     (''email'', ''someone@example.com''), (''uuid'', ''00000000-0000-4000-8000-000000000000'')]"

definition format_text :: "json \<Rightarrow> string option" where
  "format_text schema = (case field ''format'' schema of Some (JStr f) \<Rightarrow> map_of format_texts f | _ \<Rightarrow> None)"

definition generate_string :: "'g py_libs \<Rightarrow> json \<Rightarrow> 'g \<Rightarrow> (json \<times> 'g) result" where
  "generate_string W schema g =
     (case field ''pattern'' schema of
        Some (JStr p) \<Rightarrow> rbind (generate_regex_match W p g) (\<lambda>(t, g'). Inr (JStr t, g'))
      | Some _ \<Rightarrow> Inl TypeError
      | None \<Rightarrow>
          (case format_text schema of
             Some t \<Rightarrow> Inr (JStr t, g)
           | None \<Rightarrow>
               rbind (int_field ''minLength'' 0 schema) (\<lambda>minimum.
               rbind (int_field ''maxLength'' (max minimum 24) schema) (\<lambda>maximum.
               if maximum < minimum then Inl UnsupportedConstraintError
               else
                 rbind (pick W words g) (\<lambda>(w, g1).
                 rbind (pad_words W minimum w g1) (\<lambda>(v, g2).
                 Inr (JStr (prefix_to v maximum), g2)))))))"

text \<open>\<open>sorted(missing)\<close>, for the message, raises if the names cannot be compared.\<close>

definition sortable :: "json list \<Rightarrow> bool" where
  "sortable vs \<longleftrightarrow> length (remdups vs) \<le> 1 \<or> list_all (\<lambda>v. number_of v \<noteq> None) vs \<or>
     list_all (\<lambda>v. case v of JStr _ \<Rightarrow> True | _ \<Rightarrow> False) vs"

definition falsy_or :: "string \<Rightarrow> json \<Rightarrow> json \<Rightarrow> json" where
  "falsy_or k schema dflt = (case field k schema of None \<Rightarrow> dflt | Some v \<Rightarrow> if falsy v then dflt else v)"

definition items_of :: "json \<Rightarrow> (string \<times> json) list result" where
  "items_of v = (case v of JObj fs \<Rightarrow> Inr fs | _ \<Rightarrow> Inl AttributeError)"

definition key_in :: "json \<Rightarrow> (string \<times> json) list \<Rightarrow> bool" where
  "key_in v fs = (case v of JStr k \<Rightarrow> k \<in> fst ` set fs | _ \<Rightarrow> False)"

lemma foldE_cong [fundef_cong]:
  assumes "xs = ys" and "s = t" and "\<And>x u. x \<in> set ys \<Longrightarrow> f x u = f' x u"
  shows "foldE f xs s = foldE f' ys t"
proof -
  have "foldE f ys u = foldE f' ys u" for u
    using assms(3) by (induction ys arbitrary: u) (auto intro!: rbind_cong)
  then show ?thesis using assms(1,2) by simp
qed

text \<open>
  \<open>_generate\<close> with the functions it recurses through: \<open>_generate_object\<close>, \<open>_generate_array\<close> and
  the loop over \<open>allOf\<close>, which take the generator of the subschemas, one level deeper.
\<close>

type_synonym 'g gen = "json \<Rightarrow> 'g \<Rightarrow> (json \<times> 'g) result"

definition generate_object :: "'g py_libs \<Rightarrow> json \<Rightarrow> 'g gen \<Rightarrow> 'g \<Rightarrow> (json \<times> 'g) result" where
  "generate_object W schema sub g =
     rbind (elements (falsy_or ''required'' schema (JArr []))) (\<lambda>required.
     if \<not> list_all hashable required then Inl TypeError
     else
       rbind (items_of (falsy_or ''properties'' schema (JObj []))) (\<lambda>properties.
       rbind (foldE (\<lambda>(name, subschema) (res, g1).
                rbind (sub subschema g1) (\<lambda>(v, g2). Inr (AList.update name v res, g2))) properties ([], g))
         (\<lambda>(res, g1).
       let missing = filter (\<lambda>v. \<not> key_in v res) required
       in if missing \<noteq> [] then (if sortable missing then Inl UnsupportedConstraintError else Inl TypeError)
          else if properties = [] then rbind (some_word W g1) (\<lambda>(v, g2). Inr (JObj [(''result'', v)], g2))
          else Inr (JObj res, g1))))"

definition generate_array :: "'g py_libs \<Rightarrow> json \<Rightarrow> 'g gen \<Rightarrow> 'g \<Rightarrow> (json \<times> 'g) result" where
  "generate_array W schema sub g =
     rbind (int_field ''minItems'' 1 schema) (\<lambda>low.
     rbind (int_field ''maxItems'' (max low 3) schema) (\<lambda>high.
     if high < low then Inl UnsupportedConstraintError
     else
       rbind (draw64 W low (high + 1) g) (\<lambda>(count, g1).
       let many = (\<lambda>f. rbind (repeatE (nat count) f g1) (\<lambda>(vs, g2). Inr (JArr vs, g2)))
       in case field ''items'' schema of
            None \<Rightarrow> many (some_word W)
          | Some items \<Rightarrow>
              (case items of
                 JNull \<Rightarrow> many (some_word W)
               | JArr _ \<Rightarrow> Inl UnsupportedConstraintError
               | _ \<Rightarrow> many (sub items)))))"

definition generate_all_of :: "json \<Rightarrow> 'g gen \<Rightarrow> 'g \<Rightarrow> (json \<times> 'g) result" where
  "generate_all_of options sub g =
     rbind (elements options) (\<lambda>bs.
     rbind (foldE (\<lambda>b (merged, g1).
              rbind (sub b g1) (\<lambda>(v, g2).
              case v of JObj fs \<Rightarrow> Inr (foldl (\<lambda>m (k, x). AList.update k x m) merged fs, g2)
              | _ \<Rightarrow> Inl UnsupportedConstraintError)) bs ([], g)) (\<lambda>(merged, g1).
     Inr (JObj merged, g1)))"

definition generate_typed :: "'g py_libs \<Rightarrow> json \<Rightarrow> 'g gen \<Rightarrow> 'g \<Rightarrow> (json \<times> 'g) result" where
  "generate_typed W schema sub g =
     (let t = schema_type schema
      in if t = JNull \<or> t = JStr ''object'' then generate_object W schema sub g
         else if t = JStr ''array'' then generate_array W schema sub g
         else if t = JStr ''string'' then generate_string W schema g
         else if t = JStr ''integer'' then generate_integer W schema g
         else if t = JStr ''number'' then generate_number W schema g
         else if t = JStr ''boolean'' then rbind (draw W 0 2 g) (\<lambda>(n, g'). Inr (JBool (n \<noteq> 0), g'))
         else if t = JStr ''null'' then Inr (JNull, g)
         else Inl UnsupportedConstraintError)"

function generate :: "'g py_libs \<Rightarrow> json \<Rightarrow> nat \<Rightarrow> json \<Rightarrow> 'g \<Rightarrow> (json \<times> 'g) result" where
  "generate W doc depth schema g =
     (if max_depth < depth then Inl UnsupportedConstraintError
      else case schema of
        JObj fs \<Rightarrow>
          (case field ''$ref'' schema of
             Some r \<Rightarrow> rbind (resolve_ref r doc) (\<lambda>target. generate W doc (depth + 1) target g)
           | None \<Rightarrow>
          (case field ''const'' schema of
             Some v \<Rightarrow> Inr (v, g)
           | None \<Rightarrow>
          (case field ''enum'' schema of
             Some options \<Rightarrow> if falsy options then Inl UnsupportedConstraintError else pick_option W options g
           | None \<Rightarrow>
          (case field ''anyOf'' schema of
             Some bs \<Rightarrow> if falsy bs then Inl UnsupportedConstraintError
                       else rbind (first_of bs) (\<lambda>b. generate W doc (depth + 1) b g)
           | None \<Rightarrow>
          (case field ''oneOf'' schema of
             Some bs \<Rightarrow> if falsy bs then Inl UnsupportedConstraintError
                       else rbind (first_of bs) (\<lambda>b. generate W doc (depth + 1) b g)
           | None \<Rightarrow>
          (case field ''allOf'' schema of
             Some bs \<Rightarrow> generate_all_of bs (\<lambda>b g1. generate W doc (depth + 1) b g1) g
           | None \<Rightarrow>
               if \<exists>k\<in>set unsupported_keywords. field k schema \<noteq> None then Inl UnsupportedConstraintError
               else generate_typed W schema (\<lambda>b g1. generate W doc (depth + 1) b g1) g))))))
      | _ \<Rightarrow> Inl UnsupportedConstraintError)"
  by pat_completeness auto

termination
  by (relation "measure (\<lambda>(W, doc, depth, schema, g). Suc max_depth - depth)") auto

declare generate.simps [simp del]

definition generate_json :: "'g py_libs \<Rightarrow> json \<Rightarrow> nat \<Rightarrow> 'g \<Rightarrow> (json \<times> 'g) result" where
  "generate_json W schema depth g =
     (if max_depth < depth then Inl UnsupportedConstraintError
      else let s = (if schema = JNull then JObj [(''type'', JStr ''object'')] else schema)
           in generate W s depth s g)"

section \<open>The self-check\<close>

definition ensure :: "bool \<Rightarrow> unit result" where
  "ensure b = (if b then Inr () else Inl AssertionError)"

text \<open>\<open>number OP schema[k]\<close>, checked where the keyword is present.\<close>

definition check_number :: "(rat \<Rightarrow> rat \<Rightarrow> bool) \<Rightarrow> rat \<Rightarrow> string \<Rightarrow> json \<Rightarrow> unit result" where
  "check_number ok x k schema =
     (case field k schema of
        None \<Rightarrow> Inr ()
      | Some v \<Rightarrow> (case number_of v of None \<Rightarrow> Inl TypeError | Some b \<Rightarrow> ensure (ok x b)))"

definition validate_bounds :: "rat \<Rightarrow> json \<Rightarrow> unit result" where
  "validate_bounds x schema =
     rbind (check_number (\<lambda>x b. b \<le> x) x ''minimum'' schema) (\<lambda>_.
     rbind (check_number (\<lambda>x b. x \<le> b) x ''maximum'' schema) (\<lambda>_.
     rbind (check_number (\<lambda>x b. b < x) x ''exclusiveMinimum'' schema) (\<lambda>_.
     check_number (\<lambda>x b. x < b) x ''exclusiveMaximum'' schema)))"

text \<open>\<open>value in schema["enum"]\<close>.\<close>

definition value_in :: "json \<Rightarrow> json \<Rightarrow> bool result" where
  "value_in v options =
     (case options of
        JArr xs \<Rightarrow> Inr (\<exists>x\<in>set xs. x = v \<or> py_eq x v)
      | JStr s \<Rightarrow> (case v of JStr t \<Rightarrow> Inr (has_infix t s) | _ \<Rightarrow> Inl TypeError)
      | JObj fs \<Rightarrow> if hashable v then Inr (key_in v fs) else Inl TypeError
      | _ \<Rightarrow> Inl TypeError)"

text \<open>\<open>"k" in schema\<close> and \<open>schema["k"]\<close> for a schema that is not an object.\<close>

definition check_odd_schema :: "json \<Rightarrow> unit result" where
  "check_odd_schema schema =
     (let present = (case schema of JStr s \<Rightarrow> Some (\<lambda>k. has_infix k s)
                     | JArr xs \<Rightarrow> Some (\<lambda>k. JStr k \<in> set xs) | _ \<Rightarrow> None)
      in case present of
           None \<Rightarrow> Inl TypeError
         | Some has \<Rightarrow>
             if \<exists>k\<in>set [''$ref'', ''const'', ''enum'', ''anyOf'', ''oneOf'']. has k then Inl TypeError
             else if has ''allOf'' then Inr () else Inl AttributeError)"

definition validate_object :: "json \<Rightarrow> json \<Rightarrow> (json \<Rightarrow> json \<Rightarrow> unit result) \<Rightarrow> unit result" where
  "validate_object v schema sub =
     (case v of
        JObj fs \<Rightarrow>
          rbind (elements (falsy_or ''required'' schema (JArr []))) (\<lambda>required.
          rbind (foldE (\<lambda>name _. if hashable name then ensure (key_in name fs) else Inl TypeError) required ()) (\<lambda>_.
          rbind (items_of (falsy_or ''properties'' schema (JObj []))) (\<lambda>properties.
          foldE (\<lambda>(name, subschema) _.
            case map_of fs name of None \<Rightarrow> Inr () | Some x \<Rightarrow> sub x subschema) properties ())))
      | _ \<Rightarrow> Inl AssertionError)"

definition validate_array :: "json \<Rightarrow> json \<Rightarrow> (json \<Rightarrow> json \<Rightarrow> unit result) \<Rightarrow> unit result" where
  "validate_array v schema sub =
     (case v of
        JArr xs \<Rightarrow>
          rbind (check_number (\<lambda>x b. b \<le> x) (of_nat (length xs)) ''minItems'' schema) (\<lambda>_.
          rbind (check_number (\<lambda>x b. x \<le> b) (of_nat (length xs)) ''maxItems'' schema) (\<lambda>_.
          case field ''items'' schema of
            Some (JObj fs) \<Rightarrow> foldE (\<lambda>x _. sub x (JObj fs)) xs ()
          | _ \<Rightarrow> Inr ()))
      | _ \<Rightarrow> Inl AssertionError)"

definition validate_string :: "'g py_libs \<Rightarrow> json \<Rightarrow> json \<Rightarrow> unit result" where
  "validate_string W v schema =
     (case v of
        JStr s \<Rightarrow>
          rbind (check_number (\<lambda>x b. b \<le> x) (of_nat (length s)) ''minLength'' schema) (\<lambda>_.
          rbind (check_number (\<lambda>x b. x \<le> b) (of_nat (length s)) ''maxLength'' schema) (\<lambda>_.
          case field ''pattern'' schema of
            None \<Rightarrow> Inr ()
          | Some (JStr p) \<Rightarrow> if re_compiles W p then ensure (re_fullmatch W p s) else Inl RegexError
          | Some _ \<Rightarrow> Inl TypeError))
      | _ \<Rightarrow> Inl AssertionError)"

definition validate_typed :: "'g py_libs \<Rightarrow> json \<Rightarrow> json \<Rightarrow> (json \<Rightarrow> json \<Rightarrow> unit result) \<Rightarrow> unit result" where
  "validate_typed W v schema sub =
     (let t = schema_type schema
      in if t = JNull \<or> t = JStr ''object'' then validate_object v schema sub
         else if t = JStr ''array'' then validate_array v schema sub
         else if t = JStr ''string'' then validate_string W v schema
         else if t = JStr ''integer'' then
           (case v of JInt n \<Rightarrow> validate_bounds (of_int n) schema | _ \<Rightarrow> Inl AssertionError)
         else if t = JStr ''number'' then
           (case v of JInt n \<Rightarrow> validate_bounds (of_int n) schema | JNum q \<Rightarrow> validate_bounds q schema
            | _ \<Rightarrow> Inl AssertionError)
         else if t = JStr ''boolean'' then ensure (case v of JBool _ \<Rightarrow> True | _ \<Rightarrow> False)
         else if t = JStr ''null'' then ensure (v = JNull)
         else Inr ())"

text \<open>
  \<open>_validate\<close>. Unlike \<open>_generate\<close> it does not count its depth: the first argument is the
  interpreter's recursion limit, and a reference that leads back to itself exhausts it.
\<close>

fun validate :: "nat \<Rightarrow> 'g py_libs \<Rightarrow> json \<Rightarrow> json \<Rightarrow> json \<Rightarrow> unit result" where
  "validate 0 W doc v schema = Inl RecursionError"
| "validate (Suc n) W doc v schema =
     (case schema of
        JObj fs \<Rightarrow>
          (case field ''$ref'' schema of
             Some r \<Rightarrow> rbind (resolve_ref r doc) (\<lambda>target. validate n W doc v target)
           | None \<Rightarrow>
          (case field ''const'' schema of
             Some c \<Rightarrow> ensure (v = c \<or> py_eq v c)
           | None \<Rightarrow>
          (case field ''enum'' schema of
             Some options \<Rightarrow> rbind (value_in v options) ensure
           | None \<Rightarrow>
          (case field ''anyOf'' schema of
             Some bs \<Rightarrow> rbind (first_of bs) (\<lambda>b. validate n W doc v b)
           | None \<Rightarrow>
          (case field ''oneOf'' schema of
             Some bs \<Rightarrow> rbind (first_of bs) (\<lambda>b. validate n W doc v b)
           | None \<Rightarrow>
          (case field ''allOf'' schema of
             Some bs \<Rightarrow> Inr ()
           | None \<Rightarrow> validate_typed W v schema (\<lambda>x s. validate n W doc x s)))))))
      | _ \<Rightarrow> check_odd_schema schema)"

definition validate_against_schema :: "'g py_libs \<Rightarrow> json \<Rightarrow> json \<Rightarrow> unit result" where
  "validate_against_schema W v schema =
     (if schema = JNull then Inr () else validate (recursion_limit W) W schema v schema)"

section \<open>The entry point\<close>

definition generate_for_constraint :: "'g py_libs \<Rightarrow> string \<Rightarrow> string \<Rightarrow> 'g \<Rightarrow> (string \<times> 'g) result" where
  "generate_for_constraint W kind spec g =
     (if kind = ''json'' then
        rbind (if spec = [] then Inr JNull else json_loads W spec) (\<lambda>schema.
        rbind (generate_json W schema 0 g) (\<lambda>(v, g1).
        rbind (validate_against_schema W v schema) (\<lambda>_. Inr (json_dumps W v, g1))))
      else if kind = ''json_object'' then
        rbind (generate_json W JNull 0 g) (\<lambda>(v, g1). Inr (json_dumps W v, g1))
      else if kind = ''choice'' then
        rbind (json_loads W spec) (\<lambda>options.
        if falsy options then Inl ValueError
        else rbind (pick_option W options g) (\<lambda>(v, g1). Inr ((case v of JStr s \<Rightarrow> s | _ \<Rightarrow> py_str W v), g1)))
      else if kind = ''regex'' then generate_regex_match W spec g
      else if kind = ''grammar'' \<or> kind = ''structural_tag'' then Inl UnsupportedConstraintError
      else Inl ValueError)"

end
