(* ===== verification/Frontend.thy ===== *)
theory Frontend
  imports RequestState JsonSchema
begin

text \<open>
  What a request passes before it reaches the engine core: the parameter objects of
  \<open>sampling_params.py\<close> and \<open>pooling_params.py\<close> with their validation, the constraint key of
  \<open>v1/structured_output/request.py\<close>, the grammar tracker of \<open>sim/structured_output.py\<close>, and
  \<open>InputProcessor.process_inputs\<close> of \<open>v1/engine/input_processor.py\<close>.

  The tokenizer is a parameter (its \<open>encode\<close> and its EOS id). Of the sampling parameters the
  engine core reads only those of the record \<open>sampling_params\<close>; \<open>core_params\<close> selects them.
\<close>

section \<open>Constraints\<close>

definition named_constraints :: "structured_params \<Rightarrow> string list" where
  "named_constraints p =
     map fst (filter snd
       [(''json'', so_json p \<noteq> None), (''regex'', so_regex p \<noteq> None), (''choice'', so_choice p \<noteq> None),
        (''grammar'', so_grammar p \<noteq> None), (''json_object'', so_json_object p \<noteq> None),
        (''structural_tag'', so_structural_tag p \<noteq> None)])"

definition all_constraints_none :: "structured_params \<Rightarrow> bool" where
  "all_constraints_none p \<longleftrightarrow> named_constraints p = []"

definition structured_params_init :: "structured_params \<Rightarrow> structured_params result" where
  "structured_params_init p = (if length (named_constraints p) = 1 then Inr p else Inl ValueError)"

text \<open>\<open>get_structured_output_key\<close>; the kind is the lower-case name of the option.\<close>

definition structured_output_key :: "'g py_libs \<Rightarrow> structured_params \<Rightarrow> (string \<times> string) result" where
  "structured_output_key W p =
     (case so_json p of
        Some v \<Rightarrow> Inr (''json'', (case v of JStr s \<Rightarrow> s | _ \<Rightarrow> json_dumps W v))
      | None \<Rightarrow>
          if so_json_object p = Some True then Inr (''json_object'', [])
          else (case so_regex p of Some r \<Rightarrow> Inr (''regex'', r)
          | None \<Rightarrow> (case so_choice p of Some cs \<Rightarrow> Inr (''choice'', json_dumps W (JArr (map JStr cs)))
          | None \<Rightarrow> (case so_grammar p of Some g \<Rightarrow> Inr (''grammar'', g)
          | None \<Rightarrow> (case so_structural_tag p of Some t \<Rightarrow> Inr (''structural_tag'', t)
          | None \<Rightarrow> Inl ValueError)))))"

text \<open>The tracker of one request's constraint.\<close>

record sim_grammar =
  sg_kind :: string
  sg_spec :: string
  num_target_tokens :: "int option"
  position :: int

definition accept_tokens :: "int list \<Rightarrow> sim_grammar \<Rightarrow> bool \<times> sim_grammar" where
  "accept_tokens toks g = (True, g\<lparr>position := position g + int (length toks)\<rparr>)"

definition validate_tokens :: "int list \<Rightarrow> int list" where
  "validate_tokens toks = toks"

definition grammar_rollback :: "int \<Rightarrow> sim_grammar \<Rightarrow> sim_grammar" where
  "grammar_rollback n g = g\<lparr>position := max 0 (position g - n)\<rparr>"

definition is_terminated :: "sim_grammar \<Rightarrow> bool" where
  "is_terminated g \<longleftrightarrow> (case num_target_tokens g of None \<Rightarrow> False | Some n \<Rightarrow> n \<le> position g)"

definition grammar_reset :: "sim_grammar \<Rightarrow> sim_grammar" where
  "grammar_reset g = g\<lparr>position := 0\<rparr>"

text \<open>\<open>compile_grammar\<close>: generate once with the request's own generator, keep nothing of it.\<close>

definition compile_grammar :: "'g py_libs \<Rightarrow> (string \<Rightarrow> 'g) \<Rightarrow> string \<Rightarrow> string \<Rightarrow> string \<Rightarrow> sim_grammar result" where
  "compile_grammar W for_constraint kind spec rid =
     rbind (generate_for_constraint W kind spec (for_constraint rid)) (\<lambda>_.
     Inr \<lparr>sg_kind = kind, sg_spec = spec, num_target_tokens = None, position = 0\<rparr>)"

text \<open>What the background task leaves in the request: a grammar, or the exception it raised.\<close>

definition create_grammar :: "'g py_libs \<Rightarrow> (string \<Rightarrow> 'g) \<Rightarrow> structured_params \<Rightarrow> string \<Rightarrow> grammar_state" where
  "create_grammar W for_constraint p rid =
     (case rbind (structured_output_key W p) (\<lambda>(kind, spec). compile_grammar W for_constraint kind spec rid) of
        Inl e \<Rightarrow> GrammarFailed
      | Inr g \<Rightarrow> GrammarCompiled)"

section \<open>Sampling and pooling parameters\<close>

datatype request_output_kind = CUMULATIVE | DELTA | FINAL_ONLY

datatype stop_arg = NoStop | OneStop string | Stops "string list"

record api_params =
  n_choices :: int
  best_of :: "int option"
  presence_penalty :: rat
  frequency_penalty :: rat
  repetition_penalty :: rat
  temperature :: rat
  top_p :: rat
  top_k :: int
  min_p :: rat
  sp_seed :: "int option"
  stop :: "string list"
  stop_token_ids :: "int list"
  ignore_eos :: bool
  ap_max_tokens :: "int option"
  min_tokens :: int
  logprobs :: "int option"
  prompt_logprobs :: "int option"
  detokenize :: bool
  skip_special_tokens :: bool
  spaces_between_special_tokens :: bool
  include_stop_str_in_output :: bool
  allowed_token_ids :: "int list option"
  output_kind :: request_output_kind
  structured_outputs :: "structured_params option"
  all_stop_token_ids :: "int set"
  eos_token_id :: "int option"

definition sampling_eps :: rat where
  "sampling_eps = 1 / 100000"

definition args_ok :: "api_params \<Rightarrow> bool" where
  "args_ok p \<longleftrightarrow>
     1 \<le> n_choices p \<and>
     - 2 \<le> presence_penalty p \<and> presence_penalty p \<le> 2 \<and>
     - 2 \<le> frequency_penalty p \<and> frequency_penalty p \<le> 2 \<and>
     0 < repetition_penalty p \<and> 0 \<le> temperature p \<and> 0 < top_p p \<and> top_p p \<le> 1 \<and> 0 \<le> top_k p \<and>
     0 \<le> min_p p \<and> min_p p \<le> 1 \<and>
     (case ap_max_tokens p of None \<Rightarrow> True | Some m \<Rightarrow> 1 \<le> m) \<and> 0 \<le> min_tokens p \<and>
     (case ap_max_tokens p of None \<Rightarrow> True | Some m \<Rightarrow> min_tokens p \<le> m) \<and>
     (case logprobs p of None \<Rightarrow> True | Some l \<Rightarrow> 0 \<le> l) \<and>
     (case prompt_logprobs p of None \<Rightarrow> True | Some l \<Rightarrow> 0 \<le> l) \<and>
     (stop p = [] \<or> detokenize p)"

text \<open>\<open>__post_init__\<close>, from the record of the arguments and the two that are normalized.\<close>

definition sampling_params_init :: "stop_arg \<Rightarrow> int list option \<Rightarrow> api_params \<Rightarrow> api_params result" where
  "sampling_params_init s ids p =
     (let p1 = p\<lparr>stop := (case s of NoStop \<Rightarrow> [] | OneStop t \<Rightarrow> [t] | Stops ts \<Rightarrow> ts),
                 stop_token_ids := (case ids of None \<Rightarrow> [] | Some is \<Rightarrow> is),
                 all_stop_token_ids := (case ids of None \<Rightarrow> {} | Some is \<Rightarrow> set is), eos_token_id := None\<rparr>
      in if best_of p1 \<noteq> None \<and> best_of p1 \<noteq> Some (n_choices p1) then Inl ValueError
         else if \<not> args_ok p1 then Inl ValueError
         else Inr (if temperature p1 < sampling_eps
                   then p1\<lparr>temperature := 0, top_p := 1, top_k := 0, min_p := 0\<rparr> else p1))"

definition update_from_tokenizer :: "int option \<Rightarrow> api_params \<Rightarrow> api_params" where
  "update_from_tokenizer eos p =
     p\<lparr>eos_token_id := (if ignore_eos p then eos_token_id p else eos),
       all_stop_token_ids := (case eos of None \<Rightarrow> all_stop_token_ids p | Some e \<Rightarrow> insert e (all_stop_token_ids p))\<rparr>"

record pooling_params =
  dimensions :: "int option"
  task :: "string option"

definition supported_tasks :: "string list" where
  "supported_tasks = [''embed'', ''encode'']"

definition pooling_params_init :: "pooling_params \<Rightarrow> pooling_params result" where
  "pooling_params_init p =
     (if (case task p of None \<Rightarrow> False | Some t \<Rightarrow> t \<notin> set supported_tasks) then Inl NotImplementedError
      else if (case dimensions p of None \<Rightarrow> False | Some d \<Rightarrow> d < 1) then Inl ValueError
      else Inr p)"

definition feature_init :: "mm_feature \<Rightarrow> mm_feature result" where
  "feature_init f = (if mm_length f < 1 \<or> mm_position f < 0 then Inl ValueError else Inr f)"

section \<open>The input processor\<close>

record engine_core_request =
  ecr_request_id :: string
  ecr_prompt_token_ids :: "int list option"
  ecr_sampling_params :: "api_params option"
  ecr_arrival_time :: "rat option"
  ecr_client_index :: int
  ecr_lora_request :: "lora_request option"
  ecr_cache_salt :: "string option"
  ecr_priority :: int
  ecr_mm_features :: "mm_feature list"
  ecr_pooling_params :: "pooling_params option"

record frontend_config =
  fe_max_model_len :: int
  fe_max_logprobs :: int
  fe_lora_enabled :: bool
  fe_encode :: "string \<Rightarrow> int list"
  fe_eos_token_id :: "int option"

definition validate_params :: "frontend_config \<Rightarrow> api_params \<Rightarrow> unit result" where
  "validate_params cf p =
     (if (case logprobs p of None \<Rightarrow> False | Some l \<Rightarrow> fe_max_logprobs cf < l) then Inl ValueError
      else if (case prompt_logprobs p of None \<Rightarrow> False | Some l \<Rightarrow> fe_max_logprobs cf < l) then Inl ValueError
      else if allowed_token_ids p \<noteq> None then Inl NotImplementedError
      else Inr ())"

definition validate_prompt_length :: "frontend_config \<Rightarrow> int list \<Rightarrow> api_params \<Rightarrow> api_params result" where
  "validate_prompt_length cf prompt p =
     (let prompt_len = int (length prompt); remaining = fe_max_model_len cf - prompt_len
      in if prompt_len = 0 then Inl ValueError
         else if fe_max_model_len cf \<le> prompt_len then Inl ValueError
         else case ap_max_tokens p of
                None \<Rightarrow> Inr (p\<lparr>ap_max_tokens := Some remaining\<rparr>)
              | Some m \<Rightarrow> if remaining < m then Inl ValueError else Inr p)"

definition validate_pooling_prompt_length :: "frontend_config \<Rightarrow> int list \<Rightarrow> unit result" where
  "validate_pooling_prompt_length cf prompt =
     (if prompt = [] then Inl ValueError
      else if fe_max_model_len cf < int (length prompt) then Inl ValueError
      else Inr ())"

definition process_inputs ::
  "frontend_config \<Rightarrow> string \<Rightarrow> string + int list \<Rightarrow> api_params option \<Rightarrow> int \<Rightarrow> int \<Rightarrow> string option \<Rightarrow>
   lora_request option \<Rightarrow> mm_feature list \<Rightarrow> pooling_params option \<Rightarrow> engine_core_request result" where
  "process_inputs cf rid prompt sp client prio salt lora mm pool =
     (let toks = (case prompt of Inl text \<Rightarrow> fe_encode cf text | Inr ids \<Rightarrow> ids)
      in if (sp = None) = (pool = None) then Inl ValueError
         else
           rbind (case sp of
                    Some p \<Rightarrow>
                      rbind (validate_params cf p) (\<lambda>_.
                      rbind (validate_prompt_length cf toks p) (\<lambda>p1.
                      Inr (Some (update_from_tokenizer (fe_eos_token_id cf) p1))))
                  | None \<Rightarrow> rbind (validate_pooling_prompt_length cf toks) (\<lambda>_. Inr None)) (\<lambda>sp1.
           if lora \<noteq> None \<and> \<not> fe_lora_enabled cf then Inl ValueError
           else Inr \<lparr>ecr_request_id = rid, ecr_prompt_token_ids = Some toks, ecr_sampling_params = sp1,
                     ecr_arrival_time = None, ecr_client_index = client, ecr_lora_request = lora,
                     ecr_cache_salt = salt, ecr_priority = prio, ecr_mm_features = mm,
                     ecr_pooling_params = pool\<rparr>))"

section \<open>Into the engine core\<close>

text \<open>\<open>StructuredOutputRequest.from_sampling_params\<close> makes a constraint of any that is set.\<close>

definition core_params :: "api_params \<Rightarrow> sampling_params" where
  "core_params p =
     \<lparr>sp_max_tokens = ap_max_tokens p, sp_min_tokens = min_tokens p, sp_eos_token_id = eos_token_id p,
      sp_stop_token_ids = stop_token_ids p,
      sp_structured_outputs = (case structured_outputs p of None \<Rightarrow> False | Some c \<Rightarrow> \<not> all_constraints_none c),
      sp_constraint = structured_outputs p, sp_request_seed = sp_seed p\<rparr>"

definition from_engine_core_request ::
  "hash_fn \<Rightarrow> engine_core_request \<Rightarrow> rat \<Rightarrow> (int \<times> block_hash_t) option \<Rightarrow> request result" where
  "from_engine_core_request H er arrival hasher =
     request_init H (ecr_request_id er) (ecr_prompt_token_ids er) (map_option core_params (ecr_sampling_params er))
       (case ecr_arrival_time er of Some t \<Rightarrow> t | None \<Rightarrow> arrival) (ecr_client_index er) (ecr_lora_request er)
       (ecr_cache_salt er) (ecr_priority er) hasher (ecr_mm_features er) (ecr_pooling_params er \<noteq> None)"

section \<open>What the checks give the engine\<close>

text \<open>
  The request that comes out has a non-empty prompt and, if it generates, a limit on its output
  that fits behind the prompt. The minimum is only compared with a limit the client gave.
\<close>

definition min_fits :: "frontend_config \<Rightarrow> int list \<Rightarrow> api_params \<Rightarrow> bool" where
  "min_fits cf toks p \<longleftrightarrow> ap_max_tokens p \<noteq> None \<or> min_tokens p \<le> fe_max_model_len cf - int (length toks)"

lemma process_inputs_prompt:
  assumes "process_inputs cf rid prompt sp client prio salt lora mm pool = Inr er"
  obtains toks where "toks = (case prompt of Inl text \<Rightarrow> fe_encode cf text | Inr ids \<Rightarrow> ids)"
    and "ecr_prompt_token_ids er = Some toks" and "toks \<noteq> []" and "int (length toks) \<le> fe_max_model_len cf"
    and "ecr_request_id er = rid" and "ecr_mm_features er = mm" and "(ecr_pooling_params er = None) = (sp \<noteq> None)"
    and "case sp of None \<Rightarrow> ecr_sampling_params er = None
      | Some p \<Rightarrow> \<exists>q. validate_prompt_length cf toks p = Inr q \<and>
          ecr_sampling_params er = Some (update_from_tokenizer (fe_eos_token_id cf) q)"
proof -
  let ?toks = "case prompt of Inl text \<Rightarrow> fe_encode cf text | Inr ids \<Rightarrow> ids"
  show thesis
  proof (rule that [of ?toks])
    show "?toks = ?toks" ..
  qed (use assms in \<open>auto simp: process_inputs_def Let_def rbind_eq_Inr_iff validate_prompt_length_def
        validate_pooling_prompt_length_def split: option.splits if_splits\<close>)
qed

lemma validate_prompt_length_ok:
  assumes "validate_prompt_length cf toks p = Inr q" and "args_ok p"
  shows "\<exists>m. ap_max_tokens q = Some m \<and> 1 \<le> m \<and> int (length toks) + m \<le> fe_max_model_len cf \<and>
    min_tokens q = min_tokens p \<and> (min_fits cf toks p \<longrightarrow> min_tokens q \<le> m)"
  using assms by (auto simp: validate_prompt_length_def Let_def args_ok_def min_fits_def split: option.splits if_splits)

lemma sampling_params_init_args: "sampling_params_init s ids p = Inr q \<Longrightarrow> args_ok q"
  by (auto simp: sampling_params_init_def Let_def args_ok_def split: if_splits cong: option.case_cong)

lemma core_params_simps [simp]:
  "sp_max_tokens (core_params (update_from_tokenizer e q)) = ap_max_tokens q"
  "sp_min_tokens (core_params (update_from_tokenizer e q)) = min_tokens q"
  by (simp_all add: core_params_def update_from_tokenizer_def)

text \<open>A constraint \<open>json_object=False\<close> passes the count and has no key.\<close>

lemma json_object_false:
  assumes "p = \<lparr>so_json = None, so_regex = None, so_choice = None, so_grammar = None, so_json_object = Some False,
      so_structural_tag = None, so_backend = None\<rparr>"
  shows "structured_params_init p = Inr p" and "structured_output_key W p = Inl ValueError"
    and "create_grammar W f p rid = GrammarFailed"
  using assms by (simp_all add: structured_params_init_def named_constraints_def structured_output_key_def create_grammar_def)

end
