(* ===== verification/EngineCore.thy ===== *)
theory EngineCore
  imports SchedulerFold Frontend
begin

text \<open>
  \<open>v1/engine/core.py\<close>: the object that owns the clock and composes a step from the scheduler, the
  executor and the background grammar compilation, with the admission half of
  \<open>v1/structured_output/__init__.py\<close>.

  The executor is a parameter of a step: from the scheduler's output (and its own state \<open>'w\<close>) it
  gives the runner's answer and the modelled time it spent on the engine's clock. The trace is
  absent. A compilation runs on another thread; that it ends is a step of its own (\<open>compiled\<close> of
  \<open>reaches\<close>), whose result \<open>create_grammar\<close> of \<open>Frontend\<close> computes.
\<close>

section \<open>State and requests\<close>

record engine_core =
  ec_scheduler :: scheduler
  ec_clock :: rat
  ec_log_stats :: bool
  ec_backend_name :: string \<comment> \<open>\<open>structured_outputs_config.backend\<close>\<close>
  ec_backend_built :: bool
  ec_step_index :: int
  num_dummy_steps :: int
  dummy_step_seconds :: rat

definition upstream_backends :: "string list" where
  "upstream_backends = [''xgrammar'', ''guidance'', ''outlines'', ''lm-format-enforcer'']"

definition build_backend :: "string \<Rightarrow> unit result" where
  "build_backend name =
     (if name \<in> set upstream_backends then Inl NotImplementedError
      else if name \<notin> {''auto'', ''sim''} then Inl ValueError
      else Inr ())"

text \<open>\<open>grammar_init\<close>: the backend is built for the first constrained request; compiling starts.\<close>

definition requested_backend :: "engine_core_request \<Rightarrow> engine_core \<Rightarrow> string" where
  "requested_backend er e =
     (case map_option structured_outputs (ecr_sampling_params er) of
        Some (Some c) \<Rightarrow> (case so_backend c of Some b \<Rightarrow> if b = [] then ec_backend_name e else b | None \<Rightarrow> ec_backend_name e)
      | _ \<Rightarrow> ec_backend_name e)"

definition grammar_init :: "engine_core_request \<Rightarrow> request \<Rightarrow> engine_core \<Rightarrow> engine_core result" where
  "grammar_init er r e =
     (if \<not> use_structured_output r \<or> ec_backend_built e then Inr e
      else rbind (build_backend (requested_backend er e)) (\<lambda>_. Inr (e\<lparr>ec_backend_built := True\<rparr>)))"

definition ec_add_request :: "hash_fn \<Rightarrow> engine_core_request \<Rightarrow> engine_core \<Rightarrow> engine_core result" where
  "ec_add_request H er e =
     rbind (from_engine_core_request H er (ec_clock e) None) (\<lambda>r.
     let r1 = (if ec_log_stats e then record_event QUEUED (ec_clock e) r else r)
     in rbind (grammar_init er r1 e) (\<lambda>e1.
        Inr (e1\<lparr>ec_scheduler := sched_add_request H r1 (ec_scheduler e1)\<rparr>)))"

definition ec_abort_requests :: "string list \<Rightarrow> engine_core \<Rightarrow> engine_core result" where
  "ec_abort_requests rids e =
     rbind (finish_requests (filter (\<lambda>rid. rid \<in> fst ` set (requests (ec_scheduler e))) rids) FINISHED_ABORTED (ec_scheduler e))
       (\<lambda>s. Inr (e\<lparr>ec_scheduler := s\<rparr>))"

section \<open>The step\<close>

text \<open>An event on a request object that the scheduler still holds.\<close>

definition stamp :: "event_type \<Rightarrow> rat \<Rightarrow> string \<Rightarrow> scheduler \<Rightarrow> scheduler" where
  "stamp ev t rid s =
     (case map_of (requests s) rid of None \<Rightarrow> s | Some r \<Rightarrow> set_req rid (record_event ev t r) s)"

definition plan_step :: "engine_core \<Rightarrow> (scheduler_output \<times> engine_core) option result" where
  "plan_step e =
     (if \<not> has_requests (ec_scheduler e) then Inr None
      else
        rbind (schedule (ec_scheduler e)) (\<lambda>(so, s1).
        let (ids, s2) = take_newly_scheduled s1;
            s3 = fold (stamp SCHEDULED (ec_clock e)) ids s2
        in Inr (Some (so, e\<lparr>ec_scheduler := s3\<rparr>))))"

definition spend :: "rat \<Rightarrow> engine_core \<Rightarrow> engine_core" where
  "spend t e = (if 0 < t then e\<lparr>ec_clock := ec_clock e + t\<rparr> else e)"

definition transfer_kv :: "scheduler_output \<Rightarrow> engine_core \<Rightarrow> engine_core" where
  "transfer_kv so e =
     (case (connector (ec_scheduler e), so_kv_connector_metadata so) of
        (Some (c, store), Some meta) \<Rightarrow>
          let (secs, c', store') = start_load_kv meta c store
          in spend secs (e\<lparr>ec_scheduler := (ec_scheduler e)\<lparr>connector := Some (c', store')\<rparr>\<rparr>)
      | _ \<Rightarrow> e)"

definition charge_saves :: "engine_core \<Rightarrow> engine_core" where
  "charge_saves e =
     (case connector (ec_scheduler e) of
        None \<Rightarrow> e
      | Some (c, store) \<Rightarrow>
          let (secs, c') = wait_for_save c
          in spend secs (e\<lparr>ec_scheduler := (ec_scheduler e)\<lparr>connector := Some (c', store)\<rparr>\<rparr>))"

text \<open>\<open>why rid\<close> is the text of the exception a failed compilation left on the request.\<close>

definition failure_reason :: "(string \<Rightarrow> string) \<Rightarrow> scheduler \<Rightarrow> string \<Rightarrow> string" where
  "failure_reason why s rid =
     (if map_option structured_output (map_of (requests s) rid) = Some (Some GrammarFailed) then why rid
      else ''the request's grammar failed to compile'')"

definition failure_output :: "string \<Rightarrow> string \<Rightarrow> engine_core_output" where
  "failure_output rid reason =
     \<lparr>eco_request_id = rid, eco_new_token_ids = [], eco_finish_reason = Some ERROR,
      eco_stop_reason = Some (Inr reason), eco_events = None, eco_num_cached_tokens = 0,
      eco_pooling_output = None\<rparr>"

definition client_of :: "scheduler \<Rightarrow> string \<Rightarrow> int" where
  "client_of s rid = (case map_of (requests s) rid of None \<Rightarrow> 0 | Some r \<Rightarrow> client_index r)"

type_synonym client_outputs = "(int \<times> engine_core_output list) list"

definition finish_grammar_failures :: "(string \<Rightarrow> string) \<Rightarrow> scheduler \<Rightarrow> (client_outputs \<times> scheduler) result" where
  "finish_grammar_failures why s =
     (let (failed, s1) = take_grammar_compile_errors s; ids = sorted_list_of_set failed
      in if ids = [] then Inr ([], s1)
         else
           let outs = fold (\<lambda>rid outs. add_output (client_of s1 rid) (failure_output rid (failure_reason why s1 rid)) outs) ids []
           in rbind (finish_requests ids FINISHED_ERROR s1) (\<lambda>s2. Inr (outs, s2)))"

text \<open>Merging the failures into the outputs of the step, client by client.\<close>

definition merge_outputs :: "client_outputs \<Rightarrow> client_outputs \<Rightarrow> client_outputs" where
  "merge_outputs failures outs =
     fold (\<lambda>(client, fs) acc.
       AList.update client ((case map_of acc client of None \<Rightarrow> [] | Some os \<Rightarrow> os) @ fs) acc) failures outs"

definition finish_step ::
  "hash_fn \<Rightarrow> (string \<Rightarrow> string) \<Rightarrow> scheduler_output \<Rightarrow> model_runner_output \<Rightarrow> engine_core \<Rightarrow>
   (client_outputs \<times> bool \<times> engine_core) result" where
  "finish_step H why so out e =
     rbind (update_from_output H so out (ec_scheduler e)) (\<lambda>(outs, s1).
     let e1 = charge_saves (e\<lparr>ec_scheduler := s1\<rparr>)
     in rbind (finish_grammar_failures why (ec_scheduler e1)) (\<lambda>(failures, s2).
        Inr (merge_outputs failures outs, 0 < so_total_num_scheduled_tokens so,
             e1\<lparr>ec_scheduler := s2, ec_step_index := ec_step_index e1 + 1\<rparr>)))"

text \<open>\<open>step\<close>; \<open>step_async\<close> differs in how the executor spends its time.\<close>

definition ec_step ::
  "hash_fn \<Rightarrow> (string \<Rightarrow> string) \<Rightarrow> (scheduler_output \<Rightarrow> 'w \<Rightarrow> model_runner_output \<times> rat \<times> 'w) \<Rightarrow> engine_core \<times> 'w \<Rightarrow>
   (client_outputs \<times> bool \<times> engine_core \<times> 'w) result" where
  "ec_step H why execute ew =
     (case ew of (e, w) \<Rightarrow>
        rbind (plan_step e) (\<lambda>planned.
        case planned of
          None \<Rightarrow> Inr ([], False, e, w)
        | Some (so, e1) \<Rightarrow>
            let e2 = transfer_kv so e1; (out, secs, w') = execute so w
            in rbind (finish_step H why so out (spend secs e2)) (\<lambda>(outs, ran, e3). Inr (outs, ran, e3, w'))))"

text \<open>The device kept busy with no request: no request state moves.\<close>

definition record_dummy_step :: "rat \<Rightarrow> engine_core \<Rightarrow> engine_core" where
  "record_dummy_step secs e =
     e\<lparr>num_dummy_steps := num_dummy_steps e + 1, dummy_step_seconds := dummy_step_seconds e + secs,
       ec_scheduler := (ec_scheduler e)\<lparr>step_index := step_index (ec_scheduler e) + 1\<rparr>\<rparr>"

definition execute_dummy_batch :: "('w \<Rightarrow> rat \<times> 'w) \<Rightarrow> engine_core \<times> 'w \<Rightarrow> rat \<times> engine_core \<times> 'w" where
  "execute_dummy_batch execute ew =
     (case ew of (e, w) \<Rightarrow> let (secs, w') = execute w in (secs, record_dummy_step secs (spend secs e), w'))"

definition ec_reset_prefix_cache :: "engine_core \<Rightarrow> bool \<times> engine_core" where
  "ec_reset_prefix_cache e =
     (let (ok, s) = sched_reset_prefix_cache (ec_scheduler e) in (ok, e\<lparr>ec_scheduler := s\<rparr>))"

section \<open>What the checks of the frontend give the scheduler\<close>

lemma admissible_request:
  assumes P: "process_inputs cf rid prompt sp client prio salt lora mm pool = Inr er"
    and R: "from_engine_core_request H er t None = Inr r"
    and len: "fe_max_model_len cf = max_model_len (conf s)"
    and sp: "\<And>p. sp = Some p \<Longrightarrow> args_ok p \<and>
      min_fits cf (case prompt of Inl text \<Rightarrow> fe_encode cf text | Inr ids \<Rightarrow> ids) p"
    and fresh: "rid \<notin> dom (table s)"
    and mm: "\<forall>f\<in>set mm. 0 \<le> num_embeds f \<and> num_embeds f \<le> max_num_encoder_input_tokens (conf s) \<and>
      num_embeds f \<le> cache_size (encoder s)"
  shows "admissible s r" and "request_id r = rid"
proof -
  obtain toks where toks: "toks = (case prompt of Inl text \<Rightarrow> fe_encode cf text | Inr ids \<Rightarrow> ids)"
    and er: "ecr_prompt_token_ids er = Some toks" "toks \<noteq> []" "int (length toks) \<le> fe_max_model_len cf"
      "ecr_request_id er = rid" "ecr_mm_features er = mm" "(ecr_pooling_params er = None) = (sp \<noteq> None)"
    and spq: "case sp of None \<Rightarrow> ecr_sampling_params er = None
      | Some p \<Rightarrow> \<exists>q. validate_prompt_length cf toks p = Inr q \<and>
          ecr_sampling_params er = Some (update_from_tokenizer (fe_eos_token_id cf) q)"
    by (rule process_inputs_prompt [OF P])
  from R have r: "request_id r = rid" "all_token_ids r = toks" "output_token_ids r = []" "num_computed_tokens r = 0"
    "mm_features r = mm" "use_pooling r = (ecr_pooling_params er \<noteq> None)" "block_hasher r = None" "block_hashes r = []"
    "sampling_params r = map_option core_params (ecr_sampling_params er)"
    "status r \<in> {WAITING, WAITING_FOR_STRUCTURED_OUTPUT_GRAMMAR}"
    "max_tokens r = (case map_option core_params (ecr_sampling_params er) of None \<Rightarrow> 0
        | Some x \<Rightarrow> (case sp_max_tokens x of None \<Rightarrow> 0 | Some m \<Rightarrow> m))"
    using er by (auto simp: from_engine_core_request_def request_init_def Let_def update_block_hashes_def split: if_splits)
  show "request_id r = rid" by (rule r(1))
  have bud: "budget_ok (conf s) r"
  proof (cases sp)
    case None
    then show ?thesis using spq er(6) r(6,9) by (simp add: budget_ok_def)
  next
    case (Some p)
    then obtain q where q: "validate_prompt_length cf toks p = Inr q"
      "ecr_sampling_params er = Some (update_from_tokenizer (fe_eos_token_id cf) q)" using spq by auto
    from validate_prompt_length_ok [OF q(1)] sp [OF Some] toks obtain m where
      m: "ap_max_tokens q = Some m" "1 \<le> m" "int (length toks) + m \<le> fe_max_model_len cf" "min_tokens q \<le> m" by auto
    then show ?thesis using q(2) r(2,3,9,11) len
      by (simp add: budget_ok_def num_output_tokens_def num_tokens_def)
  qed
  show "admissible s r"
    using r er(2,3) fresh mm bud len by (auto simp: admissible_def num_tokens_def features_fit_def)
qed

lemma accepted_builds:
  assumes P: "process_inputs cf rid prompt sp client prio salt lora mm pool = Inr er"
  shows "\<exists>r. from_engine_core_request H er t None = Inr r"
proof -
  obtain toks where er: "(ecr_pooling_params er = None) = (sp \<noteq> None)"
    and spq: "case sp of None \<Rightarrow> ecr_sampling_params er = None
      | Some p \<Rightarrow> \<exists>q. validate_prompt_length cf toks p = Inr q \<and>
          ecr_sampling_params er = Some (update_from_tokenizer (fe_eos_token_id cf) q)"
    by (rule process_inputs_prompt [OF P])
  show ?thesis
  proof (cases sp)
    case None
    then show ?thesis using er spq by (simp add: from_engine_core_request_def request_init_def Let_def)
  next
    case (Some p)
    then obtain q where q: "validate_prompt_length cf toks p = Inr q"
      "ecr_sampling_params er = Some (update_from_tokenizer (fe_eos_token_id cf) q)" using spq by auto
    then have "ap_max_tokens q \<noteq> None" by (auto simp: validate_prompt_length_def Let_def split: option.splits if_splits)
    then show ?thesis using Some er q(2) by (simp add: from_engine_core_request_def request_init_def Let_def)
  qed
qed

end
