(* ===== verification/EngineRun.thy ===== *)
theory EngineRun
  imports EngineCore
begin

text \<open>
  Runs of the engine core: a step never raises if the executor answers as the runner does, the
  clock never goes back, and no request disappears without an output that says why.
\<close>

section \<open>Partial correctness of what may raise\<close>

definition returns :: "'a result \<Rightarrow> ('a \<Rightarrow> bool) \<Rightarrow> bool" where
  "returns m Q \<longleftrightarrow> (\<forall>x. m = Inr x \<longrightarrow> Q x)"

lemma returnsD: "returns m Q \<Longrightarrow> m = Inr x \<Longrightarrow> Q x"
  by (simp add: returns_def)

lemma returns_simps [simp]: "returns (Inl e) Q" "returns (Inr x) Q \<longleftrightarrow> Q x"
  by (simp_all add: returns_def)

lemma returns_bind: "returns m P \<Longrightarrow> (\<And>x. P x \<Longrightarrow> returns (f x) Q) \<Longrightarrow> returns (rbind m f) Q"
  by (cases m) auto

lemma returns_any: "(\<And>x. returns (f x) Q) \<Longrightarrow> returns (rbind m f) Q"
  by (cases m) auto

lemma returns_mono: "returns m P \<Longrightarrow> (\<And>x. P x \<Longrightarrow> Q x) \<Longrightarrow> returns m Q"
  by (auto simp: returns_def)

lemma returns_if: "(c \<Longrightarrow> returns a Q) \<Longrightarrow> (\<not> c \<Longrightarrow> returns b Q) \<Longrightarrow> returns (if c then a else b) Q"
  by simp

lemma returns_foldE:
  assumes "\<And>x s. x \<in> set xs \<Longrightarrow> I s \<Longrightarrow> returns (f x s) I"
  shows "I s \<Longrightarrow> returns (foldE f xs s) I"
  using assms
proof (induction xs arbitrary: s)
  case (Cons x xs)
  have "returns (f x s) I" using Cons.prems by simp
  moreover have "returns (foldE f xs t) I" if "I t" for t by (rule Cons.IH [OF that]) (use Cons.prems(2) in simp)
  ultimately show ?case by (simp add: returns_bind)
qed simp

section \<open>Computing a step forgets no request\<close>

definition knows :: "string \<Rightarrow> scheduler \<Rightarrow> bool" where
  "knows rid s \<longleftrightarrow> rid \<in> fst ` set (requests s)"

lemma knows_table: "knows rid s \<longleftrightarrow> rid \<in> dom (table s)"
  by (simp add: knows_def table_def dom_map_of_conv_image_fst)

lemma knows_set_req [simp]: "knows x (set_req rid r s) \<longleftrightarrow> x = rid \<or> knows x s"
  by (auto simp: knows_table table_def update_conv')

lemma knows_frame [simp]:
  "knows x (s\<lparr>kvm := k\<rparr>) = knows x s" "knows x (s\<lparr>running := run\<rparr>) = knows x s"
  "knows x (s\<lparr>waiting := q\<rparr>) = knows x s" "knows x (s\<lparr>skipped_waiting := q\<rparr>) = knows x s"
  "knows x (s\<lparr>encoder := c\<rparr>) = knows x s" "knows x (s\<lparr>connector := cn\<rparr>) = knows x s"
  "knows x (s\<lparr>pending_scheduled := p\<rparr>) = knows x s" "knows x (s\<lparr>grammar_compile_error_reqs := g\<rparr>) = knows x s"
  "knows x (s\<lparr>num_preemptions_total := i\<rparr>) = knows x s" "knows x (s\<lparr>finished_req_ids := f\<rparr>) = knows x s"
  "knows x (s\<lparr>step_index := j\<rparr>) = knows x s"
  "knows x (s\<lparr>num_draft_tokens_total := d\<rparr>) = knows x s" "knows x (s\<lparr>num_accepted_tokens_total := d\<rparr>) = knows x s"
  by (simp_all add: knows_def)

lemma knows_release: "knows x (sched st) \<Longrightarrow> returns (release_encoder_reservation rid ids st) (\<lambda>st'. knows x (sched st'))"
  unfolding release_encoder_reservation_def by (rule returns_any) auto

lemma knows_preempt: "knows x s \<Longrightarrow> returns (preempt_request rid s) (knows x)"
  unfolding preempt_request_def Let_def by (intro returns_if returns_any) auto

lemma knows_take_victim: "knows x (sched st) \<Longrightarrow> returns (take_victim st) (\<lambda>(v, st'). knows x (sched st'))"
  by (auto simp: take_victim_def Let_def split: scheduling_policy.split list.split option.split)

lemma knows_preempt_victim:
  assumes "knows x (sched st)"
  shows "returns (preempt_victim st) (\<lambda>(v, st'). knows x (sched st'))"
  unfolding preempt_victim_def
proof (rule returns_bind [OF knows_take_victim [OF assms]], clarify)
  fix v and st1 :: step assume "knows x (sched st1)"
  from knows_release [OF this]
  show "returns (rbind (release_encoder_reservation v (encoder_inputs_of v st1) st1) (\<lambda>st2.
      rbind (preempt_request v (sched st2)) (\<lambda>s3. Inr (v, st2\<lparr>sched := s3, preempted_reqs := preempted_reqs st2 @ [v]\<rparr>))))
      (\<lambda>(v, st'). knows x (sched st'))"
  proof (rule returns_bind)
    fix st2 :: step assume "knows x (sched st2)"
    from knows_preempt [OF this] show "returns (rbind (preempt_request v (sched st2)) (\<lambda>s3.
        Inr (v, st2\<lparr>sched := s3, preempted_reqs := preempted_reqs st2 @ [v]\<rparr>))) (\<lambda>(v, st'). knows x (sched st'))"
      by (rule returns_bind) simp
  qed
qed

lemma knows_allocate_or_preempt:
  "knows x (sched st) \<Longrightarrow> returns (allocate_or_preempt rid n st) (\<lambda>(res, st'). knows x (sched st'))"
proof (induction rid n st rule: allocate_or_preempt.induct)
  case (1 rid n st)
  let ?alloc = "allocate_slots (req (sched st) rid) n 0 None 0 False (kvm (sched st))"
  show ?case
  proof (cases ?alloc)
    case (Inl e)
    then show ?thesis by (simp add: allocate_or_preempt.simps [of rid n st])
  next
    case A: (Inr y)
    obtain res k where y: "y = (res, k)" by (cases y)
    show ?thesis
    proof (cases res)
      case (Some blocks)
      then show ?thesis using A y 1(2) by (simp add: allocate_or_preempt.simps [of rid n st])
    next
      case None
      let ?st1 = "st\<lparr>sched := sched st\<lparr>kvm := k\<rparr>\<rparr>"
      have k1: "knows x (sched ?st1)" using 1(2) by simp
      have E: "allocate_or_preempt rid n st = rbind (preempt_victim ?st1) (\<lambda>(v, st').
          if v = rid then Inr (None, st') else allocate_or_preempt rid n st')"
        using A y None by (simp add: allocate_or_preempt.simps [of rid n st])
      show ?thesis
      proof (cases "preempt_victim ?st1")
        case (Inl e)
        then show ?thesis unfolding E by simp
      next
        case V: (Inr z)
        obtain v st' where z: "z = (v, st')" by (cases z)
        have kn: "knows x (sched st')" using returnsD [OF knows_preempt_victim [OF k1] V] z by simp
        show ?thesis
        proof (cases "v = rid")
          case True
          then show ?thesis unfolding E using V z kn by simp
        next
          case False
          have "returns (allocate_or_preempt rid n st') (\<lambda>(res, st'). knows x (sched st'))"
            by (rule 1(1) [OF refl A y [symmetric] None V z [symmetric] False kn])
          then show ?thesis unfolding E using V z False by simp
        qed
      qed
    qed
  qed
qed

lemma knows_schedule_encoder: "knows x s \<Longrightarrow> returns (schedule_encoder r n b s) (\<lambda>(n', ids, b', s'). knows x s')"
  unfolding schedule_encoder_def by (intro returns_if returns_any) auto

lemma knows_record_running: "knows x (sched st) \<Longrightarrow> knows x (sched (record_running rid n blocks st))"
  by (simp add: record_running_def Let_def)

lemma knows_running_step:
  assumes k: "knows x (sched st)"
  shows "returns (running_step st) (\<lambda>(go, st'). knows x (sched st'))"
proof -
  let ?s = "sched st"
  let ?rid = "running ?s ! nat (req_index st)"
  let ?r = "drop_drafts ?s (req ?s ?rid)"
  let ?n = "running_share (conf ?s) ?r (token_budget st)"
  have k1: "knows x (set_req ?rid ?r ?s)" using k by simp
  show ?thesis
    unfolding running_step_def Let_def
  proof (intro returns_if returns_bind [OF knows_schedule_encoder [OF k1]], goal_cases)
    case (3 p)
    obtain n' ids eb s2 where p: "p = (n', ids, eb, s2)" by (cases p)
    then have k2: "knows x s2" using 3 by simp
    let ?st3 = "if ids = [] then st\<lparr>sched := s2, encoder_budget := eb\<rparr>
      else st\<lparr>sched := s2, encoder_budget := eb\<rparr>\<lparr>scheduled_encoder_inputs :=
        AList.update ?rid ids (scheduled_encoder_inputs (st\<lparr>sched := s2, encoder_budget := eb\<rparr>))\<rparr>"
    have k3: "knows x (sched ?st3)" using k2 by simp
    have "returns (rbind (allocate_or_preempt ?rid n' ?st3) (\<lambda>(res, st4).
        case res of None \<Rightarrow> rbind (release_encoder_reservation ?rid (encoder_inputs_of ?rid st4) st4) (\<lambda>st5. Inr (False, st5))
        | Some blocks \<Rightarrow> Inr (True, record_running ?rid n' blocks st4))) (\<lambda>(go, st'). knows x (sched st'))"
    proof (rule returns_bind [OF knows_allocate_or_preempt [OF k3]], clarify)
      fix res and st4 :: step assume k4: "knows x (sched st4)"
      show "returns (case res of None \<Rightarrow> rbind (release_encoder_reservation ?rid (encoder_inputs_of ?rid st4) st4) (\<lambda>st5. Inr (False, st5))
          | Some blocks \<Rightarrow> Inr (True, record_running ?rid n' blocks st4)) (\<lambda>(go, st'). knows x (sched st'))"
      proof (cases res)
        case None
        have "returns (rbind (release_encoder_reservation ?rid (encoder_inputs_of ?rid st4) st4) (\<lambda>st5. Inr (False, st5)))
            (\<lambda>(go, st'). knows x (sched st'))"
          by (rule returns_bind [OF knows_release [OF k4]]) simp
        then show ?thesis using None by simp
      next
        case (Some blocks)
        then show ?thesis using knows_record_running [OF k4] by simp
      qed
    qed
    then show ?case using p k2 by simp
  qed (use k in simp_all)
qed

lemma knows_running_loop: "knows x (sched st) \<Longrightarrow> returns (running_loop st) (\<lambda>st'. knows x (sched st'))"
proof (induction st rule: running_loop.induct)
  case (1 st)
  show ?case
  proof (cases "req_index st < int (length (running (sched st))) \<and> 0 < token_budget st")
    case True
    have "returns (rbind (running_step st) (\<lambda>(go, st'). if go then running_loop st' else Inr st')) (\<lambda>st'. knows x (sched st'))"
    proof (cases "running_step st")
      case (Inr p)
      obtain go st' where p: "p = (go, st')" by (cases p)
      have "knows x (sched st')" using returnsD [OF knows_running_step [OF 1(2)] Inr] p by simp
      then show ?thesis using 1(1) [OF True Inr p [symmetric]] Inr p by (cases go) simp_all
    qed simp
    then show ?thesis using True by (subst running_loop.simps) simp
  next
    case False
    then show ?thesis using 1(2) by (subst running_loop.simps) auto
  qed
qed

lemma knows_set_aside: "knows x s \<Longrightarrow> returns (set_aside e s) (knows x)"
  unfolding set_aside_def by (rule returns_any) auto

lemma knows_promote: "knows x s \<Longrightarrow> knows x (snd (promote_grammar_request rid s))"
  by (auto simp: promote_grammar_request_def Let_def split: option.split grammar_state.split)

lemma knows_external: "knows x s \<Longrightarrow> knows x (snd (external_tokens r n s))"
  by (auto simp: external_tokens_def split: option.split prod.split)

lemma knows_admit:
  assumes k: "knows x (sched st)"
  shows "returns (admit nl ne n st) (\<lambda>st'. knows x (sched st'))"
proof (cases "pop_request (waiting (sched st))")
  case (Inr p)
  obtain e q where p: "p = (e, q)" by (cases p)
  define s1 where "s1 = (sched st)\<lparr>waiting := q, running := running (sched st) @ [entry_id e],
    pending_scheduled := pending_scheduled (sched st) @ [entry_id e]\<rparr>"
  let ?r = "req s1 (entry_id e)"
  have k1: "knows x s1" using k by (simp add: s1_def)
  have c: "returns (case connector s1 of
      Some (c, store) \<Rightarrow>
        if ne \<noteq> 0 then rbind (update_state_after_alloc ?r (kvm_get_blocks (kvm s1) (entry_id e)) ne c) (\<lambda>c'.
          Inr (s1\<lparr>connector := Some (c', store)\<rparr>)) else Inr s1
    | None \<Rightarrow> Inr s1) (knows x)"
    using k1 by (auto split: option.split intro!: returns_any)
  show ?thesis
    unfolding admit_def Let_def Inr p rbind_Inr prod.case s1_def [symmetric]
    by (intro returns_if returns_bind [OF c]) simp_all
qed (simp add: admit_def)

lemma knows_admission_allocate:
  assumes k: "knows x (sched st)"
  shows "returns (admission_allocate e hit nl ne n st) (\<lambda>(go, st'). knows x (sched st'))"
  unfolding admission_allocate_def Let_def
proof (rule returns_bind [OF knows_schedule_encoder [OF k]], clarify, intro returns_if)
  fix n' ids eb and s1 :: scheduler assume k1: "knows x s1"
  show "returns (rbind (set_aside e s1) (\<lambda>s2. rbind (kvm_free (req (sched st) (entry_id e)) (kvm s2)) (\<lambda>k.
      Inr (True, st\<lparr>sched := s1, encoder_budget := eb\<rparr>\<lparr>sched := s2\<lparr>kvm := k\<rparr>\<rparr>)))) (\<lambda>(go, st'). knows x (sched st'))"
    by (rule returns_bind [OF knows_set_aside [OF k1]], rule returns_any) simp
  show "returns (rbind (allocate_slots (req (sched st) (entry_id e)) n' (nl + ne) (Some hit) 0 False (kvm s1)) (\<lambda>(res, k).
      case res of
        None \<Rightarrow> rbind (release_encoder_reservation (entry_id e) ids (st\<lparr>sched := s1, encoder_budget := eb\<rparr>\<lparr>sched := s1\<lparr>kvm := k\<rparr>\<rparr>))
          (\<lambda>st3. Inr (False, st3))
      | Some blocks \<Rightarrow>
          rbind (admit nl ne n' (if ids = [] then st\<lparr>sched := s1, encoder_budget := eb\<rparr>\<lparr>sched := s1\<lparr>kvm := k\<rparr>\<rparr>
            else st\<lparr>sched := s1, encoder_budget := eb\<rparr>\<lparr>sched := s1\<lparr>kvm := k\<rparr>\<rparr>\<lparr>scheduled_encoder_inputs :=
              AList.update (entry_id e) ids (scheduled_encoder_inputs (st\<lparr>sched := s1, encoder_budget := eb\<rparr>\<lparr>sched := s1\<lparr>kvm := k\<rparr>\<rparr>))\<rparr>))
            (\<lambda>st4. Inr (True, st4)))) (\<lambda>(go, st'). knows x (sched st'))"
    by (rule returns_any, clarify)
      (auto simp: k1 split: option.split intro!: returns_bind [OF knows_release] returns_bind [OF knows_admit])
qed

lemma knows_admission_lookup:
  assumes k: "knows x (sched st)"
  shows "returns (admission_lookup e st) (\<lambda>(go, st'). knows x (sched st'))"
  unfolding admission_lookup_def Let_def
proof (rule returns_any, clarify)
  fix hit nl k
  let ?ex = "external_tokens (req (sched st) (entry_id e)) nl (sched st\<lparr>kvm := k\<rparr>)"
  obtain ne s2 where ex: "?ex = (ne, s2)" by (cases ?ex)
  have "knows x s2" using knows_external [of x "sched st\<lparr>kvm := k\<rparr>" "req (sched st) (entry_id e)" nl] k ex by simp
  then have "knows x (sched (st\<lparr>sched := s2\<rparr>))" by simp
  note kn = this knows_admission_allocate [OF this]
  show "returns (case ?ex of (ne, s2) \<Rightarrow>
      if \<not> enable_chunked_prefill (conf (sched st)) \<and> token_budget st < admission_share (conf (sched st)) (req (sched st) (entry_id e)) (nl + ne)
      then Inr (False, st\<lparr>sched := s2\<rparr>)
      else if min (admission_share (conf (sched st)) (req (sched st) (entry_id e)) (nl + ne)) (token_budget st) \<le> 0
      then Inr (False, st\<lparr>sched := s2\<rparr>)
      else admission_allocate e hit nl ne (min (admission_share (conf (sched st)) (req (sched st) (entry_id e)) (nl + ne)) (token_budget st))
        (st\<lparr>sched := s2\<rparr>)) (\<lambda>(go, st'). knows x (sched st'))"
    unfolding ex prod.case by (intro returns_if kn(2)) (use kn(1) in simp_all)
qed

lemma knows_admission_step:
  assumes k: "knows x (sched st)"
  shows "returns (admission_step st) (\<lambda>(go, st'). knows x (sched st'))"
  unfolding admission_step_def Let_def
proof (rule returns_if, simp add: k, rule returns_if, simp add: k, rule returns_any, rule returns_if)
  fix e
  show "returns (rbind (set_aside e (sched st)) (\<lambda>s1. Inr (True, st\<lparr>sched := s1\<rparr>))) (\<lambda>(go, st'). knows x (sched st'))"
    by (rule returns_bind [OF knows_set_aside [OF k]]) simp
  let ?p = "if status (req (sched st) (entry_id e)) = WAITING_FOR_STRUCTURED_OUTPUT_GRAMMAR
    then promote_grammar_request (entry_id e) (sched st) else (True, sched st)"
  obtain ready s1 where p: "?p = (ready, s1)" by (cases ?p)
  have "knows x (snd ?p)" using k knows_promote by simp
  then have k1: "knows x s1" by (simp only: p snd_conv)
  then have k2: "knows x (sched (st\<lparr>sched := s1\<rparr>))" by simp
  show "returns (case ?p of (ready, s1) \<Rightarrow>
      if \<not> ready then rbind (set_aside e s1) (\<lambda>s2. Inr (True, st\<lparr>sched := s2\<rparr>))
      else admission_lookup e (st\<lparr>sched := s1\<rparr>)) (\<lambda>(go, st'). knows x (sched st'))"
    unfolding p prod.case
    by (intro returns_if knows_admission_lookup [OF k2] returns_bind [OF knows_set_aside [OF k1]]) simp
qed

lemma knows_admission_loop: "knows x (sched st) \<Longrightarrow> returns (admission_loop st) (\<lambda>st'. knows x (sched st'))"
proof (induction st rule: admission_loop.induct)
  case (1 st)
  show ?case
  proof (cases "queue_list (waiting (sched st)) \<noteq> [] \<and> 0 < token_budget st")
    case True
    have "returns (rbind (admission_step st) (\<lambda>(go, st'). if go then admission_loop st' else Inr st')) (\<lambda>st'. knows x (sched st'))"
    proof (cases "admission_step st")
      case (Inr p)
      obtain go st' where p: "p = (go, st')" by (cases p)
      have "knows x (sched st')" using returnsD [OF knows_admission_step [OF 1(2)] Inr] p by simp
      then show ?thesis using 1(1) [OF True Inr p [symmetric]] Inr p by (cases go) simp_all
    qed simp
    then show ?thesis using True by (subst admission_loop.simps) simp
  next
    case False
    then show ?thesis using 1(2) by (subst admission_loop.simps) auto
  qed
qed

lemma knows_schedule:
  assumes "knows x s"
  shows "returns (schedule s) (\<lambda>(so, s'). knows x s')"
proof -
  have adv: "knows x t \<Longrightarrow> knows x (fold advance_request ns t)" for ns t
  proof (induction ns arbitrary: t)
    case (Cons rn ns)
    obtain rid n where "rn = (rid, n)" by (cases rn)
    then have "knows x (advance_request rn t)" using Cons.prems by (simp add: advance_request_def Let_def)
    then show ?case using Cons.IH by simp
  qed simp
  have "returns (decide s) (\<lambda>st. knows x (sched st))"
    unfolding decide_def
  proof (rule returns_bind [OF knows_running_loop])
    show "knows x (sched (initial_step s))" using assms by (simp add: initial_step_def)
  next
    fix st1 :: step assume k1: "knows x (sched st1)"
    have k2: "returns (collect_loras st1) (\<lambda>st2. knows x (sched st2))"
      using k1 by (simp add: collect_loras_def Let_def split: option.split)
    show "returns (rbind (collect_loras st1) (\<lambda>st2.
        rbind (if preempted_reqs st2 = [] then admission_loop st2 else Inr st2) (\<lambda>st3.
        if max_num_scheduled_tokens (conf s) < total_scheduled st3 then Inl AssertionError
        else if max_num_running_reqs (conf s) < int (length (running (sched st3))) then Inl AssertionError
        else Inr (st3\<lparr>sched := restore_skipped_waiting (sched st3)\<rparr>)))) (\<lambda>st. knows x (sched st))"
    proof (rule returns_bind [OF k2])
      fix st2 :: step assume k2: "knows x (sched st2)"
      have "returns (if preempted_reqs st2 = [] then admission_loop st2 else Inr st2) (\<lambda>st3. knows x (sched st3))"
        using knows_admission_loop [OF k2] k2 by simp
      then show "returns (rbind (if preempted_reqs st2 = [] then admission_loop st2 else Inr st2) (\<lambda>st3.
          if max_num_scheduled_tokens (conf s) < total_scheduled st3 then Inl AssertionError
          else if max_num_running_reqs (conf s) < int (length (running (sched st3))) then Inl AssertionError
          else Inr (st3\<lparr>sched := restore_skipped_waiting (sched st3)\<rparr>))) (\<lambda>st. knows x (sched st))"
        by (rule returns_bind) (simp add: restore_skipped_waiting_def)
    qed
  qed
  then show ?thesis unfolding schedule_def Let_def
    by (rule returns_bind) (simp add: update_after_schedule_def drain_outputs_def adv)
qed

section \<open>Folding a step back reports whoever leaves\<close>

definition finished_in :: "client_outputs \<Rightarrow> string \<Rightarrow> bool" where
  "finished_in outs rid \<longleftrightarrow>
     (\<exists>c os out. map_of outs c = Some os \<and> out \<in> set os \<and> eco_request_id out = rid \<and> eco_finish_reason out \<noteq> None)"

lemma finished_in_update:
  "finished_in (AList.update c (os @ fs) outs) x"
  if "finished_in outs x \<and> os = (case map_of outs c of None \<Rightarrow> [] | Some os \<Rightarrow> os) \<or>
      (\<exists>out\<in>set fs. eco_request_id out = x \<and> eco_finish_reason out \<noteq> None)"
  using that
proof
  assume "finished_in outs x \<and> os = (case map_of outs c of None \<Rightarrow> [] | Some os \<Rightarrow> os)"
  then obtain c' os' out where o: "map_of outs c' = Some os'" "out \<in> set os'" "eco_request_id out = x"
    "eco_finish_reason out \<noteq> None" "os = (case map_of outs c of None \<Rightarrow> [] | Some os \<Rightarrow> os)"
    unfolding finished_in_def by blast
  show ?thesis
  proof (cases "c' = c")
    case True
    then have "map_of (AList.update c (os @ fs) outs) c = Some (os' @ fs)" using o by (simp add: update_conv')
    then show ?thesis unfolding finished_in_def using o(2-4) by fastforce
  next
    case False
    then have "map_of (AList.update c (os @ fs) outs) c' = Some os'" using o by (simp add: update_conv')
    then show ?thesis unfolding finished_in_def using o(2-4) by blast
  qed
next
  assume "\<exists>out\<in>set fs. eco_request_id out = x \<and> eco_finish_reason out \<noteq> None"
  moreover have "map_of (AList.update c (os @ fs) outs) c = Some (os @ fs)" by (simp add: update_conv')
  ultimately show ?thesis unfolding finished_in_def by fastforce
qed

lemma finished_in_add: "finished_in outs x \<or> eco_request_id out = x \<and> eco_finish_reason out \<noteq> None \<Longrightarrow>
    finished_in (add_output c out outs) x"
  unfolding add_output_def by (rule finished_in_update) auto

lemma append_output_id: "request_id (append_output_token_ids H ts r) = request_id r"
  by (simp add: append_output_token_ids_def Let_def update_block_hashes_def split: option.split)

lemma update_request_reports:
  "update_request_with_output H L ts r = Inr (ts', halt, r') \<Longrightarrow>
   request_id r' = request_id r \<and> (halt \<longrightarrow> status_is_finished (status r'))"
proof (induction ts arbitrary: r ts' r')
  case (Cons t ts)
  let ?a = "append_output_token_ids H [t] r"
  from Cons.prems obtain b r1 where C: "check_stop L ?a = Inr (b, r1)"
    and R: "if b then ts' = [t] \<and> halt \<and> r' = r1
      else \<exists>ts2. update_request_with_output H L ts r1 = Inr (ts2, halt, r')"
    by (auto simp: rbind_eq_Inr_iff split: if_splits)
  have id: "request_id r1 = request_id r"
    using check_stop_frame [OF C] append_output_id [of H "[t]" r] by (metis request.select_convs(1) request.update_convs(8) request.update_convs(10) request.surjective)
  show ?case
  proof (cases b)
    case True
    then show ?thesis using R id check_stop_True C by auto
  next
    case False
    then show ?thesis using R id Cons.IH by force
  qed
qed simp

lemma free_request_knows: "x \<noteq> request_id r \<Longrightarrow> knows x s \<Longrightarrow> returns (free_request r s) (knows x)"
  unfolding free_request_def
proof (rule returns_bind [where P = "knows x"])
  assume k: "knows x s" and x: "x \<noteq> request_id r"
  show "returns (case connector s of None \<Rightarrow> Inr s
      | Some (c, store) \<Rightarrow> rbind (request_finished r c store) (\<lambda>(delay, c', store').
          if delay then Inl NotImplementedError else Inr (s\<lparr>connector := Some (c', store')\<rparr>))) (knows x)"
    using k by (auto split: option.split intro!: returns_any)
  fix s1 :: scheduler assume k1: "knows x s1"
  show "returns (rbind (if mm_features r = [] then Inr s1 else rbind (enc_free r (encoder s1)) (\<lambda>c. Inr (s1\<lparr>encoder := c\<rparr>))) (\<lambda>s2.
      if \<not> is_finished r then Inl AssertionError
      else rbind (kvm_free r (kvm s2)) (\<lambda>k.
        Inr (s2\<lparr>kvm := k, finished_req_ids := insert (request_id r) (finished_req_ids s2),
               requests := AList.delete (request_id r) (requests s2)\<rparr>)))) (knows x)"
  proof (rule returns_bind [where P = "knows x"])
    show "returns (if mm_features r = [] then Inr s1 else rbind (enc_free r (encoder s1)) (\<lambda>c. Inr (s1\<lparr>encoder := c\<rparr>))) (knows x)"
      using k1 by (auto intro!: returns_any)
    fix s2 :: scheduler assume k2: "knows x s2"
    have "x \<in> fst ` set (AList.delete (request_id r) (requests s2))"
      using k2 x by (simp add: knows_def) (metis dom_map_of_conv_image_fst delete_conv' domIff fun_upd_other)
    then show "returns (if \<not> is_finished r then Inl AssertionError
      else rbind (kvm_free r (kvm s2)) (\<lambda>k.
        Inr (s2\<lparr>kvm := k, finished_req_ids := insert (request_id r) (finished_req_ids s2),
               requests := AList.delete (request_id r) (requests s2)\<rparr>))) (knows x)"
      by (intro returns_if returns_any) (simp_all add: knows_def)
  qed
qed

abbreviation accounted :: "string \<Rightarrow> fold_state \<Rightarrow> bool" where
  "accounted x acc \<equiv> (case acc of (still, outs, s) \<Rightarrow> knows x s \<or> finished_in outs x)"

lemma fold_request_accounts:
  assumes id: "request_id (req s rid) = rid" and a: "accounted x (still, outs, s)"
  shows "returns (fold_request H so out rid (still, outs, s)) (accounted x)"
proof (cases "(case map_of (so_num_scheduled_tokens so) rid of None \<Rightarrow> 0 | Some n \<Rightarrow> n) = 0")
  case True
  then show ?thesis using a by (simp add: fold_request_def)
next
  case False
  let ?g = "generated_for out rid" and ?ds = "drafts_of so rid" and ?P = "pooled_for out rid"
  let ?s0 = "count_drafts (length ?ds) ?g s"
  define r0 where "r0 = roll_back (length ?ds) ?g (req s rid)"
  define pooled where "pooled = (if use_pooling r0 then ?P else None)"
  define r1 where "r1 = (if pooled \<noteq> None then r0\<lparr>status := FINISHED_STOPPED\<rparr> else r0)"
  have id1: "request_id r1 = rid" using id by (simp add: r1_def r0_def roll_back_def Let_def)
  have k0: "knows y ?s0 = knows y s" for y by (simp add: knows_def)
  define upd where "upd = (if ?g \<noteq> [] \<and> \<not> use_pooling r1
      then update_request_with_output H (max_model_len (conf s)) ?g r1 else Inr ([], pooled \<noteq> None, r1))"
  have u: "returns upd (\<lambda>(ts, halt, r2). request_id r2 = rid \<and> (halt \<longrightarrow> status_is_finished (status r2)))"
    unfolding upd_def
  proof (rule returns_if)
    show "returns (update_request_with_output H (max_model_len (conf s)) ?g r1)
        (\<lambda>(ts, halt, r2). request_id r2 = rid \<and> (halt \<longrightarrow> status_is_finished (status r2)))"
      using update_request_reports id1 by (fastforce simp: returns_def)
    show "returns (Inr ([], pooled \<noteq> None, r1)) (\<lambda>(ts, halt, r2). request_id r2 = rid \<and> (halt \<longrightarrow> status_is_finished (status r2)))"
      using id1 by (simp add: r1_def status_is_finished_iff)
  qed
  have E: "fold_request H so out rid (still, outs, s) =
    rbind upd (\<lambda>(new_toks, stopped, r2).
       rbind (if stopped then free_request r2 (set_req rid r2 ?s0) else Inr (set_req rid r2 ?s0)) (\<lambda>s1.
       let still' = (if stopped then still else still @ [rid])
       in if new_toks = [] \<and> \<not> stopped then Inr (still', outs, s1)
          else
            let (evs, r3) = take_events r2;
                o' = \<lparr>eco_request_id = rid, eco_new_token_ids = new_toks,
                      eco_finish_reason = get_finished_reason r2, eco_stop_reason = map_option Inl (stop_reason r2),
                      eco_events = evs, eco_num_cached_tokens = num_cached_tokens r2,
                      eco_pooling_output = pooled\<rparr>
            in Inr (still', add_output (client_index r2) o' outs,
                    (if stopped then s1 else set_req rid r3 s1))))"
    using False by (simp only: fold_request_def prod.case if_False Let_def count_drafts_parts
        r0_def pooled_def r1_def upd_def)
  show ?thesis
    unfolding E
  proof (rule returns_bind [OF u])
    fix p :: "int list \<times> bool \<times> request"
    assume "case p of (ts, halt, r2) \<Rightarrow> request_id r2 = rid \<and> (halt \<longrightarrow> status_is_finished (status r2))"
    moreover obtain ts halt r2 where p: "p = (ts, halt, r2)" by (cases p)
    ultimately have r2: "request_id r2 = rid" and fin: "halt \<longrightarrow> status_is_finished (status r2)" by simp_all
    have kx: "knows x s \<or> finished_in outs x" using a by simp
    let ?free = "if halt then free_request r2 (set_req rid r2 ?s0) else Inr (set_req rid r2 ?s0)"
    have f: "returns ?free (\<lambda>s1. knows x s \<longrightarrow> knows x s1 \<or> x = rid \<and> halt)"
      using free_request_knows [of x r2 "set_req rid r2 ?s0"] r2 k0
      by (auto simp: returns_def)
    show "returns (case p of (new_toks, stopped, r2) \<Rightarrow>
       rbind (if stopped then free_request r2 (set_req rid r2 ?s0) else Inr (set_req rid r2 ?s0)) (\<lambda>s1.
       let still' = (if stopped then still else still @ [rid])
       in if new_toks = [] \<and> \<not> stopped then Inr (still', outs, s1)
          else
            let (evs, r3) = take_events r2;
                o' = \<lparr>eco_request_id = rid, eco_new_token_ids = new_toks,
                      eco_finish_reason = get_finished_reason r2, eco_stop_reason = map_option Inl (stop_reason r2),
                      eco_events = evs, eco_num_cached_tokens = num_cached_tokens r2,
                      eco_pooling_output = pooled\<rparr>
            in Inr (still', add_output (client_index r2) o' outs,
                    (if stopped then s1 else set_req rid r3 s1)))) (accounted x)"
      unfolding p prod.case
    proof (rule returns_bind [OF f])
      fix s1 assume s1: "knows x s \<longrightarrow> knows x s1 \<or> x = rid \<and> halt"
      obtain evs r3 where ev: "take_events r2 = (evs, r3)" by (cases "take_events r2")
      have "get_finished_reason r2 \<noteq> None" if halt
        using fin that finished_has_reason by (simp add: get_finished_reason_def)
      then show "returns (let still' = (if halt then still else still @ [rid])
       in if ts = [] \<and> \<not> halt then Inr (still', outs, s1)
          else
            let (evs, r3) = take_events r2;
                o' = \<lparr>eco_request_id = rid, eco_new_token_ids = ts,
                      eco_finish_reason = get_finished_reason r2, eco_stop_reason = map_option Inl (stop_reason r2),
                      eco_events = evs, eco_num_cached_tokens = num_cached_tokens r2,
                      eco_pooling_output = pooled\<rparr>
            in Inr (still', add_output (client_index r2) o' outs,
                    (if halt then s1 else set_req rid r3 s1))) (accounted x)"
        unfolding ev Let_def prod.case
        using kx s1 by (auto intro!: finished_in_add)
    qed
  qed
qed

lemma fold_requests_account:
  assumes "fold_inv H so out cf still rest s" and "accounted x (still, outs, s)"
  shows "returns (foldE (fold_request H so out) rest (still, outs, s)) (accounted x)"
  using assms
proof (induction rest arbitrary: still outs s)
  case (Cons rid rest)
  let ?S = "s\<lparr>running := still @ rid # rest\<rparr>"
  have "core_inv H ?S" "rid \<in> set (running ?S)" using Cons.prems(1) by (simp_all add: fold_inv_def)
  then obtain r where "table ?S rid = Some r" "request_id r = rid" using core_running by metis
  then have id: "request_id (req s rid) = rid" by (simp add: req_def table_def)
  from fold_request_ok [OF Cons.prems(1), of outs] obtain a b c where
    F: "fold_request H so out rid (still, outs, s) = Inr (a, b, c)" "fold_inv H so out cf a rest c" by blast
  have "accounted x (a, b, c)" using returnsD [OF fold_request_accounts [OF id Cons.prems(2)] F(1)] by simp
  from Cons.IH [OF F(2) this] F(1) show ?case by simp
qed simp

lemma knows_shed: "knows x s \<Longrightarrow> returns (shed_request rid s) (knows x)"
  unfolding shed_request_def Let_def free_encoder_inputs_def
  by (rule returns_any, rule returns_if) (auto intro!: returns_any)

lemma knows_store_drafts: "knows x s \<Longrightarrow> knows x (store_drafts out rid s)"
  by (auto simp: store_drafts_def split: option.split)

lemma in_flight_pending:
  assumes fl: "in_flight H so s" and w: "worker_ok so out s"
  shows "fold_inv H so out (conf s) [] (running s) s"
proof -
  have core: "core_inv H s" and sk: "queue_list (skipped_waiting s) = []" using fl by (simp_all add: in_flight_def)
  have "\<forall>rid\<in>set (running s). pending so out s rid"
  proof
    fix rid assume rid: "rid \<in> set (running s)"
    then have A: "case map_of (so_num_scheduled_tokens so) rid of None \<Rightarrow> behind s rid
        | Some n \<Rightarrow> 1 \<le> n \<and> advanced s (so_spec_decode_tokens so) rid" using fl by (simp add: in_flight_def)
    show "pending so out s rid"
    proof (cases "map_of (so_num_scheduled_tokens so) rid")
      case None
      then show ?thesis using A by (simp add: pending_def)
    next
      case (Some n)
      then have "rid \<in> set (map fst (so_num_scheduled_tokens so))" by (auto dest: map_of_SomeD intro: rev_image_eqI)
      moreover obtain r where "table s rid = Some r" "req s rid = r" using core_running [OF core rid] by metis
      ultimately have "answers so out rid (req s rid)" using w by (simp add: worker_ok_def)
      then show ?thesis using A Some by (simp add: pending_def)
    qed
  qed
  then show ?thesis using core sk by (simp add: fold_inv_def)
qed

lemma update_from_output_accounts:
  assumes fl: "in_flight H so s" and w: "worker_ok so out s" and k: "knows x s"
  shows "returns (update_from_output H so out s) (\<lambda>(outs, s'). knows x s' \<or> finished_in outs x)"
  unfolding update_from_output_def
proof (rule returns_bind [OF fold_requests_account [OF in_flight_pending [OF fl w]]])
  show "accounted x ([], [], s)" using k by simp
next
  fix p assume A: "accounted x p"
  obtain still outs s1 where p: "p = (still, outs, s1)" by (cases p)
  have ks: "knows x s1 \<or> finished_in outs x" using A p by simp
  have "knows x s1 \<Longrightarrow> returns (foldE shed_request still s1) (knows x)"
    by (rule returns_foldE) (simp_all add: knows_shed)
  then have shed: "returns (foldE shed_request still s1) (\<lambda>s2. knows x s1 \<longrightarrow> knows x s2)"
    by (cases "knows x s1") (simp_all add: returns_def)
  have store: "knows x t \<Longrightarrow> knows x (fold (store_drafts out) rids t)" for rids t
    by (induction rids arbitrary: t) (simp_all add: knows_store_drafts)
  have "returns (rbind (foldE shed_request still s1) (\<lambda>s2. let s3 = fold (store_drafts out) still s2 in Inr (outs, s3\<lparr>running := still\<rparr>)))
      (\<lambda>(outs, s'). knows x s' \<or> finished_in outs x)"
    by (rule returns_bind [OF shed]) (use ks store in \<open>auto simp: Let_def\<close>)
  then show "returns (case p of (still, outs, s1) \<Rightarrow>
      rbind (foldE shed_request still s1) (\<lambda>s2. let s3 = fold (store_drafts out) still s2 in Inr (outs, s3\<lparr>running := still\<rparr>)))
      (\<lambda>(outs, s'). knows x s' \<or> finished_in outs x)" using p by simp
qed

section \<open>Grammars that failed to compile\<close>

lemma failures_reported:
  "rid \<in> set ids \<or> finished_in outs rid \<Longrightarrow>
   finished_in (fold (\<lambda>rid outs. add_output (client_of s rid) (failure_output rid (failure_reason why s rid)) outs) ids outs) rid"
proof (induction ids arbitrary: outs)
  case (Cons x ids)
  have "rid \<in> set ids \<or> finished_in (add_output (client_of s x) (failure_output x (failure_reason why s x)) outs) rid"
    using Cons.prems finished_in_add [of outs rid "failure_output x (failure_reason why s x)"] by (auto simp: failure_output_def)
  from Cons.IH [OF this] show ?case by simp
qed simp

lemma take_grammar_errors_ready: "ready_inv H s \<Longrightarrow> ready_inv H (snd (take_grammar_compile_errors s))"
  by (erule ready_cong) (simp_all add: take_grammar_compile_errors_def table_def)

lemma finish_grammar_failures_ok:
  assumes inv: "ready_inv H s"
  shows "\<exists>outs s'. finish_grammar_failures why s = Inr (outs, s') \<and> ready_inv H s' \<and> conf s' = conf s \<and> (\<forall>x. knows x s \<longrightarrow> knows x s' \<or> finished_in outs x)"
proof -
  let ?s1 = "snd (take_grammar_compile_errors s)" and ?ids = "sorted_list_of_set (grammar_compile_error_reqs s)"
  have T: "take_grammar_compile_errors s = (grammar_compile_error_reqs s, ?s1)"
    by (simp add: take_grammar_compile_errors_def)
  have R: "ready_inv H ?s1" by (rule take_grammar_errors_ready [OF inv])
  have c: "conf ?s1 = conf s" "knows x ?s1 = knows x s" for x
    by (simp_all add: take_grammar_compile_errors_def)
  show ?thesis
  proof (cases "?ids = []")
    case True
    then have "finish_grammar_failures why s = Inr ([], ?s1)"
      unfolding finish_grammar_failures_def by (subst T) (simp only: Let_def prod.case if_True refl)
    then show ?thesis using R c by auto
  next
    case False
    have e: "status_is_finished FINISHED_ERROR" by (simp add: status_is_finished_iff)
    obtain s2 where F: "finish_requests ?ids FINISHED_ERROR ?s1 = Inr s2" "ready_inv H s2" "conf s2 = conf ?s1"
      "dom (table s2) = dom (table ?s1) - set ?ids" using finish_requests_ok [OF R e, of ?ids] by blast
    have "knows x s2 \<or> x \<in> set ?ids" if "knows x s" for x
      using that F(4) c(2) by (auto simp: knows_table)
    then have "knows x s \<longrightarrow> knows x s2 \<or>
        finished_in (fold (\<lambda>rid outs. add_output (client_of ?s1 rid) (failure_output rid (failure_reason why ?s1 rid)) outs) ?ids []) x" for x
      using failures_reported by blast
    moreover have "finish_grammar_failures why s =
        Inr (fold (\<lambda>rid outs. add_output (client_of ?s1 rid) (failure_output rid (failure_reason why ?s1 rid)) outs) ?ids [], s2)"
      unfolding finish_grammar_failures_def by (subst T) (use False F(1) in \<open>simp only: Let_def prod.case if_False rbind_Inr\<close>)
    ultimately show ?thesis using F(2,3) c(1) by auto
  qed
qed

lemma merge_outputs_keeps:
  "finished_in outs x \<or> (\<exists>c fs out. (c, fs) \<in> set failures \<and> out \<in> set fs \<and> eco_request_id out = x \<and>
     eco_finish_reason out \<noteq> None) \<Longrightarrow> finished_in (merge_outputs failures outs) x"
  unfolding merge_outputs_def
proof (induction failures arbitrary: outs)
  case (Cons cf failures)
  obtain c fs where cf: "cf = (c, fs)" by (cases cf)
  let ?acc = "AList.update c ((case map_of outs c of None \<Rightarrow> [] | Some os \<Rightarrow> os) @ fs) outs"
  have "finished_in outs x \<or> (\<exists>out\<in>set fs. eco_request_id out = x \<and> eco_finish_reason out \<noteq> None) \<or>
      (\<exists>c fs out. (c, fs) \<in> set failures \<and> out \<in> set fs \<and> eco_request_id out = x \<and> eco_finish_reason out \<noteq> None)"
    using Cons.prems cf by auto
  then have "finished_in ?acc x \<or>
      (\<exists>c fs out. (c, fs) \<in> set failures \<and> out \<in> set fs \<and> eco_request_id out = x \<and> eco_finish_reason out \<noteq> None)"
    using finished_in_update [of outs x _ c fs] by blast
  from Cons.IH [OF this] show ?case using cf by simp
qed simp

lemma merge_outputs_finished:
  "finished_in failures x \<or> finished_in outs x \<Longrightarrow> finished_in (merge_outputs failures outs) x"
  by (rule merge_outputs_keeps) (auto simp: finished_in_def dest: map_of_SomeD)

section \<open>A step of the engine\<close>

text \<open>Between steps, for an engine with no KV connector.\<close>

definition engine_ok :: "hash_fn \<Rightarrow> engine_core \<Rightarrow> bool" where
  "engine_ok H e \<longleftrightarrow> ready_inv H (ec_scheduler e) \<and> connector (ec_scheduler e) = None"

lemma stamp_in_flight: "in_flight H so s \<Longrightarrow> in_flight H so (stamp ev t rid s)"
  unfolding stamp_def
proof (cases "map_of (requests s) rid")
  case (Some r)
  assume "in_flight H so s"
  then have "in_flight H so (set_req rid (record_event ev t r) s)"
    by (rule in_flight_set_req [where r = r])
      (use Some in \<open>simp_all add: table_def record_event_def same_request_def num_tokens_def\<close>)
  then show "in_flight H so (case map_of (requests s) rid of None \<Rightarrow> s | Some r \<Rightarrow> set_req rid (record_event ev t r) s)"
    using Some by simp
qed simp

lemma stamp_parts [simp]:
  "conf (stamp ev t rid s) = conf s" "connector (stamp ev t rid s) = connector s"
  "knows x (stamp ev t rid s) \<longleftrightarrow> knows x s"
  by (auto simp: stamp_def knows_table table_def update_conv' split: option.split)

lemma stamps_ok:
  "in_flight H so s \<Longrightarrow> in_flight H so (fold (stamp ev t) ids s) \<and> conf (fold (stamp ev t) ids s) = conf s \<and>
     connector (fold (stamp ev t) ids s) = connector s \<and> (knows x (fold (stamp ev t) ids s) \<longleftrightarrow> knows x s)"
  by (induction ids arbitrary: s) (simp_all add: stamp_in_flight)

lemma worker_ok_cong:
  assumes "worker_ok so out s" and "\<And>x. map_option (\<lambda>r. (use_pooling r, num_tokens r, num_computed_tokens r)) (table s' x) =
      map_option (\<lambda>r. (use_pooling r, num_tokens r, num_computed_tokens r)) (table s x)"
  shows "worker_ok so out s'"
  unfolding worker_ok_def
proof (intro allI impI)
  fix rid r' assume rid: "rid \<in> set (map fst (so_num_scheduled_tokens so))" "table s' rid = Some r'"
  then obtain r where "table s rid = Some r" "use_pooling r = use_pooling r'" "num_tokens r = num_tokens r'"
    "num_computed_tokens r = num_computed_tokens r'"
    using assms(2) [of rid] by (cases "table s rid") auto
  then show "answers so out rid r'" using assms(1) rid(1) by (auto simp: worker_ok_def answers_def)
qed

lemma worker_ok_stamps: "worker_ok so out s \<Longrightarrow> worker_ok so out (fold (stamp ev t) ids s)"
proof (induction ids arbitrary: s)
  case (Cons x ids)
  have "worker_ok so out (stamp ev t x s)"
    by (rule worker_ok_cong [OF Cons.prems])
      (auto simp: stamp_def table_def update_conv' record_event_def num_tokens_def split: option.split)
  then show ?case using Cons.IH by simp
qed simp

lemma plan_step_ok:
  assumes ok: "engine_ok H e"
  shows "plan_step e = Inr None \<and> \<not> has_requests (ec_scheduler e) \<or>
    (\<exists>so e1. plan_step e = Inr (Some (so, e1)) \<and> in_flight H so (ec_scheduler e1) \<and> connector (ec_scheduler e1) = None \<and>
       conf (ec_scheduler e1) = conf (ec_scheduler e) \<and> ec_clock e1 = ec_clock e \<and>
       (\<forall>x. knows x (ec_scheduler e) \<longrightarrow> knows x (ec_scheduler e1)))"
proof (cases "has_requests (ec_scheduler e)")
  case True
  let ?s = "ec_scheduler e"
  have R: "ready_inv H ?s" "connector ?s = None" using ok by (simp_all add: engine_ok_def)
  from schedule_ok [OF R(1)] obtain so s1 where S: "schedule ?s = Inr (so, s1)" "in_flight H so s1" "conf s1 = conf ?s"
    by blast
  have k: "knows x ?s \<Longrightarrow> knows x s1" for x using returnsD [OF knows_schedule S(1)] by simp
  define s2 where "s2 = s1\<lparr>pending_scheduled := []\<rparr>"
  have "in_flight H so s2"
    using S(2) by (simp add: in_flight_def s2_def behind_def advanced_def cong: option.case_cong)
  note st = stamps_ok [OF this]
  have c: "connector s1 = None" using S(2) by (auto simp: in_flight_def dest: core_parts(1))
  show ?thesis
  proof (intro disjI2 exI conjI)
    show "plan_step e = Inr (Some (so, e\<lparr>ec_scheduler := fold (stamp SCHEDULED (ec_clock e)) (pending_scheduled s1) s2\<rparr>))"
      using True S(1) by (simp add: plan_step_def take_newly_scheduled_def s2_def)
  qed (use st S(3) c k in \<open>simp_all add: s2_def\<close>)
qed (simp add: plan_step_def)

lemma finish_step_ok:
  assumes fl: "in_flight H so (ec_scheduler e)" and w: "worker_ok so out (ec_scheduler e)" and c: "connector (ec_scheduler e) = None"
  shows "\<exists>outs e'. finish_step H why so out e = Inr (outs, 0 < so_total_num_scheduled_tokens so, e') \<and> engine_ok H e' \<and>
    conf (ec_scheduler e') = conf (ec_scheduler e) \<and> ec_clock e' = ec_clock e \<and>
    (\<forall>x. knows x (ec_scheduler e) \<longrightarrow> knows x (ec_scheduler e') \<or> finished_in outs x)"
proof -
  from update_from_output_ok [OF fl w] obtain outs s1 where
    U: "update_from_output H so out (ec_scheduler e) = Inr (outs, s1)" "ready_inv H s1" "conf s1 = conf (ec_scheduler e)" by blast
  have k1: "knows x (ec_scheduler e) \<Longrightarrow> knows x s1 \<or> finished_in outs x" for x
    using returnsD [OF update_from_output_accounts [OF fl w] U(1)] by simp
  have c1: "connector s1 = None" using U(2) by (auto simp: ready_inv_def dest: core_parts(1))
  then have sv: "charge_saves (e\<lparr>ec_scheduler := s1\<rparr>) = e\<lparr>ec_scheduler := s1\<rparr>" by (simp add: charge_saves_def)
  from finish_grammar_failures_ok [OF U(2), of why] obtain fs s2 where
    G: "finish_grammar_failures why s1 = Inr (fs, s2)" "ready_inv H s2" "conf s2 = conf s1"
    "\<And>x. knows x s1 \<Longrightarrow> knows x s2 \<or> finished_in fs x" by blast
  have c2: "connector s2 = None" using G(2) by (auto simp: ready_inv_def dest: core_parts(1))
  have k2: "knows x s2 \<or> finished_in (merge_outputs fs outs) x" if "knows x (ec_scheduler e)" for x
    using k1 [OF that] G(4) [of x] merge_outputs_finished [of fs x outs] by blast
  let ?e = "e\<lparr>ec_scheduler := s2, ec_step_index := ec_step_index e + 1\<rparr>"
  have run: "finish_step H why so out e = Inr (merge_outputs fs outs, 0 < so_total_num_scheduled_tokens so, ?e)"
    using U(1) G(1) sv by (simp add: finish_step_def Let_def)
  show ?thesis
    by (intro exI conjI, rule run) (use G(2,3) U(3) c2 k2 in \<open>simp_all add: engine_ok_def\<close>)
qed

text \<open>The executor answers as the model runner does, and time does not go back.\<close>

definition answered :: "(scheduler_output \<Rightarrow> 'w \<Rightarrow> model_runner_output \<times> rat \<times> 'w) \<Rightarrow> 'w \<Rightarrow> engine_core \<Rightarrow> bool" where
  "answered execute w e \<longleftrightarrow>
     (case plan_step e of
        Inr (Some (so, e1)) \<Rightarrow> worker_ok so (fst (execute so w)) (ec_scheduler e1)
      | _ \<Rightarrow> True)"

lemma spend_parts [simp]:
  "ec_scheduler (spend t e) = ec_scheduler e" "ec_clock e \<le> ec_clock (spend t e)"
  by (simp_all add: spend_def)

lemma ec_step_ok:
  assumes ok: "engine_ok H e" and ans: "answered execute w e"
  shows "\<exists>outs busy e' w'. ec_step H why execute (e, w) = Inr (outs, busy, e', w') \<and> engine_ok H e' \<and>
    conf (ec_scheduler e') = conf (ec_scheduler e) \<and> ec_clock e \<le> ec_clock e' \<and>
    (\<forall>x. knows x (ec_scheduler e) \<longrightarrow> knows x (ec_scheduler e') \<or> finished_in outs x)"
proof (cases "has_requests (ec_scheduler e)")
  case False
  then have "ec_step H why execute (e, w) = Inr ([], False, e, w)" by (simp add: ec_step_def plan_step_def)
  then show ?thesis using ok by auto
next
  case True
  then obtain so e1 where P: "plan_step e = Inr (Some (so, e1))" "in_flight H so (ec_scheduler e1)"
    "connector (ec_scheduler e1) = None" "conf (ec_scheduler e1) = conf (ec_scheduler e)" "ec_clock e1 = ec_clock e"
    "\<And>x. knows x (ec_scheduler e) \<Longrightarrow> knows x (ec_scheduler e1)"
    using plan_step_ok [OF ok] by blast
  obtain out secs w' where X: "execute so w = (out, secs, w')" by (cases "execute so w")
  have tr: "transfer_kv so e1 = e1" using P(3) by (simp add: transfer_kv_def)
  have "worker_ok so out (ec_scheduler (spend secs e1))" using ans P(1) X by (simp add: answered_def)
  from finish_step_ok [OF _ this, of H why] P(2,3) obtain outs e' where
    F: "finish_step H why so out (spend secs e1) = Inr (outs, 0 < so_total_num_scheduled_tokens so, e')" "engine_ok H e'"
    "conf (ec_scheduler e') = conf (ec_scheduler e1)" "ec_clock e' = ec_clock (spend secs e1)"
    "\<And>x. knows x (ec_scheduler e1) \<Longrightarrow> knows x (ec_scheduler e') \<or> finished_in outs x" by auto
  have "ec_step H why execute (e, w) = Inr (outs, 0 < so_total_num_scheduled_tokens so, e', w')"
    using P(1) X F(1) tr by (simp add: ec_step_def)
  moreover have "ec_clock e \<le> ec_clock e'" using F(4) P(5) spend_parts(2) [of e1 secs] by simp
  ultimately show ?thesis using F(2,3,5) P(4,6) by auto
qed

lemma ec_abort_requests_ok:
  assumes ok: "engine_ok H e"
  shows "\<exists>e'. ec_abort_requests rids e = Inr e' \<and> engine_ok H e' \<and> conf (ec_scheduler e') = conf (ec_scheduler e) \<and>
    ec_clock e' = ec_clock e \<and> (\<forall>x. knows x (ec_scheduler e) \<longrightarrow> knows x (ec_scheduler e') \<or> x \<in> set rids)"
proof -
  let ?ids = "filter (\<lambda>rid. rid \<in> fst ` set (requests (ec_scheduler e))) rids"
  have "ready_inv H (ec_scheduler e)" "status_is_finished FINISHED_ABORTED"
    using ok by (simp_all add: engine_ok_def status_is_finished_iff)
  from finish_requests_ok [OF this, of ?ids] obtain s where
    F: "finish_requests ?ids FINISHED_ABORTED (ec_scheduler e) = Inr s" "ready_inv H s" "conf s = conf (ec_scheduler e)"
    "dom (table s) = dom (table (ec_scheduler e)) - set ?ids" by blast
  have "connector s = None" using F(2) by (auto simp: ready_inv_def dest: core_parts(1))
  moreover have "knows x s \<or> x \<in> set rids" if "knows x (ec_scheduler e)" for x using that F(4) by (auto simp: knows_table)
  ultimately show ?thesis using F(1-3) by (simp add: ec_abort_requests_def engine_ok_def)
qed

section \<open>Whole runs\<close>

text \<open>
  What a client may ask for: parameters that \<open>SamplingParams\<close> accepts, with a minimum that fits when
  no maximum is given, a request id of its own, and multimodal items within the encoder's limits.
\<close>

definition asks :: "frontend_config \<Rightarrow> engine_core \<Rightarrow> string \<Rightarrow> string + int list \<Rightarrow> api_params option \<Rightarrow>
    mm_feature list \<Rightarrow> bool" where
  "asks cf e rid prompt sp mm \<longleftrightarrow>
     rid \<notin> fst ` set (requests (ec_scheduler e)) \<and>
     (case sp of None \<Rightarrow> True
      | Some p \<Rightarrow> (\<exists>st ids p0. sampling_params_init st ids p0 = Inr p) \<and>
          min_fits cf (case prompt of Inl text \<Rightarrow> fe_encode cf text | Inr ids \<Rightarrow> ids) p) \<and>
     (\<forall>f\<in>set mm. 0 \<le> num_embeds f \<and> num_embeds f \<le> max_num_encoder_input_tokens (conf (ec_scheduler e)) \<and>
        num_embeds f \<le> cache_size (encoder (ec_scheduler e)))"

inductive engine_reaches ::
  "hash_fn \<Rightarrow> frontend_config \<Rightarrow> (string \<Rightarrow> string) \<Rightarrow> (scheduler_output \<Rightarrow> 'w \<Rightarrow> model_runner_output \<times> rat \<times> 'w) \<Rightarrow>
   ('w \<Rightarrow> rat \<times> 'w) \<Rightarrow> engine_core \<times> 'w \<Rightarrow> engine_core \<times> 'w \<Rightarrow> bool"
  for H cf why execute idle ew0 where
  started: "engine_reaches H cf why execute idle ew0 ew0"
| accepted: "engine_reaches H cf why execute idle ew0 (e, w) \<Longrightarrow> asks cf e rid prompt sp mm \<Longrightarrow>
    process_inputs cf rid prompt sp client prio salt lora mm pool = Inr er \<Longrightarrow> ec_add_request H er e = Inr e' \<Longrightarrow>
    engine_reaches H cf why execute idle ew0 (e', w)"
| aborted: "engine_reaches H cf why execute idle ew0 (e, w) \<Longrightarrow> ec_abort_requests rids e = Inr e' \<Longrightarrow>
    engine_reaches H cf why execute idle ew0 (e', w)"
| worked: "engine_reaches H cf why execute idle ew0 (e, w) \<Longrightarrow> answered execute w e \<Longrightarrow>
    ec_step H why execute (e, w) = Inr (outs, busy, e', w') \<Longrightarrow> engine_reaches H cf why execute idle ew0 (e', w')"
| grammar_done: "engine_reaches H cf why execute idle ew0 (e, w) \<Longrightarrow> map_of (requests (ec_scheduler e)) rid = Some r \<Longrightarrow>
    engine_reaches H cf why execute idle ew0
      (e\<lparr>ec_scheduler := set_req rid (r\<lparr>structured_output := g\<rparr>) (ec_scheduler e)\<rparr>, w)"
| idled: "engine_reaches H cf why execute idle ew0 (e, w) \<Longrightarrow> execute_dummy_batch idle (e, w) = (t, e', w') \<Longrightarrow>
    engine_reaches H cf why execute idle ew0 (e', w')"

inductive_cases engine_reaches_cases: "engine_reaches H cf why execute idle ew0 ew"

lemma record_event_ids [simp]: "request_id (record_event ev t r) = request_id r"
  by (simp add: record_event_def)

lemma admissible_event: "admissible s (record_event ev t r) = admissible s r"
  by (simp add: admissible_def record_event_def num_tokens_def features_fit_def budget_ok_def num_output_tokens_def
      cong: option.case_cong)

lemma asks_admissible:
  assumes P: "process_inputs cf rid prompt sp client prio salt lora mm pool = Inr er" and ask: "asks cf e rid prompt sp mm"
    and len: "fe_max_model_len cf = max_model_len (conf (ec_scheduler e))" and R: "from_engine_core_request H er t None = Inr r"
  shows "admissible (ec_scheduler e) r" and "request_id r = rid"
    and "all_token_ids r = (case prompt of Inl text \<Rightarrow> fe_encode cf text | Inr ids \<Rightarrow> ids)" and "output_token_ids r = []"
    and "(sampling_params r = None) = (sp = None)"
proof -
  have sp: "args_ok p \<and> min_fits cf (case prompt of Inl text \<Rightarrow> fe_encode cf text | Inr ids \<Rightarrow> ids) p" if "sp = Some p" for p
    using ask that sampling_params_init_args by (auto simp: asks_def)
  have fresh: "rid \<notin> dom (table (ec_scheduler e))" using ask by (simp add: asks_def table_def dom_map_of_conv_image_fst)
  from admissible_request [OF P R len sp fresh] ask
  show "admissible (ec_scheduler e) r" and "request_id r = rid" by (simp_all add: asks_def)
  obtain toks where er: "toks = (case prompt of Inl text \<Rightarrow> fe_encode cf text | Inr ids \<Rightarrow> ids)"
      "ecr_prompt_token_ids er = Some toks"
    and spq: "case sp of None \<Rightarrow> ecr_sampling_params er = None
      | Some p \<Rightarrow> \<exists>q. validate_prompt_length cf toks p = Inr q \<and>
          ecr_sampling_params er = Some (update_from_tokenizer (fe_eos_token_id cf) q)"
    by (rule process_inputs_prompt [OF P])
  have "(ecr_sampling_params er = None) = (sp = None)" using spq by (auto split: option.splits)
  then show "all_token_ids r = (case prompt of Inl text \<Rightarrow> fe_encode cf text | Inr ids \<Rightarrow> ids)" and "output_token_ids r = []"
    and "(sampling_params r = None) = (sp = None)"
    using R er by (auto simp: from_engine_core_request_def request_init_def Let_def update_block_hashes_def split: if_splits)
qed

lemma ec_add_request_ok:
  assumes ok: "engine_ok H e" and ask: "asks cf e rid prompt sp mm"
    and P: "process_inputs cf rid prompt sp client prio salt lora mm pool = Inr er"
    and len: "fe_max_model_len cf = max_model_len (conf (ec_scheduler e))"
  shows "returns (ec_add_request H er e) (\<lambda>e'. engine_ok H e' \<and> conf (ec_scheduler e') = conf (ec_scheduler e) \<and>
    ec_clock e' = ec_clock e \<and> (\<forall>x. knows x (ec_scheduler e') \<longleftrightarrow> x = rid \<or> knows x (ec_scheduler e)))"
proof (cases "from_engine_core_request H er (ec_clock e) None")
  case (Inr r)
  let ?s = "ec_scheduler e"
  have R: "ready_inv H ?s" using ok by (simp add: engine_ok_def)
  note ad = asks_admissible(1,2) [OF P ask len Inr]
  let ?r = "if ec_log_stats e then record_event QUEUED (ec_clock e) r else r"
  have ad': "admissible ?s ?r" "request_id ?r = rid" using ad by (simp_all add: admissible_event)
  note add = add_request_ok [OF R ad'(1)]
  have c: "connector (sched_add_request H ?r ?s) = None" using add(1) by (auto simp: ready_inv_def dest: core_parts(1))
  have g: "returns (grammar_init er ?r e) (\<lambda>e1. ec_scheduler e1 = ?s \<and> ec_clock e1 = ec_clock e)"
    by (auto simp: grammar_init_def intro!: returns_any)
  show ?thesis
    unfolding ec_add_request_def Inr rbind_Inr Let_def
    by (rule returns_bind [OF g]) (use add c ad'(2) in \<open>auto simp: engine_ok_def knows_table\<close>)
qed (simp add: ec_add_request_def)

lemma engine_reaches_ok:
  assumes "engine_reaches H cf why execute idle ew0 ew" and "engine_ok H (fst ew0)"
    and "fe_max_model_len cf = max_model_len (conf (ec_scheduler (fst ew0)))"
  shows "engine_ok H (fst ew) \<and> conf (ec_scheduler (fst ew)) = conf (ec_scheduler (fst ew0)) \<and> ec_clock (fst ew0) \<le> ec_clock (fst ew)"
  using assms
proof (induction rule: engine_reaches.induct)
  case (accepted e w rid prompt sp mm client prio salt lora pool er e')
  then have "fe_max_model_len cf = max_model_len (conf (ec_scheduler e))" "engine_ok H e" by simp_all
  from returnsD [OF ec_add_request_ok [OF this(2) accepted.hyps(2,3) this(1)] accepted.hyps(4)] accepted show ?case by simp
next
  case (aborted e w rids e')
  then have "engine_ok H e" by simp
  from ec_abort_requests_ok [OF this, of rids] aborted show ?case by auto
next
  case (worked e w outs busy e' w')
  then have "engine_ok H e" by simp
  from ec_step_ok [OF this worked.hyps(2), of why] worked show ?case by auto
next
  case (grammar_done e w rid r g)
  have "ready_inv H (set_req rid (r\<lparr>structured_output := g\<rparr>) (ec_scheduler e))"
    by (rule ready_set_req [where r = r])
      (use grammar_done in \<open>simp_all add: engine_ok_def table_def same_request_def num_tokens_def\<close>)
  then show ?case using grammar_done by (simp add: engine_ok_def)
next
  case (idled e w t e' w')
  obtain secs v where I: "idle w = (secs, v)" by (cases "idle w")
  then have e': "e' = record_dummy_step secs (spend secs e)" using idled.hyps(2) by (auto simp: execute_dummy_batch_def)
  have R: "ready_inv H (ec_scheduler e)" using idled by (simp add: engine_ok_def)
  have "ready_inv H (ec_scheduler e')"
    by (rule ready_cong [OF R]) (simp_all add: e' record_dummy_step_def table_def)
  moreover have "ec_clock (fst ew0) \<le> ec_clock e'"
    using idled order_trans [OF _ spend_parts(2) [of e secs]] by (simp add: e' record_dummy_step_def)
  ultimately show ?case using idled by (simp add: engine_ok_def e' record_dummy_step_def)
qed simp

lemma engine_started:
  assumes "scheduler_init H sc kvc caching seed n None = Inr s0" and "sane_setup sc kvc" and "ec_scheduler e0 = s0"
  shows "engine_ok H e0" and "conf (ec_scheduler e0) = sc"
proof -
  have "connector s0 = None" using run_ready(1) [OF assms(1,2) reaches.fresh] by (auto simp: ready_inv_def dest: core_parts(1))
  then show "engine_ok H e0" and "conf (ec_scheduler e0) = sc"
    using run_ready [OF assms(1,2) reaches.fresh] assms(3) by (simp_all add: engine_ok_def)
qed

end
