(* ===== verification/RegexLang.thy ===== *)
theory RegexLang
  imports RegexGen "HOL-Library.Sublist"
begin

text \<open>
  What the regular-expression generator guarantees. \<open>alt\<close> is the syntax of the patterns it
  claims to support, \<open>show_alt\<close> their text, \<open>lang_alt\<close> the language each denotes, defined with no
  reference to the generator. A character is one of the first 256 code points; the classes are read
  as the standard library reads them in a \<open>str\<close> pattern, by Unicode category.
\<close>

section \<open>Patterns and their languages\<close>

datatype item = Single char | Span char char | Escaped char

datatype leaf = Plain char | Dot | Esc char | Class bool "item list"

datatype quant = Once | Opt | Star | Plus | Times nat | Between nat nat | AtLeast nat

datatype rx = Leaf leaf | Grp bool alt
  and alt = One seq | Or seq alt
  and seq = Empty | Then rx quant seq

primrec show_item :: "item \<Rightarrow> string" where
  "show_item (Single c) = [c]"
| "show_item (Span a b) = [a, CHR ''-'', b]"
| "show_item (Escaped e) = [backslash, e]"

primrec show_leaf :: "leaf \<Rightarrow> string" where
  "show_leaf (Plain c) = [c]"
| "show_leaf Dot = ''.''"
| "show_leaf (Esc e) = [backslash, e]"
| "show_leaf (Class neg is) = ''['' @ (if neg then ''^'' else []) @ concat (map show_item is) @ '']''"

primrec show_quant :: "quant \<Rightarrow> string" where
  "show_quant Once = []"
| "show_quant Opt = ''?''"
| "show_quant Star = ''*''"
| "show_quant Plus = ''+''"
| "show_quant (Times n) = ''{'' @ show_nat n @ ''}''"
| "show_quant (Between m n) = ''{'' @ show_nat m @ '','' @ show_nat n @ ''}''"
| "show_quant (AtLeast n) = ''{'' @ show_nat n @ '',}''"

primrec show_rx :: "rx \<Rightarrow> string" and show_alt :: "alt \<Rightarrow> string" and show_seq :: "seq \<Rightarrow> string" where
  "show_rx (Leaf l) = show_leaf l"
| "show_rx (Grp named a) = ''('' @ (if named then [] else ''?:'') @ show_alt a @ '')''"
| "show_alt (One s) = show_seq s"
| "show_alt (Or s a) = show_seq s @ ''|'' @ show_alt a"
| "show_seq Empty = []"
| "show_seq (Then r q s) = show_rx r @ show_quant q @ show_seq s"

definition space_chars :: "char set" where
  "space_chars = {c. is_space c}"

text \<open>The other code points below 256 that \<open>str.isalnum\<close> accepts: letters, superscripts, fractions.\<close>

definition other_alnum :: "char set" where
  "other_alnum = {c. let n = of_char c :: nat in n \<in> {170, 178, 179, 181, 185, 186, 188, 189, 190} \<or>
     192 \<le> n \<and> n \<noteq> 215 \<and> n \<noteq> 247}"

definition lang_escape :: "char \<Rightarrow> char set" where
  "lang_escape e =
     (let d = set digit_chars; w = set (ascii_letters @ digit_chars @ ''_'') \<union> other_alnum
      in if e = CHR ''d'' then d else if e = CHR ''D'' then - d
         else if e = CHR ''w'' then w else if e = CHR ''W'' then - w
         else if e = CHR ''s'' then space_chars else if e = CHR ''S'' then - space_chars
         else {e})"

primrec lang_item :: "item \<Rightarrow> char set" where
  "lang_item (Single c) = {c}"
| "lang_item (Span a b) = {a..b}"
| "lang_item (Escaped e) = lang_escape e"

primrec lang_leaf :: "leaf \<Rightarrow> char set" where
  "lang_leaf (Plain c) = {c}"
| "lang_leaf Dot = - {CHR 0x0A}"
| "lang_leaf (Esc e) = lang_escape e"
| "lang_leaf (Class neg is) = (let m = (\<Union>i\<in>set is. lang_item i) in if neg then - m else m)"

primrec counts :: "quant \<Rightarrow> nat set" where
  "counts Once = {1}"
| "counts Opt = {0, 1}"
| "counts Star = UNIV"
| "counts Plus = {1..}"
| "counts (Times n) = {n}"
| "counts (Between m n) = {m..n}"
| "counts (AtLeast n) = {n..}"

definition repeated :: "string set \<Rightarrow> nat set \<Rightarrow> string set" where
  "repeated L K = {concat ws | ws. set ws \<subseteq> L \<and> length ws \<in> K}"

primrec lang_rx :: "rx \<Rightarrow> string set" and lang_alt :: "alt \<Rightarrow> string set" and lang_seq :: "seq \<Rightarrow> string set" where
  "lang_rx (Leaf l) = (\<lambda>c. [c]) ` lang_leaf l"
| "lang_rx (Grp named a) = lang_alt a"
| "lang_alt (One s) = lang_seq s"
| "lang_alt (Or s a) = lang_seq s \<union> lang_alt a"
| "lang_seq Empty = {[]}"
| "lang_seq (Then r q s) = {u @ v | u v. u \<in> repeated (lang_rx r) (counts q) \<and> v \<in> lang_seq s}"

text \<open>Patterns that are printed without ambiguity: no bare special characters, no empty classes.\<close>

definition special :: "char set" where
  "special = set ''.^$*+?{}[]|()-'' \<union> {backslash}"

definition escape_ok :: "char \<Rightarrow> bool" where
  "escape_ok e \<longleftrightarrow> e \<in> set ''dwsDWS'' \<or> e \<notin> set (ascii_letters @ digit_chars)"

primrec item_ok :: "item \<Rightarrow> bool" where
  "item_ok (Single c) \<longleftrightarrow> c \<notin> special"
| "item_ok (Span a b) \<longleftrightarrow> a \<notin> special \<and> b \<notin> special \<and> a \<le> b"
| "item_ok (Escaped e) \<longleftrightarrow> escape_ok e"

primrec leaf_ok :: "leaf \<Rightarrow> bool" where
  "leaf_ok (Plain c) \<longleftrightarrow> c \<notin> special"
| "leaf_ok Dot \<longleftrightarrow> True"
| "leaf_ok (Esc e) \<longleftrightarrow> escape_ok e"
| "leaf_ok (Class neg is) \<longleftrightarrow> (\<forall>i\<in>set is. item_ok i) \<and>
     (if neg then \<not> set (ascii_letters @ digit_chars) \<subseteq> (\<Union>i\<in>set is. lang_item i) else is \<noteq> [])"

primrec quant_ok :: "quant \<Rightarrow> bool" where
  "quant_ok Once = True" | "quant_ok Opt = True" | "quant_ok Star = True" | "quant_ok Plus = True"
| "quant_ok (Times n) = True" | "quant_ok (Between m n) = (m \<le> n)" | "quant_ok (AtLeast n) = True"

primrec rx_ok :: "rx \<Rightarrow> bool" and alt_ok :: "alt \<Rightarrow> bool" and seq_ok :: "seq \<Rightarrow> bool" where
  "rx_ok (Leaf l) = leaf_ok l"
| "rx_ok (Grp named a) = alt_ok a"
| "alt_ok (One s) = seq_ok s"
| "alt_ok (Or s a) = (seq_ok s \<and> alt_ok a)"
| "seq_ok Empty = True"
| "seq_ok (Then r q s) = (rx_ok r \<and> quant_ok q \<and> seq_ok s)"

primrec nest_rx :: "rx \<Rightarrow> nat" and nest :: "alt \<Rightarrow> nat" and nest_seq :: "seq \<Rightarrow> nat" where
  "nest_rx (Leaf l) = 0"
| "nest_rx (Grp named a) = Suc (nest a)"
| "nest (One s) = nest_seq s"
| "nest (Or s a) = max (nest_seq s) (nest a)"
| "nest_seq Empty = 0"
| "nest_seq (Then r q s) = max (nest_rx r) (nest_seq s)"

section \<open>Numbers\<close>

lemma digit_char:
  assumes "n < 10"
  shows "digit_value (digit_chars ! n) = Some (int n)" and "\<not> is_space (digit_chars ! n)"
    and "digit_chars ! n \<notin> special" and "digit_chars ! n \<noteq> CHR '',''"
proof -
  have n: "n \<in> set [0..<10]" using assms by simp
  have "list_all (\<lambda>n. digit_value (digit_chars ! n) = Some (int n) \<and> \<not> is_space (digit_chars ! n) \<and>
      digit_chars ! n \<notin> special \<and> digit_chars ! n \<noteq> CHR '','') [0..<10]" by code_simp
  then show "digit_value (digit_chars ! n) = Some (int n)" "\<not> is_space (digit_chars ! n)"
    "digit_chars ! n \<notin> special" "digit_chars ! n \<noteq> CHR '',''"
    using n unfolding list_all_iff by blast+
qed

lemma show_nat_chars: "c \<in> set (show_nat n) \<Longrightarrow> \<exists>d<10. c = digit_chars ! d"
proof (induction n rule: show_nat.induct)
  case (1 n)
  show ?case
  proof (cases "n < 10")
    case True
    then show ?thesis using 1(2) by (subst (asm) show_nat.simps) auto
  next
    case False
    then have "c \<in> set (show_nat (n div 10)) \<or> c = digit_chars ! (n mod 10)"
      using 1(2) by (subst (asm) show_nat.simps) auto
    then show ?thesis using 1(1) [OF False] by (metis mod_less_divisor zero_less_numeral)
  qed
qed

lemma digits_value_show:
  "\<exists>k. \<forall>acc b cs. digits_value (show_nat n @ cs) acc b = digits_value cs (k * acc + int n) True"
proof (induction n rule: show_nat.induct)
  case (1 n)
  show ?case
  proof (cases "n < 10")
    case True
    then have "digits_value (show_nat n @ cs) acc b = digits_value cs (10 * acc + int n) True" for acc b cs
      by (subst show_nat.simps) (simp add: digit_char(1))
    then show ?thesis by blast
  next
    case False
    with 1 obtain k where k: "digits_value (show_nat (n div 10) @ cs) acc b = digits_value cs (k * acc + int (n div 10)) True"
      for acc b cs by blast
    have lt: "n mod 10 < 10" by simp
    have "digits_value (show_nat n @ cs) acc b = digits_value cs (10 * k * acc + int n) True" for acc b cs
    proof -
      have "digits_value (show_nat n @ cs) acc b = digits_value cs (10 * (k * acc + int (n div 10)) + int (n mod 10)) True"
        using False by (subst show_nat.simps) (simp add: k digit_char(1) [OF lt])
      also have "10 * (k * acc + int (n div 10)) + int (n mod 10) = 10 * k * acc + int n"
        by (simp add: algebra_simps zdiv_int zmod_int)
      finally show ?thesis .
    qed
    then show ?thesis by blast
  qed
qed

lemma int_of_text_show: "int_of_text (show_nat n) = Inr (int n)"
proof -
  have sp: "\<not> is_space c" "c \<noteq> CHR ''-''" "c \<noteq> CHR ''+''" if c: "c \<in> set (show_nat n)" for c
    using show_nat_chars [OF c] digit_char(2,3) by (auto simp: special_def)
  have nosp: "dropWhile is_space xs = xs" if "\<forall>c\<in>set xs. \<not> is_space c" for xs
    using that by (cases xs) auto
  have "strip (show_nat n) = show_nat n"
    unfolding strip_def using sp(1) by (simp add: nosp)
  moreover obtain k where k: "digits_value (show_nat n @ []) 0 False = digits_value [] (k * 0 + int n) True"
    using digits_value_show by blast
  moreover obtain c cs where cs: "show_nat n = c # cs" using show_nat_nonempty [of n] by (cases "show_nat n") auto
  moreover have "c \<noteq> CHR ''-''" "c \<noteq> CHR ''+''" using sp(2,3) cs by auto
  ultimately show ?thesis by (simp add: int_of_text_def Let_def)
qed

section \<open>Drawing\<close>

lemma draw_ok: "libs_ok W \<Longrightarrow> low < high \<Longrightarrow> \<exists>k g'. draw W low high g = Inr (k, g') \<and> low \<le> k \<and> k < high"
  by (auto simp: draw_def libs_ok_def intro!: exI [of _ "fst (integers W low high g)"] exI [of _ "snd (integers W low high g)"])

lemma pick_ok: "libs_ok W \<Longrightarrow> xs \<noteq> [] \<Longrightarrow> \<exists>x g'. pick W xs g = Inr (x, g') \<and> x \<in> set xs"
  using draw_ok [of W 0 "int (length xs)" g] by (fastforce simp: pick_def intro: nth_mem)

definition yields :: "(('g \<Rightarrow> (string \<times> 'g) result)) \<Rightarrow> string set \<Rightarrow> bool" where
  "yields f L \<longleftrightarrow> (\<forall>g. \<exists>t g'. f g = Inr (t, g') \<and> t \<in> L)"

lemma repeatE_ok:
  assumes "yields f L"
  shows "\<exists>ts g'. repeatE k f g = Inr (ts, g') \<and> set ts \<subseteq> L \<and> length ts = k"
proof (induction k arbitrary: g)
  case (Suc k)
  from assms obtain t g1 where "f g = Inr (t, g1)" "t \<in> L" unfolding yields_def by blast
  moreover from Suc obtain ts g2 where "repeatE k f g1 = Inr (ts, g2)" "set ts \<subseteq> L" "length ts = k" by blast
  ultimately show ?case by simp
qed simp

lemma some_times_ok:
  assumes W: "libs_ok W" and f: "yields f L" and "low < high" and K: "\<And>k. low \<le> k \<Longrightarrow> k < high \<Longrightarrow> nat (shift + k) \<in> K"
  shows "\<exists>t g'. some_times W f shift low high g = Inr (t, g') \<and> t \<in> repeated L K"
proof -
  from draw_ok [OF W assms(3)] obtain k g1 where D: "draw W low high g = Inr (k, g1)" "low \<le> k" "k < high" by blast
  from repeatE_ok [OF f, of "nat (shift + k)" g1] obtain ts g2 where
    "repeatE (nat (shift + k)) f g1 = Inr (ts, g2)" "set ts \<subseteq> L" "length ts = nat (shift + k)" by blast
  moreover from this K [OF D(2,3)] have "concat ts \<in> repeated L K" unfolding repeated_def by auto
  ultimately show ?thesis using D by (simp add: some_times_def)
qed

section \<open>Classes\<close>

lemma char_range_set: "set (char_range a b) = {a..b}"
proof -
  have "c \<in> set (char_range a b) \<longleftrightarrow> a \<le> c \<and> c \<le> b" for c
  proof
    assume "c \<in> set (char_range a b)"
    then obtain n where n: "c = char_of n" "of_char a \<le> n" "n \<le> (of_char b :: nat)"
      by (auto simp: char_range_def)
    moreover have "n < 256" using n(3) nat_of_char_less_256 [of b] by (simp add: le_less_trans)
    ultimately have "of_char c = n" by simp
    then show "a \<le> c \<and> c \<le> b" using n by (simp add: less_eq_char_def)
  next
    assume "a \<le> c \<and> c \<le> b"
    then have "of_char c \<in> {of_char a..<Suc (of_char b)}" by (simp add: less_eq_char_def)
    then have "char_of (of_char c :: nat) \<in> char_of ` {of_char a..<Suc (of_char b)}" by (rule imageI)
    then have "char_of (of_char c :: nat) \<in> set (char_range a b)" unfolding char_range_def set_map set_upt .
    then show "c \<in> set (char_range a b)" by simp
  qed
  then show ?thesis by (intro set_eqI) simp
qed

text \<open>What the generator draws from for one item.\<close>

primrec item_members :: "item \<Rightarrow> string" where
  "item_members (Single c) = [c]"
| "item_members (Span a b) = char_range a b"
| "item_members (Escaped e) = (case escape_classes e of Some xs \<Rightarrow> xs | None \<Rightarrow> [e])"

lemma in_lang_escape:
  "c \<in> lang_escape e \<longleftrightarrow>
     (let d = c \<in> set digit_chars; n = of_char c :: nat;
          w = c \<in> set (ascii_letters @ digit_chars @ ''_'') \<or> n \<in> {170, 178, 179, 181, 185, 186, 188, 189, 190} \<or>
            192 \<le> n \<and> n \<noteq> 215 \<and> n \<noteq> 247
      in if e = CHR ''d'' then d else if e = CHR ''D'' then \<not> d
         else if e = CHR ''w'' then w else if e = CHR ''W'' then \<not> w
         else if e = CHR ''s'' then is_space c else if e = CHR ''S'' then \<not> is_space c
         else c = e)"
  by (simp add: lang_escape_def other_alnum_def space_chars_def Let_def)

definition alnum :: "char set" where
  "alnum = set (ascii_letters @ digit_chars)"

lemma escape_members:
  assumes "escape_ok e"
  shows "set (item_members (Escaped e)) \<subseteq> lang_escape e" and "lang_escape e \<inter> alnum \<subseteq> set (item_members (Escaped e))"
    and "item_members (Escaped e) \<noteq> []"
proof -
  have "set (item_members (Escaped e)) \<subseteq> lang_escape e \<and> lang_escape e \<inter> alnum \<subseteq> set (item_members (Escaped e)) \<and>
     item_members (Escaped e) \<noteq> []"
  proof (cases "e \<in> set ''dwsDWS''")
    case True
    have "list_all (\<lambda>e. list_all (\<lambda>c. c \<in> lang_escape e) (item_members (Escaped e)) \<and>
        list_all (\<lambda>c. c \<in> lang_escape e \<longrightarrow> c \<in> set (item_members (Escaped e))) (ascii_letters @ digit_chars) \<and>
        item_members (Escaped e) \<noteq> []) ''dwsDWS''"
      unfolding in_lang_escape by code_simp
    then show ?thesis using True unfolding list_all_iff alnum_def by blast
  next
    case False
    then have "escape_classes e = None" "lang_escape e = {e}" by (auto simp: escape_classes_def lang_escape_def)
    then show ?thesis by simp
  qed
  then show "set (item_members (Escaped e)) \<subseteq> lang_escape e" "lang_escape e \<inter> alnum \<subseteq> set (item_members (Escaped e))"
    "item_members (Escaped e) \<noteq> []" by simp_all
qed

lemma class_members_plain:
  assumes "c \<noteq> CHR '']''" "c \<noteq> backslash" "cs \<noteq> []" "hd cs \<noteq> CHR ''-''"
  shows "class_members (c # cs) = rbind (class_members cs) (\<lambda>(ms, rest). Inr (c # ms, rest))"
  using assms by (cases cs; cases "tl cs") auto

lemma special_simps [simp]:
  "c \<notin> special \<longleftrightarrow> c \<notin> set ''.^$*+?{}[]|()-'' \<and> c \<noteq> backslash"
  by (auto simp: special_def)

lemma show_item_head: "item_ok i \<Longrightarrow> show_item i \<noteq> [] \<and> hd (show_item i) \<noteq> CHR ''-'' \<and> hd (show_item i) \<noteq> CHR ''^''"
  by (cases i) (auto simp: backslash_def)

lemma class_members_show:
  assumes "\<forall>i\<in>set is. item_ok i"
  shows "class_members (concat (map show_item is) @ CHR '']'' # rest) = Inr (concat (map item_members is), rest)"
  using assms
proof (induction "is")
  case (Cons i "is")
  let ?t = "concat (map show_item is) @ CHR '']'' # rest"
  have IH: "class_members ?t = Inr (concat (map item_members is), rest)" using Cons by simp
  have t: "?t \<noteq> []" "hd ?t \<noteq> CHR ''-''"
    using Cons.prems show_item_head by (cases "is"; fastforce)+
  have "item_ok i" using Cons.prems by simp
  then show ?case
  proof (cases i)
    case (Single c)
    then have "class_members (c # ?t) = rbind (class_members ?t) (\<lambda>(ms, rest). Inr (c # ms, rest))"
      using \<open>item_ok i\<close> t by (intro class_members_plain) auto
    then show ?thesis using Single IH by simp
  qed (use \<open>item_ok i\<close> IH in \<open>auto simp: backslash_def\<close>)
qed simp

lemma members_lang:
  assumes "item_ok i"
  shows "set (item_members i) \<subseteq> lang_item i" and "lang_item i \<inter> alnum \<subseteq> set (item_members i)" and "item_members i \<noteq> []"
proof -
  have "set (item_members i) \<subseteq> lang_item i \<and> lang_item i \<inter> alnum \<subseteq> set (item_members i) \<and> item_members i \<noteq> []"
  proof (cases i)
    case (Span a b)
    then have "item_members i \<noteq> []" using assms char_range_set [of a b] by auto
    then show ?thesis using Span char_range_set [of a b] by simp
  next
    case (Escaped e)
    then show ?thesis using assms escape_members [of e] by simp
  qed simp
  then show "set (item_members i) \<subseteq> lang_item i" "lang_item i \<inter> alnum \<subseteq> set (item_members i)" "item_members i \<noteq> []" by simp_all
qed

lemma char_class_show:
  assumes ok: "leaf_ok (Class neg is)"
  shows "\<exists>ms. char_class ((if neg then ''^'' else []) @ concat (map show_item is) @ CHR '']'' # rest) = Inr (ms, rest) \<and>
    ms \<noteq> [] \<and> set ms \<subseteq> lang_leaf (Class neg is)"
proof (cases neg)
  case True
  let ?m = "concat (map item_members is)" and ?t = "concat (map show_item is) @ CHR '']'' # rest"
  let ?ms = "filter (\<lambda>x. x \<notin> set ?m) (ascii_letters @ digit_chars)"
  have items: "\<forall>i\<in>set is. item_ok i" and notall: "\<not> alnum \<subseteq> (\<Union>i\<in>set is. lang_item i)"
    using ok True by (simp_all add: alnum_def)
  have sub: "set ?m \<subseteq> (\<Union>i\<in>set is. lang_item i)" using members_lang(1) items by fastforce
  have "x \<notin> lang_item i" if "x \<in> set ?ms" "i \<in> set is" for x i
    using that members_lang(2) [of i] items by (auto simp: alnum_def)
  then have "set ?ms \<subseteq> lang_leaf (Class neg is)" using True by auto
  moreover have "?ms \<noteq> []" using notall sub unfolding alnum_def filter_empty_conv by blast
  ultimately show ?thesis using True class_members_show [OF items, of rest] by (simp add: char_class_def Let_def)
next
  case False
  let ?m = "concat (map item_members is)" and ?t = "concat (map show_item is) @ CHR '']'' # rest"
  have items: "\<forall>i\<in>set is. item_ok i" and ne: "is \<noteq> []" using ok False by simp_all
  then obtain i is' where i: "is = i # is'" "item_ok i" by (cases "is") auto
  then have m: "?m \<noteq> []" using members_lang(3) by simp
  have sub: "set ?m \<subseteq> (\<Union>i\<in>set is. lang_item i)" using members_lang(1) items by fastforce
  have "?t \<noteq> []" "hd ?t \<noteq> CHR ''^''" using show_item_head [OF i(2)] i(1) by simp_all
  then obtain c cs where t: "?t = c # cs" "c \<noteq> CHR ''^''" by (cases ?t) auto
  have "char_class ?t = Inr (?m, rest)"
    using class_members_show [OF items, of rest] t m by (simp add: char_class_def)
  then show ?thesis using False m sub by simp
qed

section \<open>Atoms\<close>

definition starts_with :: "string \<Rightarrow> string \<Rightarrow> bool" where
  "starts_with rest cs \<longleftrightarrow> (\<exists>c rest'. rest = c # rest' \<and> c \<in> set cs)"

lemma starts_with_simps [simp]:
  "\<not> starts_with [] cs" "starts_with (c # rest) cs \<longleftrightarrow> c \<in> set cs"
  by (auto simp: starts_with_def)

lemma show_leaf_head: "leaf_ok l \<Longrightarrow> \<exists>c cs. show_leaf l = c # cs \<and> c \<notin> set ''?*+{|)$^''"
  by (cases l) (auto simp: backslash_def)

lemma show_rx_head: "rx_ok r \<Longrightarrow> \<exists>c cs. show_rx r = c # cs \<and> c \<notin> set ''?*+{|)$^''"
  by (cases r) (auto dest: show_leaf_head)

lemma show_seq_head: "seq_ok s \<Longrightarrow> \<not> starts_with rest ''?*+{^'' \<Longrightarrow> \<not> starts_with (show_seq s @ rest) ''?*+{^''"
  by (cases s) (auto dest!: show_rx_head)

lemma show_alt_head: "alt_ok a \<Longrightarrow> \<not> starts_with rest ''?*+{^'' \<Longrightarrow> \<not> starts_with (show_alt a @ rest) ''?*+{^''"
  using show_seq_head by (cases a) (simp_all del: starts_with_simps, simp)

lemma take1: "take 1 xs = [c] \<longleftrightarrow> (\<exists>ys. xs = c # ys)"
  by (cases xs) auto

definition parses :: "'g parse \<Rightarrow> nat \<Rightarrow> bool" where
  "parses p d \<longleftrightarrow> (\<forall>a rest g. alt_ok a \<longrightarrow> nest a < d \<longrightarrow> rest = [] \<or> starts_with rest '')$'' \<longrightarrow>
     (\<exists>t g'. p (show_alt a @ rest) g = Inr (t, rest, g') \<and> t \<in> lang_alt a))"

lemma parsesD:
  assumes "parses p d" "alt_ok a" "nest a < d" "rest = [] \<or> starts_with rest '')$''"
  shows "\<exists>t g'. p (show_alt a @ rest) g = Inr (t, rest, g') \<and> t \<in> lang_alt a"
  using assms unfolding parses_def by blast

lemma full_with_show:
  assumes p: "parses p d" and a: "alt_ok a" "nest a < d"
  shows "\<exists>t g'. full_with p (show_alt a) g = Inr (t, g') \<and> t \<in> lang_alt a"
    and "\<exists>t g'. full_with p (''^'' @ show_alt a @ ''$'') g = Inr (t, g') \<and> t \<in> lang_alt a"
proof -
  have "\<not> starts_with (show_alt a) ''?*+{^''" using show_alt_head [OF a(1), of "[]"] by simp
  then have "take 1 (show_alt a) \<noteq> ''^''" unfolding take1 by auto
  moreover obtain t g' where "p (show_alt a @ []) g = Inr (t, [], g')" "t \<in> lang_alt a"
    using parsesD [OF p a, of "[]" g] by auto
  ultimately show "\<exists>t g'. full_with p (show_alt a) g = Inr (t, g') \<and> t \<in> lang_alt a"
    by (simp add: full_with_def)
  obtain t g' where "p (show_alt a @ ''$'') g = Inr (t, ''$'', g')" "t \<in> lang_alt a"
    using parsesD [OF p a, of "''$''" g] by auto
  then show "\<exists>t g'. full_with p (''^'' @ show_alt a @ ''$'') g = Inr (t, g') \<and> t \<in> lang_alt a"
    by (simp add: full_with_def)
qed

lemma words_facts: "list_all (\<lambda>w. w \<noteq> [] \<and> hd w \<noteq> CHR 0x0A) words" "words \<noteq> []"
  by code_simp+

lemma leaf_atom:
  assumes W: "libs_ok W" and ok: "leaf_ok l"
  shows "\<exists>a. atom_with p (show_leaf l @ rest) g = Inr (a, rest, g) \<and> yields (run_atom f W a) ((\<lambda>c. [c]) ` lang_leaf l)"
proof (cases l)
  case (Plain c)
  then show ?thesis using ok by (simp add: atom_with_def yields_def run_atom_def)
next
  case Dot
  have "\<exists>t g'. run_atom f W AnyChar g = Inr (t, g') \<and> t \<in> (\<lambda>c. [c]) ` lang_leaf l" for g
    using pick_ok [OF W words_facts(2), of g] words_facts(1) Dot by (fastforce simp: run_atom_def list_all_iff)
  then show ?thesis using Dot by (simp add: atom_with_def yields_def backslash_def)
next
  case (Esc e)
  have m: "set (item_members (Escaped e)) \<subseteq> lang_leaf l" "item_members (Escaped e) \<noteq> []"
    using escape_members [of e] ok Esc by simp_all
  show ?thesis
  proof (cases "escape_classes e")
    case None
    then show ?thesis using Esc m by (simp add: atom_with_def yields_def run_atom_def backslash_def)
  next
    case (Some ms)
    have "\<exists>t g'. run_atom f W (Members ms) g = Inr (t, g') \<and> t \<in> (\<lambda>c. [c]) ` lang_leaf l" for g
      using pick_ok [OF W, of ms g] m Some by (fastforce simp: run_atom_def)
    then show ?thesis using Esc Some by (simp add: atom_with_def yields_def backslash_def)
  qed
next
  case (Class neg "is")
  with char_class_show [of neg "is" rest] ok obtain ms where
    M: "char_class ((if neg then ''^'' else []) @ concat (map show_item is) @ CHR '']'' # rest) = Inr (ms, rest)"
    "ms \<noteq> []" "set ms \<subseteq> lang_leaf l" by auto
  have "\<exists>t g'. run_atom f W (Members ms) g = Inr (t, g') \<and> t \<in> (\<lambda>c. [c]) ` lang_leaf l" for g
    using pick_ok [OF W M(2), of g] M(3) by (fastforce simp: run_atom_def)
  then show ?thesis using Class M(1) by (auto simp: atom_with_def yields_def)
qed

lemma group_atom:
  assumes p: "parses p d" and ok: "alt_ok a" "nest a < d"
  shows "\<exists>atm g'. atom_with p (show_rx (Grp named a) @ rest) g = Inr (atm, rest, g') \<and>
    yields (run_atom (full_with p) W atm) (lang_alt a)"
proof -
  let ?tail = "CHR '')'' # rest"
  obtain t g' where P: "p (show_alt a @ ?tail) g = Inr (t, ?tail, g')" "t \<in> lang_alt a"
    using parsesD [OF p ok, of ?tail g] by auto
  have inner: "take (length (show_alt a @ ?tail) - length ?tail) (show_alt a @ ?tail) = show_alt a" by simp
  have h: "\<not> starts_with (show_alt a @ ?tail) ''?*+{^''" using show_alt_head [OF ok(1), of ?tail] by simp
  then have nq: "take 1 (show_alt a @ ?tail) \<noteq> ''?''" "take 2 (show_alt a @ ?tail) \<noteq> ''?:''"
    by (cases "show_alt a @ ?tail"; simp)+
  have "atom_with p (show_rx (Grp named a) @ rest) g = Inr (Group (show_alt a) t, rest, g')"
  proof (cases named)
    case True
    then show ?thesis using P(1) inner nq by (simp add: atom_with_def)
  next
    case False
    then show ?thesis using P(1) inner by (simp add: atom_with_def)
  qed
  moreover have "yields (run_atom (full_with p) W (Group (show_alt a) t)) (lang_alt a)"
    using full_with_show(1) [OF p ok] P(2) by (auto simp: yields_def run_atom_def)
  ultimately show ?thesis by blast
qed

lemma rx_atom:
  assumes "libs_ok W" and "parses p d" and "rx_ok r" and "nest_rx r \<le> d"
  shows "\<exists>atm g'. atom_with p (show_rx r @ rest) g = Inr (atm, rest, g') \<and> yields (run_atom (full_with p) W atm) (lang_rx r)"
proof (cases r)
  case (Leaf l)
  then obtain atm where "atom_with p (show_leaf l @ rest) g = Inr (atm, rest, g)"
    "yields (run_atom (full_with p) W atm) ((\<lambda>c. [c]) ` lang_leaf l)"
    using leaf_atom [OF assms(1)] assms(3) by fastforce
  then show ?thesis using Leaf by auto
next
  case (Grp named a)
  then show ?thesis using group_atom [OF assms(2), of a named rest g W] assms(3,4) by auto
qed

section \<open>Quantifiers, sequences, alternatives\<close>

lemma maybe_lazy_id: "\<not> starts_with rest ''?*+{'' \<Longrightarrow> maybe_lazy rest = rest"
  by (cases rest) (auto simp: maybe_lazy_def)

lemma show_nat_stop: "\<forall>c\<in>set (show_nat n). c \<noteq> CHR ''}'' \<and> c \<noteq> CHR '',''"
proof
  fix c assume "c \<in> set (show_nat n)"
  then obtain d where "d < 10" "c = digit_chars ! d" using show_nat_chars by blast
  then show "c \<noteq> CHR ''}'' \<and> c \<noteq> CHR '',''" using digit_char(3,4) [of d] by auto
qed

lemma takeWhile_stop: "\<forall>c\<in>set xs. c \<noteq> x \<Longrightarrow> takeWhile (\<lambda>c. c \<noteq> x) (xs @ x # ys) = xs \<and> dropWhile (\<lambda>c. c \<noteq> x) (xs @ x # ys) = x # ys"
  by (induction xs) auto

lemma repeat_bounds_times: "repeat_bounds (show_quant (Times n) @ rest) = Inr (int n, int n, rest)"
  using show_nat_stop [of n] takeWhile_stop [of "show_nat n" "CHR ''}''" rest]
  by (auto simp: repeat_bounds_def int_of_text_show Let_def)

lemma repeat_bounds_range:
  assumes "\<forall>c\<in>set hi. c \<noteq> CHR ''}''"
  shows "repeat_bounds (''{'' @ show_nat m @ '','' @ hi @ ''}'' @ rest) =
    rbind (if hi = [] then Inr (int m + star_max) else int_of_text hi) (\<lambda>high.
      if high < int m then Inl ValueError else Inr (int m, high, rest))"
proof -
  have "takeWhile (\<lambda>c. c \<noteq> CHR ''}'') ((show_nat m @ CHR '','' # hi) @ CHR ''}'' # rest) = show_nat m @ CHR '','' # hi \<and>
      dropWhile (\<lambda>c. c \<noteq> CHR ''}'') ((show_nat m @ CHR '','' # hi) @ CHR ''}'' # rest) = CHR ''}'' # rest"
    using show_nat_stop [of m] assms by (intro takeWhile_stop) auto
  moreover have "takeWhile (\<lambda>c. c \<noteq> CHR '','') (show_nat m @ CHR '','' # hi) = show_nat m \<and>
      dropWhile (\<lambda>c. c \<noteq> CHR '','') (show_nat m @ CHR '','' # hi) = CHR '','' # hi"
    using show_nat_stop [of m] by (intro takeWhile_stop) auto
  ultimately show ?thesis
    by (simp add: repeat_bounds_def Let_def int_of_text_show show_nat_nonempty)
qed

lemma repeat_bounds_between:
  "m \<le> n \<Longrightarrow> repeat_bounds (show_quant (Between m n) @ rest) = Inr (int m, int n, rest)"
  "repeat_bounds (show_quant (AtLeast m) @ rest) = Inr (int m, int m + star_max, rest)"
  using repeat_bounds_range [of "show_nat n" m rest] repeat_bounds_range [of "[]" m rest] show_nat_stop [of n]
  by (auto simp: int_of_text_show show_nat_nonempty star_max_def)

lemma repeated_one: "t \<in> L \<Longrightarrow> 1 \<in> K \<Longrightarrow> t \<in> repeated L K"
  unfolding repeated_def by (intro CollectI exI [of _ "[t]"]) simp

lemma repeated_none: "0 \<in> K \<Longrightarrow> [] \<in> repeated L K"
  unfolding repeated_def by (intro CollectI exI [of _ "[]"]) simp

lemma quantified_show:
  assumes W: "libs_ok W" and p: "parses p d" and r: "rx_ok r" "nest_rx r \<le> d" and q: "quant_ok q"
    and rest: "\<not> starts_with rest ''?*+{''"
  shows "\<exists>t g'. quantified_with W p (show_rx r @ show_quant q @ rest) g = Inr (t, rest, g') \<and>
    t \<in> repeated (lang_rx r) (counts q)"
proof -
  from rx_atom [OF W p r, of "show_quant q @ rest" g] obtain atm g1 where
    A: "atom_with p (show_rx r @ show_quant q @ rest) g = Inr (atm, show_quant q @ rest, g1)"
    "yields (run_atom (full_with p) W atm) (lang_rx r)" by blast
  note lz = maybe_lazy_id [OF rest] and st = some_times_ok [OF W A(2)]
  have one: "\<exists>t g2. run_atom (full_with p) W atm g = Inr (t, g2) \<and> t \<in> lang_rx r" for g
    using A(2) unfolding yields_def by blast
  show ?thesis
  proof (cases q)
    case Once
    have "take 1 rest \<noteq> ''?'' \<and> take 1 rest \<noteq> ''*'' \<and> take 1 rest \<noteq> ''+'' \<and> take 1 rest \<noteq> ''{''"
      using rest by (cases rest) auto
    then show ?thesis using one [of g1] A(1) Once repeated_one [of _ "lang_rx r" "{1}"]
      by (auto simp: quantified_with_def Let_def)
  next
    case Opt
    from draw_ok [OF W, of 0 2 g1] obtain k g2 where D: "draw W 0 2 g1 = Inr (k, g2)" by auto
    from one [of g2] obtain t g3 where "run_atom (full_with p) W atm g2 = Inr (t, g3)" "t \<in> lang_rx r" by blast
    then show ?thesis using D A(1) Opt lz repeated_one [of t "lang_rx r" "{0, 1}"] repeated_none [of "{0, 1}" "lang_rx r"]
      by (cases "k = 0") (auto simp: quantified_with_def Let_def)
  next
    case Star
    obtain t g2 where "some_times W (run_atom (full_with p) W atm) 0 0 (star_max + 1) g1 = Inr (t, g2)"
      "t \<in> repeated (lang_rx r) UNIV" using st [of 0 "star_max + 1" 0 UNIV g1] by (auto simp: star_max_def)
    then show ?thesis using A(1) Star lz by (simp add: quantified_with_def Let_def)
  next
    case Plus
    have "nat (1 + k) \<in> {1..}" if "0 \<le> k" for k :: int using that by (simp add: le_nat_iff)
    then obtain t g2 where "some_times W (run_atom (full_with p) W atm) 1 0 star_max g1 = Inr (t, g2)"
      "t \<in> repeated (lang_rx r) {1..}" using st [of 0 star_max 1 "{1..}" g1] by (auto simp: star_max_def)
    then show ?thesis using A(1) Plus lz by (simp add: quantified_with_def Let_def)
  next
    case (Times n)
    obtain t g2 where "some_times W (run_atom (full_with p) W atm) 0 (int n) (int n + 1) g1 = Inr (t, g2)"
      "t \<in> repeated (lang_rx r) {n}" using st [of "int n" "int n + 1" 0 "{n}" g1] by auto
    then show ?thesis using A(1) Times repeat_bounds_times [of n rest] by (simp add: quantified_with_def Let_def)
  next
    case (Between m n)
    have "nat (0 + k) \<in> {m..n}" if "int m \<le> k" "k < int n + 1" for k using that by auto
    then obtain t g2 where "some_times W (run_atom (full_with p) W atm) 0 (int m) (int n + 1) g1 = Inr (t, g2)"
      "t \<in> repeated (lang_rx r) {m..n}" using st [of "int m" "int n + 1" 0 "{m..n}" g1] q Between by auto
    then show ?thesis using A(1) Between repeat_bounds_between(1) [of m n rest] q by (simp add: quantified_with_def Let_def)
  next
    case (AtLeast m)
    have "nat (0 + k) \<in> {m..}" if "int m \<le> k" for k using that by auto
    then obtain t g2 where "some_times W (run_atom (full_with p) W atm) 0 (int m) (int m + star_max + 1) g1 = Inr (t, g2)"
      "t \<in> repeated (lang_rx r) {m..}" using st [of "int m" "int m + star_max + 1" 0 "{m..}" g1] by (auto simp: star_max_def)
    then show ?thesis using A(1) AtLeast repeat_bounds_between(2) [of m rest] by (simp add: quantified_with_def Let_def)
  qed
qed

lemma sequence_show:
  assumes W: "libs_ok W" and p: "parses p d"
  shows "seq_ok s \<Longrightarrow> nest_seq s \<le> d \<Longrightarrow> rest = [] \<or> starts_with rest ''|)$'' \<Longrightarrow>
    \<exists>t g'. sequence (quantified_with W p) (show_seq s @ rest) g = Inr (t, rest, g') \<and> t \<in> lang_seq s"
proof (induction s arbitrary: g rule: seq.induct [where ?P1.0 = "\<lambda>_. True" and ?P2.0 = "\<lambda>_. True"])
  case Empty
  then show ?case by (subst sequence.simps) (auto simp: starts_with_def)
next
  case (Then r q s)
  let ?q = "quantified_with W p" and ?rest = "show_seq s @ rest"
  have ok: "rx_ok r" "nest_rx r \<le> d" "quant_ok q" "seq_ok s" "nest_seq s \<le> d" using Then.prems by simp_all
  have "\<not> starts_with rest ''?*+{^''" using Then.prems(3) by (auto simp: starts_with_def)
  from show_seq_head [OF ok(4) this] have "\<not> starts_with ?rest ''?*+{''" by (auto simp: starts_with_def)
  from quantified_show [OF W p ok(1-3) this, of g] obtain t g1 where
    Q: "?q (show_rx r @ show_quant q @ ?rest) g = Inr (t, ?rest, g1)" "t \<in> repeated (lang_rx r) (counts q)" by blast
  from Then.IH [OF ok(4,5) Then.prems(3), of g1] obtain u g2 where
    S: "sequence ?q ?rest g1 = Inr (u, rest, g2)" "u \<in> lang_seq s" by blast
  obtain c cs where h: "show_rx r = c # cs" "c \<notin> set ''?*+{|)$^''" using show_rx_head [OF ok(1)] by blast
  have "sequence ?q (show_seq (Then r q s) @ rest) g = Inr (t @ u, rest, g2)"
    using Q(1) S(1) h by (subst sequence.simps) simp
  then show ?case using Q(2) S(2) by auto
qed simp_all

lemma branches_show:
  assumes W: "libs_ok W" and p: "parses p d" and stop: "rest = [] \<or> starts_with rest '')$''"
  shows "alt_ok a \<Longrightarrow> nest a \<le> d \<Longrightarrow>
    \<exists>bs g'. branches (sequence (quantified_with W p)) (show_alt a @ rest) g = Inr (bs, rest, g') \<and>
      bs \<noteq> [] \<and> set bs \<subseteq> lang_alt a"
proof (induction a arbitrary: g rule: alt.induct [where ?P1.0 = "\<lambda>_. True" and ?P3.0 = "\<lambda>_. True"])
  case (One s)
  have "rest = [] \<or> starts_with rest ''|)$''" using stop by (auto simp: starts_with_def)
  from sequence_show [OF W p _ _ this, of s g] One obtain t g1 where
    S: "sequence (quantified_with W p) (show_seq s @ rest) g = Inr (t, rest, g1)" "t \<in> lang_seq s" by auto
  moreover have "take 1 rest \<noteq> ''|''" using stop by (auto simp: starts_with_def)
  ultimately show ?case by (subst branches.simps) auto
next
  case (Or s a)
  let ?tail = "''|'' @ show_alt a @ rest"
  have ok: "seq_ok s" "nest_seq s \<le> d" "alt_ok a" "nest a \<le> d" using Or.prems by simp_all
  have "?tail = [] \<or> starts_with ?tail ''|)$''" by simp
  from sequence_show [OF W p ok(1,2) this, of g] obtain t g1 where
    S: "sequence (quantified_with W p) (show_seq s @ ?tail) g = Inr (t, ?tail, g1)" "t \<in> lang_seq s" by blast
  from Or.IH [OF ok(3,4), of g1] obtain bs g2 where
    B: "branches (sequence (quantified_with W p)) (show_alt a @ rest) g1 = Inr (bs, rest, g2)" "bs \<noteq> []"
      "set bs \<subseteq> lang_alt a" by blast
  have "branches (sequence (quantified_with W p)) (show_alt (Or s a) @ rest) g = Inr (t # bs, rest, g2)"
    using S(1) B(1) by (subst branches.simps) simp
  then show ?case using S(2) B(3) by auto
qed simp_all

lemma alternation_parses: "libs_ok W \<Longrightarrow> parses (alternation d W) d"
proof (induction d)
  case 0
  then show ?case by (simp add: parses_def)
next
  case (Suc d)
  show ?case unfolding parses_def
  proof (intro allI impI)
    fix a rest g assume a: "alt_ok a" "nest a < Suc d" and stop: "rest = [] \<or> starts_with rest '')$''"
    then have le: "nest a \<le> d" by simp
    from branches_show [OF Suc.prems Suc.IH [OF Suc.prems] stop a(1) le, of g] obtain bs g1 where
      B: "branches (sequence (quantified_with W (alternation d W))) (show_alt a @ rest) g = Inr (bs, rest, g1)"
        "bs \<noteq> []" "set bs \<subseteq> lang_alt a" by blast
    from pick_ok [OF Suc.prems B(2), of g1] obtain b g2 where "pick W bs g1 = Inr (b, g2)" "b \<in> set bs" by blast
    then show "\<exists>t g'. alternation (Suc d) W (show_alt a @ rest) g = Inr (t, rest, g') \<and> t \<in> lang_alt a"
      using B(1,3) by auto
  qed
qed

text \<open>The whole entry point: it returns, and what it returns is in the language of the pattern.\<close>

lemma generate_regex_ok:
  assumes W: "libs_ok W" and a: "alt_ok a" "nest a < group_limit W" and pat: "pattern = show_alt a \<or> pattern = ''^'' @ show_alt a @ ''$''"
    and re: "re_compiles W pattern" "\<And>t. t \<in> lang_alt a \<Longrightarrow> re_fullmatch W pattern t"
    and sup: "\<forall>m\<in>set unsupported_regex. \<not> has_infix m pattern"
  shows "\<exists>t g'. generate_regex_match W pattern g = Inr (t, g') \<and> t \<in> lang_alt a"
proof -
  from full_with_show [OF alternation_parses [OF W] a] pat obtain t g' where
    "full_with (alternation (group_limit W) W) pattern g = Inr (t, g')" "t \<in> lang_alt a" by blast
  then show ?thesis using re sup by (auto simp: generate_regex_match_def)
qed

section \<open>Every pattern: the recursion is bounded by the groups\<close>

definition opens :: "string \<Rightarrow> nat" where
  "opens s = count_list s (CHR ''('')"

lemma opens_suffix: "suffix r s \<Longrightarrow> opens r \<le> opens s"
  by (auto simp: suffix_def opens_def)

text \<open>No \<open>RecursionError\<close>, and what is left of the pattern is a suffix of it.\<close>

definition bounded :: "'a result \<Rightarrow> ('a \<Rightarrow> bool) \<Rightarrow> bool" where
  "bounded m Q \<longleftrightarrow> (case m of Inl e \<Rightarrow> e \<noteq> RecursionError | Inr x \<Rightarrow> Q x)"

lemma bounded_simps [simp]: "bounded (Inl e) Q \<longleftrightarrow> e \<noteq> RecursionError" "bounded (Inr x) Q \<longleftrightarrow> Q x"
  by (simp_all add: bounded_def)

lemma bounded_bind: "bounded m P \<Longrightarrow> (\<And>x. P x \<Longrightarrow> bounded (f x) Q) \<Longrightarrow> bounded (rbind m f) Q"
  by (cases m) simp_all

lemma bounded_if: "(c \<Longrightarrow> bounded a Q) \<Longrightarrow> (\<not> c \<Longrightarrow> bounded b Q) \<Longrightarrow> bounded (if c then a else b) Q"
  by simp

lemma bounded_mono: "bounded m P \<Longrightarrow> (\<And>x. P x \<Longrightarrow> Q x) \<Longrightarrow> bounded m Q"
  by (cases m) simp_all

definition consumes :: "'g parse \<Rightarrow> nat \<Rightarrow> bool" where
  "consumes p k \<longleftrightarrow> (\<forall>rest g. opens rest < k \<longrightarrow> bounded (p rest g) (\<lambda>(t, r, g'). suffix r rest))"

lemma draw_bounded: "bounded (draw W low high g) (\<lambda>_. True)"
  by (simp add: draw_def)

lemma pick_bounded: "bounded (pick W xs g) (\<lambda>_. True)"
  unfolding pick_def by (rule bounded_bind [OF draw_bounded]) auto

lemma repeatE_bounded: "(\<And>g. bounded (f g) (\<lambda>_. True)) \<Longrightarrow> bounded (repeatE k f g) (\<lambda>_. True)"
proof (induction k arbitrary: g)
  case (Suc k)
  show ?case unfolding repeatE.simps
    by (rule bounded_bind [OF Suc.prems], clarsimp, rule bounded_bind [OF Suc.IH [OF Suc.prems]]) auto
qed simp

lemma some_times_bounded: "(\<And>g. bounded (f g) (\<lambda>_. True)) \<Longrightarrow> bounded (some_times W f shift low high g) (\<lambda>_. True)"
  unfolding some_times_def
  by (rule bounded_bind [OF draw_bounded], clarsimp, rule bounded_bind [OF repeatE_bounded]) auto

lemma int_of_text_bounded: "bounded (int_of_text s) (\<lambda>_. True)"
  by (simp add: int_of_text_def Let_def split: option.split)

lemma class_members_bounded: "bounded (class_members cs) (\<lambda>(ms, r). suffix r cs)"
proof (induction cs rule: class_members.induct)
  case (2 c cs)
  have short: "bounded (rbind (class_members cs) (\<lambda>(ms, rest). Inr (c # ms, rest))) (\<lambda>(ms, r). suffix r (c # cs))"
    if "bounded (class_members cs) (\<lambda>(ms, r). suffix r cs)"
    by (rule bounded_bind [OF that]) (auto intro: suffix_ConsI)
  consider "c = CHR '']''" | "c = backslash" "cs = []" | e cs' where "c = backslash" "cs = e # cs'"
    | d h cs' where "c \<noteq> CHR '']''" "c \<noteq> backslash" "cs = d # h # cs'" "d = CHR ''-''" "h \<noteq> CHR '']''"
    | "c \<noteq> CHR '']''" "c \<noteq> backslash" "\<not> (\<exists>d h cs'. cs = d # h # cs' \<and> d = CHR ''-'' \<and> h \<noteq> CHR '']'')"
    by (metis list.exhaust)
  then show ?case
  proof cases
    case 3
    then have "bounded (class_members cs') (\<lambda>(ms, r). suffix r cs')" using 2(1) by (simp add: backslash_def)
    then show ?thesis using 3 by (auto simp: backslash_def intro!: bounded_bind [where P = "\<lambda>(ms, r). suffix r cs'"] suffix_ConsI)
  next
    case 4
    then have "bounded (class_members cs') (\<lambda>(ms, r). suffix r cs')" using 2(4) by blast
    then show ?thesis using 4 by (auto intro!: bounded_bind [where P = "\<lambda>(ms, r). suffix r cs'"] suffix_ConsI)
  next
    case 5
    consider "cs = []" | d where "cs = [d]" | d h cs' where "cs = d # h # cs'" by (metis list.exhaust)
    then have "bounded (class_members cs) (\<lambda>(ms, r). suffix r cs)"
    proof cases
      case 3
      then have "\<not> (d = CHR ''-'' \<and> h \<noteq> CHR '']'')" using 5(3) by blast
      then show ?thesis using 2(5) [OF 5(1,2) 3] by blast
    qed (use 2(2,3) 5(1,2) in \<open>simp_all\<close>)
    moreover have "class_members (c # cs) = rbind (class_members cs) (\<lambda>(ms, rest). Inr (c # ms, rest))"
      using 5 by (cases cs; cases "tl cs") auto
    ultimately show ?thesis using short by simp
  qed (auto simp: backslash_def intro: suffix_ConsI)
qed simp

lemma char_class_bounded: "bounded (char_class cs) (\<lambda>(ms, r). suffix r cs)"
proof (cases cs)
  case (Cons c cs')
  show ?thesis unfolding char_class_def Cons list.case Let_def
    by (rule bounded_bind [OF class_members_bounded])
      (auto split: if_splits intro: suffix_ConsI)
qed (simp add: char_class_def)

lemma suffix_drop_1: "suffix (drop n xs) xs"
  by (rule suffix_drop)

lemma suffix_tl_dropWhile: "suffix (tl (dropWhile P xs)) xs"
  by (meson suffix_dropWhile suffix_order.trans suffix_tl)

lemma suffix_maybe_lazy: "suffix (maybe_lazy r) r"
  by (cases r) (auto simp: maybe_lazy_def intro: suffix_ConsI)

lemma repeat_bounds_bounded: "bounded (repeat_bounds cs) (\<lambda>(low, high, r). suffix r cs)"
proof (cases "CHR ''}'' \<in> set cs")
  case True
  have opt: "bounded (if t = [] then Inr d else int_of_text t) (\<lambda>_. True)" for t d
    using int_of_text_bounded by simp
  show ?thesis
    unfolding repeat_bounds_def Let_def using True suffix_tl_dropWhile
    by (auto intro!: bounded_bind [OF int_of_text_bounded] bounded_bind [OF opt])
qed (simp add: repeat_bounds_def)

text \<open>The text a group's closure works on has fewer groups than the pattern.\<close>

definition shallow :: "nat \<Rightarrow> atom \<Rightarrow> bool" where
  "shallow k a \<longleftrightarrow> (case a of Group inner text \<Rightarrow> opens inner < k | _ \<Rightarrow> True)"

lemma atom_bounded:
  assumes p: "consumes p k" and few: "opens rest < Suc k"
  shows "bounded (atom_with p rest g) (\<lambda>(a, r, g'). rest \<noteq> [] \<and> suffix r (tl rest) \<and> shallow k a)"
proof (cases rest)
  case (Cons c cs)
  consider "c = CHR ''(''" | "c = CHR ''[''" | "c \<noteq> CHR ''(''" "c \<noteq> CHR ''[''" by blast
  then show ?thesis
  proof cases
    case 1
    define start where "start = (if take 2 cs = ''?:'' then drop 2 cs else cs)"
    have start: "suffix start cs" by (simp add: start_def suffix_drop)
    have lt: "opens start < k" using opens_suffix [OF start] few 1 Cons by (simp add: opens_def)
    have "bounded (p start g) (\<lambda>(t, r, g'). suffix r start)" using p lt unfolding consumes_def by blast
    then have "bounded (rbind (p start g) (\<lambda>(text, rest1, g1).
        if take 1 rest1 = '')''
        then Inr (Group (take (length start - length rest1) start) text, drop 1 rest1, g1)
        else Inl ValueError)) (\<lambda>(a, r, g'). suffix r cs \<and> shallow k a)"
    proof (rule bounded_bind, clarify)
      fix t r g' assume r: "suffix r start"
      have "suffix (drop 1 r) cs" by (meson r start suffix_drop suffix_order.trans)
      moreover have "opens (take (length start - length r) start) \<le> opens start"
        unfolding opens_def by (metis append_take_drop_id count_list_append le_add1)
      ultimately show "bounded (if take 1 r = '')'' then Inr (Group (take (length start - length r) start) t, drop 1 r, g')
          else Inl ValueError) (\<lambda>(a, r, g'). suffix r cs \<and> shallow k a)"
        using lt by (simp add: shallow_def)
    qed
    then show ?thesis using 1 Cons unfolding atom_with_def start_def [symmetric]
      by (simp add: Let_def start_def [symmetric])
  next
    case 2
    have "bounded (rbind (char_class cs) (\<lambda>(ms, rest1). Inr (Members ms, rest1, g))) (\<lambda>(a, r, g'). suffix r cs \<and> shallow k a)"
      by (rule bounded_bind [OF char_class_bounded]) (auto simp: shallow_def)
    then show ?thesis using 2 Cons by (simp add: atom_with_def)
  next
    case 3
    then show ?thesis using Cons
      by (auto simp: atom_with_def shallow_def backslash_def intro: suffix_ConsI split: list.split option.split)
  qed
qed (simp add: atom_with_def)

lemma full_bounded:
  assumes p: "consumes p k" and few: "opens pattern < k"
  shows "bounded (full_with p pattern g) (\<lambda>_. True)"
proof -
  have "opens (if take 1 pattern = ''^'' then drop 1 pattern else pattern) < k"
    using few opens_suffix [OF suffix_drop, of 1 pattern] by simp
  then have "bounded (p (if take 1 pattern = ''^'' then drop 1 pattern else pattern) g) (\<lambda>_. True)"
    using p unfolding consumes_def by (blast intro: bounded_mono)
  then show ?thesis unfolding full_with_def by (rule bounded_bind) (auto simp: Let_def)
qed

lemma run_atom_bounded:
  assumes "consumes p k" and "shallow k a"
  shows "bounded (run_atom (full_with p) W a g) (\<lambda>_. True)"
proof (cases a)
  case (Group i t)
  then show ?thesis using full_bounded [OF assms(1)] assms(2) by (simp add: run_atom_def shallow_def)
qed (auto simp: run_atom_def intro!: bounded_bind [OF pick_bounded])

lemma quantified_bounded:
  assumes p: "consumes p k" and few: "opens rest < Suc k"
  shows "bounded (quantified_with W p rest g) (\<lambda>(t, r, g'). rest \<noteq> [] \<and> suffix r (tl rest))"
  unfolding quantified_with_def
proof (rule bounded_bind [OF atom_bounded [OF p few]], clarify)
  fix a r g' assume ne: "rest \<noteq> []" and r: "suffix r (tl rest)" and a: "shallow k a"
  let ?once = "run_atom (full_with p) W a"
  note once = run_atom_bounded [OF p a, of W] and times = some_times_bounded [of ?once W, OF run_atom_bounded [OF p a]]
  have lz: "suffix (maybe_lazy (drop 1 r)) (tl rest)"
    by (meson r suffix_drop suffix_maybe_lazy suffix_order.trans)
  have ml: "bounded (rbind (some_times W ?once sh low high g1) (\<lambda>(text, g2). Inr (text, maybe_lazy (drop 1 r), g2)))
      (\<lambda>(t, r, g'). rest \<noteq> [] \<and> suffix r (tl rest))" for sh low high g1
    by (rule bounded_bind [OF times]) (use ne lz in auto)
  have rp: "bounded (rbind (repeat_bounds r) (\<lambda>(low, high, rest2).
      rbind (some_times W ?once 0 low (high + 1) g1) (\<lambda>(text, g2). Inr (text, rest2, g2))))
      (\<lambda>(t, r, g'). rest \<noteq> [] \<and> suffix r (tl rest))" for g1
  proof (rule bounded_bind [OF repeat_bounds_bounded], clarify)
    fix low high :: int and r2 assume "suffix r2 r"
    then have "suffix r2 (tl rest)" using r by (rule suffix_order.trans)
    then show "bounded (rbind (some_times W ?once 0 low (high + 1) g1) (\<lambda>(text, g2). Inr (text, r2, g2)))
        (\<lambda>(t, r, g'). rest \<noteq> [] \<and> suffix r (tl rest))"
      by (intro bounded_bind [OF times]) (use ne in auto)
  qed
  have on: "bounded (rbind (?once g1) (\<lambda>(text, g2). Inr (text, r, g2))) (\<lambda>(t, r, g'). rest \<noteq> [] \<and> suffix r (tl rest))" for g1
    by (rule bounded_bind [OF once]) (use ne r in auto)
  have opt: "bounded (rbind (draw W 0 2 g1) (\<lambda>(k, g2).
      if k \<noteq> 0 then rbind (?once g2) (\<lambda>(text, g3). Inr (text, maybe_lazy (drop 1 r), g3))
      else Inr ([], maybe_lazy (drop 1 r), g2))) (\<lambda>(t, r, g'). rest \<noteq> [] \<and> suffix r (tl rest))" for g1
  proof (rule bounded_bind [OF draw_bounded], clarify)
    fix k :: int and g2
    have "bounded (rbind (?once g2) (\<lambda>(text, g3). Inr (text, maybe_lazy (drop 1 r), g3)))
        (\<lambda>(t, r, g'). rest \<noteq> [] \<and> suffix r (tl rest))"
      by (rule bounded_bind [OF once]) (use ne lz in auto)
    then show "bounded (if k \<noteq> 0 then rbind (?once g2) (\<lambda>(text, g3). Inr (text, maybe_lazy (drop 1 r), g3))
        else Inr ([], maybe_lazy (drop 1 r), g2)) (\<lambda>(t, r, g'). rest \<noteq> [] \<and> suffix r (tl rest))"
      using ne lz by simp
  qed
  show "bounded (let once = ?once; c = take 1 r
       in if c = ''?'' then
            rbind (draw W 0 2 g') (\<lambda>(k, g2).
            if k \<noteq> 0 then rbind (once g2) (\<lambda>(text, g3). Inr (text, maybe_lazy (drop 1 r), g3))
            else Inr ([], maybe_lazy (drop 1 r), g2))
          else if c = ''*'' then
            rbind (some_times W once 0 0 (star_max + 1) g') (\<lambda>(text, g2). Inr (text, maybe_lazy (drop 1 r), g2))
          else if c = ''+'' then
            rbind (some_times W once 1 0 star_max g') (\<lambda>(text, g2). Inr (text, maybe_lazy (drop 1 r), g2))
          else if c = ''{'' then
            rbind (repeat_bounds r) (\<lambda>(low, high, rest2).
            rbind (some_times W once 0 low (high + 1) g') (\<lambda>(text, g2). Inr (text, rest2, g2)))
          else rbind (once g') (\<lambda>(text, g2). Inr (text, r, g2)))
      (\<lambda>(t, r, g'). rest \<noteq> [] \<and> suffix r (tl rest))"
    unfolding Let_def by (rule opt ml rp on bounded_if | assumption)+
qed

lemma suffix_tl_shorter: "xs \<noteq> [] \<Longrightarrow> suffix r (tl xs) \<Longrightarrow> length r < length xs \<and> suffix r xs"
  by (cases xs) (auto simp: suffix_def)

lemma sequence_bounded:
  assumes p: "consumes p k"
  shows "consumes (sequence (quantified_with W p)) (Suc k)"
proof -
  let ?q = "quantified_with W p"
  have "opens rest < Suc k \<Longrightarrow> bounded (sequence ?q rest g) (\<lambda>(t, r, g'). suffix r rest)" for rest g
  proof (induction "length rest" arbitrary: rest g rule: less_induct)
    case less
    show ?case
    proof (cases "rest = [] \<or> hd rest \<in> {CHR ''|'', CHR '')'', CHR ''$''}")
      case True
      then show ?thesis by (subst sequence.simps) auto
    next
      case False
      have "bounded (rbind (?q rest g) (\<lambda>(part, rest1, g1).
          if length rest1 < length rest then
            rbind (sequence ?q rest1 g1) (\<lambda>(parts, rest2, g2). Inr (part @ parts, rest2, g2))
          else Inl RecursionError)) (\<lambda>(t, r, g'). suffix r rest)"
      proof (rule bounded_bind [OF quantified_bounded [OF p less.prems]], clarify)
        fix part rest1 g1 assume "rest \<noteq> []" "suffix rest1 (tl rest)"
        note S = suffix_tl_shorter [OF this]
        then have "opens rest1 < Suc k" using opens_suffix [of rest1 rest] less.prems by simp
        from less.hyps [OF _ this, of g1] S
        have IH: "bounded (sequence ?q rest1 g1) (\<lambda>(t, r, g'). suffix r rest1)" by blast
        have "bounded (rbind (sequence ?q rest1 g1) (\<lambda>(parts, rest2, g2). Inr (part @ parts, rest2, g2)))
            (\<lambda>(t, r, g'). suffix r rest)"
          by (rule bounded_bind [OF IH]) (use S in \<open>auto intro: suffix_order.trans\<close>)
        then show "bounded (if length rest1 < length rest
            then rbind (sequence ?q rest1 g1) (\<lambda>(parts, rest2, g2). Inr (part @ parts, rest2, g2))
            else Inl RecursionError) (\<lambda>(t, r, g'). suffix r rest)" using S by simp
      qed
      then show ?thesis using False by (subst sequence.simps) simp
    qed
  qed
  then show ?thesis by (simp add: consumes_def)
qed

lemma branches_bounded:
  assumes s: "consumes s k"
  shows "opens rest < k \<Longrightarrow> bounded (branches s rest g) (\<lambda>(bs, r, g'). suffix r rest)"
proof (induction "length rest" arbitrary: rest g rule: less_induct)
  case less
  have seq: "bounded (s rest g) (\<lambda>(t, r, g'). suffix r rest)" using s less.prems unfolding consumes_def by blast
  have "bounded (rbind (s rest g) (\<lambda>(b, rest1, g1).
     if take 1 rest1 = ''|'' then
       (if length (drop 1 rest1) < length rest
        then rbind (branches s (drop 1 rest1) g1) (\<lambda>(bs, rest2, g2). Inr (b # bs, rest2, g2))
        else Inl RecursionError)
     else Inr ([b], rest1, g1))) (\<lambda>(bs, r, g'). suffix r rest)"
  proof (rule bounded_bind [OF seq], clarify)
    fix b r g1 assume r: "suffix r rest"
    show "bounded (if take 1 r = ''|'' then
         (if length (drop 1 r) < length rest
          then rbind (branches s (drop 1 r) g1) (\<lambda>(bs, rest2, g2). Inr (b # bs, rest2, g2))
          else Inl RecursionError)
       else Inr ([b], r, g1)) (\<lambda>(bs, r, g'). suffix r rest)"
    proof (cases "take 1 r = ''|''")
      case True
      then have len: "length (drop 1 r) < length rest" using suffix_length_le [OF r] by (cases r) auto
      have sub: "suffix (drop 1 r) rest" by (meson r suffix_drop suffix_order.trans)
      then have "opens (drop 1 r) < k" using opens_suffix [of "drop 1 r" rest] less.prems by simp
      from less.hyps [OF len this, of g1]
      have "bounded (rbind (branches s (drop 1 r) g1) (\<lambda>(bs, rest2, g2). Inr (b # bs, rest2, g2)))
          (\<lambda>(bs, r, g'). suffix r rest)"
        by (rule bounded_bind) (use sub in \<open>auto intro: suffix_order.trans\<close>)
      then show ?thesis using True len by simp
    qed (use r in simp)
  qed
  then show ?case by (subst branches.simps) simp
qed

lemma alternation_bounded: "consumes (alternation d W) d"
proof (induction d)
  case (Suc d)
  note B = branches_bounded [OF sequence_bounded [OF Suc.IH]]
  show ?case unfolding consumes_def alternation.simps
  proof (intro allI impI)
    fix rest g assume "opens rest < Suc d"
    show "bounded (rbind (branches (sequence (quantified_with W (alternation d W))) rest g)
        (\<lambda>(bs, rest', g1). rbind (pick W bs g1) (\<lambda>(b, g2). Inr (b, rest', g2)))) (\<lambda>(t, r, g'). suffix r rest)"
    proof (rule bounded_bind [OF B [OF \<open>opens rest < Suc d\<close>]], clarify)
      fix bs r g1 assume "suffix r rest"
      then show "bounded (rbind (pick W bs g1) (\<lambda>(b, g2). Inr (b, r, g2))) (\<lambda>(t, r, g'). suffix r rest)"
        by (intro bounded_bind [OF pick_bounded]) auto
    qed
  qed
qed (simp add: consumes_def)

lemma generate_regex_bounded:
  assumes "opens pattern < group_limit W"
  shows "generate_regex_match W pattern g \<noteq> Inl RecursionError"
proof -
  have "bounded (generate_regex_match W pattern g) (\<lambda>_. True)"
    unfolding generate_regex_match_def
    by (auto intro!: bounded_bind [OF full_bounded [OF alternation_bounded assms]])
  then show ?thesis by (auto simp: bounded_def)
qed

end
