(* ===== verification/JsonValid.thy ===== *)
theory JsonValid
  imports JsonSchema RegexLang
begin

text \<open>
  When the schema generator and its self-check agree. \<open>schema_ok\<close> says what the generator relies
  on: keywords that count or bound integers are integers (it truncates them), no length is asked
  of a string that a pattern or a format determines (it ignores it), no upper length is negative, and
  the bounds of a number are small enough for its arithmetic: an integer has a double, and an
  exclusive bound is not so large that the offset from it vanishes in rounding
  (\<open>offset_absorbed\<close>). For such schemas everything that is generated passes the check.
\<close>

section \<open>Schemas the generator honours\<close>

definition bound_keywords :: "string list" where
  "bound_keywords = [''minimum'', ''maximum'', ''exclusiveMinimum'', ''exclusiveMaximum'']"

definition integral :: "json \<Rightarrow> bool" where
  "integral v = (case v of JNum q \<Rightarrow> q = of_int \<lfloor>q\<rfloor> | JStr _ \<Rightarrow> False | _ \<Rightarrow> True)"

definition has_double :: "json \<Rightarrow> bool" where
  "has_double v = (case v of JInt n \<Rightarrow> \<bar>n\<bar> < 2 ^ 53 | _ \<Rightarrow> number_of v \<noteq> None)"

definition offset_fits :: "json \<Rightarrow> bool" where
  "offset_fits v = (case number_of v of None \<Rightarrow> False | Some q \<Rightarrow> \<bar>q\<bar> \<le> 2 ^ 33)"

definition not_negative :: "json \<Rightarrow> bool" where
  "not_negative v = (case number_of v of None \<Rightarrow> True | Some q \<Rightarrow> 0 \<le> q)"

definition all_fields :: "string list \<Rightarrow> (json \<Rightarrow> bool) \<Rightarrow> json \<Rightarrow> bool" where
  "all_fields ks P schema \<longleftrightarrow> (\<forall>k\<in>set ks. case field k schema of None \<Rightarrow> True | Some v \<Rightarrow> P v)"

definition keywords_ok :: "json \<Rightarrow> bool" where
  "keywords_ok s \<longleftrightarrow>
     (let t = schema_type s
      in (t = JStr ''integer'' \<longrightarrow> all_fields bound_keywords integral s) \<and>
         (t = JStr ''number'' \<longrightarrow> all_fields [''minimum'', ''maximum''] has_double s \<and>
            all_fields [''exclusiveMinimum'', ''exclusiveMaximum''] offset_fits s) \<and>
         (t = JStr ''array'' \<longrightarrow> all_fields [''minItems'', ''maxItems''] integral s \<and> all_fields [''maxItems''] not_negative s) \<and>
         (t = JStr ''string'' \<longrightarrow>
            (if field ''pattern'' s \<noteq> None \<or> format_text s \<noteq> None
             then all_fields [''minLength'', ''maxLength''] (\<lambda>_. False) s
             else all_fields [''minLength'', ''maxLength''] integral s \<and> all_fields [''maxLength''] not_negative s)))"

function schema_ok :: "json \<Rightarrow> bool" where
  "schema_ok v \<longleftrightarrow>
     (case v of
        JObj fs \<Rightarrow> distinct (map fst fs) \<and> keywords_ok v \<and> (\<forall>(k, x)\<in>set fs. schema_ok x)
      | JArr xs \<Rightarrow> (\<forall>x\<in>set xs. schema_ok x)
      | _ \<Rightarrow> True)"
  by pat_completeness auto

termination
  by (relation "measure size") (auto intro: size_element size_member)

declare schema_ok.simps [simp del]

lemma schema_ok_simps [simp]:
  "schema_ok (JObj fs) \<longleftrightarrow> distinct (map fst fs) \<and> keywords_ok (JObj fs) \<and> (\<forall>(k, x)\<in>set fs. schema_ok x)"
  "schema_ok (JArr xs) \<longleftrightarrow> (\<forall>x\<in>set xs. schema_ok x)"
  "schema_ok (JStr s)" "schema_ok JNull" "schema_ok (JBool b)" "schema_ok (JInt n)" "schema_ok (JNum q)"
  by (subst schema_ok.simps; simp)+

lemma field_ok: "schema_ok s \<Longrightarrow> field k s = Some v \<Longrightarrow> schema_ok v"
  by (cases s) (auto simp: field_def dest!: map_of_SomeD)

lemma resolve_path_ok: "schema_ok doc \<Longrightarrow> resolve_path ps doc = Inr s \<Longrightarrow> schema_ok s"
proof (induction ps doc rule: resolve_path.induct)
  case (1 node)
  then show ?case by (cases node) auto
next
  case (2 p ps node)
  then show ?case by (auto split: option.splits dest: field_ok)
qed

lemma resolve_ref_ok: "schema_ok doc \<Longrightarrow> resolve_ref r doc = Inr s \<Longrightarrow> schema_ok s"
  by (cases r) (auto simp: resolve_ref_def resolve_path_ok split: if_splits)

lemma first_of_ok: "schema_ok bs \<Longrightarrow> first_of bs = Inr b \<Longrightarrow> schema_ok b"
  by (cases bs) (auto simp: first_of_def split: list.splits)

section \<open>Numbers\<close>

lemma py_int_integral: "integral v \<Longrightarrow> py_int v = Inr n \<Longrightarrow> number_of v = Some (of_int n)"
proof (cases v)
  case (JNum q)
  assume "integral v" "py_int v = Inr n"
  then have q: "q = of_int \<lfloor>q\<rfloor>" "n = (if 0 \<le> q then \<lfloor>q\<rfloor> else \<lceil>q\<rceil>)" using JNum by (auto simp: integral_def py_int_def)
  have "\<lceil>q\<rceil> = \<lfloor>q\<rfloor>" by (subst q(1)) simp
  then show ?thesis using q JNum by (simp add: number_of_def)
qed (auto simp: integral_def py_int_def number_of_def)

lemma py_float_number: "has_double v \<Longrightarrow> py_float W v = Inr q \<Longrightarrow> number_of v = Some q"
  by (cases v) (auto simp: py_float_def number_of_def has_double_def double_of_int split: if_splits)

lemma offset_fits_double: "offset_fits v \<Longrightarrow> has_double v"
proof (cases v)
  case (JInt n)
  assume "offset_fits v"
  then have "of_int \<bar>n\<bar> \<le> (2 ^ 33 :: rat)" using JInt by (simp add: offset_fits_def number_of_def)
  then have "\<bar>n\<bar> \<le> 2 ^ 33" by (metis of_int_le_iff of_int_numeral of_int_power)
  then show ?thesis using JInt by (simp add: has_double_def)
qed (simp_all add: offset_fits_def has_double_def number_of_def)

text \<open>Within \<open>2 ^ 34\<close> an operation is off by less than half the offset.\<close>

lemma small_error: "\<bar>r\<bar> < 2 ^ 34 \<Longrightarrow> \<bar>double_of r - r\<bar> \<le> 1 / 2 ^ 20"
  using double_error [of r 34] by (simp add: power_int_minus field_simps)

lemma epsilon_range: "1 / 2000 \<le> exclusive_epsilon" "exclusive_epsilon \<le> 1 / 600"
  using small_error [of "1 / 1000"] by (simp_all add: exclusive_epsilon_def abs_if split: if_splits)

lemma offset_moves:
  assumes "\<bar>x\<bar> \<le> 2 ^ 33"
  shows "x < double_of (x + exclusive_epsilon)" and "double_of (x - exclusive_epsilon) < x"
proof -
  have "\<bar>x + exclusive_epsilon\<bar> < 2 ^ 34" "\<bar>x - exclusive_epsilon\<bar> < 2 ^ 34" using assms epsilon_range by (auto simp: abs_less_iff abs_le_iff)
  from this [THEN small_error] have "\<bar>double_of (x + exclusive_epsilon) - (x + exclusive_epsilon)\<bar> \<le> 1 / 2 ^ 20"
    "\<bar>double_of (x - exclusive_epsilon) - (x - exclusive_epsilon)\<bar> \<le> 1 / 2 ^ 20" .
  then show "x < double_of (x + exclusive_epsilon)" "double_of (x - exclusive_epsilon) < x"
    using epsilon_range unfolding abs_le_iff by simp_all
qed

lemma read_bounds_sound:
  assumes R: "read_bounds conv up down schema = Inr (low, high)"
  shows "field ''minimum'' schema = Some v \<Longrightarrow> \<exists>x l. conv v = Inr x \<and> low = Some l \<and> x \<le> l"
    and "field ''exclusiveMinimum'' schema = Some v \<Longrightarrow> \<exists>x l. conv v = Inr x \<and> low = Some l \<and> up x \<le> l"
    and "field ''maximum'' schema = Some v \<Longrightarrow> \<exists>x h. conv v = Inr x \<and> high = Some h \<and> h \<le> x"
    and "field ''exclusiveMaximum'' schema = Some v \<Longrightarrow> \<exists>x h. conv v = Inr x \<and> high = Some h \<and> h \<le> down x"
  using R by (auto simp: read_bounds_def rbind_eq_Inr_iff tighten_def split: option.splits; metis max.cobounded1 min.cobounded1)+

lemma check_number_ok:
  "(\<And>v. field k schema = Some v \<Longrightarrow> \<exists>b. number_of v = Some b \<and> ok x b) \<Longrightarrow> check_number ok x k schema = Inr ()"
  by (fastforce simp: check_number_def ensure_def split: option.split)

lemma read_bounds_validate:
  assumes R: "read_bounds conv up down schema = Inr (low, high)"
    and step: "\<And>k v x. k \<in> {''exclusiveMinimum'', ''exclusiveMaximum''} \<Longrightarrow> field k schema = Some v \<Longrightarrow> conv v = Inr x \<Longrightarrow>
      x < up x \<and> down x < x"
    and conv: "\<And>k v x. k \<in> set bound_keywords \<Longrightarrow> field k schema = Some v \<Longrightarrow> conv v = Inr x \<Longrightarrow> number_of v = Some (emb x)"
    and emb: "\<And>a b. a \<le> b \<longleftrightarrow> emb a \<le> emb b"
    and lo: "default_low lower low high \<le> x" and hi: "x \<le> default_high higher high (default_low lower low high)"
  shows "validate_bounds (emb x) schema = Inr ()"
proof -
  have lt: "a < b \<longleftrightarrow> emb a < emb b" for a b using emb [of b a] emb [of a b] by (auto simp: less_le_not_le)
  have le: "l \<le> x" if "low = Some l" for l using lo that by (simp add: default_low_def)
  have ge: "x \<le> h" if "high = Some h" for h using hi that by (simp add: default_high_def)
  note S = read_bounds_sound [OF R]
  have "check_number (\<lambda>x b. b \<le> x) (emb x) ''minimum'' schema = Inr ()"
  proof (rule check_number_ok)
    fix v assume v: "field ''minimum'' schema = Some v"
    from S(1) [OF v] obtain y l where "conv v = Inr y" "low = Some l" "y \<le> l" by blast
    then show "\<exists>b. number_of v = Some b \<and> b \<le> emb x"
      using conv [OF _ v] le emb [of y x] by (auto simp: bound_keywords_def)
  qed
  moreover have "check_number (\<lambda>x b. x \<le> b) (emb x) ''maximum'' schema = Inr ()"
  proof (rule check_number_ok)
    fix v assume v: "field ''maximum'' schema = Some v"
    from S(3) [OF v] obtain y h where "conv v = Inr y" "high = Some h" "h \<le> y" by blast
    then show "\<exists>b. number_of v = Some b \<and> emb x \<le> b"
      using conv [OF _ v] ge emb [of x y] by (auto simp: bound_keywords_def)
  qed
  moreover have "check_number (\<lambda>x b. b < x) (emb x) ''exclusiveMinimum'' schema = Inr ()"
  proof (rule check_number_ok)
    fix v assume v: "field ''exclusiveMinimum'' schema = Some v"
    from S(2) [OF v] obtain y l where y: "conv v = Inr y" "low = Some l" "up y \<le> l" by blast
    have "y < up y" using step [OF _ v y(1)] by simp
    also have "\<dots> \<le> l" by (rule y(3))
    also have "\<dots> \<le> x" by (rule le [OF y(2)])
    finally show "\<exists>b. number_of v = Some b \<and> b < emb x"
      using conv [OF _ v y(1)] lt [of y x] by (auto simp: bound_keywords_def)
  qed
  moreover have "check_number (\<lambda>x b. x < b) (emb x) ''exclusiveMaximum'' schema = Inr ()"
  proof (rule check_number_ok)
    fix v assume v: "field ''exclusiveMaximum'' schema = Some v"
    from S(4) [OF v] obtain y h where y: "conv v = Inr y" "high = Some h" "h \<le> down y" by blast
    have "x \<le> h" by (rule ge [OF y(2)])
    also have "\<dots> \<le> down y" by (rule y(3))
    also have "\<dots> < y" using step [OF _ v y(1)] by simp
    finally show "\<exists>b. number_of v = Some b \<and> emb x < b"
      using conv [OF _ v y(1)] lt [of x y] by (auto simp: bound_keywords_def)
  qed
  ultimately show ?thesis by (simp add: validate_bounds_def)
qed

lemma draw_range: "libs_ok W \<Longrightarrow> draw W low high g = Inr (n, g') \<Longrightarrow> low \<le> n \<and> n < high"
  unfolding draw_def libs_ok_def by (metis Inl_Inr_False fst_conv not_le sum.inject(2))

lemma draw64_range: "libs_ok W \<Longrightarrow> draw64 W low high g = Inr (n, g') \<Longrightarrow> low \<le> n \<and> n < high"
  using draw_range by (simp add: draw64_def split: if_splits)

lemma generate_integer_valid:
  assumes W: "libs_ok W" and ok: "all_fields bound_keywords integral schema"
    and gen: "generate_integer W schema g = Inr (v, g')"
  shows "\<exists>n. v = JInt n \<and> validate_bounds (of_int n) schema = Inr ()"
proof -
  let ?lower = "\<lambda>h :: int. h - 100" and ?higher = "\<lambda>l :: int. l + 100"
  from gen obtain low0 high0 n where R: "read_bounds py_int (\<lambda>x. x + 1) (\<lambda>x. x - 1) schema = Inr (low0, high0)" "v = JInt n"
    and D: "draw64 W (default_low ?lower low0 high0) (default_high ?higher high0 (default_low ?lower low0 high0) + 1) g = Inr (n, g')"
    by (auto simp: generate_integer_def integer_bounds_def rbind_eq_Inr_iff Let_def split: if_splits)
  have "validate_bounds (of_int n) schema = Inr ()"
  proof (rule read_bounds_validate [OF R(1), where emb = of_int and x = n])
    show "number_of v = Some (of_int x)" if "k \<in> set bound_keywords" "field k schema = Some v" "py_int v = Inr x" for k v x
      using ok that py_int_integral [of v x] unfolding all_fields_def by fastforce
  qed (use draw64_range [OF W D] in auto)
  then show ?thesis using R(2) by simp
qed

lemma generate_number_valid:
  assumes ok: "all_fields [''minimum'', ''maximum''] has_double schema"
      "all_fields [''exclusiveMinimum'', ''exclusiveMaximum''] offset_fits schema"
    and gen: "generate_number W schema g = Inr (v, g')"
  shows "\<exists>q. v = JNum q \<and> validate_bounds q schema = Inr ()"
proof -
  let ?up = "\<lambda>x. double_of (x + exclusive_epsilon)" and ?down = "\<lambda>x. double_of (x - exclusive_epsilon)"
  let ?lower = "\<lambda>h. double_of (h - 100)" and ?higher = "\<lambda>l. double_of (l + 100)"
  from gen obtain low0 high0 u where R: "read_bounds (py_float W) ?up ?down schema = Inr (low0, high0)"
    and le: "default_low ?lower low0 high0 \<le> default_high ?higher high0 (default_low ?lower low0 high0)"
    and v: "v = JNum (min (max (round4 u) (default_low ?lower low0 high0)) (default_high ?higher high0 (default_low ?lower low0 high0)))"
    by (auto simp: generate_number_def rbind_eq_Inr_iff Let_def split: if_splits prod.splits)
  let ?q = "min (max (round4 u) (default_low ?lower low0 high0)) (default_high ?higher high0 (default_low ?lower low0 high0))"
  have num: "number_of v = Some x" if "k \<in> set bound_keywords" "field k schema = Some v" "py_float W v = Inr x" for k v x
  proof -
    have "has_double v" using ok that(1,2) offset_fits_double by (auto simp: bound_keywords_def all_fields_def)
    then show ?thesis by (rule py_float_number [OF _ that(3)])
  qed
  have "validate_bounds (id ?q) schema = Inr ()"
  proof (rule read_bounds_validate [OF R, where emb = id and x = ?q and lower = ?lower and higher = ?higher])
    show "number_of v = Some (id x)" if "k \<in> set bound_keywords" "field k schema = Some v" "py_float W v = Inr x" for k v x
      using num [OF that] by simp
    show "x < ?up x \<and> ?down x < x"
      if k: "k \<in> {''exclusiveMinimum'', ''exclusiveMaximum''}" "field k schema = Some v" "py_float W v = Inr x" for k v x
    proof -
      have "number_of v = Some x" by (rule num [OF _ k(2,3)]) (use k(1) in \<open>auto simp: bound_keywords_def\<close>)
      moreover have "offset_fits v" using ok(2) k(1,2) by (auto simp: all_fields_def)
      ultimately have "\<bar>x\<bar> \<le> 2 ^ 33" by (simp add: offset_fits_def)
      then show ?thesis using offset_moves by blast
    qed
  qed (use le in auto)
  then show ?thesis using v by simp
qed

section \<open>Strings\<close>

lemma pad_words_length: "pad_words W m v g = Inr (s, g') \<Longrightarrow> m \<le> int (length s)"
proof (induction W m v g rule: pad_words.induct)
  case (1 W m v g)
  show ?case
  proof (cases "int (length v) < m")
    case True
    with 1(2) obtain w g1 where "pick W words g = Inr (w, g1)" "pad_words W m (v @ '' '' @ w) g1 = Inr (s, g')"
      by (subst (asm) pad_words.simps) (auto simp: rbind_eq_Inr_iff)
    then show ?thesis using 1(1) [OF True, of "(w, g1)" w g1] by simp
  next
    case False
    then show ?thesis using 1(2) by (subst (asm) pad_words.simps) simp
  qed
qed

lemma length_field:
  assumes "all_fields [k] integral schema" and "int_field k d schema = Inr n"
    and "\<And>q. q = of_int n \<Longrightarrow> ok x q"
  shows "check_number ok x k schema = Inr ()"
proof (rule check_number_ok)
  fix v assume v: "field k schema = Some v"
  then have "py_int v = Inr n" "integral v" using assms(1,2) by (auto simp: int_field_def all_fields_def)
  then show "\<exists>b. number_of v = Some b \<and> ok x b" using py_int_integral assms(3) by blast
qed

lemma check_number_absent: "field k schema = None \<Longrightarrow> check_number ok x k schema = Inr ()"
  by (simp add: check_number_def)

lemma all_fields_Cons [simp]:
  "all_fields [] P s" "all_fields (k # ks) P s \<longleftrightarrow> (case field k s of None \<Rightarrow> True | Some v \<Rightarrow> P v) \<and> all_fields ks P s"
  by (simp_all add: all_fields_def)

lemma not_negative_int:
  assumes "case field k s of None \<Rightarrow> True | Some v \<Rightarrow> not_negative v" and "all_fields [k] integral s"
    and "int_field k d s = Inr n" and "0 \<le> d"
  shows "0 \<le> n"
proof (cases "field k s")
  case (Some v)
  then have "py_int v = Inr n" "integral v" "not_negative v" using assms by (auto simp: int_field_def)
  then show ?thesis using py_int_integral [of v n] by (simp add: not_negative_def)
qed (use assms in \<open>simp add: int_field_def\<close>)

lemma generate_string_valid:
  assumes ok: "keywords_ok schema" "schema_type schema = JStr ''string''"
    and gen: "generate_string W schema g = Inr (v, g')"
  shows "validate_string W v schema = Inr ()"
proof (cases "field ''pattern'' schema \<noteq> None \<or> format_text schema \<noteq> None")
  case True
  then have none: "field ''minLength'' schema = None" "field ''maxLength'' schema = None"
    using ok by (auto simp: keywords_ok_def split: option.splits)
  show ?thesis
  proof (cases "field ''pattern'' schema")
    case None
    then show ?thesis using gen True none by (auto simp: generate_string_def validate_string_def check_number_absent)
  next
    case (Some pv)
    with gen obtain p t where "pv = JStr p" "v = JStr t" "generate_regex_match W p g = Inr (t, g')"
      by (auto simp: generate_string_def rbind_eq_Inr_iff split: json.splits)
    then show ?thesis using Some none
      by (auto simp: validate_string_def check_number_absent generate_regex_match_def ensure_def rbind_eq_Inr_iff split: if_splits)
  qed
next
  case False
  then have len: "all_fields [''minLength''] integral schema" "all_fields [''maxLength''] integral schema"
    "case field ''maxLength'' schema of None \<Rightarrow> True | Some v \<Rightarrow> not_negative v"
    using ok by (auto simp: keywords_ok_def)
  have no: "field ''pattern'' schema = None" "format_text schema = None" using False by auto
  from gen obtain lo hi w g1 s where G: "int_field ''minLength'' 0 schema = Inr lo"
    "int_field ''maxLength'' (max lo 24) schema = Inr hi" "lo \<le> hi" "pad_words W lo w g1 = Inr (s, g')"
    "v = JStr (prefix_to s hi)"
    unfolding generate_string_def no by (auto simp: rbind_eq_Inr_iff split: if_splits)
  have s: "lo \<le> int (length s)" by (rule pad_words_length [OF G(4)])
  have hi: "0 \<le> hi" by (rule not_negative_int [OF len(3,2) G(2)]) simp
  then have l: "length (prefix_to s hi) = min (length s) (nat hi)" by (simp add: prefix_to_def)
  have "check_number (\<lambda>x b. b \<le> x) (of_nat (length (prefix_to s hi))) ''minLength'' schema = Inr ()"
  proof (rule length_field [OF len(1) G(1)])
    fix q :: rat assume q: "q = of_int lo"
    have "lo \<le> int (length (prefix_to s hi))" using l s hi G(3) by simp
    then show "q \<le> of_nat (length (prefix_to s hi))" unfolding q by (metis of_int_le_iff of_int_of_nat_eq)
  qed
  moreover have "check_number (\<lambda>x b. x \<le> b) (of_nat (length (prefix_to s hi))) ''maxLength'' schema = Inr ()"
  proof (rule length_field [OF len(2) G(2)])
    fix q :: rat assume q: "q = of_int hi"
    have "int (length (prefix_to s hi)) \<le> hi" using l hi by simp
    then show "of_nat (length (prefix_to s hi)) \<le> q" unfolding q by (metis of_int_le_iff of_int_of_nat_eq)
  qed
  ultimately show ?thesis using no(1) G(5) by (simp add: validate_string_def)
qed

section \<open>Arrays and objects\<close>

lemma foldE_unit: "foldE (\<lambda>x _. f x) xs () = Inr () \<longleftrightarrow> (\<forall>x\<in>set xs. f x = Inr ())"
  by (induction xs) (auto simp: rbind_eq_Inr_iff)

lemma repeatE_all:
  assumes "\<And>g v g'. f g = Inr (v, g') \<Longrightarrow> P v"
  shows "repeatE k f g = Inr (vs, g') \<Longrightarrow> length vs = k \<and> (\<forall>v\<in>set vs. P v)"
  by (induction k arbitrary: g vs g') (auto simp: rbind_eq_Inr_iff dest: assms)

definition agree :: "'g gen \<Rightarrow> (json \<Rightarrow> json \<Rightarrow> unit result) \<Rightarrow> bool" where
  "agree sub check \<longleftrightarrow> (\<forall>s g v g'. schema_ok s \<longrightarrow> sub s g = Inr (v, g') \<longrightarrow> check v s = Inr ())"

lemma agreeD: "agree sub check \<Longrightarrow> schema_ok s \<Longrightarrow> sub s g = Inr (v, g') \<Longrightarrow> check v s = Inr ()"
  unfolding agree_def by blast

lemma generate_array_valid:
  assumes W: "libs_ok W" and sub: "agree sub check" and ok: "schema_ok schema" "keywords_ok schema"
    and ty: "schema_type schema = JStr ''array''" and gen: "generate_array W schema sub g = Inr (v, g')"
  shows "validate_array v schema check = Inr ()"
proof -
  have len: "all_fields [''minItems''] integral schema" "all_fields [''maxItems''] integral schema"
    "case field ''maxItems'' schema of None \<Rightarrow> True | Some v \<Rightarrow> not_negative v"
    using ok(2) ty by (auto simp: keywords_ok_def)
  let ?many = "\<lambda>n g1 f. rbind (repeatE (nat n) f g1) (\<lambda>(vs, g2). Inr (JArr vs, g2))"
  from gen obtain lo hi n g1 where G: "int_field ''minItems'' 1 schema = Inr lo"
    "int_field ''maxItems'' (max lo 3) schema = Inr hi" "lo \<le> hi" "draw64 W lo (hi + 1) g = Inr (n, g1)"
    and body: "(case field ''items'' schema of
            None \<Rightarrow> ?many n g1 (some_word W)
          | Some items \<Rightarrow>
              (case items of
                 JNull \<Rightarrow> ?many n g1 (some_word W)
               | JArr _ \<Rightarrow> Inl UnsupportedConstraintError
               | _ \<Rightarrow> ?many n g1 (sub items))) = Inr (v, g')"
    unfolding generate_array_def Let_def
    by (elim rbind_InrE) (auto elim!: rbind_InrE split: if_splits)
  have "\<exists>f. ?many n g1 f = Inr (v, g') \<and> (\<forall>fs. field ''items'' schema = Some (JObj fs) \<longrightarrow> f = sub (JObj fs))"
  proof (cases "field ''items'' schema")
    case None
    then show ?thesis using body by auto
  next
    case (Some items)
    then show ?thesis using body by (cases items) auto
  qed
  then obtain f vs where F: "repeatE (nat n) f g1 = Inr (vs, g')" "v = JArr vs"
    and fsub: "\<And>fs. field ''items'' schema = Some (JObj fs) \<Longrightarrow> f = sub (JObj fs)"
    by (auto elim!: rbind_InrE)
  have n: "lo \<le> n" "n \<le> hi" using draw64_range [OF W G(4)] by simp_all
  have hi: "0 \<le> hi" by (rule not_negative_int [OF len(3,2) G(2)]) simp
  have l: "length vs = nat n" using repeatE_all [of f "\<lambda>_. True", OF _ F(1)] by simp
  have "check_number (\<lambda>x b. b \<le> x) (of_nat (length vs)) ''minItems'' schema = Inr ()"
  proof (rule length_field [OF len(1) G(1)])
    fix q :: rat assume q: "q = of_int lo"
    have "lo \<le> int (length vs)" using l n by simp
    then show "q \<le> of_nat (length vs)" unfolding q by (metis of_int_le_iff of_int_of_nat_eq)
  qed
  moreover have "check_number (\<lambda>x b. x \<le> b) (of_nat (length vs)) ''maxItems'' schema = Inr ()"
  proof (rule length_field [OF len(2) G(2)])
    fix q :: rat assume q: "q = of_int hi"
    have "int (length vs) \<le> hi" using l n hi by simp
    then show "of_nat (length vs) \<le> q" unfolding q by (metis of_int_le_iff of_int_of_nat_eq)
  qed
  moreover have "check x (JObj fs) = Inr ()" if items: "field ''items'' schema = Some (JObj fs)" and x: "x \<in> set vs" for fs x
  proof -
    have f: "f = sub (JObj fs)" using items by (rule fsub)
    have "check y (JObj fs) = Inr ()" if "f g = Inr (y, g')" for g y g'
      using agreeD [OF sub field_ok [OF ok(1) items]] that f by blast
    then show ?thesis using repeatE_all [of f "\<lambda>y. check y (JObj fs) = Inr ()", OF _ F(1)] x by blast
  qed
  ultimately have A: "validate_array v schema check =
      (case field ''items'' schema of Some (JObj fs) \<Rightarrow> foldE (\<lambda>x _. check x (JObj fs)) vs () | _ \<Rightarrow> Inr ())"
    "\<And>fs. field ''items'' schema = Some (JObj fs) \<Longrightarrow> foldE (\<lambda>x _. check x (JObj fs)) vs () = Inr ()"
    using F(2) by (simp_all add: validate_array_def foldE_unit)
  show ?thesis
  proof (cases "field ''items'' schema")
    case (Some s)
    then show ?thesis using A by (cases s) simp_all
  qed (simp add: A(1))
qed

text \<open>The loop over the properties.\<close>

definition add_property :: "'g gen \<Rightarrow> string \<times> json \<Rightarrow> (string \<times> json) list \<times> 'g \<Rightarrow> ((string \<times> json) list \<times> 'g) result" where
  "add_property sub = (\<lambda>(name, subschema) (res, g1).
     rbind (sub subschema g1) (\<lambda>(v, g2). Inr (AList.update name v res, g2)))"

lemma properties_loop:
  assumes sub: "agree sub check"
  shows "distinct (map fst ps) \<Longrightarrow> \<forall>(k, s)\<in>set ps. schema_ok s \<Longrightarrow>
    foldE (add_property sub) ps (res0, g) = Inr (res, g') \<Longrightarrow>
    (\<forall>(k, s)\<in>set ps. \<exists>v. map_of res k = Some v \<and> check v s = Inr ()) \<and>
    (\<forall>k. k \<notin> fst ` set ps \<longrightarrow> map_of res k = map_of res0 k)"
proof (induction ps arbitrary: res0 g)
  case (Cons p ps)
  obtain k s where p: "p = (k, s)" by (cases p)
  from Cons.prems(3) p obtain v g1 where V: "sub s g = Inr (v, g1)"
    "foldE (add_property sub) ps (AList.update k v res0, g1) = Inr (res, g')"
    by (auto simp: add_property_def rbind_eq_Inr_iff)
  have ck: "check v s = Inr ()" using agreeD [OF sub _ V(1)] Cons.prems(2) p by simp
  have k: "k \<notin> fst ` set ps" using Cons.prems(1) p by (simp add: image_iff)
  have d: "distinct (map fst ps)" "\<forall>(k, s)\<in>set ps. schema_ok s" using Cons.prems by simp_all
  note IH = Cons.IH [OF d V(2)]
  have "map_of res k = Some v" using IH k by (simp add: update_conv')
  then show ?case using IH ck p by (auto simp: update_conv')
qed simp

lemma falsy_or_ok: "schema_ok s \<Longrightarrow> falsy_or k s (JObj []) = JObj fs \<Longrightarrow> fs \<noteq> [] \<Longrightarrow> schema_ok (JObj fs)"
  unfolding falsy_or_def by (auto simp del: schema_ok_simps split: option.splits if_splits dest: field_ok)

lemma generate_object_valid:
  assumes sub: "agree sub check" and ok: "schema_ok schema" and gen: "generate_object W schema sub g = Inr (v, g')"
  shows "validate_object v schema check = Inr ()"
proof -
  from gen obtain req props res g1 where G: "elements (falsy_or ''required'' schema (JArr [])) = Inr req"
    "list_all hashable req" "items_of (falsy_or ''properties'' schema (JObj [])) = Inr props"
    "foldE (add_property sub) props ([], g) = Inr (res, g1)" "filter (\<lambda>v. \<not> key_in v res) req = []"
    "if props = [] then \<exists>w. v = JObj [(''result'', w)] else v = JObj res"
    unfolding generate_object_def add_property_def Let_def
    by (auto simp: rbind_eq_Inr_iff split: if_splits)
  from G(3) have props: "falsy_or ''properties'' schema (JObj []) = JObj props"
    by (auto simp: items_of_def split: json.splits)
  have req: "\<forall>x\<in>set req. hashable x \<and> key_in x res"
    using G(2,5) by (auto simp: list_all_iff filter_empty_conv)
  show ?thesis
  proof (cases "props = []")
    case True
    then have "res = []" using G(4) by simp
    then have "req = []" using req by (cases req) (auto simp: key_in_def split: json.splits)
    then show ?thesis using G True by (auto simp: validate_object_def)
  next
    case False
    from falsy_or_ok [OF ok props False] have "distinct (map fst props)" "\<forall>(k, s)\<in>set props. schema_ok s" by simp_all
    from properties_loop [OF sub this G(4)]
    have P: "\<forall>(k, s)\<in>set props. \<exists>v. map_of res k = Some v \<and> check v s = Inr ()" by blast
    have "foldE (\<lambda>name _. if hashable name then ensure (key_in name res) else Inl TypeError) req () = Inr ()"
      unfolding foldE_unit using req by (simp add: ensure_def)
    moreover have "foldE (\<lambda>(name, subschema) _. case map_of res name of None \<Rightarrow> Inr () | Some x \<Rightarrow> check x subschema) props () = Inr ()"
    proof -
      have "foldE (\<lambda>p _. case map_of res (fst p) of None \<Rightarrow> Inr () | Some x \<Rightarrow> check x (snd p)) props () = Inr ()"
        unfolding foldE_unit using P by (auto split: option.split)
      then show ?thesis by (simp add: case_prod_beta')
    qed
    ultimately show ?thesis using G(1,3,6) False by (simp add: validate_object_def)
  qed
qed

section \<open>The self-check never fails\<close>

lemma generate_all_of_object: "generate_all_of bs sub g = Inr (v, g') \<Longrightarrow> \<exists>fs. v = JObj fs"
  by (auto simp: generate_all_of_def rbind_eq_Inr_iff)

lemma generate_typed_valid:
  assumes W: "libs_ok W" and sub: "agree sub check" and ok: "schema_ok schema" "keywords_ok schema"
    and gen: "generate_typed W schema sub g = Inr (v, g')"
  shows "validate_typed W v schema check = Inr ()"
proof -
  let ?t = "schema_type schema"
  consider (object) "?t = JNull \<or> ?t = JStr ''object''" | (array) "?t = JStr ''array''" | (str) "?t = JStr ''string''"
    | (int) "?t = JStr ''integer''" | (num) "?t = JStr ''number''" | (bool) "?t = JStr ''boolean''" | (null) "?t = JStr ''null''"
    using gen by (auto simp: generate_typed_def Let_def split: if_splits)
  then show ?thesis
  proof cases
    case object
    then have "generate_object W schema sub g = Inr (v, g')" using gen by (simp add: generate_typed_def Let_def)
    from generate_object_valid [OF sub ok(1) this] object show ?thesis by (simp add: validate_typed_def Let_def)
  next
    case array
    then show ?thesis using generate_array_valid [OF W sub ok array] gen by (simp add: generate_typed_def validate_typed_def)
  next
    case str
    then show ?thesis using generate_string_valid [OF ok(2) str] gen by (simp add: generate_typed_def validate_typed_def)
  next
    case int
    then have "all_fields bound_keywords integral schema" using ok(2) by (simp add: keywords_ok_def)
    note bounds = this
    have "generate_integer W schema g = Inr (v, g')" using gen int by (simp add: generate_typed_def)
    from generate_integer_valid [OF W bounds this] obtain n where "v = JInt n" "validate_bounds (of_int n) schema = Inr ()"
      by blast
    then show ?thesis using int by (simp add: validate_typed_def)
  next
    case num
    then have "all_fields [''minimum'', ''maximum''] has_double schema"
      "all_fields [''exclusiveMinimum'', ''exclusiveMaximum''] offset_fits schema" using ok(2) by (simp_all add: keywords_ok_def)
    note bounds = this
    have "generate_number W schema g = Inr (v, g')" using gen num by (simp add: generate_typed_def)
    from generate_number_valid [OF bounds this] obtain q where "v = JNum q" "validate_bounds q schema = Inr ()" by blast
    then show ?thesis using num by (simp add: validate_typed_def)
  next
    case bool
    then have "rbind (draw W 0 2 g) (\<lambda>(n, g'). Inr (JBool (n \<noteq> 0), g')) = Inr (v, g')"
      using gen by (simp add: generate_typed_def)
    then obtain b where "v = JBool b" by (auto elim!: rbind_InrE)
    then show ?thesis using bool by (simp add: validate_typed_def ensure_def)
  next
    case null
    then have "v = JNull" using gen by (simp add: generate_typed_def)
    then show ?thesis using null by (simp add: validate_typed_def ensure_def)
  qed
qed

lemma pick_option_in:
  assumes "pick_option W options g = Inr (v, g')"
  shows "value_in v options = Inr True"
proof -
  have pick: "x \<in> set xs" if "pick W xs g = Inr (x, g')" for xs :: "json list" and x
  proof -
    from that obtain i where "x = xs ! nat i" "i < int (length xs)" "xs \<noteq> []"
      unfolding pick_def draw_def by (auto simp: rbind_eq_Inr_iff split: if_splits)
    then have "nat i < length xs" by (cases "0 \<le> i") auto
    then show ?thesis using \<open>x = xs ! nat i\<close> by simp
  qed
  show ?thesis
  proof (cases options)
    case (JArr xs)
    then show ?thesis using pick assms by (auto simp: pick_option_def value_in_def)
  next
    case (JStr s)
    then have "v \<in> set (map (\<lambda>c. JStr [c]) s)" using assms by (intro pick) (simp add: pick_option_def)
    then obtain c where "c \<in> set s" "v = JStr [c]" by auto
    moreover have "has_infix [c] s" if "c \<in> set s" for c s using that by (induction s) auto
    ultimately show ?thesis using JStr by (simp add: value_in_def)
  qed (use assms in \<open>auto simp: pick_option_def rbind_eq_Inr_iff split: if_splits\<close>)
qed

lemma generate_valid:
  assumes W: "libs_ok W" and doc: "schema_ok doc"
  shows "schema_ok schema \<Longrightarrow> generate W doc depth schema g = Inr (v, g') \<Longrightarrow> max_depth < n + depth \<Longrightarrow>
    validate n W doc v schema = Inr ()"
proof (induction n arbitrary: depth schema g v g')
  case 0
  then show ?case by (subst (asm) generate.simps) simp
next
  case (Suc n)
  note gen = Suc.prems(2)
  have d: "\<not> max_depth < depth" using gen by (subst (asm) generate.simps) (simp split: if_splits)
  have d2: "max_depth < n + (depth + 1)" using Suc.prems(3) by simp
  have next1: "validate n W doc v s = Inr ()" if "schema_ok s" "generate W doc (depth + 1) s g = Inr (v, g')" for s g v g'
    using Suc.IH [OF that d2] .
  then have sub: "agree (\<lambda>b g1. generate W doc (depth + 1) b g1) (\<lambda>x s. validate n W doc x s)"
    unfolding agree_def by blast
  obtain fs where fs: "schema = JObj fs" using gen by (subst (asm) generate.simps) (auto split: if_splits json.splits)
  have ok: "schema_ok (JObj fs)" "keywords_ok (JObj fs)" using Suc.prems(1) fs by simp_all
  note gen = gen [unfolded fs, unfolded generate.simps [of W doc depth "JObj fs" g], simplified d if_False json.case]
  show ?case
  proof (cases "field ''$ref'' schema")
    case (Some r)
    with gen fs obtain target where "resolve_ref r doc = Inr target" "generate W doc (depth + 1) target g = Inr (v, g')"
      by (auto simp: rbind_eq_Inr_iff)
    then show ?thesis using next1 resolve_ref_ok [OF doc] Some fs by simp
  next
    case ref: None
    show ?thesis
    proof (cases "field ''const'' schema")
      case (Some c)
      then show ?thesis using gen fs ref by (simp add: ensure_def)
    next
      case const: None
      show ?thesis
      proof (cases "field ''enum'' schema")
        case (Some options)
        then have "pick_option W options g = Inr (v, g')" using gen fs ref const by (simp split: if_splits)
        from pick_option_in [OF this] show ?thesis using Some fs ref const by (simp add: ensure_def)
      next
        case enum: None
        show ?thesis
        proof (cases "field ''anyOf'' schema")
          case (Some bs)
          with gen fs ref const enum obtain b where b: "first_of bs = Inr b" "generate W doc (depth + 1) b g = Inr (v, g')"
            by (auto simp: rbind_eq_Inr_iff split: if_splits)
          have "schema_ok b" using first_of_ok [OF field_ok [OF Suc.prems(1) Some] b(1)] .
          then show ?thesis using next1 b Some fs ref const enum by simp
        next
          case any: None
          show ?thesis
          proof (cases "field ''oneOf'' schema")
            case (Some bs)
            with gen fs ref const enum any obtain b where
              b: "first_of bs = Inr b" "generate W doc (depth + 1) b g = Inr (v, g')"
              by (auto simp: rbind_eq_Inr_iff split: if_splits)
            have "schema_ok b" using first_of_ok [OF field_ok [OF Suc.prems(1) Some] b(1)] .
            then show ?thesis using next1 b Some fs ref const enum any by simp
          next
            case one: None
            show ?thesis
            proof (cases "field ''allOf'' schema")
              case (Some bs)
              then show ?thesis using fs ref const enum any one by simp
            next
              case None
              then have "generate_typed W schema (\<lambda>b g1. generate W doc (depth + 1) b g1) g = Inr (v, g')"
                using gen fs ref const enum any one by (simp split: if_splits)
              from generate_typed_valid [OF W sub _ _ this] ok fs have
                "validate_typed W v schema (\<lambda>x s. validate n W doc x s) = Inr ()" by simp
              then show ?thesis using fs ref const enum any one None by simp
            qed
          qed
        qed
      qed
    qed
  qed
qed

text \<open>So a compiled JSON constraint can fail only because nothing was generated.\<close>

lemma generate_json_valid:
  assumes W: "libs_ok W" and lim: "max_depth < recursion_limit W" and ok: "schema_ok schema"
    and gen: "generate_json W schema 0 g = Inr (v, g')"
  shows "validate_against_schema W v schema = Inr ()"
proof (cases "schema = JNull")
  case False
  then have "generate W schema 0 schema g = Inr (v, g')"
    using gen by (auto simp: generate_json_def Let_def max_depth_def)
  from generate_valid [OF W ok ok this, of "recursion_limit W"] lim False show ?thesis
    by (simp add: validate_against_schema_def)
qed (simp add: validate_against_schema_def)

lemma json_constraint_ok:
  assumes W: "libs_ok W" and lim: "max_depth < recursion_limit W"
    and spec: "spec \<noteq> []" "json_loads W spec = Inr schema" "schema_ok schema"
  shows "generate_for_constraint W ''json'' spec g =
    rbind (generate_json W schema 0 g) (\<lambda>(v, g1). Inr (json_dumps W v, g1))"
  using spec generate_json_valid [OF W lim spec(3)]
  by (cases "generate_json W schema 0 g") (auto simp: generate_for_constraint_def)

text \<open>The truncation matters: half a lower bound is no bound.\<close>

lemma fractional_minimum:
  assumes W: "libs_ok W" and low: "fst (integers W 0 101 g) = 0"
  shows "let schema = JObj [(''type'', JStr ''integer''), (''minimum'', JNum (1 / 2))]
    in (\<exists>g'. generate_json W schema 0 g = Inr (JInt 0, g')) \<and>
       validate_against_schema W (JInt 0) schema = (if recursion_limit W = 0 then Inl RecursionError else Inl AssertionError)"
proof -
  obtain g' where d: "integers W 0 101 g = (0, g')" using low by (cases "integers W 0 101 g") auto
  have half: "\<lfloor>1 / 2 :: rat\<rfloor> = 0" by (simp add: floor_eq_iff)
  show ?thesis using d half
    by (cases "recursion_limit W")
      (simp_all add: Let_def generate_json_def generate.simps field_def max_depth_def unsupported_keywords_def generate_typed_def
        schema_type_def generate_integer_def integer_bounds_def read_bounds_def tighten_def py_int_def default_low_def
        default_high_def draw64_def draw_def validate_against_schema_def validate_typed_def validate_bounds_def check_number_def
        number_of_def ensure_def)
qed

text \<open>So does the size of an exclusive bound: the offset vanishes next to twenty trillion.\<close>

lemma offset_absorbed: "double_of (20000000000000 + exclusive_epsilon) = 20000000000000"
proof -
  let ?r = "20000000000000 + exclusive_epsilon" and ?k = "- 8 :: int"
  have "exponent_of ?r = 44" by (rule exponent_unique) (use epsilon_range in \<open>simp_all add: abs_if\<close>)
  then have k: "max (- 1074) (exponent_of ?r - 52) = - 8" by simp
  have "\<lfloor>?r / 2 powi (- 8)\<rfloor> = 20000000000000 * 256"
    using epsilon_range by (simp add: floor_eq_iff power_int_minus)
  then have "round_half_even (?r / 2 powi (- 8)) = 20000000000000 * 256"
    using epsilon_range by (simp add: round_half_even_def Let_def power_int_minus)
  then show ?thesis unfolding double_of_def Let_def k by (simp add: power_int_minus)
qed

lemma exclusive_bound_lost:
  assumes "recursion_limit W \<noteq> 0"
  shows "let schema = JObj [(''type'', JStr ''number''), (''exclusiveMinimum'', JInt 20000000000000), (''maximum'', JInt 20000000000000)]
    in (\<exists>g'. generate_json W schema 0 g = Inr (JNum 20000000000000, g')) \<and>
       validate_against_schema W (JNum 20000000000000) schema = Inl AssertionError"
proof -
  obtain u g' where u: "uniform W 20000000000000 20000000000000 g = (u, g')" by (cases "uniform W 20000000000000 20000000000000 g")
  have d: "double_of 20000000000000 = 20000000000000" using double_of_int [of 20000000000000] by simp
  have l: "\<not> (of_int float_limit :: rat) \<le> 0" "\<not> float_limit \<le> 20000000000000" by (simp_all add: float_limit_def)
  show ?thesis using assms u d l offset_absorbed
    by (cases "recursion_limit W")
      (simp_all add: Let_def generate_json_def generate.simps field_def max_depth_def unsupported_keywords_def generate_typed_def
        schema_type_def generate_number_def read_bounds_def tighten_def py_float_def default_low_def
        default_high_def validate_against_schema_def validate_typed_def validate_bounds_def check_number_def
        number_of_def ensure_def)
qed

end
