(* ===== verification/EngineExamples.thy ===== *)
theory EngineExamples
  imports Examples EngineRun JsonValid
begin

text \<open>
  Concrete objects for the engine core, its frontend and the grammar backend: an engine over the
  scheduler of \<open>Examples\<close>, a request that the input processor accepts, a generator of draws, a
  pattern with its language and a schema.
\<close>

section \<open>An engine with one request\<close>

definition ex_front :: frontend_config where
  "ex_front = \<lparr>fe_max_model_len = 16, fe_max_logprobs = 5, fe_lora_enabled = False,
     fe_encode = map (\<lambda>c. int (of_char c)), fe_eos_token_id = Some 2\<rparr>"

definition ex_api :: api_params where
  "ex_api = \<lparr>n_choices = 1, best_of = None, presence_penalty = 0, frequency_penalty = 0, repetition_penalty = 1,
     temperature = 1, top_p = 1, top_k = 0, min_p = 0, sp_seed = None, stop = [], stop_token_ids = [7], ignore_eos = False,
     ap_max_tokens = Some 4, min_tokens = 0, logprobs = None, prompt_logprobs = None, detokenize = True, skip_special_tokens = True, spaces_between_special_tokens = True,
     include_stop_str_in_output = False, allowed_token_ids = None, output_kind = DELTA, structured_outputs = None,
     all_stop_token_ids = {7}, eos_token_id = None\<rparr>"

lemma ex_api: "sampling_params_init NoStop (Some [7]) ex_api = Inr ex_api"
  by (simp add: sampling_params_init_def ex_api_def args_ok_def sampling_eps_def)

definition ex_ecr :: engine_core_request where
  "ex_ecr = projr (process_inputs ex_front ''a'' (Inr [1, 2, 3, 4, 5]) (Some ex_api) 0 0 None None [] None)"

lemma ex_ecr: "process_inputs ex_front ''a'' (Inr [1, 2, 3, 4, 5]) (Some ex_api) 0 0 None None [] None = Inr ex_ecr"
  by (simp add: ex_ecr_def process_inputs_def validate_params_def validate_prompt_length_def ex_front_def ex_api_def)

definition ex_engine0 :: engine_core where
  "ex_engine0 = \<lparr>ec_scheduler = ex_sched0, ec_clock = 0, ec_log_stats = False, ec_backend_name = ''auto'',
     ec_backend_built = False, ec_step_index = 0, num_dummy_steps = 0, dummy_step_seconds = 0\<rparr>"

definition ex_engine1 :: engine_core where "ex_engine1 = projr (ec_add_request ex_hash ex_ecr ex_engine0)"

lemma ex_engine1: "ec_add_request ex_hash ex_ecr ex_engine0 = Inr ex_engine1"
  by (simp add: ex_engine1_def ec_add_request_def from_engine_core_request_def request_init_def ex_ecr_def process_inputs_def
      validate_params_def validate_prompt_length_def ex_front_def ex_api_def core_params_def update_from_tokenizer_def
      grammar_init_def ex_engine0_def Let_def use_structured_output_def update_block_hashes_def record_event_def)

lemma ex_asks: "asks ex_front ex_engine0 ''a'' (Inr [1, 2, 3, 4, 5]) (Some ex_api) []"
proof -
  have "requests ex_sched0 = []" by code_simp
  moreover have "\<exists>st ids p. sampling_params_init st ids p = Inr ex_api" using ex_api by blast
  ultimately show ?thesis by (simp add: asks_def ex_engine0_def min_fits_def ex_api_def)
qed

text \<open>An executor that samples token 9 for the only request, in a tenth of a second.\<close>

definition ex_execute :: "scheduler_output \<Rightarrow> nat \<Rightarrow> model_runner_output \<times> rat \<times> nat" where
  "ex_execute so w = (ex_answer, 1 / 10, Suc w)"

abbreviation ex_run :: "engine_core \<times> nat \<Rightarrow> bool" where
  "ex_run \<equiv> engine_reaches ex_hash ex_front (\<lambda>_. []) ex_execute (\<lambda>w. (1, w)) (ex_engine0, 0)"

lemma ex_engine_runs: "ex_run (ex_engine1, 0)"
  by (rule engine_reaches.accepted [OF engine_reaches.started ex_asks ex_ecr ex_engine1])

definition ex_plan :: "scheduler_output \<times> engine_core" where
  "ex_plan = (case plan_step ex_engine1 of Inr (Some p) \<Rightarrow> p | _ \<Rightarrow> undefined)"

lemma ex_engine_conf: "ec_scheduler ex_engine0 = ex_sched0" "fe_max_model_len ex_front = max_model_len ex_sched_conf"
  by (simp_all add: ex_engine0_def ex_front_def ex_sched_conf_def)

lemma ex_engine1_sched: "ec_scheduler ex_engine1 = ex_sched1"
proof -
  have "from_engine_core_request ex_hash ex_ecr 0 None = Inr (ex_request ''a'' [1, 2, 3, 4, 5])"
    by (simp add: from_engine_core_request_def request_init_def ex_ecr_def process_inputs_def ex_request_def ex_sampling_def
      validate_params_def validate_prompt_length_def ex_front_def ex_api_def core_params_def update_from_tokenizer_def
      Let_def update_block_hashes_def)
  then show ?thesis
    by (simp add: ex_engine1_def ec_add_request_def ex_engine0_def Let_def grammar_init_def use_structured_output_def
      ex_request_def ex_sampling_def ex_sched1_def)
qed

lemma ex_answered: "answered ex_execute 0 ex_engine1"
proof -
  have "has_requests ex_sched1" by code_simp
  moreover have "worker_ok (fst ex_decision) ex_answer ((snd ex_decision)\<lparr>pending_scheduled := []\<rparr>)"
    by (rule worker_ok_cong [OF ex_worker]) simp
  ultimately show ?thesis using ex_decision
    by (simp add: answered_def plan_step_def ex_engine1_sched take_newly_scheduled_def Let_def split_beta ex_execute_def
      worker_ok_stamps)
qed

section \<open>The grammar backend\<close>

text \<open>The pattern \<open>(ab|c)x{2}\<close>.\<close>

definition ex_pattern :: alt where
  "ex_pattern = One (Then (Grp True (Or (Then (Leaf (Plain CHR ''a'')) Once (Then (Leaf (Plain CHR ''b'')) Once Empty))
     (One (Then (Leaf (Plain CHR ''c'')) Once Empty)))) Once (Then (Leaf (Plain CHR ''x'')) (Times 2) Empty))"

lemma ex_pattern_shown: "show_alt ex_pattern = ''(ab|c)x{2}''"
  by (simp add: ex_pattern_def show_nat.simps [of 2] digit_chars_def)

definition ex_libs :: "int py_libs" where
  "ex_libs = \<lparr>integers = (\<lambda>low high g. (low + g mod (high - low), 7 * g + 3)), uniform = (\<lambda>low high g. (low, g)),
     re_compiles = (\<lambda>p. True), re_fullmatch = (\<lambda>p t. t \<in> {''abxx'', ''cxx''}), float_of_text = (\<lambda>_. None),
     json_loads = (\<lambda>s. Inr (JObj [(''type'', JStr ''integer''), (''minimum'', JInt 3)])), json_dumps = (\<lambda>v. ''4''),
     py_str = (\<lambda>v. ''''), recursion_limit = 900, group_limit = 200\<rparr>"

lemma ex_libs_ok: "libs_ok ex_libs"
proof -
  have "low + g mod (high - low) < high" if "low < high" for low high g :: int
    using pos_mod_bound [of "high - low" g] that by arith
  then show ?thesis by (simp add: libs_ok_def ex_libs_def)
qed

lemma repeated_0: "repeated L {0} = {[]}"
  by (auto simp: repeated_def)

lemma repeated_Suc: "repeated L {Suc n} = {u @ v | u v. u \<in> L \<and> v \<in> repeated L {n}}"
proof (intro set_eqI iffI)
  fix t assume "t \<in> {u @ v | u v. u \<in> L \<and> v \<in> repeated L {n}}"
  then obtain u ws where "t = u @ concat ws" "u \<in> L" "set ws \<subseteq> L" "length ws = n" by (auto simp: repeated_def)
  then have "t = concat (u # ws) \<and> set (u # ws) \<subseteq> L \<and> length (u # ws) \<in> {Suc n}" by simp
  then show "t \<in> repeated L {Suc n}" unfolding repeated_def by blast
next
  fix t assume "t \<in> repeated L {Suc n}"
  then obtain u ws where "t = u @ concat ws" "u \<in> L" "set ws \<subseteq> L" "length ws = n"
    by (auto simp: repeated_def length_Suc_conv)
  then show "t \<in> {u @ v | u v. u \<in> L \<and> v \<in> repeated L {n}}" by (auto simp: repeated_def)
qed

lemma ex_pattern_lang: "lang_alt ex_pattern = {''abxx'', ''cxx''}"
proof -
  have two: "(2::nat) = Suc (Suc 0)" and one: "(1::nat) = Suc 0" by simp_all
  show ?thesis unfolding ex_pattern_def by (auto simp: two one repeated_Suc repeated_0)
qed

definition ex_schema :: json where
  "ex_schema = JObj [(''type'', JStr ''integer''), (''minimum'', JInt 3)]"

lemma ex_schema_ok: "schema_ok ex_schema"
  by (simp add: ex_schema_def keywords_ok_def schema_type_def field_def all_fields_def bound_keywords_def integral_def)

end
