(* ===== verification/Detokenizer.thy ===== *)
theory Detokenizer
  imports Frontend "HOL-Library.Sublist"
begin

text \<open>
  \<open>v1/engine/detokenizer.py\<close> and \<open>tokenizers/detokenizer_utils.py\<close>: turning a growing list of tokens
  into a growing text, with stop strings.

  A text is the list of its code points. The tokenizer is a parameter: its size, the conversion of
  ids to tokens (which may drop special ones), and of tokens to text.
\<close>

type_synonym utext = "int list"

definition utext :: "string \<Rightarrow> utext" where "utext s = map (\<lambda>c. of_char c) s"

definition replacement_char :: int where "replacement_char = 65533"

record tokenizer =
  vocab_len :: int
  ids_to_tokens :: "int list \<Rightarrow> bool \<Rightarrow> utext list"
  tokens_to_text :: "utext list \<Rightarrow> utext"

section \<open>One token in context\<close>

definition initial_offset :: nat where "initial_offset = 5"

definition convert_prompt_ids_to_tokens :: "tokenizer \<Rightarrow> int list \<Rightarrow> bool \<Rightarrow> utext list \<times> nat \<times> nat" where
  "convert_prompt_ids_to_tokens tk prompt skip =
     (let window = drop (length prompt - (initial_offset + 2)) prompt;
          new_tokens = ids_to_tokens tk window skip; read = length new_tokens
      in (new_tokens, read - initial_offset, read))"

definition detokenize_incrementally ::
  "tokenizer \<Rightarrow> int list \<Rightarrow> utext list option \<Rightarrow> nat \<Rightarrow> nat \<Rightarrow> bool \<Rightarrow> (utext list \<times> utext \<times> nat \<times> nat) result" where
  "detokenize_incrementally tk ids prev prefix_off read_off skip =
     (if ids = [] then Inl IndexError
      else
        let new_id = last ids;
            (prev_tokens, prefix_off, read_off) =
              (case prev of None \<Rightarrow> convert_prompt_ids_to_tokens tk (butlast ids) skip
                          | Some ts \<Rightarrow> (ts, prefix_off, read_off));
            converted = (if 0 \<le> new_id \<and> new_id < vocab_len tk then ids_to_tokens tk [new_id] skip else [[]]);
            output_tokens = prev_tokens @ converted;
            new_tokens = (if prev = None then output_tokens else converted);
            prefix_text = tokens_to_text tk (take (read_off - prefix_off) (drop prefix_off output_tokens));
            new_text = tokens_to_text tk (drop prefix_off output_tokens)
        in if length new_text \<le> length prefix_text \<or> (new_text \<noteq> [] \<and> last new_text = replacement_char)
           then Inr (new_tokens, [], prefix_off, read_off)
           else Inr (new_tokens, drop (length prefix_text) new_text, read_off, length output_tokens))"

section \<open>Finding a stop string\<close>

text \<open>\<open>text.find(s, start)\<close>: a negative start counts from the end.\<close>

definition py_find :: "'a list \<Rightarrow> 'a list \<Rightarrow> int \<Rightarrow> nat option" where
  "py_find t s start =
     (let i = (if start < 0 then max 0 (int (length t) + start) else start)
      in find (\<lambda>k. take (length s) (drop k t) = s) [nat i..<Suc (length t)])"

text \<open>The loop over the stop strings; \<open>best\<close> is the string with its start and end so far.\<close>

primrec best_stop :: "'a list \<Rightarrow> int \<Rightarrow> 'a list list \<Rightarrow> ('a list \<times> nat \<times> nat) option \<Rightarrow> ('a list \<times> nat \<times> nat) option" where
  "best_stop t new [] best = best"
| "best_stop t new (s # ss) best =
     best_stop t new ss
       (case py_find t s (1 - new - int (length s)) of
          None \<Rightarrow> best
        | Some i \<Rightarrow>
            (case best of
               None \<Rightarrow> Some (s, i, i + length s)
             | Some (_, _, e) \<Rightarrow> if i + length s < e then Some (s, i, i + length s) else best))"

definition check_stop_strings :: "'a list \<Rightarrow> int \<Rightarrow> 'a list list \<Rightarrow> bool \<Rightarrow> ('a list \<times> int) option" where
  "check_stop_strings t new ss include =
     (if new = 0 \<or> ss = [] then None
      else
        case best_stop t new ss None of
          None \<Rightarrow> None
        | Some (s, i, e) \<Rightarrow>
            if include then Some (s, if length t \<le> e then -1 else int e) else Some (s, int i))"

section \<open>The detokenizer of a request\<close>

record detokenizer =
  dt_token_ids :: "int list"
  dt_prompt_len :: nat
  dt_stop :: "utext list"
  dt_min_tokens :: int
  dt_include_stop :: bool
  stop_buffer_length :: int
  last_output_text_offset :: int
  output_text :: utext
  dt_tokens :: "utext list"
  prefix_offset :: nat
  read_offset :: nat
  dt_skip_special :: bool

definition detokenizer_init :: "tokenizer \<Rightarrow> int list \<Rightarrow> api_params \<Rightarrow> detokenizer" where
  "detokenizer_init tk prompt p =
     (let (tokens, pre, read) = convert_prompt_ids_to_tokens tk prompt (skip_special_tokens p);
          ss = map utext (stop p)
      in \<lparr>dt_token_ids = prompt, dt_prompt_len = length prompt, dt_stop = ss, dt_min_tokens = min_tokens p,
          dt_include_stop = include_stop_str_in_output p,
          stop_buffer_length =
            (if ss \<noteq> [] \<and> \<not> include_stop_str_in_output p then Max (set (map (\<lambda>s. int (length s)) ss)) - 1 else 0),
          last_output_text_offset = 0, output_text = [], dt_tokens = tokens, prefix_offset = pre,
          read_offset = read, dt_skip_special = skip_special_tokens p\<rparr>)"

definition dt_output_token_ids :: "detokenizer \<Rightarrow> int list" where
  "dt_output_token_ids d = drop (dt_prompt_len d) (dt_token_ids d)"

definition dt_num_output_tokens :: "detokenizer \<Rightarrow> int" where
  "dt_num_output_tokens d = int (length (dt_token_ids d)) - int (dt_prompt_len d)"

definition decode_next :: "tokenizer \<Rightarrow> detokenizer \<Rightarrow> (utext \<times> detokenizer) result" where
  "decode_next tk d =
     rbind (detokenize_incrementally tk (dt_token_ids d) (Some (dt_tokens d)) (prefix_offset d) (read_offset d) (dt_skip_special d))
       (\<lambda>(new_tokens, txt, pre, read).
          Inr (txt, d\<lparr>dt_tokens := dt_tokens d @ new_tokens, prefix_offset := pre, read_offset := read\<rparr>))"

text \<open>The loop of \<open>update\<close> over the new tokens, with the offset from which stop strings are looked for.\<close>

definition absorb_token :: "tokenizer \<Rightarrow> int \<Rightarrow> detokenizer \<times> nat \<Rightarrow> (detokenizer \<times> nat) result" where
  "absorb_token tk t dn =
     (case dn of (d, off) \<Rightarrow>
        rbind (decode_next tk (d\<lparr>dt_token_ids := dt_token_ids d @ [t]\<rparr>)) (\<lambda>(txt, d1).
        let d2 = d1\<lparr>output_text := output_text d1 @ txt\<rparr>
        in Inr (d2, if dt_min_tokens d2 \<noteq> 0 \<and> dt_num_output_tokens d2 \<le> dt_min_tokens d2
                    then length (output_text d2) else off)))"

definition look_for_stop :: "nat \<Rightarrow> detokenizer \<Rightarrow> utext option \<times> detokenizer" where
  "look_for_stop off d =
     (if dt_stop d \<noteq> [] \<and> dt_min_tokens d < dt_num_output_tokens d then
        (case check_stop_strings (output_text d) (int (length (output_text d)) - int off) (dt_stop d) (dt_include_stop d) of
           None \<Rightarrow> (None, d)
         | Some (s, e) \<Rightarrow> (Some s, if e \<noteq> -1 then d\<lparr>output_text := take (nat e) (output_text d)\<rparr> else d))
      else (None, d))"

definition dt_update :: "tokenizer \<Rightarrow> int list \<Rightarrow> bool \<Rightarrow> detokenizer \<Rightarrow> (utext option \<times> detokenizer) result" where
  "dt_update tk new stop_terminated d =
     (if new = [] then Inr (None, d)
      else
        let skipped = stop_terminated \<and> \<not> dt_include_stop d
        in rbind (foldE (absorb_token tk) (if skipped then butlast new else new) (d, length (output_text d))) (\<lambda>(d1, off).
           Inr (look_for_stop off (if skipped then d1\<lparr>dt_token_ids := dt_token_ids d1 @ [last new]\<rparr> else d1))))"

text \<open>\<open>text[:k]\<close> and \<open>text[a:b]\<close> as the code uses them.\<close>

definition py_prefix :: "'a list \<Rightarrow> int \<Rightarrow> 'a list" where
  "py_prefix xs k = (if 0 \<le> k then take (nat k) xs else take (length xs - nat (- k)) xs)"

definition get_next_output_text :: "bool \<Rightarrow> bool \<Rightarrow> detokenizer \<Rightarrow> utext \<times> detokenizer" where
  "get_next_output_text finished delta d =
     (let buf = (if finished then 0 else stop_buffer_length d); txt = output_text d
      in if \<not> delta then (if buf \<noteq> 0 then py_prefix txt (- buf) else txt, d)
         else
           let len = int (length txt) - buf; from = last_output_text_offset d
           in if from < len then (slice txt from len, d\<lparr>last_output_text_offset := len\<rparr>) else ([], d))"

section \<open>Where a stop string is complete\<close>

definition completes :: "'a list \<Rightarrow> 'a list \<Rightarrow> nat \<Rightarrow> bool" where
  "completes t s e \<longleftrightarrow> e \<le> length t \<and> suffix s (take e t)"

lemma completes_iff: "completes t s (i + length s) \<longleftrightarrow> i + length s \<le> length t \<and> take (length s) (drop i t) = s"
proof (cases "i + length s \<le> length t")
  case True
  have split: "take (i + length s) t = take i t @ take (length s) (drop i t)" by (simp add: take_add)
  have len: "length (take (length s) (drop i t)) = length s" using True by simp
  show ?thesis
  proof
    assume "completes t s (i + length s)"
    then obtain zs where "take i t @ take (length s) (drop i t) = zs @ s" unfolding completes_def split suffix_def by blast
    then show "i + length s \<le> length t \<and> take (length s) (drop i t) = s" using True len by simp
  next
    assume "i + length s \<le> length t \<and> take (length s) (drop i t) = s"
    then show "completes t s (i + length s)" unfolding completes_def split by (simp add: suffix_def)
  qed
qed (simp add: completes_def)

lemma completes_length: "completes t s e \<Longrightarrow> length s \<le> e"
  unfolding completes_def using suffix_length_le by fastforce

lemma completes_prefix: "prefix t1 t \<Longrightarrow> e \<le> length t1 \<Longrightarrow> completes t s e = completes t1 s e"
  by (auto simp: completes_def prefix_def)

text \<open>The first end behind \<open>off\<close>.\<close>

lemma py_find_first:
  fixes t s :: "'a list" and off :: nat
  assumes s: "s \<noteq> []" and off: "off < length t"
  shows "case py_find t s (1 - (int (length t) - int off) - int (length s)) of
      None \<Rightarrow> (\<forall>e>off. \<not> completes t s e)
    | Some i \<Rightarrow> completes t s (i + length s) \<and> off < i + length s \<and> (\<forall>e>off. completes t s e \<longrightarrow> i + length s \<le> e)"
proof -
  let ?m = "\<lambda>k. take (length s) (drop k t) = s"
  define lo where "lo = nat (max 0 (int off + 1 - int (length s)))"
  have lo: "lo \<le> k \<longleftrightarrow> off < k + length s" for k unfolding lo_def by auto
  have neg: "1 - (int (length t) - int off) - int (length s) < 0" using s off by (cases s) auto
  have F: "py_find t s (1 - (int (length t) - int off) - int (length s)) = find ?m [lo..<Suc (length t)]"
    using neg by (simp add: py_find_def Let_def lo_def algebra_simps)
  have fits: "?m k \<longleftrightarrow> k + length s \<le> length t \<and> ?m k" for k
  proof -
    have "k + length s \<le> length t" if "?m k"
    proof -
      have "length (take (length s) (drop k t)) = length s" using that by simp
      moreover have "0 < length s" using s by simp
      ultimately show ?thesis by (simp only: length_take length_drop)
    qed
    then show ?thesis by blast
  qed
  have ends: "\<exists>k. e = k + length s \<and> ?m k" if "completes t s e" for e
  proof -
    have "e = (e - length s) + length s" using completes_length [OF that] by simp
    then show ?thesis using that completes_iff [of t s "e - length s"] by metis
  qed
  show ?thesis
  proof (cases "find ?m [lo..<Suc (length t)]")
    case None
    then have no: "\<And>k. lo \<le> k \<Longrightarrow> k \<le> length t \<Longrightarrow> \<not> ?m k" by (auto simp: find_None_iff)
    have "\<not> completes t s e" if "off < e" for e
    proof
      assume "completes t s e"
      then obtain k where k: "e = k + length s" "?m k" using ends by blast
      then have "k \<le> length t" "lo \<le> k" using fits [of k] lo [of k] that by simp_all
      then show False using no k(2) by blast
    qed
    then show ?thesis unfolding F None by simp
  next
    case (Some i)
    from Some obtain j where j: "j < length [lo..<Suc (length t)]" "?m ([lo..<Suc (length t)] ! j)" "i = [lo..<Suc (length t)] ! j"
      "\<forall>k<j. \<not> ?m ([lo..<Suc (length t)] ! k)" unfolding find_Some_iff by blast
    have i: "lo \<le> i" "?m i" using j by (auto simp del: upt_Suc)
    have least: "\<not> ?m k" if "lo \<le> k" "k < i" for k
    proof -
      have "k - lo < j" "[lo..<Suc (length t)] ! (k - lo) = k" using that j(1,3) by (auto simp del: upt_Suc)
      then show ?thesis using j(4) by metis
    qed
    have "i + length s \<le> e" if o: "off < e" "completes t s e" for e
    proof -
      obtain k where k: "e = k + length s" "?m k" using ends [OF o(2)] by blast
      then have "lo \<le> k" using lo [of k] o(1) by simp
      then show ?thesis using least [of k] k by (meson add_le_cancel_right not_le)
    qed
    then show ?thesis unfolding F Some using i lo [of i] completes_iff [of t s i] fits [of i] by simp
  qed
qed

section \<open>The stop string that completes first\<close>

definition earliest :: "'a list \<Rightarrow> nat \<Rightarrow> 'a list list \<Rightarrow> ('a list \<times> nat \<times> nat) option \<Rightarrow> bool" where
  "earliest t off ss r \<longleftrightarrow>
     (case r of
        None \<Rightarrow> \<forall>s\<in>set ss. \<forall>e>off. \<not> completes t s e
      | Some (s, i, e) \<Rightarrow> off < e \<and> e = i + length s \<and> find (\<lambda>s. completes t s e) ss = Some s \<and>
          (\<forall>s\<in>set ss. \<forall>e'>off. completes t s e' \<longrightarrow> e \<le> e'))"

lemma find_append: "find P (xs @ ys) = (case find P xs of None \<Rightarrow> find P ys | Some x \<Rightarrow> Some x)"
  by (induction xs) auto

lemma find_Some_mem: "find P xs = Some x \<Longrightarrow> x \<in> set xs \<and> P x"
  by (induction xs) (auto split: if_splits)

lemma earliest_SomeD:
  assumes "earliest t off ss (Some (s, i, e))"
  shows "off < e" and "e = i + length s" and "find (\<lambda>s. completes t s e) ss = Some s" and "s \<in> set ss" and "completes t s e"
    and "x \<in> set ss \<Longrightarrow> off < e' \<Longrightarrow> completes t x e' \<Longrightarrow> e \<le> e'"
  using assms find_Some_mem by (fastforce simp: earliest_def)+

lemma earliest_unique:
  assumes r: "earliest t off ss r" and r': "earliest t off ss r'"
  shows "r = r'"
proof (cases r; cases r')
  fix x y assume x: "r = Some x" and y: "r' = Some y"
  obtain s i e s' i' e' where xy: "x = (s, i, e)" "y = (s', i', e')" by (cases x; cases y)
  note A = earliest_SomeD [OF r [unfolded x xy]] and B = earliest_SomeD [OF r' [unfolded y xy]]
  have "e = e'" using A(6) [OF B(4,1,5)] B(6) [OF A(4,1,5)] by simp
  then show ?thesis using A(2,3) B(2,3) x y xy by simp
next
  fix x assume x: "r = Some x" and none: "r' = None"
  obtain s i e where "x = (s, i, e)" by (cases x)
  then show ?thesis using earliest_SomeD(1,4,5) [of t off ss s i e] r r' x none by (auto simp: earliest_def)
next
  fix x assume x: "r' = Some x" and none: "r = None"
  obtain s i e where "x = (s, i, e)" by (cases x)
  then show ?thesis using earliest_SomeD(1,4,5) [of t off ss s i e] r r' x none by (auto simp: earliest_def)
qed simp

lemma earliest_snoc:
  assumes E: "earliest t off ss best" and s: "s \<noteq> []" and off: "off < length t"
  shows "earliest t off (ss @ [s])
    (case py_find t s (1 - (int (length t) - int off) - int (length s)) of
       None \<Rightarrow> best
     | Some i \<Rightarrow> (case best of
         None \<Rightarrow> Some (s, i, i + length s)
       | Some (_, _, e) \<Rightarrow> if i + length s < e then Some (s, i, i + length s) else best))"
proof (cases "py_find t s (1 - (int (length t) - int off) - int (length s))")
  case None
  then have no: "\<forall>e>off. \<not> completes t s e" using py_find_first [OF s off] by simp
  then show ?thesis using E None by (cases best) (auto simp: earliest_def find_append)
next
  case (Some i)
  then have i: "completes t s (i + length s)" "off < i + length s" "\<And>e. off < e \<Longrightarrow> completes t s e \<Longrightarrow> i + length s \<le> e"
    using py_find_first [OF s off] by auto
  show ?thesis
  proof (cases best)
    case None
    then have "find (\<lambda>x. completes t x (i + length s)) ss = None" using E i(2) by (auto simp: earliest_def find_None_iff)
    then show ?thesis using E None Some i by (auto simp: earliest_def find_append)
  next
    case B: (Some b)
    obtain s0 i0 e0 where b: "b = (s0, i0, e0)" by (cases b)
    note E0 = earliest_SomeD [OF E [unfolded B b]]
    show ?thesis
    proof (cases "i + length s < e0")
      case True
      have "\<not> completes t x (i + length s)" if "x \<in> set ss" for x using E0(6) [OF that i(2)] True by auto
      then have "find (\<lambda>x. completes t x (i + length s)) (ss @ [s]) = Some s"
        using i(1) by (simp add: find_append find_None_iff [THEN iffD2])
      moreover have "i + length s \<le> e'" if "x \<in> set (ss @ [s])" "off < e'" "completes t x e'" for x e'
        using that i(3) E0(6) [of x e'] True by fastforce
      ultimately have "earliest t off (ss @ [s]) (Some (s, i, i + length s))"
        unfolding earliest_def option.case prod.case using i(2) by blast
      then show ?thesis using True Some B b by simp
    next
      case False
      have "e0 \<le> e'" if "x \<in> set (ss @ [s])" "off < e'" "completes t x e'" for x e'
        using that i(3) [of e'] E0(6) [of x e'] False by fastforce
      then have "earliest t off (ss @ [s]) (Some (s0, i0, e0))"
        unfolding earliest_def option.case prod.case using E0(1-3) by (simp add: find_append)
      then show ?thesis using False Some B b by simp
    qed
  qed
qed

lemma best_stop_earliest:
  assumes "[] \<notin> set ss" and "off < length t" and "earliest t off ss0 best"
  shows "earliest t off (ss0 @ ss) (best_stop t (int (length t) - int off) ss best)"
  using assms
proof (induction ss arbitrary: ss0 best)
  case (Cons s ss)
  have "s \<noteq> []" "[] \<notin> set ss" using Cons.prems(1) by auto
  from Cons.IH [OF this(2) Cons.prems(2) earliest_snoc [OF Cons.prems(3) this(1) Cons.prems(2)]] show ?case by simp
qed simp

lemma earliest_at_end: "earliest t (length t) ss None"
  by (simp add: earliest_def completes_def)

lemma earliest_none_extend:
  assumes "earliest t1 off ss None" and "prefix t1 t"
  shows "earliest t off ss r \<longleftrightarrow> earliest t (max off (length t1)) ss r"
proof -
  have no: "\<not> completes t s e" if "s \<in> set ss" "off < e" "e \<le> length t1" for s e
    using assms that completes_prefix [OF assms(2) that(3)] by (simp add: earliest_def)
  show ?thesis
  proof (cases r)
    case None
    then show ?thesis using no by (auto simp: earliest_def) (meson not_le)
  next
    case (Some x)
    obtain s i e where x: "x = (s, i, e)" by (cases x)
    show ?thesis
    proof
      assume "earliest t off ss r"
      note A = earliest_SomeD [OF this [unfolded Some x]]
      have "max off (length t1) < e" using no [OF A(4,1)] A(1,5) by (meson max_less_iff_conj not_le)
      then show "earliest t (max off (length t1)) ss r"
        unfolding Some x earliest_def option.case prod.case using A(2,3,6) by auto
    next
      assume "earliest t (max off (length t1)) ss r"
      note A = earliest_SomeD [OF this [unfolded Some x]]
      have "e \<le> e'" if "y \<in> set ss" "off < e'" "completes t y e'" for y e'
        using A(6) [OF that(1) _ that(3)] no [OF that(1,2)] that(2,3) by (meson max_less_iff_conj not_le)
      then show "earliest t off ss r"
        unfolding Some x earliest_def option.case prod.case using A(1-3) by auto
    qed
  qed
qed

lemma earliest_some_extend:
  assumes "earliest t1 off ss (Some (s, i, e))" and "prefix t1 t"
  shows "earliest t off ss (Some (s, i, e))"
proof -
  have E: "off < e" "e = i + length s" "find (\<lambda>s. completes t1 s e) ss = Some s"
    "\<And>s e'. s \<in> set ss \<Longrightarrow> off < e' \<Longrightarrow> completes t1 s e' \<Longrightarrow> e \<le> e'" using assms(1) by (auto simp: earliest_def)
  have e: "e \<le> length t1" using find_Some_mem [OF E(3)] by (simp add: completes_def)
  have "find (\<lambda>s. completes t s e) ss = Some s" using E(3) completes_prefix [OF assms(2) e] by simp
  moreover have "e \<le> e'" if "x \<in> set ss" "off < e'" "completes t x e'" for x e'
    using E(4) [OF that(1,2)] that(3) completes_prefix [OF assms(2), of e' x] e by (cases "e' \<le> length t1") auto
  ultimately show ?thesis using E(1,2) by (simp add: earliest_def)
qed

section \<open>Updates\<close>

definition same_limits :: "detokenizer \<Rightarrow> detokenizer \<Rightarrow> bool" where
  "same_limits d d' \<longleftrightarrow> dt_prompt_len d' = dt_prompt_len d \<and> dt_stop d' = dt_stop d \<and> dt_min_tokens d' = dt_min_tokens d \<and>
     dt_include_stop d' = dt_include_stop d \<and> stop_buffer_length d' = stop_buffer_length d \<and>
     last_output_text_offset d' = last_output_text_offset d"

lemma same_limits_trans: "same_limits a b \<Longrightarrow> same_limits b c \<Longrightarrow> same_limits a c"
  by (simp add: same_limits_def)

definition absorbed :: "tokenizer \<Rightarrow> int \<Rightarrow> detokenizer \<Rightarrow> detokenizer" where
  "absorbed tk t d = fst (projr (absorb_token tk t (d, 0)))"

definition next_offset :: "detokenizer \<Rightarrow> nat \<Rightarrow> nat" where
  "next_offset d off =
     (if dt_min_tokens d \<noteq> 0 \<and> dt_num_output_tokens d \<le> dt_min_tokens d then length (output_text d) else off)"

lemma detokenize_returns: "ids \<noteq> [] \<Longrightarrow> \<exists>x. detokenize_incrementally tk ids prev po ro skip = Inr x"
  by (simp only: detokenize_incrementally_def Let_def split_beta if_False if_distrib [of Inr, symmetric]) blast

lemma absorb_token_ok:
  "absorb_token tk t (d, off) = Inr (absorbed tk t d, next_offset (absorbed tk t d) off)"
  "same_limits d (absorbed tk t d)" "dt_token_ids (absorbed tk t d) = dt_token_ids d @ [t]"
  "prefix (output_text d) (output_text (absorbed tk t d))"
proof -
  let ?d = "d\<lparr>dt_token_ids := dt_token_ids d @ [t]\<rparr>"
  have "dt_token_ids ?d \<noteq> []" by simp
  from detokenize_returns [OF this] obtain x where
    x: "detokenize_incrementally tk (dt_token_ids ?d) (Some (dt_tokens ?d)) (prefix_offset ?d) (read_offset ?d) (dt_skip_special ?d) = Inr x"
    by blast
  obtain new_tokens tx po ro where "x = (new_tokens, tx, po, ro)" by (cases x)
  note x [unfolded this]
  then have D: "decode_next tk ?d = Inr (tx, ?d\<lparr>dt_tokens := dt_tokens d @ new_tokens, prefix_offset := po, read_offset := ro\<rparr>)"
    by (simp add: decode_next_def)
  define d2 where "d2 = ?d\<lparr>dt_tokens := dt_tokens d @ new_tokens, prefix_offset := po, read_offset := ro,
    output_text := output_text d @ tx\<rparr>"
  have A: "absorb_token tk t (d, off) = Inr (d2, next_offset d2 off)" for off
    unfolding absorb_token_def prod.case D rbind_Inr Let_def by (simp add: d2_def next_offset_def)
  then have e: "absorbed tk t d = d2" by (simp add: absorbed_def)
  show "absorb_token tk t (d, off) = Inr (absorbed tk t d, next_offset (absorbed tk t d) off)" unfolding e by (rule A)
  show "same_limits d (absorbed tk t d)" "dt_token_ids (absorbed tk t d) = dt_token_ids d @ [t]"
    "prefix (output_text d) (output_text (absorbed tk t d))"
    unfolding e by (simp_all add: d2_def same_limits_def)
qed

primrec absorb_all :: "tokenizer \<Rightarrow> int list \<Rightarrow> detokenizer \<times> nat \<Rightarrow> detokenizer \<times> nat" where
  "absorb_all tk [] dn = dn"
| "absorb_all tk (t # ts) dn = absorb_all tk ts (absorbed tk t (fst dn), next_offset (absorbed tk t (fst dn)) (snd dn))"

lemma foldE_absorb: "foldE (absorb_token tk) ts (d, off) = Inr (absorb_all tk ts (d, off))"
  by (induction ts arbitrary: d off) (simp_all add: absorb_token_ok(1))

lemma absorb_all_ok:
  "off \<le> length (output_text d) \<Longrightarrow> absorb_all tk ts (d, off) = (d', off') \<Longrightarrow>
   same_limits d d' \<and> dt_token_ids d' = dt_token_ids d @ ts \<and> prefix (output_text d) (output_text d') \<and>
   off \<le> off' \<and> off' \<le> length (output_text d')"
proof (induction ts arbitrary: d off)
  case Nil
  then show ?case by (simp add: same_limits_def)
next
  case (Cons t ts)
  note A = absorb_token_ok(2-4) [where d = d and tk = tk and t = t]
  let ?a = "absorbed tk t d"
  have le: "length (output_text d) \<le> length (output_text ?a)" by (rule prefix_length_le [OF A(3)])
  then have n: "off \<le> next_offset ?a off" "next_offset ?a off \<le> length (output_text ?a)"
    using Cons.prems(1) by (simp_all add: next_offset_def)
  have "absorb_all tk ts (?a, next_offset ?a off) = (d', off')" using Cons.prems(2) by simp
  from Cons.IH [OF n(2) this] n(1) A le show ?case
    by (auto intro: same_limits_trans prefix_order.trans)
qed

text \<open>What \<open>look_for_stop\<close> finds is the earliest; the text is cut at its start, or behind it.\<close>

definition found :: "detokenizer \<Rightarrow> (utext \<times> nat \<times> nat) option \<Rightarrow> utext option \<times> detokenizer" where
  "found d r = (case r of None \<Rightarrow> (None, d)
     | Some (s, i, e) \<Rightarrow> (Some s, d\<lparr>output_text := take (if dt_include_stop d then e else i) (output_text d)\<rparr>))"

lemma look_for_stop_earliest:
  assumes ne: "[] \<notin> set (dt_stop d)" and off: "off \<le> length (output_text d)"
    and E: "earliest (output_text d) off (dt_stop d) r"
  shows "look_for_stop off d = (if dt_min_tokens d < dt_num_output_tokens d then found d r else (None, d))"
proof (cases "off = length (output_text d) \<or> dt_stop d = []")
  case True
  then have "earliest (output_text d) off (dt_stop d) None" using earliest_at_end by (auto simp: earliest_def [of _ _ "[]"])
  then have "r = None" by (rule earliest_unique [OF E])
  then show ?thesis using True by (auto simp: look_for_stop_def check_stop_strings_def found_def)
next
  case False
  then have lt: "off < length (output_text d)" using off by simp
  have "earliest (output_text d) off [] None" by (simp add: earliest_def)
  from best_stop_earliest [OF ne lt this]
  have "best_stop (output_text d) (int (length (output_text d)) - int off) (dt_stop d) None = r"
    using earliest_unique [OF E] by simp
  moreover have "e \<le> length (output_text d)" if "r = Some (s, i, e)" for s i e
    using earliest_SomeD(5) [OF E [unfolded that]] by (simp add: completes_def)
  ultimately show ?thesis using False lt
    by (cases r) (auto simp: look_for_stop_def check_stop_strings_def found_def)
qed

lemma earliest_exists:
  assumes "[] \<notin> set ss"
  shows "\<exists>r. earliest t off ss r"
proof (cases "off < length t")
  case True
  have "earliest t off [] None" by (simp add: earliest_def)
  from best_stop_earliest [OF assms True this] show ?thesis by auto
next
  case False
  then have "earliest t off ss None" by (auto simp: earliest_def completes_def)
  then show ?thesis by blast
qed

definition dt_ok :: "detokenizer \<Rightarrow> bool" where
  "dt_ok d \<longleftrightarrow> dt_prompt_len d \<le> length (dt_token_ids d) \<and> 0 \<le> dt_min_tokens d \<and> [] \<notin> set (dt_stop d) \<and>
     stop_buffer_length d = (if dt_stop d \<noteq> [] \<and> \<not> dt_include_stop d then Max (set (map (\<lambda>s. int (length s)) (dt_stop d))) - 1 else 0)"

lemma dt_ok_absorbed: "dt_ok d \<Longrightarrow> dt_ok (absorbed tk t d) \<and> 0 < dt_num_output_tokens (absorbed tk t d)"
  using absorb_token_ok(2,3) [where d = d and tk = tk and t = t] by (auto simp: dt_ok_def same_limits_def dt_num_output_tokens_def)

section \<open>Several tokens at once, or one at a time\<close>

fun one_at_a_time :: "tokenizer \<Rightarrow> int list \<Rightarrow> detokenizer \<Rightarrow> (utext option \<times> detokenizer) result" where
  "one_at_a_time tk [] d = Inr (None, d)"
| "one_at_a_time tk (t # ts) d =
     rbind (dt_update tk [t] False d) (\<lambda>(s, d1). case s of None \<Rightarrow> one_at_a_time tk ts d1 | Some _ \<Rightarrow> Inr (s, d1))"

lemma update_one:
  "dt_update tk [t] False d =
     Inr (look_for_stop (next_offset (absorbed tk t d) (length (output_text d))) (absorbed tk t d))"
  by (simp add: dt_update_def absorb_token_ok(1))

lemma absorb_all_offset:
  "dt_min_tokens d < dt_num_output_tokens d \<Longrightarrow> absorb_all tk ts (d, off) = (d', off') \<Longrightarrow> off' = off"
proof (induction ts arbitrary: d)
  case (Cons t ts)
  let ?a = "absorbed tk t d"
  have more: "dt_min_tokens ?a < dt_num_output_tokens ?a"
    using absorb_token_ok(2,3) [where d = d and tk = tk and t = t] Cons.prems(1) by (simp add: same_limits_def dt_num_output_tokens_def)
  then have "next_offset ?a off = off" by (simp add: next_offset_def)
  then show ?case using Cons.IH [OF more] Cons.prems(2) by simp
qed simp

lemma batch_is_one_at_a_time:
  assumes "dt_ok d" and "off \<le> length (output_text d)" and "earliest (output_text d) off (dt_stop d) None"
  shows "\<exists>d2. one_at_a_time tk ts d = Inr (fst (look_for_stop (snd (absorb_all tk ts (d, off))) (fst (absorb_all tk ts (d, off)))), d2) \<and>
    output_text d2 = output_text (snd (look_for_stop (snd (absorb_all tk ts (d, off))) (fst (absorb_all tk ts (d, off)))))"
  using assms
proof (induction ts arbitrary: d off)
  case Nil
  then have "look_for_stop off d = (None, d)" using look_for_stop_earliest [OF _ Nil.prems(2,3)] by (simp add: dt_ok_def found_def)
  then show ?case by simp
next
  case (Cons t ts)
  let ?a = "absorbed tk t d"
  note A = absorb_token_ok(2-4) [where d = d and tk = tk and t = t]
  have ok: "dt_ok ?a" "0 < dt_num_output_tokens ?a" using dt_ok_absorbed [OF Cons.prems(1)] by simp_all
  have lim: "dt_stop ?a = dt_stop d" "dt_min_tokens ?a = dt_min_tokens d" using A(1) by (simp_all add: same_limits_def)
  have ne: "[] \<notin> set (dt_stop d)" using Cons.prems(1) by (simp add: dt_ok_def)
  have le: "length (output_text d) \<le> length (output_text ?a)" by (rule prefix_length_le [OF A(3)])
  show ?case
  proof (cases "dt_num_output_tokens ?a \<le> dt_min_tokens ?a")
    case True
    then have off: "next_offset ?a x = length (output_text ?a)" for x using ok(2) by (simp add: next_offset_def)
    have "dt_update tk [t] False d = Inr (None, ?a)"
      using True unfolding update_one by (simp add: look_for_stop_def)
    then show ?thesis using Cons.IH [OF ok(1) order_refl earliest_at_end] by (simp add: off)
  next
    case False
    then have off: "next_offset ?a x = x" for x by (simp add: next_offset_def)
    obtain r where r: "earliest (output_text ?a) (length (output_text d)) (dt_stop d) r" using earliest_exists [OF ne] by blast
    have r0: "earliest (output_text ?a) off (dt_stop d) r"
      using earliest_none_extend [OF Cons.prems(3) A(3)] r Cons.prems(2) by (simp add: max_absorb2)
    have look: "look_for_stop (length (output_text d)) ?a = found ?a r"
      using look_for_stop_earliest [OF _ le] r False ne lim by simp
    show ?thesis
    proof (cases r)
      case None
      then have "dt_update tk [t] False d = Inr (None, ?a)" unfolding update_one off look by (simp add: found_def)
      moreover have "off \<le> length (output_text ?a)" "earliest (output_text ?a) off (dt_stop ?a) None"
        using Cons.prems(2) le r0 None lim by simp_all
      note Cons.IH [OF ok(1) this]
      ultimately show ?thesis by (simp add: off)
    next
      case (Some x)
      obtain s i e where x: "x = (s, i, e)" by (cases x)
      obtain d' off' where B: "absorb_all tk ts (?a, off) = (d', off')" by (cases "absorb_all tk ts (?a, off)")
      have offa: "off \<le> length (output_text ?a)" using Cons.prems(2) le by simp
      note L = absorb_all_ok [OF offa B]
      have num: "dt_min_tokens d' < dt_num_output_tokens d'"
        using L False by (simp add: same_limits_def dt_num_output_tokens_def)
      have off': "off' = off" using absorb_all_offset [OF _ B] False by simp
      have "earliest (output_text d') off (dt_stop d') (Some (s, i, e))"
        using earliest_some_extend [OF r0 [unfolded Some x]] L lim by (simp add: same_limits_def)
      then have "look_for_stop off d' = found d' r"
        using look_for_stop_earliest [of d' off] ne L lim num Some x offa by (simp add: same_limits_def)
      moreover have "e \<le> length (output_text ?a)" "e = i + length s"
        using earliest_SomeD(2,5) [OF r [unfolded Some x]] by (simp_all add: completes_def)
      moreover have "take k (output_text d') = take k (output_text ?a)" if "k \<le> length (output_text ?a)" for k
        using L that by (auto simp: prefix_def)
      ultimately show ?thesis using L Some x update_one [of tk t d] look
        by (simp add: off B off' found_def same_limits_def)
    qed
  qed
qed

lemma update_is_one_at_a_time:
  assumes "dt_ok d"
  shows "\<exists>s d1 d2. dt_update tk ts False d = Inr (s, d1) \<and> one_at_a_time tk ts d = Inr (s, d2) \<and> output_text d1 = output_text d2"
proof (cases "ts = []")
  case False
  obtain d' off where B: "absorb_all tk ts (d, length (output_text d)) = (d', off)"
    by (cases "absorb_all tk ts (d, length (output_text d))")
  have "dt_update tk ts False d = Inr (look_for_stop off d')" using False B by (simp add: dt_update_def foldE_absorb)
  with batch_is_one_at_a_time [OF assms order_refl earliest_at_end, of tk ts] B show ?thesis
    by (cases "look_for_stop off d'") auto
qed (simp add: dt_update_def)

section \<open>What is streamed is never retracted\<close>

text \<open>What has been handed out is a prefix that no stop string found later reaches into.\<close>

definition held_back :: "detokenizer \<Rightarrow> bool" where
  "held_back d \<longleftrightarrow> dt_ok d \<and> 0 \<le> last_output_text_offset d \<and>
     (last_output_text_offset d = 0 \<or> last_output_text_offset d \<le> int (length (output_text d)) - stop_buffer_length d)"

lemma buffer_covers:
  assumes "dt_ok d" and "s \<in> set (dt_stop d)" and "\<not> dt_include_stop d"
  shows "int (length s) - 1 \<le> stop_buffer_length d"
proof -
  have "int (length s) \<le> Max (set (map (\<lambda>s. int (length s)) (dt_stop d)))" by (rule Max_ge) (use assms(2) in auto)
  moreover have "dt_stop d \<noteq> []" using assms(2) by auto
  ultimately show ?thesis using assms(1,3) by (simp only: dt_ok_def if_True simp_thms)
qed

lemma buffer_nonneg: "dt_ok d \<Longrightarrow> 0 \<le> stop_buffer_length d"
proof (cases "dt_stop d \<noteq> [] \<and> \<not> dt_include_stop d")
  case True
  assume ok: "dt_ok d"
  obtain s where s: "s \<in> set (dt_stop d)" using True by (cases "dt_stop d") auto
  then have "s \<noteq> []" using ok by (auto simp: dt_ok_def)
  then show ?thesis using buffer_covers [OF ok s] True by (cases s) auto
next
  case False
  assume "dt_ok d"
  then show ?thesis using False by (simp add: dt_ok_def)
qed

lemma update_keeps_sent:
  assumes K: "held_back d"
  shows "\<exists>s d1. dt_update tk new stopped d = Inr (s, d1) \<and> same_limits d d1 \<and> dt_ok d1 \<and>
    nat (last_output_text_offset d) \<le> length (output_text d1) \<and>
    take (nat (last_output_text_offset d)) (output_text d1) = take (nat (last_output_text_offset d)) (output_text d) \<and>
    (s = None \<longrightarrow> prefix (output_text d) (output_text d1))"
proof (cases "new = []")
  case True
  have "nat (last_output_text_offset d) \<le> length (output_text d)"
    using K buffer_nonneg [of d] by (auto simp: held_back_def)
  then show ?thesis using True K by (simp add: dt_update_def same_limits_def held_back_def)
next
  case False
  have ok: "dt_ok d" using K by (simp add: held_back_def)
  let ?last = "nat (last_output_text_offset d)"
  have last: "?last \<le> length (output_text d)" using K buffer_nonneg [OF ok] by (auto simp: held_back_def)
  let ?skip = "stopped \<and> \<not> dt_include_stop d"
  obtain d1 off where B: "absorb_all tk (if ?skip then butlast new else new) (d, length (output_text d)) = (d1, off)"
    by (cases "absorb_all tk (if ?skip then butlast new else new) (d, length (output_text d))")
  note L = absorb_all_ok [OF order_refl B]
  define d2 where "d2 = (if ?skip then d1\<lparr>dt_token_ids := dt_token_ids d1 @ [last new]\<rparr> else d1)"
  have d2: "same_limits d d2" "output_text d2 = output_text d1" "prefix (output_text d) (output_text d2)"
    "length (output_text d) \<le> off" "off \<le> length (output_text d2)" "length (dt_token_ids d) \<le> length (dt_token_ids d2)"
    using L by (auto simp: d2_def same_limits_def)
  have ok2: "dt_ok d2" using ok d2(1,6) by (simp add: dt_ok_def same_limits_def)
  have run: "dt_update tk new stopped d = Inr (look_for_stop off d2)"
    using False B by (simp add: dt_update_def foldE_absorb d2_def)
  have sent: "take ?last (output_text d2) = take ?last (output_text d)" "?last \<le> length (output_text d2)"
    using d2(3) last by (auto simp: prefix_def)
  have none: "?thesis" if "look_for_stop off d2 = (None, d2)" using run that d2(1,3) ok2 sent by simp
  have ne: "[] \<notin> set (dt_stop d2)" using ok2 by (simp add: dt_ok_def)
  obtain r where r: "earliest (output_text d2) off (dt_stop d2) r" using earliest_exists [OF ne] by blast
  note look = look_for_stop_earliest [OF ne d2(5) r]
  show ?thesis
  proof (cases "dt_min_tokens d2 < dt_num_output_tokens d2 \<and> r \<noteq> None")
    case False
    then have "look_for_stop off d2 = (None, d2)" using look by (cases r) (simp_all add: found_def)
    then show ?thesis by (rule none)
  next
    case True
    then obtain s i e where x: "r = Some (s, i, e)" by (cases r) auto
    note E = earliest_SomeD [OF r [unfolded x]]
    let ?k = "if dt_include_stop d2 then e else i"
    have lim: "last_output_text_offset d2 = last_output_text_offset d" "stop_buffer_length d2 = stop_buffer_length d"
      using d2(1) by (simp_all add: same_limits_def)
    have k: "?last \<le> ?k"
    proof (cases "dt_include_stop d2")
      case True
      then show ?thesis using last d2(4) E(1) by simp
    next
      case inc: False
      have "int (length s) - 1 \<le> stop_buffer_length d" using buffer_covers [OF ok2 E(4) inc] lim by simp
      then show ?thesis using K E(1,2) d2(4) inc by (auto simp: held_back_def)
    qed
    have e: "e \<le> length (output_text d2)" using E(5) by (simp add: completes_def)
    have res: "look_for_stop off d2 = (Some s, d2\<lparr>output_text := take ?k (output_text d2)\<rparr>)"
      using look True x by (simp add: found_def)
    have "take ?last (take ?k (output_text d2)) = take ?last (output_text d)" using k sent(1) by (simp add: min_def)
    moreover have "?last \<le> length (take ?k (output_text d2))" using k sent(2) by simp
    ultimately show ?thesis using run res d2(1) ok2 by (auto simp: same_limits_def dt_ok_def)
  qed
qed

text \<open>A client that streams: one call of \<open>update\<close> and one delta per step, until the request is over.\<close>

fun stream :: "tokenizer \<Rightarrow> (int list \<times> bool \<times> bool) list \<Rightarrow> detokenizer \<Rightarrow> (utext \<times> bool \<times> detokenizer) result" where
  "stream tk [] d = Inr ([], False, d)"
| "stream tk ((new, stopped, over) # steps) d =
     rbind (dt_update tk new stopped d) (\<lambda>(s, d1).
     let fin = over \<or> s \<noteq> None; (delta, d2) = get_next_output_text fin True d1
     in if fin then Inr (delta, True, d2)
        else rbind (stream tk steps d2) (\<lambda>(rest, fin', d3). Inr (delta @ rest, fin', d3)))"

lemma get_next_delta:
  assumes ok: "dt_ok d" and o: "0 \<le> last_output_text_offset d" "nat (last_output_text_offset d) \<le> length (output_text d)"
    and k: "fin \<or> last_output_text_offset d = 0 \<or> last_output_text_offset d \<le> int (length (output_text d)) - stop_buffer_length d"
    and g: "get_next_output_text fin True d = (delta, d')"
  shows "output_text d' = output_text d" and "dt_ok d'" and "\<not> fin \<Longrightarrow> held_back d'"
    and "take (nat (last_output_text_offset d)) (output_text d) @ delta = take (nat (last_output_text_offset d')) (output_text d)"
    and "fin \<Longrightarrow> take (nat (last_output_text_offset d)) (output_text d) @ delta = output_text d"
proof -
  define buf where "buf = (if fin then 0 else stop_buffer_length d)"
  have buf: "0 \<le> buf" using buffer_nonneg [OF ok] by (simp add: buf_def)
  let ?from = "last_output_text_offset d" and ?len = "int (length (output_text d)) - buf"
  have G: "(delta, d') = (if ?from < ?len then (slice (output_text d) ?from ?len, d\<lparr>last_output_text_offset := ?len\<rparr>) else ([], d))"
    using g by (simp add: get_next_output_text_def Let_def buf_def split: if_splits)
  have "output_text d' = output_text d \<and> dt_ok d' \<and> (\<not> fin \<longrightarrow> held_back d') \<and>
      take (nat ?from) (output_text d) @ delta = take (nat (last_output_text_offset d')) (output_text d) \<and>
      (fin \<longrightarrow> take (nat ?from) (output_text d) @ delta = output_text d)"
  proof (cases "?from < ?len")
    case True
    then have d': "delta = slice (output_text d) ?from ?len" "d' = d\<lparr>last_output_text_offset := ?len\<rparr>" using G by simp_all
    have "slice (output_text d) 0 ?from @ slice (output_text d) ?from ?len = slice (output_text d) 0 ?len"
      by (rule slice_concat) (use True o in simp_all)
    then show ?thesis using d' True o ok by (auto simp: slice_def held_back_def dt_ok_def buf_def)
  next
    case False
    then have d': "delta = []" "d' = d" using G by simp_all
    then show ?thesis using False o ok k by (auto simp: held_back_def buf_def)
  qed
  then show "output_text d' = output_text d" and "dt_ok d'" and "\<not> fin \<Longrightarrow> held_back d'"
    and "take (nat ?from) (output_text d) @ delta = take (nat (last_output_text_offset d')) (output_text d)"
    and "fin \<Longrightarrow> take (nat ?from) (output_text d) @ delta = output_text d" by blast+
qed

lemma stream_text:
  assumes "held_back d"
  shows "\<exists>u fin d'. stream tk steps d = Inr (u, fin, d') \<and>
    prefix (take (nat (last_output_text_offset d)) (output_text d) @ u) (output_text d') \<and>
    (fin \<longrightarrow> take (nat (last_output_text_offset d)) (output_text d) @ u = output_text d')"
  using assms
proof (induction steps arbitrary: d)
  case Nil
  have "stream tk [] d = Inr ([], False, d)" by simp
  then show ?case by (auto simp: take_is_prefix)
next
  case (Cons step steps)
  obtain new stopped over where step: "step = (new, stopped, over)" by (cases step)
  from update_keeps_sent [OF Cons.prems, of tk new stopped] obtain s d1 where
    U: "dt_update tk new stopped d = Inr (s, d1)" "same_limits d d1" "dt_ok d1"
    "nat (last_output_text_offset d) \<le> length (output_text d1)"
    "take (nat (last_output_text_offset d)) (output_text d1) = take (nat (last_output_text_offset d)) (output_text d)"
    "s = None \<Longrightarrow> prefix (output_text d) (output_text d1)" by blast
  have off: "last_output_text_offset d1 = last_output_text_offset d" "stop_buffer_length d1 = stop_buffer_length d"
    using U(2) by (simp_all add: same_limits_def)
  let ?fin = "over \<or> s \<noteq> None"
  have k: "?fin \<or> last_output_text_offset d1 = 0 \<or>
      last_output_text_offset d1 \<le> int (length (output_text d1)) - stop_buffer_length d1"
    using Cons.prems off U(6) by (cases s) (auto simp: held_back_def dest: prefix_length_le)
  obtain delta d2 where g: "get_next_output_text ?fin True d1 = (delta, d2)" by (cases "get_next_output_text ?fin True d1")
  have o: "0 \<le> last_output_text_offset d1" using Cons.prems off by (simp add: held_back_def)
  note D = get_next_delta [OF U(3) o _ k g]
  show ?case
  proof (cases ?fin)
    case True
    then show ?thesis using step U D g off by (auto simp: Let_def)
  next
    case False
    have "held_back d2" by (rule D(3)) (use U(4) off False in simp_all)
    from Cons.IH [OF this] obtain u fin d' where
      I: "stream tk steps d2 = Inr (u, fin, d')" "prefix (take (nat (last_output_text_offset d2)) (output_text d2) @ u) (output_text d')"
      "fin \<Longrightarrow> take (nat (last_output_text_offset d2)) (output_text d2) @ u = output_text d'" by blast
    have "take (nat (last_output_text_offset d)) (output_text d) @ delta = take (nat (last_output_text_offset d2)) (output_text d2)"
      using D(1,4) U(4,5) off by simp
    then have "take (nat (last_output_text_offset d)) (output_text d) @ delta @ u = take (nat (last_output_text_offset d2)) (output_text d2) @ u"
      by (metis append.assoc)
    moreover have "stream tk (step # steps) d = Inr (delta @ u, fin, d')" using step U(1) g False I(1) by (simp add: Let_def)
    ultimately show ?thesis using I(2,3) by (metis (no_types))
  qed
qed

lemma detokenizer_init_ok:
  assumes "'''' \<notin> set (stop p)" and "0 \<le> min_tokens p"
  shows "dt_ok (detokenizer_init tk prompt p)" and "held_back (detokenizer_init tk prompt p)"
    and "output_text (detokenizer_init tk prompt p) = []" and "last_output_text_offset (detokenizer_init tk prompt p) = 0"
proof -
  have "[] \<notin> set (map utext (stop p))" using assms(1) by (auto simp: utext_def)
  then show ok: "dt_ok (detokenizer_init tk prompt p)"
    using assms(2) by (simp add: dt_ok_def detokenizer_init_def split_beta Let_def)
  then show "held_back (detokenizer_init tk prompt p)"
    and "output_text (detokenizer_init tk prompt p) = []" and "last_output_text_offset (detokenizer_init tk prompt p) = 0"
    by (simp_all add: held_back_def detokenizer_init_def split_beta Let_def)
qed

end
