(* ===== verification/OutputProcessor.thy ===== *)
theory OutputProcessor
  imports Detokenizer EngineCore
begin

text \<open>
  \<open>v1/engine/output_processor.py\<close> and \<open>v1/engine/parallel_sampling.py\<close>: what the frontend makes of
  the engine core's outputs, and how a request for \<open>n\<close> completions is split and put together again.

  A \<open>ParentRequest\<close> is shared by its children and by the table of parents: the objects live in
  \<open>op_parents\<close> and are referred to by the client's request id.
\<close>

section \<open>Parallel sampling\<close>

record completion_output =
  co_index :: int
  co_text :: utext
  co_token_ids :: "int list"
  co_finish_reason :: "finish_reason option"
  co_stop_reason :: "(int + utext) option"

record parent_request =
  pr_request_id :: string
  pr_params :: api_params
  child_requests :: "string list" \<comment> \<open>a set: no repetitions\<close>
  streaming :: bool
  output_aggregator :: "completion_output option list"
  cached_child_params :: "api_params option"

definition parent_init :: "string \<Rightarrow> api_params \<Rightarrow> parent_request" where
  "parent_init rid p =
     \<lparr>pr_request_id = rid, pr_params = p, child_requests = [], streaming = (output_kind p = DELTA),
      output_aggregator = (if output_kind p = DELTA then [] else replicate (nat (n_choices p)) None),
      cached_child_params = None\<rparr>"

definition child_params :: "nat \<Rightarrow> parent_request \<Rightarrow> api_params \<times> parent_request" where
  "child_params index p =
     (case cached_child_params p of
        Some c \<Rightarrow> (c, p)
      | None \<Rightarrow>
          let c = (pr_params p)\<lparr>n_choices := 1, best_of := None\<rparr>
          in (case sp_seed (pr_params p) of
                None \<Rightarrow> (c, p\<lparr>cached_child_params := Some c\<rparr>)
              | Some s \<Rightarrow> (c\<lparr>sp_seed := Some (s + int index)\<rparr>, p)))"

definition child_id :: "string \<Rightarrow> nat \<Rightarrow> string" where
  "child_id rid index = show_nat index @ ''_'' @ rid"

definition child_info :: "nat \<Rightarrow> parent_request \<Rightarrow> (string \<times> api_params) \<times> parent_request" where
  "child_info index p =
     (let cid = child_id (pr_request_id p) index;
          p1 = p\<lparr>child_requests := List.insert cid (child_requests p)\<rparr>;
          (c, p2) = child_params index p1
      in ((cid, c), p2))"

definition collect :: "string \<Rightarrow> completion_output \<Rightarrow> parent_request \<Rightarrow> ((completion_output list \<times> bool) \<times> parent_request) result" where
  "collect cid out p =
     (let over = co_finish_reason out \<noteq> None;
          already_returned = (over \<and> cid \<notin> set (child_requests p));
          p1 = (if over then p\<lparr>child_requests := removeAll cid (child_requests p)\<rparr> else p);
          finished = (child_requests p1 = [])
      in if streaming p1 then Inr ((if already_returned then [] else [out], finished), p1)
         else if \<not> (0 \<le> co_index out \<and> co_index out < int (length (output_aggregator p1))) then Inl IndexError
         else
           let p2 = p1\<lparr>output_aggregator := (output_aggregator p1)[nat (co_index out) := Some out]\<rparr>
           in Inr ((if child_requests p2 \<noteq> [] then [] else List.map_filter id (output_aggregator p2), finished), p2))"

section \<open>Frontend state\<close>

record frontend_request =
  fs_request_id :: string
  fs_prompt :: "string option"
  fs_prompt_token_ids :: "int list"
  fs_sampling_params :: "api_params option"
  fs_detokenizer :: detokenizer
  fs_arrival_time :: rat
  fs_is_finished :: bool
  fs_num_cached_tokens :: int
  fs_is_prefilling :: bool
  fs_parent :: "string option"
  fs_index :: int
  fs_pooling_params :: "pooling_params option"
  first_token_time :: rat
  last_token_time :: rat
  num_generation_tokens :: int
  scheduled_time :: rat

definition record_tokens :: "rat \<Rightarrow> int \<Rightarrow> frontend_request \<Rightarrow> rat list \<times> frontend_request" where
  "record_tokens now n st =
     (if n \<le> 0 then ([], st)
      else
        let st1 = (if first_token_time st = 0 then st\<lparr>first_token_time := now\<rparr> else st);
            gaps = (if first_token_time st \<noteq> 0 \<and> last_token_time st \<noteq> 0 then [now - last_token_time st] else [])
        in (gaps, st1\<lparr>last_token_time := now, num_generation_tokens := num_generation_tokens st1 + n\<rparr>))"

definition time_to_first_token :: "frontend_request \<Rightarrow> rat" where
  "time_to_first_token st = max 0 (first_token_time st - fs_arrival_time st)"

record finished_stats =
  fr_finish_reason :: "finish_reason option"
  e2e_latency :: rat
  queue_time :: rat
  prefill_time :: rat
  inference_time :: rat
  decode_time :: rat
  fr_time_to_first_token :: rat
  time_per_output_token :: rat
  fr_num_prompt_tokens :: int
  fr_num_generation_tokens :: int
  fr_num_cached_tokens :: int
  max_tokens_param :: "int option"
  n_param :: int
  observe_n_param :: bool

definition finished_stats_of :: "frontend_request \<Rightarrow> int option \<Rightarrow> rat \<Rightarrow> finish_reason option \<Rightarrow> finished_stats" where
  "finished_stats_of st parent_n now reason =
     (let e2e = max 0 (now - fs_arrival_time st);
          ttft = time_to_first_token st;
          decode = (if first_token_time st \<noteq> 0 then max 0 (now - first_token_time st) else 0);
          after_first = max 0 (num_generation_tokens st - 1);
          queue = (if scheduled_time st \<noteq> 0 then max 0 (scheduled_time st - fs_arrival_time st) else 0)
      in \<lparr>fr_finish_reason = reason, e2e_latency = e2e, queue_time = queue, prefill_time = max 0 (ttft - queue),
          inference_time = max 0 (e2e - queue), decode_time = decode, fr_time_to_first_token = ttft,
          time_per_output_token = (if after_first \<noteq> 0 then decode / of_int after_first else 0),
          fr_num_prompt_tokens = int (length (fs_prompt_token_ids st)),
          fr_num_generation_tokens = num_generation_tokens st, fr_num_cached_tokens = fs_num_cached_tokens st,
          max_tokens_param = (case fs_sampling_params st of None \<Rightarrow> None | Some p \<Rightarrow> ap_max_tokens p),
          n_param = (case parent_n of Some n \<Rightarrow> n
                     | None \<Rightarrow> (case fs_sampling_params st of None \<Rightarrow> 1 | Some p \<Rightarrow> n_choices p)),
          observe_n_param = True\<rparr>)"

record iteration_stats =
  it_num_prompt_tokens :: int
  it_num_cached_prompt_tokens :: int
  it_num_generation_tokens :: int
  inter_token_latencies :: "rat list"
  time_to_first_tokens :: "rat list"
  finished_requests :: "finished_stats list"

definition total_tokens :: "iteration_stats \<Rightarrow> int" where
  "total_tokens it = it_num_prompt_tokens it - it_num_cached_prompt_tokens it + it_num_generation_tokens it"

record output_processor =
  op_states :: "(string \<times> frontend_request) list"
  op_parents :: "(string \<times> parent_request) list"
  op_parent_ids :: "string list"
  stopped_by_string :: "string list"

definition output_processor_init :: output_processor where
  "output_processor_init = \<lparr>op_states = [], op_parents = [], op_parent_ids = [], stopped_by_string = []\<rparr>"

text \<open>\<open>SamplingParams()\<close>, which a pooling request's detokenizer is made from.\<close>

definition default_params :: api_params where
  "default_params =
     \<lparr>n_choices = 1, best_of = None, presence_penalty = 0, frequency_penalty = 0, repetition_penalty = 1, temperature = 1,
      top_p = 1, top_k = 0, min_p = 0, sp_seed = None, stop = [], stop_token_ids = [], ignore_eos = False,
      ap_max_tokens = Some 16, min_tokens = 0, logprobs = None, prompt_logprobs = None, detokenize = True,
      skip_special_tokens = True, spaces_between_special_tokens = True, include_stop_str_in_output = False,
      allowed_token_ids = None, output_kind = CUMULATIVE, structured_outputs = None, all_stop_token_ids = {}, eos_token_id = None\<rparr>"

definition op_add_request ::
  "tokenizer \<Rightarrow> string \<Rightarrow> string option \<Rightarrow> int list \<Rightarrow> api_params option \<Rightarrow> rat \<Rightarrow> string option \<Rightarrow> int \<Rightarrow>
   pooling_params option \<Rightarrow> output_processor \<Rightarrow> output_processor result" where
  "op_add_request tk rid prompt ids sp arrival parent index pool op =
     (if rid \<in> fst ` set (op_states op) then Inl ValueError
      else Inr (op\<lparr>op_states := AList.update rid
             \<lparr>fs_request_id = rid, fs_prompt = prompt, fs_prompt_token_ids = ids, fs_sampling_params = sp,
              fs_detokenizer = detokenizer_init tk ids (case sp of None \<Rightarrow> default_params | Some p \<Rightarrow> p),
              fs_arrival_time = arrival, fs_is_finished = False, fs_num_cached_tokens = 0, fs_is_prefilling = True,
              fs_parent = parent, fs_index = index, fs_pooling_params = pool, first_token_time = 0, last_token_time = 0,
              num_generation_tokens = 0, scheduled_time = 0\<rparr> (op_states op),
            op_parent_ids := (case parent of None \<Rightarrow> op_parent_ids op | Some pid \<Rightarrow> List.insert pid (op_parent_ids op))\<rparr>))"

section \<open>Aborting\<close>

text \<open>One id of the list: an engine request, the client's id of several, or neither.\<close>

definition abort_child :: "string \<Rightarrow> string list \<times> output_processor \<Rightarrow> string list \<times> output_processor" where
  "abort_child cid acc =
     (case acc of (to_abort, op) \<Rightarrow>
        if cid \<in> fst ` set (op_states op) then (to_abort @ [cid], op\<lparr>op_states := AList.delete cid (op_states op)\<rparr>)
        else (to_abort, op))"

definition abort_one :: "string \<Rightarrow> string list \<times> output_processor \<Rightarrow> string list \<times> output_processor" where
  "abort_one rid acc =
     (case acc of (to_abort, op) \<Rightarrow>
        (case map_of (op_states op) rid of
           Some st \<Rightarrow>
             let op1 = op\<lparr>op_states := AList.delete rid (op_states op)\<rparr>
             in (to_abort @ [rid],
                 (case fs_parent st of
                    None \<Rightarrow> op1
                  | Some pid \<Rightarrow>
                      (case map_of (op_parents op1) pid of
                         None \<Rightarrow> op1
                       | Some p \<Rightarrow>
                           let p1 = p\<lparr>child_requests := removeAll rid (child_requests p)\<rparr>;
                               op2 = op1\<lparr>op_parents := AList.update pid p1 (op_parents op1)\<rparr>
                           in if child_requests p1 = [] then op2\<lparr>op_parent_ids := removeAll pid (op_parent_ids op2)\<rparr> else op2)))
         | None \<Rightarrow>
             if rid \<in> set (op_parent_ids op) then
               (case map_of (op_parents op) rid of
                  None \<Rightarrow> (to_abort, op)
                | Some p \<Rightarrow> fold abort_child (child_requests p) (to_abort, op\<lparr>op_parent_ids := removeAll rid (op_parent_ids op)\<rparr>))
             else (to_abort, op)))"

definition op_abort_requests :: "string list \<Rightarrow> output_processor \<Rightarrow> string list \<times> output_processor" where
  "op_abort_requests rids op = fold abort_one rids ([], op)"

section \<open>Outputs of a step\<close>

datatype client_output =
    Completions string "string option" "int list" "completion_output list" bool int
      \<comment> \<open>\<open>RequestOutput\<close>: id, prompt, its tokens, the completions, finished, cached tokens\<close>
  | Pooled string "rat list" "int list"

definition note_event :: "event_type \<times> rat \<Rightarrow> frontend_request \<Rightarrow> frontend_request" where
  "note_event ev st =
     (case ev of (ty, t) \<Rightarrow>
        if ty = QUEUED then st\<lparr>fs_arrival_time := t\<rparr>
        else if ty = SCHEDULED \<and> scheduled_time st = 0 then st\<lparr>scheduled_time := t\<rparr>
        else st)"

text \<open>\<open>_retire\<close>.\<close>

definition retire :: "string \<Rightarrow> frontend_request \<Rightarrow> rat \<Rightarrow> finish_reason option \<Rightarrow> output_processor \<times> iteration_stats \<Rightarrow>
    output_processor \<times> iteration_stats" where
  "retire rid st now reason acc =
     (case acc of (op, it) \<Rightarrow>
        let parent = (case fs_parent st of None \<Rightarrow> None | Some pid \<Rightarrow> map_of (op_parents op) pid);
            last_of_parent = (case parent of None \<Rightarrow> True | Some p \<Rightarrow> child_requests p = []);
            op1 = (case parent of
                     Some p \<Rightarrow> if last_of_parent then op\<lparr>op_parent_ids := removeAll (pr_request_id p) (op_parent_ids op)\<rparr> else op
                   | None \<Rightarrow> op);
            pn = map_option (\<lambda>p. n_choices (pr_params p)) parent;
            stats = (finished_stats_of st pn now reason)
              \<lparr>n_param := (case pn of None \<Rightarrow> 1 | Some n \<Rightarrow> n), observe_n_param := last_of_parent\<rparr>
        in (op1\<lparr>op_states := AList.delete rid (op_states op1)\<rparr>,
            it\<lparr>finished_requests := finished_requests it @ [stats]\<rparr>))"

text \<open>Timing and statistics of one output; the first one is charged for the prompt.\<close>

definition charge_prompt :: "engine_core_output \<Rightarrow> frontend_request \<Rightarrow> iteration_stats \<Rightarrow> frontend_request \<times> iteration_stats" where
  "charge_prompt eo st it =
     (if fs_is_prefilling st
      then (st\<lparr>fs_is_prefilling := False\<rparr>,
            it\<lparr>it_num_prompt_tokens := it_num_prompt_tokens it + int (length (fs_prompt_token_ids st)),
               it_num_cached_prompt_tokens := it_num_cached_prompt_tokens it + eco_num_cached_tokens eo\<rparr>)
      else (st, it))"

definition time_output :: "rat \<Rightarrow> engine_core_output \<Rightarrow> frontend_request \<Rightarrow> iteration_stats \<Rightarrow> frontend_request \<times> iteration_stats" where
  "time_output now eo st it =
     (let st1 = fold note_event (case eco_events eo of None \<Rightarrow> [] | Some evs \<Rightarrow> evs)
                  (st\<lparr>fs_num_cached_tokens := eco_num_cached_tokens eo\<rparr>);
          num_new = int (length (eco_new_token_ids eo));
          (gaps, st2) = record_tokens now num_new st1
      in (st2, it\<lparr>it_num_generation_tokens := it_num_generation_tokens it + num_new,
                  inter_token_latencies := inter_token_latencies it @ gaps,
                  time_to_first_tokens := time_to_first_tokens it @
                    (if num_new \<noteq> 0 \<and> num_generation_tokens st2 = num_new then [time_to_first_token st2] else [])\<rparr>))"

definition complete_output :: "engine_core_output \<Rightarrow> finish_reason option \<Rightarrow> utext option \<Rightarrow> frontend_request \<Rightarrow>
    completion_output \<times> frontend_request" where
  "complete_output eo reason stop_string st =
     (let delta = (case fs_sampling_params st of None \<Rightarrow> False | Some p \<Rightarrow> output_kind p = DELTA);
          (t, d) = get_next_output_text (reason \<noteq> None) delta (fs_detokenizer st)
      in (\<lparr>co_index = fs_index st, co_text = t,
           co_token_ids = (if delta then eco_new_token_ids eo else dt_output_token_ids d),
           co_finish_reason = reason,
           co_stop_reason = (case stop_string of Some s \<Rightarrow> Some (Inr s) | None \<Rightarrow> map_option (map_sum id utext) (eco_stop_reason eo))\<rparr>,
          st\<lparr>fs_detokenizer := d\<rparr>))"

type_synonym op_acc = "client_output list \<times> output_processor \<times> iteration_stats"

definition process_output :: "tokenizer \<Rightarrow> rat \<Rightarrow> engine_core_output \<Rightarrow> op_acc \<Rightarrow> op_acc result" where
  "process_output tk now eo acc =
     (case acc of (outs, op, it0) \<Rightarrow>
      let rid = eco_request_id eo in
      case map_of (op_states op) rid of
        None \<Rightarrow> Inr acc
      | Some st0 \<Rightarrow>
          let (st1, it1) = charge_prompt eo st0 it0 in
          if fs_pooling_params st1 \<noteq> None then
            (case eco_pooling_output eo of
               None \<Rightarrow> Inr (outs, op\<lparr>op_states := AList.update rid st1 (op_states op)\<rparr>, it1)
             | Some v \<Rightarrow>
                 let (op1, it2) = retire rid st1 now (eco_finish_reason eo) (op, it1)
                 in Inr (outs @ [Pooled rid v (fs_prompt_token_ids st1)], op1, it2))
          else
            rbind (dt_update tk (eco_new_token_ids eo) (eco_finish_reason eo = Some STOP) (fs_detokenizer st1)) (\<lambda>(s, d).
            let by_string = (s \<noteq> None \<and> eco_finish_reason eo = None);
                reason = (if by_string then Some STOP else eco_finish_reason eo);
                op1 = (if by_string then op\<lparr>stopped_by_string := stopped_by_string op @ [rid]\<rparr> else op);
                (st2, it2) = time_output now eo (st1\<lparr>fs_detokenizer := d\<rparr>) it1
            in if fs_sampling_params st2 = None then Inl AssertionError
               else
                 let (out, st3) = complete_output eo reason s st2;
                     op2 = op1\<lparr>op_states := AList.update rid st3 (op_states op1)\<rparr>
                 in rbind (case fs_parent st3 of
                        None \<Rightarrow> Inr (([out], reason \<noteq> None), rid, op2)
                      | Some pid \<Rightarrow>
                          (case map_of (op_parents op2) pid of
                             None \<Rightarrow> Inl AttributeError
                           | Some p \<Rightarrow>
                               rbind (collect rid out p) (\<lambda>(res, p').
                               Inr (res, pid, op2\<lparr>op_parents := AList.update pid p' (op_parents op2)\<rparr>)))) (\<lambda>((cs, over), report, op3).
                    let outs' = (if fs_parent st3 \<noteq> None \<and> cs = [] \<and> \<not> over then outs
                                 else outs @ [Completions report (fs_prompt st3) (fs_prompt_token_ids st3) cs over (fs_num_cached_tokens st3)]);
                        (op4, it3) = (if reason \<noteq> None then retire rid st3 now reason (op3, it2) else (op3, it2))
                    in Inr (outs', op4, it3))))"

definition process_outputs :: "tokenizer \<Rightarrow> rat \<Rightarrow> engine_core_output list \<Rightarrow> output_processor \<times> iteration_stats \<Rightarrow> op_acc result" where
  "process_outputs tk now eos oi = (case oi of (op, it) \<Rightarrow> foldE (process_output tk now) eos ([], op, it))"

definition take_stopped_by_string :: "output_processor \<Rightarrow> string list \<times> output_processor" where
  "take_stopped_by_string op = (stopped_by_string op, op\<lparr>stopped_by_string := []\<rparr>)"

section \<open>The children's ids are their own\<close>

lemma digit_chars_inj: "i < 10 \<Longrightarrow> j < 10 \<Longrightarrow> digit_chars ! i = digit_chars ! j \<Longrightarrow> i = j"
proof -
  have "distinct digit_chars" "length digit_chars = 10" by (simp_all add: digit_chars_def)
  then show "i < 10 \<Longrightarrow> j < 10 \<Longrightarrow> digit_chars ! i = digit_chars ! j \<Longrightarrow> i = j" by (simp add: nth_eq_iff_index_eq)
qed

lemma show_nat_small: "n < 10 \<Longrightarrow> show_nat n = [digit_chars ! n]"
  and show_nat_big: "10 \<le> n \<Longrightarrow> show_nat n = show_nat (n div 10) @ [digit_chars ! (n mod 10)]"
  by (subst show_nat.simps; simp)+

lemma show_nat_inj: "show_nat m = show_nat n \<Longrightarrow> m = n"
proof (induction m arbitrary: n rule: less_induct)
  case (less m)
  show ?case
  proof (cases "m < 10 \<or> n < 10")
    case True
    then have "m < 10 \<and> n < 10"
      using less.prems show_nat_big [of m] show_nat_big [of n] show_nat_small [of m] show_nat_small [of n] show_nat_nonempty
      by (metis append_Nil append_eq_append_conv length_Cons list.size(3) not_le)
    then show ?thesis using less.prems digit_chars_inj by (simp add: show_nat_small)
  next
    case False
    then have "show_nat (m div 10) = show_nat (n div 10)" "digit_chars ! (m mod 10) = digit_chars ! (n mod 10)"
      using less.prems by (simp_all add: show_nat_big)
    then have "m div 10 = n div 10" "m mod 10 = n mod 10" using less.IH False digit_chars_inj by simp_all
    then show ?thesis by (metis div_mult_mod_eq)
  qed
qed

lemma show_nat_no_underscore: "CHR ''_'' \<notin> set (show_nat n)"
proof (induction n rule: less_induct)
  case (less n)
  have "CHR ''_'' \<noteq> digit_chars ! i" if "i < 10" for i
  proof -
    have "digit_chars ! i \<in> set digit_chars" by (rule nth_mem) (use that in \<open>simp add: digit_chars_def\<close>)
    then show ?thesis by (auto simp: digit_chars_def)
  qed
  then show ?case using less by (cases "n < 10") (simp_all add: show_nat_small show_nat_big)
qed

lemma child_id_inj: "child_id rid i = child_id rid j \<longleftrightarrow> i = j"
proof
  assume "child_id rid i = child_id rid j"
  then have "takeWhile (\<lambda>c. c \<noteq> CHR ''_'') (show_nat i @ ''_'' @ rid) = takeWhile (\<lambda>c. c \<noteq> CHR ''_'') (show_nat j @ ''_'' @ rid)"
    by (simp add: child_id_def)
  moreover have "takeWhile (\<lambda>c. c \<noteq> CHR ''_'') (show_nat k @ ''_'' @ rid) = show_nat k" for k
  proof -
    have "\<forall>c\<in>set (show_nat k). c \<noteq> CHR ''_''" using show_nat_no_underscore [of k] by auto
    then show ?thesis by (simp add: takeWhile_append2)
  qed
  ultimately show "i = j" using show_nat_inj by simp
qed simp

section \<open>One answer for all children\<close>

fun collect_all :: "string \<Rightarrow> (nat \<times> completion_output) list \<Rightarrow> parent_request \<Rightarrow> (completion_output list \<times> bool) list result" where
  "collect_all rid [] p = Inr []"
| "collect_all rid ((i, c) # outs) p =
     rbind (collect (child_id rid i) c p) (\<lambda>(res, p1). rbind (collect_all rid outs p1) (\<lambda>rs. Inr (res # rs)))"

definition fan_out :: "nat \<Rightarrow> parent_request \<Rightarrow> parent_request" where
  "fan_out n p = fold (\<lambda>i p. snd (child_info i p)) [0..<n] p"

lemma child_info_parts [simp]:
  "pr_request_id (snd (child_info i p)) = pr_request_id p" "streaming (snd (child_info i p)) = streaming p"
  "output_aggregator (snd (child_info i p)) = output_aggregator p"
  "set (child_requests (snd (child_info i p))) = insert (child_id (pr_request_id p) i) (set (child_requests p))"
  by (simp_all add: child_info_def child_params_def Let_def split_beta split: option.split)

lemma fan_out_parts:
  "pr_request_id (fan_out n p) = pr_request_id p \<and> streaming (fan_out n p) = streaming p \<and>
   output_aggregator (fan_out n p) = output_aggregator p \<and>
   set (child_requests (fan_out n p)) = set (child_requests p) \<union> child_id (pr_request_id p) ` {0..<n}"
  unfolding fan_out_def by (induction n) (auto simp: atLeast0_lessThan_Suc)

text \<open>An output of a child is its last one exactly if it is a finishing one.\<close>

definition each_finishes_once :: "(nat \<times> completion_output) list \<Rightarrow> bool" where
  "each_finishes_once outs \<longleftrightarrow>
     (\<forall>k<length outs. (co_finish_reason (snd (outs ! k)) \<noteq> None) = (fst (outs ! k) \<notin> fst ` set (drop (Suc k) outs)))"

lemma each_finishes_once_Cons:
  "each_finishes_once ((i, c) # outs) \<longleftrightarrow> (co_finish_reason c \<noteq> None) = (i \<notin> fst ` set outs) \<and> each_finishes_once outs"
  unfolding each_finishes_once_def by (simp add: All_less_Suc2)

lemma collect_all_ok:
  assumes "outs \<noteq> []" and "\<not> streaming p" and "set (child_requests p) = child_id rid ` fst ` set outs"
    and "\<forall>(i, c)\<in>set outs. i < length (output_aggregator p) \<and> co_index c = int i" and "each_finishes_once outs"
  shows "collect_all rid outs p = Inr (replicate (length outs - 1) ([], False) @
    [(List.map_filter id (map (\<lambda>i. case map_of (rev outs) i of None \<Rightarrow> output_aggregator p ! i | Some c \<Rightarrow> Some c)
        [0..<length (output_aggregator p)]), True)])"
  using assms
proof (induction outs arbitrary: p)
  case (Cons x outs)
  obtain i c where x: "x = (i, c)" by (cases x)
  have i: "i < length (output_aggregator p)" "co_index c = int i" using Cons.prems(4) x by simp_all
  have fin: "(co_finish_reason c \<noteq> None) = (i \<notin> fst ` set outs)" and rest: "each_finishes_once outs"
    using Cons.prems(5) x by (simp_all add: each_finishes_once_Cons)
  let ?agg = "(output_aggregator p)[i := Some c]"
  define kids where "kids = (if co_finish_reason c \<noteq> None then removeAll (child_id rid i) (child_requests p) else child_requests p)"
  have kids: "set kids = child_id rid ` fst ` set outs"
    using Cons.prems(3) x fin by (auto simp: kids_def child_id_inj image_iff)
  then have empty: "kids = [] \<longleftrightarrow> outs = []" by (metis image_is_empty set_empty)
  define p1 where "p1 = p\<lparr>child_requests := kids, output_aggregator := ?agg\<rparr>"
  have C: "collect (child_id rid i) c p = Inr ((if outs \<noteq> [] then [] else List.map_filter id ?agg, outs = []), p1)"
  proof -
    have k: "(if co_finish_reason c \<noteq> None then p\<lparr>child_requests := removeAll (child_id rid i) (child_requests p)\<rparr> else p) =
      p\<lparr>child_requests := kids\<rparr>" by (simp add: kids_def)
    show ?thesis unfolding collect_def Let_def k using Cons.prems(2) i empty by (simp add: p1_def)
  qed
  show ?case
  proof (cases "outs = []")
    case True
    have "map (\<lambda>j. case map_of (rev [(i, c)]) j of None \<Rightarrow> output_aggregator p ! j | Some c \<Rightarrow> Some c)
        [0..<length (output_aggregator p)] = ?agg"
      by (rule nth_equalityI) (use i(1) in \<open>auto simp: nth_list_update\<close>)
    then show ?thesis using C True x by (simp add: id_def)
  next
    case False
    have kept: "\<not> streaming p1" "set (child_requests p1) = child_id rid ` fst ` set outs"
      "\<forall>(i, c)\<in>set outs. i < length (output_aggregator p1) \<and> co_index c = int i"
      using Cons.prems(2,4) kids by (auto simp: p1_def)
    have agg: "output_aggregator p1 = ?agg" by (simp add: p1_def)
    note IH = Cons.IH [OF False kept rest]
    have I: "collect_all rid outs p1 = Inr (replicate (length outs - 1) ([], False) @
        [(List.map_filter id (map (\<lambda>j. case map_of (rev outs) j of None \<Rightarrow> ?agg ! j | Some c \<Rightarrow> Some c)
            [0..<length (output_aggregator p)]), True)])" using IH unfolding agg by (simp only: length_list_update)
    have "map (\<lambda>j. case map_of (rev outs) j of None \<Rightarrow> ?agg ! j | Some c \<Rightarrow> Some c) [0..<length (output_aggregator p)] =
        map (\<lambda>j. case map_of (rev (x # outs)) j of None \<Rightarrow> output_aggregator p ! j | Some c \<Rightarrow> Some c) [0..<length (output_aggregator p)]"
      by (rule map_cong) (use i(1) x in \<open>auto simp: map_add_def nth_list_update split: option.split\<close>)
    note I [unfolded this]
    moreover have "replicate (length (x # outs) - 1) ([] :: completion_output list, False) = ([], False) # replicate (length outs - 1) ([], False)"
      using False by (cases outs) simp_all
    moreover have "collect (child_id rid i) c p = Inr (([], False), p1)" using C False by simp
    ultimately show ?thesis unfolding x by (simp only: collect_all.simps rbind_Inr prod.case append_Cons)
  qed
qed simp

lemma parallel_collect:
  assumes "output_kind sp \<noteq> DELTA" and "fst ` set outs = {0..<nat (n_choices sp)}" and "outs \<noteq> []"
    and "\<forall>(i, c)\<in>set outs. co_index c = int i" and "each_finishes_once outs"
  shows "collect_all rid outs (fan_out (nat (n_choices sp)) (parent_init rid sp)) =
    Inr (replicate (length outs - 1) ([], False) @ [(map (\<lambda>i. the (map_of (rev outs) i)) [0..<nat (n_choices sp)], True)])"
proof -
  let ?n = "nat (n_choices sp)" and ?p = "fan_out (nat (n_choices sp)) (parent_init rid sp)"
  have p: "\<not> streaming ?p" "set (child_requests ?p) = child_id rid ` fst ` set outs" "output_aggregator ?p = replicate ?n None"
    using fan_out_parts [of ?n "parent_init rid sp"] assms(1,2) by (auto simp: parent_init_def)
  have idx: "\<forall>(i, c)\<in>set outs. i < length (output_aggregator ?p) \<and> co_index c = int i"
  proof clarify
    fix i c assume ic: "(i, c) \<in> set outs"
    then have "i \<in> fst ` set outs" by force
    then show "i < length (output_aggregator ?p) \<and> co_index c = int i" using ic assms(2,4) p(3) by auto
  qed
  have got: "\<exists>c. map_of (rev outs) i = Some c" if "i < ?n" for i
  proof -
    have "i \<in> fst ` set outs" using assms(2) that by simp
    then show ?thesis by (metis domD dom_map_of_conv_image_fst set_rev)
  qed
  have "map (\<lambda>i. case map_of (rev outs) i of None \<Rightarrow> output_aggregator ?p ! i | Some c \<Rightarrow> Some c) [0..<?n] =
      map Some (map (\<lambda>i. the (map_of (rev outs) i)) [0..<?n])"
    unfolding map_map by (rule map_cong) (use got in \<open>auto dest!: got\<close>)
  moreover have "List.map_filter id (map Some xs) = xs" for xs :: "completion_output list"
    by (induction xs) (simp_all add: List.map_filter_simps)
  moreover have "length (output_aggregator ?p) = ?n" using p(3) by simp
  ultimately show ?thesis
    using collect_all_ok [OF assms(3) p(1,2) idx assms(5)] by (simp only:)
qed

end
