(* ===== verification/SimModel.thy ===== *)
theory SimModel
  imports Frontend KVSpec "HOL-Library.Sublist"
begin

text \<open>
  \<open>sim/model.py\<close> and \<open>sim/rng.py\<close>: the token generator. Generators are values of \<open>'g\<close>; what numpy
  and the hash functions do is a parameter: \<open>generator seed space key\<close> is the generator of the
  entropy derived from a seed, a namespace and a key, and a draw returns a value and the generator
  after it. So are SHA-256, on bytes, \<open>sum\<close> over floats and \<open>math.sqrt\<close>.
\<close>

record 'g sim_libs =
  generator :: "int \<Rightarrow> string \<Rightarrow> string \<Rightarrow> 'g"
  unit_draw :: "'g \<Rightarrow> rat \<times> 'g"
  lognormal_draw :: "rat \<times> rat \<Rightarrow> 'g \<Rightarrow> int \<times> 'g"
  utf8 :: "string \<Rightarrow> int list"
  sha256 :: "int list \<Rightarrow> int list"
  float_sum :: "rat list \<Rightarrow> rat"
  float_sqrt :: "rat \<Rightarrow> rat"

definition byte_token_offset :: int where "byte_token_offset = 256"
definition mock_eos_token_id :: int where "mock_eos_token_id = 1"
definition first_content_token_id :: int where "first_content_token_id = byte_token_offset + 256"

record 'g sim_model =
  vocab_size :: int
  rng_seed :: int
  request_cache :: "(string \<times> 'g) list"
  stream_cache :: "(string \<times> 'g) list"
  output_length_policy :: string
  content_policy :: string
  output_length_fixed :: int
  output_length_range :: "int \<times> int"
  output_length_lognormal :: "rat \<times> rat"
  spec_acceptance_rate :: rat
  planned_lengths :: "(string \<times> int) list"
  request_seeds :: "(string \<times> int) list"
  request_eos :: "(string \<times> int) list"
  constrained_plans :: "(string \<times> int list) list"

section \<open>Generators\<close>

text \<open>
  The request's stream, cached; a draw moves it in place. The other generators are functions of
  their key.
\<close>

definition for_request :: "'g sim_libs \<Rightarrow> string \<Rightarrow> 'g sim_model \<Rightarrow> 'g \<times> 'g sim_model" where
  "for_request L rid m =
     (case map_of (request_cache m) rid of
        Some g \<Rightarrow> (g, m)
      | None \<Rightarrow> let g = generator L (rng_seed m) ''request'' rid
                in (g, m\<lparr>request_cache := AList.update rid g (request_cache m)\<rparr>))"

definition drew :: "string \<Rightarrow> 'g \<Rightarrow> 'g sim_model \<Rightarrow> 'g sim_model" where
  "drew rid g m = m\<lparr>request_cache := AList.update rid g (request_cache m)\<rparr>"

definition for_position :: "'g sim_libs \<Rightarrow> string \<Rightarrow> nat \<Rightarrow> int option \<Rightarrow> 'g sim_model \<Rightarrow> 'g" where
  "for_position L rid pos sd m =
     (case sd of
        None \<Rightarrow> generator L (rng_seed m) ''position'' (rid @ '':'' @ show_nat pos)
      | Some s \<Rightarrow> generator L s ''seeded-position'' (show_nat pos))"

definition for_constraint :: "'g sim_libs \<Rightarrow> string \<Rightarrow> 'g sim_model \<Rightarrow> 'g" where
  "for_constraint L rid m = generator L (rng_seed m) ''constraint'' rid"

definition for_seeded_length :: "'g sim_libs \<Rightarrow> int \<Rightarrow> 'g" where
  "for_seeded_length L s = generator L s ''seeded-length'' ''''"

definition rng_stream :: "'g sim_libs \<Rightarrow> string \<Rightarrow> 'g sim_model \<Rightarrow> 'g \<times> 'g sim_model" where
  "rng_stream L name m =
     (case map_of (stream_cache m) name of
        Some g \<Rightarrow> (g, m)
      | None \<Rightarrow> let g = generator L (rng_seed m) ''stream'' name
                in (g, m\<lparr>stream_cache := AList.update name g (stream_cache m)\<rparr>))"

section \<open>What a request is bound to\<close>

definition set_constraint ::
  "'g sim_libs \<Rightarrow> 'g py_libs \<Rightarrow> string \<Rightarrow> string \<Rightarrow> string \<Rightarrow> 'g sim_model \<Rightarrow> (int list \<times> 'g sim_model) result" where
  "set_constraint L W rid kind spec m =
     (case map_of (constrained_plans m) rid of
        Some plan \<Rightarrow> Inr (plan, m)
      | None \<Rightarrow>
          rbind (generate_for_constraint W kind spec (for_constraint L rid m)) (\<lambda>(t, g).
          let plan = map (\<lambda>b. byte_token_offset + b) (utf8 L t)
          in if plan \<noteq> [] \<and> vocab_size m \<le> Max (set plan) then Inl ValueError
             else Inr (plan, m\<lparr>constrained_plans := AList.update rid plan (constrained_plans m)\<rparr>)))"

definition set_request_eos :: "string \<Rightarrow> int option \<Rightarrow> 'g sim_model \<Rightarrow> 'g sim_model" where
  "set_request_eos rid eos m =
     (case eos of None \<Rightarrow> m | Some e \<Rightarrow> m\<lparr>request_eos := AList.update rid e (request_eos m)\<rparr>)"

definition set_request_seed :: "string \<Rightarrow> int option \<Rightarrow> 'g sim_model \<Rightarrow> 'g sim_model" where
  "set_request_seed rid sd m =
     (case sd of None \<Rightarrow> m | Some s \<Rightarrow> m\<lparr>request_seeds := AList.update rid s (request_seeds m)\<rparr>)"

definition forget_request :: "string \<Rightarrow> 'g sim_model \<Rightarrow> 'g sim_model" where
  "forget_request rid m =
     m\<lparr>constrained_plans := AList.delete rid (constrained_plans m), planned_lengths := AList.delete rid (planned_lengths m),
       request_eos := AList.delete rid (request_eos m), request_seeds := AList.delete rid (request_seeds m),
       request_cache := AList.delete rid (request_cache m)\<rparr>"

section \<open>Length and tokens\<close>

text \<open>The length by the policy of the deployment, and the generator after the draw.\<close>

definition policy_length :: "'g sim_libs \<Rightarrow> 'g py_libs \<Rightarrow> int \<Rightarrow> 'g \<Rightarrow> 'g sim_model \<Rightarrow> (int \<times> 'g) result" where
  "policy_length L W cap g m =
     (if output_length_policy m = ''from_request'' then Inr (cap, g)
      else if output_length_policy m = ''fixed'' then Inr (output_length_fixed m, g)
      else if output_length_policy m = ''uniform'' then
        draw W (fst (output_length_range m)) (snd (output_length_range m) + 1) g
      else if output_length_policy m = ''lognormal'' then Inr (lognormal_draw L (output_length_lognormal m) g)
      else if output_length_policy m = ''from_fixture'' then Inl NotImplementedError
      else Inl ValueError)"

definition planned_output_length ::
  "'g sim_libs \<Rightarrow> 'g py_libs \<Rightarrow> string \<Rightarrow> int \<Rightarrow> 'g sim_model \<Rightarrow> (int \<times> 'g sim_model) result" where
  "planned_output_length L W rid cap m =
     (case map_of (planned_lengths m) rid of
        Some n \<Rightarrow> Inr (n, m)
      | None \<Rightarrow>
          (case map_of (constrained_plans m) rid of
             Some plan \<Rightarrow>
               let n = min (int (length plan) + 1) cap
               in Inr (n, m\<lparr>planned_lengths := AList.update rid n (planned_lengths m)\<rparr>)
           | None \<Rightarrow>
               let sd = map_of (request_seeds m) rid;
                   (g, m1) = (case sd of None \<Rightarrow> for_request L rid m | Some s \<Rightarrow> (for_seeded_length L s, m))
               in rbind (policy_length L W cap g m1) (\<lambda>(n0, g').
                  let m2 = (if sd = None then drew rid g' m1 else m1);
                      n = max 1 (min n0 cap)
                  in Inr (n, m2\<lparr>planned_lengths := AList.update rid n (planned_lengths m2)\<rparr>))))"

definition sample_token ::
  "'g sim_libs \<Rightarrow> 'g py_libs \<Rightarrow> string \<Rightarrow> nat \<Rightarrow> int \<Rightarrow> 'g sim_model \<Rightarrow> (int \<times> 'g sim_model) result" where
  "sample_token L W rid pos cap m =
     (let eos = (case map_of (request_eos m) rid of None \<Rightarrow> mock_eos_token_id | Some e \<Rightarrow> e) in
      case map_of (constrained_plans m) rid of
        Some plan \<Rightarrow> Inr (if length plan \<le> pos then eos else plan ! pos, m)
      | None \<Rightarrow>
          rbind (planned_output_length L W rid cap m) (\<lambda>(planned, m1).
          if planned < cap \<and> planned \<le> int pos + 1 then Inr (eos, m1)
          else
            let g = for_position L rid pos (map_of (request_seeds m1) rid) m1
            in if content_policy m1 = ''pseudoword'' then
                 rbind (draw W first_content_token_id (max (first_content_token_id + 1) (vocab_size m1)) g) (\<lambda>(t, g').
                 Inr (t, m1))
               else if content_policy m1 \<in> {''echo'', ''fixture''} then Inl NotImplementedError
               else Inl ValueError))"

text \<open>The tokens at consecutive positions.\<close>

primrec sample_run :: "'g sim_libs \<Rightarrow> 'g py_libs \<Rightarrow> string \<Rightarrow> nat list \<Rightarrow> int \<Rightarrow> 'g sim_model \<Rightarrow> (int list \<times> 'g sim_model) result" where
  "sample_run L W rid [] cap m = Inr ([], m)"
| "sample_run L W rid (i # is) cap m =
     rbind (sample_token L W rid i cap m) (\<lambda>(t, m1).
     rbind (sample_run L W rid is cap m1) (\<lambda>(ts, m2). Inr (t # ts, m2)))"

section \<open>Pooling\<close>

text \<open>\<open>int.to_bytes(4, "little")\<close>.\<close>

definition to_bytes4_le :: "int \<Rightarrow> int list result" where
  "to_bytes4_le t =
     (if t < 0 \<or> 2 ^ 32 \<le> t then Inl OverflowError
      else Inr [t mod 256, t div 256 mod 256, t div 256 ^ 2 mod 256, t div 256 ^ 3])"

definition byte_component :: "int \<Rightarrow> rat" where
  "byte_component b = double_of (double_of (of_int b / 255) - 1 / 2)"

text \<open>
  The digest is expanded block by block. A loop that got an empty block would not end; a digest of
  32 bytes is never empty.
\<close>

function expand_digest :: "'g sim_libs \<Rightarrow> int list \<Rightarrow> int \<Rightarrow> int \<Rightarrow> rat list \<Rightarrow> rat list result" where
  "expand_digest L dig dims counter raw =
     (if int (length raw) < dims then
        rbind (to_bytes4_le counter) (\<lambda>c.
        if sha256 L (dig @ c) = [] then Inl RecursionError
        else expand_digest L dig dims (counter + 1) (raw @ map byte_component (sha256 L (dig @ c))))
      else Inr raw)"
  by pat_completeness auto

termination
  by (relation "measure (\<lambda>(L, dig, dims, counter, raw). nat (dims - int (length raw)))") auto

declare expand_digest.simps [simp del]

definition embed :: "'g sim_libs \<Rightarrow> int list \<Rightarrow> int \<Rightarrow> rat list result" where
  "embed L prompt dims =
     rbind (mapE to_bytes4_le prompt) (\<lambda>bs.
     let dig = sha256 L (map of_char ''embed'' @ concat bs)
     in rbind (expand_digest L dig dims 0 []) (\<lambda>raw.
     let vector = take (nat dims) raw; root = float_sqrt L (float_sum L (map (\<lambda>x. double_of (x * x)) vector));
         norm = (if root = 0 then 1 else root)
     in Inr (map (\<lambda>x. double_of (x / norm)) vector)))"

definition digests :: "'g sim_libs \<Rightarrow> bool" where
  "digests L \<longleftrightarrow> (\<forall>bs. length (sha256 L bs) = 32)"

definition fits_bytes :: "int \<Rightarrow> bool" where
  "fits_bytes t \<longleftrightarrow> 0 \<le> t \<and> t < 2 ^ 32"

lemma to_bytes4_le_ok: "fits_bytes t \<Longrightarrow> \<exists>bs. to_bytes4_le t = Inr bs"
  by (simp add: fits_bytes_def to_bytes4_le_def)

lemma mapE_all: "\<forall>x\<in>set xs. \<exists>y. f x = Inr y \<Longrightarrow> \<exists>ys. mapE f xs = Inr ys"
  by (induction xs) auto

lemma expand_digest_ok:
  assumes "digests L" and "dims \<le> 2 ^ 32"
  shows "0 \<le> counter \<Longrightarrow> 32 * counter \<le> int (length raw) \<Longrightarrow>
    \<exists>raw'. expand_digest L dig dims counter raw = Inr raw' \<and> dims \<le> int (length raw')"
  using assms
proof (induction L dig dims counter raw rule: expand_digest.induct)
  case (1 L dig dims counter raw)
  show ?case
  proof (cases "int (length raw) < dims")
    case True
    have "fits_bytes counter" using True "1.prems" by (simp add: fits_bytes_def)
    then obtain cb where c: "to_bytes4_le counter = Inr cb" using to_bytes4_le_ok by blast
    let ?block = "sha256 L (dig @ cb)"
    have len: "length ?block = 32" using "1.prems"(3) by (simp add: digests_def)
    then have ne: "?block \<noteq> []" by auto
    have "\<exists>raw'. expand_digest L dig dims (counter + 1) (raw @ map byte_component ?block) = Inr raw' \<and> dims \<le> int (length raw')"
      by (rule "1.IH" [OF True c ne]) (use "1.prems" len in simp_all)
    then show ?thesis using True c ne by (subst expand_digest.simps) simp
  next
    case False
    then show ?thesis by (subst expand_digest.simps) simp
  qed
qed

lemma embed_ok:
  assumes "digests L" and "dims \<le> 2 ^ 32" and "\<forall>t\<in>set prompt. fits_bytes t"
  shows "\<exists>v. embed L prompt dims = Inr v \<and> length v = nat dims"
proof -
  obtain bs where bs: "mapE to_bytes4_le prompt = Inr bs" using mapE_all [of prompt to_bytes4_le] assms(3) to_bytes4_le_ok by blast
  obtain raw where "expand_digest L (sha256 L (map of_char ''embed'' @ concat bs)) dims 0 [] = Inr raw" "dims \<le> int (length raw)"
    using expand_digest_ok [OF assms(1,2), of 0 "[]"] by auto
  then show ?thesis using bs by (auto simp: embed_def Let_def)
qed

lemma embed_overflow:
  assumes "t \<in> set prompt" and "\<not> fits_bytes t"
  shows "embed L prompt dims = Inl OverflowError"
proof -
  have "mapE to_bytes4_le prompt = Inl OverflowError" using assms(1)
    by (induction prompt) (use assms(2) in \<open>auto simp: to_bytes4_le_def fits_bytes_def\<close>)
  then show ?thesis by (simp add: embed_def)
qed

section \<open>Speculation\<close>

text \<open>Draws until one is rejected.\<close>

primrec accept_loop :: "'g sim_libs \<Rightarrow> rat \<Rightarrow> nat \<Rightarrow> 'g \<Rightarrow> nat \<times> 'g" where
  "accept_loop L rate 0 g = (0, g)"
| "accept_loop L rate (Suc n) g =
     (let (u, g1) = unit_draw L g
      in if rate \<le> u then (0, g1) else (let (k, g2) = accept_loop L rate n g1 in (Suc k, g2)))"

definition accepted_draft_count :: "'g sim_libs \<Rightarrow> string \<Rightarrow> nat \<Rightarrow> 'g sim_model \<Rightarrow> nat \<times> 'g sim_model" where
  "accepted_draft_count L rid n m =
     (if n = 0 \<or> spec_acceptance_rate m \<le> 0 then (0, m)
      else
        let (g, m1) = for_request L rid m; (k, g') = accept_loop L (spec_acceptance_rate m1) n g
        in (k, drew rid g' m1))"

definition propose_drafts ::
  "'g sim_libs \<Rightarrow> 'g py_libs \<Rightarrow> string \<Rightarrow> nat \<Rightarrow> nat \<Rightarrow> int \<Rightarrow> 'g sim_model \<Rightarrow> (int list \<times> 'g sim_model) result" where
  "propose_drafts L W rid pos n cap m =
     (if n = 0 then Inr ([], m)
      else
        rbind (planned_output_length L W rid cap m) (\<lambda>(planned, m1).
        sample_run L W rid (filter (\<lambda>p. int p < planned) (map (\<lambda>k. pos + k) [1..<Suc n])) cap m1))"

text \<open>
  What \<open>sample_tokens\<close> of the model runner does for one request: verify the drafts the step carried,
  sample the accepted positions and one more, then draft for the next step.
\<close>

definition emit_tokens ::
  "'g sim_libs \<Rightarrow> 'g py_libs \<Rightarrow> string \<Rightarrow> nat \<Rightarrow> nat \<Rightarrow> nat \<Rightarrow> int \<Rightarrow> 'g sim_model \<Rightarrow>
   (int list \<times> int list \<times> 'g sim_model) result" where
  "emit_tokens L W rid pos num_drafts num_spec cap m =
     (let (k, m1) = accepted_draft_count L rid num_drafts m
      in rbind (sample_run L W rid [pos..<pos + (k + 1)] cap m1) (\<lambda>(ts, m2).
         rbind (propose_drafts L W rid (pos + length ts - 1) num_spec cap m2) (\<lambda>(ds, m3). Inr (ts, ds, m3))))"

section \<open>Speculation changes when tokens come, not which\<close>

text \<open>Two states from which a request's tokens are drawn alike, whatever else happened to them.\<close>

definition same_source :: "string \<Rightarrow> 'g sim_model \<Rightarrow> 'g sim_model \<Rightarrow> bool" where
  "same_source rid m m' \<longleftrightarrow>
     map_of (planned_lengths m') rid = map_of (planned_lengths m) rid \<and>
     map_of (constrained_plans m') rid = map_of (constrained_plans m) rid \<and>
     map_of (request_seeds m') rid = map_of (request_seeds m) rid \<and> map_of (request_eos m') rid = map_of (request_eos m) rid \<and>
     rng_seed m' = rng_seed m \<and> content_policy m' = content_policy m \<and> vocab_size m' = vocab_size m"

text \<open>The length is decided, and the content policy is the one that is implemented.\<close>

definition settled :: "string \<Rightarrow> 'g sim_model \<Rightarrow> bool" where
  "settled rid m \<longleftrightarrow> map_of (planned_lengths m) rid \<noteq> None \<and>
     (map_of (constrained_plans m) rid \<noteq> None \<or> content_policy m = ''pseudoword'')"

definition token_at :: "'g sim_libs \<Rightarrow> 'g py_libs \<Rightarrow> string \<Rightarrow> int \<Rightarrow> 'g sim_model \<Rightarrow> nat \<Rightarrow> int" where
  "token_at L W rid cap m p = fst (projr (sample_token L W rid p cap m))"

lemma same_source_refl [simp]: "same_source rid m m"
  by (simp add: same_source_def)

lemma same_source_trans: "same_source rid a b \<Longrightarrow> same_source rid b c \<Longrightarrow> same_source rid a c"
  by (simp add: same_source_def)

lemma settled_same: "same_source rid m m' \<Longrightarrow> settled rid m \<Longrightarrow> settled rid m'"
  by (simp add: same_source_def settled_def)

lemma sample_settled:
  assumes s: "settled rid m" and same: "same_source rid m m'"
  shows "sample_token L W rid p cap m' = Inr (token_at L W rid cap m p, m')"
proof -
  have sample: "\<exists>t. sample_token L W rid p cap x = Inr (t, x)" if sx: "settled rid x" for x :: "'a sim_model"
  proof (cases "map_of (constrained_plans x) rid")
    case None
    then have ps: "content_policy x = ''pseudoword''" using sx by (simp add: settled_def)
    obtain n where n: "map_of (planned_lengths x) rid = Some n" using sx by (auto simp: settled_def)
    have plan: "planned_output_length L W rid cap x = Inr (n, x)" using n by (simp add: planned_output_length_def)
    show ?thesis
      unfolding sample_token_def Let_def None option.case plan rbind_Inr prod.case ps
      by (simp add: draw_def split_beta)
  qed (simp add: sample_token_def Let_def)
  have "map_sum id fst (sample_token L W rid p cap m') = map_sum id fst (sample_token L W rid p cap m)"
  proof (cases "map_of (constrained_plans m) rid")
    case None
    obtain n where n: "map_of (planned_lengths m) rid = Some n" using s by (auto simp: settled_def)
    have e: "map_of (planned_lengths m') rid = Some n" "map_of (constrained_plans m') rid = None"
      "map_of (request_seeds m') rid = map_of (request_seeds m) rid" "map_of (request_eos m') rid = map_of (request_eos m) rid"
      "rng_seed m' = rng_seed m" "content_policy m' = content_policy m" "vocab_size m' = vocab_size m"
      using same n None by (simp_all add: same_source_def)
    have pos: "for_position L rid p sd m' = for_position L rid p sd m" for sd
      using e(5) by (simp add: for_position_def split: option.split)
    have plan: "planned_output_length L W rid cap m = Inr (n, m)" "planned_output_length L W rid cap m' = Inr (n, m')"
      using n e(1) by (simp_all add: planned_output_length_def)
    show ?thesis
      unfolding sample_token_def Let_def None e(2) option.case plan rbind_Inr prod.case e(3,4,6,7) pos
      by (simp add: draw_def split_beta)
  next
    case (Some plan)
    then show ?thesis using same by (simp add: sample_token_def Let_def same_source_def)
  qed
  moreover obtain t t' where t: "sample_token L W rid p cap m = Inr (t, m)" "sample_token L W rid p cap m' = Inr (t', m')"
    using sample [OF s] sample [OF settled_same [OF same s]] by blast
  ultimately show ?thesis by (simp add: token_at_def)
qed

lemma sample_run_settled:
  "settled rid m \<Longrightarrow> same_source rid m m' \<Longrightarrow> sample_run L W rid is cap m' = Inr (map (token_at L W rid cap m) is, m')"
  by (induction "is") (simp_all add: sample_settled)

lemma accepted_same: "same_source rid m (snd (accepted_draft_count L x n m))"
  by (simp add: accepted_draft_count_def for_request_def drew_def same_source_def Let_def split_beta split: option.split)

lemma emit_settled:
  assumes s: "settled rid m" and same: "same_source rid m m'"
  shows "\<exists>k ds m2. emit_tokens L W rid pos num_drafts num_spec cap m' =
      Inr (map (token_at L W rid cap m) [pos..<pos + (k + 1)], ds, m2) \<and> same_source rid m m2"
proof -
  obtain k m1 where a: "accepted_draft_count L rid num_drafts m' = (k, m1)" by (cases "accepted_draft_count L rid num_drafts m'")
  have s1: "same_source rid m m1" using same_source_trans [OF same] accepted_same [of rid m' L rid num_drafts] a by simp
  have run: "sample_run L W rid is cap m1 = Inr (map (token_at L W rid cap m) is, m1)" for "is"
    by (rule sample_run_settled [OF s s1])
  obtain n where "map_of (planned_lengths m1) rid = Some n" using settled_same [OF s1 s] by (auto simp: settled_def)
  then have "\<exists>ds. propose_drafts L W rid q num_spec cap m1 = Inr (ds, m1)" for q
    by (simp add: propose_drafts_def planned_output_length_def run)
  then obtain ds where "propose_drafts L W rid (pos + length (map (token_at L W rid cap m) [pos..<pos + (k + 1)]) - 1) num_spec cap m1 = Inr (ds, m1)"
    by blast
  then show ?thesis using s1 unfolding emit_tokens_def a prod.case Let_def run rbind_Inr by auto
qed

text \<open>The tokens of a request over steps that carry these numbers of drafts.\<close>

primrec emit_steps ::
  "'g sim_libs \<Rightarrow> 'g py_libs \<Rightarrow> string \<Rightarrow> nat \<Rightarrow> nat list \<Rightarrow> nat \<Rightarrow> int \<Rightarrow> 'g sim_model \<Rightarrow> (int list \<times> 'g sim_model) result" where
  "emit_steps L W rid pos [] num_spec cap m = Inr ([], m)"
| "emit_steps L W rid pos (n # ns) num_spec cap m =
     rbind (emit_tokens L W rid pos n num_spec cap m) (\<lambda>(ts, ds, m1).
     rbind (emit_steps L W rid (pos + length ts) ns num_spec cap m1) (\<lambda>(rest, m2). Inr (ts @ rest, m2)))"

lemma emit_steps_settled:
  assumes "settled rid m" and "same_source rid m m'"
  shows "\<exists>k m2. emit_steps L W rid pos ns num_spec cap m' = Inr (map (token_at L W rid cap m) [pos..<pos + k], m2) \<and> length ns \<le> k"
  using assms(2)
proof (induction ns arbitrary: pos m')
  case Nil
  have "emit_steps L W rid pos [] num_spec cap m' = Inr (map (token_at L W rid cap m) [pos..<pos + 0], m')" by simp
  then show ?case by (intro exI conjI) (assumption, simp)
next
  case (Cons n ns)
  from emit_settled [OF assms(1) Cons.prems, of L W pos n num_spec cap] obtain k ds m1 where
    E: "emit_tokens L W rid pos n num_spec cap m' = Inr (map (token_at L W rid cap m) [pos..<pos + (k + 1)], ds, m1)"
    "same_source rid m m1" by blast
  from Cons.IH [OF E(2), of "pos + (k + 1)"] obtain j m2 where
    I: "emit_steps L W rid (pos + (k + 1)) ns num_spec cap m1 = Inr (map (token_at L W rid cap m) [pos + (k + 1)..<pos + (k + 1) + j], m2)"
    "length ns \<le> j" by blast
  have "[pos..<pos + (k + 1 + j)] = [pos..<pos + (k + 1)] @ [pos + (k + 1)..<pos + (k + 1) + j]"
    by (metis add.assoc le_add1 upt_add_eq_append)
  then have "emit_steps L W rid pos (n # ns) num_spec cap m' = Inr (map (token_at L W rid cap m) [pos..<pos + (k + 1 + j)], m2)"
    using E(1) I(1) by simp
  moreover have "length (n # ns) \<le> k + 1 + j" using I(2) by simp
  ultimately show ?case by blast
qed

text \<open>The first step carries no draft; it decides the length.\<close>

lemma first_step_decides:
  assumes free: "map_of (constrained_plans m) rid = None" and P: "planned_output_length L W rid cap m = Inr (n, m1)"
  shows "emit_steps L W rid pos (0 # ns) num_spec cap m = emit_steps L W rid pos (0 # ns) num_spec cap m1"
    and "map_of (planned_lengths m1) rid \<noteq> None" and "content_policy m1 = content_policy m"
    and "map_of (constrained_plans m1) rid = None"
proof -
  show p: "map_of (planned_lengths m1) rid \<noteq> None" and c: "content_policy m1 = content_policy m"
    and f: "map_of (constrained_plans m1) rid = None"
    using P free by (auto simp: planned_output_length_def Let_def split_beta rbind_eq_Inr_iff update_conv' for_request_def drew_def
      split: option.splits if_splits)
  obtain k where "map_of (planned_lengths m1) rid = Some k" using p by blast
  moreover have "k = n"
    using P free calculation by (auto simp: planned_output_length_def Let_def split_beta rbind_eq_Inr_iff update_conv' split: option.splits)
  ultimately have P1: "planned_output_length L W rid cap m1 = Inr (n, m1)" by (simp add: planned_output_length_def)
  have e: "map_of (request_eos m1) rid = map_of (request_eos m) rid"
    using P free by (auto simp: planned_output_length_def Let_def split_beta rbind_eq_Inr_iff for_request_def drew_def
      split: option.splits if_splits)
  have "sample_token L W rid pos cap m = sample_token L W rid pos cap m1"
    unfolding sample_token_def Let_def free f option.case P P1 rbind_Inr prod.case e ..
  then show "emit_steps L W rid pos (0 # ns) num_spec cap m = emit_steps L W rid pos (0 # ns) num_spec cap m1"
    by (simp add: emit_tokens_def accepted_draft_count_def)
qed

lemma spec_lossless:
  assumes "map_of (constrained_plans m) rid = None" and "content_policy m = ''pseudoword''"
    and "planned_output_length L W rid cap m = Inr (n, m1)"
  shows "\<exists>ts us m2 m3. emit_steps L W rid pos (0 # ns) spec cap m = Inr (ts, m2) \<and>
    emit_steps L W rid pos (0 # ns') spec' cap m = Inr (us, m3) \<and> length ns < length ts \<and> length ns' < length us \<and>
    (prefix ts us \<or> prefix us ts)"
proof -
  note F = first_step_decides [OF assms(1,3)]
  have "settled rid m1" using F assms(2) by (simp add: settled_def)
  note E = emit_steps_settled [OF this same_source_refl, of L W pos _ _ cap]
  obtain k m2 where A: "emit_steps L W rid pos (0 # ns) spec cap m1 = Inr (map (token_at L W rid cap m1) [pos..<pos + k], m2)"
    "length (0 # ns) \<le> k" using E by blast
  obtain j m3 where B: "emit_steps L W rid pos (0 # ns') spec' cap m1 = Inr (map (token_at L W rid cap m1) [pos..<pos + j], m3)"
    "length (0 # ns') \<le> j" using E by blast
  have up: "prefix (map f [pos..<pos + a]) (map f [pos..<pos + b])" if "a \<le> b" for a b and f :: "nat \<Rightarrow> int"
  proof -
    have "[pos..<pos + b] = [pos..<pos + a] @ [pos + a..<pos + b]" using upt_add_eq_append [of pos "pos + a" "b - a"] that by simp
    then show ?thesis by simp
  qed
  then show ?thesis using A B F(1) by (cases "k \<le> j") auto
qed

end
