(* ===== verification/OutputExamples.thy ===== *)
theory OutputExamples
  imports EngineExamples OutputProcessor SimModel
begin

text \<open>
  Concrete objects for the way of tokens to the client and for the token generator: a tokenizer whose
  tokens are characters, a request with a stop string, the two completions of a request for two, and
  a model that has decided a request's length.
\<close>

section \<open>A tokenizer\<close>

definition ex_tok :: tokenizer where
  "ex_tok = \<lparr>vocab_len = 300, ids_to_tokens = (\<lambda>ids skip. map (\<lambda>i. [i]) ids), tokens_to_text = concat\<rparr>"

definition ex_stop_params :: api_params where
  "ex_stop_params = ex_api\<lparr>stop := [''end'']\<rparr>"

lemma ex_stop_params: "'''' \<notin> set (stop ex_stop_params)" "0 \<le> min_tokens ex_stop_params"
  by (simp_all add: ex_stop_params_def ex_api_def)

definition ex_detok :: detokenizer where "ex_detok = detokenizer_init ex_tok [72, 105] ex_stop_params"

lemma ex_detok: "dt_ok ex_detok"
  unfolding ex_detok_def by (rule detokenizer_init_ok(1) [OF ex_stop_params])

section \<open>Two completions\<close>

definition ex_two :: api_params where "ex_two = ex_api\<lparr>n_choices := 2, output_kind := CUMULATIVE\<rparr>"

definition ex_answer_of :: "nat \<Rightarrow> finish_reason option \<Rightarrow> nat \<times> completion_output" where
  "ex_answer_of i why = (i, \<lparr>co_index = int i, co_text = [97], co_token_ids = [97], co_finish_reason = why, co_stop_reason = None\<rparr>)"

definition ex_answers :: "(nat \<times> completion_output) list" where
  "ex_answers = [ex_answer_of 1 None, ex_answer_of 1 (Some LENGTH), ex_answer_of 0 (Some STOP)]"

lemma ex_answers:
  "output_kind ex_two \<noteq> DELTA" "fst ` set ex_answers = {0..<nat (n_choices ex_two)}" "ex_answers \<noteq> []"
  "\<forall>(i, c)\<in>set ex_answers. co_index c = int i" "each_finishes_once ex_answers"
  by (auto simp: ex_two_def ex_api_def ex_answers_def ex_answer_of_def each_finishes_once_Cons) (simp add: each_finishes_once_def)

section \<open>A model that drafts\<close>

definition ex_sim_libs :: "int sim_libs" where
  "ex_sim_libs = \<lparr>generator = (\<lambda>s space key. s + int (length space) + 3 * int (length key)), unit_draw = (\<lambda>g. (of_int (g mod 2), g + 1)),
     lognormal_draw = (\<lambda>par g. (7, g + 1)), utf8 = map (\<lambda>c. int (of_char c)),
     sha256 = (\<lambda>bs. replicate 32 (sum_list bs mod 256)), float_sum = sum_list, float_sqrt = (\<lambda>x. 1)\<rparr>"

definition ex_sim :: "int sim_model" where
  "ex_sim = \<lparr>vocab_size = 1000, rng_seed = 0, request_cache = [], stream_cache = [], output_length_policy = ''fixed'',
     content_policy = ''pseudoword'', output_length_fixed = 6, output_length_range = (1, 9), output_length_lognormal = (3, 1),
     spec_acceptance_rate = 1 / 2, planned_lengths = [(''a'', 6)], request_seeds = [(''a'', 5)], request_eos = [],
     constrained_plans = []\<rparr>"

lemma ex_sim: "settled ''a'' ex_sim"
  by (simp add: settled_def ex_sim_def)

end
