(* ===== verification/Worker.thy ===== *)
theory Worker
  imports Scheduler SimModel
begin

text \<open>
  \<open>v1/worker/gpu/states.py\<close>, \<open>block_table.py\<close>, \<open>input_batch.py\<close>, \<open>attn_utils.build_attn_metadata\<close>
  and \<open>model_runner.py\<close>: the persistent batch of the worker, its block tables with the slot mapping
  and its checks, and a step of the model runner.

  A numpy array indexed by slot is a list of \<open>max_num_reqs\<close> entries; a two-dimensional one is a list
  of rows. The arrays are of 32-bit integers: an integer of Python's that is stored in one must fit or
  \<open>OverflowError\<close> is raised (\<open>store32\<close>), arithmetic on their entries wraps around (\<open>wrap32\<close>). Positions
  and slot mappings are 64-bit, and their values stay far inside.
\<close>

section \<open>32-bit integers\<close>

definition fits32 :: "int \<Rightarrow> bool" where
  "fits32 n \<longleftrightarrow> - (2 ^ 31) \<le> n \<and> n < 2 ^ 31"

definition store32 :: "int \<Rightarrow> int result" where
  "store32 n = (if fits32 n then Inr n else Inl OverflowError)"

definition wrap32 :: "int \<Rightarrow> int" where
  "wrap32 n = (n + 2 ^ 31) mod 2 ^ 32 - 2 ^ 31"

lemma wrap32_fits [simp]: "fits32 n \<Longrightarrow> wrap32 n = n"
  by (simp add: fits32_def wrap32_def)

lemma store32_ok [simp]: "fits32 n \<Longrightarrow> store32 n = Inr n"
  by (simp add: store32_def)

lemma fits32_between: "fits32 a \<Longrightarrow> fits32 b \<Longrightarrow> a \<le> n \<Longrightarrow> n \<le> b \<Longrightarrow> fits32 n"
  by (simp add: fits32_def)

section \<open>Persistent request state\<close>

record worker_states =
  ws_index :: "(string \<times> nat) list" \<comment> \<open>\<open>req_id_to_index\<close>\<close>
  ws_ids :: "(nat \<times> string) list" \<comment> \<open>\<open>index_to_req_id\<close>\<close>
  free_indices :: "nat list"
  ws_prompt_len :: "int list"
  ws_prefill_len :: "int list"
  ws_total_len :: "int list"
  ws_num_computed_tokens :: "int list"
  ws_num_computed_prefill_tokens :: "int list"
  ws_max_seq_len :: "int list"
  ws_num_output_tokens :: "int list"
  ws_mm_features :: "(string \<times> mm_feature list) list"
  ws_token_ids :: "(nat \<times> int list) list" \<comment> \<open>\<open>all_token_ids\<close>\<close>

definition worker_states_init :: "nat \<Rightarrow> worker_states" where
  "worker_states_init n =
     \<lparr>ws_index = [], ws_ids = [], free_indices = [0..<n], ws_prompt_len = replicate n 0, ws_prefill_len = replicate n 0,
      ws_total_len = replicate n 0, ws_num_computed_tokens = replicate n 0,
      ws_num_computed_prefill_tokens = replicate n 0, ws_max_seq_len = replicate n 0,
      ws_num_output_tokens = replicate n 0, ws_mm_features = [], ws_token_ids = []\<rparr>"

definition ws_add_request :: "string \<Rightarrow> int \<Rightarrow> int list \<Rightarrow> int \<Rightarrow> int \<Rightarrow> worker_states \<Rightarrow> (nat \<times> worker_states) result" where
  "ws_add_request rid prompt toks computed max_toks ws =
     (if free_indices ws = [] then Inl RuntimeError
      else
        let i = last (free_indices ws); prefill = int (length toks)
        in if prefill < prompt then Inl AssertionError
           else if \<not> list_all fits32 [prompt, prefill, computed, prompt + max_toks, max 0 (prefill - prompt)]
           then Inl OverflowError
           else Inr (i, ws\<lparr>free_indices := butlast (free_indices ws),
                 ws_index := AList.update rid i (ws_index ws), ws_ids := AList.update i rid (ws_ids ws),
                 ws_prompt_len := (ws_prompt_len ws)[i := prompt], ws_prefill_len := (ws_prefill_len ws)[i := prefill],
                 ws_total_len := (ws_total_len ws)[i := prefill],
                 ws_num_computed_tokens := (ws_num_computed_tokens ws)[i := computed],
                 ws_num_computed_prefill_tokens := (ws_num_computed_prefill_tokens ws)[i := computed],
                 ws_max_seq_len := (ws_max_seq_len ws)[i := prompt + max_toks],
                 ws_num_output_tokens := (ws_num_output_tokens ws)[i := max 0 (prefill - prompt)],
                 ws_token_ids := AList.update i toks (ws_token_ids ws)\<rparr>))"

text \<open>What \<open>append_tokens\<close> and \<open>set_num_computed_tokens\<close> write when the values fit.\<close>

definition with_tokens :: "nat \<Rightarrow> int list \<Rightarrow> int list \<Rightarrow> worker_states \<Rightarrow> worker_states" where
  "with_tokens i old toks ws =
     ws\<lparr>ws_token_ids := AList.update i (old @ toks) (ws_token_ids ws),
        ws_total_len := (ws_total_len ws)[i := wrap32 (ws_total_len ws ! i + int (length toks))],
        ws_num_output_tokens := (ws_num_output_tokens ws)[i := wrap32 (ws_num_output_tokens ws ! i + int (length toks))]\<rparr>"

definition append_tokens :: "nat \<Rightarrow> int list \<Rightarrow> worker_states \<Rightarrow> worker_states result" where
  "append_tokens i toks ws =
     (if toks = [] then Inr ws
      else case map_of (ws_token_ids ws) i of
        None \<Rightarrow> Inl KeyError
      | Some old \<Rightarrow> rbind (store32 (int (length toks))) (\<lambda>_. Inr (with_tokens i old toks ws)))"

definition with_computed :: "nat \<Rightarrow> int \<Rightarrow> worker_states \<Rightarrow> worker_states" where
  "with_computed i n ws =
     ws\<lparr>ws_num_computed_tokens := (ws_num_computed_tokens ws)[i := n],
        ws_num_computed_prefill_tokens := (ws_num_computed_prefill_tokens ws)[i := min n (ws_prefill_len ws ! i)]\<rparr>"

definition set_num_computed_tokens :: "nat \<Rightarrow> int \<Rightarrow> worker_states \<Rightarrow> worker_states result" where
  "set_num_computed_tokens i n ws = rbind (store32 n) (\<lambda>n. Inr (with_computed i n ws))"

definition ws_remove_request :: "string \<Rightarrow> worker_states \<Rightarrow> nat option \<times> worker_states" where
  "ws_remove_request rid ws =
     (case map_of (ws_index ws) rid of
        None \<Rightarrow> (None, ws)
      | Some i \<Rightarrow> (Some i, ws\<lparr>ws_index := AList.delete rid (ws_index ws), ws_ids := AList.delete i (ws_ids ws),
                             ws_token_ids := AList.delete i (ws_token_ids ws), free_indices := free_indices ws @ [i]\<rparr>))"

section \<open>Block tables\<close>

record block_tables =
  bt_caching :: bool
  windowed_groups :: "bool list"
  bt_block_sizes :: "int list"
  max_blocks_per_req :: "nat list"
  bt_tables :: "int list list list" \<comment> \<open>group, slot, position\<close>
  bt_num_blocks :: "nat list list"
  bt_debug :: bool \<comment> \<open>\<open>PVLLM_DEBUG_INVARIANTS\<close>\<close>

definition block_tables_init :: "int list \<Rightarrow> nat \<Rightarrow> int \<Rightarrow> bool \<Rightarrow> bool list \<Rightarrow> bool \<Rightarrow> block_tables" where
  "block_tables_init sizes n max_len caching windowed debug =
     (let most = map (\<lambda>b. nat ((max_len + b - 1) div b)) sizes
      in \<lparr>bt_caching = caching, windowed_groups = windowed, bt_block_sizes = sizes, max_blocks_per_req = most,
          bt_tables = map (\<lambda>m. replicate n (replicate m 0)) most,
          bt_num_blocks = replicate (length sizes) (replicate n 0), bt_debug = debug\<rparr>)"

text \<open>\<open>row[j : j + len(ids)] = ids\<close>.\<close>

definition write_at :: "nat \<Rightarrow> 'a list \<Rightarrow> 'a list \<Rightarrow> 'a list" where
  "write_at j ids row = take j row @ ids @ drop (j + length ids) row"

definition put_blocks :: "nat \<Rightarrow> nat \<Rightarrow> nat \<Rightarrow> int list \<Rightarrow> block_tables \<Rightarrow> block_tables" where
  "put_blocks g i j ids bt =
     bt\<lparr>bt_tables := (bt_tables bt)[g := (bt_tables bt ! g)[i := write_at j ids (bt_tables bt ! g ! i)]],
        bt_num_blocks := (bt_num_blocks bt)[g := (bt_num_blocks bt ! g)[i := j + length ids]]\<rparr>"

definition set_group_blocks :: "nat \<Rightarrow> nat \<times> int list \<Rightarrow> block_tables \<Rightarrow> block_tables result" where
  "set_group_blocks i gi bt =
     (case gi of (g, ids) \<Rightarrow>
        if length (max_blocks_per_req bt) \<le> g then Inl IndexError
        else if max_blocks_per_req bt ! g < length ids then Inl ValueError
        else if \<not> list_all fits32 ids \<or> \<not> fits32 (int (length ids)) then Inl OverflowError
        else Inr (put_blocks g i 0 ids bt))"

definition set_block_ids :: "nat \<Rightarrow> int list list \<Rightarrow> block_tables \<Rightarrow> block_tables result" where
  "set_block_ids i blocks bt = foldE (set_group_blocks i) (enumerate 0 blocks) bt"

definition append_group_blocks :: "nat \<Rightarrow> nat \<times> int list \<Rightarrow> block_tables \<Rightarrow> block_tables result" where
  "append_group_blocks i gi bt =
     (case gi of (g, ids) \<Rightarrow>
        if ids = [] then Inr bt
        else if length (bt_num_blocks bt) \<le> g then Inl IndexError
        else
          let j = bt_num_blocks bt ! g ! i
          in if max_blocks_per_req bt ! g < j + length ids then Inl ValueError
             else if \<not> list_all fits32 ids \<or> \<not> fits32 (int (j + length ids)) then Inl OverflowError
             else Inr (put_blocks g i j ids bt))"

definition append_block_ids :: "nat \<Rightarrow> int list list \<Rightarrow> block_tables \<Rightarrow> block_tables result" where
  "append_block_ids i blocks bt = foldE (append_group_blocks i) (enumerate 0 blocks) bt"

definition clear_row :: "nat \<Rightarrow> block_tables \<Rightarrow> block_tables" where
  "clear_row i bt = bt\<lparr>bt_num_blocks := map (\<lambda>row. row[i := 0]) (bt_num_blocks bt)\<rparr>"

definition bt_get_block_ids :: "nat \<Rightarrow> nat \<Rightarrow> block_tables \<Rightarrow> int list" where
  "bt_get_block_ids i g bt = take (bt_num_blocks bt ! g ! i) (bt_tables bt ! g ! i)"

definition gather :: "nat list \<Rightarrow> nat \<Rightarrow> block_tables \<Rightarrow> int list list" where
  "gather is g bt = map (\<lambda>i. bt_tables bt ! g ! i) is"

subsection \<open>Slot mapping\<close>

text \<open>
  The slots of one request's tokens, unless one lies past its blocks. The product of the block ids,
  an array of 32-bit integers, with the block size is of that type too.
\<close>

definition request_slots :: "nat \<Rightarrow> nat \<Rightarrow> int list \<Rightarrow> block_tables \<Rightarrow> int list result" where
  "request_slots g i ps bt =
     (let b = bt_block_sizes bt ! g
      in if ps = [] then Inr []
         else if int (bt_num_blocks bt ! g ! i) \<le> Max ((\<lambda>p. p div b) ` set ps) then Inl AssertionError
         else rbind (store32 b) (\<lambda>b.
              Inr (map (\<lambda>p. wrap32 (bt_tables bt ! g ! i ! nat (p div b) * b) + p mod b) ps)))"

text \<open>The rows of the batch: a request's slot and its positions, cut out by the offsets.\<close>

definition batch_rows :: "nat list \<Rightarrow> int list \<Rightarrow> nat list \<Rightarrow> (nat \<times> int list) list" where
  "batch_rows is ps starts =
     map (\<lambda>(k, i). (i, take (starts ! Suc k - starts ! k) (drop (starts ! k) ps))) (enumerate 0 is)"

definition row_slots :: "nat \<Rightarrow> block_tables \<Rightarrow> nat \<times> int list \<Rightarrow> (nat \<times> int list) result" where
  "row_slots g bt row =
     (case row of (i, ps) \<Rightarrow> rbind (request_slots g i ps bt) (\<lambda>slots. Inr (i, slots)))"

text \<open>The checks: no slot twice in a step, no block in the tables of two requests.\<close>

definition slots_distinct :: "(nat \<times> int list) list \<Rightarrow> bool" where
  "slots_distinct rows \<longleftrightarrow> distinct (filter (\<lambda>x. x \<noteq> -1) (concat (map snd rows)))"

definition group_slides :: "nat \<Rightarrow> block_tables \<Rightarrow> bool" where
  "group_slides g bt \<longleftrightarrow> g < length (windowed_groups bt) \<and> windowed_groups bt ! g"

definition block_ownership_ok :: "nat \<Rightarrow> block_tables \<Rightarrow> bool" where
  "block_ownership_ok g bt \<longleftrightarrow>
     (\<forall>i<length (bt_num_blocks bt ! g). \<forall>j<i. set (bt_get_block_ids i g bt) \<inter> set (bt_get_block_ids j g bt) = {})"

definition validate_slot_mapping :: "nat \<Rightarrow> (nat \<times> int list) list \<Rightarrow> block_tables \<Rightarrow> unit result" where
  "validate_slot_mapping g rows bt =
     (if \<not> slots_distinct rows then Inl AssertionError
      else if \<not> bt_caching bt \<and> \<not> group_slides g bt \<and> \<not> block_ownership_ok g bt then Inl AssertionError
      else Inr ())"

definition compute_slot_mapping :: "nat list \<Rightarrow> int list \<Rightarrow> nat list \<Rightarrow> nat \<Rightarrow> block_tables \<Rightarrow> int list result" where
  "compute_slot_mapping is ps starts g bt =
     (if length (bt_block_sizes bt) \<le> g then Inl IndexError
      else
        rbind (mapE (row_slots g bt) (batch_rows is ps starts)) (\<lambda>rows.
        rbind (if bt_debug bt then validate_slot_mapping g rows bt else Inr ()) (\<lambda>_.
        Inr (concat (map snd rows)))))"

section \<open>One step's input\<close>

record input_batch =
  ib_req_ids :: "string list"
  ib_idx_mapping :: "nat list"
  ib_num_scheduled_tokens :: "int list"
  ib_num_tokens :: int
  query_start_loc :: "nat list"
  seq_lens :: "int list"
  input_ids :: "int list"
  ib_positions :: "int list"
  ib_prefill_len :: "int list"
  ib_num_computed_prefill_tokens :: "int list"
  is_prefilling :: "bool list"
  logits_indices :: "int list"

text \<open>Decodes first, each part by request id.\<close>

definition sort_batch_req_ids :: "(string \<times> int) list \<Rightarrow> int \<Rightarrow> string list" where
  "sort_batch_req_ids ns decode_len =
     linorder_class.sort_key (\<lambda>rid. (decode_len < the (map_of ns rid), rid)) (map fst ns)"

text \<open>\<open>np.cumsum\<close> behind a zero.\<close>

primrec offsets :: "nat \<Rightarrow> nat list \<Rightarrow> nat list" where
  "offsets from [] = [from]"
| "offsets from (n # ns) = from # offsets (from + n) ns"

definition token_or_zero :: "int list \<Rightarrow> int \<Rightarrow> int" where
  "token_or_zero toks p = (if p < int (length toks) then toks ! nat p else 0)"

definition slot_of :: "worker_states \<Rightarrow> string \<Rightarrow> nat result" where
  "slot_of ws rid = (case map_of (ws_index ws) rid of None \<Rightarrow> Inl KeyError | Some i \<Rightarrow> Inr i)"

text \<open>The tokens of one request at its positions, stored into \<open>input_ids\<close>.\<close>

definition token_row :: "worker_states \<Rightarrow> nat \<times> int list \<Rightarrow> int list result" where
  "token_row ws row =
     (case row of (i, ps) \<Rightarrow>
        (case map_of (ws_token_ids ws) i of
           None \<Rightarrow> Inl KeyError
         | Some toks \<Rightarrow> mapE (\<lambda>p. store32 (token_or_zero toks p)) ps))"

text \<open>
  \<open>query_start_loc\<close> is a running sum in 32 bits; past them the length of the arrays is negative, or
  not that of the sum, and numpy refuses it.
\<close>

definition prepare_inputs :: "int \<Rightarrow> (string \<times> int) list \<Rightarrow> worker_states \<Rightarrow> input_batch result" where
  "prepare_inputs decode_len scheduled ws =
     (let ids = sort_batch_req_ids scheduled decode_len; ns = map (\<lambda>rid. the (map_of scheduled rid)) ids
      in if \<not> list_all fits32 ns then Inl OverflowError
      else rbind (mapE (slot_of ws) ids) (\<lambda>is.
      let starts = offsets 0 (map nat ns);
          computed = map (\<lambda>i. ws_num_computed_tokens ws ! i) is;
          prefill = map (\<lambda>i. ws_prefill_len ws ! i) is;
          computed_prefill = map (\<lambda>i. ws_num_computed_prefill_tokens ws ! i) is;
          spans = map2 (\<lambda>c n. [c..c + n - 1]) computed ns;
          prefilling = map2 (\<lambda>(c, n) p. wrap32 (c + n) < p) (zip computed_prefill ns) prefill
      in if \<not> fits32 (int (last starts)) then Inl ValueError
      else rbind (mapE (token_row ws) (zip is spans)) (\<lambda>rows.
         Inr \<lparr>ib_req_ids = ids, ib_idx_mapping = is, ib_num_scheduled_tokens = ns, ib_num_tokens = int (last starts),
             query_start_loc = starts, seq_lens = map2 (\<lambda>c n. wrap32 (c + n)) computed ns, input_ids = concat rows,
             ib_positions = concat spans, ib_prefill_len = prefill, ib_num_computed_prefill_tokens = computed_prefill,
             is_prefilling = prefilling,
             logits_indices = map (\<lambda>(s, b). int s - 1) (filter (\<lambda>(s, b). \<not> b) (zip (tl starts) prefilling))\<rparr>)))"

record attn_metadata =
  at_query_start_loc :: "nat list"
  at_seq_lens :: "int list"
  slot_mapping :: "int list"
  at_block_table :: "int list list"
  at_num_reqs :: nat
  num_actual_tokens :: int
  max_query_len :: int
  max_seq_len :: int
  num_prefill_tokens :: int
  num_decode_tokens :: int
  num_prefills :: int
  num_decodes :: int
  at_num_common_prefix_blocks :: int

definition is_mixed_batch :: "attn_metadata \<Rightarrow> bool" where
  "is_mixed_batch m \<longleftrightarrow> 0 < num_prefills m \<and> 0 < num_decodes m"

definition build_attn_metadata :: "input_batch \<Rightarrow> block_tables \<Rightarrow> int \<Rightarrow> int \<Rightarrow> nat \<Rightarrow> attn_metadata result" where
  "build_attn_metadata ib bt common decode_len g =
     rbind (compute_slot_mapping (ib_idx_mapping ib) (ib_positions ib) (query_start_loc ib) g bt) (\<lambda>slots.
     let lens = ib_num_scheduled_tokens ib; decodes = filter (\<lambda>n. n \<le> decode_len) lens
     in Inr \<lparr>at_query_start_loc = query_start_loc ib, at_seq_lens = seq_lens ib, slot_mapping = slots,
             at_block_table = gather (ib_idx_mapping ib) g bt, at_num_reqs = length (ib_req_ids ib),
             num_actual_tokens = ib_num_tokens ib,
             max_query_len = (if lens = [] then 0 else Max (set lens)),
             max_seq_len = (if seq_lens ib = [] then 0 else Max (set (seq_lens ib))),
             num_prefill_tokens = ib_num_tokens ib - sum_list decodes, num_decode_tokens = sum_list decodes,
             num_prefills = int (length lens) - int (length decodes), num_decodes = int (length decodes),
             at_num_common_prefix_blocks = common\<rparr>)"

definition prepare_attn :: "int \<Rightarrow> input_batch \<Rightarrow> int list \<Rightarrow> block_tables \<Rightarrow> attn_metadata result" where
  "prepare_attn decode_len ib common bt =
     rbind (build_attn_metadata ib bt (if common = [] then 0 else hd common) decode_len 0) (\<lambda>m.
     rbind (mapE (\<lambda>g. build_attn_metadata ib bt (if g < length common then common ! g else 0) decode_len g)
              [1..<length (bt_block_sizes bt)]) (\<lambda>_. Inr m))"

section \<open>The model runner\<close>

record step_profile =
  pf_num_tokens :: int
  pf_num_reqs :: nat
  pf_query_lens :: "int list"
  pf_seq_lens :: "int list"
  is_graph_hit :: bool
  num_encoder_embeds :: int

record 'g model_runner =
  mr_states :: worker_states
  mr_tables :: block_tables
  mr_model :: "'g sim_model"
  pooling_requests :: "(string \<times> int \<times> int list) list"
  encoder_outputs :: "string list" \<comment> \<open>a set\<close>
  captured_sizes :: "nat list" \<comment> \<open>a set\<close>
  mr_max_num_reqs :: nat
  mr_num_spec_tokens :: nat
  mr_enforce_eager :: bool
  last_attn_metadata :: "attn_metadata option"

text \<open>
  What the runner is given: the generators, the libraries of the grammar, the dimensions of
  a pooling request's vector, and the order in which the interpreter walks a set of strings.
\<close>

record 'g runner_env =
  env_sim :: "'g sim_libs"
  env_libs :: "'g py_libs"
  env_dimensions :: "string \<Rightarrow> int"
  env_order :: "string set \<Rightarrow> string list"

definition default_capture_sizes :: "nat list" where
  "default_capture_sizes = [1, 2, 4, 8, 16, 24, 32, 48, 64, 96, 128, 192, 256]"

definition decode_query_len :: "'g model_runner \<Rightarrow> int" where
  "decode_query_len mr = 1 + int (mr_num_spec_tokens mr)"

definition model_runner_init ::
  "nat \<Rightarrow> int \<Rightarrow> int list \<Rightarrow> bool \<Rightarrow> bool list \<Rightarrow> bool \<Rightarrow> nat \<Rightarrow> bool \<Rightarrow> 'g sim_model \<Rightarrow> 'g model_runner" where
  "model_runner_init n max_len sizes caching windowed debug spec eager model =
     \<lparr>mr_states = worker_states_init n, mr_tables = block_tables_init sizes n max_len caching windowed debug,
      mr_model = model, pooling_requests = [], encoder_outputs = [], captured_sizes = [], mr_max_num_reqs = n,
      mr_num_spec_tokens = spec, mr_enforce_eager = eager, last_attn_metadata = None\<rparr>"

definition capture_model :: "'g model_runner \<Rightarrow> 'g model_runner" where
  "capture_model mr =
     mr\<lparr>captured_sizes := (if mr_enforce_eager mr then [] else filter (\<lambda>k. k \<le> mr_max_num_reqs mr) default_capture_sizes)\<rparr>"

definition dummy_profile :: "'g model_runner \<Rightarrow> step_profile" where
  "dummy_profile mr =
     \<lparr>pf_num_tokens = decode_query_len mr, pf_num_reqs = 1, pf_query_lens = [decode_query_len mr],
      pf_seq_lens = [decode_query_len mr], is_graph_hit = \<not> mr_enforce_eager mr, num_encoder_embeds = 0\<rparr>"

subsection \<open>Maintenance of the batch\<close>

definition maybe_set_constraint ::
  "'g runner_env \<Rightarrow> string \<Rightarrow> sampling_params option \<Rightarrow> 'g sim_model \<Rightarrow> 'g sim_model result" where
  "maybe_set_constraint E rid sp m =
     (case (case sp of None \<Rightarrow> None | Some s \<Rightarrow> sp_constraint s) of
        None \<Rightarrow> Inr m
      | Some c \<Rightarrow>
          if map_of (constrained_plans m) rid \<noteq> None then Inr m
          else
            rbind (structured_output_key (env_libs E) c) (\<lambda>(kind, spec).
            rbind (set_constraint (env_sim E) (env_libs E) rid kind spec m) (\<lambda>(plan, m'). Inr m')))"

definition mr_add_request :: "'g runner_env \<Rightarrow> new_request_data \<Rightarrow> 'g model_runner \<Rightarrow> 'g model_runner result" where
  "mr_add_request E nr mr =
     (let rid = nr_req_id nr; sp = nr_sampling_params nr; prompt = nr_prompt_token_ids nr;
          max_toks = (case sp of None \<Rightarrow> 0 | Some s \<Rightarrow> (case sp_max_tokens s of None \<Rightarrow> 0 | Some k \<Rightarrow> k));
          prefill = (if nr_prefill_token_ids nr = [] then prompt else nr_prefill_token_ids nr)
      in rbind (ws_add_request rid (int (length prompt)) prefill (nr_num_computed_tokens nr) max_toks (mr_states mr)) (\<lambda>(i, ws).
         rbind (set_block_ids i (nr_block_ids nr) (mr_tables mr)) (\<lambda>bt.
         rbind (maybe_set_constraint E rid sp (mr_model mr)) (\<lambda>m.
         let m1 = set_request_eos rid (case sp of None \<Rightarrow> None | Some s \<Rightarrow> sp_eos_token_id s) m;
             m2 = set_request_seed rid (case sp of None \<Rightarrow> None | Some s \<Rightarrow> sp_request_seed s) m1;
             ws1 = (if nr_mm_features nr = [] then ws
                    else ws\<lparr>ws_mm_features := AList.update rid (nr_mm_features nr) (ws_mm_features ws)\<rparr>)
         in Inr (mr\<lparr>mr_states := ws1, mr_tables := bt, mr_model := m2,
                   pooling_requests := (if nr_pooling nr
                     then AList.update rid (env_dimensions E rid, prompt) (pooling_requests mr) else pooling_requests mr)\<rparr>)))))"

definition mr_update_request :: "cached_row \<Rightarrow> 'g model_runner \<Rightarrow> 'g model_runner result" where
  "mr_update_request cr mr =
     (case map_of (ws_index (mr_states mr)) (cr_req_id cr) of
        None \<Rightarrow> Inl KeyError
      | Some i \<Rightarrow>
          rbind (append_tokens i (cr_new_token_ids cr) (mr_states mr)) (\<lambda>ws.
          rbind (set_num_computed_tokens i (cr_num_computed_tokens cr) ws) (\<lambda>ws1.
          rbind (store32 (cr_num_output_tokens cr)) (\<lambda>produced.
          let ws2 = ws1\<lparr>ws_num_output_tokens := (ws_num_output_tokens ws1)[i := produced]\<rparr>
          in rbind (case cr_new_block_ids cr of None \<Rightarrow> Inr (mr_tables mr)
                    | Some blocks \<Rightarrow> append_block_ids i blocks (mr_tables mr)) (\<lambda>bt.
             Inr (mr\<lparr>mr_states := ws2, mr_tables := bt\<rparr>))))))"

definition drop_slot :: "string \<Rightarrow> 'g model_runner \<Rightarrow> 'g model_runner" where
  "drop_slot rid mr =
     (let (i, ws) = ws_remove_request rid (mr_states mr)
      in mr\<lparr>mr_states := ws, mr_tables := (case i of None \<Rightarrow> mr_tables mr | Some i \<Rightarrow> clear_row i (mr_tables mr))\<rparr>)"

definition mr_finish_request :: "string \<Rightarrow> 'g model_runner \<Rightarrow> 'g model_runner" where
  "mr_finish_request rid mr =
     drop_slot rid (mr\<lparr>mr_model := forget_request rid (mr_model mr),
       mr_states := (mr_states mr)\<lparr>ws_mm_features := AList.delete rid (ws_mm_features (mr_states mr))\<rparr>,
       pooling_requests := AList.delete rid (pooling_requests mr)\<rparr>)"

definition mr_finish_requests :: "'g runner_env \<Rightarrow> scheduler_output \<Rightarrow> 'g model_runner \<Rightarrow> 'g model_runner" where
  "mr_finish_requests E so mr = fold mr_finish_request (env_order E (so_finished_req_ids so)) mr"

definition free_states :: "'g runner_env \<Rightarrow> scheduler_output \<Rightarrow> 'g model_runner \<Rightarrow> 'g model_runner" where
  "free_states E so mr =
     fold drop_slot (case so_preempted_req_ids so of None \<Rightarrow> [] | Some ids \<Rightarrow> env_order E ids) mr"

subsection \<open>A step\<close>

text \<open>What the step encodes: its cost, and the outputs that are resident after it.\<close>

definition encode_inputs :: "worker_states \<Rightarrow> string \<times> nat list \<Rightarrow> int \<times> string list \<Rightarrow> int \<times> string list" where
  "encode_inputs ws inputs acc =
     (case inputs of (rid, ids) \<Rightarrow>
        let feats = (case map_of (ws_mm_features ws) rid of None \<Rightarrow> [] | Some fs \<Rightarrow> fs)
        in fold (\<lambda>i (n, held). if length feats \<le> i then (n, held)
                               else (n + num_embeds (feats ! i), List.insert (mm_identifier (feats ! i)) held)) ids acc)"

definition mr_plan_step ::
  "'g runner_env \<Rightarrow> scheduler_output \<Rightarrow> 'g model_runner \<Rightarrow> ((input_batch \<times> step_profile) option \<times> 'g model_runner) result" where
  "mr_plan_step E so mr0 =
     (let mr1 = free_states E so (mr_finish_requests E so mr0)
      in if so_total_num_scheduled_tokens so = 0 then Inr (None, mr1)
         else
           rbind (foldE (mr_add_request E) (so_new_reqs so) mr1) (\<lambda>mr2.
           rbind (foldE mr_update_request (so_cached_reqs so) mr2) (\<lambda>mr3.
           rbind (prepare_inputs (decode_query_len mr3) (so_num_scheduled_tokens so) (mr_states mr3)) (\<lambda>ib.
           rbind (prepare_attn (decode_query_len mr3) ib (so_num_common_prefix_blocks so) (mr_tables mr3)) (\<lambda>meta.
           let graph_hit = (length (ib_req_ids ib) \<in> set (captured_sizes mr3) \<and> \<not> is_mixed_batch meta \<and> num_prefills meta = 0);
               held = fold removeAll (so_free_encoder_mm_hashes so) (encoder_outputs mr3);
               (embeds, held') = fold (encode_inputs (mr_states mr3)) (so_encoder_inputs so) (0, held)
           in Inr (Some (ib, \<lparr>pf_num_tokens = ib_num_tokens ib, pf_num_reqs = length (ib_req_ids ib),
                              pf_query_lens = ib_num_scheduled_tokens ib, pf_seq_lens = seq_lens ib,
                              is_graph_hit = graph_hit, num_encoder_embeds = embeds\<rparr>),
                   mr3\<lparr>last_attn_metadata := Some meta, encoder_outputs := held'\<rparr>))))))"

text \<open>The vector of a pooling request whose prompt is complete.\<close>

definition pool_one :: "'g runner_env \<Rightarrow> 'g model_runner \<Rightarrow> string \<times> nat \<times> int \<Rightarrow> rat list option result" where
  "pool_one E mr row =
     (case row of (rid, i, len) \<Rightarrow>
        (case map_of (pooling_requests mr) rid of
           None \<Rightarrow> Inr None
         | Some (dims, prompt) \<Rightarrow>
             if len < ws_prompt_len (mr_states mr) ! i then Inr None
             else rbind (embed (env_sim E) prompt dims) (\<lambda>v. Inr (Some v))))"

text \<open>The tokens and the drafts of the requests in batch order.\<close>

definition sample_one ::
  "'g runner_env \<Rightarrow> 'g model_runner \<Rightarrow> (string \<times> int list) list \<Rightarrow> string \<times> nat \<times> bool \<Rightarrow> 'g sim_model \<Rightarrow>
   (int list \<times> int list \<times> 'g sim_model) result" where
  "sample_one E mr drafts row m =
     (case row of (rid, i, prefilling) \<Rightarrow>
        if prefilling \<or> rid \<in> fst ` set (pooling_requests mr) then Inr ([], [], m)
        else
          emit_tokens (env_sim E) (env_libs E) rid (nat (ws_num_output_tokens (mr_states mr) ! i))
            (length (case map_of drafts rid of None \<Rightarrow> [] | Some ds \<Rightarrow> ds)) (mr_num_spec_tokens mr)
            (max 1 (ws_max_seq_len (mr_states mr) ! i - ws_prompt_len (mr_states mr) ! i)) m)"

primrec sample_all ::
  "'g runner_env \<Rightarrow> 'g model_runner \<Rightarrow> (string \<times> int list) list \<Rightarrow> (string \<times> nat \<times> bool) list \<Rightarrow> 'g sim_model \<Rightarrow>
   (int list list \<times> int list list \<times> 'g sim_model) result" where
  "sample_all E mr drafts [] m = Inr ([], [], m)"
| "sample_all E mr drafts (row # rows) m =
     rbind (sample_one E mr drafts row m) (\<lambda>(ts, ds, m1).
     rbind (sample_all E mr drafts rows m1) (\<lambda>(tss, dss, m2). Inr (ts # tss, ds # dss, m2)))"

definition mr_sample_tokens ::
  "'g runner_env \<Rightarrow> input_batch \<Rightarrow> (string \<times> int list) list \<Rightarrow> 'g model_runner \<Rightarrow> (model_runner_output \<times> 'g model_runner) result" where
  "mr_sample_tokens E ib drafts mr =
     (let ids = ib_req_ids ib
      in rbind (if pooling_requests mr = [] then Inr []
                else mapE (pool_one E mr) (zip ids (zip (ib_idx_mapping ib) (seq_lens ib)))) (\<lambda>pooled.
         rbind (sample_all E mr drafts (zip ids (zip (ib_idx_mapping ib) (is_prefilling ib))) (mr_model mr)) (\<lambda>(tss, dss, m).
         Inr (\<lparr>req_id_to_index = zip ids [0..<length ids], sampled_token_ids = tss,
               mro_spec_token_ids = (if mr_num_spec_tokens mr = 0 then None else Some dss), pooler_output = pooled\<rparr>,
              mr\<lparr>mr_model := m\<rparr>))))"

definition postprocess_num_computed_tokens :: "input_batch \<Rightarrow> 'g model_runner \<Rightarrow> 'g model_runner result" where
  "postprocess_num_computed_tokens ib mr =
     rbind (foldE (\<lambda>(i, n). set_num_computed_tokens i n) (zip (ib_idx_mapping ib) (seq_lens ib)) (mr_states mr)) (\<lambda>ws.
     Inr (mr\<lparr>mr_states := ws\<rparr>))"

definition empty_output :: model_runner_output where
  "empty_output = \<lparr>req_id_to_index = [], sampled_token_ids = [], mro_spec_token_ids = None, pooler_output = []\<rparr>"

text \<open>The device spends the step's time; its state is a value of \<open>'d\<close>.\<close>

definition execute_model ::
  "'g runner_env \<Rightarrow> (step_profile \<Rightarrow> 'd \<Rightarrow> rat \<times> 'd) \<Rightarrow> scheduler_output \<Rightarrow> 'g model_runner \<times> 'd \<Rightarrow>
   (model_runner_output \<times> rat \<times> 'g model_runner \<times> 'd) result" where
  "execute_model E device so mrd =
     (case mrd of (mr, d) \<Rightarrow>
        rbind (mr_plan_step E so mr) (\<lambda>(plan, mr1).
        (case plan of
           None \<Rightarrow> Inr (empty_output, 0, mr1, d)
         | Some (ib, profile) \<Rightarrow>
             let (secs, d1) = device profile d
             in rbind (mr_sample_tokens E ib (so_spec_decode_tokens so) mr1) (\<lambda>(out, mr2).
                rbind (postprocess_num_computed_tokens ib mr2) (\<lambda>mr3. Inr (out, secs, mr3, d1))))))"

end
