(* ===== verification/WorkerRun.thy ===== *)
theory WorkerRun
  imports Worker SchedulerFold
begin

text \<open>
  The persistent batch, seen through request ids. \<open>held\<close> is the table that the slots implement: what
  is known of a request, wherever it is kept. Every operation of the batch is an operation on that
  table, and a step of the runner answers every request of the step.
\<close>

section \<open>The table behind the slots\<close>

record slot_view =
  sv_prompt :: int
  sv_prefill :: int
  sv_computed :: int
  sv_computed_prefill :: int
  sv_max_seq :: int
  sv_output :: int
  sv_blocks :: "nat list" \<comment> \<open>how many, by group\<close>

definition view :: "worker_states \<Rightarrow> block_tables \<Rightarrow> nat \<Rightarrow> slot_view" where
  "view ws bt i =
     \<lparr>sv_prompt = ws_prompt_len ws ! i, sv_prefill = ws_prefill_len ws ! i, sv_computed = ws_num_computed_tokens ws ! i,
      sv_computed_prefill = ws_num_computed_prefill_tokens ws ! i, sv_max_seq = ws_max_seq_len ws ! i,
      sv_output = ws_num_output_tokens ws ! i, sv_blocks = map (\<lambda>row. row ! i) (bt_num_blocks bt)\<rparr>"

lemma view_fields [simp]:
  "sv_prompt (view ws bt i) = ws_prompt_len ws ! i" "sv_prefill (view ws bt i) = ws_prefill_len ws ! i"
  "sv_computed (view ws bt i) = ws_num_computed_tokens ws ! i"
  "sv_computed_prefill (view ws bt i) = ws_num_computed_prefill_tokens ws ! i"
  "sv_max_seq (view ws bt i) = ws_max_seq_len ws ! i" "sv_output (view ws bt i) = ws_num_output_tokens ws ! i"
  "sv_blocks (view ws bt i) = map (\<lambda>row. row ! i) (bt_num_blocks bt)"
  by (simp_all add: view_def)

definition held :: "'g model_runner \<Rightarrow> string \<Rightarrow> slot_view option" where
  "held mr rid = map_option (view (mr_states mr) (mr_tables mr)) (map_of (ws_index (mr_states mr)) rid)"

definition states_wf :: "nat \<Rightarrow> worker_states \<Rightarrow> bool" where
  "states_wf n ws \<longleftrightarrow>
     length (ws_prompt_len ws) = n \<and> length (ws_prefill_len ws) = n \<and> length (ws_num_computed_tokens ws) = n \<and>
     length (ws_num_computed_prefill_tokens ws) = n \<and> length (ws_max_seq_len ws) = n \<and> length (ws_num_output_tokens ws) = n \<and>
     distinct (map fst (ws_index ws)) \<and> distinct (map snd (ws_index ws) @ free_indices ws) \<and>
     set (map snd (ws_index ws)) \<union> set (free_indices ws) = {0..<n}"

definition tables_wf :: "nat \<Rightarrow> block_tables \<Rightarrow> bool" where
  "tables_wf n bt \<longleftrightarrow>
     length (bt_num_blocks bt) = length (bt_block_sizes bt) \<and> length (max_blocks_per_req bt) = length (bt_block_sizes bt) \<and>
     (\<forall>row\<in>set (bt_num_blocks bt). length row = n) \<and> bt_block_sizes bt \<noteq> [] \<and>
     (\<forall>b\<in>set (bt_block_sizes bt). fits32 b) \<and> (\<forall>m\<in>set (max_blocks_per_req bt). fits32 (int m))"

text \<open>Every held request has its tokens, and they are 32-bit integers.\<close>

definition tokens_wf :: "worker_states \<Rightarrow> bool" where
  "tokens_wf ws \<longleftrightarrow>
     (\<forall>rid i. map_of (ws_index ws) rid = Some i \<longrightarrow> (\<exists>toks. map_of (ws_token_ids ws) i = Some toks \<and> list_all fits32 toks))"

text \<open>Every pooling request has a prompt that \<open>embed\<close> can encode.\<close>

definition pooled_wf :: "(string \<times> int \<times> int list) list \<Rightarrow> bool" where
  "pooled_wf ps \<longleftrightarrow> (\<forall>(rid, dims, prompt)\<in>set ps. dims \<le> 2 ^ 32 \<and> list_all fits_bytes prompt)"

definition runner_wf :: "'g model_runner \<Rightarrow> bool" where
  "runner_wf mr \<longleftrightarrow> states_wf (mr_max_num_reqs mr) (mr_states mr) \<and> tables_wf (mr_max_num_reqs mr) (mr_tables mr) \<and>
     tokens_wf (mr_states mr) \<and> pooled_wf (pooling_requests mr)"

lemma tokens_wf_cong: "tokens_wf ws \<Longrightarrow> ws_index ws' = ws_index ws \<Longrightarrow> ws_token_ids ws' = ws_token_ids ws \<Longrightarrow> tokens_wf ws'"
  by (simp add: tokens_wf_def)

lemma pooled_wf_delete: "pooled_wf ps \<Longrightarrow> pooled_wf (AList.delete rid ps)"
  by (auto simp: pooled_wf_def AList.delete_eq)

lemma pooled_wf_update:
  "pooled_wf ps \<Longrightarrow> dims \<le> 2 ^ 32 \<Longrightarrow> list_all fits_bytes prompt \<Longrightarrow> pooled_wf (AList.update rid (dims, prompt) ps)"
  unfolding pooled_wf_def
proof (intro ballI)
  fix e assume h: "\<forall>(rid, dims, prompt)\<in>set ps. dims \<le> 2 ^ 32 \<and> list_all fits_bytes prompt" "dims \<le> 2 ^ 32" "list_all fits_bytes prompt"
    and e: "e \<in> set (AList.update rid (dims, prompt) ps)"
  have "set (AList.update rid (dims, prompt) ps) \<subseteq> insert (rid, dims, prompt) (set ps)"
    by (induction ps) auto
  then show "case e of (rid, dims, prompt) \<Rightarrow> dims \<le> 2 ^ 32 \<and> list_all fits_bytes prompt" using e h by auto
qed

lemma held_None: "held mr rid = None \<longleftrightarrow> rid \<notin> fst ` set (ws_index (mr_states mr))"
  by (simp add: held_def map_of_eq_None_iff)

lemma dom_held: "dom (held mr) = fst ` set (ws_index (mr_states mr))"
  by (simp add: dom_def held_None)

lemma slot_range: "states_wf n ws \<Longrightarrow> map_of (ws_index ws) rid = Some i \<Longrightarrow> i < n"
  by (drule map_of_SomeD) (force simp: states_wf_def)

lemma slot_inj:
  assumes "states_wf n ws" "map_of (ws_index ws) a = Some i" "map_of (ws_index ws) b = Some i"
  shows "a = b"
proof -
  have "inj_on snd (set (ws_index ws))" using assms(1) by (simp add: states_wf_def distinct_map)
  then show ?thesis using assms(2,3) by (metis inj_onD map_of_SomeD prod.inject snd_conv)
qed

lemma free_room: "states_wf n ws \<Longrightarrow> length (free_indices ws) + card (fst ` set (ws_index ws)) = n"
proof -
  assume w: "states_wf n ws"
  then have d: "distinct (map snd (ws_index ws) @ free_indices ws)" "set (map snd (ws_index ws) @ free_indices ws) = {0..<n}"
    by (simp_all add: states_wf_def)
  have "card (set (map snd (ws_index ws) @ free_indices ws)) = length (map snd (ws_index ws) @ free_indices ws)"
    by (rule distinct_card [OF d(1)])
  then have "n = length (ws_index ws) + length (free_indices ws)" using d(2) by simp
  moreover have "card (fst ` set (ws_index ws)) = length (ws_index ws)"
    using w distinct_card [of "map fst (ws_index ws)"] by (simp add: states_wf_def)
  ultimately show ?thesis by simp
qed

subsection \<open>Giving a slot back\<close>

lemma view_clear: "tables_wf n bt \<Longrightarrow> j \<noteq> i \<Longrightarrow> view ws (clear_row i bt) j = view ws bt j"
  by (simp add: view_def clear_row_def)

lemma tables_wf_clear: "tables_wf n bt \<Longrightarrow> tables_wf n (clear_row i bt)"
  by (auto simp: tables_wf_def clear_row_def)

lemma delete_entry:
  assumes "distinct (map fst xs)" and "map_of xs k = Some v"
  shows "set (AList.delete k xs) = set xs - {(k, v)}"
proof -
  have "(a, b) = (k, v)" if "(a, b) \<in> set xs" "a = k" for a b
    using that assms by simp
  then show ?thesis by (auto simp: AList.delete_eq)
qed

lemma remove_wf:
  assumes w: "states_wf n ws" and i: "map_of (ws_index ws) rid = Some i"
  shows "states_wf n (snd (ws_remove_request rid ws))"
proof -
  have D: "distinct (map fst (ws_index ws))" "distinct (map snd (ws_index ws))" "distinct (free_indices ws)"
    "set (map snd (ws_index ws)) \<inter> set (free_indices ws) = {}" "set (map snd (ws_index ws)) \<union> set (free_indices ws) = {0..<n}"
    using w by (auto simp: states_wf_def)
  have mem: "(rid, i) \<in> set (ws_index ws)" by (rule map_of_SomeD [OF i])
  note idx = delete_entry [OF D(1) i]
  have inj: "inj_on snd (set (ws_index ws))" using D(2) by (simp add: distinct_map)
  have rng: "set (map snd (AList.delete rid (ws_index ws))) = set (map snd (ws_index ws)) - {i}"
    unfolding set_map idx using mem inj_on_image_set_diff [OF inj, of "set (ws_index ws)" "{(rid, i)}"] by simp
  have mi: "i \<in> set (map snd (ws_index ws))" using mem by force
  have "distinct (map snd (AList.delete rid (ws_index ws)) @ free_indices ws @ [i])"
  proof -
    have "distinct (map snd (AList.delete rid (ws_index ws)))" using D(2) by (simp add: AList.delete_eq distinct_map_filter)
    then show ?thesis unfolding distinct_append rng using D(3,4) mi by auto
  qed
  moreover have "set (map snd (AList.delete rid (ws_index ws))) \<union> set (free_indices ws @ [i]) = {0..<n}"
    unfolding rng using D(5) mi by auto
  moreover have "distinct (map fst (AList.delete rid (ws_index ws)))" by (rule distinct_delete [OF D(1)])
  ultimately show ?thesis using w i by (simp add: states_wf_def ws_remove_request_def)
qed

lemma remove_tokens:
  assumes w: "states_wf n ws" and t: "tokens_wf ws"
  shows "tokens_wf (snd (ws_remove_request rid ws))"
proof (cases "map_of (ws_index ws) rid")
  case (Some i)
  have "\<exists>toks. map_of (AList.delete i (ws_token_ids ws)) j = Some toks \<and> list_all fits32 toks"
    if "map_of (AList.delete rid (ws_index ws)) x = Some j" for x j
  proof -
    have x: "x \<noteq> rid" "map_of (ws_index ws) x = Some j" using that by (auto simp: delete_conv' split: if_splits)
    then have "j \<noteq> i" using slot_inj [OF w x(2)] Some by blast
    then show ?thesis using t x(2) by (simp add: tokens_wf_def delete_conv')
  qed
  then show ?thesis using Some by (simp add: ws_remove_request_def tokens_wf_def)
qed (use t in \<open>simp add: ws_remove_request_def\<close>)

lemma drop_slot_held:
  assumes w: "runner_wf mr"
  shows "held (drop_slot rid mr) = (held mr)(rid := None)" and "runner_wf (drop_slot rid mr)"
proof -
  have sw: "states_wf (mr_max_num_reqs mr) (mr_states mr)" and tw: "tables_wf (mr_max_num_reqs mr) (mr_tables mr)"
    using w by (simp_all add: runner_wf_def)
  show "runner_wf (drop_slot rid mr)"
  proof -
    have "tokens_wf (snd (ws_remove_request rid (mr_states mr)))" using remove_tokens [OF sw] w by (simp add: runner_wf_def)
    moreover have "states_wf (mr_max_num_reqs mr) (snd (ws_remove_request rid (mr_states mr)))"
      using remove_wf [OF sw] sw by (cases "map_of (ws_index (mr_states mr)) rid") (auto simp: ws_remove_request_def)
    ultimately show ?thesis using tw tables_wf_clear [OF tw] w
      by (simp add: runner_wf_def drop_slot_def split_beta split: option.split)
  qed
  show "held (drop_slot rid mr) = (held mr)(rid := None)"
  proof
    fix x
    show "held (drop_slot rid mr) x = ((held mr)(rid := None)) x"
    proof (cases "map_of (ws_index (mr_states mr)) rid")
      case None
      then show ?thesis by (auto simp: drop_slot_def ws_remove_request_def held_def)
    next
      case (Some i)
      show ?thesis
      proof (cases "map_of (ws_index (mr_states mr)) x")
        case None
        then show ?thesis using Some by (simp add: drop_slot_def ws_remove_request_def held_def delete_conv')
      next
        case x: (Some j)
        have "x \<noteq> rid \<Longrightarrow> j \<noteq> i" using slot_inj [OF sw x] Some by blast
        then show ?thesis using Some x view_clear [OF tw, of j i]
          by (simp add: drop_slot_def ws_remove_request_def held_def delete_conv' view_def)
      qed
    qed
  qed
qed

lemma drop_slots_held:
  assumes "runner_wf mr"
  shows "held (fold drop_slot ids mr) = held mr |` (- set ids)" and "runner_wf (fold drop_slot ids mr)"
    and "mr_model (fold drop_slot ids mr) = mr_model mr" and "pooling_requests (fold drop_slot ids mr) = pooling_requests mr"
    and "mr_num_spec_tokens (fold drop_slot ids mr) = mr_num_spec_tokens mr"
    and "mr_max_num_reqs (fold drop_slot ids mr) = mr_max_num_reqs mr"
proof -
  have "held (fold drop_slot ids mr) = held mr |` (- set ids) \<and> runner_wf (fold drop_slot ids mr) \<and>
    mr_model (fold drop_slot ids mr) = mr_model mr \<and> pooling_requests (fold drop_slot ids mr) = pooling_requests mr \<and>
    mr_num_spec_tokens (fold drop_slot ids mr) = mr_num_spec_tokens mr \<and>
    mr_max_num_reqs (fold drop_slot ids mr) = mr_max_num_reqs mr"
    using assms
  proof (induction ids arbitrary: mr)
    case (Cons x ids)
    note D = drop_slot_held [OF Cons.prems, of x]
    have f: "mr_model (drop_slot x mr) = mr_model mr" "pooling_requests (drop_slot x mr) = pooling_requests mr"
      "mr_num_spec_tokens (drop_slot x mr) = mr_num_spec_tokens mr" "mr_max_num_reqs (drop_slot x mr) = mr_max_num_reqs mr"
      by (simp_all add: drop_slot_def split_beta)
    have "(held mr)(x := None) |` (- set ids) = held mr |` (- set (x # ids))"
      by (auto simp: restrict_map_def fun_eq_iff)
    moreover have "held (fold drop_slot (x # ids) mr) = held (drop_slot x mr) |` (- set ids)" using Cons.IH [OF D(2)] by simp
    ultimately show ?case using Cons.IH [OF D(2)] D(1) f by (simp only: fold_simps o_apply simp_thms)
  qed (simp add: restrict_map_def)
  then show "held (fold drop_slot ids mr) = held mr |` (- set ids)" "runner_wf (fold drop_slot ids mr)"
    "mr_model (fold drop_slot ids mr) = mr_model mr" "pooling_requests (fold drop_slot ids mr) = pooling_requests mr"
    "mr_num_spec_tokens (fold drop_slot ids mr) = mr_num_spec_tokens mr"
    "mr_max_num_reqs (fold drop_slot ids mr) = mr_max_num_reqs mr" by blast+
qed

lemma held_cong:
  assumes "ws_index (mr_states mr') = ws_index (mr_states mr)" and "view (mr_states mr') (mr_tables mr') = view (mr_states mr) (mr_tables mr)"
  shows "held mr' = held mr"
  by (rule ext) (simp only: held_def assms)

subsection \<open>Block tables by group\<close>

definition counts :: "block_tables \<Rightarrow> nat \<Rightarrow> nat list" where
  "counts bt i = map (\<lambda>row. row ! i) (bt_num_blocks bt)"

definition same_layout :: "block_tables \<Rightarrow> block_tables \<Rightarrow> bool" where
  "same_layout bt bt' \<longleftrightarrow> bt_block_sizes bt' = bt_block_sizes bt \<and> max_blocks_per_req bt' = max_blocks_per_req bt \<and>
     bt_debug bt' = bt_debug bt \<and> bt_caching bt' = bt_caching bt \<and> windowed_groups bt' = windowed_groups bt"

lemma same_layout_refl [simp]: "same_layout bt bt"
  by (simp add: same_layout_def)

lemma same_layout_trans: "same_layout a b \<Longrightarrow> same_layout b c \<Longrightarrow> same_layout a c"
  by (simp add: same_layout_def)

lemma length_counts: "length (counts bt i) = length (bt_num_blocks bt)"
  by (simp add: counts_def)

lemma put_blocks_ok:
  assumes w: "tables_wf n bt" and g: "g < length (bt_block_sizes bt)" and i: "i < n"
  shows "tables_wf n (put_blocks g i j ids bt)" and "same_layout bt (put_blocks g i j ids bt)"
    and "counts (put_blocks g i j ids bt) i = (counts bt i)[g := j + length ids]"
    and "k \<noteq> i \<Longrightarrow> counts (put_blocks g i j ids bt) k = counts bt k"
proof -
  have len: "length (bt_num_blocks bt) = length (bt_block_sizes bt)" "\<forall>row\<in>set (bt_num_blocks bt). length row = n"
    using w by (simp_all add: tables_wf_def)
  have gl: "length (bt_num_blocks bt ! g) = n" using len g by simp
  show "same_layout bt (put_blocks g i j ids bt)" by (simp add: same_layout_def put_blocks_def)
  show "tables_wf n (put_blocks g i j ids bt)"
    using w gl by (auto simp: tables_wf_def put_blocks_def dest!: set_update_subset_insert [THEN subsetD])
  show "counts (put_blocks g i j ids bt) i = (counts bt i)[g := j + length ids]"
    by (rule nth_equalityI) (use len g gl i in \<open>auto simp: counts_def put_blocks_def nth_list_update\<close>)
  show "counts (put_blocks g i j ids bt) k = counts bt k" if "k \<noteq> i"
    by (rule nth_equalityI) (use len g gl that in \<open>auto simp: counts_def put_blocks_def nth_list_update\<close>)
qed

lemma set_blocks_ok:
  assumes "tables_wf n bt" and "i < n" and "g + length bs \<le> length (bt_block_sizes bt)"
    and "\<forall>h<length bs. length (bs ! h) \<le> max_blocks_per_req bt ! (g + h)" and "\<forall>ids\<in>set bs. list_all fits32 ids"
  shows "\<exists>bt'. foldE (set_group_blocks i) (enumerate g bs) bt = Inr bt' \<and> tables_wf n bt' \<and> same_layout bt bt' \<and>
    counts bt' i = take g (counts bt i) @ map length bs @ drop (g + length bs) (counts bt i) \<and>
    (\<forall>k. k \<noteq> i \<longrightarrow> counts bt' k = counts bt k)"
  using assms
proof (induction bs arbitrary: g bt)
  case (Cons ids bs)
  have g: "g < length (bt_block_sizes bt)" using Cons.prems(3) by simp
  have ml: "length (max_blocks_per_req bt) = length (bt_block_sizes bt)" "length (bt_num_blocks bt) = length (bt_block_sizes bt)"
    using Cons.prems(1) by (simp_all add: tables_wf_def)
  let ?b = "put_blocks g i 0 ids bt"
  note P = put_blocks_ok [OF Cons.prems(1) g Cons.prems(2), where j = 0 and ids = ids]
  have le: "length ids \<le> max_blocks_per_req bt ! g" using Cons.prems(4) [rule_format, of 0] by simp
  have "max_blocks_per_req bt ! g \<in> set (max_blocks_per_req bt)" using g ml by simp
  then have "fits32 (int (max_blocks_per_req bt ! g))" using Cons.prems(1) unfolding tables_wf_def by blast
  then have f: "fits32 (int (length ids))" using le by (simp add: fits32_def)
  have step: "set_group_blocks i (g, ids) bt = Inr ?b"
    using g ml le f Cons.prems(5) by (simp add: set_group_blocks_def)
  have lay: "bt_block_sizes ?b = bt_block_sizes bt" "max_blocks_per_req ?b = max_blocks_per_req bt" using P(2) by (simp_all add: same_layout_def)
  have "\<forall>h<length bs. length (bs ! h) \<le> max_blocks_per_req ?b ! (Suc g + h)"
    unfolding lay using Cons.prems(4) by (metis Suc_less_eq add_Suc add_Suc_right length_Cons nth_Cons_Suc)
  then obtain bt' where I: "foldE (set_group_blocks i) (enumerate (Suc g) bs) ?b = Inr bt'" "tables_wf n bt'" "same_layout ?b bt'"
    "counts bt' i = take (Suc g) (counts ?b i) @ map length bs @ drop (Suc g + length bs) (counts ?b i)"
    "\<forall>k. k \<noteq> i \<longrightarrow> counts bt' k = counts ?b k"
    using Cons.IH [OF P(1) Cons.prems(2), of "Suc g"] Cons.prems(3,5) lay(1) by auto
  have "take (Suc g) ((counts bt i)[g := length ids]) = take g (counts bt i) @ [length ids]"
    using g ml by (simp add: take_Suc_conv_app_nth length_counts)
  then have "counts bt' i = take g (counts bt i) @ map length (ids # bs) @ drop (g + length (ids # bs)) (counts bt i)"
    using I(4) P(3) by simp
  then show ?case using step I(1,2) same_layout_trans [OF P(2) I(3)] I(5) P(4) by (simp add: enumerate_simps)
qed simp

lemma append_blocks_ok:
  assumes "tables_wf n bt" and "i < n" and "g + length bs \<le> length (bt_block_sizes bt)"
    and "\<forall>h<length bs. bs ! h \<noteq> [] \<longrightarrow> counts bt i ! (g + h) + length (bs ! h) \<le> max_blocks_per_req bt ! (g + h)"
    and "\<forall>ids\<in>set bs. list_all fits32 ids"
  shows "\<exists>bt'. foldE (append_group_blocks i) (enumerate g bs) bt = Inr bt' \<and> tables_wf n bt' \<and> same_layout bt bt' \<and>
    counts bt' i = take g (counts bt i) @ map2 (+) (take (length bs) (drop g (counts bt i))) (map length bs) @
      drop (g + length bs) (counts bt i) \<and>
    (\<forall>k. k \<noteq> i \<longrightarrow> counts bt' k = counts bt k)"
  using assms
proof (induction bs arbitrary: g bt)
  case (Cons ids bs)
  have g: "g < length (bt_block_sizes bt)" using Cons.prems(3) by simp
  have ml: "length (max_blocks_per_req bt) = length (bt_block_sizes bt)" "length (bt_num_blocks bt) = length (bt_block_sizes bt)"
    using Cons.prems(1) by (simp_all add: tables_wf_def)
  have gc: "g < length (counts bt i)" using g ml by (simp add: length_counts)
  have at: "bt_num_blocks bt ! g ! i = counts bt i ! g" using g ml by (simp add: counts_def)
  define b where "b = (if ids = [] then bt else put_blocks g i (counts bt i ! g) ids bt)"
  note P = put_blocks_ok [OF Cons.prems(1) g Cons.prems(2), where j = "counts bt i ! g" and ids = ids]
  have "ids \<noteq> [] \<Longrightarrow> counts bt i ! g + length ids \<le> max_blocks_per_req bt ! g" using Cons.prems(4) [rule_format, of 0] by simp
  moreover have "max_blocks_per_req bt ! g \<in> set (max_blocks_per_req bt)" using g ml by simp
  then have "fits32 (int (max_blocks_per_req bt ! g))" using Cons.prems(1) unfolding tables_wf_def by blast
  ultimately have "ids \<noteq> [] \<Longrightarrow> counts bt i ! g + length ids \<le> max_blocks_per_req bt ! g \<and> fits32 (int (counts bt i ! g + length ids))"
    by (simp add: fits32_def)
  then have step: "append_group_blocks i (g, ids) bt = Inr b"
    using g ml at Cons.prems(5) by (cases "ids = []") (auto simp: append_group_blocks_def b_def Let_def)
  have B: "tables_wf n b" "same_layout bt b" "counts b i = (counts bt i)[g := counts bt i ! g + length ids]"
    "\<And>k. k \<noteq> i \<Longrightarrow> counts b k = counts bt k"
    using P Cons.prems(1) by (auto simp: b_def)
  have lay: "bt_block_sizes b = bt_block_sizes bt" "max_blocks_per_req b = max_blocks_per_req bt" using B(2) by (simp_all add: same_layout_def)
  have fits: "\<forall>h<length bs. bs ! h \<noteq> [] \<longrightarrow> counts b i ! (Suc g + h) + length (bs ! h) \<le> max_blocks_per_req b ! (Suc g + h)"
    unfolding lay B(3) using Cons.prems(4)
    by (metis Suc_less_eq add_Suc add_Suc_right length_Cons nth_Cons_Suc nth_list_update_neq less_add_Suc1 less_irrefl_nat)
  obtain bt' where I: "foldE (append_group_blocks i) (enumerate (Suc g) bs) b = Inr bt'" "tables_wf n bt'" "same_layout b bt'"
    "counts bt' i = take (Suc g) (counts b i) @ map2 (+) (take (length bs) (drop (Suc g) (counts b i))) (map length bs) @
      drop (Suc g + length bs) (counts b i)" "\<forall>k. k \<noteq> i \<longrightarrow> counts bt' k = counts b k"
    using Cons.IH [OF B(1) Cons.prems(2) _ fits] Cons.prems(3,5) lay(1) by auto
  have "take (Suc g) (counts b i) = take g (counts bt i) @ [counts bt i ! g + length ids]"
    unfolding B(3) using gc by (simp add: take_Suc_conv_app_nth)
  moreover have "drop (Suc g) (counts b i) = drop (Suc g) (counts bt i)" unfolding B(3) by simp
  moreover have "drop (Suc g + length bs) (counts b i) = drop (Suc g + length bs) (counts bt i)" unfolding B(3) by simp
  moreover have "take (length (ids # bs)) (drop g (counts bt i)) = counts bt i ! g # take (length bs) (drop (Suc g) (counts bt i))"
    using gc by (simp add: Cons_nth_drop_Suc [symmetric])
  ultimately have "counts bt' i = take g (counts bt i) @ map2 (+) (take (length (ids # bs)) (drop g (counts bt i))) (map length (ids # bs)) @
      drop (g + length (ids # bs)) (counts bt i)" using I(4) by simp
  then show ?case using step I(1,2) same_layout_trans [OF B(2) I(3)] I(5) B(4) by (simp add: enumerate_simps)
qed simp

subsection \<open>Requests that come and requests that go on\<close>

definition given_tokens :: "new_request_data \<Rightarrow> int list" where
  "given_tokens nr = (if nr_prefill_token_ids nr = [] then nr_prompt_token_ids nr else nr_prefill_token_ids nr)"

definition given_max :: "new_request_data \<Rightarrow> int" where
  "given_max nr = (case nr_sampling_params nr of None \<Rightarrow> 0 | Some s \<Rightarrow> (case sp_max_tokens s of None \<Rightarrow> 0 | Some k \<Rightarrow> k))"

definition new_view :: "new_request_data \<Rightarrow> slot_view" where
  "new_view nr =
     (let prompt = int (length (nr_prompt_token_ids nr)); prefill = int (length (given_tokens nr)) in
      \<lparr>sv_prompt = prompt, sv_prefill = prefill, sv_computed = nr_num_computed_tokens nr,
       sv_computed_prefill = nr_num_computed_tokens nr, sv_max_seq = prompt + given_max nr,
       sv_output = max 0 (prefill - prompt), sv_blocks = map length (nr_block_ids nr)\<rparr>)"

definition unconstrained :: "sampling_params option \<Rightarrow> bool" where
  "unconstrained sp \<longleftrightarrow> (case sp of None \<Rightarrow> True | Some s \<Rightarrow> sp_constraint s = None)"

text \<open>The policies that are implemented, over requests without constraints.\<close>

definition sampleable :: "'g sim_model \<Rightarrow> bool" where
  "sampleable m \<longleftrightarrow> constrained_plans m = [] \<and> content_policy m = ''pseudoword'' \<and>
     (output_length_policy m \<in> {''from_request'', ''fixed'', ''lognormal''} \<or>
      output_length_policy m = ''uniform'' \<and> fst (output_length_range m) \<le> snd (output_length_range m))"

lemma sampleable_updates [simp]:
  "sampleable (set_request_eos rid e m) = sampleable m" "sampleable (set_request_seed rid s m) = sampleable m"
  "sampleable m \<Longrightarrow> sampleable (forget_request rid m)"
  by (auto simp: sampleable_def set_request_eos_def set_request_seed_def forget_request_def split: option.split)

text \<open>What the scheduler sends fits the arrays of 32-bit integers.\<close>

definition new_fits32 :: "new_request_data \<Rightarrow> bool" where
  "new_fits32 nr \<longleftrightarrow> list_all fits32 (given_tokens nr) \<and> (\<forall>ids\<in>set (nr_block_ids nr). list_all fits32 ids) \<and>
     fits32 (int (length (given_tokens nr))) \<and> fits32 (nr_num_computed_tokens nr) \<and>
     fits32 (int (length (nr_prompt_token_ids nr)) + given_max nr) \<and>
     (nr_pooling nr \<longrightarrow> list_all fits_bytes (nr_prompt_token_ids nr))"

definition row_fits32 :: "cached_row \<Rightarrow> bool" where
  "row_fits32 cr \<longleftrightarrow> list_all fits32 (cr_new_token_ids cr) \<and> fits32 (int (length (cr_new_token_ids cr))) \<and>
     fits32 (cr_num_computed_tokens cr) \<and> fits32 (cr_num_output_tokens cr) \<and>
     (case cr_new_block_ids cr of None \<Rightarrow> True | Some bs \<Rightarrow> \<forall>ids\<in>set bs. list_all fits32 ids)"

definition admissible_new :: "'g model_runner \<Rightarrow> new_request_data \<Rightarrow> bool" where
  "admissible_new mr nr \<longleftrightarrow>
     length (nr_block_ids nr) = length (bt_block_sizes (mr_tables mr)) \<and>
     (\<forall>g<length (nr_block_ids nr). length (nr_block_ids nr ! g) \<le> max_blocks_per_req (mr_tables mr) ! g) \<and>
     length (nr_prompt_token_ids nr) \<le> length (given_tokens nr) \<and> unconstrained (nr_sampling_params nr) \<and> new_fits32 nr"

definition same_device :: "'g model_runner \<Rightarrow> 'g model_runner \<Rightarrow> bool" where
  "same_device mr mr' \<longleftrightarrow> mr_max_num_reqs mr' = mr_max_num_reqs mr \<and> mr_num_spec_tokens mr' = mr_num_spec_tokens mr \<and>
     same_layout (mr_tables mr) (mr_tables mr') \<and> (sampleable (mr_model mr) \<longrightarrow> sampleable (mr_model mr'))"

lemma same_device_refl [simp]: "same_device mr mr"
  by (simp add: same_device_def)

lemma same_device_trans: "same_device a b \<Longrightarrow> same_device b c \<Longrightarrow> same_device a c"
  using same_layout_trans by (auto simp: same_device_def)

lemma ws_add_ok:
  assumes w: "states_wf n ws" and new: "rid \<notin> fst ` set (ws_index ws)" and room: "card (fst ` set (ws_index ws)) < n"
    and p: "0 \<le> prompt" "prompt \<le> int (length toks)"
    and fit: "fits32 (int (length toks))" "fits32 computed" "fits32 (prompt + max_toks)"
    and toks: "tokens_wf ws" "list_all fits32 toks"
  shows "\<exists>i ws'. ws_add_request rid prompt toks computed max_toks ws = Inr (i, ws') \<and> states_wf n ws' \<and> tokens_wf ws' \<and> i < n \<and>
    ws_index ws' = ws_index ws @ [(rid, i)] \<and> i \<notin> snd ` set (ws_index ws) \<and>
    (\<forall>bt. view ws' bt i = \<lparr>sv_prompt = prompt, sv_prefill = int (length toks), sv_computed = computed,
       sv_computed_prefill = computed, sv_max_seq = prompt + max_toks, sv_output = max 0 (int (length toks) - prompt),
       sv_blocks = counts bt i\<rparr>) \<and>
    (\<forall>bt j. j \<noteq> i \<longrightarrow> view ws' bt j = view ws bt j)"
proof -
  have f: "free_indices ws \<noteq> []" using free_room [OF w] room by auto
  let ?i = "last (free_indices ws)"
  have split: "free_indices ws = butlast (free_indices ws) @ [?i]" using f by simp
  have D: "distinct (map fst (ws_index ws))" "distinct (map snd (ws_index ws) @ free_indices ws)"
    "set (map snd (ws_index ws)) \<union> set (free_indices ws) = {0..<n}" using w by (auto simp: states_wf_def)
  have mem: "?i \<in> set (free_indices ws)" using f by simp
  then have i: "?i < n" "?i \<notin> snd ` set (ws_index ws)" using D by (auto simp: image_iff)
  have idx: "AList.update rid ?i (ws_index ws) = ws_index ws @ [(rid, ?i)]"
    using new update_new [of rid "ws_index ws"] by simp
  have "fits32 prompt" "fits32 (max 0 (int (length toks) - prompt))" using p fit(1) by (auto simp: fits32_def)
  then have all: "list_all fits32 [prompt, int (length toks), computed, prompt + max_toks, max 0 (int (length toks) - prompt)]"
    using fit by simp
  obtain i ws' where A: "ws_add_request rid prompt toks computed max_toks ws = Inr (i, ws')" "i = ?i"
    using f p all unfolding ws_add_request_def Let_def by auto
  have ws': "ws' = ws\<lparr>free_indices := butlast (free_indices ws),
                 ws_index := ws_index ws @ [(rid, ?i)], ws_ids := AList.update ?i rid (ws_ids ws),
                 ws_prompt_len := (ws_prompt_len ws)[?i := prompt], ws_prefill_len := (ws_prefill_len ws)[?i := int (length toks)],
                 ws_total_len := (ws_total_len ws)[?i := int (length toks)],
                 ws_num_computed_tokens := (ws_num_computed_tokens ws)[?i := computed],
                 ws_num_computed_prefill_tokens := (ws_num_computed_prefill_tokens ws)[?i := computed],
                 ws_max_seq_len := (ws_max_seq_len ws)[?i := prompt + max_toks],
                 ws_num_output_tokens := (ws_num_output_tokens ws)[?i := max 0 (int (length toks) - prompt)],
                 ws_token_ids := AList.update ?i toks (ws_token_ids ws)\<rparr>"
    using A f p(2) idx all unfolding ws_add_request_def Let_def by auto
  have "distinct (map snd (ws_index ws) @ butlast (free_indices ws) @ [?i])" using D(2) split by metis
  then have dist: "distinct ((map snd (ws_index ws) @ [?i]) @ butlast (free_indices ws))" by auto
  have "set (map snd (ws_index ws)) \<union> set (butlast (free_indices ws) @ [?i]) = {0..<n}" using D(3) split by metis
  then have union: "set (map snd (ws_index ws) @ [?i]) \<union> set (butlast (free_indices ws)) = {0..<n}" by auto
  have "states_wf n ws'"
    using w D(1) new dist union unfolding ws' by (simp add: states_wf_def)
  moreover have "view ws' bt ?i = \<lparr>sv_prompt = prompt, sv_prefill = int (length toks), sv_computed = computed,
       sv_computed_prefill = computed, sv_max_seq = prompt + max_toks, sv_output = max 0 (int (length toks) - prompt),
       sv_blocks = counts bt ?i\<rparr>" for bt
    using w i(1) unfolding ws' by (simp add: view_def counts_def states_wf_def)
  moreover have "view ws' bt j = view ws bt j" if "j \<noteq> ?i" for bt j
    using that unfolding ws' by (simp add: view_def)
  moreover have "ws_index ws' = ws_index ws @ [(rid, ?i)]" unfolding ws' by simp
  moreover have "tokens_wf ws'"
  proof -
    have "\<exists>us. map_of (AList.update ?i toks (ws_token_ids ws)) j = Some us \<and> list_all fits32 us"
      if "map_of (ws_index ws @ [(rid, ?i)]) x = Some j" for x j
    proof (cases "j = ?i")
      case False
      then have "map_of (ws_index ws) x = Some j" using that by (auto simp: map_add_def split: option.splits if_splits)
      then show ?thesis using toks(1) False by (simp add: tokens_wf_def update_conv')
    qed (use toks(2) in \<open>simp add: update_conv'\<close>)
    then show ?thesis unfolding ws' tokens_wf_def by simp
  qed
  ultimately show ?thesis using A i by blast
qed

text \<open>What the runner is given: digests of 32 bytes, vectors of at most \<open>2 ^ 32\<close> components.\<close>

definition env_ok :: "'g runner_env \<Rightarrow> bool" where
  "env_ok E \<longleftrightarrow> digests (env_sim E) \<and> (\<forall>rid. env_dimensions E rid \<le> 2 ^ 32)"

lemma mr_add_ok:
  assumes env: "env_ok E" and w: "runner_wf mr" and new: "held mr (nr_req_id nr) = None" and room: "card (dom (held mr)) < mr_max_num_reqs mr"
    and adm: "admissible_new mr nr"
  shows "\<exists>mr'. mr_add_request E nr mr = Inr mr' \<and> runner_wf mr' \<and> same_device mr mr' \<and>
    held mr' = (held mr)(nr_req_id nr \<mapsto> new_view nr) \<and>
    map_of (pooling_requests mr') = (if nr_pooling nr
      then (map_of (pooling_requests mr))(nr_req_id nr \<mapsto> (env_dimensions E (nr_req_id nr), nr_prompt_token_ids nr))
      else map_of (pooling_requests mr))"
proof -
  let ?rid = "nr_req_id nr" and ?n = "mr_max_num_reqs mr" and ?ws = "mr_states mr" and ?bt = "mr_tables mr"
  have sw: "states_wf ?n ?ws" and tw: "tables_wf ?n ?bt" using w by (simp_all add: runner_wf_def)
  have fresh: "?rid \<notin> fst ` set (ws_index ?ws)" using new held_None by metis
  have len: "int (length (nr_prompt_token_ids nr)) \<le> int (length (given_tokens nr))" using adm by (simp add: admissible_new_def)
  have tok: "tokens_wf ?ws" and pool: "pooled_wf (pooling_requests mr)" using w by (simp_all add: runner_wf_def)
  have fit: "fits32 (int (length (given_tokens nr)))" "fits32 (nr_num_computed_tokens nr)"
    "fits32 (int (length (nr_prompt_token_ids nr)) + given_max nr)" "list_all fits32 (given_tokens nr)"
    "\<forall>ids\<in>set (nr_block_ids nr). list_all fits32 ids" "nr_pooling nr \<Longrightarrow> list_all fits_bytes (nr_prompt_token_ids nr)"
    using adm by (simp_all add: admissible_new_def new_fits32_def)
  from ws_add_ok [OF sw fresh _ of_nat_0_le_iff len fit(1-3) tok fit(4)] room dom_held [of mr] obtain i ws where
    A: "ws_add_request ?rid (int (length (nr_prompt_token_ids nr))) (given_tokens nr) (nr_num_computed_tokens nr) (given_max nr) ?ws = Inr (i, ws)"
    "states_wf ?n ws" "i < ?n" "ws_index ws = ws_index ?ws @ [(?rid, i)]" "i \<notin> snd ` set (ws_index ?ws)"
    and tok1: "tokens_wf ws"
    and V: "\<And>bt. view ws bt i = \<lparr>sv_prompt = int (length (nr_prompt_token_ids nr)), sv_prefill = int (length (given_tokens nr)),
       sv_computed = nr_num_computed_tokens nr, sv_computed_prefill = nr_num_computed_tokens nr,
       sv_max_seq = int (length (nr_prompt_token_ids nr)) + given_max nr,
       sv_output = max 0 (int (length (given_tokens nr)) - int (length (nr_prompt_token_ids nr))), sv_blocks = counts bt i\<rparr>"
    and other: "\<And>bt j. j \<noteq> i \<Longrightarrow> view ws bt j = view ?ws bt j" by auto
  have G: "length (nr_block_ids nr) = length (bt_block_sizes ?bt)" "\<forall>h<length (nr_block_ids nr). length (nr_block_ids nr ! h) \<le> max_blocks_per_req ?bt ! (0 + h)"
    using adm by (simp_all add: admissible_new_def)
  have cl: "length (counts ?bt i) = length (bt_block_sizes ?bt)" using tw by (simp add: length_counts tables_wf_def)
  from set_blocks_ok [OF tw A(3) _ G(2) fit(5)] G(1) cl obtain bt where
    B: "set_block_ids i (nr_block_ids nr) ?bt = Inr bt" "tables_wf ?n bt" "same_layout ?bt bt"
      "counts bt i = map length (nr_block_ids nr)" "\<And>k. k \<noteq> i \<Longrightarrow> counts bt k = counts ?bt k"
    by (auto simp: set_block_ids_def)
  have M: "maybe_set_constraint E ?rid (nr_sampling_params nr) (mr_model mr) = Inr (mr_model mr)"
    using adm by (auto simp: admissible_new_def unconstrained_def maybe_set_constraint_def split: option.splits)
  define ws1 where "ws1 = (if nr_mm_features nr = [] then ws
      else ws\<lparr>ws_mm_features := AList.update ?rid (nr_mm_features nr) (ws_mm_features ws)\<rparr>)"
  have v1: "view ws1 b j = view ws b j" "ws_index ws1 = ws_index ws" for b j by (simp_all add: ws1_def view_def)
  have wf1: "states_wf ?n ws1" using A(2) by (simp add: ws1_def states_wf_def)
  obtain mr' where R: "mr_add_request E nr mr = Inr mr'" "mr_states mr' = ws1" "mr_tables mr' = bt"
    "mr_max_num_reqs mr' = ?n" "mr_num_spec_tokens mr' = mr_num_spec_tokens mr"
    "sampleable (mr_model mr') = sampleable (mr_model mr)"
    "pooling_requests mr' = (if nr_pooling nr then AList.update ?rid (env_dimensions E ?rid, nr_prompt_token_ids nr) (pooling_requests mr)
       else pooling_requests mr)"
    using A(1) B(1) M unfolding mr_add_request_def Let_def given_tokens_def given_max_def ws1_def
    by simp
  have "held mr' = (held mr)(?rid \<mapsto> new_view nr)"
  proof
    fix x
    show "held mr' x = ((held mr)(?rid \<mapsto> new_view nr)) x"
    proof (cases "x = ?rid")
      case True
      have "map_of (ws_index ?ws @ [(?rid, i)]) ?rid = Some i" using map_of_eq_None_iff [THEN iffD2, OF fresh] by (simp add: map_add_def)
      then show ?thesis using True R(2,3) v1 A(4) V B(4) by (simp add: held_def new_view_def Let_def)
    next
      case False
      have m: "map_of (ws_index ?ws @ [(?rid, i)]) x = map_of (ws_index ?ws) x" using False by (simp add: map_add_def split: option.split)
      show ?thesis
      proof (cases "map_of (ws_index ?ws) x")
        case None
        then show ?thesis using False m R(2) v1(2) A(4) by (simp add: held_def)
      next
        case (Some j)
        then have "j \<noteq> i" using A(5) by (force dest: map_of_SomeD)
        then have "view ws bt j = view ?ws ?bt j" using other B(5) by (simp add: view_def counts_def)
        then show ?thesis using False m Some R(2,3) v1 A(4) by (simp add: held_def)
      qed
    qed
  qed
  moreover have "runner_wf mr'"
  proof -
    have "tokens_wf ws1" by (rule tokens_wf_cong [OF tok1]) (simp_all add: ws1_def)
    moreover have "pooled_wf (pooling_requests mr')"
      using pooled_wf_update [OF pool] pool fit(6) env unfolding R(7) by (simp add: env_ok_def)
    ultimately show ?thesis using R wf1 B(2) by (simp add: runner_wf_def)
  qed
  moreover have "same_device mr mr'" using R B(3) by (simp add: same_device_def)
  moreover have "map_of (AList.update ?rid v xs) = (map_of xs)(?rid \<mapsto> v)" for v and xs :: "(string \<times> int \<times> int list) list" by (rule update_conv')
  ultimately show ?thesis using R(1,7) by auto
qed

definition updated_view :: "cached_row \<Rightarrow> slot_view \<Rightarrow> slot_view" where
  "updated_view cr v = v\<lparr>sv_computed := cr_num_computed_tokens cr,
     sv_computed_prefill := min (cr_num_computed_tokens cr) (sv_prefill v), sv_output := cr_num_output_tokens cr,
     sv_blocks := (case cr_new_block_ids cr of None \<Rightarrow> sv_blocks v | Some bs \<Rightarrow> map2 (+) (sv_blocks v) (map length bs))\<rparr>"

definition admissible_row :: "'g model_runner \<Rightarrow> cached_row \<Rightarrow> bool" where
  "admissible_row mr cr \<longleftrightarrow>
     (\<exists>v. held mr (cr_req_id cr) = Some v \<and>
        (case cr_new_block_ids cr of None \<Rightarrow> True
         | Some bs \<Rightarrow> length bs = length (bt_block_sizes (mr_tables mr)) \<and>
             (\<forall>g<length bs. bs ! g \<noteq> [] \<longrightarrow> sv_blocks v ! g + length (bs ! g) \<le> max_blocks_per_req (mr_tables mr) ! g)))"

lemma mr_update_ok:
  assumes w: "runner_wf mr" and v: "held mr (cr_req_id cr) = Some v" and adm: "admissible_row mr cr"
    and rf: "row_fits32 cr"
  shows "\<exists>mr'. mr_update_request cr mr = Inr mr' \<and> runner_wf mr' \<and> same_device mr mr' \<and>
    held mr' = (held mr)(cr_req_id cr \<mapsto> updated_view cr v) \<and> pooling_requests mr' = pooling_requests mr"
proof -
  let ?rid = "cr_req_id cr" and ?n = "mr_max_num_reqs mr" and ?ws = "mr_states mr" and ?bt = "mr_tables mr"
  have sw: "states_wf ?n ?ws" and tw: "tables_wf ?n ?bt" using w by (simp_all add: runner_wf_def)
  from v obtain i where i: "map_of (ws_index ?ws) ?rid = Some i" "view ?ws ?bt i = v" by (auto simp: held_def)
  note lt = slot_range [OF sw i(1)]
  have vb: "sv_blocks v = counts ?bt i" using i(2) by (auto simp: view_def counts_def)
  have cl: "length (counts ?bt i) = length (bt_block_sizes ?bt)" using tw by (simp add: length_counts tables_wf_def)
  from w i(1) obtain old where old: "map_of (ws_token_ids ?ws) i = Some old" "list_all fits32 old"
    by (auto simp: runner_wf_def tokens_wf_def)
  have fit: "fits32 (cr_num_computed_tokens cr)" "fits32 (cr_num_output_tokens cr)" "fits32 (int (length (cr_new_token_ids cr)))"
    "list_all fits32 (cr_new_token_ids cr)" using rf by (simp_all add: row_fits32_def)
  define wsa where "wsa = (if cr_new_token_ids cr = [] then ?ws else with_tokens i old (cr_new_token_ids cr) ?ws)"
  have app: "append_tokens i (cr_new_token_ids cr) ?ws = Inr wsa" using old(1) fit(3) by (simp add: append_tokens_def wsa_def)
  define ws1 where "ws1 = (let ws = with_computed i (cr_num_computed_tokens cr) wsa
      in ws\<lparr>ws_num_output_tokens := (ws_num_output_tokens ws)[i := cr_num_output_tokens cr]\<rparr>)"
  note defs = ws1_def wsa_def with_computed_def with_tokens_def Let_def
  have W: "states_wf ?n ws1" "ws_index ws1 = ws_index ?ws"
    using sw by (simp_all add: defs states_wf_def)
  have T: "tokens_wf ws1"
  proof -
    have "\<exists>us. map_of (ws_token_ids ws1) j = Some us \<and> list_all fits32 us" if "map_of (ws_index ?ws) x = Some j" for x j
    proof (cases "j = i \<and> cr_new_token_ids cr \<noteq> []")
      case True
      then show ?thesis using old(2) fit(4) by (simp add: defs update_conv')
    next
      case False
      then have "map_of (ws_token_ids ws1) j = map_of (ws_token_ids ?ws) j" by (auto simp: defs update_conv')
      then show ?thesis using w that by (simp add: runner_wf_def tokens_wf_def)
    qed
    then show ?thesis unfolding tokens_wf_def W(2) by blast
  qed
  have Vi: "view ws1 b i = (view ?ws b i)\<lparr>sv_computed := cr_num_computed_tokens cr,
     sv_computed_prefill := min (cr_num_computed_tokens cr) (sv_prefill v), sv_output := cr_num_output_tokens cr\<rparr>" for b
    using sw lt i(2) by (auto simp: defs states_wf_def view_def)
  have Vj: "view ws1 b j = view ?ws b j" if "j \<noteq> i" for b j
    using that by (simp add: defs view_def)
  obtain bt where B: "(case cr_new_block_ids cr of None \<Rightarrow> Inr ?bt | Some blocks \<Rightarrow> append_block_ids i blocks ?bt) = Inr bt"
    "tables_wf ?n bt" "same_layout ?bt bt" "\<And>k. k \<noteq> i \<Longrightarrow> counts bt k = counts ?bt k"
    "counts bt i = (case cr_new_block_ids cr of None \<Rightarrow> counts ?bt i | Some bs \<Rightarrow> map2 (+) (counts ?bt i) (map length bs))"
  proof (cases "cr_new_block_ids cr")
    case None
    then show ?thesis using tw by (intro that [of ?bt]) simp_all
  next
    case (Some bs)
    then have adm': "length bs = length (bt_block_sizes ?bt)"
      "\<forall>g<length bs. bs ! g \<noteq> [] \<longrightarrow> counts ?bt i ! (0 + g) + length (bs ! g) \<le> max_blocks_per_req ?bt ! (0 + g)"
      using adm v vb by (auto simp: admissible_row_def)
    have "\<forall>ids\<in>set bs. list_all fits32 ids" using rf Some by (simp add: row_fits32_def)
    from append_blocks_ok [OF tw lt _ adm'(2) this] adm'(1) cl Some show ?thesis by (auto simp: append_block_ids_def intro: that)
  qed
  obtain mr' where R: "mr_update_request cr mr = Inr mr'" "mr_states mr' = ws1" "mr_tables mr' = bt" "mr_model mr' = mr_model mr"
    "mr_max_num_reqs mr' = ?n" "mr_num_spec_tokens mr' = mr_num_spec_tokens mr" "pooling_requests mr' = pooling_requests mr"
    using i(1) B(1) app fit(1,2) by (simp add: mr_update_request_def set_num_computed_tokens_def Let_def ws1_def)
  have "held mr' = (held mr)(?rid \<mapsto> updated_view cr v)"
  proof
    fix x
    show "held mr' x = ((held mr)(?rid \<mapsto> updated_view cr v)) x"
    proof (cases "x = ?rid")
      case True
      have "view ws1 bt i = updated_view cr v"
        unfolding Vi updated_view_def vb using i(2) B(5) by (auto simp: view_def counts_def split: option.split)
      then show ?thesis using True R(2,3) W(2) i(1) by (simp add: held_def)
    next
      case False
      show ?thesis
      proof (cases "map_of (ws_index ?ws) x")
        case None
        then show ?thesis using False R(2) W(2) by (simp add: held_def)
      next
        case (Some j)
        then have "j \<noteq> i" using slot_inj [OF sw Some] i(1) False by blast
        then have "view ws1 bt j = view ?ws ?bt j" using Vj B(4) by (simp add: view_def counts_def)
        then show ?thesis using False Some R(2,3) W(2) by (simp add: held_def)
      qed
    qed
  qed
  moreover have "runner_wf mr'" using R W(1) B(2) T w by (simp add: runner_wf_def)
  moreover have "same_device mr mr'" using R B(3) by (simp add: same_device_def)
  ultimately show ?thesis using R(1,7) by blast
qed

definition row_for :: "cached_row list \<Rightarrow> string \<Rightarrow> cached_row option" where
  "row_for rows x = map_of (map (\<lambda>cr. (cr_req_id cr, cr)) rows) x"

definition new_for :: "new_request_data list \<Rightarrow> string \<Rightarrow> new_request_data option" where
  "new_for news x = map_of (map (\<lambda>nr. (nr_req_id nr, nr)) news) x"

lemma row_for_simps [simp]:
  "row_for [] x = None" "row_for (cr # rows) x = (if cr_req_id cr = x then Some cr else row_for rows x)"
  "new_for [] x = None" "new_for (nr # news) x = (if nr_req_id nr = x then Some nr else new_for news x)"
  by (auto simp: row_for_def new_for_def)

lemma row_for_None: "row_for rows x = None \<longleftrightarrow> x \<notin> cr_req_id ` set rows"
  and new_for_None: "new_for news x = None \<longleftrightarrow> x \<notin> nr_req_id ` set news"
  by (force simp: row_for_def new_for_def map_of_eq_None_iff)+

lemma row_for_Some: "row_for rows x = Some cr \<Longrightarrow> cr \<in> set rows \<and> cr_req_id cr = x"
  and new_for_Some: "new_for news x = Some nr \<Longrightarrow> nr \<in> set news \<and> nr_req_id nr = x"
  by (force simp: row_for_def new_for_def dest!: map_of_SomeD)+

lemma add_requests_ok:
  assumes env: "env_ok E" and "runner_wf mr" and "distinct (map nr_req_id news)" and "\<forall>nr\<in>set news. held mr (nr_req_id nr) = None"
    and "card (dom (held mr)) + length news \<le> mr_max_num_reqs mr" and "\<forall>nr\<in>set news. admissible_new mr nr"
  shows "\<exists>mr'. foldE (mr_add_request E) news mr = Inr mr' \<and> runner_wf mr' \<and> same_device mr mr' \<and>
    held mr' = (\<lambda>x. case new_for news x of None \<Rightarrow> held mr x | Some nr \<Rightarrow> Some (new_view nr)) \<and>
    dom (map_of (pooling_requests mr')) = dom (map_of (pooling_requests mr)) \<union> nr_req_id ` {nr \<in> set news. nr_pooling nr}"
  using assms(2-)
proof (induction news arbitrary: mr)
  case (Cons nr news)
  let ?id = "nr_req_id nr"
  from mr_add_ok [OF env Cons.prems(1), of nr] Cons.prems obtain mr1 where
    A: "mr_add_request E nr mr = Inr mr1" "runner_wf mr1" "same_device mr mr1" "held mr1 = (held mr)(?id \<mapsto> new_view nr)"
    "map_of (pooling_requests mr1) = (if nr_pooling nr
      then (map_of (pooling_requests mr))(?id \<mapsto> (env_dimensions E ?id, nr_prompt_token_ids nr)) else map_of (pooling_requests mr))"
    by auto
  have fin: "finite (dom (held mr))" using dom_held [of mr] by simp
  have card: "card (dom (held mr1)) = Suc (card (dom (held mr)))"
    unfolding A(4) dom_fun_upd using fin Cons.prems(3) by (simp add: card_insert_if domIff)
  have adm: "\<forall>nr\<in>set news. admissible_new mr1 nr"
    using Cons.prems(5) A(3) by (auto simp: admissible_new_def same_device_def same_layout_def)
  have free: "\<forall>x\<in>set news. held mr1 (nr_req_id x) = None"
  proof
    fix x assume x: "x \<in> set news"
    then have "nr_req_id x \<noteq> ?id" using Cons.prems(2) by (metis distinct.simps(2) image_eqI list.set_map list.simps(9))
    then show "held mr1 (nr_req_id x) = None" using Cons.prems(3) x by (simp add: A(4))
  qed
  have room: "card (dom (held mr1)) + length news \<le> mr_max_num_reqs mr1"
    using Cons.prems(4) card A(3) by (simp add: same_device_def)
  from Cons.IH [OF A(2) _ free room adm] Cons.prems(2) obtain mr2 where
    I: "foldE (mr_add_request E) news mr1 = Inr mr2" "runner_wf mr2" "same_device mr1 mr2"
    "held mr2 = (\<lambda>x. case new_for news x of None \<Rightarrow> held mr1 x | Some nr \<Rightarrow> Some (new_view nr))"
    "dom (map_of (pooling_requests mr2)) = dom (map_of (pooling_requests mr1)) \<union> nr_req_id ` {nr \<in> set news. nr_pooling nr}"
    by auto
  have none: "new_for news ?id = None" using Cons.prems(2) by (auto simp: new_for_None)
  have "held mr2 = (\<lambda>x. case new_for (nr # news) x of None \<Rightarrow> held mr x | Some nr \<Rightarrow> Some (new_view nr))"
    unfolding I(4) A(4) by (rule ext) (auto simp: none split: option.split)
  moreover have "dom (map_of (pooling_requests mr2)) =
      dom (map_of (pooling_requests mr)) \<union> nr_req_id ` {x \<in> set (nr # news). nr_pooling x}"
  proof -
    have "dom (map_of (pooling_requests mr1)) = dom (map_of (pooling_requests mr)) \<union> (if nr_pooling nr then {?id} else {})"
      unfolding A(5) by auto
    then show ?thesis unfolding I(5) by auto
  qed
  ultimately show ?case using A(1) I(1,2) same_device_trans [OF A(3) I(3)] by auto
qed simp

lemma update_requests_ok:
  assumes "runner_wf mr" and "distinct (map cr_req_id rows)" and "\<forall>cr\<in>set rows. admissible_row mr cr"
    and "\<forall>cr\<in>set rows. row_fits32 cr"
  shows "\<exists>mr'. foldE mr_update_request rows mr = Inr mr' \<and> runner_wf mr' \<and> same_device mr mr' \<and>
    held mr' = (\<lambda>x. case row_for rows x of None \<Rightarrow> held mr x | Some cr \<Rightarrow> map_option (updated_view cr) (held mr x)) \<and>
    pooling_requests mr' = pooling_requests mr"
  using assms
proof (induction rows arbitrary: mr)
  case (Cons cr rows)
  let ?id = "cr_req_id cr"
  obtain v where v: "held mr ?id = Some v" using Cons.prems(3) by (auto simp: admissible_row_def)
  from mr_update_ok [OF Cons.prems(1) v] Cons.prems(3,4) obtain mr1 where
    A: "mr_update_request cr mr = Inr mr1" "runner_wf mr1" "same_device mr mr1" "held mr1 = (held mr)(?id \<mapsto> updated_view cr v)"
    "pooling_requests mr1 = pooling_requests mr" by auto
  have "admissible_row mr1 x" if "x \<in> set rows" for x
  proof -
    have "cr_req_id x \<noteq> ?id" using that Cons.prems(2) by (metis distinct.simps(2) image_eqI list.set_map list.simps(9))
    then have "held mr1 (cr_req_id x) = held mr (cr_req_id x)" by (simp add: A(4))
    moreover have "bt_block_sizes (mr_tables mr1) = bt_block_sizes (mr_tables mr)"
      "max_blocks_per_req (mr_tables mr1) = max_blocks_per_req (mr_tables mr)"
      using A(3) by (simp_all add: same_device_def same_layout_def)
    ultimately have "admissible_row mr1 x = admissible_row mr x" by (simp only: admissible_row_def)
    then show ?thesis using Cons.prems(3) that by simp
  qed
  with Cons.IH [OF A(2)] Cons.prems(2,4) obtain mr2 where
    I: "foldE mr_update_request rows mr1 = Inr mr2" "runner_wf mr2" "same_device mr1 mr2"
    "held mr2 = (\<lambda>x. case row_for rows x of None \<Rightarrow> held mr1 x | Some cr \<Rightarrow> map_option (updated_view cr) (held mr1 x))"
    "pooling_requests mr2 = pooling_requests mr1" by auto
  have none: "row_for rows ?id = None" using Cons.prems(2) by (auto simp: row_for_None)
  have "held mr2 = (\<lambda>x. case row_for (cr # rows) x of None \<Rightarrow> held mr x | Some cr \<Rightarrow> map_option (updated_view cr) (held mr x))"
    unfolding I(4) A(4) by (rule ext) (auto simp: none v split: option.split)
  then show ?case using A(1,5) I(1,2,5) same_device_trans [OF A(3) I(3)] by auto
qed simp

section \<open>The input of a step\<close>

lemma mapE_slots:
  "\<forall>rid\<in>set ids. map_of (ws_index ws) rid \<noteq> None \<Longrightarrow> mapE (slot_of ws) ids = Inr (map (\<lambda>rid. the (map_of (ws_index ws) rid)) ids)"
  by (induction ids) (auto simp: slot_of_def)

lemma offsets_nth: "j \<le> length ks \<Longrightarrow> offsets a ks ! j = a + sum_list (take j ks)"
  by (induction ks arbitrary: a j) (auto simp: nth_Cons split: nat.split)

lemma drop_concat: "drop (sum_list (map length (take j xss))) (concat xss) = concat (drop j xss)"
  by (induction xss arbitrary: j) (auto simp: take_Cons drop_Cons split: nat.split)

lemma batch_rows_spans:
  assumes "length is = length spans"
  shows "batch_rows is (concat spans) (offsets 0 (map length spans)) = zip is spans"
proof (rule nth_equalityI)
  fix k assume "k < length (batch_rows is (concat spans) (offsets 0 (map length spans)))"
  then have k: "k < length is" "k < length spans" using assms by (simp_all add: batch_rows_def)
  let ?o = "offsets 0 (map length spans)"
  have o: "?o ! k = sum_list (map length (take k spans))" "?o ! Suc k = sum_list (map length (take k spans)) + length (spans ! k)"
    using k(2) by (simp_all add: offsets_nth take_map take_Suc_conv_app_nth)
  have "drop (?o ! k) (concat spans) = spans ! k @ concat (drop (Suc k) spans)"
    unfolding o(1) drop_concat using k(2) by (simp add: Cons_nth_drop_Suc [symmetric])
  then have "take (?o ! Suc k - ?o ! k) (drop (?o ! k) (concat spans)) = spans ! k" using o by simp
  then show "batch_rows is (concat spans) ?o ! k = zip is spans ! k"
    using k assms by (simp add: batch_rows_def nth_enumerate_eq)
qed (use assms in \<open>simp add: batch_rows_def\<close>)

text \<open>The step as the table sees it.\<close>

abbreviation granted_to :: "(string \<times> int) list \<Rightarrow> string \<Rightarrow> int" where
  "granted_to ns rid \<equiv> the (map_of ns rid)"

definition view_of :: "'g model_runner \<Rightarrow> string \<Rightarrow> slot_view" where
  "view_of mr rid = the (held mr rid)"

definition still_prefilling :: "slot_view \<Rightarrow> int \<Rightarrow> bool" where
  "still_prefilling v n \<longleftrightarrow> sv_computed_prefill v + n < sv_prefill v"

definition fits_tables :: "'g model_runner \<Rightarrow> slot_view \<Rightarrow> int \<Rightarrow> bool" where
  "fits_tables mr v n \<longleftrightarrow> 0 \<le> sv_computed v \<and> 1 \<le> n \<and> fits32 (sv_computed v + n) \<and> fits32 (sv_computed_prefill v + n) \<and>
     (\<forall>g<length (bt_block_sizes (mr_tables mr)).
        0 < bt_block_sizes (mr_tables mr) ! g \<and> sv_computed v + n \<le> int (sv_blocks v ! g) * bt_block_sizes (mr_tables mr) ! g)"

lemma sort_batch_ids:
  "set (sort_batch_req_ids ns d) = fst ` set ns" "distinct (map fst ns) \<Longrightarrow> distinct (sort_batch_req_ids ns d)"
  by (simp_all add: sort_batch_req_ids_def)

lemma last_offsets: "last (offsets a ks) = a + sum_list ks"
proof -
  have "length (offsets a ks) = Suc (length ks)" by (induction ks arbitrary: a) simp_all
  then show ?thesis using offsets_nth [of "length ks" ks a] by (simp add: last_conv_nth [of "offsets a ks"] flip: length_greater_0_conv)
qed

lemma total_scheduled:
  assumes "distinct (map fst ns)" and "\<forall>(rid, n)\<in>set ns. 0 \<le> n"
  shows "int (last (offsets 0 (map nat (map (granted_to ns) (sort_batch_req_ids ns d))))) = sum_list (map snd ns)"
proof -
  have g: "granted_to ns rid = n" if "(rid, n) \<in> set ns" for rid n using assms(1) that by simp
  have perm: "sum_list (map f (linorder_class.sort_key k xs)) = sum_list (map f xs)"
    for f :: "string \<Rightarrow> nat" and k :: "string \<Rightarrow> bool \<times> string" and xs
    by (metis mset_map mset_sort sum_mset_sum_list)
  have "last (offsets 0 (map nat (map (granted_to ns) (sort_batch_req_ids ns d)))) =
      sum_list (map (\<lambda>rid. nat (granted_to ns rid)) (map fst ns))"
    by (simp add: last_offsets sort_batch_req_ids_def perm comp_def)
  also have "\<dots> = sum_list (map (\<lambda>(rid, n). nat n) ns)"
    unfolding map_map by (rule arg_cong [of _ _ sum_list], rule map_cong [OF refl]) (auto simp: g)
  finally have "int (last (offsets 0 (map nat (map (granted_to ns) (sort_batch_req_ids ns d))))) = int (sum_list (map (\<lambda>(rid, n). nat n) ns))" by simp
  also have "\<dots> = sum_list (map snd ns)" using assms(2) by (induction ns) auto
  finally show ?thesis .
qed

lemma mapE_store: "\<forall>x\<in>set xs. fits32 (f x) \<Longrightarrow> mapE (\<lambda>x. store32 (f x)) xs = Inr (map f xs)"
  by (induction xs) simp_all

lemma token_row_ok:
  assumes "map_of (ws_token_ids ws) i = Some toks" and "list_all fits32 toks" and "\<forall>p\<in>set ps. 0 \<le> p"
  shows "\<exists>row. token_row ws (i, ps) = Inr row"
proof -
  have "fits32 (token_or_zero toks p)" if "0 \<le> p" for p
    using assms(2) that by (auto simp: token_or_zero_def list_all_iff fits32_def)
  then have "mapE (\<lambda>p. store32 (token_or_zero toks p)) ps = Inr (map (token_or_zero toks) ps)" using assms(3) by (intro mapE_store) blast
  then show ?thesis using assms(1) by (simp add: token_row_def)
qed

text \<open>Nothing above checks the range of a client's token ids: one past 32 bits makes the step raise.\<close>

lemma token_row_overflow:
  assumes "map_of (ws_token_ids ws) i = Some toks" and "p \<in> set ps" and "p < int (length toks)" and "\<not> fits32 (toks ! nat p)"
  shows "token_row ws (i, ps) = Inl OverflowError"
proof -
  have "mapE (\<lambda>p. store32 (token_or_zero toks p)) ps = Inl OverflowError" using assms(2)
    by (induction ps) (use assms(3,4) in \<open>auto simp: store32_def token_or_zero_def\<close>)
  then show ?thesis using assms(1) by (simp add: token_row_def)
qed

text \<open>What a step asks of the batch: every scheduled request is held, with blocks for its tokens.\<close>

definition step_fits :: "(string \<times> int) list \<Rightarrow> 'g model_runner \<Rightarrow> bool" where
  "step_fits ns mr \<longleftrightarrow> distinct (map fst ns) \<and> fits32 (sum_list (map snd ns)) \<and> tokens_wf (mr_states mr) \<and>
     (\<forall>rid\<in>fst ` set ns. \<exists>v. held mr rid = Some v \<and> fits_tables mr v (granted_to ns rid))"

lemma step_fitsD:
  assumes "step_fits ns mr" and "rid \<in> set (sort_batch_req_ids ns d)"
  shows "held mr rid = Some (view_of mr rid)" and "fits_tables mr (view_of mr rid) (granted_to ns rid)"
proof -
  have "rid \<in> fst ` set ns" using assms(2) unfolding sort_batch_ids .
  then obtain v where "held mr rid = Some v" "fits_tables mr v (granted_to ns rid)" using assms(1) unfolding step_fits_def by blast
  then show "held mr rid = Some (view_of mr rid)" "fits_tables mr (view_of mr rid) (granted_to ns rid)"
    by (simp_all add: view_of_def)
qed

lemma prepare_inputs_ok:
  assumes S: "step_fits ns mr"
  shows "\<exists>ib. prepare_inputs d ns (mr_states mr) = Inr ib \<and> ib_req_ids ib = sort_batch_req_ids ns d \<and>
    ib_idx_mapping ib = map (\<lambda>rid. the (map_of (ws_index (mr_states mr)) rid)) (ib_req_ids ib) \<and>
    seq_lens ib = map (\<lambda>rid. sv_computed (view_of mr rid) + granted_to ns rid) (ib_req_ids ib) \<and>
    is_prefilling ib = map (\<lambda>rid. still_prefilling (view_of mr rid) (granted_to ns rid)) (ib_req_ids ib) \<and>
    ib_num_scheduled_tokens ib = map (granted_to ns) (ib_req_ids ib) \<and>
    query_start_loc ib = offsets 0 (map nat (ib_num_scheduled_tokens ib)) \<and>
    ib_positions ib = concat (map (\<lambda>rid. [sv_computed (view_of mr rid)..sv_computed (view_of mr rid) + granted_to ns rid - 1]) (ib_req_ids ib))"
proof -
  let ?ids = "sort_batch_req_ids ns d" and ?ws = "mr_states mr"
  let ?slot = "\<lambda>rid. the (map_of (ws_index ?ws) rid)"
  have at: "map_of (ws_index ?ws) rid \<noteq> None" "view ?ws (mr_tables mr) (?slot rid) = view_of mr rid" if "rid \<in> set ?ids" for rid
    using step_fitsD(1) [OF S that] by (auto simp: held_def view_of_def)
  have F: "0 \<le> sv_computed (view_of mr rid)" "1 \<le> granted_to ns rid" "fits32 (sv_computed (view_of mr rid) + granted_to ns rid)"
    "fits32 (sv_computed_prefill (view_of mr rid) + granted_to ns rid)" if "rid \<in> set ?ids" for rid
    using step_fitsD(2) [OF S that] by (simp_all add: fits_tables_def)
  have n32: "fits32 (granted_to ns rid)" if "rid \<in> set ?ids" for rid using F(1-3) [OF that] by (simp add: fits32_def)
  have all32: "list_all fits32 (map (granted_to ns) ?ids)" using n32 by (simp add: list_all_iff)
  have "\<forall>(rid, n)\<in>set ns. 0 \<le> n"
  proof (rule ballI, rule case_prodI2, simp only: )
    fix rid n assume "(rid, n) \<in> set ns"
    moreover from this have "granted_to ns rid = n" using S by (simp add: step_fits_def)
    ultimately show "0 \<le> n" using F(2) [of rid] by (force simp: sort_batch_ids)
  qed
  then have total: "fits32 (int (last (offsets 0 (map nat (map (granted_to ns) ?ids)))))"
    using total_scheduled [of ns d] S by (simp only: step_fits_def)
  have m: "mapE (slot_of ?ws) ?ids = Inr (map ?slot ?ids)" by (rule mapE_slots) (use at in blast)
  have f: "ws_num_computed_tokens ?ws ! ?slot rid = sv_computed (view_of mr rid)"
    "ws_prefill_len ?ws ! ?slot rid = sv_prefill (view_of mr rid)"
    "ws_num_computed_prefill_tokens ?ws ! ?slot rid = sv_computed_prefill (view_of mr rid)" if "rid \<in> set ?ids" for rid
    by (simp_all add: at(2) [OF that, symmetric])
  let ?spans = "map2 (\<lambda>c n. [c..c + n - 1]) (map (\<lambda>i. ws_num_computed_tokens ?ws ! i) (map ?slot ?ids)) (map (granted_to ns) ?ids)"
  have "\<exists>row. token_row ?ws e = Inr row" if "e \<in> set (zip (map ?slot ?ids) ?spans)" for e
  proof -
    from that obtain k where k: "k < length ?ids" "e = (?slot (?ids ! k), ?spans ! k)" by (auto simp: set_zip)
    let ?rid = "?ids ! k"
    have rid: "?rid \<in> set ?ids" using k(1) by simp
    obtain toks where "map_of (ws_token_ids ?ws) (?slot ?rid) = Some toks" "list_all fits32 toks"
      using at(1) [OF rid] S by (fastforce simp: step_fits_def tokens_wf_def)
    moreover have "\<forall>p\<in>set (?spans ! k). 0 \<le> p" using k(1) F(1) [OF rid] f(1) [OF rid] by simp
    ultimately show ?thesis unfolding k(2) by (rule token_row_ok)
  qed
  then have "\<forall>e\<in>set (zip (map ?slot ?ids) ?spans). \<exists>row. token_row ?ws e = Inr row" by (rule ballI)
  from mapE_all [OF this] obtain rows where rows: "mapE (token_row ?ws) (zip (map ?slot ?ids) ?spans) = Inr rows" by (elim exE)
  have z: "map2 h (map f1 xs) (map g1 xs) = map (\<lambda>x. h (f1 x) (g1 x)) xs" for h :: "'x \<Rightarrow> 'y \<Rightarrow> 'z" and f1 g1 and xs :: "string list"
    by (induction xs) simp_all
  have z3: "map2 h (zip (map f1 xs) (map g1 xs)) (map k1 xs) = map (\<lambda>x. h (f1 x, g1 x) (k1 x)) xs"
    for h :: "int \<times> int \<Rightarrow> int \<Rightarrow> bool" and f1 g1 k1 and xs :: "string list"
    by (induction xs) simp_all
  note no32 = all32 [THEN eqTrueI] total [THEN eqTrueI]
  have seq: "map2 (\<lambda>c n. wrap32 (c + n)) (map (\<lambda>i. ws_num_computed_tokens ?ws ! i) (map ?slot ?ids)) (map (granted_to ns) ?ids) =
      map (\<lambda>rid. sv_computed (view_of mr rid) + granted_to ns rid) ?ids"
    unfolding map_map z by (rule map_cong [OF refl]) (simp add: f(1) F(3))
  have pre: "map2 (\<lambda>(c, n) p. wrap32 (c + n) < p)
      (zip (map (\<lambda>i. ws_num_computed_prefill_tokens ?ws ! i) (map ?slot ?ids)) (map (granted_to ns) ?ids))
      (map (\<lambda>i. ws_prefill_len ?ws ! i) (map ?slot ?ids)) =
      map (\<lambda>rid. still_prefilling (view_of mr rid) (granted_to ns rid)) ?ids"
    unfolding map_map z3 by (rule map_cong [OF refl]) (simp add: f(2,3) F(4) still_prefilling_def)
  have pos: "?spans = map (\<lambda>rid. [sv_computed (view_of mr rid)..sv_computed (view_of mr rid) + granted_to ns rid - 1]) ?ids"
    unfolding map_map z by (rule map_cong [OF refl]) (simp add: f(1))
  show ?thesis
    unfolding prepare_inputs_def Let_def m rbind_Inr rows [unfolded pos] no32 not_True_eq_False if_False seq pre pos
    by (intro exI conjI) (rule refl, simp_all)
qed

lemma request_slots_ok:
  assumes "0 < bt_block_sizes bt ! g" and b32: "fits32 (bt_block_sizes bt ! g)" and "ps = [c..c + n - 1]" and "0 \<le> c"
    and "c + n \<le> int (bt_num_blocks bt ! g ! i) * bt_block_sizes bt ! g"
  shows "\<exists>slots. request_slots g i ps bt = Inr slots"
proof (cases "ps = []")
  case False
  let ?b = "bt_block_sizes bt ! g"
  have "p div ?b < int (bt_num_blocks bt ! g ! i)" if "p \<in> set ps" for p
  proof -
    have p: "p < int (bt_num_blocks bt ! g ! i) * ?b" using that assms(3,5) by auto
    have "p div ?b * ?b \<le> p" using div_mult_mod_eq [of p ?b] pos_mod_sign [OF assms(1), of p] by linarith
    then have "p div ?b * ?b < int (bt_num_blocks bt ! g ! i) * ?b" using p by linarith
    then show ?thesis using assms(1) by (simp only: mult_less_cancel_right_pos)
  qed
  then have "Max ((\<lambda>p. p div ?b) ` set ps) < int (bt_num_blocks bt ! g ! i)" using False by simp
  then show ?thesis using b32 by (simp add: request_slots_def Let_def)
qed (simp add: request_slots_def)

lemma prepare_attn_ok:
  assumes w: "runner_wf mr" and ib: "prepare_inputs d ns (mr_states mr) = Inr ib"
    and S: "step_fits ns mr"
    and quiet: "\<not> bt_debug (mr_tables mr)"
  shows "\<exists>m. prepare_attn d' ib common (mr_tables mr) = Inr m"
proof -
  let ?bt = "mr_tables mr" and ?ids = "ib_req_ids ib"
  have tw: "tables_wf (mr_max_num_reqs mr) ?bt" using w by (simp add: runner_wf_def)
  from prepare_inputs_ok [OF S, of d] ib have I: "?ids = sort_batch_req_ids ns d"
    "ib_idx_mapping ib = map (\<lambda>rid. the (map_of (ws_index (mr_states mr)) rid)) ?ids"
    "ib_num_scheduled_tokens ib = map (granted_to ns) ?ids" "query_start_loc ib = offsets 0 (map nat (ib_num_scheduled_tokens ib))"
    "ib_positions ib = concat (map (\<lambda>rid. [sv_computed (view_of mr rid)..sv_computed (view_of mr rid) + granted_to ns rid - 1]) ?ids)"
    by auto
  let ?spans = "map (\<lambda>rid. [sv_computed (view_of mr rid)..sv_computed (view_of mr rid) + granted_to ns rid - 1]) ?ids"
  have F: "held mr rid = Some (view_of mr rid) \<and> fits_tables mr (view_of mr rid) (granted_to ns rid)" if "rid \<in> set ?ids" for rid
    using that step_fitsD [OF S] I(1) by simp
  have lens: "map nat (ib_num_scheduled_tokens ib) = map length ?spans"
    unfolding I(3) using F by (auto simp: fits_tables_def)
  have rows: "batch_rows (ib_idx_mapping ib) (ib_positions ib) (query_start_loc ib) = zip (ib_idx_mapping ib) ?spans"
    unfolding I(4,5) lens by (rule batch_rows_spans) (simp add: I(2))
  have group: "\<exists>slots. compute_slot_mapping (ib_idx_mapping ib) (ib_positions ib) (query_start_loc ib) g ?bt = Inr slots"
    if g: "g < length (bt_block_sizes ?bt)" for g
  proof -
    have "\<exists>y. row_slots g ?bt row = Inr y" if "row \<in> set (zip (ib_idx_mapping ib) ?spans)" for row
    proof -
      from that obtain k where k: "k < length ?ids" "row = (the (map_of (ws_index (mr_states mr)) (?ids ! k)), ?spans ! k)"
        unfolding I(2) by (auto simp: set_zip)
      let ?rid = "?ids ! k" and ?v = "view_of mr (?ids ! k)"
      have h: "held mr ?rid = Some ?v" "fits_tables mr ?v (granted_to ns ?rid)" using F k(1) by simp_all
      then have v: "view (mr_states mr) ?bt (the (map_of (ws_index (mr_states mr)) ?rid)) = ?v" by (auto simp: held_def)
      have nb: "sv_blocks ?v ! g = bt_num_blocks ?bt ! g ! the (map_of (ws_index (mr_states mr)) ?rid)"
        unfolding v [symmetric] using g tw by (simp add: view_def tables_wf_def)
      have "\<exists>slots. request_slots g (the (map_of (ws_index (mr_states mr)) ?rid)) (?spans ! k) ?bt = Inr slots"
        by (rule request_slots_ok [where c = "sv_computed ?v" and n = "granted_to ns ?rid"])
          (use h(2) g k(1) nb tw in \<open>auto simp: fits_tables_def tables_wf_def\<close>)
      then show ?thesis using k(2) by (auto simp: row_slots_def)
    qed
    then have "\<forall>row\<in>set (zip (ib_idx_mapping ib) ?spans). \<exists>y. row_slots g ?bt row = Inr y" by blast
    from mapE_all [OF this] obtain ys where ys: "mapE (row_slots g ?bt) (zip (ib_idx_mapping ib) ?spans) = Inr ys" by blast
    show ?thesis unfolding compute_slot_mapping_def rows using g quiet ys by simp
  qed
  have build: "\<exists>m. build_attn_metadata ib ?bt c d' g = Inr m" if "g < length (bt_block_sizes ?bt)" for c g
    using group [OF that] by (auto simp: build_attn_metadata_def Let_def)
  have "0 < length (bt_block_sizes ?bt)" using tw by (simp add: tables_wf_def)
  then obtain m where m: "build_attn_metadata ib ?bt (if common = [] then 0 else hd common) d' 0 = Inr m" using build by blast
  have "\<exists>ms. mapE (\<lambda>g. build_attn_metadata ib ?bt (if g < length common then common ! g else 0) d' g)
      [1..<length (bt_block_sizes ?bt)] = Inr ms"
    by (rule mapE_all) (auto intro: build)
  then show ?thesis using m by (auto simp: prepare_attn_def)
qed

section \<open>Sampling\<close>

lemma policy_length_ok:
  assumes "sampleable m"
  shows "\<exists>n g'. policy_length L W cap g m = Inr (n, g')"
  using assms by (auto simp: sampleable_def policy_length_def draw_def split: prod.split)

lemma sampleable_fields:
  "sampleable m \<Longrightarrow> sampleable (m\<lparr>request_cache := c, planned_lengths := p\<rparr>)"
  by (simp add: sampleable_def)

lemma planned_ok:
  assumes "sampleable m"
  shows "\<exists>n m'. planned_output_length L W rid cap m = Inr (n, m') \<and> sampleable m' \<and> content_policy m' = content_policy m"
proof (cases "map_of (planned_lengths m) rid")
  case None
  obtain g m1 where g: "(case map_of (request_seeds m) rid of None \<Rightarrow> for_request L rid m | Some s \<Rightarrow> (for_seeded_length L s, m)) = (g, m1)"
    by (cases "case map_of (request_seeds m) rid of None \<Rightarrow> for_request L rid m | Some s \<Rightarrow> (for_seeded_length L s, m)")
  then have m1: "sampleable m1" "content_policy m1 = content_policy m" using assms
    by (auto simp: for_request_def sampleable_def Let_def split: option.splits)
  obtain n g' where P: "policy_length L W cap g m1 = Inr (n, g')" using policy_length_ok [OF m1(1)] by blast
  have c: "map_of (constrained_plans m) rid = None" using assms by (simp add: sampleable_def)
  show ?thesis
    unfolding planned_output_length_def None option.case c Let_def g prod.case P rbind_Inr
    using m1 by (auto simp: sampleable_def drew_def)
qed (use assms in \<open>simp add: planned_output_length_def\<close>)

lemma sample_token_ok:
  assumes "sampleable m"
  shows "\<exists>t m'. sample_token L W rid pos cap m = Inr (t, m') \<and> sampleable m'"
proof -
  have c: "map_of (constrained_plans m) rid = None" using assms by (simp add: sampleable_def)
  from planned_ok [OF assms, of L W rid cap] obtain n m1 where P: "planned_output_length L W rid cap m = Inr (n, m1)"
    "sampleable m1" "content_policy m1 = content_policy m" by blast
  have ps: "content_policy m1 = ''pseudoword''" using P(2) by (simp add: sampleable_def)
  show ?thesis
    unfolding sample_token_def Let_def c option.case P(1) rbind_Inr prod.case ps
    using P(2) by (auto simp: draw_def split_beta)
qed

lemma sample_run_ok:
  "sampleable m \<Longrightarrow> \<exists>ts m'. sample_run L W rid ps cap m = Inr (ts, m') \<and> sampleable m' \<and> length ts = length ps"
proof (induction ps arbitrary: m)
  case (Cons p ps)
  obtain t m1 where t: "sample_token L W rid p cap m = Inr (t, m1)" "sampleable m1"
    using sample_token_ok [OF Cons.prems, of L W rid p cap] by blast
  from Cons.IH [OF t(2)] t(1) show ?case by auto
qed simp

lemma accept_loop_le: "fst (accept_loop L rate n g) \<le> n"
  by (induction n arbitrary: g) (auto simp: Let_def split_beta)

lemma accepted_ok:
  assumes "sampleable m"
  shows "fst (accepted_draft_count L rid n m) \<le> n" and "sampleable (snd (accepted_draft_count L rid n m))"
  using assms accept_loop_le [of L _ n]
  by (auto simp: accepted_draft_count_def for_request_def drew_def sampleable_def Let_def split_beta split: option.splits)

lemma emit_ok:
  assumes "sampleable m"
  shows "\<exists>ts ds m'. emit_tokens L W rid pos n spec cap m = Inr (ts, ds, m') \<and> sampleable m' \<and> 1 \<le> length ts \<and> length ts \<le> 1 + n"
proof -
  obtain k m1 where a: "accepted_draft_count L rid n m = (k, m1)" by (cases "accepted_draft_count L rid n m")
  then have k: "k \<le> n" "sampleable m1" using accepted_ok [OF assms, of L rid n] by simp_all
  from sample_run_ok [OF k(2)] obtain ts m2 where t: "sample_run L W rid [pos..<pos + (k + 1)] cap m1 = Inr (ts, m2)" "sampleable m2"
    "length ts = k + 1" by fastforce
  have "\<exists>ds m3. propose_drafts L W rid q spec cap m2 = Inr (ds, m3) \<and> sampleable m3" for q
  proof (cases "spec = 0")
    case False
    obtain p m3 where p: "planned_output_length L W rid cap m2 = Inr (p, m3)" "sampleable m3"
      using planned_ok [OF t(2), of L W rid cap] by blast
    show ?thesis unfolding propose_drafts_def using False p(1) sample_run_ok [OF p(2)] by fastforce
  qed (use t(2) in \<open>simp add: propose_drafts_def\<close>)
  then obtain ds m3 where "propose_drafts L W rid (pos + length ts - 1) spec cap m2 = Inr (ds, m3)" "sampleable m3" by blast
  then show ?thesis using t(3) k(1) unfolding emit_tokens_def a prod.case Let_def t(1) rbind_Inr by auto
qed

definition sampled_right :: "'g model_runner \<Rightarrow> (string \<times> int list) list \<Rightarrow> string \<times> nat \<times> bool \<Rightarrow> int list \<Rightarrow> bool" where
  "sampled_right mr drafts row ts \<longleftrightarrow>
     (case row of (rid, i, prefilling) \<Rightarrow>
        if prefilling \<or> rid \<in> fst ` set (pooling_requests mr) then ts = []
        else 1 \<le> length ts \<and> length ts \<le> 1 + length (case map_of drafts rid of None \<Rightarrow> [] | Some ds \<Rightarrow> ds))"

lemma sample_all_ok:
  "sampleable m \<Longrightarrow> \<exists>tss dss m'. sample_all E mr drafts rows m = Inr (tss, dss, m') \<and> sampleable m' \<and>
     list_all2 (sampled_right mr drafts) rows tss"
proof (induction rows arbitrary: m)
  case (Cons row rows)
  obtain rid i pre where row: "row = (rid, i, pre)" by (cases row)
  have "\<exists>ts ds m1. sample_one E mr drafts row m = Inr (ts, ds, m1) \<and> sampleable m1 \<and> sampled_right mr drafts row ts"
  proof (cases "pre \<or> rid \<in> fst ` set (pooling_requests mr)")
    case True
    then show ?thesis using Cons.prems by (auto simp: row sample_one_def sampled_right_def)
  next
    case False
    then show ?thesis
      using emit_ok [OF Cons.prems, of "env_sim E" "env_libs E" rid "nat (ws_num_output_tokens (mr_states mr) ! i)"
          "length (case map_of drafts rid of None \<Rightarrow> [] | Some ds \<Rightarrow> ds)" "mr_num_spec_tokens mr"
          "max 1 (ws_max_seq_len (mr_states mr) ! i - ws_prompt_len (mr_states mr) ! i)"]
      by (simp add: row sample_one_def sampled_right_def)
  qed
  then obtain ts ds m1 where 1: "sample_one E mr drafts row m = Inr (ts, ds, m1)" "sampleable m1" "sampled_right mr drafts row ts" by blast
  from Cons.IH [OF 1(2)] obtain tss dss m2 where "sample_all E mr drafts rows m1 = Inr (tss, dss, m2)" "sampleable m2"
    "list_all2 (sampled_right mr drafts) rows tss" by blast
  then show ?case using 1 by simp
qed simp

lemma pool_one_ok:
  assumes env: "env_ok E" and p: "pooled_wf (pooling_requests mr)"
  shows "\<exists>y. pool_one E mr (rid, i, len) = Inr y \<and>
    (map_of (pooling_requests mr) rid \<noteq> None \<and> ws_prompt_len (mr_states mr) ! i \<le> len \<longrightarrow> y \<noteq> None)"
proof (cases "map_of (pooling_requests mr) rid")
  case (Some dp)
  obtain dims prompt where dp: "dp = (dims, prompt)" by (cases dp)
  have "(rid, dims, prompt) \<in> set (pooling_requests mr)" using map_of_SomeD [OF Some] dp by simp
  then have "dims \<le> 2 ^ 32" "\<forall>t\<in>set prompt. fits_bytes t" using p by (auto simp: pooled_wf_def list_all_iff)
  moreover have "digests (env_sim E)" using env by (simp add: env_ok_def)
  ultimately obtain v where "embed (env_sim E) prompt dims = Inr v" using embed_ok by blast
  then show ?thesis using Some dp by (simp add: pool_one_def)
qed (simp add: pool_one_def)

section \<open>A step of the runner\<close>

definition computed_to :: "int \<Rightarrow> slot_view \<Rightarrow> slot_view" where
  "computed_to n v = v\<lparr>sv_computed := n, sv_computed_prefill := min n (sv_prefill v)\<rparr>"

lemma set_computed_held:
  fixes n :: int
  assumes w: "runner_wf mr" and v: "held mr rid = Some v"
  defines "mr' \<equiv> mr\<lparr>mr_states := with_computed (the (map_of (ws_index (mr_states mr)) rid)) n (mr_states mr)\<rparr>"
  shows "runner_wf mr'" and "held mr' = (held mr)(rid \<mapsto> computed_to n v)"
proof -
  let ?ws = "mr_states mr"
  have sw: "states_wf (mr_max_num_reqs mr) ?ws" using w by (simp add: runner_wf_def)
  from v obtain i where i: "map_of (ws_index ?ws) rid = Some i" "view ?ws (mr_tables mr) i = v" by (auto simp: held_def)
  note lt = slot_range [OF sw i(1)]
  show "runner_wf mr'" using w i(1) by (simp add: mr'_def runner_wf_def states_wf_def tokens_wf_def with_computed_def)
  show "held mr' = (held mr)(rid \<mapsto> computed_to n v)"
  proof
    fix x
    show "held mr' x = ((held mr)(rid \<mapsto> computed_to n v)) x"
    proof (cases "x = rid")
      case True
      have "view (with_computed i n ?ws) (mr_tables mr) i = computed_to n v"
        using sw lt i(2) by (auto simp: view_def computed_to_def with_computed_def states_wf_def)
      then show ?thesis using True i(1) by (simp add: mr'_def held_def with_computed_def)
    next
      case False
      have "view (with_computed i n ?ws) (mr_tables mr) j = view ?ws (mr_tables mr) j" if "j \<noteq> i" for j
        using that by (simp add: view_def with_computed_def)
      moreover have "j \<noteq> i" if "map_of (ws_index ?ws) x = Some j" for j using slot_inj [OF sw that] i(1) False by blast
      ultimately show ?thesis using False i(1)
        by (cases "map_of (ws_index ?ws) x") (simp_all add: mr'_def held_def, simp_all add: with_computed_def)
    qed
  qed
qed

lemma set_num_computed_ok [simp]: "fits32 n \<Longrightarrow> set_num_computed_tokens i n ws = Inr (with_computed i n ws)"
  by (simp add: set_num_computed_tokens_def)

lemma postprocess_fold:
  fixes len :: "string \<Rightarrow> int"
  assumes "runner_wf mr" and "distinct ids" and "\<forall>rid\<in>set ids. held mr rid \<noteq> None" and "\<forall>rid\<in>set ids. fits32 (len rid)"
  shows "\<exists>ws. foldE (\<lambda>(i, n). set_num_computed_tokens i n)
      (zip (map (\<lambda>rid. the (map_of (ws_index (mr_states mr)) rid)) ids) (map len ids)) (mr_states mr) = Inr ws \<and>
    runner_wf (mr\<lparr>mr_states := ws\<rparr>) \<and>
    held (mr\<lparr>mr_states := ws\<rparr>) = (\<lambda>x. if x \<in> set ids then map_option (computed_to (len x)) (held mr x) else held mr x)"
  using assms
proof (induction ids arbitrary: mr)
  case (Cons rid ids)
  obtain v where v: "held mr rid = Some v" using Cons.prems(3) by auto
  let ?ws = "with_computed (the (map_of (ws_index (mr_states mr)) rid)) (len rid) (mr_states mr)"
  let ?m = "mr\<lparr>mr_states := ?ws\<rparr>"
  note S = set_computed_held [OF Cons.prems(1) v, of "len rid"]
  have idx: "ws_index ?ws = ws_index (mr_states mr)" by (simp add: with_computed_def)
  have d: "rid \<notin> set ids" "distinct ids" "\<forall>x\<in>set ids. fits32 (len x)" "fits32 (len rid)" using Cons.prems(2,4) by simp_all
  have h: "\<forall>x\<in>set ids. held ?m x \<noteq> None" using S(2) Cons.prems(3) by auto
  from Cons.IH [OF S(1) d(2) h d(3)] obtain ws where I:
    "foldE (\<lambda>(i, n). set_num_computed_tokens i n)
      (zip (map (\<lambda>rid. the (map_of (ws_index (mr_states mr)) rid)) ids) (map len ids)) ?ws = Inr ws"
    "runner_wf (mr\<lparr>mr_states := ws\<rparr>)"
    "held (mr\<lparr>mr_states := ws\<rparr>) = (\<lambda>x. if x \<in> set ids then map_option (computed_to (len x)) (held ?m x) else held ?m x)"
    using idx by auto
  have "held (mr\<lparr>mr_states := ws\<rparr>) = (\<lambda>x. if x \<in> set (rid # ids) then map_option (computed_to (len x)) (held mr x) else held mr x)"
    unfolding I(3) S(2) using d(1) v by (auto simp: fun_eq_iff)
  then show ?case using I(1,2) d(4) by auto
qed (simp add: fun_eq_iff)

text \<open>The order in which the interpreter walks a set.\<close>

definition orders_sets :: "'g runner_env \<Rightarrow> bool" where
  "orders_sets E \<longleftrightarrow> (\<forall>S. finite S \<longrightarrow> set (env_order E S) = S)"

definition gone :: "scheduler_output \<Rightarrow> string set" where
  "gone so = so_finished_req_ids so \<union> (case so_preempted_req_ids so of None \<Rightarrow> {} | Some ids \<Rightarrow> ids)"

definition kept :: "scheduler_output \<Rightarrow> 'g model_runner \<Rightarrow> string \<Rightarrow> slot_view option" where
  "kept so mr = held mr |` (- gone so)"

text \<open>What the runner knows of a request when the step runs.\<close>

definition step_view :: "scheduler_output \<Rightarrow> 'g model_runner \<Rightarrow> string \<Rightarrow> slot_view option" where
  "step_view so mr x =
     (case new_for (so_new_reqs so) x of
        Some nr \<Rightarrow> Some (new_view nr)
      | None \<Rightarrow> (case row_for (so_cached_reqs so) x of
          None \<Rightarrow> kept so mr x
        | Some cr \<Rightarrow> map_option (updated_view cr) (kept so mr x)))"

definition runner_ok :: "'g model_runner \<Rightarrow> bool" where
  "runner_ok mr \<longleftrightarrow> runner_wf mr \<and> sampleable (mr_model mr) \<and> \<not> bt_debug (mr_tables mr)"

definition fits_step :: "scheduler_output \<Rightarrow> 'g model_runner \<Rightarrow> bool" where
  "fits_step so mr \<longleftrightarrow>
     distinct (map nr_req_id (so_new_reqs so)) \<and> distinct (map cr_req_id (so_cached_reqs so)) \<and>
     distinct (map fst (so_num_scheduled_tokens so)) \<and>
     (\<forall>nr\<in>set (so_new_reqs so). kept so mr (nr_req_id nr) = None \<and> admissible_new mr nr) \<and>
     card (dom (kept so mr)) + length (so_new_reqs so) \<le> mr_max_num_reqs mr \<and>
     fits32 (sum_list (map snd (so_num_scheduled_tokens so))) \<and> (\<forall>cr\<in>set (so_cached_reqs so). row_fits32 cr) \<and>
     (\<forall>cr\<in>set (so_cached_reqs so). cr_req_id cr \<notin> nr_req_id ` set (so_new_reqs so) \<and>
        (\<exists>v. kept so mr (cr_req_id cr) = Some v \<and>
          (case cr_new_block_ids cr of None \<Rightarrow> True
           | Some bs \<Rightarrow> length bs = length (bt_block_sizes (mr_tables mr)) \<and>
               (\<forall>g<length bs. bs ! g \<noteq> [] \<longrightarrow> sv_blocks v ! g + length (bs ! g) \<le> max_blocks_per_req (mr_tables mr) ! g)))) \<and>
     (\<forall>(rid, n)\<in>set (so_num_scheduled_tokens so). \<exists>v. step_view so mr rid = Some v \<and> fits_tables mr v n)"

definition pooling_after :: "scheduler_output \<Rightarrow> 'g model_runner \<Rightarrow> string set" where
  "pooling_after so mr = (dom (map_of (pooling_requests mr)) - so_finished_req_ids so) \<union>
     nr_req_id ` {nr \<in> set (so_new_reqs so). nr_pooling nr}"

text \<open>The answer a request gets, by what the runner knows of it.\<close>

definition answered_right :: "scheduler_output \<Rightarrow> string set \<Rightarrow> model_runner_output \<Rightarrow> string \<Rightarrow> int \<Rightarrow> slot_view \<Rightarrow> bool" where
  "answered_right so pool out rid n v \<longleftrightarrow>
     (if rid \<in> pool then generated_for out rid = [] \<and> (sv_prompt v \<le> sv_computed v + n \<longrightarrow> pooled_for out rid \<noteq> None)
      else if still_prefilling v n then generated_for out rid = []
      else 1 \<le> length (generated_for out rid) \<and> length (generated_for out rid) \<le> 1 + length (drafts_of so rid))"

lemma drop_slot_device: "same_device mr (drop_slot rid mr)"
  by (simp add: same_device_def same_layout_def drop_slot_def clear_row_def split_beta split: option.split)

lemma drop_slots_device: "same_device mr (fold drop_slot ids mr)"
proof (induction ids arbitrary: mr)
  case (Cons x ids)
  show ?case using same_device_trans [OF drop_slot_device Cons.IH] by simp
qed simp

lemma finish_one_held:
  assumes "runner_wf mr"
  shows "held (mr_finish_request rid mr) = (held mr)(rid := None)" and "runner_wf (mr_finish_request rid mr)"
    and "same_device mr (mr_finish_request rid mr)"
    and "map_of (pooling_requests (mr_finish_request rid mr)) = (map_of (pooling_requests mr))(rid := None)"
proof -
  let ?m = "mr\<lparr>mr_model := forget_request rid (mr_model mr),
       mr_states := (mr_states mr)\<lparr>ws_mm_features := AList.delete rid (ws_mm_features (mr_states mr))\<rparr>,
       pooling_requests := AList.delete rid (pooling_requests mr)\<rparr>"
  have w: "runner_wf ?m" using assms pooled_wf_delete [of "pooling_requests mr" rid]
    by (simp add: runner_wf_def states_wf_def tokens_wf_def)
  have h: "held ?m = held mr" by (rule held_cong) (simp_all add: view_def fun_eq_iff)
  have d: "same_device mr ?m" by (simp add: same_device_def)
  show "held (mr_finish_request rid mr) = (held mr)(rid := None)" "runner_wf (mr_finish_request rid mr)"
    using drop_slot_held [OF w, of rid] h by (simp_all add: mr_finish_request_def)
  show "same_device mr (mr_finish_request rid mr)"
    using same_device_trans [OF d drop_slot_device] by (simp add: mr_finish_request_def)
  show "map_of (pooling_requests (mr_finish_request rid mr)) = (map_of (pooling_requests mr))(rid := None)"
    by (rule ext) (simp add: mr_finish_request_def drop_slot_def split_beta AList.delete_conv')
qed

lemma finish_held:
  "runner_wf mr \<Longrightarrow> held (fold mr_finish_request ids mr) = held mr |` (- set ids) \<and> runner_wf (fold mr_finish_request ids mr) \<and>
   same_device mr (fold mr_finish_request ids mr) \<and>
   dom (map_of (pooling_requests (fold mr_finish_request ids mr))) = dom (map_of (pooling_requests mr)) - set ids"
proof (induction ids arbitrary: mr)
  case (Cons x ids)
  note F = finish_one_held [OF Cons.prems, of x]
  note I = Cons.IH [OF F(2)]
  have "(held mr)(x := None) |` (- set ids) = held mr |` (- set (x # ids))"
    by (auto simp: restrict_map_def fun_eq_iff)
  moreover have "held (fold mr_finish_request (x # ids) mr) = held (mr_finish_request x mr) |` (- set ids)" using I by simp
  ultimately have "held (fold mr_finish_request (x # ids) mr) = held mr |` (- set (x # ids))" by (simp only: F(1))
  moreover have "dom (map_of (pooling_requests (mr_finish_request x mr))) = dom (map_of (pooling_requests mr)) - {x}"
    unfolding F(4) by auto
  then have "dom (map_of (pooling_requests (fold mr_finish_request (x # ids) mr))) = dom (map_of (pooling_requests mr)) - set (x # ids)"
    using I by auto
  ultimately show ?case using I same_device_trans [OF F(3)] by simp
qed (simp add: restrict_map_def)

lemma departures_ok:
  assumes "runner_wf mr" and "orders_sets E" and "finite (gone so)"
  defines "mr1 \<equiv> free_states E so (mr_finish_requests E so mr)"
  shows "held mr1 = kept so mr" and "runner_wf mr1" and "same_device mr mr1"
    and "dom (map_of (pooling_requests mr1)) = dom (map_of (pooling_requests mr)) - so_finished_req_ids so"
proof -
  let ?f = "mr_finish_requests E so mr"
  have fin: "set (env_order E (so_finished_req_ids so)) = so_finished_req_ids so"
    using assms(2,3) by (simp add: orders_sets_def gone_def)
  have F: "held ?f = held mr |` (- so_finished_req_ids so)" "runner_wf ?f" "same_device mr ?f"
    "dom (map_of (pooling_requests ?f)) = dom (map_of (pooling_requests mr)) - so_finished_req_ids so"
    using finish_held [OF assms(1), of "env_order E (so_finished_req_ids so)"] fin by (simp_all add: mr_finish_requests_def)
  define ids where "ids = (case so_preempted_req_ids so of None \<Rightarrow> [] | Some ids \<Rightarrow> env_order E ids)"
  have ids: "set ids = (case so_preempted_req_ids so of None \<Rightarrow> {} | Some ids \<Rightarrow> ids)"
    using assms(2,3) by (auto simp: ids_def orders_sets_def gone_def split: option.split)
  have m1: "mr1 = fold drop_slot ids ?f" by (simp add: mr1_def free_states_def ids_def)
  note D = drop_slots_held [OF F(2), of ids]
  show "held mr1 = kept so mr"
    unfolding m1 D(1) F(1) ids kept_def gone_def by (auto simp: restrict_map_def fun_eq_iff)
  show "runner_wf mr1" unfolding m1 by (rule D(2))
  show "same_device mr mr1" unfolding m1 by (rule same_device_trans [OF F(3) drop_slots_device])
  show "dom (map_of (pooling_requests mr1)) = dom (map_of (pooling_requests mr)) - so_finished_req_ids so"
    unfolding m1 D(4) by (rule F(4))
qed

text \<open>What the worker does before the forward pass.\<close>

lemma mr_plan_step_ok:
  assumes ok: "runner_ok mr" and E: "orders_sets E" and env: "env_ok E" and fin: "finite (gone so)" and fits: "fits_step so mr"
    and some: "so_total_num_scheduled_tokens so \<noteq> 0"
  shows "\<exists>ib profile mr'. mr_plan_step E so mr = Inr (Some (ib, profile), mr') \<and> runner_ok mr' \<and> same_device mr mr' \<and>
    held mr' = step_view so mr \<and> dom (map_of (pooling_requests mr')) = pooling_after so mr \<and>
    step_fits (so_num_scheduled_tokens so) mr' \<and>
    prepare_inputs (decode_query_len mr') (so_num_scheduled_tokens so) (mr_states mr') = Inr ib"
proof -
  let ?mr1 = "free_states E so (mr_finish_requests E so mr)"
  have w: "runner_wf mr" using ok by (simp add: runner_ok_def)
  note D = departures_ok [OF w E fin]
  have lay: "bt_block_sizes (mr_tables ?mr1) = bt_block_sizes (mr_tables mr)"
    "max_blocks_per_req (mr_tables ?mr1) = max_blocks_per_req (mr_tables mr)" "mr_max_num_reqs ?mr1 = mr_max_num_reqs mr"
    using D(3) by (simp_all add: same_device_def same_layout_def)
  have "admissible_new ?mr1 nr = admissible_new mr nr" for nr by (simp only: admissible_new_def lay)
  then have adm: "\<forall>nr\<in>set (so_new_reqs so). held ?mr1 (nr_req_id nr) = None" "\<forall>nr\<in>set (so_new_reqs so). admissible_new ?mr1 nr"
    using fits D(1) by (simp_all add: fits_step_def)
  have "card (dom (held ?mr1)) + length (so_new_reqs so) \<le> mr_max_num_reqs ?mr1"
    using fits D(1) lay(3) by (simp add: fits_step_def)
  from add_requests_ok [OF env D(2) _ adm(1) this adm(2)] fits obtain mr2 where
    A: "foldE (mr_add_request E) (so_new_reqs so) ?mr1 = Inr mr2" "runner_wf mr2" "same_device ?mr1 mr2"
    "held mr2 = (\<lambda>x. case new_for (so_new_reqs so) x of None \<Rightarrow> held ?mr1 x | Some nr \<Rightarrow> Some (new_view nr))"
    "dom (map_of (pooling_requests mr2)) = dom (map_of (pooling_requests ?mr1)) \<union> nr_req_id ` {nr \<in> set (so_new_reqs so). nr_pooling nr}"
    unfolding fits_step_def by blast
  have lay2: "bt_block_sizes (mr_tables mr2) = bt_block_sizes (mr_tables mr)"
    "max_blocks_per_req (mr_tables mr2) = max_blocks_per_req (mr_tables mr)"
    using A(3) lay by (simp_all add: same_device_def same_layout_def)
  have "admissible_row mr2 cr" if "cr \<in> set (so_cached_reqs so)" for cr
  proof -
    have "cr_req_id cr \<notin> nr_req_id ` set (so_new_reqs so)" using fits that by (simp add: fits_step_def)
    then have h: "held mr2 (cr_req_id cr) = kept so mr (cr_req_id cr)"
      using D(1) new_for_None [of "so_new_reqs so" "cr_req_id cr"] by (simp add: A(4))
    have "\<forall>cr\<in>set (so_cached_reqs so). \<exists>v. kept so mr (cr_req_id cr) = Some v \<and>
          (case cr_new_block_ids cr of None \<Rightarrow> True
           | Some bs \<Rightarrow> length bs = length (bt_block_sizes (mr_tables mr)) \<and>
               (\<forall>g<length bs. bs ! g \<noteq> [] \<longrightarrow> sv_blocks v ! g + length (bs ! g) \<le> max_blocks_per_req (mr_tables mr) ! g))"
      using fits unfolding fits_step_def by blast
    then show ?thesis using that unfolding admissible_row_def lay2 h by blast
  qed
  then have rows: "\<forall>cr\<in>set (so_cached_reqs so). admissible_row mr2 cr" by blast
  have "distinct (map cr_req_id (so_cached_reqs so))" using fits by (simp add: fits_step_def)
  moreover have rf: "\<forall>cr\<in>set (so_cached_reqs so). row_fits32 cr" using fits unfolding fits_step_def by blast
  ultimately obtain mr3 where
    U: "foldE mr_update_request (so_cached_reqs so) mr2 = Inr mr3" "runner_wf mr3" "same_device mr2 mr3"
    "held mr3 = (\<lambda>x. case row_for (so_cached_reqs so) x of None \<Rightarrow> held mr2 x | Some cr \<Rightarrow> map_option (updated_view cr) (held mr2 x))"
    "pooling_requests mr3 = pooling_requests mr2" using update_requests_ok [OF A(2) _ rows rf] by blast
  have view: "held mr3 = step_view so mr"
  proof
    fix x
    show "held mr3 x = step_view so mr x"
    proof (cases "new_for (so_new_reqs so) x")
      case None
      then have "held mr2 x = kept so mr x" using D(1) by (simp add: A(4))
      then show ?thesis using None by (simp add: U(4) step_view_def split: option.split)
    next
      case (Some nr)
      then have "x \<in> nr_req_id ` set (so_new_reqs so)" using new_for_Some by fastforce
      moreover have "\<forall>cr\<in>set (so_cached_reqs so). cr_req_id cr \<notin> nr_req_id ` set (so_new_reqs so)"
        using fits unfolding fits_step_def by blast
      ultimately have "x \<notin> cr_req_id ` set (so_cached_reqs so)" by blast
      then have "row_for (so_cached_reqs so) x = None" using row_for_None by metis
      then show ?thesis using Some by (simp add: U(4) A(4) step_view_def)
    qed
  qed
  have dev: "same_device mr mr3" using same_device_trans [OF D(3) same_device_trans [OF A(3) U(3)]] .
  have pool: "dom (map_of (pooling_requests mr3)) = pooling_after so mr" unfolding U(5) A(5) D(4) pooling_after_def ..
  have ok3: "runner_ok mr3" using ok dev U(2) by (auto simp: runner_ok_def same_device_def same_layout_def)
  have all: "\<forall>rid\<in>fst ` set (so_num_scheduled_tokens so). \<exists>v. held mr3 rid = Some v \<and> fits_tables mr3 v (granted_to (so_num_scheduled_tokens so) rid)"
  proof
    fix rid assume "rid \<in> fst ` set (so_num_scheduled_tokens so)"
    then obtain n where n: "(rid, n) \<in> set (so_num_scheduled_tokens so)" by auto
    then have m: "map_of (so_num_scheduled_tokens so) rid = Some n" using fits by (simp add: fits_step_def)
    from n fits obtain v where v: "step_view so mr rid = Some v" "fits_tables mr v n" by (auto simp: fits_step_def)
    have "fits_tables mr3 v n = fits_tables mr v n" using dev by (simp add: fits_tables_def same_device_def same_layout_def)
    then show "\<exists>v. held mr3 rid = Some v \<and> fits_tables mr3 v (granted_to (so_num_scheduled_tokens so) rid)"
      using v m view by simp
  qed
  have "distinct (map fst (so_num_scheduled_tokens so))" "fits32 (sum_list (map snd (so_num_scheduled_tokens so)))"
    using fits unfolding fits_step_def by blast+
  then have S3: "step_fits (so_num_scheduled_tokens so) mr3" using all U(2) by (simp add: step_fits_def runner_wf_def)
  obtain ib where I: "prepare_inputs (decode_query_len mr3) (so_num_scheduled_tokens so) (mr_states mr3) = Inr ib"
    using prepare_inputs_ok [OF S3] by blast
  have quiet: "\<not> bt_debug (mr_tables mr3)" using ok3 by (simp add: runner_ok_def)
  obtain meta where M: "prepare_attn (decode_query_len mr3) ib (so_num_common_prefix_blocks so) (mr_tables mr3) = Inr meta"
    using prepare_attn_ok [OF U(2) I S3 quiet] by blast
  let ?held = "snd (fold (encode_inputs (mr_states mr3)) (so_encoder_inputs so)
      (0, fold removeAll (so_free_encoder_mm_hashes so) (encoder_outputs mr3)))"
  let ?mr = "mr3\<lparr>last_attn_metadata := Some meta, encoder_outputs := ?held\<rparr>"
  have same: "held ?mr = held mr3" by (rule held_cong) simp_all
  have "\<exists>profile. mr_plan_step E so mr = Inr (Some (ib, profile), ?mr)"
    unfolding mr_plan_step_def Let_def using some A(1) U(1) I M by (simp add: split_beta)
  moreover have "runner_ok ?mr" using ok3 by (simp add: runner_ok_def runner_wf_def)
  moreover have "same_device mr ?mr" using dev by (simp add: same_device_def)
  moreover have "step_fits (so_num_scheduled_tokens so) ?mr" using S3 unfolding step_fits_def same by (simp add: fits_tables_def)
  moreover have "decode_query_len ?mr = decode_query_len mr3" by (simp add: decode_query_len_def)
  ultimately show ?thesis using same view pool I by auto
qed

definition view_after :: "scheduler_output \<Rightarrow> 'g model_runner \<Rightarrow> string \<Rightarrow> slot_view option" where
  "view_after so mr x =
     (case map_of (so_num_scheduled_tokens so) x of
        None \<Rightarrow> step_view so mr x
      | Some n \<Rightarrow> map_option (\<lambda>v. computed_to (sv_computed v + n) v) (step_view so mr x))"

lemma indexed_at:
  assumes "distinct ids" and "k < length ids" and "length xs = length ids" and "req_id_to_index out = zip ids [0..<length ids]"
  shows "indexed out xs (ids ! k) = Some (xs ! k)"
proof -
  have "map_of (zip ids [0..<length ids]) (ids ! k) = Some ([0..<length ids] ! k)"
    by (rule map_of_zip_nth) (use assms in simp_all)
  then show ?thesis using assms by (simp add: indexed_def)
qed

lemma execute_ok:
  assumes ok: "runner_ok mr" and E: "orders_sets E" and env: "env_ok E" and fin: "finite (gone so)" and fits: "fits_step so mr"
    and some: "so_total_num_scheduled_tokens so \<noteq> 0"
  shows "\<exists>out secs mr' d'. execute_model E device so (mr, d) = Inr (out, secs, mr', d') \<and> runner_ok mr' \<and> same_device mr mr' \<and>
    held mr' = view_after so mr \<and> dom (map_of (pooling_requests mr')) = pooling_after so mr \<and>
    (\<forall>(rid, n)\<in>set (so_num_scheduled_tokens so). \<exists>v. step_view so mr rid = Some v \<and> answered_right so (pooling_after so mr) out rid n v)"
proof -
  let ?ns = "so_num_scheduled_tokens so"
  from mr_plan_step_ok [OF ok E env fin fits some] obtain ib profile mr1 where
    P: "mr_plan_step E so mr = Inr (Some (ib, profile), mr1)" "runner_ok mr1" "same_device mr mr1" "held mr1 = step_view so mr"
      "dom (map_of (pooling_requests mr1)) = pooling_after so mr"
      "prepare_inputs (decode_query_len mr1) ?ns (mr_states mr1) = Inr ib" and S1: "step_fits ?ns mr1" by blast
  have dist: "distinct (map fst ?ns)" using fits by (simp add: fits_step_def)
  have known: "\<forall>rid\<in>fst ` set ?ns. held mr1 rid \<noteq> None" using fits unfolding P(4) fits_step_def by fastforce
  from prepare_inputs_ok [OF S1, of "decode_query_len mr1"] P(6) have I:
    "ib_req_ids ib = sort_batch_req_ids ?ns (decode_query_len mr1)"
    "ib_idx_mapping ib = map (\<lambda>rid. the (map_of (ws_index (mr_states mr1)) rid)) (ib_req_ids ib)"
    "seq_lens ib = map (\<lambda>rid. sv_computed (view_of mr1 rid) + granted_to ?ns rid) (ib_req_ids ib)"
    "is_prefilling ib = map (\<lambda>rid. still_prefilling (view_of mr1 rid) (granted_to ?ns rid)) (ib_req_ids ib)" by auto
  let ?ids = "ib_req_ids ib"
  have ids: "set ?ids = fst ` set ?ns" "distinct ?ids" using dist by (simp_all add: I(1) sort_batch_ids)
  have wf: "runner_wf mr1" "sampleable (mr_model mr1)" using P(2) by (simp_all add: runner_ok_def)
  let ?rows = "zip ?ids (zip (ib_idx_mapping ib) (is_prefilling ib))"
  from sample_all_ok [OF wf(2), of E mr1 "so_spec_decode_tokens so" ?rows] obtain tss dss m where
    S: "sample_all E mr1 (so_spec_decode_tokens so) ?rows (mr_model mr1) = Inr (tss, dss, m)" "sampleable m"
      "list_all2 (sampled_right mr1 (so_spec_decode_tokens so)) ?rows tss" by blast
  let ?prows = "zip ?ids (zip (ib_idx_mapping ib) (seq_lens ib))"
  have pw: "pooled_wf (pooling_requests mr1)" using wf(1) by (simp add: runner_wf_def)
  have "\<forall>row\<in>set ?prows. \<exists>y. pool_one E mr1 row = Inr y" using pool_one_ok [OF env pw] by fastforce
  from mapE_all [OF this] obtain pooled where ps: "mapE (pool_one E mr1) ?prows = Inr pooled" by blast
  let ?pooled = "if pooling_requests mr1 = [] then [] else pooled"
  have pr: "(if pooling_requests mr1 = [] then Inr [] else mapE (pool_one E mr1) ?prows) = Inr ?pooled" using ps by simp
  define out where "out = \<lparr>req_id_to_index = zip ?ids [0..<length ?ids], sampled_token_ids = tss,
       mro_spec_token_ids = (if mr_num_spec_tokens mr1 = 0 then None else Some dss), pooler_output = ?pooled\<rparr>"
  let ?mr2 = "mr1\<lparr>mr_model := m\<rparr>"
  have smp: "mr_sample_tokens E ib (so_spec_decode_tokens so) mr1 = Inr (out, ?mr2)"
    unfolding mr_sample_tokens_def Let_def pr S(1) rbind_Inr prod.case out_def ..
  obtain secs d' where dev: "device profile d = (secs, d')" by (cases "device profile d")
  have held2: "held ?mr2 = held mr1" by (rule held_cong) simp_all
  have wf2: "runner_wf ?mr2" using wf(1) by (simp add: runner_wf_def)
  have known2: "\<forall>rid\<in>set ?ids. held ?mr2 rid \<noteq> None" using known ids(1) held2 by simp
  have len32: "\<forall>rid\<in>set ?ids. fits32 (sv_computed (view_of mr1 rid) + granted_to ?ns rid)"
    using step_fitsD(2) [OF S1] unfolding I(1) by (simp add: fits_tables_def)
  obtain ws where F0: "foldE (\<lambda>(i, n). set_num_computed_tokens i n) (zip (ib_idx_mapping ib) (seq_lens ib)) (mr_states ?mr2) = Inr ws"
    "runner_wf (?mr2\<lparr>mr_states := ws\<rparr>)" "held (?mr2\<lparr>mr_states := ws\<rparr>) = (\<lambda>x. if x \<in> set ?ids
      then map_option (computed_to (sv_computed (view_of mr1 x) + granted_to ?ns x)) (held mr1 x) else held mr1 x)"
    using postprocess_fold [OF wf2 ids(2) known2 len32] unfolding I(2,3) held2 by auto
  define mr3 where "mr3 = ?mr2\<lparr>mr_states := ws\<rparr>"
  have post: "postprocess_num_computed_tokens ib ?mr2 = Inr mr3"
    unfolding postprocess_num_computed_tokens_def F0(1) rbind_Inr mr3_def ..
  have run: "execute_model E device so (mr, d) = Inr (out, secs, mr3, d')"
    unfolding execute_model_def prod.case P(1) rbind_Inr option.case dev Let_def smp post ..
  note F = F0(2,3) [folded mr3_def]
  have "held mr3 = view_after so mr"
  proof
    fix x
    show "held mr3 x = view_after so mr x"
    proof (cases "map_of ?ns x")
      case None
      then have "x \<notin> set ?ids" using ids(1) by (simp add: map_of_eq_None_iff)
      then show ?thesis using None by (simp add: F(2) view_after_def P(4))
    next
      case (Some n)
      then have x: "x \<in> set ?ids" using ids(1) by (force dest: map_of_SomeD)
      then obtain v where "held mr1 x = Some v" using known ids(1) by auto
      then show ?thesis using Some x P(4) by (simp add: F(2) view_after_def view_of_def)
    qed
  qed
  moreover have "runner_ok mr3"
    using F(1) S(2) P(2) by (simp add: runner_ok_def mr3_def)
  moreover have "same_device mr mr3"
    using P(3) S(2) by (simp add: same_device_def mr3_def)
  moreover have pool3: "pooling_requests mr3 = pooling_requests mr1" by (simp add: mr3_def)
  moreover have "\<exists>v. step_view so mr rid = Some v \<and> answered_right so (pooling_after so mr) out rid n v"
    if rn: "(rid, n) \<in> set ?ns" for rid n
  proof -
    have n: "granted_to ?ns rid = n" using rn dist by simp
    have "rid \<in> set ?ids" using rn ids(1) by force
    then obtain k where k: "k < length ?ids" "?ids ! k = rid" by (auto simp: in_set_conv_nth)
    obtain v where v: "held mr1 rid = Some v" using known rn by fastforce
    then have vo: "view_of mr1 rid = v" by (simp add: view_of_def)
    have lens: "length (ib_idx_mapping ib) = length ?ids" "length (is_prefilling ib) = length ?ids" "length (seq_lens ib) = length ?ids"
      by (simp_all add: I(2-4))
    have lt: "length tss = length ?ids" using list_all2_lengthD [OF S(3)] lens by simp
    have g: "indexed out tss rid = Some (tss ! k)"
      using indexed_at [OF ids(2) k(1) lt, of out] k(2) by (simp add: out_def)
    have gen: "generated_for out rid = tss ! k" using g by (simp add: out_def)
    have "sampled_right mr1 (so_spec_decode_tokens so) (?rows ! k) (tss ! k)"
      using list_all2_nthD2 [OF S(3), of k] k(1) lt by simp
    moreover have "?rows ! k = (rid, ib_idx_mapping ib ! k, still_prefilling v n)"
      using k lens I(4) vo n by simp
    moreover have "rid \<in> fst ` set (pooling_requests mr1) \<longleftrightarrow> rid \<in> pooling_after so mr"
      using P(5) by (metis dom_map_of_conv_image_fst)
    ultimately have right: "if still_prefilling v n \<or> rid \<in> pooling_after so mr then tss ! k = []
        else 1 \<le> length (tss ! k) \<and> length (tss ! k) \<le> 1 + length (drafts_of so rid)" by (simp add: sampled_right_def)
    have pooled: "pooled_for out rid \<noteq> None" if p: "rid \<in> pooling_after so mr" "sv_prompt v \<le> sv_computed v + n"
    proof -
      obtain dp where dp: "map_of (pooling_requests mr1) rid = Some dp" using p(1) P(5) by (metis domD)
      then have ne: "pooling_requests mr1 \<noteq> []" by auto
      have all2: "list_all2 (\<lambda>row y. pool_one E mr1 row = Inr y) ?prows pooled" using ps by (simp add: mapE_Inr_iff)
      then have lp: "length pooled = length ?ids" using lens by (simp add: list_all2_lengthD [symmetric])
      then have ix: "indexed out pooled rid = Some (pooled ! k)" using indexed_at [OF ids(2) k(1), of pooled out] k(2) by (simp add: out_def)
      have po: "pooler_output out = pooled" using ne by (simp add: out_def)
      let ?i = "the (map_of (ws_index (mr_states mr1)) rid)"
      have "view (mr_states mr1) (mr_tables mr1) ?i = v" using v by (auto simp: held_def)
      then have pl: "ws_prompt_len (mr_states mr1) ! ?i = sv_prompt v" by (metis view_fields(1))
      have "pool_one E mr1 (?prows ! k) = Inr (pooled ! k)" using list_all2_nthD2 [OF all2, of k] k(1) lp by simp
      moreover have "?prows ! k = (rid, ?i, sv_computed v + n)" using k lens I(2,3) vo n by simp
      ultimately have "pooled ! k \<noteq> None"
        using pool_one_ok [OF env pw, of rid ?i "sv_computed v + n"] dp p(2) pl by auto
      then show ?thesis unfolding po ix by simp
    qed
    have "answered_right so (pooling_after so mr) out rid n v" using right pooled by (auto simp: answered_right_def gen)
    then show ?thesis using v P(4) by auto
  qed
  ultimately show ?thesis using run P(5)
    by (intro exI [of _ out] exI [of _ secs] exI [of _ mr3] exI [of _ d']) auto
qed

end
