(* ===== verification/WorkerExamples.thy ===== *)
theory WorkerExamples
  imports OutputExamples WorkerRun
begin

text \<open>
  A runner for the groups of the example scheduler, at the step the scheduler has decided.
\<close>

definition ex_runner :: "int model_runner" where
  "ex_runner = model_runner_init 2 16 [2, 2] True [False, True] False 0 True ex_sim"

definition ex_env :: "int runner_env" where
  "ex_env = \<lparr>env_sim = ex_sim_libs, env_libs = ex_libs, env_dimensions = (\<lambda>rid. 1), env_order = sorted_list_of_set\<rparr>"

lemma ex_env: "orders_sets ex_env" "env_ok ex_env"
  by (simp_all add: orders_sets_def env_ok_def digests_def ex_env_def ex_sim_libs_def)

lemma all_less_two: "(\<forall>i<Suc (Suc 0). P i) \<longleftrightarrow> P 0 \<and> P (Suc 0)"
  by (auto simp: less_Suc_eq)

lemma ex_step_fields:
  "so_finished_req_ids (fst ex_decision) = {}" "so_preempted_req_ids (fst ex_decision) = None"
  "so_cached_reqs (fst ex_decision) = []" "so_total_num_scheduled_tokens (fst ex_decision) = 5"
  "so_new_reqs (fst ex_decision) = [new_request_data_of (ex_request ''a'' [1, 2, 3, 4, 5]) [[1, 2, 3], [4, 5, 6]]]"
  by code_simp+

lemma ex_runner_fields:
  "ws_index (mr_states ex_runner) = []" "mr_max_num_reqs ex_runner = 2" "bt_block_sizes (mr_tables ex_runner) = [2, 2]"
  "max_blocks_per_req (mr_tables ex_runner) = [8, 8]" "pooling_requests ex_runner = []"
  by code_simp+

lemma ex_runner_ok: "runner_ok ex_runner"
  by (auto simp: runner_ok_def runner_wf_def states_wf_def tables_wf_def ex_runner_def model_runner_init_def
      worker_states_init_def block_tables_init_def Let_def sampleable_def ex_sim_def tokens_wf_def pooled_wf_def fits32_def)

lemma ex_fits: "finite (gone (fst ex_decision))" "fits_step (fst ex_decision) ex_runner"
proof -
  let ?so = "fst ex_decision" and ?nr = "new_request_data_of (ex_request ''a'' [1, 2, 3, 4, 5]) [[1, 2, 3], [4, 5, 6]]"
  have held: "held ex_runner x = None" for x by (simp add: held_None ex_runner_fields)
  then have kept: "kept ?so ex_runner x = None" for x by (simp add: kept_def restrict_map_def)
  then have none: "dom (kept ?so ex_runner) = {}" by (simp add: dom_def)
  have id: "nr_req_id ?nr = ''a''" by (simp add: new_request_data_of_def ex_request_def)
  have adm: "admissible_new ex_runner ?nr"
    by (simp add: admissible_new_def ex_runner_fields new_request_data_of_def given_tokens_def ex_request_def
        unconstrained_def ex_sampling_def all_less_two nth_Cons' new_fits32_def given_max_def fits32_def)
  have view: "step_view ?so ex_runner ''a'' = Some (new_view ?nr)"
    by (simp add: step_view_def ex_step_fields new_for_def id)
  have v: "sv_computed (new_view ?nr) = 0" "sv_computed_prefill (new_view ?nr) = 0" "sv_blocks (new_view ?nr) = [3, 3]"
    by (simp_all add: new_view_def Let_def new_request_data_of_def ex_request_def)
  have "fits_tables ex_runner (new_view ?nr) 5"
    by (simp add: fits_tables_def ex_runner_fields v all_less_two nth_Cons' fits32_def)
  then show "fits_step ?so ex_runner"
    by (simp add: fits_step_def ex_step_fields ex_scheduled kept none adm view id ex_runner_fields fits32_def)
  show "finite (gone ?so)" by (simp add: gone_def ex_step_fields)
qed

end
