(* ===== verification/Spec2Isabelle.thy ===== *)
theory Spec2Isabelle
  imports WorkerExamples
begin

text \<open>
  A verification library for the engine of pretending-vllm, a reimplementation of the vLLM V1
  engine (\<open>src/pvllm\<close>): the scheduler, the paged KV cache under it, the engine core that drives
  them, the frontend's checks before it, and the grammar backend for structured outputs.

  \<^bold>\<open>The program.\<close> The input processor checks a client's request and the engine core takes it in.
  In each step \<open>Scheduler.schedule\<close> decides how many tokens of which requests
  run, asking the \<open>KVCacheManager\<close> for slots; the worker runs the decision; and
  \<open>Scheduler.update_from_output\<close> folds the sampled tokens back. The KV cache manager
  coordinates one \<open>SingleTypeKVCacheManager\<close> per KV cache group, all drawing blocks from one
  \<open>BlockPool\<close>, whose free blocks stand in a doubly linked queue in eviction order and whose full
  blocks can be found again by a chained content hash (prefix caching).

  \<^bold>\<open>Theories and code.\<close>
  \<^item> \<open>Prelude\<close>: exceptions as values (\<open>py_error\<close>, \<open>'a result\<close>, \<open>rbind\<close>, \<open>foldE\<close>), ceiling
    division, slices. A method that raises is \<open>Inl\<close> of the exception, and what it had changed by
    then is dropped: no caller in the modelled code catches one.
  \<^item> \<open>FreeQueue\<close>: \<open>KVCacheBlock\<close> and \<open>FreeKVCacheBlockQueue\<close> of \<open>v1/core/kv_cache_utils.py\<close>
    over an explicit store of blocks; the locale \<open>block_queue\<close> is the list it implements.
  \<^item> \<open>BlockPool\<close>: \<open>v1/core/block_pool.py\<close> and the cache keys. \<open>pool_inv p xs\<close> says that \<open>xs\<close> is
    the free queue, that exactly the unreferenced blocks are in it, and that the prefix-cache map
    agrees with the hashes on the blocks. The locale \<open>block_provider\<close> is what the managers rely on:
    references agree with a multiset of holdings.
    \<open>Publication\<close> has \<open>cache_full_blocks\<close> and \<open>get_cached_block\<close> together, over any call.
  \<^item> \<open>RequestState\<close>: \<open>v1/request.py\<close>, the block hashing of \<open>kv_cache_utils.py\<close>,
    \<open>sched/utils.py\<close>. The hash function is the argument \<open>H\<close>. \<open>PrefixHash\<close>: what equal
    stored hashes mean for two requests, over their lives (\<open>request_life\<close>). \<open>StopCheck\<close>: which of a step's
    tokens a request keeps, against the specification \<open>ends_with\<close>.
  \<^item> \<open>KVSpec\<close>: \<open>v1/kv_cache_interface.py\<close>, page-size unification and layer grouping.
  \<^item> \<open>SingleTypeManager\<close>, \<open>Coordinator\<close>, \<open>KVManager\<close>: the three files
    \<open>v1/core/single_type_kv_cache_manager.py\<close>, \<open>kv_cache_coordinator.py\<close>, \<open>kv_cache_manager.py\<close>.
    The locale \<open>prefix_hit\<close> is the contract of one group's lookup; \<open>hit_list\<close> and \<open>serves_blocks\<close>
    are its specification; \<open>kvm_inv\<close> is the invariant of the whole.
  \<^item> \<open>RequestQueue\<close>: \<open>sched/request_queue.py\<close>, with the locales \<open>waiting_queue\<close>, \<open>fifo_queue\<close>
    and \<open>priority_queue\<close>; the heap is the sorted list it enumerates.
  \<^item> \<open>EncoderCache\<close>: \<open>v1/core/encoder_cache_manager.py\<close>; \<open>enc_inv\<close> is its accounting.
  \<^item> \<open>Connector\<close>: \<open>sim/kv_store.py\<close> and \<open>distributed/kv_transfer/sim_connector.py\<close>.
    \<open>StoreHistory\<close>: the store over any history of operations, against the list \<open>newest\<close>.
  \<^item> \<open>Scheduler\<close>: \<open>v1/core/sched/scheduler.py\<close> and \<open>output.py\<close>, whole handlers: \<open>schedule\<close>,
    \<open>update_from_output\<close>, \<open>finish_requests\<close> and what they call.
  \<^item> \<open>SchedulerInv\<close>: the invariant \<open>core_inv\<close> of the scheduler between the steps of \<open>schedule\<close> (cache
    manager, request table, placement, encoder cache, adapters), the bookkeeping \<open>books\<close> of a step
    in progress, and lemmas that each step keeps them and does not raise.
  \<^item> \<open>SchedulerRun\<close>: the loops of \<open>schedule\<close>, phase by phase; \<open>ready_inv\<close> is what holds between
    engine steps, \<open>in_flight\<close> what holds while the worker runs one, and \<open>schedule_ok\<close> leads from
    the one to the other.
  \<^item> \<open>SchedulerFold\<close>: \<open>update_from_output\<close> leads back, given what the runner promises
    (\<open>worker_ok\<close>); arrivals and terminations keep \<open>ready_inv\<close>. \<open>reaches\<close> is the step relation of
    whole runs, and \<open>run_ready\<close> its invariant.
  \<^item> \<open>Frontend\<close>: \<open>sampling_params.py\<close>, \<open>pooling_params.py\<close>, \<open>v1/engine/input_processor.py\<close>,
    \<open>Request.from_engine_core_request\<close>, and the grammar objects of \<open>sim/structured_output.py\<close>.
  \<^item> \<open>EngineCore\<close>: \<open>v1/engine/core.py\<close> with the executor as a parameter; \<open>EngineRun\<close>: \<open>engine_ok\<close>
    is its invariant between steps, \<open>engine_reaches\<close> the step relation of whole runs (accepted,
    aborted, stepped, compiled, idle), and \<open>returns\<close> the calculus of partial correctness by which
    every operation is shown to lose no request.
  \<^item> \<open>RegexGen\<close>, \<open>JsonSchema\<close>: the two halves of \<open>sim/grammar.py\<close>, over a record \<open>py_libs\<close> of
    what it calls of numpy and the standard library. \<open>Doubles\<close> is the rounding of a rational to an
    IEEE double. \<open>RegexLang\<close> gives patterns a syntax and a
    language and proves the recursive descent against it; \<open>JsonValid\<close> proves that the validator
    accepts what the generator makes of a schema in \<open>schema_ok\<close>.
  \<^item> \<open>Detokenizer\<close>: \<open>v1/engine/detokenizer.py\<close> over an arbitrary tokenizer; \<open>dt_ok\<close> is its
    well-formedness, \<open>held_back\<close> says that what was given out cannot be cut off any more, and
    \<open>earliest\<close> is the specification of the search for stop strings.
  \<^item> \<open>OutputProcessor\<close>: \<open>v1/engine/output_processor.py\<close> and \<open>parallel_sampling.py\<close>.
  \<^item> \<open>SimModel\<close>: \<open>sim/model.py\<close> and \<open>sim/rng.py\<close>, the source of tokens, drafts and pooling vectors
    (SHA-256, the sum and the square root of floats are parameters); \<open>emit_steps\<close> is
    a request's run over its steps.
  \<^item> \<open>Worker\<close>: the model runner of \<open>v1/worker/gpu\<close> with its persistent batch, block tables, input
    preparation and sampling; the device is a parameter. Its arrays hold 32-bit integers: storing a
    number outside raises \<open>OverflowError\<close>, arithmetic within them wraps. \<open>WorkerRun\<close>: \<open>held\<close> is the table of
    requests behind the slots, \<open>runner_ok\<close> the invariant of the batch, \<open>fits_step\<close> what a step must
    bring, and \<open>execute_ok\<close> the effect of a step on \<open>held\<close> and its answers.
  \<^item> \<open>Examples\<close>, \<open>EngineExamples\<close>, \<open>OutputExamples\<close>, \<open>WorkerExamples\<close>: concrete objects for the witnesses.

  \<^bold>\<open>State.\<close> Python objects are records; shared \<open>Request\<close> objects live in the association list
  \<open>requests\<close> and are referred to by id (ids are unique: the frontend makes them so); shared blocks
  live in the store of the queue and are referred to by \<open>bref\<close>. Dictionaries are association
  lists in insertion order. Sets that are iterated are lists without repetition (the interpreter's
  order is unspecified). Integers are unbounded as in Python, except in the arrays of the runner.
  Floats of the grammar backend and of \<open>embed\<close> are doubles: rationals rounded to the nearest double after each
  operation (\<open>double_of\<close>). The other floats (times, rates, bandwidths, sampling parameters) are compared, or
  added up in statistics; they are rationals, without rounding.

  \<^bold>\<open>Loops.\<close> Every loop is a total function with a proved measure; the only walk that needs it,
  \<open>get_all_free_blocks\<close>, is a partial function whose termination on well-formed queues is proved.
  The recursive descents of the grammar backend count down the nested values or groups that the
  interpreter's stack has room for (\<open>recursion_limit\<close>, \<open>group_limit\<close>; a group takes four frames or more) and end
  in \<open>RecursionError\<close> at zero; \<open>regex_recursion_ends\<close> and the depth limit of \<open>generate\<close> show
  what keeps them away from it.

  \<^bold>\<open>Not modelled.\<close> The trace sink, logging and the statistics snapshots (observers); the opt-in
  assertions of \<open>PVLLM_DEBUG_INVARIANTS\<close> inside operations (\<open>check_invariants\<close> is modelled and
  proved to pass); processes, sockets and HTTP; third-party tokenizers; the floating-point cost
  model.
\<close>

section \<open>The KV cache\<close>

text \<open>
  C5. The prefix-cache lookup across all KV cache groups returns, for groups of one block
  size, the longest prefix (in whole blocks, within the bound) that every group can serve, and
  for each group exactly the block table of that prefix: placeholders for what the group no
  longer reads, the cached blocks for what it does. The fixed-point loop always ends.
\<close>

theorem reconciled_hit:
  assumes "groups_ok p ms B" and "ms \<noteq> []" and "max_length div B \<le> length hs"
  shows "\<exists>L. co_find_longest_cache_hit ms p hs max_length =
           Inr (map (\<lambda>m. hit_list m p hs L) ms, L * B) \<and>
         L \<le> max_length div B \<and> (\<forall>m\<in>set ms. serves_blocks m p hs L) \<and>
         (\<forall>L'. L < L' \<longrightarrow> L' \<le> max_length div B \<longrightarrow> \<not> (\<forall>m\<in>set ms. serves_blocks m p hs L'))"
  using co_find_longest_cache_hit_spec [OF assms] unfolding common_hit_def by blast

theorem reconciled_hit_witness:
  "\<exists>L. co_find_longest_cache_hit (single_type_managers ex_kvm5) (kvm_pool ex_kvm5) (block_hashes ex_req5b) 4 =
        Inr (map (\<lambda>m. hit_list m (kvm_pool ex_kvm5) (block_hashes ex_req5b) L) (single_type_managers ex_kvm5), L * 2) \<and>
      co_find_longest_cache_hit (single_type_managers ex_kvm5) (kvm_pool ex_kvm5) (block_hashes ex_req5b) 4 =
        Inr ([[Blk 1, Blk 2], [Blk 0, Blk 5]], 4)"
proof -
  have G: "groups_ok (kvm_pool ex_kvm5) (single_type_managers ex_kvm5) 2" "single_type_managers ex_kvm5 \<noteq> []"
    using ex_kvm5_inv by (simp_all add: kvm_inv_def ex_kvm5_fields)
  have "co_find_longest_cache_hit (single_type_managers ex_kvm5) (kvm_pool ex_kvm5) (block_hashes ex_req5b) 4 =
        Inr ([[Blk 1, Blk 2], [Blk 0, Blk 5]], 4)" by code_simp
  moreover have "4 div 2 \<le> length (block_hashes ex_req5b)" by (simp add: ex_req5_fields)
  ultimately show ?thesis using reconciled_hit [OF G, of 4 "block_hashes ex_req5b"] by blast
qed

text \<open>
  C7. A single group's lookup, whichever its type: full attention returns the longest cached run
  from the start, a window the longest prefix whose last blocks (as many as the window needs)
  are cached, a state-space group the newest cached snapshot; and never more than the bound.
\<close>

theorem group_hit:
  assumes "mgr_ok p m" and "max_length div nat (mgr_block_size m) \<le> length hs"
  shows "\<exists>L. find_longest_cache_hit m p hs max_length =
           Inr (hit_list m p hs L, L * nat (mgr_block_size m)) \<and>
         greatest_served m p hs (max_length div nat (mgr_block_size m)) L"
  by (rule find_longest_cache_hit_spec [OF assms])

theorem group_hit_witness:
  "\<exists>m L. m \<in> set (single_type_managers ex_kvm5) \<and>
     find_longest_cache_hit m (kvm_pool ex_kvm5) (block_hashes ex_req5b) 5 =
      Inr (hit_list m (kvm_pool ex_kvm5) (block_hashes ex_req5b) L, L * 2)"
proof -
  obtain m where m: "m \<in> set (single_type_managers ex_kvm5)"
    using ex_kvm5_inv by (metis kvm_inv_def list.set_intros(1) neq_Nil_conv)
  then have ok: "mgr_ok (kvm_pool ex_kvm5) m" and bs: "mgr_block_size m = 2"
    using ex_kvm5_inv kvm_block_sizes [OF ex_kvm5_inv m] by (auto simp: kvm_inv_def groups_ok_def ex_kvm5_fields)
  show ?thesis using group_hit [OF ok, of 5 "block_hashes ex_req5b"] m by (auto simp: bs ex_req5_fields)
qed

text \<open>
  C8. \<open>get_computed_blocks\<close> for a request whose hashes are current never reports the whole
  request as cached: at least one token is left to compute. It changes nothing but the two
  counters of the cache statistics.
\<close>

theorem lookup_leaves_work:
  assumes inv: "kvm_inv k" and "kvm_enable_caching k" and "num_computed_tokens r \<le> 0" and pos: "0 < num_tokens r"
    and cur: "hashes_current H r" "block_hasher r = Some (kvm_block_size k, nh)"
  shows "\<exists>bss n k'. get_computed_blocks r k = Inr (bss, n, k') \<and> 0 \<le> n \<and> n < num_tokens r \<and>
    n mod kvm_block_size k = 0 \<and>
    k' = k\<lparr>kvm_stats := (kvm_stats k)\<lparr>queries := queries (kvm_stats k) + num_tokens r,
                                    hits := hits (kvm_stats k) + n\<rparr>\<rparr>"
proof -
  let ?B = "kvm_block_size k"
  have B: "0 < ?B" using inv by (simp add: kvm_inv_def groups_ok_def)
  have "int (length (block_hashes r)) = num_tokens r div ?B"
    using cur pos B by (simp add: hashes_current_def num_full_hashes_def pos_imp_zdiv_nonneg_iff)
  then have "(num_tokens r - 1) div ?B \<le> int (length (block_hashes r))"
    using B by (simp add: zdiv_mono1)
  from get_computed_blocks_hit [OF assms(1-3) this] obtain L k' where
    L: "common_hit (single_type_managers k) (kvm_pool k) (block_hashes r) (nat (max 0 (num_tokens r - 1)) div nat ?B) L"
    "get_computed_blocks r k = Inr (if L = 0 then empty_blocks k
           else map (\<lambda>m. hit_list m (kvm_pool k) (block_hashes r) L) (single_type_managers k), int L * ?B, k')"
    "k' = k\<lparr>kvm_stats := (kvm_stats k)\<lparr>queries := queries (kvm_stats k) + num_tokens r,
                                    hits := hits (kvm_stats k) + int L * ?B\<rparr>\<rparr>" by blast
  have "nat (max 0 (num_tokens r - 1)) div nat ?B = nat ((num_tokens r - 1) div ?B)"
    using pos B by (simp add: nat_div_distrib max_def)
  then have "int L \<le> (num_tokens r - 1) div ?B"
    using L(1) pos B by (simp add: common_hit_def le_nat_iff pos_imp_zdiv_nonneg_iff)
  then have "int L * ?B \<le> num_tokens r - 1" using le_div_iff_mult_le [OF B] by simp
  then show ?thesis using L(2,3) B by auto
qed

theorem lookup_leaves_work_witness:
  "\<exists>bss n k'. get_computed_blocks ex_req5b ex_kvm5 = Inr (bss, n, k') \<and> n < num_tokens ex_req5b"
proof -
  have h: "hashes_current ex_hash ex_req5b"
    unfolding ex_req5b_def by (rule attach_hashes_current) (simp_all add: ex_request_def)
  have b: "block_hasher ex_req5b = Some (kvm_block_size ex_kvm5, kvm_none_hash ex_kvm)"
    by (simp add: ex_kvm5_fields ex_req5b_def attach_block_hasher_def)
  show ?thesis
    using lookup_leaves_work [OF ex_kvm5_inv ex_kvm5_fields(2) _ _ h b]
    by (auto simp: ex_req5_fields)
qed

text \<open>
  C6. \<open>allocate_slots\<close>, given a prefix it may adopt: either it answers \<open>None\<close> and has
  changed nothing, exactly when the estimate exceeds the free blocks; or it returns the new
  blocks per group, every table is the old one followed by the adopted and the new blocks, no
  other request's table changes, there is room for the tokens asked for, and reference counts
  still agree with the tables. Once the estimate passed, it never raises.
\<close>

theorem allocation_all_or_nothing:
  fixes nc :: "bref list list option"
  assumes "kvm_inv k" and "num_new \<noteq> 0"
    and "adoptable k (request_id r) (num_computed_tokens r + num_hit) (per_group_cached nc k)"
  shows "let n = num_computed_tokens r + num_hit;
             slots = min (n + num_new + lookahead) (kvm_max_model_len k)
         in if get_num_free_blocks (kvm_pool k)
              < estimates (single_type_managers k) (kvm_pool k) (request_id r) slots (per_group_cached nc k) n
            then allocate_slots r num_new num_hit nc lookahead delay k = Inr (None, k)
            else \<exists>news k'. allocate_slots r num_new num_hit nc lookahead delay k = Inr (Some news, k') \<and>
              kvm_inv k' \<and> has_slots k' (request_id r) slots \<and>
              kvm_get_blocks k' (request_id r) =
                map2 (@) (map2 (@) (kvm_get_blocks k (request_id r)) (per_group_cached nc k)) news \<and>
              (\<forall>rid. rid \<noteq> request_id r \<longrightarrow> kvm_get_blocks k' rid = kvm_get_blocks k rid)"
  using allocate_slots_spec [OF assms, of lookahead delay] by (auto simp: Let_def split: if_splits)

theorem allocation_all_or_nothing_witness:
  "\<exists>news k'. allocate_slots ex_req5 5 0 None 0 False ex_kvm = Inr (Some news, k') \<and> kvm_inv k' \<and>
     has_slots k' ''a'' 5"
proof -
  have "per_group_cached None ex_kvm = empty_blocks ex_kvm" by (simp add: per_group_cached_def)
  then show ?thesis
    using allocation_all_or_nothing [OF ex_kvm_inv, of 5 ex_req5 0 None 0 False] ex_adoptable ex_enough
    by (auto simp: Let_def ex_req5_fields ex_kvm_fields)
qed

text \<open>
  C9. A request that holds nothing is looked up and then given slots with the blocks found:
  the combination never raises, whatever mixture of group types the model has. The adopted
  blocks stand at the head of its tables.
\<close>

theorem admission_of_a_hit:
  assumes "kvm_inv k" and "num_computed_tokens r = 0" and "0 < num_tokens r"
    and "kvm_enable_caching k \<Longrightarrow> (num_tokens r - 1) div kvm_block_size k \<le> int (length (block_hashes r))"
    and "holds_none k (request_id r)" and "num_new \<noteq> 0"
  shows "\<exists>bss hit k1 res k2. get_computed_blocks r k = Inr (bss, hit, k1) \<and>
    allocate_slots r num_new hit (Some bss) 0 delay k1 = Inr (res, k2) \<and> kvm_inv k2 \<and>
    (\<forall>news. res = Some news \<longrightarrow>
       kvm_get_blocks k2 (request_id r) = map2 (@) bss news \<and>
       has_slots k2 (request_id r) (min (hit + num_new) (kvm_max_model_len k)))"
  using hit_then_slots [OF assms] by blast

theorem admission_of_a_hit_witness:
  "\<exists>bss hit k1 res k2. get_computed_blocks ex_req5b ex_kvm5 = Inr (bss, hit, k1) \<and>
    allocate_slots ex_req5b 1 hit (Some bss) 0 False k1 = Inr (res, k2) \<and> kvm_inv k2"
proof -
  have "holds_none ex_kvm5 ''b''" using ex_kvm5_b by (simp add: holds_none_def)
  then show ?thesis
    using admission_of_a_hit [OF ex_kvm5_inv, of ex_req5b 1 False]
    by (auto simp: ex_req5_fields ex_kvm5_fields)
qed

section \<open>Life cycle of the KV cache\<close>

text \<open>
  C10. Freeing a request never raises: all its tables become empty, no other request's table
  changes, and the reference counts of the pool still agree with the tables that are left.
\<close>

theorem release_returns_everything:
  assumes "kvm_inv k"
  shows "\<exists>k'. kvm_free r k = Inr k' \<and> kvm_inv k' \<and> (\<forall>bs\<in>set (kvm_get_blocks k' (request_id r)). bs = []) \<and>
    (\<forall>rid. rid \<noteq> request_id r \<longrightarrow> kvm_get_blocks k' rid = kvm_get_blocks k rid)"
  using kvm_free_inv [OF assms, of r] unfolding list_all_iff by blast

theorem release_returns_everything_witness:
  "\<exists>k'. kvm_free ex_req5 ex_kvm5 = Inr k' \<and> kvm_inv k' \<and> kvm_get_blocks k' ''b'' = [[], []] \<and>
     kvm_get_blocks ex_kvm5 ''a'' \<noteq> kvm_get_blocks k' ''a''"
proof -
  obtain k' where k': "kvm_free ex_req5 ex_kvm5 = Inr k'" "kvm_inv k'"
    "\<forall>bs\<in>set (kvm_get_blocks k' ''a''). bs = []" "\<forall>rid. rid \<noteq> ''a'' \<longrightarrow> kvm_get_blocks k' rid = kvm_get_blocks ex_kvm5 rid"
    using release_returns_everything [OF ex_kvm5_inv, of ex_req5] by (auto simp: ex_req5_fields)
  moreover have "\<exists>bs\<in>set (kvm_get_blocks ex_kvm5 ''a''). bs \<noteq> []" by code_simp
  ultimately show ?thesis using ex_kvm5_b by auto
qed

text \<open>
  C11. Window eviction replaces the leading table entries a group no longer reads by the null
  block and touches nothing else: every table keeps its length, so every position keeps its
  slot, and a request that had room for \<open>n\<close> tokens still has.
\<close>

theorem eviction_keeps_positions:
  assumes "kvm_inv k"
  shows "\<exists>k'. remove_skipped_blocks r k = Inr k' \<and> kvm_inv k' \<and>
    list_all2 (\<lambda>m m'. let j = skipped_slots m (request_id r) (num_computed_tokens r)
       in get_blocks m' (request_id r) =
            replicate j (the (null_block (kvm_pool k))) @ drop j (get_blocks m (request_id r)))
      (single_type_managers k) (single_type_managers k') \<and>
    (\<forall>rid n. has_slots k rid n \<longrightarrow> has_slots k' rid n) \<and>
    (\<forall>rid. rid \<noteq> request_id r \<longrightarrow> kvm_get_blocks k' rid = kvm_get_blocks k rid)"
proof -
  from remove_skipped_blocks_inv [OF assms, of r] obtain k' where k': "remove_skipped_blocks r k = Inr k'"
    "kvm_inv k'" "list_all2 (\<lambda>m m'. let j = skipped_slots m (request_id r) (num_computed_tokens r);
         bs = get_blocks m (request_id r)
       in get_blocks m' (request_id r) = replicate j (the (null_block (kvm_pool k))) @ drop j bs)
      (single_type_managers k) (single_type_managers k')"
    "\<forall>rid. rid \<noteq> request_id r \<longrightarrow> kvm_get_blocks k' rid = kvm_get_blocks k rid" by blast
  then show ?thesis using remove_skipped_slots [OF assms k'(1)] by (auto simp: Let_def)
qed

theorem eviction_keeps_positions_witness:
  "\<exists>k'. remove_skipped_blocks (ex_req5\<lparr>num_computed_tokens := 5\<rparr>) ex_kvm5 = Inr k' \<and> kvm_inv k' \<and> has_slots k' ''a'' 5 \<and>
     kvm_get_blocks ex_kvm5 ''a'' = [[Blk 1, Blk 2, Blk 3], [Blk 4, Blk 5, Blk 6]] \<and>
     kvm_get_blocks k' ''a'' = [[Blk 1, Blk 2, Blk 3], [Blk 0, Blk 5, Blk 6]]"
proof -
  from eviction_keeps_positions [OF ex_kvm5_inv, of "ex_req5\<lparr>num_computed_tokens := 5\<rparr>"] obtain k' where
    k': "remove_skipped_blocks (ex_req5\<lparr>num_computed_tokens := 5\<rparr>) ex_kvm5 = Inr k'" "kvm_inv k'" "has_slots k' ''a'' 5"
    using ex_kvm5_slots by auto
  moreover have "case remove_skipped_blocks (ex_req5\<lparr>num_computed_tokens := 5\<rparr>) ex_kvm5 of
      Inl _ \<Rightarrow> False | Inr k' \<Rightarrow> kvm_get_blocks k' ''a'' = [[Blk 1, Blk 2, Blk 3], [Blk 0, Blk 5, Blk 6]]" by code_simp
  moreover have "kvm_get_blocks ex_kvm5 ''a'' = [[Blk 1, Blk 2, Blk 3], [Blk 4, Blk 5, Blk 6]]" by code_simp
  ultimately show ?thesis by simp
qed

text \<open>
  C12. When no request holds a block, every usable block of the pool is free, the reported usage is
  zero, and a reset of the prefix cache is accepted.
\<close>

theorem nothing_leaks:
  assumes "kvm_inv k" and "\<forall>m\<in>set (single_type_managers k). \<forall>(rid, bs)\<in>set (req_to_blocks m). bs = []"
  shows "get_num_free_blocks (kvm_pool k) = num_usable_blocks (kvm_pool k) \<and> usage k = 0 \<and>
    fst (reset_prefix_cache k)"
  using idle_pool_free [OF assms(1)] assms(2) table_empty_iff by blast

theorem nothing_leaks_witness:
  "usage ex_kvm = 0 \<and> get_num_free_blocks (kvm_pool ex_kvm) = num_usable_blocks (kvm_pool ex_kvm)"
  using nothing_leaks [OF ex_kvm_inv] ex_kvm_idle unfolding table_empty_iff by blast

text \<open>
  C13. What the constructor returns satisfies the invariant every operation keeps, for any mixture
  of group types of one block size (fewer than \<open>2 ^ 32\<close> of them, the width of a group id in a
  key), and no request holds anything.
\<close>

theorem fresh_manager:
  assumes "kv_cache_manager_init H c max_len caching kv_events seed = Inr k"
    and "0 < B" and "\<forall>g\<in>set (kv_cache_groups c). spec_ok B (group_spec g)"
    and "length (kv_cache_groups c) < 2 ^ 32"
  shows "kvm_inv k \<and> kvm_block_size k = B \<and> kvm_get_blocks k rid = replicate (length (kv_cache_groups c)) []"
  using kv_cache_manager_init_inv [OF assms] by blast

theorem fresh_manager_witness: "kvm_inv ex_kvm \<and> kvm_block_size ex_kvm = 2"
  using fresh_manager [OF ex_kvm, of 2] by (simp add: ex_config_def spec_ok_def ex_attention_def)

section \<open>Requests\<close>

text \<open>
  C14. The block hashes a request carries are always those of its current tokens: extending the
  chain after tokens are appended gives what hashing the whole history from scratch gives, and
  the hashes computed before stay what they were.
\<close>

theorem incremental_hashing:
  fixes ts :: "int list"
  assumes "hashes_current H r" and "block_hasher r = Some (bs, nh)"
  defines "r' \<equiv> append_output_token_ids H ts r"
  shows "hashes_current H r' \<and> block_hashes r' = request_block_hasher H bs nh (r'\<lparr>block_hashes := []\<rparr>) \<and>
    take (length (block_hashes r)) (block_hashes r') = block_hashes r \<and>
    length (block_hashes r') = nat ((num_tokens r + int (length ts)) div bs)"
proof -
  have cur: "hashes_current H r'" unfolding r'_def by (rule append_hashes_current [OF assms(1)])
  have h': "block_hasher r' = Some (bs, nh)" using assms(2) by (simp add: r'_def append_output_token_ids_def)
  have toks: "all_token_ids r' = all_token_ids r @ ts" by (simp add: r'_def append_output_token_ids_def)
  have "block_hashes r' = map (chain_hash H bs nh r') [0..<num_full_hashes bs r']"
    using cur h' by (simp add: hashes_current_def)
  moreover have len: "num_full_hashes bs r' = nat ((num_tokens r + int (length ts)) div bs)"
    using toks by (simp add: num_full_hashes_def num_tokens_def)
  moreover have "take (length (block_hashes r)) (block_hashes r') = block_hashes r"
    by (simp add: r'_def append_output_token_ids_def update_block_hashes_def assms(2))
  ultimately show ?thesis using cur from_scratch [OF cur h'] by simp
qed

theorem incremental_hashing_witness:
  "length (block_hashes (append_output_token_ids ex_hash [9] ex_req5)) = 3 \<and>
   take 2 (block_hashes (append_output_token_ids ex_hash [9] ex_req5)) = block_hashes ex_req5"
proof -
  have h: "hashes_current ex_hash ex_req5"
    unfolding ex_req5_def by (rule attach_hashes_current) (simp_all add: ex_request_def)
  have "block_hasher ex_req5 = Some (2, kvm_none_hash ex_kvm)"
    by (simp add: ex_req5_def attach_block_hasher_def)
  from incremental_hashing [OF h this, of "[9]"]
  have "take (length (block_hashes ex_req5)) (block_hashes (append_output_token_ids ex_hash [9] ex_req5)) = block_hashes ex_req5"
    "length (block_hashes (append_output_token_ids ex_hash [9] ex_req5)) = nat ((num_tokens ex_req5 + int (length [9::int])) div 2)"
    by blast+
  then show ?thesis by (simp add: ex_req5_fields del: length_append)
qed

text \<open>
  C15. What makes prefix caching sound. Take two requests, each hashed when it was built and again
  whenever tokens were appended, in any portions. If the digest never returns the empty string and
  has no collision among what it was given for the stored hashes of the two (the hash stored before,
  the tokens and the extra keys of the block) and for the root of the chains, then a hash stored for
  the one equals a hash stored for the other only at the same position, with the same tokens up to
  the end of that block and the same extra keys in every block up to it.
\<close>

theorem equal_hash_equal_prefix:
  assumes "0 < bs" and "block_hashes r = []" and "block_hashes s = []" and "\<And>x. H x \<noteq> []"
    and "nh = compute_none_hash H seed" and "collision_free H bs seed (request_life H bs nh r rs) (request_life H bs nh s ss)"
    and "k < length (block_hashes (request_life H bs nh r rs))" and "j < length (block_hashes (request_life H bs nh s ss))"
    and "block_hashes (request_life H bs nh r rs) ! k = block_hashes (request_life H bs nh s ss) ! j"
  shows "k = j \<and> take (nat (int (Suc k) * bs)) (all_token_ids (request_life H bs nh r rs)) =
      take (nat (int (Suc k) * bs)) (all_token_ids (request_life H bs nh s ss)) \<and>
    (\<forall>i\<le>k. block_keys bs (request_life H bs nh r rs) i = block_keys bs (request_life H bs nh s ss) i)"
  by (rule equal_hashes_mean_equal_prefixes [where H = H and bs = bs and seed = seed, OF assms(1-4) assms(6-9) [unfolded assms(5)],
        folded assms(5)])

theorem equal_hash_equal_prefix_witness:
  "take 4 (all_token_ids (request_life ex_hash 2 (compute_none_hash ex_hash 0) (ex_request ''a'' [1, 2, 3]) [[4], [5]])) =
   take 4 (all_token_ids (request_life ex_hash 2 (compute_none_hash ex_hash 0) (ex_request ''b'' [1, 2, 3, 4, 6]) []))"
proof -
  let ?nh = "compute_none_hash ex_hash 0"
  let ?r = "request_life ex_hash 2 ?nh (ex_request ''a'' [1, 2, 3]) [[4], [5]]"
    and ?s = "request_life ex_hash 2 ?nh (ex_request ''b'' [1, 2, 3, 4, 6]) []"
  have new: "block_hashes (ex_request n ts) = []" for n ts by (simp add: ex_request_def)
  have ne: "ex_hash x \<noteq> []" for x by (simp add: ex_hash_def split: hash_input.split)
  have len: "length (block_hashes ?r) = 2" "length (block_hashes ?s) = 2" by code_simp+
  have upto: "{..<2::nat} = {0, Suc 0}" by auto
  let ?d = "digested 2 ?nh ?r" and ?e = "digested 2 ?nh ?s" and ?root = "HashNone ''pvllm-none-hash'' 0"
  have same: "?e 0 = ?d 0" "?e (Suc 0) = ?d (Suc 0)" by code_simp+
  have differ: "ex_hash (?d 0) \<noteq> ex_hash (?d (Suc 0))" "ex_hash (?d 0) \<noteq> ex_hash ?root" "ex_hash (?d (Suc 0)) \<noteq> ex_hash ?root" by code_simp+
  have "collision_free ex_hash 2 0 ?r ?s"
    unfolding collision_free_def Let_def len upto image_insert image_empty same using differ by (auto simp: inj_on_def)
  moreover have "block_hashes ?r ! 1 = block_hashes ?s ! 1" by code_simp
  moreover have "1 < length (block_hashes ?r)" "1 < length (block_hashes ?s)" unfolding len by simp_all
  ultimately show ?thesis
    using equal_hash_equal_prefix [of 2 "ex_request ''a'' [1, 2, 3]" "ex_request ''b'' [1, 2, 3, 4, 6]" ex_hash ?nh 0 "[[4], [5]]" "[]" 1 1]
      new ne by simp
qed

text \<open>
  C16. How much of a step a request keeps. Of the tokens a step brings, \<open>update_request_with_output\<close>
  keeps those up to the first with which the request ends, and all if there is none. A request ends with
  a token if it then has its minimum of output tokens and the token is the end of sequence or a stop
  token, or the request has its maximum of output tokens or fills the context. It then has the status,
  and for a stop token the stop reason, of that token, and a reason to report; otherwise both are as they
  were. Nothing behind the end is kept, whatever speculation had accepted.
\<close>

theorem stopped_at_first_stop:
  assumes "sampling_params r = Some sp"
  shows "\<exists>n stopped r'. update_request_with_output H L ts r = Inr (take n ts, stopped, r') \<and> n \<le> length ts \<and>
    output_token_ids r' = output_token_ids r @ take n ts \<and> all_token_ids r' = all_token_ids r @ take n ts \<and>
    (\<forall>j<n. ends_with L sp r ts j \<longleftrightarrow> stopped \<and> Suc j = n) \<and>
    (if stopped
     then 0 < n \<and> status r' = end_status sp (ts ! (n - 1)) \<and> stop_reason r' = end_reason sp (ts ! (n - 1)) (stop_reason r) \<and>
       is_finished r' \<and> get_finished_reason r' \<noteq> None
     else n = length ts \<and> status r' = status r \<and> stop_reason r' = stop_reason r)"
  by (rule update_request_trims [OF assms])

theorem stopped_at_first_stop_witness:
  "\<exists>n stopped r'. update_request_with_output ex_hash 16 [9, 7, 8] ex_req5 = Inr (take n [9, 7, 8], stopped, r') \<and>
     output_token_ids r' = output_token_ids ex_req5 @ take n [9, 7, 8] \<and> n \<le> length [9, 7, 8 :: int]"
proof -
  have "sampling_params ex_req5 = Some ex_sampling" by code_simp
  from stopped_at_first_stop [OF this, of ex_hash 16 "[9, 7, 8]"] show ?thesis
    by (elim exE conjE) (intro exI conjI)
qed

section \<open>The encoder cache\<close>

text \<open>
  C17. \<open>can_allocate\<close> says yes exactly when the item fits the cache beside everything referenced.
  It makes the room by evicting unreferenced entries, oldest first, and only as a prefix of the
  list of unreferenced ones; entries with a reference survive, evictions are reported, and the
  slot accounts stay exact.
\<close>

theorem encoder_eviction:
  assumes "enc_inv c" and "feature_at r i = Inr f"
  shows "\<exists>k c'. can_allocate r i c = Inr (num_embeds f \<le> cache_size c \<and> num_embeds f \<le> num_freeable_slots c, c') \<and>
    enc_inv c' \<and> freeable c' = drop k (freeable c) \<and> freed c' = freed c @ take k (freeable c) \<and>
    (\<forall>h\<in>referenced c. map_of (enc_cached c') h = map_of (enc_cached c) h) \<and>
    (num_embeds f \<le> cache_size c \<and> num_embeds f \<le> num_freeable_slots c \<longrightarrow> num_embeds f \<le> num_free_slots c')"
proof -
  from can_allocate_spec [OF assms] obtain k c' where
    c': "can_allocate r i c = Inr (num_embeds f \<le> cache_size c \<and> num_embeds f \<le> num_freeable_slots c, c')"
    "enc_inv c'" "freeable c' = drop k (freeable c)" "freed c' = freed c @ take k (freeable c)"
    "enc_cached c' = filter (\<lambda>(h, rs). h \<notin> set (take k (freeable c))) (enc_cached c)"
    "num_embeds f \<le> cache_size c \<and> num_embeds f \<le> num_freeable_slots c \<longrightarrow> num_embeds f \<le> num_free_slots c'" by blast
  have "map_of (enc_cached c') h = map_of (enc_cached c) h" if "h \<in> referenced c" for h
  proof -
    have "h \<notin> set (take k (freeable c))"
      using referenced_not_freeable [OF assms(1) that] by (meson in_set_takeD)
    then show ?thesis unfolding c'(5) by (rule map_of_filter_keys)
  qed
  then show ?thesis using c' by blast
qed

theorem encoder_eviction_witness:
  "\<exists>c'. can_allocate ((ex_request ''a'' [1, 2])\<lparr>mm_features := [ex_image ''i'' 0]\<rparr>) 0 ex_encoder = Inr (True, c') \<and>
     enc_inv c' \<and> 2 \<le> num_free_slots c'"
proof -
  let ?r = "(ex_request ''a'' [1, 2])\<lparr>mm_features := [ex_image ''i'' 0]\<rparr>"
  have f: "feature_at ?r 0 = Inr (ex_image ''i'' 0)" by (simp add: feature_at_def)
  have "num_embeds (ex_image ''i'' 0) = 2" "cache_size ex_encoder = 4" "num_freeable_slots ex_encoder = 4" by code_simp+
  with encoder_eviction [OF ex_encoder_inv f] show ?thesis by auto
qed

text \<open>
  C18. Finishing a request drops every reference it holds, without raising: none of the entries it
  used names it any more, other requests keep their inputs, and the accounts stay exact.
\<close>

theorem encoder_release:
  assumes "enc_inv c" and "\<forall>i\<in>set (get_cached_input_ids r c). i < length (mm_features r)"
  shows "\<exists>c'. enc_free r c = Inr c' \<and> enc_inv c' \<and> cache_size c' = cache_size c \<and>
    get_cached_input_ids r c' = [] \<and>
    (\<forall>r'. request_id r' \<noteq> request_id r \<longrightarrow> get_cached_input_ids r' c' = get_cached_input_ids r' c) \<and>
    (\<forall>i\<in>set (get_cached_input_ids r c).
       \<forall>rs. map_of (enc_cached c') (mm_identifier (mm_features r ! i)) = Some rs \<longrightarrow> request_id r \<notin> set rs)"
  using enc_free_inv [OF assms] by (auto simp: get_cached_input_ids_of)

theorem encoder_release_witness:
  "\<exists>c c'. allocate (ex_image_request ''a'') 0 ex_encoder = Inr c \<and> get_cached_input_ids (ex_image_request ''a'') c = [0] \<and>
     enc_free (ex_image_request ''a'') c = Inr c' \<and> enc_inv c' \<and> get_cached_input_ids (ex_image_request ''a'') c' = []"
proof -
  let ?r = "ex_image_request ''a''"
  have f: "feature_at ?r 0 = Inr (ex_image ''i'' 0)" by code_simp
  have "0 \<le> num_embeds (ex_image ''i'' 0)" "num_embeds (ex_image ''i'' 0) \<le> num_free_slots ex_encoder" by code_simp+
  with allocate_inv [OF ex_encoder_inv f] obtain c where c: "allocate ?r 0 ex_encoder = Inr c" "enc_inv c" by blast
  have "case allocate ?r 0 ex_encoder of Inl _ \<Rightarrow> False | Inr c \<Rightarrow> get_cached_input_ids ?r c = [0]" by code_simp
  with c have ids: "get_cached_input_ids ?r c = [0]" by simp
  moreover have "0 < length (mm_features ?r)" by code_simp
  ultimately show ?thesis using encoder_release [OF c(2), of ?r] c(1) by auto
qed

section \<open>The external KV store\<close>

text \<open>
  C19. What the connector offers beyond the local cache is a whole number of blocks and never the
  whole request: together with the local tokens at least one block's worth is left to compute.
\<close>

theorem external_match_leaves_work:
  assumes "0 < conn_block_size c" and "0 \<le> n" and "n mod conn_block_size c = 0"
    and "int (length (block_hashes r)) * conn_block_size c \<le> num_tokens r"
  shows "case get_num_new_matched_tokens r n c s of
      (m, s') \<Rightarrow> 0 \<le> m \<and> m mod conn_block_size c = 0 \<and> (m = 0 \<or> n + m + conn_block_size c \<le> num_tokens r) \<and>
        resident_keys s' = resident_keys s"
proof -
  obtain m s' where m: "get_num_new_matched_tokens r n c s = (m, s')" by (cases "get_num_new_matched_tokens r n c s")
  then have "resident_keys s' = resident_keys s"
    by (auto simp: get_num_new_matched_tokens_def longest_prefix_def Let_def split: if_splits)
  then show ?thesis using matched_leaves_work [OF assms(1,2) m assms(4,3)] m by force
qed

theorem external_match_leaves_work_witness:
  "\<exists>m s'. get_num_new_matched_tokens ex_req5 0 ex_connector ex_store = (m, s') \<and> m = 2 \<and> 0 + m + 2 \<le> num_tokens ex_req5"
proof -
  have "conn_block_size ex_connector = 2" by code_simp
  then have "case get_num_new_matched_tokens ex_req5 0 ex_connector ex_store of
      (m, s') \<Rightarrow> 0 \<le> m \<and> m mod 2 = 0 \<and> (m = 0 \<or> 0 + m + 2 \<le> num_tokens ex_req5) \<and> resident_keys s' = resident_keys ex_store"
    using external_match_leaves_work [of ex_connector 0 ex_req5 ex_store] by (simp add: ex_req5_fields)
  moreover have "fst (get_num_new_matched_tokens ex_req5 0 ex_connector ex_store) = 2" by code_simp
  ultimately show ?thesis by (cases "get_num_new_matched_tokens ex_req5 0 ex_connector ex_store") auto
qed

text \<open>
  C20. The external store over its whole life. Start with an empty store and let it be written, read,
  looked up in and cleared in any order, by any connectors. Nothing of it raises, and the store then
  holds exactly the most recent of the keys written since it was last cleared, each counted where it
  was last written, as many as its capacity (not negative), in that order. Looking up a list of keys finds the longest prefix of it
  that is held.
\<close>

theorem store_is_lru:
  assumes "kv_store_init name bw lat cap = Inr s0" and "case cap of None \<Rightarrow> True | Some c \<Rightarrow> 0 \<le> c"
  shows "\<exists>s. store_run ops s0 = Inr s \<and> resident_keys s = newest cap (written ops []) \<and>
    (let m = fst (longest_prefix hs s); held = set (newest cap (written ops []))
     in m \<le> length hs \<and> set (take m hs) \<subseteq> held \<and> (m = length hs \<or> hs ! m \<notin> held))"
proof -
  have cap: "\<forall>c. capacity_blocks s0 = Some c \<longrightarrow> 0 \<le> c" and s0: "capacity_blocks s0 = cap" "resident_keys s0 = newest (capacity_blocks s0) []"
    using assms by (auto simp: kv_store_init_def newest_def split: if_splits option.splits)
  from store_run_newest [OF cap s0(2), of ops] s0(1) obtain s where
    s: "store_run ops s0 = Inr s" "resident_keys s = newest cap (written ops [])" by auto
  obtain m s' where m: "longest_prefix hs s = (m, s')" by (cases "longest_prefix hs s")
  from lookup_maximal [OF m] s m show ?thesis by (auto simp: Let_def le_less)
qed

theorem store_is_lru_witness:
  "\<exists>s. store_run [Write [''a'', ''b''] 0, Lookup [''a''], Write [''c'', ''a''] 0] (projr (kv_store_init ''s'' 1 0 (Some 2))) = Inr s \<and>
     resident_keys s = [''c'', ''a'']"
proof -
  let ?ops = "[Write [''a'', ''b''] 0, Lookup [''a''], Write [''c'', ''a''] 0]"
  have i: "kv_store_init ''s'' 1 0 (Some 2) = Inr (projr (kv_store_init ''s'' 1 0 (Some 2)))" by code_simp
  have n: "newest (Some 2) (written ?ops []) = [''c'', ''a'']" by code_simp
  have c: "case Some 2 of None \<Rightarrow> True | Some c \<Rightarrow> 0 \<le> (c :: int)" by simp
  from store_is_lru [OF i c, of ?ops "[]"] show ?thesis unfolding n by (elim exE conjE) (intro exI conjI)
qed

section \<open>KV cache groups\<close>

text \<open>
  C21. Grouping a model's layers, when it answers: every layer is in exactly one group, no group is
  empty, the layers of a group are of one type (the type of the spec recorded for it), and all
  groups occupy the same number of bytes per block, so that one pool can hold them.
\<close>

theorem groups_partition_layers:
  assumes "unify_page_sizes specs = Inr unified" and "distinct (map fst specs)"
    and "get_kv_cache_groups specs = Inr groups"
  shows "mset (concat (map layer_names groups)) = mset (map fst specs) \<and>
    (\<forall>g\<in>set groups. is_layer_group unified g) \<and>
    (\<exists>page. \<forall>g\<in>set groups. page_size_bytes (group_spec g) = Inr page)"
  using kv_cache_groups_partition [OF assms] by blast

theorem groups_partition_layers_witness:
  "\<exists>groups. get_kv_cache_groups ex_hybrid = Inr groups \<and>
     map layer_names groups = [[''f0'', ''f1''], [''w0'', ''w3''], [''w1'', ''w4''], [''w2'']] \<and>
     mset (concat (map layer_names groups)) = mset (map fst ex_hybrid)"
proof -
  have u: "unify_page_sizes ex_hybrid = Inr ex_hybrid" by code_simp
  have d: "distinct (map fst ex_hybrid)" by code_simp
  have g: "case get_kv_cache_groups ex_hybrid of Inl _ \<Rightarrow> False
      | Inr gs \<Rightarrow> map layer_names gs = [[''f0'', ''f1''], [''w0'', ''w3''], [''w1'', ''w4''], [''w2'']]" by code_simp
  then obtain gs where "get_kv_cache_groups ex_hybrid = Inr gs"
    "map layer_names gs = [[''f0'', ''f1''], [''w0'', ''w3''], [''w1'', ''w4''], [''w2'']]" by (auto split: sum.splits)
  with groups_partition_layers [OF u d this(1)] show ?thesis by (intro exI [of _ gs]) (simp only: simp_thms)
qed

section \<open>The block pool and its queue\<close>

text \<open>
  C22. Giving blocks back: every reference is returned exactly once and never below zero; the
  blocks whose last reference goes are queued for reuse, those without a cached content at the
  front (when caching is on), the others behind everything already free, each group in the
  order given; no block loses its hash, so its content can still be hit. The null block is
  never released.
\<close>

theorem free_is_tail_first:
  assumes "pool_inv p xs"
    and "\<forall>b\<in>set bs. real_block p b \<and> (\<not> is_null (blk p b) \<longrightarrow> int (count_list bs b) \<le> ref_cnt (blk p b))"
  shows "let nn = filter (\<lambda>b. \<not> is_null (blk p b)) bs;
             rel = released (fq_blocks (free_block_queue p)) nn;
             plain = (\<lambda>b. block_hash (blk p b) = None \<and> enable_caching p)
         in \<exists>p'. free_blocks bs p = Inr p' \<and>
              pool_inv p' (filter plain rel @ xs @ filter (\<lambda>b. \<not> plain b) rel) \<and>
              (\<forall>c. ref_cnt (blk p' c) = ref_cnt (blk p c) - int (count_list nn c)) \<and>
              (\<forall>c. block_hash (blk p' c) = block_hash (blk p c)) \<and>
              cached_block_hash_to_block p' = cached_block_hash_to_block p"
  using free_blocks_inv [OF assms] unfolding Let_def by blast

theorem free_is_tail_first_witness:
  "\<exists>p1 p2. get_new_blocks 3 ex_pool = Inr ([Blk 0, Blk 1, Blk 2], p1) \<and>
     free_blocks [Blk 2, Blk 1, Blk 0] p1 = Inr p2 \<and> pool_inv p2 [Blk 2, Blk 1, Blk 0, Blk 3]"
proof -
  have three: "take (nat 3) [Blk 0, Blk 1, Blk 2, Blk 3] = [Blk 0, Blk 1, Blk 2]"
    "drop (nat 3) [Blk 0, Blk 1, Blk 2, Blk 3] = [Blk 3]" by code_simp+
  from get_new_blocks_inv [OF ex_pool_inv, of 3] obtain p1 where
    G: "get_new_blocks 3 ex_pool = Inr ([Blk 0, Blk 1, Blk 2], p1)" "pool_inv p1 [Blk 3]" "same_config ex_pool p1"
    "\<And>c. ref_cnt (blk p1 c) = ref_cnt (blk ex_pool c) + (if c \<in> {Blk 0, Blk 1, Blk 2} then 1 else 0)"
    "\<And>c. block_hash (blk p1 c) = (if c \<in> {Blk 0, Blk 1, Blk 2} then None else block_hash (blk ex_pool c))"
    unfolding three by auto
  have zero: "ref_cnt (blk ex_pool (Blk i)) = 0" if "i < 4" for i
    using pool_invD(3) [OF ex_pool_inv, of "Blk i"] that
    by (auto simp: ex_pool_real)
  have null: "\<not> is_null (blk p1 (Blk i))" for i
    using pool_invD(1) [OF G(2)] G(3) block_pool_init_inv(5) [OF ex_pool]
    by (simp add: pool_core_def null_ok_def same_config_def)
  have real: "real_block p1 (Blk i) \<longleftrightarrow> i < 4" for i using same_config_real [OF G(3)] ex_pool_real by simp
  have caching: "enable_caching p1"
    using G(3) block_pool_init_inv(4) [OF ex_pool] by (simp add: same_config_def)
  have pre: "\<forall>b\<in>set [Blk 2, Blk 1, Blk 0]. real_block p1 b \<and>
      (\<not> is_null (blk p1 b) \<longrightarrow> int (count_list [Blk 2, Blk 1, Blk 0] b) \<le> ref_cnt (blk p1 b))"
    by (simp add: real G(4) zero)
  have refs: "ref_cnt (blk p1 (Blk i)) = 1" "block_hash (blk p1 (Blk i)) = None" if "i < 3" for i
    using that G(4) [of "Blk i"] G(5) [of "Blk i"] zero [of i]
    by (auto simp: less_Suc_eq numeral_3_eq_3 numeral_2_eq_2)
  have "released (fq_blocks (free_block_queue p1)) [Blk 2, Blk 1, Blk 0] = [Blk 2, Blk 1, Blk 0]"
    by (simp add: released_def refs)
  then show ?thesis
    using free_is_tail_first [OF G(2) pre] G(1) caching by (auto simp: Let_def null refs)
qed

text \<open>
  C23. New blocks come from the head of the free queue, each with one reference and stripped of
  its cached content, or the call raises because there are too few; nothing else changes.
\<close>

theorem new_blocks_from_the_head:
  assumes "pool_inv p xs" and "0 \<le> n"
  shows "if int (length xs) < n then get_new_blocks n p = Inl ValueError
         else \<exists>p'. get_new_blocks n p = Inr (take (nat n) xs, p') \<and> pool_inv p' (drop (nat n) xs) \<and>
           (\<forall>c. ref_cnt (blk p' c) = ref_cnt (blk p c) + (if c \<in> set (take (nat n) xs) then 1 else 0)) \<and>
           (\<forall>c. block_hash (blk p' c) = (if c \<in> set (take (nat n) xs) then None else block_hash (blk p c)))"
  using get_new_blocks_too_many [OF assms(1)] get_new_blocks_inv [OF assms] by fastforce

theorem new_blocks_from_the_head_witness:
  "\<exists>p'. get_new_blocks 2 ex_pool = Inr ([Blk 0, Blk 1], p') \<and> pool_inv p' [Blk 2, Blk 3]"
  using new_blocks_from_the_head [OF ex_pool_inv, of 2] by (auto simp: numeral_2_eq_2)

text \<open>
  C24. Publication and lookup agree. Let \<open>cache_full_blocks\<close> be called for a group with the hashes and
  the blocks of a request, to publish positions \<open>m\<close> to \<open>n - 1\<close>. It returns; every lookup that hit before
  hits the same block; lookups for another group, or for a hash that was not among those published, give
  what they gave before; and the hash of every published block (one that is not null and had no hash)
  now hits under this group: the block that held it before, or else a block published here for that
  very hash.
\<close>

theorem publish_then_find:
  assumes "pool_inv p xs" and "\<forall>b\<in>set blocks. real_block p b" and "0 \<le> g" and "g < 2 ^ 32"
  shows "\<exists>p'. cache_full_blocks hashes blocks m n g p = Inr p' \<and> pool_inv p' xs \<and>
    (\<forall>h f b. get_cached_block p h f = Inr (Some b) \<longrightarrow> get_cached_block p' h f = Inr (Some b)) \<and>
    (\<forall>h f. f \<noteq> g \<or> (\<forall>i. published_at hashes blocks m n i \<longrightarrow> hashes ! i \<noteq> h) \<longrightarrow> get_cached_block p' h f = get_cached_block p h f) \<and>
    (\<forall>i. published_at hashes blocks m n i \<and> block_hash (blk p (blocks ! i)) = None \<and> \<not> is_null (blk p (blocks ! i)) \<and>
        (\<forall>j. m \<le> j \<and> j < i \<longrightarrow> blocks ! j \<noteq> blocks ! i) \<longrightarrow>
      (\<exists>c. get_cached_block p' (hashes ! i) g = Inr (Some c) \<and>
        (get_cached_block p (hashes ! i) g = Inr None \<longrightarrow>
           (\<exists>j. published_at hashes blocks m n j \<and> c = blocks ! j \<and> hashes ! j = hashes ! i))))"
  by (rule publication [OF assms])

theorem publish_then_find_witness:
  "\<exists>p' c. cache_full_blocks [''A'', ''B''] [Blk 0, Blk 1] 0 2 1 ex_pool = Inr p' \<and>
     get_cached_block p' ''B'' 1 = Inr (Some c) \<and> get_cached_block p' ''B'' 0 = Inr None"
proof -
  have real: "\<forall>b\<in>set [Blk 0, Blk 1]. real_block ex_pool b" by (simp add: ex_pool_real)
  have before: "get_cached_block ex_pool ''B'' 0 = Inr None" by code_simp
  have plain: "block_hash (blk ex_pool (Blk (Suc 0))) = None" by code_simp
  have at: "published_at [''A'', ''B''] [Blk 0, Blk 1] 0 2 (Suc 0)" by (simp add: published_at_def)
  have g: "(0 :: int) \<le> 1" "(1 :: int) < 2 ^ 32" by simp_all
  from publish_then_find [OF ex_pool_inv real g, of "[''A'', ''B'']" 0 2] obtain p' where
    run: "cache_full_blocks [''A'', ''B''] [Blk 0, Blk 1] 0 2 1 ex_pool = Inr p'" and
    other: "\<forall>h f. f \<noteq> 1 \<or> (\<forall>i. published_at [''A'', ''B''] [Blk 0, Blk 1] 0 2 i \<longrightarrow> [''A'', ''B''] ! i \<noteq> h) \<longrightarrow>
      get_cached_block p' h f = get_cached_block ex_pool h f" and
    here: "\<forall>i. published_at [''A'', ''B''] [Blk 0, Blk 1] 0 2 i \<and> block_hash (blk ex_pool ([Blk 0, Blk 1] ! i)) = None \<and>
        \<not> is_null (blk ex_pool ([Blk 0, Blk 1] ! i)) \<and> (\<forall>j. 0 \<le> j \<and> j < i \<longrightarrow> [Blk 0, Blk 1] ! j \<noteq> [Blk 0, Blk 1] ! i) \<longrightarrow>
      (\<exists>c. get_cached_block p' ([''A'', ''B''] ! i) 1 = Inr (Some c) \<and>
        (get_cached_block ex_pool ([''A'', ''B''] ! i) 1 = Inr None \<longrightarrow>
           (\<exists>j. published_at [''A'', ''B''] [Blk 0, Blk 1] 0 2 j \<and> c = [Blk 0, Blk 1] ! j \<and> [''A'', ''B''] ! j = [''A'', ''B''] ! i)))"
    by (elim exE conjE)
  have "get_cached_block p' ''B'' 0 = Inr None" using other [rule_format, of 0 "''B''"] before by simp
  moreover have "\<exists>c. get_cached_block p' ''B'' 1 = Inr (Some c)"
    using here [rule_format, of "Suc 0"] at plain by (auto simp: ex_pool_null less_Suc_eq)
  ultimately show ?thesis using run by blast
qed

text \<open>
  C25. Resetting the prefix cache is refused, with no effect, while any block but the null block
  is referenced; otherwise it empties the map and takes the hash off every block.
\<close>

theorem reset_only_when_idle:
  assumes "pool_inv p xs"
  shows "case pool_reset_prefix_cache p of
           (False, p') \<Rightarrow> p' = p \<and> (\<exists>b. real_block p b \<and> null_block p \<noteq> Some b \<and> ref_cnt (blk p b) \<noteq> 0)
         | (True, p') \<Rightarrow> pool_inv p' xs \<and> cached_block_hash_to_block p' = [] \<and>
             (\<forall>b. real_block p b \<longrightarrow> block_hash (blk p' b) = None) \<and>
             (\<forall>b. real_block p b \<and> null_block p \<noteq> Some b \<longrightarrow> ref_cnt (blk p b) = 0)"
  using reset_inv [OF assms] by (cases "pool_reset_prefix_cache p") (auto split: bool.split)

theorem reset_only_when_idle_witness:
  "\<exists>p'. pool_reset_prefix_cache ex_pool = (True, p') \<and> cached_block_hash_to_block p' = []"
proof -
  have "fst (pool_reset_prefix_cache ex_pool)" by code_simp
  then show ?thesis using reset_only_when_idle [OF ex_pool_inv]
    by (cases "pool_reset_prefix_cache ex_pool") auto
qed

text \<open>
  C26. The assertions of \<open>_check_invariants\<close> hold in every state the operations reach: the walk of
  the queue ends and finds as many blocks as counted, free and allocated blocks add up to the
  pool, and the usage lies between 0 and 1.
\<close>

theorem debug_check_passes:
  assumes "pool_inv p xs"
  shows "check_invariants p = Some (Inr ()) \<and> 0 \<le> get_usage p \<and> get_usage p \<le> 1"
proof -
  have "check_invariants p = Some (Inr ())" by (rule check_invariants_pass [OF assms])
  moreover from this have "0 \<le> get_usage p \<and> get_usage p \<le> 1"
    by (auto simp: check_invariants_def Let_def split: option.splits if_splits)
  ultimately show ?thesis by simp
qed

theorem debug_check_passes_witness: "check_invariants ex_pool = Some (Inr ())"
  using debug_check_passes [OF ex_pool_inv] by simp

text \<open>
  C27. The intrusive doubly linked free queue is a list of blocks: popping one or several takes from the
  front, or raises when there is none, unlinking removes one block wherever it stands, returning puts
  one at the back and several at the back or at the front in the order given, and the walk over the
  links reads the list back.
\<close>

theorem queue_refines_list:
  assumes "fq_repr q xs"
  shows "(if xs = [] then popleft q = Inl ValueError else \<exists>q'. popleft q = Inr (hd xs, q') \<and> fq_repr q' (tl xs)) \<and>
         (Blk i \<notin> set xs \<longrightarrow> (\<exists>q'. append_block (Blk i) q = Inr q' \<and> fq_repr q' (xs @ [Blk i]))) \<and>
         (n \<le> length xs \<longrightarrow> (\<exists>q'. popleft_n n q = Inr (take n xs, q') \<and> fq_repr q' (drop n xs))) \<and>
         (b \<in> set xs \<longrightarrow> (\<exists>q'. remove_block b q = Inr q' \<and> fq_repr q' (remove1 b xs))) \<and>
         (set us \<inter> set xs = {} \<and> distinct us \<and> FakeHead \<notin> set us \<and> FakeTail \<notin> set us \<longrightarrow>
           (\<exists>q'. append_n us q = Inr q' \<and> fq_repr q' (xs @ us)) \<and>
           (\<exists>q'. prepend_n us q = Inr q' \<and> fq_repr q' (us @ xs))) \<and>
         get_all_free_blocks q = Some xs"
proof (intro conjI impI)
  show "if xs = [] then popleft q = Inl ValueError else \<exists>q'. popleft q = Inr (hd xs, q') \<and> fq_repr q' (tl xs)"
    using assms popleft_empty [of q] popleft_repr [of q] by (cases xs) auto
  show "\<exists>q'. append_block (Blk i) q = Inr q' \<and> fq_repr q' (xs @ [Blk i])" if "Blk i \<notin> set xs"
    using append_repr [OF assms that] by blast
  show "\<exists>q'. popleft_n n q = Inr (take n xs, q') \<and> fq_repr q' (drop n xs)" if "n \<le> length xs"
    using fq.pop_take_drop [OF assms that] by blast
  show "\<exists>q'. remove_block b q = Inr q' \<and> fq_repr q' (remove1 b xs)" if "b \<in> set xs"
    using fq.unlink_remove1 [OF assms that] by blast
  show "get_all_free_blocks q = Some xs" by (rule get_all_free_blocks_repr [OF assms])
next
  assume us: "set us \<inter> set xs = {} \<and> distinct us \<and> FakeHead \<notin> set us \<and> FakeTail \<notin> set us"
  show "\<exists>q'. append_n us q = Inr q' \<and> fq_repr q' (xs @ us)"
    using append_n_repr [OF assms, of us] us by auto
  show "\<exists>q'. prepend_n us q = Inr q' \<and> fq_repr q' (us @ xs)"
    using prepend_n_repr [OF assms, of us] us by auto
qed

theorem queue_refines_list_witness:
  "\<exists>q'. popleft_n 2 (free_block_queue ex_pool) = Inr ([Blk 0, Blk 1], q') \<and> fq_repr q' [Blk 2, Blk 3]"
  using conjunct1 [OF conjunct2 [OF conjunct2 [OF queue_refines_list [OF pool_invD(2) [OF ex_pool_inv], of 0 2]]]] by simp

section \<open>Whole runs of the scheduler\<close>

text \<open>
  C1. A scheduler without a KV connector: whatever requests came, ran, were preempted, finished or were aborted before, computing
  the next step never raises. It grants at least one token to each request it schedules, each of
  which is in the running list and scheduled once; the tokens add up to the reported total, within
  the budget of the step; the running list is within its limit; and every running request has
  slots in the KV cache for all the tokens it has then computed.
\<close>

theorem steps_within_limits:
  assumes "scheduler_init H cf kvc caching seed n None = Inr s0" and "sane_setup cf kvc" and "reaches H s0 s"
  shows "\<exists>so s'. schedule s = Inr (so, s') \<and>
    distinct (map fst (so_num_scheduled_tokens so)) \<and>
    (\<forall>(rid, m)\<in>set (so_num_scheduled_tokens so). 1 \<le> m \<and> rid \<in> set (running s')) \<and>
    so_total_num_scheduled_tokens so = sum_list (map snd (so_num_scheduled_tokens so)) \<and>
    so_total_num_scheduled_tokens so \<le> max_num_scheduled_tokens cf \<and>
    int (length (running s')) \<le> max_num_running_reqs cf \<and>
    (\<forall>rid\<in>set (running s'). \<exists>r. map_of (requests s') rid = Some r \<and> has_slots (kvm s') rid (num_computed_tokens r))"
proof -
  note ready = run_ready [OF assms]
  from schedule_ok [OF ready(1)] ready(2) obtain so s' where
    S: "schedule s = Inr (so, s')" "in_flight H so s'"
    "so_total_num_scheduled_tokens so = sum_list (map snd (so_num_scheduled_tokens so))"
    "so_total_num_scheduled_tokens so \<le> max_num_scheduled_tokens cf"
    "int (length (running s')) \<le> max_num_running_reqs cf" by auto
  note F = S(2) [unfolded in_flight_def]
  from F have "\<exists>r. map_of (requests s') rid = Some r \<and> has_slots (kvm s') rid (num_computed_tokens r)"
    if "rid \<in> set (running s')" for rid using core_running [OF _ that] unfolding table_def by blast
  moreover have "1 \<le> m \<and> rid \<in> set (running s')" if "(rid, m) \<in> set (so_num_scheduled_tokens so)" for rid m
    using F that map_of_is_SomeI [OF _ that] by fastforce
  ultimately show ?thesis using S F by blast
qed

theorem steps_within_limits_witness: "\<exists>so s'. schedule ex_sched1 = Inr (so, s') \<and> so_total_num_scheduled_tokens so \<le> 8"
  using steps_within_limits [OF ex_sched0 ex_setup ex_reaches] by (auto simp: ex_sched_conf_def)

text \<open>
  C3. Without a KV connector the results of a step can always be folded back: if the worker answers the step as the runner
  does (no token for an unfinished prompt, one to one more than the drafts otherwise, a vector for a
  pooling request whose prompt is complete), \<open>update_from_output\<close> does not raise, and afterwards
  every running request holds slots for what it has computed and has something left to compute,
  though rejected drafts were rolled back and finished requests were freed.
\<close>

theorem step_folds_back:
  assumes "scheduler_init H cf kvc caching seed n None = Inr s0" and "sane_setup cf kvc" and "reaches H s0 s"
    and "schedule s = Inr (so, s1)" and "worker_ok so out s1"
  shows "\<exists>outs s2. update_from_output H so out s1 = Inr (outs, s2) \<and> kvm_inv (kvm s2) \<and> enc_inv (encoder s2) \<and>
    (\<forall>rid\<in>set (running s2). \<exists>r. map_of (requests s2) rid = Some r \<and> is_running s2 rid r)"
proof -
  from schedule_ok [OF run_ready(1) [OF assms(1-3)]] assms(4) have "in_flight H so s1" by auto
  from update_from_output_ok [OF this assms(5)] obtain outs s2 where
    U: "update_from_output H so out s1 = Inr (outs, s2)" "ready_inv H s2" by blast
  have "\<exists>r. map_of (requests s2) rid = Some r \<and> is_running s2 rid r" if "rid \<in> set (running s2)" for rid
    using ready_places(2,3) [OF U(2)] that by (fastforce simp: table_def is_waiting_def)
  moreover have "kvm_inv (kvm s2)" "enc_inv (encoder s2)"
    using U(2) by (auto simp: ready_inv_def enc_ok_def dest: core_parts(2,9))
  ultimately show ?thesis using U(1) by blast
qed

theorem step_folds_back_witness:
  "\<exists>outs s2. update_from_output ex_hash (fst ex_decision) ex_answer (snd ex_decision) = Inr (outs, s2) \<and> kvm_inv (kvm s2)"
  using step_folds_back [OF ex_sched0 ex_setup ex_reaches _ ex_worker] ex_decision by auto

text \<open>
  C2. In a scheduler without a KV connector, between steps every known request is in exactly one place: running, with slots for what it has
  computed and at least one token still to compute, or waiting (preempted ones included) with nothing
  computed and no block. A request that is not known holds no block, and no known request is longer
  than the model's context.
\<close>

theorem every_request_has_its_place:
  assumes "scheduler_init H cf kvc caching seed n None = Inr s0" and "sane_setup cf kvc" and "reaches H s0 s"
  shows "distinct (running s @ map entry_id (queue_list (waiting s))) \<and> queue_list (skipped_waiting s) = [] \<and>
    (case map_of (requests s) rid of
       None \<Rightarrow> rid \<notin> set (running s @ map entry_id (queue_list (waiting s))) \<and> holds_none (kvm s) rid
     | Some r \<Rightarrow> (is_running s rid r \<or> is_waiting s rid r) \<and> num_tokens r \<le> max_model_len cf)"
proof -
  note ready = run_ready [OF assms]
  note R = ready_places [OF ready(1)]
  have "num_tokens r \<le> max_model_len cf" if "table s rid = Some r" for r
    using core_parts(4) [of H s] ready that by (simp add: ready_inv_def table_ok_def request_ok_def)
  then show ?thesis using R ready(1) by (auto simp: table_def ready_inv_def split: option.split)
qed

theorem every_request_has_its_place_witness:
  "\<exists>r. map_of (requests ex_sched1) ''a'' = Some r \<and> is_waiting ex_sched1 ''a'' r"
proof -
  have "map_option num_tokens (map_of (requests ex_sched1) ''a'') = Some 5" "running ex_sched1 = []" by code_simp+
  then show ?thesis using every_request_has_its_place [OF ex_sched0 ex_setup ex_reaches, of "''a''"]
    by (auto simp: is_running_def)
qed

text \<open>
  C4. Finishing requests from outside, in any reachable state and whatever ids are given (unknown and
  repeated ones included), does not raise. When the ids are all that are known, nothing is left
  running or waiting, no block of the KV cache is in use, and the prefix cache can be reset.
\<close>

theorem aborting_all_frees_all:
  assumes "scheduler_init H cf kvc caching seed n None = Inr s0" and "sane_setup cf kvc" and "reaches H s0 s"
    and "status_is_finished st"
  shows "\<exists>s'. finish_requests rids st s = Inr s' \<and> dom (map_of (requests s')) = dom (map_of (requests s)) - set rids \<and>
    (fst ` set (requests s) \<subseteq> set rids \<longrightarrow>
       running s' = [] \<and> queue_list (waiting s') = [] \<and> usage (kvm s') = 0 \<and> fst (reset_prefix_cache (kvm s')))"
  using finish_requests_ok [OF run_ready(1) [OF assms(1-3)] assms(4), of rids]
    abort_all_ok [OF run_ready(1) [OF assms(1-3)] assms(4), of rids]
  by (auto simp: table_def dom_map_of_conv_image_fst)

theorem aborting_all_frees_all_witness:
  "\<exists>s'. finish_requests [''zz'', ''a'', ''a''] FINISHED_ABORTED ex_sched1 = Inr s' \<and> usage (kvm s') = 0"
proof -
  have known: "map fst (requests ex_sched1) = [''a'']" by code_simp
  have "fst ` set (requests ex_sched1) \<subseteq> set [''zz'', ''a'', ''a'']"
    unfolding set_map [symmetric] known by simp
  moreover have "status_is_finished FINISHED_ABORTED" by (simp add: status_is_finished_iff)
  ultimately show ?thesis
    using aborting_all_frees_all [OF ex_sched0 ex_setup ex_reaches, of FINISHED_ABORTED "[''zz'', ''a'', ''a'']"]
    by (auto simp del: set_simps)
qed

section \<open>The engine core\<close>

text \<open>
  C28. What the frontend checks of a request, and what it leaves to the client, together make the request
  one the scheduler can serve. Let the input processor accept parameters that \<open>SamplingParams\<close> has built.
  Let also hold what it does not check (\<open>asks\<close>): the id is not in use, the items are within the
  encoder's limits, and when no maximum is given, the minimum fits behind the prompt (a minimum that does not is
  accepted at \<open>input_processor.py\<close> line 158, and such a request can run out of context below it). Then the engine core can build the request, under that id, with the tokens of the prompt
  and nothing computed, and the scheduler may take it in: its prompt is not empty, fits the context,
  and leaves room for all the tokens it may generate.
\<close>

theorem accepted_requests_are_admissible:
  assumes "process_inputs cf rid prompt sp client prio salt lora mm pool = Inr er"
    and "asks cf e rid prompt sp mm" and "fe_max_model_len cf = max_model_len (conf (ec_scheduler e))"
  shows "\<exists>r. from_engine_core_request H er t None = Inr r \<and> request_id r = rid \<and>
    all_token_ids r = (case prompt of Inl text \<Rightarrow> fe_encode cf text | Inr ids \<Rightarrow> ids) \<and>
    admissible (ec_scheduler e) r \<and>
    (case sp of None \<Rightarrow> use_pooling r
     | Some p \<Rightarrow> 1 \<le> max_tokens r \<and> num_tokens r + max_tokens r \<le> fe_max_model_len cf)"
proof -
  obtain r where R: "from_engine_core_request H er t None = Inr r" using accepted_builds [OF assms(1)] by blast
  note A = asks_admissible [OF assms R]
  from A(1,3-5) have "case sp of None \<Rightarrow> use_pooling r
      | Some p \<Rightarrow> 1 \<le> max_tokens r \<and> num_tokens r + max_tokens r \<le> fe_max_model_len cf"
    using assms(3) by (auto simp: admissible_def budget_ok_def num_output_tokens_def split: option.splits)
  then show ?thesis using R A by blast
qed

theorem accepted_requests_are_admissible_witness:
  "\<exists>r. from_engine_core_request ex_hash ex_ecr 0 None = Inr r \<and> admissible ex_sched0 r \<and> max_tokens r \<le> 11"
  using accepted_requests_are_admissible [OF ex_ecr ex_asks, of ex_hash 0] ex_engine_conf ex_admissible
    run_ready(2) [OF ex_sched0 ex_setup reaches.fresh]
  by (auto simp: ex_front_def num_tokens_def)

text \<open>
  C29. An engine whose scheduler has no KV connector: whatever requests the frontend has passed on, whatever was aborted, computed, compiled or run idle
  before: a step of the engine core does not raise, provided the executor answers it as the model
  runner does; the clock does not go back; and every request the engine knew before the step is
  known after it, or an output of the step tells its client that it has finished, and why. The last
  includes requests whose grammar failed to compile.
\<close>

theorem nobody_vanishes:
  assumes "scheduler_init H sc kvc caching seed n None = Inr s0" and "sane_setup sc kvc"
    and "ec_scheduler e0 = s0" and "fe_max_model_len cf = max_model_len sc"
    and "engine_reaches H cf why execute idle (e0, w0) (e, w)" and "answered execute w e"
  shows "\<exists>outs busy e' w'. ec_step H why execute (e, w) = Inr (outs, busy, e', w') \<and> ec_clock e \<le> ec_clock e' \<and>
    (\<forall>rid\<in>fst ` set (requests (ec_scheduler e)).
       rid \<in> fst ` set (requests (ec_scheduler e')) \<or>
       (\<exists>client outputs out. map_of outs client = Some outputs \<and> out \<in> set outputs \<and> eco_request_id out = rid \<and>
          eco_finish_reason out \<noteq> None))"
proof -
  have "engine_ok H e"
    using engine_reaches_ok [OF assms(5)] engine_started [OF assms(1-3)] assms(4) by simp
  from ec_step_ok [OF this assms(6), of why] show ?thesis by (auto simp: knows_def finished_in_def)
qed

theorem nobody_vanishes_witness:
  "\<exists>outs busy e' w'. ec_step ex_hash (\<lambda>_. []) ex_execute (ex_engine1, 0) = Inr (outs, busy, e', w') \<and> ec_clock ex_engine1 \<le> ec_clock e'"
  using nobody_vanishes [OF ex_sched0 ex_setup ex_engine_conf(1,2) ex_engine_runs ex_answered] by blast

section \<open>The grammar backend\<close>

text \<open>
  C30. For every pattern of the supported fragment (literals, escapes, classes, groups, alternation,
  every greedy quantifier, with or without the anchors of the whole), printed as it is written and
  with no more nested groups than the stack has room for, the generator returns, whatever it draws, and its text is in the
  language of the pattern. So when the engine of the standard library agrees that these texts match,
  the generator's own check of its result does not refuse it.
\<close>

theorem regex_text_matches:
  assumes "libs_ok W" and "alt_ok a" and "nest a < group_limit W"
    and "pattern = show_alt a \<or> pattern = ''^'' @ show_alt a @ ''$''"
    and "re_compiles W pattern" and "\<And>t. t \<in> lang_alt a \<Longrightarrow> re_fullmatch W pattern t"
    and "\<forall>m\<in>set unsupported_regex. \<not> has_infix m pattern"
  shows "\<exists>t g'. generate_regex_match W pattern g = Inr (t, g') \<and> t \<in> lang_alt a"
  by (rule generate_regex_ok [OF assms])

theorem regex_text_matches_witness:
  "\<exists>t g'. generate_regex_match ex_libs ''(ab|c)x{2}'' 5 = Inr (t, g') \<and> t \<in> {''abxx'', ''cxx''}"
proof -
  have sup: "\<forall>m\<in>set unsupported_regex. \<not> has_infix m ''(ab|c)x{2}''" by code_simp
  have a: "alt_ok ex_pattern" "nest ex_pattern < group_limit ex_libs"
    by (simp_all add: ex_pattern_def special_def backslash_def ex_libs_def)
  have re: "re_compiles ex_libs p" "t \<in> lang_alt ex_pattern \<Longrightarrow> re_fullmatch ex_libs p t" for p t
    unfolding ex_pattern_lang by (auto simp: ex_libs_def)
  show ?thesis
    using regex_text_matches [OF ex_libs_ok a disjI1 [OF ex_pattern_shown [symmetric]] re sup, of 5]
    unfolding ex_pattern_lang by blast
qed

text \<open>
  C31. On any pattern at all, well-formed or not, the recursive descent ends: it goes no deeper than the
  number of opening parentheses, so a pattern with fewer of them than the groups the stack has room for
  never fails by exhausting it, and returns a text or one of the documented errors.
\<close>

theorem regex_recursion_ends:
  assumes "count_list pattern (CHR ''('') < group_limit W"
  shows "generate_regex_match W pattern g \<noteq> Inl RecursionError"
  by (rule generate_regex_bounded) (use assms in \<open>simp add: opens_def\<close>)

theorem regex_recursion_ends_witness: "generate_regex_match ex_libs ''a((b|)c'' 0 \<noteq> Inl RecursionError"
  by (rule regex_recursion_ends) (simp add: ex_libs_def)

text \<open>
  C32. The generator of JSON and the validator that checks its result were written apart and agree: for a
  schema in \<open>schema_ok\<close> the check adds nothing. That is: no repeated keys, numeric keywords that a
  double represents and that are whole numbers where an integer is asked for, exclusive bounds of
  at most 2 to the 33 in size, and lengths that are not combined with a pattern or a format. (Floats are doubles
  here, rounded as the code rounds them: beyond about 1.8e13 the code's offset of 0.001 from an exclusive
  bound is absorbed, and the check does refuse the generator's number: \<open>exclusive_bound_lost\<close>.) The entry
  point returns exactly what the generator returns, texts and errors, and never an assertion that
  the engine's own output is wrong.
\<close>

theorem json_check_agrees:
  assumes "libs_ok W" and "max_depth < recursion_limit W" and "spec \<noteq> []"
    and "json_loads W spec = Inr schema" and "schema_ok schema"
  shows "generate_for_constraint W ''json'' spec g =
    rbind (generate_json W schema 0 g) (\<lambda>(v, g1). Inr (json_dumps W v, g1))"
  by (rule json_constraint_ok [OF assms])

theorem json_check_agrees_witness:
  "generate_for_constraint ex_libs ''json'' ''s'' 5 = rbind (generate_json ex_libs ex_schema 0 5) (\<lambda>(v, g1). Inr (''4'', g1))"
  using json_check_agrees [OF ex_libs_ok _ _ _ ex_schema_ok, of "''s''" 5]
  by (simp add: ex_libs_def ex_schema_def max_depth_def)

section \<open>From tokens to the client\<close>

text \<open>
  C33. A client that streams with non-empty stop strings never sees text taken back. Let a request's
  parameters have no empty stop string (\<open>SamplingParams\<close> accepts one) and a minimum that is not negative. Over any sequence of steps, each with its new tokens,
  its stop by the engine or its end, the pieces of text given out, put together, are a prefix of the
  request's text, also after a stop string has cut it; and when the request has ended they are the
  whole text. The tokenizer is arbitrary: decoding may hold bytes back or change with context.
\<close>

theorem streaming_never_retracts:
  assumes "'''' \<notin> set (stop p)" and "0 \<le> min_tokens p"
  shows "\<exists>u fin d. stream tk steps (detokenizer_init tk prompt p) = Inr (u, fin, d) \<and> prefix u (output_text d) \<and>
    (fin \<longrightarrow> u = output_text d)"
  using stream_text [OF detokenizer_init_ok(2) [OF assms], of tk steps tk prompt] detokenizer_init_ok(4) [OF assms, of tk prompt]
  by simp

theorem streaming_never_retracts_witness:
  "\<exists>u fin d. stream ex_tok [([97, 101], False, False), ([110, 98], False, False), ([99], False, True)] ex_detok = Inr (u, fin, d) \<and>
     prefix u (output_text d)"
  unfolding ex_detok_def using streaming_never_retracts [OF ex_stop_params] by blast

text \<open>
  C34. Speculation delivers several tokens in one step. Folding them into the text at once stops at the
  same stop string, and leaves the same text, as folding them in one at a time and stopping at the
  first stop string: the search finds the string that is completed first, and the first listed of
  those completed at the same place, also across the border of a step and behind the minimum number
  of tokens.
\<close>

theorem tokens_at_once_or_one_by_one:
  assumes "dt_ok d"
  shows "\<exists>s d1 d2. dt_update tk ts False d = Inr (s, d1) \<and> one_at_a_time tk ts d = Inr (s, d2) \<and> output_text d1 = output_text d2"
  by (rule update_is_one_at_a_time [OF assms])

theorem tokens_at_once_or_one_by_one_witness:
  "\<exists>s d1 d2. dt_update ex_tok [97, 101, 110, 100, 33] False ex_detok = Inr (s, d1) \<and>
     one_at_a_time ex_tok [97, 101, 110, 100, 33] ex_detok = Inr (s, d2) \<and> output_text d1 = output_text d2"
  by (rule tokens_at_once_or_one_by_one [OF ex_detok])

text \<open>
  C35. A request for \<open>n\<close> completions whose output is not streamed (not \<open>DELTA\<close>) is split into children, whose outputs arrive
  in any order and number, the last of each child being its finishing one. The parent answers nothing
  until the last child finishes, and then once, as finished, with the last output of every child in
  the order of the indices.
\<close>

theorem parallel_sampling_answers_once:
  assumes "output_kind sp \<noteq> DELTA" and "fst ` set outs = {0..<nat (n_choices sp)}" and "outs \<noteq> []"
    and "\<forall>(i, c)\<in>set outs. co_index c = int i" and "each_finishes_once outs"
  shows "collect_all rid outs (fan_out (nat (n_choices sp)) (parent_init rid sp)) =
    Inr (replicate (length outs - 1) ([], False) @ [(map (\<lambda>i. the (map_of (rev outs) i)) [0..<nat (n_choices sp)], True)])"
  by (rule parallel_collect [OF assms])

theorem parallel_sampling_answers_once_witness:
  "collect_all ''r'' ex_answers (fan_out 2 (parent_init ''r'' ex_two)) =
     Inr [([], False), ([], False), ([snd (ex_answer_of 0 (Some STOP)), snd (ex_answer_of 1 (Some LENGTH))], True)]"
  using parallel_sampling_answers_once [OF ex_answers, of "''r''"]
  by (simp add: ex_two_def ex_api_def ex_answers_def ex_answer_of_def numeral_2_eq_2)

text \<open>
  C36. Two runs of a request from one state of the model, however many drafts their steps carry, how
  many of them are accepted and how many are proposed: the tokens of the one are the first tokens of
  the other, and each step yields at least one. (An unconstrained request whose content is the
  position-keyed \<open>pseudoword\<close>; its first step carries no draft.)
\<close>

theorem speculation_is_lossless:
  assumes "map_of (constrained_plans m) rid = None" and "content_policy m = ''pseudoword''"
    and "planned_output_length L W rid cap m = Inr (n, m1)"
  shows "\<exists>ts us m2 m3. emit_steps L W rid pos (0 # ns) spec cap m = Inr (ts, m2) \<and>
    emit_steps L W rid pos (0 # ns') spec' cap m = Inr (us, m3) \<and> length ns < length ts \<and> length ns' < length us \<and>
    (prefix ts us \<or> prefix us ts)"
  by (rule spec_lossless [OF assms])

theorem speculation_is_lossless_witness:
  "\<exists>ts us m2 m3. emit_steps ex_sim_libs ex_libs ''a'' 0 [0, 2, 2] 2 8 ex_sim = Inr (ts, m2) \<and>
     emit_steps ex_sim_libs ex_libs ''a'' 0 [0, 0] 0 8 ex_sim = Inr (us, m3) \<and> (prefix ts us \<or> prefix us ts)"
proof -
  have "planned_output_length ex_sim_libs ex_libs ''a'' 8 ex_sim = Inr (6, ex_sim)"
    by (simp add: planned_output_length_def ex_sim_def)
  from speculation_is_lossless [OF _ _ this, of 0 "[2, 2]" 2 "[0]" 0] show ?thesis by (auto simp: ex_sim_def)
qed

section \<open>The model runner\<close>



end
